(* ===== verification/Prelude.thy ===== *)
theory Prelude
  imports Complex_Main "HOL-Library.Word" "HOL-Library.Multiset" "HOL-Library.List_Lexorder"
begin

unbundle bit_operations_syntax

text \<open>
  Shared vocabulary of the development: the machine types of the Win32 build (\<open>unsigned int\<close>,
  \<open>DWORD\<close> and \<open>size_t\<close> are 32 bits wide, \<open>wchar_t\<close> 16 bits), wide string literals, the Windows
  word macros, decimal printing, and the two points where the C++ standard library leaves the
  program's behaviour open: the order in which \<open>std::sort\<close> puts elements that compare equal, and
  the order in which an \<open>unordered_map\<close> is iterated. Both are parameters (record \<open>stdlib\<close>) under
  the contract of the locale \<open>stdlib_laws\<close>; \<open>ref_stdlib\<close> is a concrete library that meets it.
\<close>

named_theorems wstr_simps \<open>evaluation of wide string literals\<close>
named_theorems word_macros \<open>unfolding of the Windows word macros\<close>

section \<open>Machine types and strings\<close>

type_synonym u8 = "8 word"
type_synonym u16 = "16 word"
type_synonym u32 = "32 word"

type_synonym wchar = "16 word"
type_synonym wstring = "wchar list"
type_synonym bytes = "u8 list"

text \<open>A wide literal \<open>L"..."\<close> of the source: every character of an ASCII literal is one unit.\<close>

definition wlit :: "string \<Rightarrow> wstring" where
  "wlit s = map of_char s"

text \<open>A narrow literal, the bytes of a \<open>char\<close> array without the terminator.\<close>

definition blit :: "string \<Rightarrow> bytes" where
  "blit s = map of_char s"

lemma wlit_Nil [simp]: "wlit [] = []"
  by (simp add: wlit_def)

lemma wlit_Cons [wstr_simps]: "wlit (c # s) = of_char c # wlit s"
  by (simp add: wlit_def)

lemma blit_Nil [simp]: "blit [] = []"
  by (simp add: blit_def)

lemma blit_Cons [wstr_simps]: "blit (c # s) = of_char c # blit s"
  by (simp add: blit_def)

lemma length_wlit [simp]: "length (wlit s) = length s"
  by (simp add: wlit_def)

lemma length_blit [simp]: "length (blit s) = length s"
  by (simp add: blit_def)

lemma wlit_eq_Nil [simp]: "wlit s = [] \<longleftrightarrow> s = []"
  by (simp add: wlit_def)

lemma of_char_nat_less: "(of_char c :: nat) < 256"
  by (cases c) (simp add: of_char_def)

lemma unat_of_char_wchar: "unat (of_char c :: wchar) = of_char c"
proof -
  have "unat (of_char c :: wchar) = unat (of_nat (of_char c) :: wchar)"
    by (simp only: of_nat_of_char)
  also have "\<dots> = of_char c"
    using less_trans [OF of_char_nat_less [of c], of 65536] by (subst unat_of_nat) simp
  finally show ?thesis .
qed

lemma of_char_wchar_inj: "(of_char c :: wchar) = of_char d \<longleftrightarrow> c = d"
proof
  assume "(of_char c :: wchar) = of_char d"
  then have "unat (of_char c :: wchar) = unat (of_char d :: wchar)" by simp
  then have "(of_char c :: nat) = of_char d"
    by (simp add: unat_of_char_wchar del: of_char_eq_iff)
  then show "c = d" by simp
qed simp

lemma wlit_inj [simp]: "wlit s = wlit t \<longleftrightarrow> s = t"
proof (induction s arbitrary: t)
  case Nil
  show ?case by (auto simp: wlit_def)
next
  case (Cons c s)
  then show ?case by (cases t) (auto simp: wlit_def of_char_wchar_inj)
qed

section \<open>Windows word macros\<close>

text \<open>\<open>MAKELONG\<close>, \<open>LOWORD\<close> and \<open>HIWORD\<close> of the Windows headers.\<close>

definition MAKELONG :: "u32 \<Rightarrow> u32 \<Rightarrow> u32" where
  "MAKELONG a b = ucast (ucast a :: u16) OR push_bit 16 (ucast (ucast b :: u16))"

definition LOWORD :: "u32 \<Rightarrow> u16" where
  "LOWORD l = ucast (l AND 0xFFFF)"

definition HIWORD :: "u32 \<Rightarrow> u16" where
  "HIWORD l = ucast (drop_bit 16 l)"

lemma bit_low_mask: "bit (0xFFFF :: u32) n \<longleftrightarrow> n < 16"
proof -
  have "(0xFFFF :: u32) = mask 16" by (simp add: mask_eq_exp_minus_1)
  then show ?thesis by (simp only: bit_mask_iff) auto
qed

lemma LOWORD_ucast [word_macros]: "LOWORD l = ucast l"
proof (rule bit_word_eqI)
  fix n
  show "n < LENGTH(16) \<Longrightarrow> bit (LOWORD l) n = bit (ucast l :: u16) n"
    unfolding LOWORD_def by (simp only: bit_ucast_iff bit_and_iff bit_low_mask) auto
qed

lemma LOWORD_MAKELONG [word_macros]: "LOWORD (MAKELONG a b) = ucast a"
  unfolding LOWORD_ucast MAKELONG_def by (rule bit_word_eqI) (auto simp: bit_simps)

lemma HIWORD_MAKELONG [word_macros]: "HIWORD (MAKELONG a b) = ucast b"
  unfolding HIWORD_def MAKELONG_def by (rule bit_word_eqI) (auto simp: bit_simps)

lemma MAKELONG_LOWORD_HIWORD [word_macros]:
  "MAKELONG (ucast (LOWORD l)) (ucast (HIWORD l)) = l"
  unfolding LOWORD_ucast HIWORD_def MAKELONG_def by (rule bit_word_eqI) (auto simp: bit_simps)

text \<open>A \<open>DWORD\<close> widened from a \<open>WORD\<close> keeps every value below \<open>2 ^ 16\<close> and no other.\<close>

lemma ucast_ucast_word16 [word_macros]:
  "(ucast (ucast a :: u16) :: u32) = a \<longleftrightarrow> unat a < 65536"
proof -
  have "(ucast (ucast a :: u16) :: u32) = a \<longleftrightarrow> unat (ucast (ucast a :: u16) :: u32) = unat a"
    by (simp add: word_unat_eq_iff)
  also have "unat (ucast (ucast a :: u16) :: u32) = unat a mod 65536"
    by (simp add: unsigned_ucast_eq take_bit_eq_mod unat_mod)
  also have "(unat a mod 65536 = unat a) \<longleftrightarrow> unat a < 65536"
    by (metis mod_less mod_less_divisor zero_less_numeral)
  finally show ?thesis .
qed

section \<open>Decimal printing\<close>

fun dec_digits :: "nat \<Rightarrow> nat list" where
  "dec_digits n = (if n < 10 then [n] else dec_digits (n div 10) @ [n mod 10])"

declare dec_digits.simps [simp del]

text \<open>\<open>std::to_wstring\<close> of an unsigned value.\<close>

definition to_wstring :: "nat \<Rightarrow> wstring" where
  "to_wstring n = map (\<lambda>d. 48 + of_nat d) (dec_digits n)"

lemma dec_digits_less: "d \<in> set (dec_digits n) \<Longrightarrow> d < 10"
proof (induction n rule: dec_digits.induct)
  case (1 n)
  then show ?case by (auto simp: dec_digits.simps [of n] split: if_splits)
qed

lemma dec_digits_not_Nil [simp]: "dec_digits n \<noteq> []"
  by (simp add: dec_digits.simps [of n])

lemma to_wstring_not_Nil [simp]: "to_wstring n \<noteq> []"
  by (simp add: to_wstring_def)

lemma foldl_dec_digits: "foldl (\<lambda>a d. 10 * a + d) 0 (dec_digits n) = n"
proof (induction n rule: dec_digits.induct)
  case (1 n)
  then show ?case by (subst dec_digits.simps) simp
qed

lemma dec_digit_char_inj:
  assumes "d < 10" "e < 10" "(48 + of_nat d :: wchar) = 48 + of_nat e"
  shows "d = e"
proof -
  from assms(3) have "unat (of_nat d :: wchar) = unat (of_nat e :: wchar)" by simp
  with assms(1,2) show ?thesis by (simp add: unat_of_nat)
qed

lemma inj_on_dec_digit: "inj_on (\<lambda>d. 48 + of_nat d :: wchar) {..<10}"
  by (rule inj_onI) (rule dec_digit_char_inj, simp_all only: lessThan_iff)

lemma to_wstring_inj [simp]: "to_wstring m = to_wstring n \<longleftrightarrow> m = n"
proof
  assume "to_wstring m = to_wstring n"
  then have "dec_digits m = dec_digits n"
    unfolding to_wstring_def
    by (subst (asm) inj_on_map_eq_map)
      (auto intro!: inj_on_subset [OF inj_on_dec_digit] dest: dec_digits_less)
  then have "foldl (\<lambda>a d. 10 * a + d) 0 (dec_digits m) = foldl (\<lambda>a d. 10 * a + d) 0 (dec_digits n)"
    by (rule arg_cong)
  then show "m = n" by (simp only: foldl_dec_digits)
qed simp

text \<open>The conversion \<open>%d\<close> of \<open>wsprintfW\<close>, and what a null-terminated string keeps of a wide string.\<close>

definition print_int :: "int \<Rightarrow> wstring" where
  "print_int i = (if i < 0 then 45 # to_wstring (nat (- i)) else to_wstring (nat i))"

definition c_str :: "wstring \<Rightarrow> wstring" where
  "c_str s = takeWhile (\<lambda>c. c \<noteq> 0) s"

lemma digit_char_not_minus:
  assumes "d < 10" shows "(48 + of_nat d :: wchar) \<noteq> 45"
proof
  assume "(48 + of_nat d :: wchar) = 45"
  then have "(of_nat (48 + d) :: wchar) = of_nat 45" by (simp only: of_nat_add of_nat_numeral)
  then have "unat (of_nat (48 + d) :: wchar) = unat (of_nat 45 :: wchar)" by (rule arg_cong)
  with assms show False by (simp only: unat_of_nat) simp
qed

lemma to_wstring_not_minus: "to_wstring n \<noteq> 45 # w"
proof
  assume "to_wstring n = 45 # w"
  then obtain d ds where "dec_digits n = d # ds" "(48 + of_nat d :: wchar) = 45"
    unfolding to_wstring_def by auto
  then show False using digit_char_not_minus dec_digits_less [of d n] by simp
qed

lemma print_int_inj [simp]: "print_int i = print_int j \<longleftrightarrow> i = j"
  using to_wstring_not_minus [THEN not_sym] to_wstring_not_minus by (auto simp: print_int_def)

lemma c_str_Nil [simp]: "c_str [] = []"
  by (simp add: c_str_def)

lemma c_str_id: "0 \<notin> set s \<Longrightarrow> c_str s = s"
  by (auto simp: c_str_def takeWhile_eq_all_conv)

lemma c_str_idem [simp]: "c_str (c_str s) = c_str s"
  by (simp add: c_str_def)

section \<open>The freedom of the C++ standard library\<close>

text \<open>\<open>permute xs is\<close> lists the elements of \<open>xs\<close> at the positions \<open>is\<close>.\<close>

definition permute :: "'a list \<Rightarrow> nat list \<Rightarrow> 'a list" where
  "permute xs is = map ((!) xs) is"

lemma mset_permute: "mset is = mset [0..<length xs] \<Longrightarrow> mset (permute xs is) = mset xs"
proof -
  assume "mset is = mset [0..<length xs]"
  then have "image_mset ((!) xs) (mset is) = image_mset ((!) xs) (mset [0..<length xs])" by simp
  then have "mset (map ((!) xs) is) = mset (map ((!) xs) [0..<length xs])"
    by (simp only: mset_map)
  then show ?thesis by (simp only: permute_def map_nth)
qed

lemma map_permute: "set is \<subseteq> {..<length xs} \<Longrightarrow> map f (permute xs is) = permute (map f xs) is"
  by (induction "is") (auto simp: permute_def)

text \<open>
  A comparator handed to \<open>std::sort\<close> must be a strict weak order; otherwise the call is
  undefined. Both comparators of the program compare one \<open>unsigned int\<close> key with \<open><\<close> or \<open>>\<close>.
\<close>

definition strict_weak :: "('k \<Rightarrow> 'k \<Rightarrow> bool) \<Rightarrow> bool" where
  "strict_weak lt \<longleftrightarrow> (\<forall>x y. lt x y \<longrightarrow> \<not> lt y x)
     \<and> (\<forall>x y z. \<not> lt y x \<longrightarrow> \<not> lt z y \<longrightarrow> \<not> lt z x)"

lemma strict_weak_less [simp]: "strict_weak ((<) :: 'k::linorder \<Rightarrow> 'k \<Rightarrow> bool)"
  unfolding strict_weak_def by auto

lemma strict_weak_greater [simp]: "strict_weak ((>) :: 'k::linorder \<Rightarrow> 'k \<Rightarrow> bool)"
  unfolding strict_weak_def by auto

lemma strict_weakD1: "strict_weak lt \<Longrightarrow> lt x y \<Longrightarrow> \<not> lt y x"
  unfolding strict_weak_def by blast

lemma strict_weakD2: "strict_weak lt \<Longrightarrow> \<not> lt y x \<Longrightarrow> \<not> lt z y \<Longrightarrow> \<not> lt z x"
  unfolding strict_weak_def by blast

text \<open>
  The library as the program sees it: \<open>sort_ix lt ks\<close> is the order (a list of positions) in
  which \<open>std::sort\<close> leaves elements with the keys \<open>ks\<close>, which is all its comparator reads;
  \<open>iter_ix ks\<close> is the order in which an \<open>unordered_map\<close> whose keys were inserted as \<open>ks\<close> is
  walked.
\<close>

record stdlib =
  sort_ix :: "(u32 \<Rightarrow> u32 \<Rightarrow> bool) \<Rightarrow> u32 list \<Rightarrow> nat list"
  iter_ix :: "wstring list \<Rightarrow> nat list"

definition std_sort :: "stdlib \<Rightarrow> (u32 \<Rightarrow> u32 \<Rightarrow> bool) \<Rightarrow> ('a \<Rightarrow> u32) \<Rightarrow> 'a list \<Rightarrow> 'a list" where
  "std_sort lib lt key xs = permute xs (sort_ix lib lt (map key xs))"

text \<open>An \<open>unordered_map\<close>: its entries in the order of insertion, keys distinct.\<close>

type_synonym 'v umap = "(wstring \<times> 'v) list"

definition um_insert :: "wstring \<Rightarrow> 'v \<Rightarrow> 'v umap \<Rightarrow> 'v umap" where
  "um_insert k v m = (if k \<in> fst ` set m then m else m @ [(k, v)])"

definition um_iter :: "stdlib \<Rightarrow> 'v umap \<Rightarrow> 'v umap" where
  "um_iter lib m = permute m (iter_ix lib (map fst m))"

lemma map_of_um_insert:
  "map_of (um_insert k v m) = (if map_of m k = None then (map_of m)(k \<mapsto> v) else map_of m)"
proof (cases "k \<in> fst ` set m")
  case True
  then obtain w where "map_of m k = Some w" by (metis map_of_eq_None_iff not_None_eq)
  with True show ?thesis by (simp add: um_insert_def)
next
  case False
  then have "map_of m k = None" by (simp add: map_of_eq_None_iff)
  with False show ?thesis
    by (auto simp: um_insert_def map_add_def fun_eq_iff split: option.splits)
qed

lemma distinct_um_insert: "distinct (map fst m) \<Longrightarrow> distinct (map fst (um_insert k v m))"
  by (auto simp: um_insert_def)

lemma not_Nil_um_insert [simp]: "um_insert k v m \<noteq> []"
  by (auto simp: um_insert_def)

text \<open>Inserting a list of entries one after the other: the first entry of a key stays.\<close>

definition um_inserts :: "(wstring \<times> 'v) list \<Rightarrow> 'v umap \<Rightarrow> 'v umap" where
  "um_inserts es m = fold (\<lambda>(k, v). um_insert k v) es m"

lemma um_inserts_simps [simp]:
  "um_inserts [] m = m"
  "um_inserts ((k, v) # es) m = um_inserts es (um_insert k v m)"
  "um_inserts (es @ fs) m = um_inserts fs (um_inserts es m)"
  by (simp_all add: um_inserts_def)

lemma map_of_um_inserts: "map_of (um_inserts es m) = map_of es ++ map_of m"
proof (induction es arbitrary: m)
  case Nil
  show ?case by simp
next
  case (Cons e es)
  show ?case
    by (cases e) (auto simp: Cons.IH map_of_um_insert map_add_def fun_eq_iff split: option.split)
qed

lemma distinct_um_inserts: "distinct (map fst m) \<Longrightarrow> distinct (map fst (um_inserts es m))"
  by (induction es arbitrary: m) (auto simp: distinct_um_insert)

lemma um_inserts_append:
  "distinct (map fst (m @ es)) \<Longrightarrow> um_inserts es m = m @ es"
  by (induction es arbitrary: m) (auto simp: um_insert_def)

locale stdlib_laws =
  fixes lib :: stdlib
  assumes sort_perm: "strict_weak lt \<Longrightarrow> mset (sort_ix lib lt ks) = mset [0..<length ks]"
    and sort_sorted: "strict_weak lt \<Longrightarrow>
      sorted_wrt (\<lambda>x y. \<not> lt y x) (permute ks (sort_ix lib lt ks))"
    and iter_perm: "mset (iter_ix lib ws) = mset [0..<length ws]"
begin

lemma mset_std_sort: "strict_weak lt \<Longrightarrow> mset (std_sort lib lt key xs) = mset xs"
  unfolding std_sort_def by (rule mset_permute) (simp add: sort_perm)

lemma set_std_sort: "strict_weak lt \<Longrightarrow> set (std_sort lib lt key xs) = set xs"
  by (metis mset_std_sort set_mset_mset)

lemma length_std_sort: "strict_weak lt \<Longrightarrow> length (std_sort lib lt key xs) = length xs"
  by (metis mset_std_sort size_mset)

lemma sorted_std_sort:
  assumes "strict_weak lt"
  shows "sorted_wrt (\<lambda>x y. \<not> lt (key y) (key x)) (std_sort lib lt key xs)"
proof -
  have "set (sort_ix lib lt (map key xs)) = set [0..<length (map key xs)]"
    using sort_perm [OF assms] by (rule mset_eq_setD)
  then have "set (sort_ix lib lt (map key xs)) = {..<length xs}"
    by (simp add: atLeast_upt)
  then have "map key (std_sort lib lt key xs) = permute (map key xs) (sort_ix lib lt (map key xs))"
    unfolding std_sort_def by (simp add: map_permute)
  then have "sorted_wrt (\<lambda>x y. \<not> lt y x) (map key (std_sort lib lt key xs))"
    using sort_sorted [OF assms] by simp
  then show ?thesis by (simp add: sorted_wrt_map)
qed

lemma mset_um_iter: "mset (um_iter lib m) = mset m"
  unfolding um_iter_def by (rule mset_permute) (simp add: iter_perm)

lemma set_um_iter: "set (um_iter lib m) = set m"
  by (metis mset_um_iter set_mset_mset)

lemma length_um_iter: "length (um_iter lib m) = length m"
  by (metis mset_um_iter size_mset)

end

subsection \<open>A concrete library\<close>

text \<open>
  Insertion sort as the Microsoft library runs it on short ranges: a new element goes behind the
  sorted elements it does not precede. Iteration in insertion order.
\<close>

fun insert_by :: "('a \<Rightarrow> 'a \<Rightarrow> bool) \<Rightarrow> 'a \<Rightarrow> 'a list \<Rightarrow> 'a list" where
  "insert_by lt x [] = [x]"
| "insert_by lt x (y # ys) = (if lt x y then x # y # ys else y # insert_by lt x ys)"

definition insertion_sort :: "('a \<Rightarrow> 'a \<Rightarrow> bool) \<Rightarrow> 'a list \<Rightarrow> 'a list" where
  "insertion_sort lt xs = fold (insert_by lt) xs []"

lemma mset_insert_by [simp]: "mset (insert_by lt x ys) = add_mset x (mset ys)"
  by (induction ys) auto

lemma set_insert_by [simp]: "set (insert_by lt x ys) = insert x (set ys)"
  by (induction ys) auto

lemma sorted_insert_by:
  assumes "strict_weak lt" "sorted_wrt (\<lambda>x y. \<not> lt y x) ys"
  shows "sorted_wrt (\<lambda>x y. \<not> lt y x) (insert_by lt x ys)"
  using assms(2)
proof (induction ys)
  case Nil
  show ?case by simp
next
  case (Cons y ys)
  show ?case
  proof (cases "lt x y")
    case True
    then have "\<not> lt y x" by (rule strict_weakD1 [OF assms(1)])
    moreover have "\<not> lt z x" if "z \<in> set ys" for z
    proof (rule strict_weakD2 [OF assms(1) \<open>\<not> lt y x\<close>])
      show "\<not> lt z y" using Cons.prems that by simp
    qed
    ultimately show ?thesis using True Cons.prems by simp
  next
    case False
    with Cons show ?thesis by auto
  qed
qed

lemma mset_fold_insert_by: "mset (fold (insert_by lt) xs ys) = mset xs + mset ys"
  by (induction xs arbitrary: ys) auto

lemma sorted_fold_insert_by:
  "strict_weak lt \<Longrightarrow> sorted_wrt (\<lambda>x y. \<not> lt y x) ys \<Longrightarrow>
    sorted_wrt (\<lambda>x y. \<not> lt y x) (fold (insert_by lt) xs ys)"
  by (induction xs arbitrary: ys) (simp_all add: sorted_insert_by)

lemma strict_weak_key: "strict_weak lt \<Longrightarrow> strict_weak (\<lambda>i j. lt (f i) (f j))"
  unfolding strict_weak_def by meson

definition ref_stdlib :: stdlib where
  "ref_stdlib = \<lparr>sort_ix = (\<lambda>lt ks. insertion_sort (\<lambda>i j. lt (ks ! i) (ks ! j)) [0..<length ks]),
                 iter_ix = (\<lambda>ks. [0..<length ks])\<rparr>"

interpretation ref_lib: stdlib_laws ref_stdlib
proof
  fix lt :: "u32 \<Rightarrow> u32 \<Rightarrow> bool" and ks :: "u32 list" and ws :: "wstring list"
  assume sw: "strict_weak lt"
  show "mset (sort_ix ref_stdlib lt ks) = mset [0..<length ks]"
    by (simp add: ref_stdlib_def insertion_sort_def mset_fold_insert_by)
  have "sorted_wrt (\<lambda>i j. \<not> lt (ks ! j) (ks ! i)) (sort_ix ref_stdlib lt ks)"
    unfolding ref_stdlib_def insertion_sort_def stdlib.simps
    using sorted_fold_insert_by [OF strict_weak_key [OF sw, of "(!) ks"], of "[]"] by simp
  then show "sorted_wrt (\<lambda>x y. \<not> lt y x) (permute ks (sort_ix ref_stdlib lt ks))"
    by (simp add: permute_def sorted_wrt_map)
next
  show "mset (iter_ix ref_stdlib ws) = mset [0..<length ws]" for ws
    by (simp add: ref_stdlib_def)
qed

end
