(* ===== verification/Define.thy ===== *)
theory Define
  imports Prelude
begin

text \<open>
  \<open>define.h\<close>: the constants of the program, the enumeration \<open>result\<close> every operation returns and
  the table of its messages. The messages are kept as the bytes of the source (GBK), because the
  table is an array of \<open>const char*\<close> indexed by the enumeration.
\<close>

section \<open>Constants\<close>

definition NETWORK_INTERFACE :: wstring where
  "NETWORK_INTERFACE = wlit ''http://tools.cloudxns.net/Api/getLdns''"

definition AD_LINK_URL :: bytes where
  "AD_LINK_URL = blit ''http://tools.cloudxns.net/index/dnsselector''"

definition DNS_PING_URL :: wstring where
  "DNS_PING_URL = wlit ''www.qq.com''"

definition LIST_ITEM_SELECTED_COLOR :: u32 where
  "LIST_ITEM_SELECTED_COLOR = 0xFF1A86D2"

definition PING_TIMEOUT :: u32 where
  "PING_TIMEOUT = 0xFFFFFFFF"

definition UI_MSG_TEXT_COLOR :: u32 where
  "UI_MSG_TEXT_COLOR = 0xFF1A86D2"

definition UI_WARNING_TEXT_COLOR :: u32 where
  "UI_WARNING_TEXT_COLOR = 0xFFFFB700"

definition UI_ERROR_TEXT_COLOR :: u32 where
  "UI_ERROR_TEXT_COLOR = 0xFFFF0000"

definition DEFAULT_DNS_1 :: wstring where
  "DEFAULT_DNS_1 = wlit ''180.76.76.76''"

definition DEFAULT_DNS_2 :: wstring where
  "DEFAULT_DNS_2 = wlit ''114.114.114.114''"

definition NET_WORK_INTERFACE_REQUEST_MAX_TIME :: nat where
  "NET_WORK_INTERFACE_REQUEST_MAX_TIME = 3"

definition UI_MAIN_FRAME_WIDTH :: nat where
  "UI_MAIN_FRAME_WIDTH = 600"

definition UI_MAIN_FRAME_MIN_HEIGHT :: nat where
  "UI_MAIN_FRAME_MIN_HEIGHT = 500"

definition UI_MAIN_FRAME_MAX_HEIGHT :: nat where
  "UI_MAIN_FRAME_MAX_HEIGHT = 800"

lemma DEFAULT_DNS_not_Nil [simp]: "DEFAULT_DNS_1 \<noteq> []" "DEFAULT_DNS_2 \<noteq> []"
  by (simp_all add: DEFAULT_DNS_1_def DEFAULT_DNS_2_def)

lemma DEFAULT_DNS_distinct [simp]: "DEFAULT_DNS_1 \<noteq> DEFAULT_DNS_2" "DEFAULT_DNS_2 \<noteq> DEFAULT_DNS_1"
  by (simp_all add: DEFAULT_DNS_1_def DEFAULT_DNS_2_def)

section \<open>Results\<close>

datatype result =
    result_success
  | result_com_initialize_fail
  | result_main_frame_wnd_create_fail
  | result_dnsping_fail
  | result_wmi_initialize_fail
  | result_enum_adapter_fail
  | result_dns_ip_invalid
  | result_switch_dns_ip_fail
  | result_network_interface_http_request_fail
  | result_network_interface_respond_parse_fail
  | result_network_interface_respond_status_not_exist
  | result_network_interface_respond_status_not_success
  | result_network_interface_respond_data_not_exist
  | result_getiftalbe_malloc_fail
  | result_getiftalbe_fail
  | result_no_valid_dns_for_switching
  | result_no_valid_adapter_for_switching
  | result_temp_ad_uri_invalid
  | result_temp_ad_html_file_create_file

text \<open>The value of an enumerator, which is the subscript of its message.\<close>

fun result_code :: "result \<Rightarrow> nat" where
  "result_code result_success = 0"
| "result_code result_com_initialize_fail = 1"
| "result_code result_main_frame_wnd_create_fail = 2"
| "result_code result_dnsping_fail = 3"
| "result_code result_wmi_initialize_fail = 4"
| "result_code result_enum_adapter_fail = 5"
| "result_code result_dns_ip_invalid = 6"
| "result_code result_switch_dns_ip_fail = 7"
| "result_code result_network_interface_http_request_fail = 8"
| "result_code result_network_interface_respond_parse_fail = 9"
| "result_code result_network_interface_respond_status_not_exist = 10"
| "result_code result_network_interface_respond_status_not_success = 11"
| "result_code result_network_interface_respond_data_not_exist = 12"
| "result_code result_getiftalbe_malloc_fail = 13"
| "result_code result_getiftalbe_fail = 14"
| "result_code result_no_valid_dns_for_switching = 15"
| "result_code result_no_valid_adapter_for_switching = 16"
| "result_code result_temp_ad_uri_invalid = 17"
| "result_code result_temp_ad_html_file_create_file = 18"

definition s_result_string :: "bytes list" where
  "s_result_string = [
    [179, 201, 185, 166],
    [67, 79, 77, 215, 233, 188, 254, 179, 245, 202, 188, 187, 175, 202, 167, 176, 220],
    [214, 247, 180, 176, 191, 218, 180, 180, 189, 168, 202, 167, 176, 220],
    [112, 105, 110, 103, 32, 68, 78, 83, 202, 167, 176, 220],
    [87, 77, 73, 179, 245, 202, 188, 187, 175, 202, 167, 176, 220],
    [195, 182, 190, 217, 205, 248, 191, 168, 202, 167, 176, 220],
    [68, 78, 83, 32, 73, 112, 178, 187, 186, 207, 183, 168],
    [199, 208, 187, 187, 205, 248, 191, 168, 68, 78, 83, 202, 167, 176, 220],
    [199, 235, 199, 243, 68, 78, 83, 193, 208, 177, 237, 205, 248, 194, 231, 180, 237, 206, 243],
    [68, 78, 83, 193, 208, 177, 237, 183, 181, 187, 216, 202, 253, 190, 221, 210, 236, 179, 163],
    [68, 78, 83, 183, 181, 187, 216, 202, 253, 190, 221, 184, 241, 202, 189, 178, 187, 213, 253, 200, 183],
    [183, 254, 206, 241, 198, 247, 190, 220, 190, 248, 199, 235, 199, 243, 68, 78, 83, 202, 253, 190, 221],
    [206, 180, 196, 220, 180, 211, 183, 254, 206, 241, 198, 247, 187, 241, 200, 161, 211, 208, 208, 167, 68, 78, 83, 202, 253, 190, 221],
    [187, 241, 200, 161, 205, 248, 191, 168, 202, 253, 190, 221, 205, 179, 188, 198, 183, 214, 197, 228, 196, 218, 180, 230, 202, 167, 176, 220],
    [187, 241, 200, 161, 205, 248, 191, 168, 202, 253, 190, 221, 205, 179, 188, 198, 202, 167, 176, 220],
    [195, 187, 211, 208, 191, 201, 199, 208, 187, 187, 181, 196, 68, 78, 83],
    [195, 187, 211, 208, 191, 201, 199, 208, 187, 187, 181, 196, 205, 248, 191, 168],
    [210, 179, 195, 230, 215, 202, 212, 180, 178, 187, 191, 201, 211, 195],
    [193, 217, 202, 177, 72, 84, 77, 76, 206, 196, 188, 254, 180, 180, 189, 168, 202, 167, 176, 220]]"

text \<open>\<open>result_string\<close> subscripts the array: \<open>None\<close> is an access past its end.\<close>

definition result_string :: "result \<Rightarrow> bytes option" where
  "result_string res =
     (if result_code res < length s_result_string then Some (s_result_string ! result_code res) else None)"

lemma length_s_result_string [simp]: "length s_result_string = 19"
  by (simp add: s_result_string_def)

lemma distinct_s_result_string: "distinct s_result_string"
  unfolding s_result_string_def by code_simp

lemma result_code_less: "result_code res < 19"
  by (cases res) simp_all

lemma result_code_inj: "result_code r = result_code s \<longleftrightarrow> r = s"
  by (cases r; cases s) simp_all

text \<open>The enumeration is ordered by its values, as C++ compares unscoped enumerators.\<close>

instantiation result :: linorder
begin

definition less_eq_result :: "result \<Rightarrow> result \<Rightarrow> bool" where
  "less_eq_result r s \<longleftrightarrow> result_code r \<le> result_code s"

definition less_result :: "result \<Rightarrow> result \<Rightarrow> bool" where
  "less_result r s \<longleftrightarrow> result_code r < result_code s"

instance
  by standard (auto simp: less_eq_result_def less_result_def result_code_inj)

end

end
