(* ===== verification/Json_Value.thy ===== *)
theory Json_Value
  imports Prelude
begin

text \<open>
  The part of the C++ REST SDK's \<open>json::value\<close> the program reads the server's answer with
  (\<open>cpprest/json.h\<close>, \<open>json.cpp\<close>): the tagged value, the object kept as a sorted vector of fields,
  the subscript operator that searches the vector with \<open>std::lower_bound\<close> and inserts a null field
  when the key is missing (turning a null value into an object first), and the accessors that
  throw \<open>json_exception\<close> on a value of another kind.
\<close>

section \<open>Values and exceptions\<close>

text \<open>
  A number is a signed or an unsigned 64-bit integer or a \<open>double\<close>, which is its exact value here. A non-negative
  signed integer is stored as an unsigned one.
\<close>

datatype number = Signed "64 word" | Unsigned "64 word" | Double rat

definition number_of_int64 :: "64 word \<Rightarrow> number" where
  "number_of_int64 n = (if n <s 0 then Signed n else Unsigned n)"

datatype json =
    JNull
  | JNumber number
  | JBool bool
  | JString wstring
  | JObject "(wstring \<times> json) list"
  | JArray "json list"

datatype json_exception = NotAnObject | NotAnArray | NotAString

fun is_null :: "json \<Rightarrow> bool" where
  "is_null JNull = True"
| "is_null _ = False"

fun as_string :: "json \<Rightarrow> json_exception + wstring" where
  "as_string (JString s) = Inr s"
| "as_string _ = Inl NotAString"

fun as_array :: "json \<Rightarrow> json_exception + json list" where
  "as_array (JArray vs) = Inr vs"
| "as_array _ = Inl NotAnArray"

lemma is_null_iff [simp]: "is_null v \<longleftrightarrow> v = JNull"
  by (cases v) simp_all

lemma as_string_Inr: "as_string v = Inr s \<longleftrightarrow> v = JString s"
  by (cases v) simp_all

lemma as_array_Inr: "as_array v = Inr vs \<longleftrightarrow> v = JArray vs"
  by (cases v) simp_all

section \<open>Fields of an object\<close>

text \<open>
  \<open>std::lower_bound\<close> over the fields from \<open>first\<close>, \<open>n\<close> of them left: the binary search of the
  library, with \<open>compare_with_key\<close> as its comparator.
\<close>

function lower_bound :: "(wstring \<times> json) list \<Rightarrow> wstring \<Rightarrow> nat \<Rightarrow> nat \<Rightarrow> nat" where
  "lower_bound es key first n =
     (if n = 0 then first
      else let half = n div 2; mid = first + half
           in if fst (es ! mid) < key then lower_bound es key (mid + 1) (n - (half + 1))
              else lower_bound es key first half)"
  by pat_completeness auto
termination
  by (relation "measure (\<lambda>(es, key, first, n). n)") auto

declare lower_bound.simps [simp del]

definition find_insert_location :: "(wstring \<times> json) list \<Rightarrow> wstring \<Rightarrow> nat" where
  "find_insert_location es key = lower_bound es key 0 (length es)"

text \<open>
  \<open>object::operator[]\<close>: the value of the field, and the fields afterwards (a missing field is
  inserted as null where the search stopped).
\<close>

definition object_index :: "wstring \<Rightarrow> (wstring \<times> json) list \<Rightarrow> json \<times> (wstring \<times> json) list" where
  "object_index key es =
     (let i = find_insert_location es key
      in if i = length es \<or> key \<noteq> fst (es ! i)
         then (JNull, take i es @ (key, JNull) # drop i es)
         else (snd (es ! i), es))"

text \<open>\<open>value::operator[]\<close> with a string: the field and the value after the call.\<close>

fun value_index :: "wstring \<Rightarrow> json \<Rightarrow> json_exception + (json \<times> json)" where
  "value_index key JNull = (let (v, es) = object_index key [] in Inr (v, JObject es))"
| "value_index key (JObject es) = (let (v, es') = object_index key es in Inr (v, JObject es'))"
| "value_index key _ = Inl NotAnObject"

subsection \<open>The search\<close>

lemma lower_bound_bounds:
  "first + n \<le> length es \<Longrightarrow> first \<le> lower_bound es key first n
     \<and> lower_bound es key first n \<le> first + n"
proof (induction es key first n rule: lower_bound.induct)
  case (1 es key first n)
  show ?case
  proof (cases "n = 0")
    case True
    then show ?thesis by (simp add: lower_bound.simps)
  next
    case False
    define half where "half = n div 2"
    have half: "half < n" using False by (simp add: half_def)
    show ?thesis
    proof (cases "fst (es ! (first + half)) < key")
      case True
      have "first + half + 1 \<le> lower_bound es key (first + half + 1) (n - (half + 1)) \<and>
        lower_bound es key (first + half + 1) (n - (half + 1))
          \<le> (first + half + 1) + (n - (half + 1))"
        using "1.IH"(1) [OF False half_def refl] True half "1.prems" by simp
      with True False half show ?thesis
        by (subst (1 2) lower_bound.simps) (auto simp: Let_def simp flip: half_def)
    next
      case ge: False
      have "first \<le> lower_bound es key first half \<and> lower_bound es key first half \<le> first + half"
        using "1.IH"(2) [OF False half_def refl] ge half "1.prems" by simp
      with ge False half show ?thesis
        by (subst (1 2) lower_bound.simps) (auto simp: Let_def simp flip: half_def)
    qed
  qed
qed

lemma sorted_field_mono:
  "sorted (map fst es) \<Longrightarrow> i \<le> j \<Longrightarrow> j < length es \<Longrightarrow> fst (es ! i) \<le> fst (es ! j)"
  by (metis (no_types) le_less_trans length_map nth_map sorted_nth_mono)

abbreviation splits_at :: "(wstring \<times> json) list \<Rightarrow> wstring \<Rightarrow> nat \<Rightarrow> bool" where
  "splits_at es key p \<equiv> (\<forall>i < p. fst (es ! i) < key) \<and> (\<forall>i < length es. p \<le> i \<longrightarrow> key \<le> fst (es ! i))"

lemma lower_bound_split:
  assumes "sorted (map fst es)" "first + n \<le> length es"
    and "\<forall>i < first. fst (es ! i) < key"
    and "\<forall>i < length es. first + n \<le> i \<longrightarrow> key \<le> fst (es ! i)"
  shows "splits_at es key (lower_bound es key first n)"
  using assms
proof (induction es key first n rule: lower_bound.induct)
  case (1 es key first n)
  show ?case
  proof (cases "n = 0")
    case True
    with "1.prems" show ?thesis by (simp add: lower_bound.simps)
  next
    case False
    define half where "half = n div 2"
    have half: "half < n" using False by (simp add: half_def)
    show ?thesis
    proof (cases "fst (es ! (first + half)) < key")
      case True
      have "fst (es ! i) < key" if "i < first + half + 1" for i
        using sorted_field_mono [OF "1.prems"(1), of i "first + half"] that True half "1.prems"(2)
        by (simp add: less_Suc_eq_le le_less_trans)
      then have "splits_at es key (lower_bound es key (first + half + 1) (n - (half + 1)))"
        using half "1.prems" by (intro "1.IH"(1) [OF False half_def refl True]) simp_all
      moreover have "lower_bound es key first n = lower_bound es key (first + half + 1) (n - (half + 1))"
        using True False by (subst lower_bound.simps) (simp add: Let_def flip: half_def)
      ultimately show ?thesis by simp
    next
      case ge: False
      have "key \<le> fst (es ! i)" if "first + half \<le> i" "i < length es" for i
        using order_trans [OF _ sorted_field_mono [OF "1.prems"(1) that]] ge by simp
      then have "splits_at es key (lower_bound es key first half)"
        using half "1.prems" by (intro "1.IH"(2) [OF False half_def refl ge]) simp_all
      moreover have "lower_bound es key first n = lower_bound es key first half"
        using ge False by (subst lower_bound.simps) (simp add: Let_def flip: half_def)
      ultimately show ?thesis by simp
    qed
  qed
qed

lemma find_insert_location_split:
  "sorted (map fst es) \<Longrightarrow> splits_at es key (find_insert_location es key)"
  unfolding find_insert_location_def by (rule lower_bound_split) auto

lemma find_insert_location_le: "find_insert_location es key \<le> length es"
  using lower_bound_bounds [of 0 "length es" es key] by (simp add: find_insert_location_def)

text \<open>The binary search stops where a linear scan would.\<close>

lemma find_insert_location_takeWhile:
  assumes "sorted (map fst es)"
  shows "find_insert_location es key = length (takeWhile (\<lambda>e. fst e < key) es)"
proof -
  let ?p = "find_insert_location es key"
  have lt: "\<forall>i < ?p. fst (es ! i) < key" and ge: "\<forall>i < length es. ?p \<le> i \<longrightarrow> key \<le> fst (es ! i)"
    using find_insert_location_split [OF assms, of key] by auto
  have "takeWhile (\<lambda>e. fst e < key) es = take ?p es"
  proof (rule takeWhile_eq_take_P_nth)
    show "fst (es ! i) < key" if "i < ?p" for i using lt that by blast
    show "\<not> fst (es ! ?p) < key" if "?p < length es" using ge that by (simp add: leD)
  qed
  then show ?thesis using find_insert_location_le [of es key] by simp
qed

subsection \<open>Lookup and insertion\<close>

text \<open>The fields before and from the place of a key.\<close>

definition fields_before :: "wstring \<Rightarrow> (wstring \<times> json) list \<Rightarrow> (wstring \<times> json) list" where
  "fields_before key es = takeWhile (\<lambda>e. fst e < key) es"

definition fields_from :: "wstring \<Rightarrow> (wstring \<times> json) list \<Rightarrow> (wstring \<times> json) list" where
  "fields_from key es = dropWhile (\<lambda>e. fst e < key) es"

lemma fields_append: "fields_before key es @ fields_from key es = es"
  by (simp add: fields_before_def fields_from_def)

lemma fields_before_less: "e \<in> set (fields_before key es) \<Longrightarrow> fst e < key"
  unfolding fields_before_def by (metis set_takeWhileD)

lemma fields_from_ge:
  assumes "sorted (map fst es)" "e \<in> set (fields_from key es)"
  shows "key \<le> fst e"
proof (cases "fields_from key es")
  case Nil
  with assms(2) show ?thesis by simp
next
  case (Cons d rest)
  then have "\<not> fst d < key" by (metis dropWhile_eq_Cons_conv fields_from_def)
  moreover have "sorted (map fst (d # rest))"
    using assms(1) Cons by (metis fields_append map_append sorted_append)
  ultimately show ?thesis using assms(2) Cons by fastforce
qed

lemma fields_from_head:
  assumes "sorted (map fst es)" "fields_from key es = e # rest" "fst e \<noteq> key" "d \<in> set (fields_from key es)"
  shows "key < fst d"
proof -
  have "key < fst e" using assms(2,3) fields_from_ge [OF assms(1), of e key] by simp
  moreover have "sorted (map fst (e # rest))"
    using assms(1,2) by (metis fields_append map_append sorted_append)
  ultimately show ?thesis using assms(2,4) by fastforce
qed

lemma object_index_scan:
  assumes "sorted (map fst es)"
  shows "object_index key es =
    (case fields_from key es of
       [] \<Rightarrow> (JNull, fields_before key es @ [(key, JNull)])
     | e # rest \<Rightarrow> if fst e = key then (snd e, es)
                   else (JNull, fields_before key es @ (key, JNull) # fields_from key es))"
proof -
  obtain A B where A: "A = fields_before key es" and B: "B = fields_from key es" by blast
  have es: "es = A @ B" by (simp only: A B fields_append)
  have loc: "find_insert_location es key = length A"
    by (simp only: find_insert_location_takeWhile [OF assms] A fields_before_def)
  show ?thesis
    unfolding object_index_def loc Let_def A [symmetric] B [symmetric]
    by (cases B) (auto simp: es nth_append)
qed

lemma map_of_before_from:
  "map_of es key = map_of (fields_from key es) key"
proof -
  have "map_of (fields_before key es) key = None"
    using fields_before_less by (fastforce simp: map_of_eq_None_iff)
  then have "map_of (fields_before key es @ fields_from key es) key = map_of (fields_from key es) key"
    by (simp add: map_add_def split: option.splits)
  then show ?thesis by (simp only: fields_append)
qed

lemma map_of_fields_from:
  assumes "sorted (map fst es)"
  shows "map_of (fields_from key es) key =
    (case fields_from key es of [] \<Rightarrow> None | e # rest \<Rightarrow> if fst e = key then Some (snd e) else None)"
proof (cases "fields_from key es")
  case Nil
  then show ?thesis by simp
next
  case (Cons e rest)
  have "map_of (fields_from key es) key = None" if "fst e \<noteq> key"
    using fields_from_head [OF assms Cons that] by (fastforce simp: map_of_eq_None_iff)
  with Cons show ?thesis by (cases e) auto
qed

lemma object_index_field:
  assumes "sorted (map fst es)"
  shows "fst (object_index key es) = (case map_of es key of None \<Rightarrow> JNull | Some v \<Rightarrow> v)"
  unfolding object_index_scan [OF assms] map_of_before_from [of es] map_of_fields_from [OF assms]
  by (simp split: list.split)

lemma object_index_sorted:
  assumes "sorted (map fst es)"
  shows "sorted (map fst (snd (object_index key es)))"
proof -
  have "sorted (map fst (fields_before key es @ (key, JNull) # fields_from key es))"
  proof -
    have "sorted (map fst (fields_before key es))" "sorted (map fst (fields_from key es))"
      using assms fields_append [of key es] by (metis map_append sorted_append)+
    moreover have "\<forall>e \<in> set (fields_before key es). fst e < key" "\<forall>e \<in> set (fields_from key es). key \<le> fst e"
      using fields_before_less fields_from_ge [OF assms] by blast+
    ultimately show ?thesis by (fastforce simp: sorted_append)
  qed
  then show ?thesis using assms
    by (auto simp: object_index_scan [OF assms] split: list.split)
qed

text \<open>Every key is unaffected except a missing one, which becomes a null field.\<close>

lemma map_of_object_index:
  assumes "sorted (map fst es)"
  shows "map_of (snd (object_index key es)) = (map_of es)(key \<mapsto> fst (object_index key es))"
proof (cases "map_of es key")
  case None
  then have "fields_from key es = [] \<or> (\<exists>e rest. fields_from key es = e # rest \<and> fst e \<noteq> key)"
    using map_of_fields_from [OF assms, of key] map_of_before_from [of es key]
    by (cases "fields_from key es") (auto split: if_splits)
  then have ix: "object_index key es = (JNull, fields_before key es @ (key, JNull) # fields_from key es)"
    by (auto simp: object_index_scan [OF assms])
  have "map_of (fields_from key es) key = None" "key \<notin> fst ` set (fields_before key es)"
    using None map_of_before_from [of es key] fields_before_less by fastforce+
  then have "map_of (fields_before key es @ (key, JNull) # fields_from key es)
      = (map_of (fields_before key es @ fields_from key es))(key \<mapsto> JNull)"
    by (auto simp: fun_eq_iff map_add_def simp flip: map_of_eq_None_iff split: option.splits)
  with ix show ?thesis by (simp only: fst_conv snd_conv fields_append)
next
  case (Some v)
  then obtain e rest where "fields_from key es = e # rest" "fst e = key"
    using map_of_fields_from [OF assms, of key] map_of_before_from [of es key]
    by (cases "fields_from key es") (auto split: if_splits)
  then have "snd (object_index key es) = es"
    by (simp add: object_index_scan [OF assms])
  with Some show ?thesis by (simp add: object_index_field [OF assms] fun_upd_idem)
qed

text \<open>Reading a field a second time gives the same value and no further change.\<close>

lemma object_index_twice:
  assumes "sorted (map fst es)"
  shows "fst (object_index key (snd (object_index key es))) = fst (object_index key es)"
  by (simp add: object_index_field [OF object_index_sorted [OF assms]] map_of_object_index [OF assms])

section \<open>Reading without the mutation\<close>

text \<open>
  The field of a value as a pure lookup: \<open>None\<close> where the subscript operator throws, null where the
  field is missing. On a value whose fields are sorted, as the SDK keeps them, the subscript
  operator returns this field and changes no field of the value.
\<close>

fun get_field :: "wstring \<Rightarrow> json \<Rightarrow> json option" where
  "get_field key JNull = Some JNull"
| "get_field key (JObject es) = Some (case map_of es key of None \<Rightarrow> JNull | Some v \<Rightarrow> v)"
| "get_field key _ = None"

fun sorted_fields :: "json \<Rightarrow> bool" where
  "sorted_fields (JObject es) = sorted (map fst es)"
| "sorted_fields _ = True"

lemma value_index_throws: "get_field key v = None \<Longrightarrow> value_index key v = Inl NotAnObject"
  by (cases v) simp_all

lemma value_index_field:
  assumes "sorted_fields v" "get_field key v = Some f"
  obtains v' where "value_index key v = Inr (f, v')" "sorted_fields v'" "\<And>k. get_field k v' = get_field k v"
proof (cases v)
  case JNull
  with assms(2) that show ?thesis
    by (auto simp: object_index_def find_insert_location_def lower_bound.simps)
next
  case (JObject es)
  then have sorted: "sorted (map fst es)" using assms(1) by simp
  have "f = fst (object_index key es)"
    using assms(2) JObject by (simp add: object_index_field [OF sorted])
  moreover have "get_field k (JObject (snd (object_index key es))) = get_field k (JObject es)" for k
    by (simp add: map_of_object_index [OF sorted] object_index_field [OF sorted] split: option.split)
  ultimately show ?thesis
    using that JObject object_index_sorted [OF sorted, of key]
    by (cases "object_index key es") auto
qed (use assms in auto)

fun sorted_json :: "json \<Rightarrow> bool" where
  "sorted_json (JObject es) \<longleftrightarrow> sorted (map fst es) \<and> (\<forall>(k, v) \<in> set es. sorted_json v)"
| "sorted_json (JArray vs) \<longleftrightarrow> (\<forall>v \<in> set vs. sorted_json v)"
| "sorted_json _ \<longleftrightarrow> True"

lemma sorted_json_fields: "sorted_json v \<Longrightarrow> sorted_fields v"
  by (cases v) auto

lemma sorted_json_get_field: "sorted_json v \<Longrightarrow> get_field key v = Some f \<Longrightarrow> sorted_json f"
  by (cases v) (auto split: option.splits dest: map_of_SomeD)

section \<open>Property\<close>

text \<open>C33: On an object whose fields are sorted, the subscript operator returns the field a linear
  lookup finds and null for a missing one, keeps the fields sorted, and changes the lookup only at a
  missing key, which it binds to null.\<close>

theorem object_index_correct:
  assumes "sorted (map fst es)"
  shows "(case object_index key es of (v, es') \<Rightarrow>
    v = (case map_of es key of None \<Rightarrow> JNull | Some w \<Rightarrow> w)
    \<and> sorted (map fst es') \<and> map_of es' = (map_of es)(key \<mapsto> v))"
  using object_index_field [OF assms] object_index_sorted [OF assms] map_of_object_index [OF assms]
  by (simp add: split_beta)

theorem object_index_correct_witness:
  "fst (object_index (wlit ''b'') [(wlit ''a'', JNull), (wlit ''b'', JBool True)]) = JBool True"
  using object_index_correct [of "[(wlit ''a'', JNull), (wlit ''b'', JBool True)]" "wlit ''b''"]
  by (simp add: wstr_simps of_char_def split_beta)

end
