(* ===== verification/Utf.thy ===== *)
theory Utf
  imports Prelude
begin

text \<open>
  The conversions between UTF-8, UTF-16 and Latin 1 of the SDK (\<open>utility::conversions\<close> in \<open>asyncrt_utils.cpp\<close>,
  without \<open>CPPREST_STDLIB_UNICODE_CONVERSIONS\<close>).
\<close>

section \<open>UTF-8 and UTF-16\<close>

text \<open>The errors by their messages.\<close>

datatype range_error =
    StartsWithContinuation | InvalidCodePoint | MissingBytes | MissingLeadingByte | MissingLowSurrogate | InvalidLowSurrogate

text \<open>The leading byte of a character of several bytes: its bits and the number of continuation bytes.\<close>

definition leading_byte :: "u8 \<Rightarrow> range_error + u32 \<times> nat" where
  "leading_byte b =
     (if b AND 0x40 = 0 then Inl StartsWithContinuation
      else if b AND 0x20 = 0 then Inr (ucast (b AND 0x1F), 1)
      else if b AND 0x10 = 0 then Inr (ucast (b AND 0xF), 2)
      else if b AND 0x8 = 0 then Inr (ucast (b AND 0x7), 3)
      else Inl InvalidCodePoint)"

fun continuation_bytes :: "nat \<Rightarrow> u32 \<Rightarrow> bytes \<Rightarrow> range_error + u32 \<times> bytes" where
  "continuation_bytes 0 codePoint src = Inr (codePoint, src)"
| "continuation_bytes (Suc n) codePoint [] = Inl MissingBytes"
| "continuation_bytes (Suc n) codePoint (b # src) =
     (if b AND 0x80 = 0 \<or> b AND 0x40 \<noteq> 0 then Inl MissingLeadingByte
      else continuation_bytes n (push_bit 6 codePoint OR ucast (b AND 0x3F)) src)"

definition code_units :: "u32 \<Rightarrow> wstring" where
  "code_units codePoint =
     (if codePoint \<ge> 0x10000
      then let codePoint = codePoint - 0x10000
           in [ucast (drop_bit 10 codePoint OR 0xD800), ucast (codePoint AND 0x3FF OR 0xDC00)]
      else [ucast codePoint])"

lemma continuation_shorter: "continuation_bytes n cp src = Inr (cp', src') \<Longrightarrow> length src' \<le> length src"
  by (induction n cp src rule: continuation_bytes.induct) (auto split: if_splits)

function utf8_to_utf16 :: "bytes \<Rightarrow> range_error + wstring" where
  "utf8_to_utf16 [] = Inr []"
| "utf8_to_utf16 (b # src) =
     (if b AND 0x80 = 0 then map_sum id (\<lambda>dest. ucast b # dest) (utf8_to_utf16 src)
      else case leading_byte b of
             Inl e \<Rightarrow> Inl e
           | Inr (codePoint, numContBytes) \<Rightarrow>
               (case continuation_bytes numContBytes codePoint src of
                  Inl e \<Rightarrow> Inl e
                | Inr (codePoint, src) \<Rightarrow> map_sum id (\<lambda>dest. code_units codePoint @ dest) (utf8_to_utf16 src)))"
  by pat_completeness auto
termination
  by (relation "measure length") (auto dest: continuation_shorter)

text \<open>What a pair of surrogates and a single unit become.\<close>

definition pair_bytes :: "wchar \<Rightarrow> wchar \<Rightarrow> bytes" where
  "pair_bytes highSurrogate lowSurrogate =
     (let codePoint = (push_bit 10 (ucast (highSurrogate - 0xD800)) OR ucast (lowSurrogate - 0xDC00)) + 0x10000 :: u32
      in [ucast (drop_bit 18 codePoint OR 0xF0), ucast (drop_bit 12 codePoint AND 0x3F OR 0x80),
          ucast (drop_bit 6 codePoint AND 0x3F OR 0x80), ucast (codePoint AND 0x3F OR 0x80)])"

definition unit_bytes :: "wchar \<Rightarrow> bytes" where
  "unit_bytes c =
     (if c \<le> 0x7F then [ucast c]
      else if c \<le> 0x7FF then [ucast (drop_bit 6 c OR 0xC0), ucast (c AND 0x3F OR 0x80)]
      else [ucast (drop_bit 12 c OR 0xE0), ucast (drop_bit 6 c AND 0x3F OR 0x80), ucast (c AND 0x3F OR 0x80)])"

definition high_surrogate :: "wchar \<Rightarrow> bool" where "high_surrogate c \<longleftrightarrow> 0xD800 \<le> c \<and> c \<le> 0xDBFF"
definition low_surrogate :: "wchar \<Rightarrow> bool" where "low_surrogate c \<longleftrightarrow> 0xDC00 \<le> c \<and> c \<le> 0xDFFF"

fun utf16_to_utf8 :: "wstring \<Rightarrow> range_error + bytes" where
  "utf16_to_utf8 [] = Inr []"
| "utf16_to_utf8 (c # src) =
     (if high_surrogate c
      then (case src of
              [] \<Rightarrow> Inl MissingLowSurrogate
            | l # src \<Rightarrow>
                if \<not> low_surrogate l then Inl InvalidLowSurrogate
                else map_sum id (\<lambda>dest. pair_bytes c l @ dest) (utf16_to_utf8 src))
      else map_sum id (\<lambda>dest. unit_bytes c @ dest) (utf16_to_utf8 src))"

subsection \<open>Written and read again\<close>

lemma small_bits:
  assumes "(c :: 'a :: len word) < 2 ^ n" and "n \<le> k"
  shows "\<not> bit c k"
proof -
  have "take_bit n c = c" using assms(1) by (metis less_mask_eq mask_eq_exp_minus_1 take_bit_eq_mask)
  then show ?thesis using assms(2) by (metis bit_take_bit_iff not_less)
qed

named_theorems units \<open>the bits of the masks\<close>

lemma bit_nonzero: "bit (x :: 'a :: len word) n \<Longrightarrow> x \<noteq> 0"
  by auto

lemma mask_bits:
  "(0x3F :: int) = mask 6" "(0x1F :: int) = mask 5" "(0xF :: int) = mask 4" "(0x7 :: int) = mask 3" "(0x3FF :: int) = mask 10"
  "(0x80 :: int) = push_bit 7 (mask 1)" "(0x40 :: int) = push_bit 6 (mask 1)" "(0x20 :: int) = push_bit 5 (mask 1)"
  "(0x10 :: int) = push_bit 4 (mask 1)" "(0x8 :: int) = push_bit 3 (mask 1)" "(0xC0 :: int) = push_bit 6 (mask 2)"
  "(0xE0 :: int) = push_bit 5 (mask 3)" "(0xF0 :: int) = push_bit 4 (mask 4)"
  "(0xD800 :: int) = push_bit 11 (push_bit 3 (mask 2) OR mask 2)" "(0xDC00 :: int) = push_bit 10 (push_bit 4 (mask 2) OR mask 3)"
  by (simp_all add: mask_numeral push_bit_numeral push_bit_eq_mult)

lemma bit_masks [units]:
  "bit (0x3F :: int) n \<longleftrightarrow> n < 6" "bit (0x1F :: int) n \<longleftrightarrow> n < 5" "bit (0xF :: int) n \<longleftrightarrow> n < 4"
  "bit (0x7 :: int) n \<longleftrightarrow> n < 3" "bit (0x3FF :: int) n \<longleftrightarrow> n < 10" "bit (0x80 :: int) n \<longleftrightarrow> n = 7"
  "bit (0x40 :: int) n \<longleftrightarrow> n = 6" "bit (0x20 :: int) n \<longleftrightarrow> n = 5" "bit (0x10 :: int) n \<longleftrightarrow> n = 4"
  "bit (0x8 :: int) n \<longleftrightarrow> n = 3" "bit (0xC0 :: int) n \<longleftrightarrow> n \<in> {6, 7}" "bit (0xE0 :: int) n \<longleftrightarrow> n \<in> {5, 6, 7}"
  "bit (0xF0 :: int) n \<longleftrightarrow> n \<in> {4, 5, 6, 7}"
  "bit (0xD800 :: int) n \<longleftrightarrow> n \<in> {11, 12, 14, 15}" "bit (0xDC00 :: int) n \<longleftrightarrow> n \<in> {10, 11, 12, 14, 15}"
  unfolding mask_bits bit_push_bit_iff bit_mask_iff bit_or_iff by auto

lemma continuation_of:
  fixes c :: wchar
  shows "ucast ((ucast (c AND 0x3F OR 0x80) :: u8) AND 0x3F) = (ucast (take_bit 6 c) :: u32)"
  by (rule bit_word_eqI) (auto simp: bit_simps units)


lemma three_bytes:
  fixes c :: wchar
  shows "(push_bit 6 (push_bit 6 (ucast ((ucast (drop_bit 12 c OR 0xE0) :: u8) AND 0xF)) OR
    ucast ((ucast (drop_bit 6 c AND 0x3F OR 0x80) :: u8) AND 0x3F)) OR ucast ((ucast (c AND 0x3F OR 0x80) :: u8) AND 0x3F) :: u32)
    = ucast c"
proof -
  have "(ucast ((ucast (drop_bit 12 c OR 0xE0) :: u8) AND 0xF) :: u32) = ucast (drop_bit 12 c)"
    by (rule bit_word_eqI) (auto simp: bit_simps units dest: bit_imp_le_length)
  moreover have "push_bit 6 (push_bit 6 (ucast (drop_bit 12 c)) OR ucast (take_bit 6 (drop_bit 6 c))) OR ucast (take_bit 6 c) = (ucast c :: u32)"
  proof (rule bit_word_eqI)
    show "bit (push_bit 6 (push_bit 6 (ucast (drop_bit 12 c)) OR ucast (take_bit 6 (drop_bit 6 c))) OR ucast (take_bit 6 c) :: u32) n
        \<longleftrightarrow> bit (ucast c :: u32) n" if "n < LENGTH(32)" for n
      using that by (cases "n < 12") (auto simp: bit_simps dest: bit_imp_le_length)
  qed
  ultimately show ?thesis by (simp only: continuation_of)
qed

lemma two_bytes:
  fixes c :: wchar
  assumes "c \<le> 0x7FF"
  shows "push_bit 6 (ucast ((ucast (drop_bit 6 c OR 0xC0) :: u8) AND 0x1F)) OR ucast ((ucast (c AND 0x3F OR 0x80) :: u8) AND 0x3F)
    = (ucast c :: u32)"
proof -
  have small: "k < 11" if "bit c k" for k
    using small_bits [of c 11 k] assms that by (force simp: word_le_nat_alt word_less_nat_alt)
  have "(ucast ((ucast (drop_bit 6 c OR 0xC0) :: u8) AND 0x1F) :: u32) = ucast (drop_bit 6 c)"
    by (rule bit_word_eqI) (auto simp: bit_simps units dest: small)
  moreover have "push_bit 6 (ucast (drop_bit 6 c)) OR ucast (take_bit 6 c) = (ucast c :: u32)"
    by (rule bit_word_eqI) (auto simp: bit_simps dest: bit_imp_le_length)
  ultimately show ?thesis by (simp only: continuation_of)
qed

lemma continuation_shape:
  fixes c :: "'a :: len word"
  assumes "8 \<le> LENGTH('a)"
  shows "(ucast (c AND 0x3F OR 0x80) :: u8) AND 0x80 \<noteq> 0" "(ucast (c AND 0x3F OR 0x80) :: u8) AND 0x40 = 0"
proof -
  show "(ucast (c AND 0x3F OR 0x80) :: u8) AND 0x40 = 0"
    by (rule bit_word_eqI) (auto simp: bit_simps units)
next
  show "(ucast (c AND 0x3F OR 0x80) :: u8) AND 0x80 \<noteq> 0"
    using assms by (intro bit_nonzero [of _ 7]) (simp add: bit_simps units)
qed


lemma map_sum_Inr: "map_sum id f r = Inr y \<longleftrightarrow> (\<exists>x. r = Inr x \<and> y = f x)"
  by (cases r) auto

lemma append_one: "(@) [x] = (#) x" "(@) [x, y] = (\<lambda>r. x # y # r)"
  by (rule ext, simp)+

lemma code_units_unit: "code_units (ucast (c :: wchar)) = [c]"
proof -
  have "unat c < 2 ^ LENGTH(16)" by (rule unsigned_less)
  then have "\<not> 0x10000 \<le> (ucast c :: u32)" by (simp add: word_le_nat_alt unsigned_ucast_eq take_bit_nat_eq_self)
  moreover have "ucast (ucast c :: u32) = c" by (rule bit_word_eqI) (auto simp: bit_simps)
  ultimately show ?thesis by (simp add: code_units_def)
qed

text \<open>The bytes of one unit are read back as this unit, whatever follows.\<close>

lemma unit_read:
  "map_sum id (\<lambda>dest. c # dest) (utf8_to_utf16 rest) = utf8_to_utf16 (unit_bytes c @ rest)"
proof -
  consider "c \<le> 0x7F" | "\<not> c \<le> 0x7F" "c \<le> 0x7FF" | "\<not> c \<le> 0x7F" "\<not> c \<le> 0x7FF" by blast
  then show ?thesis
  proof cases
    case 1
    have small: "k < 7" if "bit c k" for k
      using small_bits [of c 7 k] 1 that by (force simp: word_le_nat_alt word_less_nat_alt)
    have "(ucast c :: u8) AND 0x80 = 0" by (rule bit_word_eqI) (auto simp: bit_simps units dest: small)
    moreover have "ucast (ucast c :: u8) = c" by (rule bit_word_eqI) (auto simp: bit_simps dest: small)
    ultimately show ?thesis using 1 by (simp add: unit_bytes_def)
  next
    case 2
    have "(ucast (drop_bit 6 c OR 0xC0) :: u8) AND 0x80 \<noteq> 0" "(ucast (drop_bit 6 c OR 0xC0) :: u8) AND 0x40 \<noteq> 0"
      by (rule bit_nonzero [of _ 7], simp add: bit_simps units) (rule bit_nonzero [of _ 6], simp add: bit_simps units)
    moreover have "(ucast (drop_bit 6 c OR 0xC0) :: u8) AND 0x20 = 0"
    proof -
      have small: "k < 11" if "bit c k" for k
        using small_bits [of c 11 k] 2(2) that by (force simp: word_le_nat_alt word_less_nat_alt)
      show ?thesis by (rule bit_word_eqI) (auto simp: bit_simps units dest: small)
    qed
    ultimately show ?thesis
      using 2 two_bytes [OF 2(2)] continuation_shape [of c] by (simp add: unit_bytes_def leading_byte_def numeral_eq_Suc code_units_unit append_one)
  next
    case 3
    have "(ucast (drop_bit 12 c OR 0xE0) :: u8) AND 0x80 \<noteq> 0" "(ucast (drop_bit 12 c OR 0xE0) :: u8) AND 0x40 \<noteq> 0"
      "(ucast (drop_bit 12 c OR 0xE0) :: u8) AND 0x20 \<noteq> 0"
      by (rule bit_nonzero [of _ 7], simp add: bit_simps units, rule bit_nonzero [of _ 6], simp add: bit_simps units)
        (rule bit_nonzero [of _ 5], simp add: bit_simps units)
    moreover have "(ucast (drop_bit 12 c OR 0xE0) :: u8) AND 0x10 = 0"
      by (rule bit_word_eqI) (auto simp: bit_simps units dest: bit_imp_le_length)
    ultimately show ?thesis
      using 3 three_bytes [of c] continuation_shape [of c] continuation_shape [of "drop_bit 6 c"]
      by (simp add: unit_bytes_def leading_byte_def numeral_eq_Suc code_units_unit append_one)
  qed
qed


lemma four_bytes:
  fixes c :: u32
  assumes "c < 2 ^ 21"
  shows "(push_bit 6 (push_bit 6 (push_bit 6 (ucast ((ucast (drop_bit 18 c OR 0xF0) :: u8) AND 0x7))
    OR ucast ((ucast (drop_bit 12 c AND 0x3F OR 0x80) :: u8) AND 0x3F)) OR ucast ((ucast (drop_bit 6 c AND 0x3F OR 0x80) :: u8) AND 0x3F))
    OR ucast ((ucast (c AND 0x3F OR 0x80) :: u8) AND 0x3F)) = c"
proof -
  have small: "k < 21" if "bit c k" for k
    using small_bits [OF assms, of k] that by force
  have "(ucast ((ucast (drop_bit 18 c OR 0xF0) :: u8) AND 0x7) :: u32) = drop_bit 18 c"
    by (rule bit_word_eqI) (auto simp: bit_simps units dest: small)
  moreover have "ucast ((ucast (d AND 0x3F OR 0x80) :: u8) AND 0x3F) = take_bit 6 d" for d :: u32
    by (rule bit_word_eqI) (auto simp: bit_simps units)
  moreover have "push_bit 6 (push_bit 6 (push_bit 6 (drop_bit 18 c) OR take_bit 6 (drop_bit 12 c)) OR take_bit 6 (drop_bit 6 c))
    OR take_bit 6 c = c"
  proof (rule bit_word_eqI)
    show "bit (push_bit 6 (push_bit 6 (push_bit 6 (drop_bit 18 c) OR take_bit 6 (drop_bit 12 c)) OR take_bit 6 (drop_bit 6 c))
        OR take_bit 6 c) n \<longleftrightarrow> bit c n" if "n < LENGTH(32)" for n
      using that by (cases "n < 6"; cases "n < 12"; cases "n < 18") (auto simp: bit_simps)
  qed
  ultimately show ?thesis by simp
qed

lemma surrogate_split:
  fixes c b :: wchar
  assumes "b \<le> c" and "c \<le> b + 0x3FF" and "b \<in> {0xD800, 0xDC00}"
  shows "c - b < 2 ^ 10" and "(c - b) OR b = c"
proof -
  show small: "c - b < 2 ^ 10" using assms by (auto simp: word_le_nat_alt word_less_nat_alt unat_sub)
  have "(c - b) + b = (c - b) OR b"
  proof (rule disjunctive_add)
    show "\<not> bit (c - b) n \<or> \<not> bit b n" for n
      using small_bits [OF small, of n] assms(3) by (auto simp: units)
  qed
  then show "(c - b) OR b = c" by simp
qed

lemma pair_read:
  assumes "high_surrogate h" and "low_surrogate l"
  shows "utf8_to_utf16 (pair_bytes h l @ rest) = map_sum id (\<lambda>dest. h # l # dest) (utf8_to_utf16 rest)"
proof -
  define a b where "a = h - 0xD800" and "b = l - 0xDC00"
  have a: "a < 2 ^ 10" "a OR 0xD800 = h" and b: "b < 2 ^ 10" "b OR 0xDC00 = l"
    using surrogate_split [of "0xD800" h] surrogate_split [of "0xDC00" l] assms
    by (simp_all add: high_surrogate_def low_surrogate_def a_def b_def)
  define x where "x = (push_bit 10 (ucast a) OR ucast b :: u32)"
  have lt10: "bit a n \<Longrightarrow> n < 10" "bit b n \<Longrightarrow> n < 10" for n
    using small_bits [OF a(1), of n] small_bits [OF b(1), of n] by fastforce+
  have bits: "bit x n \<longleftrightarrow> (if n < 10 then bit b n else n < 20 \<and> bit a (n - 10))" for n
    using small_bits [OF a(1), of "n - 10"] small_bits [OF b(1), of n]
    by (cases "20 \<le> n") (auto simp: x_def bit_simps not_less)
  have "take_bit 20 x = x" by (rule bit_word_eqI) (simp add: bit_simps bits)
  then have "unat x = take_bit 20 (unat x)" by (metis unsigned_take_bit_eq)
  then have x: "unat x < 2 ^ 20" by (metis take_bit_nat_less_exp)
  define c where "c = x + 0x10000"
  have c: "unat c = unat x + 0x10000" using x by (simp add: c_def unat_word_ariths)
  then have c21: "c < 2 ^ 21" and ge: "0x10000 \<le> c" using x by (simp_all add: word_less_nat_alt word_le_nat_alt)
  have "(ucast (drop_bit 18 c OR 0xF0) :: u8) AND 0x80 \<noteq> 0" "(ucast (drop_bit 18 c OR 0xF0) :: u8) AND 0x40 \<noteq> 0"
    "(ucast (drop_bit 18 c OR 0xF0) :: u8) AND 0x20 \<noteq> 0" "(ucast (drop_bit 18 c OR 0xF0) :: u8) AND 0x10 \<noteq> 0"
    by (rule bit_nonzero [of _ 7], simp add: bit_simps units, rule bit_nonzero [of _ 6], simp add: bit_simps units,
        rule bit_nonzero [of _ 5], simp add: bit_simps units) (rule bit_nonzero [of _ 4], simp add: bit_simps units)
  moreover have "(ucast (drop_bit 18 c OR 0xF0) :: u8) AND 0x8 = 0"
    by (rule bit_word_eqI) (use small_bits [OF c21, of 21] in \<open>auto simp: bit_simps units\<close>)
  ultimately have lead: "leading_byte (ucast (drop_bit 18 c OR 0xF0)) = Inr (ucast ((ucast (drop_bit 18 c OR 0xF0) :: u8) AND 0x7), 3)"
    "(ucast (drop_bit 18 c OR 0xF0) :: u8) AND 0x80 \<noteq> 0"
    by (simp_all add: leading_byte_def)
  have "ucast (drop_bit 10 x OR 0xD800) = a OR 0xD800" "ucast (x AND 0x3FF OR 0xDC00) = b OR 0xDC00"
    by (auto intro!: bit_word_eqI simp: bit_simps units bits not_le dest: lt10)
  then have "code_units c = [h, l]" using ge a(2) b(2) by (simp add: code_units_def c_def Let_def)
  moreover have "pair_bytes h l = [ucast (drop_bit 18 c OR 0xF0), ucast (drop_bit 12 c AND 0x3F OR 0x80),
      ucast (drop_bit 6 c AND 0x3F OR 0x80), ucast (c AND 0x3F OR 0x80)]"
    by (simp add: pair_bytes_def Let_def c_def x_def a_def b_def)
  moreover have "continuation_bytes 3 (ucast ((ucast (drop_bit 18 c OR 0xF0) :: u8) AND 0x7))
      (ucast (drop_bit 12 c AND 0x3F OR 0x80) # ucast (drop_bit 6 c AND 0x3F OR 0x80) # ucast (c AND 0x3F OR 0x80) # rest) = Inr (c, rest)"
    using four_bytes [OF c21] continuation_shape [of "drop_bit 12 c"] continuation_shape [of "drop_bit 6 c"] continuation_shape [of c]
    by (simp add: numeral_3_eq_3)
  ultimately show ?thesis using lead by (simp add: append_one)
qed

lemma utf8_back:
  assumes "utf16_to_utf8 w = Inr bs"
  shows "utf8_to_utf16 bs = Inr w"
  using assms
proof (induction w arbitrary: bs rule: utf16_to_utf8.induct)
  case (2 c src)
  show ?case
  proof (cases "high_surrogate c")
    case True
    with "2.prems" obtain l rest ds where r: "src = l # rest" "low_surrogate l" "utf16_to_utf8 rest = Inr ds" "bs = pair_bytes c l @ ds"
      by (auto split: list.splits if_splits simp: map_sum_Inr)
    then show ?thesis using "2.IH"(1) [OF True r(1)] pair_read [OF True r(2)] by simp
  next
    case False
    with "2.prems" obtain ds where r: "utf16_to_utf8 src = Inr ds" "bs = unit_bytes c @ ds" by (auto simp: map_sum_Inr)
    then show ?thesis using "2.IH"(2) [OF False] unit_read [of c ds] by simp
  qed
qed simp



text \<open>A text of ASCII characters has one byte for each.\<close>

lemma ascii_bytes: "\<forall>c \<in> set w. c \<le> 0x7F \<Longrightarrow> utf16_to_utf8 w = Inr (map ucast w)"
  by (induction w) (auto simp: unit_bytes_def high_surrogate_def word_le_nat_alt)

text \<open>C36: UTF-16 text survives UTF-8. Whatever text can be written in UTF-8 is read back unit by unit from its bytes.\<close>
theorem utf8_round_trip:
  assumes "utf16_to_utf8 w = Inr bs"
  shows "utf8_to_utf16 bs = Inr w"
  by (rule utf8_back [OF assms])

theorem utf8_round_trip_witness: "utf8_to_utf16 [0x41, 0xE4, 0xBD, 0xA0, 0xF0, 0x9F, 0x98, 0x80] = Inr [0x41, 0x4F60, 0xD83D, 0xDE00]"
  by (rule utf8_round_trip) (simp add: unit_bytes_def high_surrogate_def low_surrogate_def pair_bytes_def Let_def)

section \<open>Latin 1\<close>

text \<open>\<open>utf16char(s[i])\<close> of a \<open>char\<close>, which is signed.\<close>

definition latin1_to_utf16 :: "bytes \<Rightarrow> wstring" where
  "latin1_to_utf16 s = map scast s"

lemma scast_ascii: "(scast (b :: u8) :: wchar) = ucast b \<longleftrightarrow> b < 0x80"
proof -
  have "b \<in> set (map of_nat [0..<256])"
    unfolding set_map using unsigned_less [of b, where ?'a = nat] by (intro image_eqI [of _ _ "unat b"]) simp_all
  moreover have "\<forall>b \<in> set (map of_nat [0..<256]). ((scast (b :: u8) :: wchar) = ucast b \<longleftrightarrow> b < 0x80)"
    by (simp add: upt_rec)
  ultimately show ?thesis by blast
qed

text \<open>Latin 1 beyond ASCII. The conversion keeps the code points of a text exactly when all its bytes are ASCII;
  every other byte becomes a unit of 0xFF80 or more.\<close>
theorem latin1_keeps_ascii:
  "(latin1_to_utf16 s = map ucast s \<longleftrightarrow> list_all (\<lambda>b. b < 0x80) s) \<and> latin1_to_utf16 [0xE9] = [0xFFE9]"
  using scast_ascii by (auto simp: latin1_to_utf16_def list_all_iff)

end
