(* ===== verification/State.thy ===== *)
theory State
  imports Define Json_Value Utf
begin

text \<open>
  What the components share at run time. Everything outside the repository that the program calls
  (the HTTP client, COM and WMI, the interface table, the clock) is a field of the record \<open>os\<close>: a
  function of the arguments of the call and of the state \<open>'w\<close> of the world, with the answer and the
  next state of the world. The record \<open>st\<close> is the state the components pass along: that world, the
  trace of what the program did to its surroundings (messages shown, resources acquired and
  released, waits, requests) and the static counter of \<open>parse_respond\<close>. The trace grows at its end.
\<close>

section \<open>Messages\<close>

text \<open>
  One constructor per call of \<open>showlog\<close>, \<open>showwarning\<close> or \<open>showerror\<close>, with the arguments of its
  format string. The Chinese text of the format is not kept.
\<close>

datatype fetch_message =
    RequestList | RequestStatus nat | ParseList | RequestFailed | ParseFailed
  | ListStatus wstring | NoViewName | NoInfo | NoVip | NoUptime

datatype wmi_message =
    CallFailed string u32 | EnumeratorNull | DnsInvalid wstring wstring | ExecMethodFailed wstring u32
  | GetIfTableFailed u32

datatype selector_message =
    AutoStart | Retry nat nat | SwitchPublic | LookForAdapter | SwitchAdapterPublic wstring
  | PublicDone | GotDns nat | FindAdapter | FoundAdapter wstring wstring wstring
  | Switching wstring wstring wstring | PageFailed "bytes option" | FreshenDns | GotViews nat

datatype choice_message =
    Measure wstring | Pinged wstring wstring | PingTimedOut wstring
  | Choose | Best wstring | BestBackup wstring | NoBackup
  | BackupDefault1 wstring | BackupDefault2 wstring
  | BackupOriginal1 wstring | BackupOriginal2 wstring

datatype ui_message =
    InitFailed "bytes option" | AutoDone wstring | AutoFailed "bytes option"
  | FreshenAdapterFailed "bytes option" | FreshenAdapterTook wstring
  | FreshenDnsFailed "bytes option" | FreshenDnsTook wstring
  | PickAdapter | PickDns | AdapterMissing | DnsMissing | SwitchDone | SwitchFailed "bytes option"

datatype message =
    MsgFetch fetch_message       \<comment> \<open>\<open>ip_fetcher.cpp\<close>\<close>
  | MsgWmi wmi_message           \<comment> \<open>\<open>wmi.cpp\<close>, \<open>performance_counter.cpp\<close>\<close>
  | MsgSelector selector_message \<comment> \<open>\<open>dns_selector.cpp\<close>\<close>
  | MsgChoice choice_message     \<comment> \<open>\<open>dns_selector.cpp\<close>, measuring and choosing\<close>
  | MsgUi ui_message             \<comment> \<open>\<open>ui.cpp\<close>\<close>

section \<open>Resources and events\<close>

text \<open>\<open>R_Com\<close> is one initialisation of COM on the calling thread.\<close>

datatype resource =
    R_Com | R_Locator | R_Services | R_Enumerator | R_ClassObject | R_InParams | R_ClassInstance
  | R_OutParams | R_Variant | R_Bstr | R_DnsBstr | R_SafeArray | R_IfTable | R_Socket

datatype event =
    Showlog message | Showwarning message | Showerror message
  | Acquire resource | Release resource
  | Sleep nat
  | HttpGet wstring
  | Ping wstring
  | ExecMethod wstring "wstring list"
  | ShowAd bool | Navigate bytes
  | SendPacket bytes

section \<open>The outside\<close>

text \<open>
  An HTTP GET: an \<open>http_exception\<close> before any response, or a status code with what extracting the
  body as JSON gives, the value or the exception it throws (the program extracts it for status 200 only).
\<close>

datatype json_body = BodyHttpException | BodyJsonException | BodyRangeError range_error | BodyJson json
datatype http_answer = HttpException | HttpResponse nat json_body

text \<open>
  A \<open>VARIANT\<close>: its type tag, the 32 bits of the union that \<open>intVal\<close> reads and \<open>boolVal\<close> reads the low
  half of, and the pointer members (\<open>None\<close> is a null pointer). A safe array has the size of one
  element (\<open>cbElements\<close>) and the outcome of \<open>SafeArrayGetElement\<close> at every index.
\<close>

record safearray =
  cbElements :: u32
  sa_element :: "nat \<Rightarrow> wstring option"

record variant =
  vt :: u16
  intVal :: u32
  bstrVal :: "wstring option"
  parray :: "safearray option"

definition boolVal :: "variant \<Rightarrow> u16" where
  "boolVal v = ucast (intVal v)"

text \<open>A WMI object answers \<open>Get\<close> with an \<open>HRESULT\<close> and a variant.\<close>

type_synonym class_object = "wstring \<Rightarrow> u32 \<times> variant"

text \<open>
  An enumerator: the objects its successive \<open>Next\<close> calls deliver and the \<open>HRESULT\<close> of the call that
  delivers none. Enumerations of adapters are finite.
\<close>

record enumerator =
  en_objects :: "class_object list"
  en_end :: u32

record ifrow =
  dwIndex :: u32
  dwInOctets :: u32
  dwOutOctets :: u32

text \<open>
  Calls that deliver a pointer return the \<open>HRESULT\<close> and whether (or which) object was delivered.
  \<open>os_get_if_table\<close> gets the size of the buffer and returns the error code, the size it writes back
  and the rows. The conversions between the code page of the system and UTF-16 do not touch the
  world; an empty answer is the size 0 of a failed conversion.
\<close>

record 'w os =
  os_http_get :: "wstring \<Rightarrow> 'w \<Rightarrow> http_answer \<times> 'w"
  os_sleep :: "nat \<Rightarrow> 'w \<Rightarrow> 'w"
  os_tick_count :: "'w \<Rightarrow> u32 \<times> 'w"
  os_co_initialize :: "'w \<Rightarrow> u32 \<times> 'w"
  os_co_initialize_security :: "'w \<Rightarrow> u32 \<times> 'w"
  os_create_locator :: "'w \<Rightarrow> (u32 \<times> bool) \<times> 'w"
  os_connect_server :: "'w \<Rightarrow> (u32 \<times> bool) \<times> 'w"
  os_set_proxy_blanket :: "'w \<Rightarrow> u32 \<times> 'w"
  os_exec_query :: "'w \<Rightarrow> (u32 \<times> enumerator option) \<times> 'w"
  os_get_object :: "'w \<Rightarrow> (u32 \<times> bool) \<times> 'w"
  os_get_method :: "'w \<Rightarrow> (u32 \<times> bool) \<times> 'w"
  os_spawn_instance :: "'w \<Rightarrow> (u32 \<times> bool) \<times> 'w"
  os_put :: "wstring list \<Rightarrow> 'w \<Rightarrow> u32 \<times> 'w"
  os_exec_method :: "wstring \<Rightarrow> wstring list \<Rightarrow> 'w \<Rightarrow> (u32 \<times> bool) \<times> 'w"
  os_malloc :: "nat \<Rightarrow> 'w \<Rightarrow> bool \<times> 'w"
  os_get_if_table :: "u32 \<Rightarrow> 'w \<Rightarrow> (u32 \<times> u32 \<times> ifrow list) \<times> 'w"
  os_acp_to_wide :: "bytes \<Rightarrow> wstring"
  os_wide_to_acp :: "wstring \<Rightarrow> bytes"

text \<open>The macro \<open>FAILED\<close> of the Windows headers: an \<open>HRESULT\<close> is negative.\<close>

definition FAILED :: "u32 \<Rightarrow> bool" where
  "FAILED hr \<longleftrightarrow> sint hr < 0"

section \<open>The state\<close>

record 'w st =
  wd :: 'w
  tr :: "event list"
  suffix :: u32

definition emit :: "event \<Rightarrow> ('w, 'm) st_scheme \<Rightarrow> ('w, 'm) st_scheme" where
  "emit e s = s\<lparr>tr := tr s @ [e]\<rparr>"

definition emits :: "event list \<Rightarrow> ('w, 'm) st_scheme \<Rightarrow> ('w, 'm) st_scheme" where
  "emits es s = s\<lparr>tr := tr s @ es\<rparr>"

definition showlog :: "message \<Rightarrow> ('w, 'm) st_scheme \<Rightarrow> ('w, 'm) st_scheme" where
  "showlog m = emit (Showlog m)"

definition showwarning :: "message \<Rightarrow> ('w, 'm) st_scheme \<Rightarrow> ('w, 'm) st_scheme" where
  "showwarning m = emit (Showwarning m)"

definition showerror :: "message \<Rightarrow> ('w, 'm) st_scheme \<Rightarrow> ('w, 'm) st_scheme" where
  "showerror m = emit (Showerror m)"

text \<open>\<open>call f s\<close> runs a call of the outside on the world of \<open>s\<close>.\<close>

definition call :: "('w \<Rightarrow> 'a \<times> 'w) \<Rightarrow> ('w, 'm) st_scheme \<Rightarrow> 'a \<times> ('w, 'm) st_scheme" where
  "call f s = (let (a, w) = f (wd s) in (a, s\<lparr>wd := w\<rparr>))"

named_theorems st_simps \<open>selectors and updates of the shared state\<close>

lemma emit_simps [st_simps, simp]:
  "wd (emit e s) = wd s" "tr (emit e s) = tr s @ [e]" "suffix (emit e s) = suffix s" "st.more (emit e s) = st.more s"
  by (simp_all add: emit_def)

lemma emits_simps [st_simps, simp]:
  "wd (emits es s) = wd s" "tr (emits es s) = tr s @ es" "suffix (emits es s) = suffix s" "st.more (emits es s) = st.more s"
  by (simp_all add: emits_def)

lemma show_simps [st_simps, simp]:
  "wd (showlog m s) = wd s" "tr (showlog m s) = tr s @ [Showlog m]" "suffix (showlog m s) = suffix s"
  "wd (showwarning m s) = wd s" "tr (showwarning m s) = tr s @ [Showwarning m]"
  "suffix (showwarning m s) = suffix s"
  "wd (showerror m s) = wd s" "tr (showerror m s) = tr s @ [Showerror m]" "suffix (showerror m s) = suffix s"
  "st.more (showlog m s) = st.more s" "st.more (showwarning m s) = st.more s" "st.more (showerror m s) = st.more s"
  by (simp_all add: showlog_def showwarning_def showerror_def)

lemma call_simps [st_simps, simp]:
  "fst (call f s) = fst (f (wd s))"
  "wd (snd (call f s)) = snd (f (wd s))"
  "tr (snd (call f s)) = tr s"
  "suffix (snd (call f s)) = suffix s"
  "st.more (snd (call f s)) = st.more s"
  by (simp_all add: call_def split: prod.split)

lemma call_eq: "call f s = (a, s') \<Longrightarrow> tr s' = tr s \<and> suffix s' = suffix s"
  by (auto simp: call_def split: prod.splits)

section \<open>Traces\<close>

text \<open>Every operation extends the trace: \<open>new_events s s'\<close> is what it added.\<close>

definition extends :: "('w, 'm) st_scheme \<Rightarrow> ('w, 'm) st_scheme \<Rightarrow> bool" where
  "extends s s' \<longleftrightarrow> (\<exists>es. tr s' = tr s @ es)"

definition new_events :: "('w, 'm) st_scheme \<Rightarrow> ('w, 'm) st_scheme \<Rightarrow> event list" where
  "new_events s s' = drop (length (tr s)) (tr s')"

lemma new_eventsI: "tr s' = tr s @ es \<Longrightarrow> new_events s s' = es"
  by (simp add: new_events_def)

lemma extendsI: "tr s' = tr s @ es \<Longrightarrow> extends s s'"
  by (simp add: extends_def)

lemma extends_tr: "extends s s' \<Longrightarrow> tr s' = tr s @ new_events s s'"
  by (auto simp: extends_def new_events_def)

lemma extends_refl [simp]: "extends s s"
  by (simp add: extends_def)

lemma extends_trans [trans]: "extends s s' \<Longrightarrow> extends s' s'' \<Longrightarrow> extends s s''"
  by (metis append.assoc extendsI extends_tr)

lemma new_events_trans:
  "extends s s' \<Longrightarrow> extends s' s'' \<Longrightarrow> new_events s s'' = new_events s s' @ new_events s' s''"
  by (metis append.assoc extends_tr new_eventsI)

text \<open>
  The balance of a resource over a trace: acquisitions less releases. An operation that leaves it
  unchanged returned what it took; a negative balance is a release of something not held.
\<close>

fun balance :: "resource \<Rightarrow> event list \<Rightarrow> int" where
  "balance r [] = 0"
| "balance r (Acquire q # es) = (if q = r then 1 else 0) + balance r es"
| "balance r (Release q # es) = (if q = r then -1 else 0) + balance r es"
| "balance r (_ # es) = balance r es"

lemma balance_append [simp]: "balance r (es @ fs) = balance r es + balance r fs"
  by (induction r es rule: balance.induct) simp_all

text \<open>What is held in a state.\<close>

definition held :: "resource \<Rightarrow> ('w, 'm) st_scheme \<Rightarrow> int" where
  "held r s = balance r (tr s)"

lemma held_simps [simp]:
  "held r (showlog m s) = held r s" "held r (showwarning m s) = held r s" "held r (showerror m s) = held r s"
  "held r (emit (Acquire q) s) = held r s + (if q = r then 1 else 0)"
  "held r (emit (Release q) s) = held r s - (if q = r then 1 else 0)"
  "held r (emit (ExecMethod p d) s) = held r s" "held r (emit (SendPacket b) s) = held r s"
  "held r (emit (Ping ip) s) = held r s"
  "held r (emits es s) = held r s + balance r es"
  by (simp_all add: held_def)

lemma held_new_events: "extends s s' \<Longrightarrow> held r s' = held r s + balance r (new_events s s')"
  unfolding held_def by (metis balance_append extends_tr)

lemma extends_step [simp]:
  assumes "extends s s'"
  shows "extends s (emit e s')" "extends s (emits es s')" "extends s (showlog m s')"
    "extends s (showwarning m s')" "extends s (showerror m s')"
  using assms by (auto simp: extends_def)

lemma extends_call: "call f s' = (a, s'') \<Longrightarrow> extends s s'' = extends s s'"
  by (auto simp: call_def extends_def split: prod.splits)

text \<open>What a call of the outside leaves alone.\<close>

lemma call_frame:
  assumes "call f s = (a, s')"
  shows "tr s' = tr s" "suffix s' = suffix s" "held r s' = held r s" "wd s' = snd (f (wd s))" "a = fst (f (wd s))"
  using assms by (auto simp: call_def held_def split: prod.splits)

text \<open>The events that only show a message.\<close>

fun is_show :: "event \<Rightarrow> bool" where
  "is_show (Showlog _) = True"
| "is_show (Showwarning _) = True"
| "is_show (Showerror _) = True"
| "is_show _ = False"

lemma balance_shows: "list_all is_show es \<Longrightarrow> balance r es = 0"
  by (induction r es rule: balance.induct) auto

text \<open>What a trace did to the outside: requests, switches, pings and waits, in their order.\<close>

fun is_action :: "event \<Rightarrow> bool" where
  "is_action (Sleep _) = True"
| "is_action (HttpGet _) = True"
| "is_action (Ping _) = True"
| "is_action (ExecMethod _ _) = True"
| "is_action _ = False"

definition actions :: "event list \<Rightarrow> event list" where
  "actions es = filter is_action es"

lemma actions_simps [simp]:
  "actions [] = []"
  "actions (es @ fs) = actions es @ actions fs"
  "actions (e # es) = (if is_action e then e # actions es else actions es)"
  by (simp_all add: actions_def)

text \<open>The actions up to a state.\<close>

definition acts :: "('w, 'm) st_scheme \<Rightarrow> event list" where
  "acts s = actions (tr s)"

lemma acts_simps [simp]:
  "acts (showlog m s) = acts s" "acts (showwarning m s) = acts s" "acts (showerror m s) = acts s"
  "acts (emit e s) = acts s @ (if is_action e then [e] else [])"
  by (simp_all add: acts_def)

lemma acts_call: "call f s = (a, s') \<Longrightarrow> acts s' = acts s"
  by (simp add: acts_def call_frame)

lemma acts_new_events: "extends s s' \<Longrightarrow> acts s' = acts s @ actions (new_events s s')"
  unfolding acts_def by (metis extends_tr actions_simps(2))

lemma acts_emits:
  "acts (emits es s) = acts s @ actions es"
  by (simp add: acts_def)

text \<open>
  An operation that acts on nothing outside and leaves the balance of every resource outside \<open>X\<close> as it was.
\<close>

definition keeps :: "resource set \<Rightarrow> ('w, 'm) st_scheme \<Rightarrow> ('w, 'm) st_scheme \<Rightarrow> bool" where
  "keeps X s s' \<longleftrightarrow> extends s s' \<and> acts s' = acts s \<and> (\<forall>r. r \<notin> X \<longrightarrow> held r s' = held r s)"

lemma keeps_refl [simp]: "keeps X s s"
  by (simp add: keeps_def)

lemma keeps_trans [trans]: "keeps X s s' \<Longrightarrow> keeps X s' s'' \<Longrightarrow> keeps X s s''"
  unfolding keeps_def by (metis extends_trans)

lemma keeps_mono: "keeps X s s' \<Longrightarrow> X \<subseteq> Y \<Longrightarrow> keeps Y s s'"
  unfolding keeps_def by blast

lemma keepsD:
  assumes "keeps X s s'"
  shows "extends s s'" "acts s' = acts s" "r \<notin> X \<Longrightarrow> held r s' = held r s"
  using assms by (auto simp: keeps_def)

lemma call_beta: "call f s = (fst (f (wd s)), s\<lparr>wd := snd (f (wd s))\<rparr>)"
  by (simp add: call_def split_beta)

lemma wd_update_simps [simp]:
  "held r (s\<lparr>wd := w\<rparr>) = held r s" "acts (s\<lparr>wd := w\<rparr>) = acts s"
  "extends s0 (s\<lparr>wd := w\<rparr>) = extends s0 s"
  by (simp_all add: held_def acts_def extends_def)

text \<open>The same for a call in a proof, with its answer named.\<close>

lemma call_frames:
  assumes "call f s = (a, s')"
  shows "\<And>r. held r s' = held r s" "acts s' = acts s" "\<And>s0. extends s0 s' = extends s0 s"
  using call_frame [OF assms] by (simp_all add: acts_def extends_def)

lemma keeps_call: "call f s = (a, s') \<Longrightarrow> keeps X s s'"
  by (simp add: keeps_def call_frame acts_call extends_call)

lemma actions_shows: "list_all is_show es \<Longrightarrow> actions es = []"
proof (induction es)
  case (Cons e es)
  then show ?case by (cases e) simp_all
qed simp

text \<open>An operation that shows messages and leaves the world alone.\<close>

definition only_shows :: "('w, 'm) st_scheme \<Rightarrow> ('w, 'm) st_scheme \<Rightarrow> bool" where
  "only_shows s s' \<longleftrightarrow> wd s' = wd s \<and> st.more s' = st.more s \<and> (\<exists>es. tr s' = tr s @ es \<and> list_all is_show es)"

lemma only_shows_refl [simp, intro]: "only_shows s s"
  by (simp add: only_shows_def)

lemma only_shows_trans [trans]: "only_shows s s' \<Longrightarrow> only_shows s' s'' \<Longrightarrow> only_shows s s''"
  by (fastforce simp: only_shows_def)

lemma only_shows_show [simp, intro]:
  "only_shows s (showlog m s)" "only_shows s (showwarning m s)" "only_shows s (showerror m s)"
  by (simp_all add: only_shows_def)

lemma only_shows_after [intro]:
  assumes "only_shows s s'"
  shows "only_shows s (showlog m s')" "only_shows s (showwarning m s')" "only_shows s (showerror m s')"
  using assms by (auto intro: only_shows_trans)

lemma only_shows_before:
  "only_shows (showlog m s) s' \<Longrightarrow> only_shows s s'"
  "only_shows (showwarning m s) s' \<Longrightarrow> only_shows s s'"
  "only_shows (showerror m s) s' \<Longrightarrow> only_shows s s'"
  by (blast intro: only_shows_trans)+

lemma only_shows_suffix [simp]: "only_shows s (s\<lparr>suffix := n\<rparr>)"
  by (simp add: only_shows_def)

lemma only_shows_extends: "only_shows s s' \<Longrightarrow> extends s s'"
  by (auto simp: only_shows_def intro: extendsI)

lemma only_shows_keeps: "only_shows s s' \<Longrightarrow> keeps X s s'"
  by (auto simp: only_shows_def keeps_def extends_def held_def acts_def balance_shows actions_shows)

lemma only_shows_new_events: "only_shows s s' \<Longrightarrow> list_all is_show (new_events s s')"
  by (auto simp: only_shows_def dest: new_eventsI)

text \<open>A pointer that is set holds its resource.\<close>

definition acquire_if :: "bool \<Rightarrow> resource \<Rightarrow> ('w, 'm) st_scheme \<Rightarrow> ('w, 'm) st_scheme" where
  "acquire_if got r s = (if got then emit (Acquire r) s else s)"

definition release_if :: "bool \<Rightarrow> resource \<Rightarrow> ('w, 'm) st_scheme \<Rightarrow> ('w, 'm) st_scheme" where
  "release_if p r s = (if p then emit (Release r) s else s)"

lemma acquire_release_simps [simp]:
  "held r (acquire_if b q s) = held r s + of_bool (b \<and> q = r)"
  "held r (release_if b q s) = held r s - of_bool (b \<and> q = r)"
  "acts (acquire_if b q s) = acts s" "acts (release_if b q s) = acts s"
  "extends s0 s \<Longrightarrow> extends s0 (acquire_if b q s)" "extends s0 s \<Longrightarrow> extends s0 (release_if b q s)"
  by (simp_all add: acquire_if_def release_if_def)

section \<open>A concrete outside\<close>

text \<open>
  A machine on which every call succeeds: the server answers with \<open>v\<close>, WMI enumerates the objects
  \<open>objs\<close>, the interface table has the rows \<open>rows\<close> and fits the first buffer. The clock is the state
  of the world, a number of milliseconds.
\<close>

definition demo_os :: "http_answer \<Rightarrow> class_object list \<Rightarrow> ifrow list \<Rightarrow> int os" where
  "demo_os v objs rows = \<lparr>
     os_http_get = \<lambda>_ w. (v, w),
     os_sleep = \<lambda>n w. w + int n,
     os_tick_count = \<lambda>w. (of_int w, w),
     os_co_initialize = \<lambda>w. (0, w),
     os_co_initialize_security = \<lambda>w. (0, w),
     os_create_locator = \<lambda>w. ((0, True), w),
     os_connect_server = \<lambda>w. ((0, True), w),
     os_set_proxy_blanket = \<lambda>w. (0, w),
     os_exec_query = \<lambda>w. ((0, Some \<lparr>en_objects = objs, en_end = 1\<rparr>), w),
     os_get_object = \<lambda>w. ((0, True), w),
     os_get_method = \<lambda>w. ((0, True), w),
     os_spawn_instance = \<lambda>w. ((0, True), w),
     os_put = \<lambda>_ w. (0, w),
     os_exec_method = \<lambda>_ _ w. ((0, True), w),
     os_malloc = \<lambda>_ w. (True, w),
     os_get_if_table = \<lambda>n w. ((0, n, rows), w),
     os_acp_to_wide = map ucast,
     os_wide_to_acp = map ucast\<rparr>"

definition demo_st :: "int st" where
  "demo_st = \<lparr>wd = 0, tr = [], suffix = 0\<rparr>"

lemma demo_os_simps [simp]:
  "os_http_get (demo_os v objs rows) u w = (v, w)"
  "os_sleep (demo_os v objs rows) n w = w + int n"
  "os_tick_count (demo_os v objs rows) w = (of_int w, w)"
  "os_co_initialize (demo_os v objs rows) w = (0, w)"
  "os_co_initialize_security (demo_os v objs rows) w = (0, w)"
  "os_create_locator (demo_os v objs rows) w = ((0, True), w)"
  "os_connect_server (demo_os v objs rows) w = ((0, True), w)"
  "os_set_proxy_blanket (demo_os v objs rows) w = (0, w)"
  "os_exec_query (demo_os v objs rows) w = ((0, Some \<lparr>en_objects = objs, en_end = 1\<rparr>), w)"
  "os_get_object (demo_os v objs rows) w = ((0, True), w)"
  "os_get_method (demo_os v objs rows) w = ((0, True), w)"
  "os_spawn_instance (demo_os v objs rows) w = ((0, True), w)"
  "os_put (demo_os v objs rows) d w = (0, w)"
  "os_exec_method (demo_os v objs rows) p d w = ((0, True), w)"
  "os_malloc (demo_os v objs rows) k w = (True, w)"
  "os_get_if_table (demo_os v objs rows) n' w = ((0, n', rows), w)"
  "os_acp_to_wide (demo_os v objs rows) = map ucast"
  "os_wide_to_acp (demo_os v objs rows) = map ucast"
  by (simp_all add: demo_os_def)

lemma demo_st_simps [simp]: "wd demo_st = 0" "tr demo_st = []" "suffix demo_st = 0"
  by (simp_all add: demo_st_def)

end
