(* ===== verification/Json_Lexer.thy ===== *)
theory Json_Lexer
  imports Json_Value
begin

text \<open>
  The lexical half of the SDK's JSON parser (\<open>JSON_Parser\<close> and \<open>JSON_StringParser\<close> of \<open>json_parsing.cpp\<close>, on
  wide characters): reading a string character by character with line and column, and the functions that complete
  a keyword, a number, a comment or a string literal, up to \<open>GetNextToken\<close>.
\<close>

section \<open>Reading characters\<close>

text \<open>
  The rest of the string stands for \<open>m_position\<close> and \<open>m_endpos\<close>. The end of the string is \<open>eof<wchar_t>()\<close>, which is
  also the value of a character U+FFFF. Line and column stay below the length of the string.
\<close>

record parser =
  m_rest :: wstring
  m_currentLine :: nat
  m_currentColumn :: nat
  m_currentParsingDepth :: int

definition WEOF :: wchar where "WEOF = 0xFFFF"

definition NextCharacter :: "parser \<Rightarrow> wchar \<times> parser" where
  "NextCharacter s =
     (case m_rest s of
        [] \<Rightarrow> (WEOF, s)
      | ch # rest \<Rightarrow>
          (ch, if ch = 10
               then s\<lparr>m_rest := rest, m_currentLine := m_currentLine s + 1, m_currentColumn := 0\<rparr>
               else s\<lparr>m_rest := rest, m_currentColumn := m_currentColumn s + 1\<rparr>))"

definition PeekCharacter :: "parser \<Rightarrow> wchar" where
  "PeekCharacter s = (case m_rest s of [] \<Rightarrow> WEOF | ch # _ \<Rightarrow> ch)"

lemma next_simps [simp]:
  "m_rest s = [] \<Longrightarrow> NextCharacter s = (WEOF, s)"
  "m_rest s = c # rest \<Longrightarrow> fst (NextCharacter s) = c"
  "m_rest s = c # rest \<Longrightarrow> m_rest (snd (NextCharacter s)) = rest"
  "m_currentParsingDepth (snd (NextCharacter s)) = m_currentParsingDepth s"
  by (simp_all add: NextCharacter_def split: list.split)

lemma next_shorter:
  "NextCharacter s = (ch, s') \<Longrightarrow> length (m_rest s') \<le> length (m_rest s)
     \<and> (ch \<noteq> WEOF \<longrightarrow> length (m_rest s') < length (m_rest s))"
  by (auto simp: NextCharacter_def split: list.splits)

text \<open>The white space of the C runtime (\<open>iswspace\<close>).\<close>

definition iswspace :: "wchar \<Rightarrow> bool" where
  "iswspace c \<longleftrightarrow> c = 32 \<or> 9 \<le> c \<and> c \<le> 13 \<or> c = 0x85 \<or> c = 0xA0 \<or> c = 0x1680 \<or> 0x2000 \<le> c \<and> c \<le> 0x200A
     \<or> c = 0x2028 \<or> c = 0x2029 \<or> c = 0x202F \<or> c = 0x205F \<or> c = 0x3000"

function EatWhitespace :: "parser \<Rightarrow> wchar \<times> parser" where
  "EatWhitespace s =
     (let (ch, s') = NextCharacter s
      in if ch \<noteq> WEOF \<and> iswspace ch then EatWhitespace s' else (ch, s'))"
  by pat_completeness auto
termination
  by (relation "measure (\<lambda>s. length (m_rest s))") (auto dest: next_shorter [OF sym])

declare EatWhitespace.simps [simp del]

section \<open>Tokens\<close>

datatype kind =
    TKN_EOF | TKN_OpenBrace | TKN_CloseBrace | TKN_OpenBracket | TKN_CloseBracket | TKN_Comma | TKN_Colon
  | TKN_StringLiteral | TKN_NumberLiteral | TKN_IntegerLiteral | TKN_BooleanLiteral | TKN_NullLiteral | TKN_Comment

datatype json_error =
    left_over_character_in_stream | malformed_array_literal | malformed_comment | malformed_literal
  | malformed_object_literal | malformed_numeric_literal | malformed_string_literal | malformed_token
  | mismatched_brances | nesting | unexpected_token

text \<open>The members of the union that hold a number are one value here; \<open>has_unescape_symbol\<close> only steers printing.\<close>

record token =
  tk_kind :: kind
  string_val :: wstring
  start :: "nat \<times> nat"
  number_val :: number
  boolean_val :: bool
  m_error :: "json_error option"

definition SetErrorCode :: "token \<Rightarrow> json_error \<Rightarrow> token" where
  "SetErrorCode tk e = tk\<lparr>m_error := Some e\<rparr>"

definition CreateToken :: "token \<Rightarrow> kind \<Rightarrow> nat \<times> nat \<Rightarrow> token" where
  "CreateToken tk k at_start = tk\<lparr>tk_kind := k, start := at_start, string_val := []\<rparr>"

section \<open>Keywords\<close>

fun complete_keyword :: "wstring \<Rightarrow> parser \<Rightarrow> bool \<times> parser" where
  "complete_keyword [] s = (True, s)"
| "complete_keyword (c # cs) s =
     (let (ch, s) = NextCharacter s in if ch \<noteq> c then (False, s) else complete_keyword cs s)"

definition CompleteKeywordTrue :: "token \<Rightarrow> parser \<Rightarrow> bool \<times> token \<times> parser" where
  "CompleteKeywordTrue tk s =
     (let (ok, s) = complete_keyword (wlit ''rue'') s
      in (ok, if ok then tk\<lparr>tk_kind := TKN_BooleanLiteral, boolean_val := True\<rparr> else tk, s))"

definition CompleteKeywordFalse :: "token \<Rightarrow> parser \<Rightarrow> bool \<times> token \<times> parser" where
  "CompleteKeywordFalse tk s =
     (let (ok, s) = complete_keyword (wlit ''alse'') s
      in (ok, if ok then tk\<lparr>tk_kind := TKN_BooleanLiteral, boolean_val := False\<rparr> else tk, s))"

definition CompleteKeywordNull :: "token \<Rightarrow> parser \<Rightarrow> bool \<times> token \<times> parser" where
  "CompleteKeywordNull tk s =
     (let (ok, s) = complete_keyword (wlit ''ull'') s
      in (ok, if ok then tk\<lparr>tk_kind := TKN_NullLiteral\<rparr> else tk, s))"

section \<open>Numbers\<close>

definition is_digit :: "wchar \<Rightarrow> bool" where
  "is_digit ch \<longleftrightarrow> 48 \<le> ch \<and> ch \<le> 57"

lemma WEOF_not_digit [simp]: "\<not> is_digit WEOF"
  by (simp add: is_digit_def WEOF_def)

text \<open>The loop of \<open>ParseInt64\<close>; False is an overflow, and the digit that overflows is not consumed.\<close>

function parse_digits :: "64 word \<Rightarrow> parser \<Rightarrow> bool \<times> 64 word \<times> parser" where
  "parse_digits value s =
     (let ch = PeekCharacter s
      in if is_digit ch
         then let next_digit = ucast (ch - 48)
              in if value > - 1 div 10 \<or> value = - 1 div 10 \<and> next_digit > - 1 mod 10 then (False, value, s)
                 else parse_digits (value * 10 + next_digit) (snd (NextCharacter s))
         else (True, value, s))"
  by pat_completeness auto
termination
  by (relation "measure (\<lambda>(_, s). length (m_rest s))") (auto simp: PeekCharacter_def split: list.splits)

declare parse_digits.simps [simp del]

definition ParseInt64 :: "wchar \<Rightarrow> parser \<Rightarrow> bool \<times> 64 word \<times> parser" where
  "ParseInt64 first s = parse_digits (ucast (first - 48)) s"

text \<open>A digit is taken from the string into the buffer.\<close>

definition take_char :: "wstring \<Rightarrow> parser \<Rightarrow> wstring \<times> parser" where
  "take_char buf s = (buf @ [PeekCharacter s], snd (NextCharacter s))"

function take_digits :: "wstring \<Rightarrow> parser \<Rightarrow> wstring \<times> parser" where
  "take_digits buf s =
     (if is_digit (PeekCharacter s) then let (buf, s) = take_char buf s in take_digits buf s else (buf, s))"
  by pat_completeness auto
termination
  by (relation "measure (\<lambda>(_, s). length (m_rest s))") (auto simp: take_char_def PeekCharacter_def split: list.splits)

declare take_digits.simps [simp del]

text \<open>The exponent, from its letter on.\<close>

definition take_exponent :: "wstring \<Rightarrow> parser \<Rightarrow> bool \<times> wstring \<times> parser" where
  "take_exponent buf s =
     (let (buf, s) = take_char buf s;
          (buf, s) = (if PeekCharacter s = 43 \<or> PeekCharacter s = 45 then take_char buf s else (buf, s))
      in if is_digit (PeekCharacter s)
         then let (buf, s) = take_char buf s; (buf, s) = take_digits buf s in (True, buf, s)
         else (False, buf, s))"

text \<open>The loop over the rest of a number that is not an integer of 64 bits.\<close>

function take_number :: "bool \<Rightarrow> wstring \<Rightarrow> parser \<Rightarrow> bool \<times> wstring \<times> parser" where
  "take_number decimal buf s =
     (let ch = PeekCharacter s
      in if is_digit ch then let (buf, s) = take_char buf s in take_number decimal buf s
         else if ch = 46
         then (if decimal then (False, buf, s)
               else let (buf, s) = take_char buf s
                    in if \<not> is_digit (PeekCharacter s) then (False, buf, s)
                       else let (buf, s) = take_char buf s in take_number True buf s)
         else if ch = 69 \<or> ch = 101 then take_exponent buf s
         else (True, buf, s))"
  by pat_completeness auto
termination
  by (relation "measure (\<lambda>(_, _, s). length (m_rest s))")
    (auto simp: take_char_def PeekCharacter_def split: list.splits if_splits)

declare take_number.simps [simp del]

text \<open>What \<open>wcstod\<close> reads from the buffer: digits, perhaps a point and digits, perhaps an exponent.\<close>

definition digits_value :: "wstring \<Rightarrow> nat" where
  "digits_value w = foldl (\<lambda>n ch. 10 * n + unat (ch - 48)) 0 w"

definition exponent_value :: "wstring \<Rightarrow> int" where
  "exponent_value w =
     (case w of
        [] \<Rightarrow> 0
      | _ # e \<Rightarrow>
          (case e of
             [] \<Rightarrow> 0
           | c # ds \<Rightarrow> if c = 45 then - int (digits_value ds)
                       else if c = 43 then int (digits_value ds) else int (digits_value e)))"

definition strtod :: "wstring \<Rightarrow> rat" where
  "strtod w =
     (let i = takeWhile is_digit w; r = dropWhile is_digit w;
          f = (if r \<noteq> [] \<and> hd r = 46 then takeWhile is_digit (tl r) else []);
          r = (if r \<noteq> [] \<and> hd r = 46 then dropWhile is_digit (tl r) else r);
          e = exponent_value r - int (length f)
      in of_nat (digits_value (i @ f)) * (if e \<ge> 0 then 10 ^ nat e else 1 / 10 ^ nat (- e)))"

text \<open>
  \<open>CompleteNumberLiteral\<close>: the digits are read as a 64-bit integer; a point, an exponent or an overflow makes them
  the beginning of a buffer that is read as a \<open>double\<close>.
\<close>

definition CompleteNumberLiteral :: "wchar \<Rightarrow> token \<Rightarrow> parser \<Rightarrow> bool \<times> token \<times> parser" where
  "CompleteNumberLiteral first tk s =
     (let minus_sign = (first = 45);
          (first, s) = (if minus_sign then NextCharacter s else (first, s))
      in if \<not> is_digit first then (False, tk, s)
         else if first = 48 \<and> PeekCharacter s = 48 then (False, tk, s)
         else
           let (complete, val64, s) = ParseInt64 first s; ch = PeekCharacter s
           in if complete \<and> ch \<noteq> 46 \<and> ch \<noteq> 69 \<and> ch \<noteq> 101
              then (if minus_sign
                    then (if val64 > push_bit 63 1
                          then (True, tk\<lparr>number_val := Double (- of_nat (unat val64)), tk_kind := TKN_NumberLiteral\<rparr>, s)
                          else (True, tk\<lparr>number_val := number_of_int64 (- val64), tk_kind := TKN_IntegerLiteral\<rparr>, s))
                    else (True, tk\<lparr>number_val := Unsigned val64, tk_kind := TKN_IntegerLiteral\<rparr>, s))
              else
                let (ok, buf, s) = take_number False (to_wstring (unat val64)) s
                in if \<not> ok then (False, tk, s)
                   else (True, tk\<lparr>number_val := Double (if minus_sign then - strtod buf else strtod buf),
                                 tk_kind := TKN_NumberLiteral\<rparr>, s))"

section \<open>Comments\<close>

function skip_line :: "parser \<Rightarrow> parser" where
  "skip_line s = (let (ch, s') = NextCharacter s in if ch \<noteq> WEOF \<and> ch \<noteq> 10 then skip_line s' else s')"
  by pat_completeness auto
termination
  by (relation "measure (\<lambda>s. length (m_rest s))") (auto dest: next_shorter [OF sym])

declare skip_line.simps [simp del]

text \<open>The loop over a block comment, with the character it looks at.\<close>

function skip_block :: "wchar \<Rightarrow> parser \<Rightarrow> bool \<times> parser" where
  "skip_block ch s =
     (if ch = WEOF then (False, s)
      else if ch = 42
      then (let ch = PeekCharacter s
            in if ch = WEOF then (False, s)
               else if ch = 47 then (True, snd (NextCharacter s))
               else skip_block (fst (NextCharacter s)) (snd (NextCharacter s)))
      else skip_block (fst (NextCharacter s)) (snd (NextCharacter s)))"
  by pat_completeness auto
termination
  by (relation "measure (\<lambda>(ch, s). 2 * length (m_rest s) + (if ch = WEOF then 0 else 1))")
    (auto simp: NextCharacter_def split: list.splits)

declare skip_block.simps [simp del]

definition CompleteComment :: "token \<Rightarrow> parser \<Rightarrow> bool \<times> token \<times> parser" where
  "CompleteComment tk s =
     (let (ch, s) = NextCharacter s
      in if ch = WEOF \<or> ch \<noteq> 47 \<and> ch \<noteq> 42 then (False, tk, s)
         else if ch = 47 then (True, tk\<lparr>tk_kind := TKN_Comment\<rparr>, skip_line s)
         else let (ch, s) = NextCharacter s; (ok, s) = skip_block ch s
              in (ok, if ok then tk\<lparr>tk_kind := TKN_Comment\<rparr> else tk, s))"

section \<open>Strings\<close>

text \<open>The table \<open>_hexval\<close>, by rows of sixteen.\<close>

definition hexval :: "int list" where
  "hexval = replicate 48 (- 1) @ [0, 1, 2, 3, 4, 5, 6, 7, 8, 9] @ replicate 7 (- 1)
     @ [10, 11, 12, 13, 14, 15] @ replicate 26 (- 1) @ [10, 11, 12, 13, 14, 15] @ replicate 25 (- 1)"

definition isxdigit :: "wchar \<Rightarrow> bool" where
  "isxdigit c \<longleftrightarrow> is_digit c \<or> 65 \<le> c \<and> c \<le> 70 \<or> 97 \<le> c \<and> c \<le> 102"

fun decode_hex :: "nat \<Rightarrow> wchar \<Rightarrow> parser \<Rightarrow> (wchar option) \<times> parser" where
  "decode_hex 0 decoded s = (Some decoded, s)"
| "decode_hex (Suc n) decoded s =
     (let (ch, s) = NextCharacter s
      in if ch > 127 then (None, s)
         else if \<not> isxdigit ch then (None, s)
         else decode_hex n (decoded OR push_bit (4 * n) (of_int (hexval ! unat ch))) s)"

text \<open>The characters of \<open>handle_unescape_char\<close>; the first component is what it appends, if it succeeds.\<close>

definition simple_escapes :: "(wchar \<times> wchar) list" where
  "simple_escapes = [(34, 34), (92, 92), (47, 47), (98, 8), (102, 12), (114, 13), (110, 10), (116, 9)]"

definition handle_unescape_char :: "parser \<Rightarrow> (wchar option) \<times> parser" where
  "handle_unescape_char s =
     (let (ch, s) = NextCharacter s
      in case map_of simple_escapes ch of
           Some c \<Rightarrow> (Some c, s)
         | None \<Rightarrow> if ch = 117 then decode_hex 4 0 s else (None, s))"

lemma decode_hex_shorter: "decode_hex n d s = (r, s') \<Longrightarrow> length (m_rest s') \<le> length (m_rest s)"
proof (induction n d s rule: decode_hex.induct)
  case (2 n d s)
  obtain ch t where t: "NextCharacter s = (ch, t)" by force
  with "2.IH" [OF refl t [symmetric]] "2.prems" next_shorter [OF t] show ?case
    by (auto split: if_splits intro: le_trans less_imp_le)
qed simp

lemma unescape_shorter: "handle_unescape_char s = (r, s') \<Longrightarrow> length (m_rest s') \<le> length (m_rest s)"
  by (auto simp: handle_unescape_char_def split: prod.splits option.splits if_splits
      dest!: next_shorter decode_hex_shorter)

function string_loop :: "wstring \<Rightarrow> parser \<Rightarrow> bool \<times> wstring \<times> parser" where
  "string_loop out s =
     (let (ch, s') = NextCharacter s
      in if ch = 34 then (True, out, s')
         else if ch = WEOF then (False, out, s')
         else if ch = 92
         then (case handle_unescape_char s' of
                 (None, s'') \<Rightarrow> (False, out, s'')
               | (Some c, s'') \<Rightarrow> string_loop (out @ [c]) s'')
         else if ch < 32 then (False, out, s')
         else string_loop (out @ [ch]) s')"
  by pat_completeness auto
termination
  by (relation "measure (\<lambda>(_, s). length (m_rest s))")
    (auto dest!: next_shorter [OF sym] unescape_shorter [OF sym])

declare string_loop.simps [simp del]

text \<open>What a literal that fails has already put into the token is not looked at.\<close>

definition CompleteStringLiteral :: "token \<Rightarrow> parser \<Rightarrow> bool \<times> token \<times> parser" where
  "CompleteStringLiteral tk s =
     (let (ok, out, s) = string_loop (string_val tk) s
      in (ok, if ok then tk\<lparr>string_val := out, tk_kind := TKN_StringLiteral\<rparr> else tk\<lparr>string_val := out\<rparr>, s))"

section \<open>The next token\<close>

lemma eat_shorter:
  "EatWhitespace s = (ch, s') \<Longrightarrow> length (m_rest s') \<le> length (m_rest s)
     \<and> (ch \<noteq> WEOF \<longrightarrow> length (m_rest s') < length (m_rest s))
     \<and> m_currentParsingDepth s' = m_currentParsingDepth s"
proof (induction s rule: EatWhitespace.induct)
  case (1 s)
  obtain c t where t: "NextCharacter s = (c, t)" by force
  then have "m_currentParsingDepth t = m_currentParsingDepth s" using next_simps(4) [of s] by simp
  with "1.IH" [OF refl t [symmetric]] "1.prems" t next_shorter [OF t] show ?case
    by (subst (asm) (2) EatWhitespace.simps) (auto split: if_splits)
qed

lemma line_shorter: "length (m_rest (skip_line s)) \<le> length (m_rest s)"
proof (induction s rule: skip_line.induct)
  case (1 s)
  obtain c t where t: "NextCharacter s = (c, t)" by force
  with "1.IH" [OF refl t [symmetric]] next_shorter [OF t] show ?case
    by (subst skip_line.simps) (auto split: if_splits)
qed

lemma block_shorter: "skip_block ch s = (ok, s') \<Longrightarrow> length (m_rest s') \<le> length (m_rest s)"
proof (induction ch s rule: skip_block.induct)
  case (1 ch s)
  have "length (m_rest (snd (NextCharacter s))) \<le> length (m_rest s)"
    using next_shorter [of s] by (cases "NextCharacter s") auto
  with 1 show ?case by (subst (asm) (3) skip_block.simps) (auto simp: Let_def split: if_splits)
qed

lemma comment_shorter:
  assumes "CompleteComment tk s = (ok, tk', s')"
  shows "length (m_rest s') \<le> length (m_rest s)"
proof -
  obtain ch t where t: "NextCharacter s = (ch, t)" by force
  obtain c u where u: "NextCharacter t = (c, u)" by force
  obtain ok' v where v: "skip_block c u = (ok', v)" by force
  have "length (m_rest t) \<le> length (m_rest s)" "length (m_rest v) \<le> length (m_rest t)"
    using next_shorter [OF t] next_shorter [OF u] block_shorter [OF v] by simp_all
  moreover have "m_rest s' = m_rest t \<or> s' = skip_line t \<or> s' = v"
    using assms by (simp add: CompleteComment_def t u v split: if_splits)
  ultimately show ?thesis using line_shorter [of t] by auto
qed

definition maxParsingDepth :: int where "maxParsingDepth = 128"

text \<open>A token that is completed by a function, which may fail.\<close>

definition completed :: "json_error \<Rightarrow> bool \<times> token \<times> parser \<Rightarrow> token \<times> parser" where
  "completed e r = (case r of (ok, tk, s) \<Rightarrow> (if ok then tk else SetErrorCode tk e, s))"

text \<open>
  \<open>GetNextToken\<close>. The depth is a \<open>size_t\<close> whose decrement below zero is seen as a negative number. Comments are read
  over.
\<close>

function GetNextToken :: "token \<Rightarrow> parser \<Rightarrow> token \<times> parser" where
  "GetNextToken result s =
     (let (ch, s) = EatWhitespace s;
          at_start = (m_currentLine s, m_currentColumn s);
          result = CreateToken result TKN_EOF at_start
      in if ch = WEOF then (result, s)
         else if ch = 123 \<or> ch = 91
         then (let s = s\<lparr>m_currentParsingDepth := m_currentParsingDepth s + 1\<rparr>
               in if m_currentParsingDepth s > maxParsingDepth then (SetErrorCode result nesting, s)
                  else (CreateToken result (if ch = 123 then TKN_OpenBrace else TKN_OpenBracket) at_start, s))
         else if ch = 125 \<or> ch = 93
         then (let s = s\<lparr>m_currentParsingDepth := m_currentParsingDepth s - 1\<rparr>
               in if m_currentParsingDepth s < 0 then (SetErrorCode result mismatched_brances, s)
                  else (CreateToken result (if ch = 125 then TKN_CloseBrace else TKN_CloseBracket) at_start, s))
         else if ch = 44 then (CreateToken result TKN_Comma at_start, s)
         else if ch = 58 then (CreateToken result TKN_Colon at_start, s)
         else if ch = 116 then completed malformed_literal (CompleteKeywordTrue result s)
         else if ch = 102 then completed malformed_literal (CompleteKeywordFalse result s)
         else if ch = 110 then completed malformed_literal (CompleteKeywordNull result s)
         else if ch = 47
         then (case CompleteComment result s of
                 (ok, result, s) \<Rightarrow>
                   if ok then GetNextToken result s else (SetErrorCode result malformed_comment, s))
         else if ch = 34 then completed malformed_string_literal (CompleteStringLiteral result s)
         else if ch = 45 \<or> is_digit ch then completed malformed_numeric_literal (CompleteNumberLiteral ch result s)
         else (SetErrorCode result malformed_token, s))"
  by pat_completeness auto
termination
  by (relation "measure (\<lambda>(_, s). length (m_rest s))")
    (auto dest!: eat_shorter [OF sym] comment_shorter [OF sym])

declare GetNextToken.simps [simp del]

section \<open>Reading never goes back\<close>

definition reads_on :: "parser \<Rightarrow> parser \<Rightarrow> bool" where
  "reads_on s s' \<longleftrightarrow> length (m_rest s') \<le> length (m_rest s)"

lemma reads_on_refl [simp]: "reads_on s s" "reads_on s (s\<lparr>m_currentParsingDepth := d\<rparr>)"
  by (simp_all add: reads_on_def)

lemma reads_on_trans [trans]: "reads_on s t \<Longrightarrow> reads_on t u \<Longrightarrow> reads_on s u"
  by (simp add: reads_on_def)

named_theorems on \<open>functions that read on\<close>

lemma next_reads_on [on]: "reads_on s t \<Longrightarrow> reads_on s (snd (NextCharacter t))"
  using next_shorter [of t] by (cases "NextCharacter t") (auto simp: reads_on_def)

lemma next_pair: "NextCharacter s = (c, t) \<Longrightarrow> reads_on s t"
  using next_reads_on [of s s] by simp

lemma digits_read_on: "reads_on s (snd (snd (parse_digits v s)))"
proof (induction v s rule: parse_digits.induct)
  case (1 v s)
  then show ?case
    by (subst parse_digits.simps) (auto simp: Let_def intro: reads_on_trans [OF next_reads_on [OF reads_on_refl(1)]])
qed

lemma take_digits_read_on: "reads_on s (snd (take_digits buf s))"
proof (induction buf s rule: take_digits.induct)
  case (1 buf s)
  then show ?case
    by (subst take_digits.simps) (auto simp: take_char_def intro: reads_on_trans [OF next_reads_on [OF reads_on_refl(1)]])
qed

lemma digits_on [on]:
  "reads_on s t \<Longrightarrow> reads_on s (snd (snd (parse_digits v t)))" "reads_on s t \<Longrightarrow> reads_on s (snd (take_digits buf t))"
  using digits_read_on take_digits_read_on reads_on_trans by blast+

lemma exponent_on [on]: "reads_on s t \<Longrightarrow> reads_on s (snd (snd (take_exponent buf t)))"
  by (auto simp: take_exponent_def take_char_def split_beta intro: on)

lemma number_reads_on: "reads_on s (snd (snd (take_number decimal buf s)))"
proof (induction decimal buf s rule: take_number.induct)
  case (1 decimal buf s)
  then show ?case
    by (subst take_number.simps)
      (auto simp: Let_def take_char_def intro!: on intro: reads_on_trans [OF next_reads_on [OF reads_on_refl(1)]]
        reads_on_trans [OF next_reads_on [OF next_reads_on [OF reads_on_refl(1)]]])
qed

lemma number_on [on]: "reads_on s t \<Longrightarrow> reads_on s (snd (snd (take_number decimal buf t)))"
  using number_reads_on reads_on_trans by blast

lemma keyword_on [on]: "reads_on s t \<Longrightarrow> reads_on s (snd (complete_keyword w t))"
  by (induction w t rule: complete_keyword.induct)
    (auto split: prod.splits dest: next_pair reads_on_trans)

lemma string_reads_on: "reads_on s (snd (snd (string_loop out s)))"
proof (induction out s rule: string_loop.induct)
  case (1 out s)
  obtain c t where t: "NextCharacter s = (c, t)" by force
  obtain r u where u: "handle_unescape_char t = (r, u)" by force
  have r: "reads_on s t" "reads_on s u"
    using next_pair [OF t] unescape_shorter [OF u] by (simp_all add: reads_on_def)
  show ?case
  proof (cases "c \<in> {34, 92} \<or> c = WEOF \<or> c < 32")
    case False
    with "1.IH"(2) [OF refl t [symmetric]] r(1) t show ?thesis
      by (subst string_loop.simps) (auto intro: reads_on_trans)
  next
    case True
    with "1.IH"(1) [OF refl t [symmetric] _ _ _ u [symmetric]] r t u show ?thesis
      by (subst string_loop.simps) (auto split: option.splits intro: reads_on_trans)
  qed
qed

lemma string_on [on]: "reads_on s t \<Longrightarrow> reads_on s (snd (snd (string_loop out t)))"
  using string_reads_on reads_on_trans by blast

lemma number_literal_on: "reads_on s (snd (snd (CompleteNumberLiteral c tk s)))"
proof -
  obtain f u where u: "(if c = 45 then NextCharacter s else (c, s)) = (f, u)" by force
  obtain ok n v where v: "ParseInt64 f u = (ok, n, v)" by (metis prod_cases3)
  obtain ok' b w where w: "take_number False (to_wstring (unat n)) v = (ok', b, w)" by (metis prod_cases3)
  have r: "reads_on s u" using u next_pair by (cases "c = 45") auto
  have "reads_on s v" using digits_on(1) [OF r] v by (simp add: ParseInt64_def) (metis snd_conv)
  moreover from this have "reads_on s w" using number_on w by (metis snd_conv)
  ultimately show ?thesis
    using r unfolding CompleteNumberLiteral_def Let_def u prod.case v w by (simp split: prod.split)
qed

lemma completed_on:
  "reads_on s (snd (completed e (CompleteKeywordTrue tk s)))" "reads_on s (snd (completed e (CompleteKeywordFalse tk s)))"
  "reads_on s (snd (completed e (CompleteKeywordNull tk s)))" "reads_on s (snd (completed e (CompleteStringLiteral tk s)))"
  "reads_on s (snd (completed e (CompleteNumberLiteral c tk s)))"
  using number_literal_on [of s c tk]
  by (simp_all add: completed_def CompleteKeywordTrue_def CompleteKeywordFalse_def CompleteKeywordNull_def
      CompleteStringLiteral_def split_beta Let_def on del: complete_keyword.simps)

text \<open>A token other than the end takes at least one character.\<close>

lemma next_token_reads:
  "GetNextToken tk s = (t, s') \<Longrightarrow> reads_on s s' \<and> (tk_kind t \<noteq> TKN_EOF \<longrightarrow> length (m_rest s') < length (m_rest s))"
proof (induction tk s rule: GetNextToken.induct)
  case (1 tk s)
  obtain ch u where u: "EatWhitespace s = (ch, u)" by force
  note eat = eat_shorter [OF u]
  have on_ch: "reads_on s v \<and> (ch \<noteq> WEOF \<longrightarrow> length (m_rest v) < length (m_rest s))" if "reads_on u v" for v
    using that eat by (auto simp: reads_on_def)
  have ends: "tk_kind (CreateToken tk TKN_EOF p) = TKN_EOF" for p by (simp add: CreateToken_def)
  show ?case
  proof (cases "ch = 47")
    case True
    obtain ok tk' v where v: "CompleteComment (CreateToken tk TKN_EOF (m_currentLine u, m_currentColumn u)) u = (ok, tk', v)"
      by (metis prod_cases3)
    have "reads_on u v" using comment_shorter [OF v] by (simp add: reads_on_def)
    with on_ch have "reads_on s v" "length (m_rest v) < length (m_rest s)" by (simp_all add: True WEOF_def)
    moreover have "GetNextToken tk' v = (t, s')" if ok
      using "1.prems" v that by (subst (asm) GetNextToken.simps) (simp add: u True WEOF_def Let_def is_digit_def)
    moreover have "s' = v" if "\<not> ok"
      using "1.prems" v that by (subst (asm) GetNextToken.simps) (simp add: u True WEOF_def Let_def is_digit_def)
    moreover have "reads_on v s'" if "GetNextToken tk' v = (t, s')" ok
      using "1.IH" [OF refl u [symmetric] refl refl _ _ _ _ _ _ _ _ True v [symmetric] refl that(2,1)] True
      by (simp add: WEOF_def)
    ultimately show ?thesis by (cases ok) (auto simp: reads_on_def)
  next
    case False
    have "reads_on u (snd (GetNextToken tk s))"
      using False by (subst GetNextToken.simps) (simp add: u Let_def completed_on)
    moreover have "tk_kind t = TKN_EOF" if "ch = WEOF"
      using "1.prems" that by (subst (asm) GetNextToken.simps) (simp add: u Let_def, auto simp: ends)
    ultimately show ?thesis using on_ch [of s'] "1.prems" by auto
  qed
qed

end
