(* ===== verification/Json_Parser.thy ===== *)
theory Json_Parser
  imports Json_Lexer
begin

text \<open>
  The syntactic half of the SDK's JSON parser (\<open>_ParseValue\<close>, \<open>_ParseObject\<close>, \<open>_ParseArray\<close> and both
  \<open>value::parse\<close> of \<open>json_parsing.cpp\<close>) and its writer (\<open>json_serialization.cpp\<close> and \<open>format_impl\<close> of \<open>json.h\<close>), on
  wide strings.
\<close>

section \<open>Parsing\<close>

text \<open>
  The fields of an object are sorted with \<open>std::sort\<close>, which leaves the order of equal keys open: it is the
  parameter \<open>fsort\<close>. The flag \<open>g_keep_json_object_unsorted\<close> keeps its initial value.
\<close>

type_synonym field_sort = "(wstring \<times> json) list \<Rightarrow> (wstring \<times> json) list"

text \<open>The labels \<open>done\<close> and \<open>error\<close> of \<open>_ParseObject\<close>, and what follows a literal or the end of an array.\<close>

definition object_done :: "field_sort \<Rightarrow> (wstring \<times> json) list \<Rightarrow> token \<Rightarrow> parser \<Rightarrow> json \<times> token \<times> parser" where
  "object_done fsort elems tkn s =
     (let (tkn, s) = GetNextToken tkn s
      in if m_error tkn \<noteq> None then (JNull, tkn, s) else (JObject (fsort elems), tkn, s))"

definition object_error :: "token \<Rightarrow> parser \<Rightarrow> json \<times> token \<times> parser" where
  "object_error tkn s = (JNull, if m_error tkn = None then SetErrorCode tkn malformed_object_literal else tkn, s)"

definition value_done :: "json \<Rightarrow> token \<Rightarrow> parser \<Rightarrow> json \<times> token \<times> parser" where
  "value_done v tkn s =
     (let (tkn, s) = GetNextToken tkn s in (if m_error tkn \<noteq> None then JNull else v, tkn, s))"

definition literal_value :: "token \<Rightarrow> json option" where
  "literal_value tkn =
     (case tk_kind tkn of
        TKN_StringLiteral \<Rightarrow> Some (JString (string_val tkn))
      | TKN_IntegerLiteral \<Rightarrow> Some (JNumber (number_val tkn))
      | TKN_NumberLiteral \<Rightarrow> Some (JNumber (number_val tkn))
      | TKN_BooleanLiteral \<Rightarrow> Some (JBool (boolean_val tkn))
      | TKN_NullLiteral \<Rightarrow> Some JNull
      | _ \<Rightarrow> None)"

text \<open>
  The three functions call each other, so they are one function with a goal: a value, the loop over the fields
  of an object, or the loop over the elements of an array, with what the loop has collected.
\<close>

datatype goal = Value | Fields "(wstring \<times> json) list" | Elements "json list"

partial_function (option) parse_goal ::
  "field_sort \<Rightarrow> goal \<Rightarrow> token \<Rightarrow> parser \<Rightarrow> (json \<times> token \<times> parser) option" where
  "parse_goal fsort g tkn s =
     (case g of
        Value \<Rightarrow>
          if tk_kind tkn = TKN_OpenBrace
          then (let (tkn, s) = GetNextToken tkn s
                in if m_error tkn \<noteq> None then Some (object_error tkn s)
                   else if tk_kind tkn \<noteq> TKN_CloseBrace then parse_goal fsort (Fields []) tkn s
                   else Some (object_done fsort [] tkn s))
          else if tk_kind tkn = TKN_OpenBracket
          then (let (tkn, s) = GetNextToken tkn s
                in if m_error tkn \<noteq> None then Some (JNull, tkn, s)
                   else if tk_kind tkn \<noteq> TKN_CloseBracket then parse_goal fsort (Elements []) tkn s
                   else Some (value_done (JArray []) tkn s))
          else (case literal_value tkn of
                  Some v \<Rightarrow> Some (value_done v tkn s)
                | None \<Rightarrow> Some (JNull, SetErrorCode tkn malformed_token, s))
      | Fields elems \<Rightarrow>
          if tk_kind tkn \<noteq> TKN_StringLiteral then Some (object_error tkn s)
          else
            let fieldName = string_val tkn; (tkn, s) = GetNextToken tkn s
            in if m_error tkn \<noteq> None then Some (object_error tkn s)
               else if tk_kind tkn \<noteq> TKN_Colon then Some (object_done fsort elems tkn s)
               else
                 let (tkn, s) = GetNextToken tkn s
                 in if m_error tkn \<noteq> None then Some (object_error tkn s)
                    else
                      Option.bind (parse_goal fsort Value tkn s) (\<lambda>(v, tkn, s).
                           let elems = elems @ [(fieldName, v)]
                           in if m_error tkn \<noteq> None then Some (object_error tkn s)
                              else if tk_kind tkn = TKN_Comma
                              then (let (tkn, s) = GetNextToken tkn s
                                    in if m_error tkn \<noteq> None then Some (object_error tkn s)
                                       else parse_goal fsort (Fields elems) tkn s)
                              else if tk_kind tkn = TKN_CloseBrace then Some (object_done fsort elems tkn s)
                              else Some (object_error tkn s))
      | Elements vs \<Rightarrow>
          Option.bind (parse_goal fsort Value tkn s) (\<lambda>(v, tkn, s).
               let vs = vs @ [v]
               in if m_error tkn \<noteq> None then Some (JNull, tkn, s)
                  else if tk_kind tkn = TKN_Comma
                  then (let (tkn, s) = GetNextToken tkn s
                        in if m_error tkn \<noteq> None then Some (JNull, tkn, s)
                           else parse_goal fsort (Elements vs) tkn s)
                  else if tk_kind tkn = TKN_CloseBracket then Some (value_done (JArray vs) tkn s)
                  else Some (JNull, SetErrorCode tkn malformed_array_literal, s)))"

definition ParseValue :: "field_sort \<Rightarrow> token \<Rightarrow> parser \<Rightarrow> (json \<times> token \<times> parser) option" where
  "ParseValue fsort = parse_goal fsort Value"

definition string_parser :: "wstring \<Rightarrow> parser" where
  "string_parser str = \<lparr>m_rest = str, m_currentLine = 1, m_currentColumn = 1, m_currentParsingDepth = 0\<rparr>"

definition new_token :: token where
  "new_token = \<lparr>tk_kind = TKN_EOF, string_val = [], start = (0, 0), number_val = Unsigned 0, boolean_val = False,
     m_error = None\<rparr>"

text \<open>
  \<open>value::parse\<close> that throws: the message of the exception holds the place of the last token and the error.
  \<open>None\<close>: it does not return.
\<close>

definition parse_json :: "field_sort \<Rightarrow> wstring \<Rightarrow> ((nat \<times> nat) \<times> json_error + json) option" where
  "parse_json fsort str =
     (let (tkn, s) = GetNextToken new_token (string_parser str)
      in case m_error tkn of
           Some e \<Rightarrow> Some (Inl (start tkn, e))
         | None \<Rightarrow>
             (case ParseValue fsort tkn s of
                None \<Rightarrow> None
              | Some (v, tkn, s) \<Rightarrow>
                  Some (case m_error tkn of
                          Some e \<Rightarrow> Inl (start tkn, e)
                        | None \<Rightarrow> if tk_kind tkn \<noteq> TKN_EOF then Inl (start tkn, left_over_character_in_stream)
                                  else Inr v)))"

text \<open>\<open>value::parse\<close> that reports an error code.\<close>

definition parse_json_code :: "field_sort \<Rightarrow> wstring \<Rightarrow> (json \<times> json_error option) option" where
  "parse_json_code fsort str =
     (let (tkn, s) = GetNextToken new_token (string_parser str)
      in if m_error tkn \<noteq> None then Some (JNull, m_error tkn)
         else
           (case ParseValue fsort tkn s of
              None \<Rightarrow> None
            | Some (returnObject, tkn, s) \<Rightarrow>
                Some (if tk_kind tkn \<noteq> TKN_EOF then (JNull, Some left_over_character_in_stream)
                      else (returnObject, m_error tkn))))"

section \<open>Writing\<close>

definition special_escapes :: "(wchar \<times> wchar) list" where
  "special_escapes = [(34, 34), (92, 92), (8, 98), (12, 102), (13, 114), (10, 110), (9, 116)]"

definition intToHex :: "wchar \<Rightarrow> wchar" where
  "intToHex d = wlit ''0123456789ABCDEF'' ! unat d"

definition escape_char :: "wchar \<Rightarrow> wstring" where
  "escape_char ch =
     (case map_of special_escapes ch of
        Some c \<Rightarrow> [92, c]
      | None \<Rightarrow> if ch \<le> 0x1F
                then [92] @ wlit ''u00'' @ [intToHex (drop_bit 4 (ch AND 0xF0)), intToHex (ch AND 0x0F)]
                else [ch])"

definition append_escape_string :: "wstring \<Rightarrow> wstring" where
  "append_escape_string escaped = concat (map escape_char escaped)"

definition has_escape_chars :: "wstring \<Rightarrow> bool" where
  "has_escape_chars str = list_ex (\<lambda>x. x \<le> 31 \<or> x = 34 \<or> x = 92) str"

definition format_string :: "wstring \<Rightarrow> wstring" where
  "format_string key = [34] @ append_escape_string key @ [34]"

text \<open>
  \<open>_String::format\<close>, whose flag is computed from the string. A \<open>double\<close> is written by \<open>printf\<close> with \<open>%.17g\<close>, which is
  the parameter \<open>fdouble\<close>.
\<close>

definition format_string_value :: "wstring \<Rightarrow> wstring" where
  "format_string_value str = [34] @ (if has_escape_chars str then append_escape_string str else str) @ [34]"

fun format_number :: "(rat \<Rightarrow> wstring) \<Rightarrow> number \<Rightarrow> wstring" where
  "format_number fdouble (Signed n) = print_int (sint n)"
| "format_number fdouble (Unsigned n) = to_wstring (unat n)"
| "format_number fdouble (Double d) = fdouble d"

fun separated :: "wstring list \<Rightarrow> wstring" where
  "separated [] = []"
| "separated [w] = w"
| "separated (w # v # ws) = w @ [44] @ separated (v # ws)"

fun serialize :: "(rat \<Rightarrow> wstring) \<Rightarrow> json \<Rightarrow> wstring" where
  "serialize fdouble JNull = wlit ''null''"
| "serialize fdouble (JNumber n) = format_number fdouble n"
| "serialize fdouble (JBool b) = (if b then wlit ''true'' else wlit ''false'')"
| "serialize fdouble (JString str) = format_string_value str"
| "serialize fdouble (JObject es) =
     [123] @ separated (map (\<lambda>(k, v). format_string k @ [58] @ serialize fdouble v) es) @ [125]"
| "serialize fdouble (JArray vs) = [91] @ separated (map (serialize fdouble) vs) @ [93]"

section \<open>Parsing ends, with sorted objects\<close>

locale field_sorter =
  fixes fsort :: field_sort
  assumes permuted: "mset (fsort es) = mset es" and ordered: "sorted (map fst (fsort es))"
begin

lemma set_sorted [simp]: "set (fsort es) = set es"
  by (metis permuted set_mset_mset)

text \<open>Sorted fields with distinct keys stay as they are.\<close>

lemma sorted_stays:
  assumes "sorted (map fst es)" and "distinct (map fst es)"
  shows "fsort es = es"
proof (rule map_sorted_distinct_set_unique)
  show "inj_on fst (set (fsort es) \<union> set es)" using assms(2) by (simp add: distinct_map)
  have "mset (map fst (fsort es)) = mset (map fst es)" by (simp add: permuted)
  then show "distinct (map fst (fsort es))" using assms(2) by (metis mset_eq_imp_distinct_iff)
qed (use assms ordered in simp_all)

end

definition ref_sort :: field_sort where "ref_sort = sort_key fst"

interpretation ref_fields: field_sorter ref_sort
  by unfold_locales (simp_all add: ref_sort_def)

text \<open>The text that is left, with the current token; a token that is not the end counts.\<close>

definition left_to_read :: "token \<Rightarrow> parser \<Rightarrow> nat" where
  "left_to_read t s = 2 * length (m_rest s) + (if tk_kind t = TKN_EOF then 0 else 1)"

lemma next_less:
  assumes "GetNextToken t s = (t', s')" and "tk_kind t \<noteq> TKN_EOF"
  shows "left_to_read t' s' < left_to_read t s"
  using next_token_reads [OF assms(1)] assms(2) by (auto simp: left_to_read_def reads_on_def)

text \<open>A result of the parser: a value with sorted objects, behind the token unless there was an error.\<close>

definition settles :: "token \<Rightarrow> parser \<Rightarrow> (json \<times> token \<times> parser) option \<Rightarrow> bool" where
  "settles t s r \<longleftrightarrow> (\<exists>v t' s'. r = Some (v, t', s') \<and> sorted_json v
     \<and> (m_error t' = None \<longrightarrow> tk_kind t \<noteq> TKN_EOF \<and> left_to_read t' s' < left_to_read t s))"

definition sorted_goal :: "goal \<Rightarrow> bool" where
  "sorted_goal g = (case g of Value \<Rightarrow> True | Fields es \<Rightarrow> \<forall>(k, v) \<in> set es. sorted_json v
     | Elements vs \<Rightarrow> \<forall>v \<in> set vs. sorted_json v)"

lemma settles_errors:
  "settles t s (Some (object_error t' s'))" "m_error t' \<noteq> None \<Longrightarrow> settles t s (Some (JNull, t', s'))"
  "settles t s (Some (JNull, SetErrorCode t' e, s'))"
  by (auto simp: settles_def object_error_def SetErrorCode_def)

lemma settles_trans:
  "settles t' s' r \<Longrightarrow> tk_kind t \<noteq> TKN_EOF \<Longrightarrow> left_to_read t' s' \<le> left_to_read t s \<Longrightarrow> settles t s r"
  by (auto simp: settles_def)

lemma settles_value:
  assumes "tk_kind t \<noteq> TKN_EOF" and "sorted_json v"
  shows "settles t s (Some (value_done v t s))"
proof -
  obtain t' s' where n: "GetNextToken t s = (t', s')" by force
  with assms next_less [OF n] show ?thesis by (auto simp: settles_def value_done_def)
qed

lemma next_le: "GetNextToken t s = (t', s') \<Longrightarrow> left_to_read t' s' \<le> left_to_read t s"
  using next_token_reads [of t s t' s'] by (auto simp: left_to_read_def reads_on_def)

lemma settles_later:
  assumes "tk_kind t \<noteq> TKN_EOF" and "left_to_read t' s' < left_to_read t s"
  shows "sorted_json v \<Longrightarrow> settles t s (Some (value_done v t' s'))"
    and "field_sorter fsort \<Longrightarrow> \<forall>(k, v) \<in> set es. sorted_json v \<Longrightarrow> settles t s (Some (object_done fsort es t' s'))"
proof -
  obtain t1 s1 where n: "GetNextToken t' s' = (t1, s1)" by force
  note less = le_less_trans [OF next_le [OF n] assms(2)]
  show "sorted_json v \<Longrightarrow> settles t s (Some (value_done v t' s'))"
    using assms(1) less by (auto simp: settles_def value_done_def n)
  assume "field_sorter fsort" and "\<forall>(k, v) \<in> set es. sorted_json v"
  moreover from this(1) have "sorted (map fst (fsort es))" "set (fsort es) = set es"
    by (simp_all add: field_sorter.ordered field_sorter.set_sorted)
  ultimately show "settles t s (Some (object_done fsort es t' s'))"
    using assms(1) less by (auto simp: settles_def object_done_def n)
qed

lemma parse_goal_settles:
  assumes "field_sorter fsort"
  shows "m_error t = None \<Longrightarrow> sorted_goal g \<Longrightarrow> settles t s (parse_goal fsort g t s)"
proof (induction "2 * left_to_read t s + (if g = Value then 0 else 1)" arbitrary: g t s rule: less_induct)
  case less
  note vdone = settles_value and later = settles_later(1) settles_later(2) [OF _ _ assms]
  have IH: "settles t' s' (parse_goal fsort g' t' s')"
    if "left_to_read t' s' < left_to_read t s" "m_error t' = None" "sorted_goal g'" for g' t' s'
    using that by (intro less.hyps) auto
  show ?case
  proof (cases g)
    case Value
    obtain t1 s1 where n: "GetNextToken t s = (t1, s1)" by force
    note less1 = next_less [OF n]
    show ?thesis
    proof (cases "tk_kind t = TKN_OpenBrace \<or> tk_kind t = TKN_OpenBracket")
      case False
      then show ?thesis
        unfolding Value using vdone [of t _ s]
        by (subst parse_goal.simps)
          (auto simp: literal_value_def settles_errors split: option.split kind.split)
    next
      case True
      then have k: "tk_kind t \<noteq> TKN_EOF" by auto
      note less = less1 [OF k]
      show ?thesis
      proof (cases "m_error t1 = None")
        case False
        with True n show ?thesis
          unfolding Value by (subst parse_goal.simps) (auto simp: settles_errors)
      next
        case ok: True
        have "settles t s (parse_goal fsort g' t1 s1)" if "g' = Fields [] \<or> g' = Elements []" for g'
          using that IH [OF less ok, of g'] k less
          by (intro settles_trans [of t1 s1 _ t s]) (auto simp: sorted_goal_def)
        moreover have "settles t s (Some (object_done fsort [] t1 s1))" "settles t s (Some (value_done (JArray []) t1 s1))"
          using later [OF k less] by simp_all
        ultimately show ?thesis
          using True n ok unfolding Value by (subst parse_goal.simps) auto
      qed
    qed
  next
    case (Fields es)
    obtain t1 s1 where n1: "GetNextToken t s = (t1, s1)" by force
    obtain t2 s2 where n2: "GetNextToken t1 s1 = (t2, s2)" by force
    show ?thesis
    proof (cases "tk_kind t = TKN_StringLiteral \<and> m_error t1 = None \<and> tk_kind t1 = TKN_Colon \<and> m_error t2 = None")
      case True
      then have k: "tk_kind t \<noteq> TKN_EOF" "tk_kind t1 \<noteq> TKN_EOF" by auto
      have less2: "left_to_read t2 s2 < left_to_read t s"
        using next_less [OF n1 k(1)] next_less [OF n2 k(2)] by simp
      with True IH have "settles t2 s2 (parse_goal fsort Value t2 s2)" by (simp add: sorted_goal_def)
      then obtain v t3 s3 where v: "parse_goal fsort Value t2 s2 = Some (v, t3, s3)" "sorted_json v"
        and less3: "m_error t3 = None \<Longrightarrow> left_to_read t3 s3 < left_to_read t2 s2"
        by (auto simp: settles_def)
      obtain t4 s4 where n4: "GetNextToken t3 s3 = (t4, s4)" by force
      have es: "\<forall>(k, v) \<in> set (es @ [(string_val t, v)]). sorted_json v"
        using less.prems(2) v(2) by (auto simp: Fields sorted_goal_def)
      have "settles t s (Some (object_done fsort (es @ [(string_val t, v)]) t3 s3))" if "m_error t3 = None"
        using less3 [OF that] less2 by (intro later(2) [OF k(1) _ es]) simp
      moreover have "settles t s (parse_goal fsort (Fields (es @ [(string_val t, v)])) t4 s4)"
        if "m_error t3 = None" "m_error t4 = None"
      proof -
        have "left_to_read t4 s4 < left_to_read t s" using next_le [OF n4] less3 [OF that(1)] less2 by simp
        with that es k(1) IH show ?thesis by (intro settles_trans [of t4 s4 _ t s]) (auto simp: sorted_goal_def)
      qed
      ultimately show ?thesis
        using True v(1) n4 unfolding Fields by (subst parse_goal.simps) (auto simp: n1 n2 settles_errors Let_def)
    next
      case False
      have "settles t s (Some (object_done fsort es t1 s1))" if "tk_kind t = TKN_StringLiteral"
        using that less.prems(2) next_less [OF n1] by (intro later(2)) (auto simp: Fields sorted_goal_def)
      with False show ?thesis unfolding Fields
        by (subst parse_goal.simps) (auto simp: n1 n2 settles_errors)
    qed
  next
    case (Elements vs)
    have "settles t s (parse_goal fsort Value t s)"
      using less.prems Elements by (intro less.hyps) (auto simp: sorted_goal_def)
    then obtain v t3 s3 where v: "parse_goal fsort Value t s = Some (v, t3, s3)" "sorted_json v"
      and less3: "m_error t3 = None \<Longrightarrow> tk_kind t \<noteq> TKN_EOF \<and> left_to_read t3 s3 < left_to_read t s"
      by (auto simp: settles_def)
    obtain t4 s4 where n4: "GetNextToken t3 s3 = (t4, s4)" by force
    have vs: "\<forall>v \<in> set (vs @ [v]). sorted_json v" using less.prems(2) v(2) by (auto simp: Elements sorted_goal_def)
    have "settles t s (Some (value_done (JArray (vs @ [v])) t3 s3))" if "m_error t3 = None"
      using less3 [OF that] vs by (intro later(1)) auto
    moreover have "settles t s (parse_goal fsort (Elements (vs @ [v])) t4 s4)"
      if "m_error t3 = None" "m_error t4 = None"
    proof -
      have "left_to_read t4 s4 < left_to_read t s" using next_le [OF n4] less3 [OF that(1)] by simp
      with that vs less3 IH show ?thesis by (intro settles_trans [of t4 s4 _ t s]) (auto simp: sorted_goal_def)
    qed
    ultimately show ?thesis
      using v(1) n4 unfolding Elements by (subst parse_goal.simps) (auto simp: settles_errors Let_def)
  qed
qed

lemma parse_json_some:
  assumes "field_sorter fsort"
  shows "\<exists>r. parse_json fsort str = Some r \<and> (\<forall>v. r = Inr v \<longrightarrow> sorted_json v)"
proof -
  obtain t s where n: "GetNextToken new_token (string_parser str) = (t, s)" by force
  have "settles t s (ParseValue fsort t s)" if "m_error t = None"
    unfolding ParseValue_def using parse_goal_settles [OF assms that, of Value s] by (simp add: sorted_goal_def)
  then show ?thesis by (cases "m_error t") (auto simp: parse_json_def n settles_def split: option.splits)
qed

text \<open>C35: Parsing ends. Every text is either parsed or refused with an error, and the objects of a parsed value have
  their fields sorted, so that the binary search of the subscript finds them.\<close>
theorem parse_json_returns:
  assumes "field_sorter fsort"
  shows "\<exists>r. parse_json fsort str = Some r \<and> (\<forall>v. r = Inr v \<longrightarrow> sorted_json v)"
  by (rule parse_json_some [OF assms])

theorem parse_json_returns_witness: "\<exists>r. parse_json ref_sort (wlit ''[1, 2'') = Some r"
  using parse_json_returns [OF ref_fields.field_sorter_axioms] by blast

text \<open>The two ways to parse. The function that throws and the one that reports an error code accept the same texts,
  with the same values.\<close>
theorem parse_variants_agree: "parse_json fsort str = Some (Inr v) \<longleftrightarrow> parse_json_code fsort str = Some (v, None)"
  by (auto simp: parse_json_def parse_json_code_def split: prod.splits option.splits if_splits)

end
