(* ===== verification/Json_Roundtrip.thy ===== *)
theory Json_Roundtrip
  imports Json_Parser
begin

text \<open>
  What the parser of JSON reads of the texts the writer writes: the tokens, one kind after the other, then the loops over
  the elements of arrays and the fields of objects. At the end, what the parser accepts and refuses at its limits.
\<close>

section \<open>What a written text is read as\<close>

text \<open>The state behind some characters, wherever line and column are.\<close>

definition at_text :: "parser \<Rightarrow> wstring \<Rightarrow> int \<Rightarrow> bool" where
  "at_text s w d \<longleftrightarrow> m_rest s = w \<and> m_currentParsingDepth s = d"

lemma at_next: "at_text s (c # w) d \<Longrightarrow> \<exists>s'. NextCharacter s = (c, s') \<and> at_text s' w d"
  by (auto simp: at_text_def NextCharacter_def)

lemma at_peek [simp]: "at_text s (c # w) d \<Longrightarrow> PeekCharacter s = c" "at_text s [] d \<Longrightarrow> PeekCharacter s = WEOF"
  by (simp_all add: at_text_def PeekCharacter_def)

text \<open>A token without error, and the state behind it.\<close>

definition lexed :: "token \<times> parser \<Rightarrow> kind \<Rightarrow> wstring \<Rightarrow> int \<Rightarrow> bool" where
  "lexed r k w d \<longleftrightarrow> tk_kind (fst r) = k \<and> m_error (fst r) = None \<and> at_text (snd r) w d"

lemma eat_char: "at_text s (c # w) d \<Longrightarrow> \<not> iswspace c \<Longrightarrow> \<exists>u. EatWhitespace s = (c, u) \<and> at_text u w d"
  by (subst EatWhitespace.simps) (auto dest!: at_next)

lemma eat_end: "at_text s [] d \<Longrightarrow> EatWhitespace s = (WEOF, s)"
  by (subst EatWhitespace.simps) (simp add: at_text_def)

lemma lex_end: "at_text s [] d \<Longrightarrow> m_error t = None \<Longrightarrow> lexed (GetNextToken t s) TKN_EOF [] d"
  by (subst GetNextToken.simps) (simp add: eat_end lexed_def CreateToken_def at_text_def)

lemma lex_char:
  assumes "at_text s (c # w) d" and "\<not> iswspace c" and "c \<noteq> WEOF" and "m_error t = None"
  obtains u where "at_text u w d" and "EatWhitespace s = (c, u)"
    and "m_error (CreateToken t TKN_EOF (m_currentLine u, m_currentColumn u)) = None"
  using eat_char [OF assms(1,2)] assms(4) by (auto simp: CreateToken_def)

lemma lex_chars:
  assumes "m_error t = None"
  shows "at_text s (44 # w) d \<Longrightarrow> lexed (GetNextToken t s) TKN_Comma w d"
    and "at_text s (58 # w) d \<Longrightarrow> lexed (GetNextToken t s) TKN_Colon w d"
    and "at_text s (123 # w) d \<Longrightarrow> d < 128 \<Longrightarrow> lexed (GetNextToken t s) TKN_OpenBrace w (d + 1)"
    and "at_text s (91 # w) d \<Longrightarrow> d < 128 \<Longrightarrow> lexed (GetNextToken t s) TKN_OpenBracket w (d + 1)"
    and "at_text s (125 # w) d \<Longrightarrow> 0 < d \<Longrightarrow> lexed (GetNextToken t s) TKN_CloseBrace w (d - 1)"
    and "at_text s (93 # w) d \<Longrightarrow> 0 < d \<Longrightarrow> lexed (GetNextToken t s) TKN_CloseBracket w (d - 1)"
proof -
  note defs = GetNextToken.simps [of t s] lexed_def CreateToken_def at_text_def WEOF_def maxParsingDepth_def Let_def iswspace_def
  show "lexed (GetNextToken t s) TKN_Comma w d" if "at_text s (44 # w) d"
    by (rule lex_char [OF that(1) _ _ assms]) (use that in \<open>auto simp: defs\<close>)
  show "lexed (GetNextToken t s) TKN_Colon w d" if "at_text s (58 # w) d"
    by (rule lex_char [OF that(1) _ _ assms]) (use that in \<open>auto simp: defs\<close>)
  show "lexed (GetNextToken t s) TKN_OpenBrace w (d + 1)" if "at_text s (123 # w) d" "d < 128"
    by (rule lex_char [OF that(1) _ _ assms]) (use that in \<open>auto simp: defs\<close>)
  show "lexed (GetNextToken t s) TKN_OpenBracket w (d + 1)" if "at_text s (91 # w) d" "d < 128"
    by (rule lex_char [OF that(1) _ _ assms]) (use that in \<open>auto simp: defs\<close>)
  show "lexed (GetNextToken t s) TKN_CloseBrace w (d - 1)" if "at_text s (125 # w) d" "0 < d"
    by (rule lex_char [OF that(1) _ _ assms]) (use that in \<open>auto simp: defs\<close>)
  show "lexed (GetNextToken t s) TKN_CloseBracket w (d - 1)" if "at_text s (93 # w) d" "0 < d"
    by (rule lex_char [OF that(1) _ _ assms]) (use that in \<open>auto simp: defs\<close>)
qed

lemma keyword_read:
  "at_text s (k @ w) d \<Longrightarrow> \<exists>s'. complete_keyword k s = (True, s') \<and> at_text s' w d"
  by (induction k arbitrary: s) (auto dest!: at_next)

lemma lex_keywords:
  assumes "m_error t = None"
  shows "at_text s (wlit ''null'' @ w) d \<Longrightarrow> lexed (GetNextToken t s) TKN_NullLiteral w d"
    and "at_text s (wlit ''true'' @ w) d \<Longrightarrow> lexed (GetNextToken t s) TKN_BooleanLiteral w d
       \<and> boolean_val (fst (GetNextToken t s))"
    and "at_text s (wlit ''false'' @ w) d \<Longrightarrow> lexed (GetNextToken t s) TKN_BooleanLiteral w d
       \<and> \<not> boolean_val (fst (GetNextToken t s))"
proof -
  note defs = GetNextToken.simps [of t s] lexed_def WEOF_def Let_def iswspace_def completed_def
    CompleteKeywordTrue_def CompleteKeywordFalse_def CompleteKeywordNull_def
  show "lexed (GetNextToken t s) TKN_NullLiteral w d" if "at_text s (wlit ''null'' @ w) d"
  proof -
    have "at_text s (110 # wlit ''ull'' @ w) d" using that by (simp add: wstr_simps)
    then show ?thesis
      by (rule lex_char [OF _ _ _ assms]) (auto simp: defs dest!: keyword_read)
  qed
  show "lexed (GetNextToken t s) TKN_BooleanLiteral w d \<and> boolean_val (fst (GetNextToken t s))"
    if "at_text s (wlit ''true'' @ w) d"
  proof -
    have "at_text s (116 # wlit ''rue'' @ w) d" using that by (simp add: wstr_simps)
    then show ?thesis
      by (rule lex_char [OF _ _ _ assms]) (auto simp: defs dest!: keyword_read)
  qed
  show "lexed (GetNextToken t s) TKN_BooleanLiteral w d \<and> \<not> boolean_val (fst (GetNextToken t s))"
    if "at_text s (wlit ''false'' @ w) d"
  proof -
    have "at_text s (102 # wlit ''alse'' @ w) d" using that by (simp add: wstr_simps)
    then show ?thesis
      by (rule lex_char [OF _ _ _ assms]) (auto simp: defs dest!: keyword_read)
  qed
qed

subsection \<open>Strings\<close>

lemma special_read:
  assumes "map_of special_escapes c = Some e"
  shows "map_of simple_escapes e = Some c" "c \<noteq> WEOF"
  using assms by (auto simp: special_escapes_def simple_escapes_def WEOF_def split: if_splits)

lemma small_word: "unat d < n \<Longrightarrow> d \<in> set (map of_nat [0..<n])"
  unfolding set_map by (rule image_eqI [of _ _ "unat d"]) simp_all

lemma hex_read:
  assumes "d < 16"
  shows "isxdigit (intToHex d) \<and> \<not> intToHex d > 127 \<and> of_int (hexval ! unat (intToHex d)) = d"
proof -
  have "d \<in> set (map of_nat [0..<16])" using assms by (intro small_word) (simp add: word_less_nat_alt)
  moreover have "\<forall>d \<in> set (map of_nat [0..<16]). isxdigit (intToHex d) \<and> \<not> intToHex d > 127
      \<and> of_int (hexval ! unat (intToHex d)) = d"
    by (simp add: upt_rec intToHex_def isxdigit_def is_digit_def hexval_def wstr_simps nth_append)
  ultimately show ?thesis by blast
qed

lemma nibbles:
  assumes "(c :: wchar) \<le> 0x1F"
  shows "drop_bit 4 (c AND 0xF0) < 16 \<and> c AND 0x0F < 16
    \<and> push_bit 4 (drop_bit 4 (c AND 0xF0)) OR (c AND 0x0F) = c"
proof -
  have "c \<in> set (map of_nat [0..<32])" using assms by (intro small_word) (simp add: word_le_nat_alt)
  moreover have "\<forall>c \<in> set (map of_nat [0..<32]). drop_bit 4 (c AND 0xF0) < (16 :: wchar) \<and> c AND 0x0F < 16
    \<and> push_bit 4 (drop_bit 4 (c AND 0xF0)) OR (c AND 0x0F) = c"
    by (simp add: upt_rec)
  ultimately show ?thesis by blast
qed

text \<open>An escaped character, behind its backslash.\<close>

lemma unescape_read:
  assumes "escape_char c = 92 # e" and "at_text s (e @ w) d"
  shows "\<exists>s'. handle_unescape_char s = (Some c, s') \<and> at_text s' w d"
proof (cases "map_of special_escapes c")
  case (Some k)
  with assms obtain s' where "NextCharacter s = (k, s')" "at_text s' w d"
    using at_next [of s k w d] by (auto simp: escape_char_def)
  then show ?thesis using special_read [OF Some] by (simp add: handle_unescape_char_def)
next
  case None
  then have c: "c \<le> 0x1F" "e = wlit ''u00'' @ [intToHex (drop_bit 4 (c AND 0xF0)), intToHex (c AND 0x0F)]"
    using assms(1) by (auto simp: escape_char_def special_escapes_def split: if_splits)
  define h l where "h = drop_bit 4 (c AND 0xF0)" and "l = c AND 0x0F"
  have hl: "h < 16" "l < 16" "push_bit 4 h OR l = c" using nibbles [OF c(1)] by (simp_all only: h_def l_def)
  have "at_text s (117 # 48 # 48 # intToHex h # intToHex l # w) d"
    using assms(2) c(2) by (simp add: wstr_simps h_def l_def)
  then obtain s1 s2 s3 s4 s5 where n: "NextCharacter s = (117, s1)" "NextCharacter s1 = (48, s2)"
    "NextCharacter s2 = (48, s3)" "NextCharacter s3 = (intToHex h, s4)" "NextCharacter s4 = (intToHex l, s5)"
    and s5: "at_text s5 w d"
    by (blast dest: at_next)
  have zero: "isxdigit 48" "hexval ! unat (48 :: wchar) = 0" by (simp_all add: isxdigit_def is_digit_def hexval_def nth_append)
  have "decode_hex (Suc (Suc (Suc (Suc 0)))) 0 s1 = (Some (push_bit 4 h OR l), s5)"
    using hex_read [OF hl(1)] hex_read [OF hl(2)] by (simp only: decode_hex.simps n zero prod.case Let_def) simp
  then have "decode_hex 4 0 s1 = (Some c, s5)" using hl(3) by (simp only: numeral_eq_Suc) (simp add: numeral_eq_Suc)
  with n(1) s5 show ?thesis by (simp add: handle_unescape_char_def simple_escapes_def)
qed

lemma escaped_read:
  "WEOF \<notin> set str \<Longrightarrow> at_text s (append_escape_string str @ 34 # w) d \<Longrightarrow>
    \<exists>s'. string_loop out s = (True, out @ str, s') \<and> at_text s' w d"
proof (induction str arbitrary: s out)
  case Nil
  then show ?case by (subst string_loop.simps) (auto simp: append_escape_string_def dest!: at_next)
next
  case (Cons c str)
  let ?t = "append_escape_string str @ 34 # w"
  have tx: "at_text s (escape_char c @ ?t) d" using Cons.prems(2) by (simp add: append_escape_string_def)
  show ?case
  proof (cases "escape_char c = [c] \<and> c \<noteq> 92")
    case True
    then have "\<not> c \<le> 31" "c \<noteq> 34" "c \<noteq> 92" "c \<noteq> WEOF"
      using Cons.prems(1) by (auto simp: escape_char_def special_escapes_def split: if_splits option.splits)
    then have c: "\<not> c < 32" "c \<noteq> 34" "c \<noteq> 92" "c \<noteq> WEOF"
      by (simp_all add: word_less_nat_alt word_le_nat_alt)
    obtain s1 where s1: "NextCharacter s = (c, s1)" "at_text s1 ?t d" using True tx at_next [of s c ?t d] by auto
    with Cons.IH [OF _ s1(2), of "out @ [c]"] Cons.prems(1) c show ?thesis
      by (subst string_loop.simps) simp
  next
    case False
    then obtain e where e: "escape_char c = 92 # e"
      by (auto simp: escape_char_def split: option.splits if_splits)
    obtain s1 where s1: "NextCharacter s = (92, s1)" "at_text s1 (e @ ?t) d"
      using tx e at_next [of s 92 "e @ ?t" d] by auto
    obtain s2 where s2: "handle_unescape_char s1 = (Some c, s2)" "at_text s2 ?t d"
      using unescape_read [OF e s1(2)] by auto
    with Cons.IH [OF _ s2(2), of "out @ [c]"] Cons.prems(1) s1 show ?thesis
      by (subst string_loop.simps) (simp add: WEOF_def)
  qed
qed


text \<open>A string without characters to escape is written as it is, by either function.\<close>

lemma format_strings_agree: "format_string_value str = format_string str"
proof -
  have "append_escape_string str = str" if "\<not> has_escape_chars str"
  proof -
    have "escape_char c = [c]" if "c \<in> set str" for c
    proof -
      from that \<open>\<not> has_escape_chars str\<close> have "\<not> c \<le> 31" "c \<noteq> 34" "c \<noteq> 92"
        by (auto simp: has_escape_chars_def list_ex_iff)
      then show ?thesis by (auto simp: escape_char_def special_escapes_def)
    qed
    then have "map escape_char str = map (\<lambda>c. [c]) str" by (intro map_cong) simp_all
    then show ?thesis by (simp only: append_escape_string_def concat_map_singleton) simp
  qed
  then show ?thesis by (simp add: format_string_value_def format_string_def)
qed

lemma lex_string:
  assumes "at_text s (format_string str @ w) d" and "WEOF \<notin> set str" and "m_error t = None"
  shows "lexed (GetNextToken t s) TKN_StringLiteral w d \<and> string_val (fst (GetNextToken t s)) = str"
proof -
  have "at_text s (34 # append_escape_string str @ 34 # w) d" using assms(1) by (simp add: format_string_def)
  then show ?thesis
  proof (rule lex_char [OF _ _ _ assms(3)])
    fix u
    assume u: "at_text u (append_escape_string str @ 34 # w) d" "EatWhitespace s = (34, u)"
      "m_error (CreateToken t TKN_EOF (m_currentLine u, m_currentColumn u)) = None"
    obtain s' where "string_loop [] u = (True, str, s')" "at_text s' w d"
      using escaped_read [OF assms(2) u(1), of "[]"] by auto
    with u show ?thesis
      by (simp add: GetNextToken.simps [of t s] lexed_def WEOF_def Let_def completed_def CompleteStringLiteral_def CreateToken_def is_digit_def)
  qed (simp_all add: iswspace_def WEOF_def)
qed

subsection \<open>Numbers\<close>

definition stops :: "wstring \<Rightarrow> bool" where
  "stops w \<longleftrightarrow> w = [] \<or> hd w \<in> {44, 93, 125}"

lemma stops_peek:
  assumes "at_text s w d" and "stops w"
  shows "\<not> is_digit (PeekCharacter s)" "PeekCharacter s \<notin> {46, 48, 69, 101}"
  using assms by (cases w; auto simp: stops_def is_digit_def WEOF_def)+

lemma digit_char:
  assumes "d < 10"
  shows "is_digit (48 + of_nat d)" "ucast ((48 + of_nat d :: wchar) - 48) = (of_nat d :: 64 word)" "(48 + of_nat d :: wchar) = 48 \<longleftrightarrow> d = 0"
proof -
  have "d \<in> set [0..<10]" using assms by simp
  moreover have "\<forall>d \<in> set [0..<10]. is_digit (48 + of_nat d) \<and> ucast ((48 + of_nat d :: wchar) - 48) = (of_nat d :: 64 word)
      \<and> ((48 + of_nat d :: wchar) = 48 \<longleftrightarrow> d = 0)"
    by (simp add: upt_rec is_digit_def)
  ultimately show "is_digit (48 + of_nat d)" "ucast ((48 + of_nat d :: wchar) - 48) = (of_nat d :: 64 word)"
    "(48 + of_nat d :: wchar) = 48 \<longleftrightarrow> d = 0" by blast+
qed

lemma foldl_grows: "a \<le> foldl (\<lambda>a d. 10 * a + d) (a :: nat) ds"
proof (induction ds arbitrary: a)
  case (Cons d ds)
  have "a \<le> 10 * a + d" by simp
  also have "\<dots> \<le> foldl (\<lambda>a d. 10 * a + d) (10 * a + d) ds" by (rule Cons.IH)
  finally show ?case by simp
qed simp

lemma no_overflow:
  assumes "10 * unat (v :: 64 word) + d < 2 ^ 64" and "d < 10"
  shows "\<not> (v > - 1 div 10 \<or> v = - 1 div 10 \<and> of_nat d > (- 1 mod 10 :: 64 word))"
    and "unat (v * 10 + of_nat d) = 10 * unat v + d"
proof -
  have "unat (of_nat d :: 64 word) = d" using assms(2) by (simp add: unat_of_nat)
  then show "\<not> (v > - 1 div 10 \<or> v = - 1 div 10 \<and> of_nat d > (- 1 mod 10 :: 64 word))"
    using assms by (auto simp: word_less_nat_alt unat_div unat_mod)
  have "v * 10 + of_nat d = of_nat (10 * unat v + d)" by simp
  then show "unat (v * 10 + of_nat d) = 10 * unat v + d" using assms(1) by (simp only: unat_of_nat) simp
qed

lemma digits_read:
  "\<forall>d \<in> set ds. d < 10 \<Longrightarrow> foldl (\<lambda>a d. 10 * a + d) (unat v) ds < 2 ^ 64 \<Longrightarrow> stops w \<Longrightarrow>
    at_text s (map (\<lambda>d. 48 + of_nat d) ds @ w) n \<Longrightarrow>
    \<exists>s'. parse_digits v s = (True, of_nat (foldl (\<lambda>a d. 10 * a + d) (unat v) ds), s') \<and> at_text s' w n"
proof (induction ds arbitrary: v s)
  case Nil
  then show ?case using stops_peek [of s w n] by (subst parse_digits.simps) (simp add: Let_def)
next
  case (Cons d ds)
  then have d: "d < 10" by simp
  have "10 * unat v + d < 2 ^ 64" using Cons.prems(2) foldl_grows [of "10 * unat v + d" ds] by simp
  note ov = no_overflow [OF this d]
  obtain s' where s': "NextCharacter s = (48 + of_nat d, s')" "at_text s' (map (\<lambda>d. 48 + of_nat d) ds @ w) n"
    using at_next [of s "48 + of_nat d"] Cons.prems(4) by auto
  have "PeekCharacter s = 48 + of_nat d" using Cons.prems(4) by simp
  moreover have "\<exists>s''. parse_digits (v * 10 + of_nat d) s' = (True, of_nat (foldl (\<lambda>a d. 10 * a + d) (10 * unat v + d) ds), s'')
      \<and> at_text s'' w n"
    using Cons.IH [of "v * 10 + of_nat d" s'] Cons.prems(1,2,3) s'(2) ov(2) by simp
  ultimately show ?case
    using ov(1) digit_char(1,2) [OF d] s'(1) by (subst parse_digits.simps) (simp add: Let_def)
qed


text \<open>The digits of a number below two to the 64, read by the function that completes a number.\<close>

lemma dec_digits_Cons: "\<exists>d ds. dec_digits n = d # ds \<and> d < 10 \<and> (d = 0 \<longrightarrow> n = 0 \<and> ds = [])"
proof (induction n rule: dec_digits.induct)
  case (1 n)
  then show ?case by (subst dec_digits.simps, cases "n < 10") auto
qed

lemma integer_read:
  assumes "n < 2 ^ 64" and "stops w" and "at_text s (to_wstring n @ w) d"
  obtains f u s' where "NextCharacter s = (f, u)" and "is_digit f" and "\<not> (f = 48 \<and> PeekCharacter u = 48)" "f \<noteq> 45"
    and "ParseInt64 f u = (True, of_nat n, s')" and "at_text s' w d"
proof -
  obtain c cs where n: "dec_digits n = c # cs" "c < 10" "c = 0 \<longrightarrow> n = 0 \<and> cs = []" using dec_digits_Cons by blast
  obtain u where u: "NextCharacter s = (48 + of_nat c, u)" "at_text u (map (\<lambda>d. 48 + of_nat d) cs @ w) d"
    using at_next [of s "48 + of_nat c"] assms(3) n(1) by (auto simp: to_wstring_def)
  have c: "unat (of_nat c :: 64 word) = c" using n(2) by (simp add: unat_of_nat)
  have fold: "foldl (\<lambda>a d. 10 * a + d) c cs = n" using foldl_dec_digits [of n] n(1) by simp
  have "\<exists>s'. parse_digits (of_nat c) u = (True, of_nat (foldl (\<lambda>a d. 10 * a + d) (unat (of_nat c :: 64 word)) cs), s') \<and> at_text s' w d"
    using dec_digits_less [of _ n] n(1) c fold assms(1,2) u(2) by (intro digits_read) auto
  then obtain s' where "parse_digits (of_nat c) u = (True, of_nat n, s')" "at_text s' w d" by (auto simp only: c fold)
  moreover have "\<not> (48 + of_nat c = (48 :: wchar) \<and> PeekCharacter u = 48)"
    using n(3) stops_peek(2) [OF _ assms(2), of u d] u(2) digit_char(3) [OF n(2)] by auto
  moreover have "48 + of_nat c \<noteq> (45 :: wchar)" using digit_char_not_minus [OF n(2)] .
  ultimately show ?thesis
    using that [OF u(1)] digit_char(1,2) [OF n(2)] by (simp add: ParseInt64_def)
qed

lemma digit_kinds: "is_digit c \<Longrightarrow> \<not> iswspace c \<and> c \<notin> {44, 47, 58, 34, 91, 93, 102, 110, 116, 123, 125} \<and> c \<noteq> WEOF"
  by (auto simp: is_digit_def iswspace_def WEOF_def word_less_nat_alt word_le_nat_alt)

lemma eat_next: "NextCharacter s = (c, u) \<Longrightarrow> \<not> iswspace c \<Longrightarrow> EatWhitespace s = (c, u)"
  by (subst EatWhitespace.simps) simp

lemma lex_unsigned:
  assumes "at_text s (to_wstring (unat n) @ w) d" and "stops w" and "m_error t = None"
  shows "lexed (GetNextToken t s) TKN_IntegerLiteral w d \<and> number_val (fst (GetNextToken t s)) = Unsigned n"
proof -
  have "unat n < 2 ^ LENGTH(64)" by (rule unsigned_less)
  then have "unat n < 2 ^ 64" by simp
  from integer_read [OF this assms(2,1)] obtain f u s' where
    f: "NextCharacter s = (f, u)" "is_digit f" "\<not> (f = 48 \<and> PeekCharacter u = 48)" "f \<noteq> 45"
    and s': "ParseInt64 f u = (True, n, s')" "at_text s' w d"
    by (auto simp: of_nat_unat)
  have eat: "EatWhitespace s = (f, u)" using eat_next [OF f(1)] digit_kinds [OF f(2)] by simp
  have c: "CompleteNumberLiteral f tk u = (True, tk\<lparr>number_val := Unsigned n, tk_kind := TKN_IntegerLiteral\<rparr>, s')" for tk
    using f s' stops_peek(2) [OF s'(2) assms(2)] by (auto simp: CompleteNumberLiteral_def Let_def)
  show ?thesis
    using digit_kinds [OF f(2)] f(2,4) s'(2) assms(3)
    by (simp add: GetNextToken.simps [of t s] eat lexed_def Let_def completed_def c CreateToken_def)
qed

lemma lex_negative:
  assumes "at_text s (print_int (sint n) @ w) d" and "stops w" and "m_error t = None" and "n <s 0"
  shows "lexed (GetNextToken t s) TKN_IntegerLiteral w d \<and> number_val (fst (GetNextToken t s)) = Signed n"
proof -
  have neg: "sint n < 0" using assms(4) by (simp add: word_sless_alt)
  define m where "m = nat (- sint n)"
  have m: "m \<le> 2 ^ 63" using sint_ge [of n] by (simp add: m_def)
  have n: "(of_nat m :: 64 word) = - n" using neg by (simp add: m_def)
  have "at_text s (45 # to_wstring m @ w) d" using assms(1) neg by (simp add: print_int_def m_def)
  then obtain v where v: "NextCharacter s = (45, v)" "at_text v (to_wstring m @ w) d" by (blast dest: at_next)
  from integer_read [OF _ assms(2) v(2)] m obtain f u s' where
    f: "NextCharacter v = (f, u)" "is_digit f" "\<not> (f = 48 \<and> PeekCharacter u = 48)" "f \<noteq> 45"
    and s': "ParseInt64 f u = (True, - n, s')" "at_text s' w d"
    by (auto simp: n)
  have eat: "EatWhitespace s = (45, v)" using eat_next [OF v(1)] by (simp add: iswspace_def)
  have "unat (- n) = m" using m by (simp only: n [symmetric] unat_of_nat) simp
  then have small: "\<not> - n > push_bit 63 1" using m by (simp add: word_less_nat_alt)
  have c: "CompleteNumberLiteral 45 tk v = (True, tk\<lparr>number_val := Signed n, tk_kind := TKN_IntegerLiteral\<rparr>, s')" for tk
    using f s' small stops_peek(2) [OF s'(2) assms(2)] assms(4)
    by (auto simp: CompleteNumberLiteral_def Let_def number_of_int64_def)
  show ?thesis
    using s'(2) assms(3)
    by (simp add: GetNextToken.simps [of t s] eat lexed_def Let_def completed_def c CreateToken_def WEOF_def)
qed


section \<open>Reading back what was written\<close>

text \<open>
  The values that are read back: integers as the constructors make them, fields with distinct keys in order, and no
  character that is taken for the end.
\<close>

fun writable :: "json \<Rightarrow> bool" where
  "writable JNull \<longleftrightarrow> True"
| "writable (JNumber (Signed n)) \<longleftrightarrow> n <s 0"
| "writable (JNumber (Unsigned n)) \<longleftrightarrow> True"
| "writable (JNumber (Double d)) \<longleftrightarrow> False"
| "writable (JBool b) \<longleftrightarrow> True"
| "writable (JString str) \<longleftrightarrow> WEOF \<notin> set str"
| "writable (JObject es) \<longleftrightarrow> sorted (map fst es) \<and> distinct (map fst es)
     \<and> (\<forall>(k, v) \<in> set es. WEOF \<notin> set k \<and> writable v)"
| "writable (JArray vs) \<longleftrightarrow> (\<forall>v \<in> set vs. writable v)"

fun depth :: "json \<Rightarrow> nat" where
  "depth (JObject es) = Suc (foldr max (map (\<lambda>(k, v). depth v) es) 0)"
| "depth (JArray vs) = Suc (foldr max (map depth vs) 0)"
| "depth v = 0"

lemma foldr_max: "x \<in> set xs \<Longrightarrow> x \<le> foldr max xs (0 :: nat)"
  by (induction xs) auto

text \<open>
  A text is read as a value with at most \<open>n\<close> open brackets more: its first token is no closing bracket, and parsing from
  it ends with the token behind the text.
\<close>

definition reads_back :: "field_sort \<Rightarrow> wstring \<Rightarrow> json \<Rightarrow> nat \<Rightarrow> bool" where
  "reads_back fsort txt v n \<longleftrightarrow> (\<forall>s t0 w d. at_text s (txt @ w) d \<longrightarrow> stops w \<longrightarrow> m_error t0 = None \<longrightarrow> 0 \<le> d \<longrightarrow>
     d + int n \<le> 128 \<longrightarrow>
     (\<exists>t s1 t1 s2. GetNextToken t0 s = (t, s1) \<and> m_error t = None \<and> tk_kind t \<notin> {TKN_CloseBracket, TKN_CloseBrace}
        \<and> parse_goal fsort Value t s1 = Some (value_done v t1 s2) \<and> m_error t1 = None \<and> at_text s2 w d))"

lemma reads_back_literal:
  assumes "\<And>s t0 w d. at_text s (txt @ w) d \<Longrightarrow> stops w \<Longrightarrow> m_error t0 = None \<Longrightarrow>
    \<exists>k. lexed (GetNextToken t0 s) k w d \<and> literal_value (fst (GetNextToken t0 s)) = Some v"
  shows "reads_back fsort txt v n"
  unfolding reads_back_def
proof (intro allI impI)
  fix s w d and t0 :: token
  assume "at_text s (txt @ w) d" "stops w" "m_error t0 = None"
  from assms [OF this] obtain k where k: "lexed (GetNextToken t0 s) k w d" "literal_value (fst (GetNextToken t0 s)) = Some v"
    by blast
  obtain t s1 where n: "GetNextToken t0 s = (t, s1)" by force
  have "tk_kind t \<notin> {TKN_CloseBracket, TKN_CloseBrace, TKN_OpenBrace, TKN_OpenBracket}"
    using k(2) n by (auto simp: literal_value_def)
  then have "parse_goal fsort Value t s1 = Some (value_done v t s1)"
    using k(2) n by (subst parse_goal.simps) simp
  with k(1) n \<open>tk_kind t \<notin> _\<close> show "\<exists>t s1 t1 s2. GetNextToken t0 s = (t, s1) \<and> m_error t = None
      \<and> tk_kind t \<notin> {TKN_CloseBracket, TKN_CloseBrace} \<and> parse_goal fsort Value t s1 = Some (value_done v t1 s2)
      \<and> m_error t1 = None \<and> at_text s2 w d"
    by (auto simp: lexed_def)
qed

lemma value_done_next: "GetNextToken t s = (t', s') \<Longrightarrow> m_error t' = None \<Longrightarrow> value_done v t s = (v, t', s')"
  by (simp add: value_done_def)

lemma object_done_value: "object_done fsort es t s = value_done (JObject (fsort es)) t s"
  by (simp add: object_done_def value_done_def split: prod.split)

text \<open>The token of one character, as the pair that the loops look at.\<close>

lemma lexed_pair: "lexed r k w d \<Longrightarrow> \<exists>t s. r = (t, s) \<and> m_error t = None \<and> tk_kind t = k \<and> at_text s w d"
  by (cases r) (simp add: lexed_def)

lemma elements_read:
  "vs \<noteq> [] \<Longrightarrow> \<forall>v \<in> set vs. reads_back fsort (f v) v n \<Longrightarrow> at_text s (separated (map f vs) @ 93 # w) d \<Longrightarrow>
    m_error t0 = None \<Longrightarrow> 1 \<le> d \<Longrightarrow> d + int n \<le> 128 \<Longrightarrow>
    \<exists>t s1 t1 s2. GetNextToken t0 s = (t, s1) \<and> m_error t = None \<and> tk_kind t \<noteq> TKN_CloseBracket
      \<and> parse_goal fsort (Elements acc) t s1 = Some (value_done (JArray (acc @ vs)) t1 s2) \<and> m_error t1 = None
      \<and> at_text s2 w (d - 1)"
proof (induction vs arbitrary: acc s t0 rule: list_nonempty_induct)
  case (single v)
  then have "at_text s (f v @ 93 # w) d" "stops (93 # w)" "reads_back fsort (f v) v n" by (simp_all add: stops_def)
  with single.prems obtain t s1 t1 s2 where r: "GetNextToken t0 s = (t, s1)" "m_error t = None" "tk_kind t \<noteq> TKN_CloseBracket"
    "parse_goal fsort Value t s1 = Some (value_done v t1 s2)" "m_error t1 = None" "at_text s2 (93 # w) d"
    unfolding reads_back_def by (smt (verit) insert_iff)
  obtain t2 s3 where c: "GetNextToken t1 s2 = (t2, s3)" "m_error t2 = None" "tk_kind t2 = TKN_CloseBracket" "at_text s3 w (d - 1)"
    using lexed_pair [OF lex_chars(6) [OF r(5,6)]] single.prems(4) by auto
  have "parse_goal fsort (Elements acc) t s1 = Some (value_done (JArray (acc @ [v])) t2 s3)"
    by (subst parse_goal.simps) (simp add: r(4) value_done_next [OF c(1,2)] c(2,3))
  with r c show ?case by blast
next
  case (cons v vs)
  let ?u = "separated (map f vs) @ 93 # w"
  have "at_text s (f v @ 44 # ?u) d" "stops (44 # ?u)" "reads_back fsort (f v) v n"
    using cons.prems cons.hyps by (cases vs; simp add: stops_def)+
  with cons.prems obtain t s1 t1 s2 where r: "GetNextToken t0 s = (t, s1)" "m_error t = None" "tk_kind t \<noteq> TKN_CloseBracket"
    "parse_goal fsort Value t s1 = Some (value_done v t1 s2)" "m_error t1 = None" "at_text s2 (44 # ?u) d"
    unfolding reads_back_def by (smt (verit) insert_iff)
  obtain t2 s3 where c: "GetNextToken t1 s2 = (t2, s3)" "m_error t2 = None" "tk_kind t2 = TKN_Comma" "at_text s3 ?u d"
    using lexed_pair [OF lex_chars(1) [OF r(5,6)]] by auto
  obtain t3 s4 t4 s5 where i: "GetNextToken t2 s3 = (t3, s4)" "m_error t3 = None"
    "parse_goal fsort (Elements (acc @ [v])) t3 s4 = Some (value_done (JArray ((acc @ [v]) @ vs)) t4 s5)"
    "m_error t4 = None" "at_text s5 w (d - 1)"
    using cons.IH [OF _ c(4,2), of "acc @ [v]"] cons.prems by auto
  have "parse_goal fsort (Elements acc) t s1 = Some (value_done (JArray (acc @ v # vs)) t4 s5)"
    using i(3) by (subst parse_goal.simps) (simp add: r(4) value_done_next [OF c(1,2)] c(2,3) i(1,2))
  with r i show ?case by blast
qed


lemma fields_read:
  "es \<noteq> [] \<Longrightarrow> \<forall>(k, v) \<in> set es. WEOF \<notin> set k \<and> reads_back fsort (f v) v n \<Longrightarrow>
    at_text s (separated (map (\<lambda>(k, v). format_string k @ [58] @ f v) es) @ 125 # w) d \<Longrightarrow>
    m_error t0 = None \<Longrightarrow> 1 \<le> d \<Longrightarrow> d + int n \<le> 128 \<Longrightarrow>
    \<exists>t s1 t1 s2. GetNextToken t0 s = (t, s1) \<and> m_error t = None \<and> tk_kind t \<noteq> TKN_CloseBrace
      \<and> parse_goal fsort (Fields acc) t s1 = Some (value_done (JObject (fsort (acc @ es))) t1 s2) \<and> m_error t1 = None
      \<and> at_text s2 w (d - 1)"
proof (induction es arbitrary: acc s t0 rule: list_nonempty_induct)
  case (single e)
  obtain k v where e: "e = (k, v)" by force
  from single.prems e have p: "at_text s (format_string k @ 58 # f v @ 125 # w) d" "stops (125 # w)" "reads_back fsort (f v) v n"
    "WEOF \<notin> set k" by (simp_all add: stops_def)
  obtain t s1 where r: "GetNextToken t0 s = (t, s1)" "m_error t = None" "tk_kind t = TKN_StringLiteral" "string_val t = k"
    "at_text s1 (58 # f v @ 125 # w) d"
    using lex_string [OF p(1,4) single.prems(3)] by (cases "GetNextToken t0 s") (auto simp: lexed_def)
  obtain t1 s2 where c: "GetNextToken t s1 = (t1, s2)" "m_error t1 = None" "tk_kind t1 = TKN_Colon" "at_text s2 (f v @ 125 # w) d"
    using lexed_pair [OF lex_chars(2) [OF r(2,5)]] by auto
  obtain t2 s3 t3 s4 where v: "GetNextToken t1 s2 = (t2, s3)" "m_error t2 = None"
    "parse_goal fsort Value t2 s3 = Some (value_done v t3 s4)" "m_error t3 = None" "at_text s4 (125 # w) d"
    using p(2,3) c(2,4) single.prems unfolding reads_back_def by (smt (verit))
  obtain t4 s5 where b: "GetNextToken t3 s4 = (t4, s5)" "m_error t4 = None" "tk_kind t4 = TKN_CloseBrace" "at_text s5 w (d - 1)"
    using lexed_pair [OF lex_chars(5) [OF v(4,5)]] single.prems(4) by auto
  have "parse_goal fsort (Fields acc) t s1 = Some (value_done (JObject (fsort (acc @ [e]))) t4 s5)"
    by (subst parse_goal.simps)
      (simp add: r(3,4) c(1,2,3) v(1,2,3) value_done_next [OF b(1,2)] b(2,3) object_done_value e Let_def)
  with r b show ?case by auto
next
  case (cons e es)
  let ?u = "separated (map (\<lambda>(k, v). format_string k @ [58] @ f v) es) @ 125 # w"
  obtain k v where e: "e = (k, v)" by force
  from cons.prems cons.hyps e have p: "at_text s (format_string k @ 58 # f v @ 44 # ?u) d" "stops (44 # ?u)"
    "reads_back fsort (f v) v n" "WEOF \<notin> set k" by (cases es; simp add: stops_def)+
  obtain t s1 where r: "GetNextToken t0 s = (t, s1)" "m_error t = None" "tk_kind t = TKN_StringLiteral" "string_val t = k"
    "at_text s1 (58 # f v @ 44 # ?u) d"
    using lex_string [OF p(1,4) cons.prems(3)] by (cases "GetNextToken t0 s") (auto simp: lexed_def)
  obtain t1 s2 where c: "GetNextToken t s1 = (t1, s2)" "m_error t1 = None" "tk_kind t1 = TKN_Colon" "at_text s2 (f v @ 44 # ?u) d"
    using lexed_pair [OF lex_chars(2) [OF r(2,5)]] by auto
  obtain t2 s3 t3 s4 where v: "GetNextToken t1 s2 = (t2, s3)" "m_error t2 = None"
    "parse_goal fsort Value t2 s3 = Some (value_done v t3 s4)" "m_error t3 = None" "at_text s4 (44 # ?u) d"
    using p(2,3) c(2,4) cons.prems unfolding reads_back_def by (smt (verit))
  obtain t4 s5 where b: "GetNextToken t3 s4 = (t4, s5)" "m_error t4 = None" "tk_kind t4 = TKN_Comma" "at_text s5 ?u d"
    using lexed_pair [OF lex_chars(1) [OF v(4,5)]] by auto
  obtain t5 s6 t6 s7 where i: "GetNextToken t4 s5 = (t5, s6)" "m_error t5 = None"
    "parse_goal fsort (Fields (acc @ [e])) t5 s6 = Some (value_done (JObject (fsort ((acc @ [e]) @ es))) t6 s7)"
    "m_error t6 = None" "at_text s7 w (d - 1)"
    using cons.IH [OF _ b(4,2), of "acc @ [e]"] cons.prems by auto
  have "parse_goal fsort (Fields acc) t s1 = Some (value_done (JObject (fsort (acc @ e # es))) t6 s7)"
    using i(3) by (subst parse_goal.simps)
      (simp add: r(3,4) c(1,2,3) v(1,2,3) value_done_next [OF b(1,2)] b(2,3) i(1,2) e Let_def)
  with r i show ?case by auto
qed

text \<open>Brackets around the loops.\<close>

lemma reads_back_array:
  assumes "\<forall>v \<in> set vs. reads_back fsort (f v) v n"
  shows "reads_back fsort ([91] @ separated (map f vs) @ [93]) (JArray vs) (Suc n)"
  unfolding reads_back_def
proof (intro allI impI)
  fix s w d and t0 :: token
  assume a: "at_text s (([91] @ separated (map f vs) @ [93]) @ w) d" "stops w" "m_error t0 = None" "0 \<le> d" "d + int (Suc n) \<le> 128"
  let ?u = "separated (map f vs) @ 93 # w"
  have "at_text s (91 # ?u) d" using a(1) by simp
  with a obtain t s1 where r: "GetNextToken t0 s = (t, s1)" "m_error t = None" "tk_kind t = TKN_OpenBracket" "at_text s1 ?u (d + 1)"
    using lexed_pair [OF lex_chars(4) [OF a(3)]] by fastforce
  have "\<exists>t1 s2. parse_goal fsort Value t s1 = Some (value_done (JArray vs) t1 s2) \<and> m_error t1 = None \<and> at_text s2 w d"
  proof (cases "vs = []")
    case True
    then obtain t1 s2 where c: "GetNextToken t s1 = (t1, s2)" "m_error t1 = None" "tk_kind t1 = TKN_CloseBracket" "at_text s2 w d"
      using lexed_pair [OF lex_chars(6) [OF r(2), of s1 w "d + 1"]] r(4) a(4) by auto
    with r(3) show ?thesis by (subst parse_goal.simps) (auto simp: True)
  next
    case False
    from elements_read [OF False assms r(4,2), of "[]"] a(4,5) obtain t1 s2 t2 s3 where
      "GetNextToken t s1 = (t1, s2)" "m_error t1 = None" "tk_kind t1 \<noteq> TKN_CloseBracket"
      "parse_goal fsort (Elements []) t1 s2 = Some (value_done (JArray vs) t2 s3)" "m_error t2 = None" "at_text s3 w d"
      by auto
    with r(3) show ?thesis by (subst parse_goal.simps) auto
  qed
  with r show "\<exists>t s1 t1 s2. GetNextToken t0 s = (t, s1) \<and> m_error t = None \<and> tk_kind t \<notin> {TKN_CloseBracket, TKN_CloseBrace}
      \<and> parse_goal fsort Value t s1 = Some (value_done (JArray vs) t1 s2) \<and> m_error t1 = None \<and> at_text s2 w d"
    by auto
qed

lemma reads_back_object:
  assumes "\<forall>(k, v) \<in> set es. WEOF \<notin> set k \<and> reads_back fsort (f v) v n" and "fsort es = es"
  shows "reads_back fsort ([123] @ separated (map (\<lambda>(k, v). format_string k @ [58] @ f v) es) @ [125]) (JObject es) (Suc n)"
  unfolding reads_back_def
proof (intro allI impI)
  fix s w d and t0 :: token
  let ?u = "separated (map (\<lambda>(k, v). format_string k @ [58] @ f v) es) @ 125 # w"
  assume a: "at_text s (([123] @ separated (map (\<lambda>(k, v). format_string k @ [58] @ f v) es) @ [125]) @ w) d" "stops w"
    "m_error t0 = None" "0 \<le> d" "d + int (Suc n) \<le> 128"
  have "at_text s (123 # ?u) d" using a(1) by simp
  with a obtain t s1 where r: "GetNextToken t0 s = (t, s1)" "m_error t = None" "tk_kind t = TKN_OpenBrace" "at_text s1 ?u (d + 1)"
    using lexed_pair [OF lex_chars(3) [OF a(3)]] by fastforce
  have "\<exists>t1 s2. parse_goal fsort Value t s1 = Some (value_done (JObject es) t1 s2) \<and> m_error t1 = None \<and> at_text s2 w d"
  proof (cases "es = []")
    case True
    then obtain t1 s2 where c: "GetNextToken t s1 = (t1, s2)" "m_error t1 = None" "tk_kind t1 = TKN_CloseBrace" "at_text s2 w d"
      using lexed_pair [OF lex_chars(5) [OF r(2), of s1 w "d + 1"]] r(4) a(4) by auto
    with r(3) assms(2) show ?thesis by (subst parse_goal.simps) (auto simp: True object_done_value)
  next
    case False
    from fields_read [OF False assms(1) r(4,2), of "[]"] a(4,5) assms(2) obtain t1 s2 t2 s3 where
      "GetNextToken t s1 = (t1, s2)" "m_error t1 = None" "tk_kind t1 \<noteq> TKN_CloseBrace"
      "parse_goal fsort (Fields []) t1 s2 = Some (value_done (JObject es) t2 s3)" "m_error t2 = None" "at_text s3 w d"
      by auto
    with r(3) show ?thesis by (subst parse_goal.simps) auto
  qed
  with r show "\<exists>t s1 t1 s2. GetNextToken t0 s = (t, s1) \<and> m_error t = None \<and> tk_kind t \<notin> {TKN_CloseBracket, TKN_CloseBrace}
      \<and> parse_goal fsort Value t s1 = Some (value_done (JObject es) t1 s2) \<and> m_error t1 = None \<and> at_text s2 w d"
    by auto
qed


lemma reads_back_less: "reads_back fsort txt v m \<Longrightarrow> m \<le> n \<Longrightarrow> reads_back fsort txt v n"
  unfolding reads_back_def by (meson add_left_mono of_nat_mono order_trans)

lemma reads_back_literals:
  "reads_back fsort (serialize fdouble JNull) JNull n"
  "reads_back fsort (serialize fdouble (JBool b)) (JBool b) n"
  "WEOF \<notin> set str \<Longrightarrow> reads_back fsort (serialize fdouble (JString str)) (JString str) n"
  "reads_back fsort (serialize fdouble (JNumber (Unsigned m))) (JNumber (Unsigned m)) n"
  "m <s 0 \<Longrightarrow> reads_back fsort (serialize fdouble (JNumber (Signed m))) (JNumber (Signed m)) n"
proof -
  note lit = literal_value_def lexed_def
  show "reads_back fsort (serialize fdouble JNull) JNull n"
    by (rule reads_back_literal) (use lex_keywords(1) in \<open>fastforce simp: lit\<close>)
  show "reads_back fsort (serialize fdouble (JBool b)) (JBool b) n"
    by (rule reads_back_literal) (use lex_keywords(2,3) in \<open>cases b; fastforce simp: lit\<close>)
  show "reads_back fsort (serialize fdouble (JString str)) (JString str) n" if "WEOF \<notin> set str"
    by (rule reads_back_literal) (use lex_string [OF _ that] in \<open>fastforce simp: lit format_strings_agree\<close>)
  show "reads_back fsort (serialize fdouble (JNumber (Unsigned m))) (JNumber (Unsigned m)) n"
    by (rule reads_back_literal) (use lex_unsigned in \<open>fastforce simp: lit\<close>)
  show "reads_back fsort (serialize fdouble (JNumber (Signed m))) (JNumber (Signed m)) n" if "m <s 0"
    by (rule reads_back_literal) (use lex_negative [OF _ _ _ that] in \<open>fastforce simp: lit\<close>)
qed

lemma written_reads_back:
  assumes "field_sorter fsort"
  shows "writable v \<Longrightarrow> reads_back fsort (serialize fdouble v) v (depth v)"
proof (induction v)
  case (JNumber n)
  then show ?case using reads_back_literals(4,5) [where fsort = fsort and fdouble = fdouble] by (cases n) auto
next
  case (JObject es)
  have "\<forall>(k, v) \<in> set es. WEOF \<notin> set k \<and> reads_back fsort (serialize fdouble v) v (foldr max (map (\<lambda>(k, v). depth v) es) 0)"
  proof (intro ballI, clarify)
    fix k v
    assume kv: "(k, v) \<in> set es"
    then have "writable v" "WEOF \<notin> set k" using JObject.prems by fastforce+
    moreover have "depth v \<le> foldr max (map (\<lambda>(k, v). depth v) es) 0" using kv by (intro foldr_max) force
    ultimately show "WEOF \<notin> set k \<and> reads_back fsort (serialize fdouble v) v (foldr max (map (\<lambda>(k, v). depth v) es) 0)"
      using JObject.IH [OF kv, of v] reads_back_less by auto
  qed
  moreover have "fsort es = es" using JObject.prems by (intro field_sorter.sorted_stays [OF assms]) simp_all
  ultimately show ?case using reads_back_object [of es fsort "serialize fdouble"] by simp
next
  case (JArray vs)
  have "\<forall>v \<in> set vs. reads_back fsort (serialize fdouble v) v (foldr max (map depth vs) 0)"
  proof
    fix v
    assume v: "v \<in> set vs"
    have "depth v \<le> foldr max (map depth vs) 0" using v by (intro foldr_max) simp
    then show "reads_back fsort (serialize fdouble v) v (foldr max (map depth vs) 0)"
      using JArray.IH [OF v] JArray.prems v reads_back_less by auto
  qed
  then show ?case using reads_back_array by simp
next
  case (JString str)
  then show ?case using reads_back_literals(3) [where fsort = fsort and fdouble = fdouble] by simp
qed (use reads_back_literals(1,2) [where fsort = fsort and fdouble = fdouble] in auto)

lemma read_whole:
  assumes "reads_back fsort txt v n" and "n \<le> 128"
  shows "parse_json fsort txt = Some (Inr v)"
proof -
  have "at_text (string_parser txt) (txt @ []) 0" "m_error new_token = None" "stops []"
    by (simp_all add: at_text_def string_parser_def new_token_def stops_def)
  with assms(2) obtain t s1 t1 s2 where r: "GetNextToken new_token (string_parser txt) = (t, s1)" "m_error t = None"
    "parse_goal fsort Value t s1 = Some (value_done v t1 s2)" "m_error t1 = None" "at_text s2 [] 0"
    using assms(1) [unfolded reads_back_def, THEN spec [of _ "string_parser txt"], THEN spec [of _ new_token],
      THEN spec [of _ "[]"], THEN spec [of _ 0]] by auto
  obtain t2 s3 where e: "GetNextToken t1 s2 = (t2, s3)" "m_error t2 = None" "tk_kind t2 = TKN_EOF"
    using lexed_pair [OF lex_end [OF r(5,4)]] by auto
  show ?thesis by (simp add: parse_json_def ParseValue_def r(1,2,3) value_done_next [OF e(1,2)] e(2,3))
qed

lemmas written_read = read_whole [OF written_reads_back]

text \<open>C34: Written and read. A value whose integers are stored as the constructors store them, whose objects have
  distinct keys in order and whose strings have no character U+FFFF is read back from the text it is written as,
  unless it is nested deeper than the 128 levels the parser accepts.\<close>
theorem written_then_parsed:
  assumes "field_sorter fsort" and "writable v" and "depth v \<le> 128"
  shows "parse_json fsort (serialize fdouble v) = Some (Inr v)"
  by (rule written_read [OF assms])

theorem written_then_parsed_witness:
  "parse_json ref_sort (wlit ''{'' @ [34] @ wlit ''a'' @ [34] @ wlit '':[10,null]}'')
     = Some (Inr (JObject [(wlit ''a'', JArray [JNumber (Unsigned 10), JNull])]))"
  using written_then_parsed [OF ref_fields.field_sorter_axioms, of "JObject [(wlit ''a'', JArray [JNumber (Unsigned 10), JNull])]" "\<lambda>_. []"]
  by (simp add: wstr_simps WEOF_def format_string_def append_escape_string_def escape_char_def special_escapes_def
      to_wstring_def dec_digits.simps)

text \<open>The missing value. An object that ends behind its first key, without a colon, a value or the closing brace,
  is accepted as the object without fields.\<close>
theorem key_without_value:
  assumes "field_sorter fsort" and "WEOF \<notin> set key"
  shows "parse_json fsort ([123] @ format_string key) = Some (Inr (JObject []))"
proof -
  have "m_error new_token = None" "at_text (string_parser ([123] @ format_string key)) (123 # format_string key) 0"
    by (simp_all add: at_text_def string_parser_def new_token_def)
  note opened = lexed_pair [OF lex_chars(3) [OF this]]
  from opened obtain t s where b: "GetNextToken new_token (string_parser ([123] @ format_string key)) = (t, s)" "m_error t = None"
    "tk_kind t = TKN_OpenBrace" "at_text s (format_string key @ []) 1"
    by auto
  obtain t1 s1 where k: "GetNextToken t s = (t1, s1)" "m_error t1 = None" "tk_kind t1 = TKN_StringLiteral" "at_text s1 [] 1"
    using lexed_pair lex_string [OF b(4) assms(2) b(2)] by blast
  obtain t2 s2 where e: "GetNextToken t1 s1 = (t2, s2)" "m_error t2 = None" "tk_kind t2 = TKN_EOF" "at_text s2 [] 1"
    using lexed_pair [OF lex_end [OF k(4,2)]] by auto
  obtain t3 s3 where f: "GetNextToken t2 s2 = (t3, s3)" "m_error t3 = None" "tk_kind t3 = TKN_EOF"
    using lexed_pair [OF lex_end [OF e(4,2)]] by auto
  have "fsort [] = []" using field_sorter.sorted_stays [OF assms(1)] by simp
  then have "parse_goal fsort (Fields []) t1 s1 = Some (JObject [], t3, s3)"
    by (subst parse_goal.simps) (simp add: k(3) e object_done_value value_done_next [OF f(1,2)])
  then have "parse_goal fsort Value t s = Some (JObject [], t3, s3)"
    by (subst parse_goal.simps) (simp add: b(3) k)
  then show ?thesis unfolding parse_json_def b(1) using f by (simp add: ParseValue_def b(2))
qed

theorem key_without_value_witness: "parse_json ref_sort ([123, 34, 97, 34]) = Some (Inr (JObject []))"
  using key_without_value [OF ref_fields.field_sorter_axioms, of "[97]"]
  by (simp add: WEOF_def format_string_def append_escape_string_def escape_char_def special_escapes_def)

lemma nested_too_deep:
  "at_text s (replicate n 91 @ w) d \<Longrightarrow> m_error t = None \<Longrightarrow> tk_kind t = TKN_OpenBracket \<Longrightarrow> 0 \<le> d \<Longrightarrow> d \<le> 128 \<Longrightarrow>
    d + int n > 128 \<Longrightarrow> \<exists>t' s'. parse_goal fsort Value t s = Some (JNull, t', s') \<and> m_error t' = Some nesting"
proof (induction n arbitrary: s t d)
  case (Suc n)
  show ?case
  proof (cases "d = 128")
    case True
    have "at_text s (91 # replicate n 91 @ w) d" using Suc.prems(1) by simp
    then obtain t1 s1 where "GetNextToken t s = (t1, s1)" "m_error t1 = Some nesting"
      by (rule lex_char [OF _ _ _ Suc.prems(2)])
        (auto simp: GetNextToken.simps [of t s] iswspace_def WEOF_def at_text_def True maxParsingDepth_def SetErrorCode_def)
    with Suc.prems(3) show ?thesis by (subst parse_goal.simps) auto
  next
    case False
    have "at_text s (91 # replicate n 91 @ w) d" using Suc.prems(1) by simp
    then obtain t1 s1 where r: "GetNextToken t s = (t1, s1)" "m_error t1 = None" "tk_kind t1 = TKN_OpenBracket"
      "at_text s1 (replicate n 91 @ w) (d + 1)"
      using lexed_pair [OF lex_chars(4) [OF Suc.prems(2)]] Suc.prems(5) False by fastforce
    then obtain t2 s2 where i: "parse_goal fsort Value t1 s1 = Some (JNull, t2, s2)" "m_error t2 = Some nesting"
      using Suc.IH [OF r(4,2,3)] Suc.prems False by auto
    then have "parse_goal fsort (Elements []) t1 s1 = Some (JNull, t2, s2)" by (subst parse_goal.simps) simp
    with Suc.prems(3) r i show ?thesis by (subst parse_goal.simps) auto
  qed
qed simp

text \<open>The limit of nesting. A text that opens more than 128 arrays in each other is refused for its nesting,
  whatever follows.\<close>
theorem nesting_refused:
  assumes "n > 128"
  shows "\<exists>p. parse_json fsort (replicate n 91 @ w) = Some (Inl (p, nesting))"
proof -
  obtain m where n: "n = Suc m" using assms by (cases n) auto
  have "m_error new_token = None" "at_text (string_parser (replicate n 91 @ w)) (91 # replicate m 91 @ w) 0"
    by (simp_all add: at_text_def string_parser_def new_token_def n)
  note opened = lexed_pair [OF lex_chars(4) [OF this]]
  from opened obtain t s where b: "GetNextToken new_token (string_parser (replicate n 91 @ w)) = (t, s)" "m_error t = None"
    "tk_kind t = TKN_OpenBracket" "at_text s (replicate m 91 @ w) 1"
    by auto
  then obtain t' s' where "parse_goal fsort Value t s = Some (JNull, t', s')" "m_error t' = Some nesting"
    using nested_too_deep [OF b(4,2,3), of fsort] assms n by auto
  then show ?thesis unfolding parse_json_def b(1) by (simp add: ParseValue_def b(2))
qed

theorem nesting_refused_witness: "\<exists>p. parse_json ref_sort (replicate 129 91) = Some (Inl (p, nesting))"
  using nesting_refused [of 129 ref_sort "[]"] by simp

end
