(* ===== verification/Http_Body.thy ===== *)
theory Http_Body
  imports Json_Roundtrip Utf
begin

text \<open>
  The body of an HTTP message as JSON (\<open>_extract_json\<close> of \<open>http_msg.cpp\<close> and what it calls in \<open>http_helpers.cpp\<close>): the
  charset of the \<open>Content-Type\<close>, the conversion of the bytes to UTF-16, and the parser. The message has a body that
  has arrived as a whole.
\<close>

section \<open>The content type\<close>

text \<open>\<open>_wcsicmp\<close> in the C locale, on null-terminated strings.\<close>

definition lower_case :: "wchar \<Rightarrow> wchar" where
  "lower_case c = (if 65 \<le> c \<and> c \<le> 90 then c + 32 else c)"

definition str_icmp :: "wstring \<Rightarrow> wstring \<Rightarrow> bool" where
  "str_icmp left right \<longleftrightarrow> map lower_case (c_str left) = map lower_case (c_str right)"

definition is_content_type_one_of :: "wstring list \<Rightarrow> wstring \<Rightarrow> bool" where
  "is_content_type_one_of types v = list_ex (\<lambda>t. str_icmp t v) types"

definition json_types :: "wstring list" where
  "json_types = map wlit
     [''application/json'', ''application/x-json'', ''text/json'', ''text/x-json'', ''text/javascript'',
      ''text/x-javascript'', ''application/javascript'', ''application/x-javascript'']"

definition is_content_type_json :: "wstring \<Rightarrow> bool" where
  "is_content_type_json content_type = is_content_type_one_of json_types content_type"

definition get_default_charset :: "wstring \<Rightarrow> wstring" where
  "get_default_charset content_type =
     (if is_content_type_json content_type then wlit ''utf-8'' else wlit ''iso-8859-1'')"

text \<open>\<open>isspace\<close>, which the code calls with characters of a header, that is with bytes.\<close>

definition isspace :: "wchar \<Rightarrow> bool" where
  "isspace c \<longleftrightarrow> c = 32 \<or> 9 \<le> c \<and> c \<le> 13"

definition ltrim_whitespace :: "wstring \<Rightarrow> wstring" where "ltrim_whitespace str = dropWhile isspace str"
definition rtrim_whitespace :: "wstring \<Rightarrow> wstring" where "rtrim_whitespace str = rev (dropWhile isspace (rev str))"
definition trim_whitespace :: "wstring \<Rightarrow> wstring" where "trim_whitespace str = rtrim_whitespace (ltrim_whitespace str)"

text \<open>
  The semicolons at the end are dropped as long as \<open>back()\<close> is one. On an empty string \<open>back()\<close> and \<open>front()\<close> are
  undefined: \<open>None\<close>.
\<close>

fun drop_semicolons :: "wstring \<Rightarrow> wstring option" where
  "drop_semicolons charset =
     (if charset = [] then None else if last charset = 59 then drop_semicolons (butlast charset) else Some charset)"

declare drop_semicolons.simps [simp del]

definition unquote :: "wstring \<Rightarrow> wstring option" where
  "unquote charset =
     (if charset = [] then None
      else Some (if hd charset = 34 \<and> last charset = 34 then trim_whitespace (take (length charset - 2) (drop 1 charset))
                 else charset))"

text \<open>What is before and behind the first of a character.\<close>

definition split_at :: "wchar \<Rightarrow> wstring \<Rightarrow> wstring \<times> wstring" where
  "split_at c str = (takeWhile (\<lambda>x. x \<noteq> c) str, tl (dropWhile (\<lambda>x. x \<noteq> c) str))"

definition parse_content_type_and_charset :: "wstring \<Rightarrow> wstring \<times> wstring option" where
  "parse_content_type_and_charset content_type =
     (if 59 \<notin> set content_type
      then let content = trim_whitespace content_type in (content, Some (get_default_charset content))
      else
        let (content, possible_charset) = split_at 59 content_type;
            content = trim_whitespace content; possible_charset = trim_whitespace possible_charset
        in if 61 \<notin> set possible_charset then (content, Some (get_default_charset content))
           else
             let (charset_key, charset) = split_at 61 possible_charset
             in if \<not> str_icmp (trim_whitespace charset_key) (wlit ''charset'')
                then (content, Some (get_default_charset content))
                else (content, Option.bind (drop_semicolons charset) (\<lambda>charset. unquote (trim_whitespace charset))))"

datatype extract_error = HttpError | JsonError json_error | RangeError range_error | Undefined

definition parse_and_check_content_type ::
  "bool \<Rightarrow> (wstring \<Rightarrow> bool) \<Rightarrow> wstring \<Rightarrow> bytes \<Rightarrow> extract_error + wstring" where
  "parse_and_check_content_type ignore_content_type check_content_type content_type body =
     (if ignore_content_type then Inr (wlit ''utf-8'')
      else case parse_content_type_and_charset content_type of
             (_, None) \<Rightarrow> Inl Undefined
           | (content, Some charset) \<Rightarrow>
               if content = [] \<or> body = [] then Inr []
               else if \<not> check_content_type content then Inl HttpError
               else Inr charset)"

section \<open>The units of the body\<close>

text \<open>The bytes of a body as 16-bit units of this machine, which is little endian.\<close>

fun units_of :: "bytes \<Rightarrow> wstring" where
  "units_of (a # b # body) = (ucast a OR push_bit 8 (ucast b)) # units_of body"
| "units_of _ = []"

datatype endian_ness = little_endian | big_endian | unknown

definition check_byte_order_mark :: "wstring \<Rightarrow> endian_ness" where
  "check_byte_order_mark str =
     (case str of
        [] \<Rightarrow> unknown
      | c # _ \<Rightarrow> if c AND 0xFF = 0xFF \<and> drop_bit 8 c = 0xFE then little_endian
                 else if c AND 0xFF = 0xFE \<and> drop_bit 8 c = 0xFF then big_endian
                 else unknown)"

definition swap_unit :: "wchar \<Rightarrow> wchar" where
  "swap_unit ch = push_bit 8 ch OR drop_bit 8 ch"

definition convert_utf16be_to_utf16le :: "wstring \<Rightarrow> bool \<Rightarrow> wstring" where
  "convert_utf16be_to_utf16le src erase_bom = map swap_unit (if erase_bom \<and> src \<noteq> [] then drop 1 src else src)"

definition convert_utf16le_to_string_t :: "wstring \<Rightarrow> bool \<Rightarrow> wstring" where
  "convert_utf16le_to_string_t src erase_bom = (if erase_bom \<and> src \<noteq> [] then drop 1 src else src)"

definition convert_utf16_to_utf16 :: "wstring \<Rightarrow> wstring" where
  "convert_utf16_to_utf16 src =
     (case check_byte_order_mark src of
        little_endian \<Rightarrow> drop 1 src
      | big_endian \<Rightarrow> convert_utf16be_to_utf16le src True
      | unknown \<Rightarrow> convert_utf16be_to_utf16le src False)"

section \<open>The body as JSON\<close>

definition body_text :: "wstring \<Rightarrow> bytes \<Rightarrow> extract_error + wstring" where
  "body_text charset body =
     (if str_icmp charset (wlit ''iso-8859-1'') then Inr (latin1_to_utf16 body)
      else if str_icmp charset (wlit ''utf-8'') \<or> str_icmp charset (wlit ''us-ascii'') \<or> str_icmp charset (wlit ''ascii'')
      then map_sum RangeError id (utf8_to_utf16 body)
      else if str_icmp charset (wlit ''utf-16'') then Inr (convert_utf16_to_utf16 (units_of body))
      else if str_icmp charset (wlit ''utf-16le'') then Inr (convert_utf16le_to_string_t (units_of body) False)
      else if str_icmp charset (wlit ''utf-16be'') then Inr (convert_utf16be_to_utf16le (units_of body) False)
      else Inl HttpError)"

text \<open>\<open>_extract_json\<close>: the exception or the value; \<open>None\<close> when the parser does not return.\<close>

definition extract_json :: "field_sort \<Rightarrow> bool \<Rightarrow> wstring \<Rightarrow> bytes \<Rightarrow> (extract_error + json) option" where
  "extract_json fsort ignore_content_type content_type body =
     (case parse_and_check_content_type ignore_content_type is_content_type_json content_type body of
        Inl e \<Rightarrow> Some (Inl e)
      | Inr charset \<Rightarrow>
          if charset = [] then Some (Inr JNull)
          else case body_text charset body of
                 Inl e \<Rightarrow> Some (Inl e)
               | Inr str \<Rightarrow> map_option (map_sum (\<lambda>(_, e). JsonError e) id) (parse_json fsort str))"


section \<open>Every charset\<close>

text \<open>The bytes of 16-bit units in either order.\<close>

definition le_bytes :: "wstring \<Rightarrow> bytes" where
  "le_bytes w = concat (map (\<lambda>c. [ucast c, ucast (drop_bit 8 c)]) w)"

definition be_bytes :: "wstring \<Rightarrow> bytes" where
  "be_bytes w = concat (map (\<lambda>c. [ucast (drop_bit 8 c), ucast c]) w)"

lemma units_le: "units_of (le_bytes w) = w"
proof (induction w)
  case (Cons c w)
  have "ucast (ucast c :: u8) OR push_bit 8 (ucast (ucast (drop_bit 8 c) :: u8)) = c"
    by (rule bit_word_eqI) (auto simp: bit_simps)
  with Cons show ?case by (simp add: le_bytes_def)
qed (simp add: le_bytes_def)

lemma units_be: "units_of (be_bytes w) = map swap_unit w"
proof (induction w)
  case (Cons c w)
  have "ucast (ucast (drop_bit 8 c) :: u8) OR push_bit 8 (ucast (ucast c :: u8)) = swap_unit c"
  proof (rule bit_word_eqI)
    show "bit (ucast (ucast (drop_bit 8 c) :: u8) OR push_bit 8 (ucast (ucast c :: u8)) :: wchar) n = bit (swap_unit c) n"
      if "n < LENGTH(16)" for n
      using that bit_imp_le_length [of c "8 + n"] by (cases "n < 8") (auto simp: bit_simps swap_unit_def)
  qed
  with Cons show ?case by (simp add: be_bytes_def)
qed (simp add: be_bytes_def)

lemma swap_twice: "swap_unit (swap_unit c) = c"
proof (rule bit_word_eqI)
  show "bit (swap_unit (swap_unit c)) n = bit c n" if "n < LENGTH(16)" for n
    using that bit_imp_le_length [of c "8 + n"] by (cases "n < 8") (auto simp: bit_simps swap_unit_def)
qed

lemma byte_order_marks:
  "check_byte_order_mark (0xFEFF # w) = little_endian" "check_byte_order_mark (0xFFFE # w) = big_endian"
  "swap_unit 0xFEFF = 0xFFFE"
  by (simp_all add: check_byte_order_mark_def swap_unit_def)


text \<open>The charsets of the headers below.\<close>

lemmas header_simps = parse_content_type_and_charset_def trim_whitespace_def ltrim_whitespace_def rtrim_whitespace_def
  split_at_def is_content_type_json_def is_content_type_one_of_def json_types_def get_default_charset_def str_icmp_def
  lower_case_def c_str_def isspace_def wstr_simps

abbreviation json_type :: "string \<Rightarrow> wstring" where
  "json_type charset \<equiv> wlit (''application/json; charset='' @ charset)"

lemma charset_headers:
  "parse_content_type_and_charset (json_type ''utf-8'') = (wlit ''application/json'', Some (wlit ''utf-8''))"
  "parse_content_type_and_charset (json_type ''utf-16'') = (wlit ''application/json'', Some (wlit ''utf-16''))"
  "parse_content_type_and_charset (json_type ''utf-16le'') = (wlit ''application/json'', Some (wlit ''utf-16le''))"
  "parse_content_type_and_charset (json_type ''utf-16be'') = (wlit ''application/json'', Some (wlit ''utf-16be''))"
  "parse_content_type_and_charset (json_type ''us-ascii'') = (wlit ''application/json'', Some (wlit ''us-ascii''))"
  "parse_content_type_and_charset (json_type ''ascii'') = (wlit ''application/json'', Some (wlit ''ascii''))"
  "parse_content_type_and_charset (json_type ''iso-8859-1'') = (wlit ''application/json'', Some (wlit ''iso-8859-1''))"
  by (simp_all add: header_simps drop_semicolons.simps unquote_def)

lemma json_is_json: "is_content_type_json (wlit ''application/json'')"
  by (simp add: header_simps)

lemma charset_texts:
  "body_text (wlit ''utf-8'') body = map_sum RangeError id (utf8_to_utf16 body)"
  "body_text (wlit ''us-ascii'') body = map_sum RangeError id (utf8_to_utf16 body)"
  "body_text (wlit ''ascii'') body = map_sum RangeError id (utf8_to_utf16 body)"
  "body_text (wlit ''iso-8859-1'') body = Inr (latin1_to_utf16 body)"
  "body_text (wlit ''utf-16'') body = Inr (convert_utf16_to_utf16 (units_of body))"
  "body_text (wlit ''utf-16le'') body = Inr (units_of body)"
  "body_text (wlit ''utf-16be'') body = Inr (map swap_unit (units_of body))"
  by (simp_all add: body_text_def str_icmp_def c_str_def lower_case_def wstr_simps convert_utf16be_to_utf16le_def
      convert_utf16le_to_string_t_def)

lemma extract_charset:
  assumes "parse_content_type_and_charset ct = (wlit ''application/json'', Some charset)" and "body \<noteq> []"
    and "charset \<noteq> []" and "body_text charset body = Inr str"
  shows "extract_json fsort False ct body = map_option (map_sum (\<lambda>(_, e). JsonError e) id) (parse_json fsort str)"
  using assms by (simp add: extract_json_def parse_and_check_content_type_def json_is_json)

lemma extract_utf8:
  "extract_json fsort True ct body =
    (case utf8_to_utf16 body of Inl e \<Rightarrow> Some (Inl (RangeError e))
     | Inr str \<Rightarrow> map_option (map_sum (\<lambda>(_, e). JsonError e) id) (parse_json fsort str))"
  by (simp add: extract_json_def parse_and_check_content_type_def charset_texts split: sum.split)

text \<open>The bodies of a text \<open>w\<close>, whose bytes in UTF-8 are \<open>bs\<close>, with the charsets that announce them.\<close>

definition announced :: "wstring \<Rightarrow> bytes \<Rightarrow> (string \<times> bytes) list" where
  "announced w bs =
     [(''utf-8'', bs), (''us-ascii'', bs), (''ascii'', bs),
      (''utf-16'', le_bytes (0xFEFF # w)), (''utf-16'', be_bytes (0xFEFF # w)),
      (''utf-16le'', le_bytes w), (''utf-16be'', be_bytes w)]
     @ (if hd w \<in> {0xFEFF, 0xFFFE} then [] else [(''utf-16'', be_bytes w)])
     @ (if \<forall>c \<in> set w. c \<le> 0x7F then [(''iso-8859-1'', bs)] else [])"

lemma check_byte_order_mark_none:
  assumes "swap_unit c \<noteq> 0xFEFF" and "swap_unit c \<noteq> 0xFFFE"
  shows "check_byte_order_mark (c # w) = unknown"
proof -
  have eq: "c = a" if "c AND 0xFF = a AND 0xFF" and "drop_bit 8 c = drop_bit 8 a" for a :: wchar
  proof (rule bit_word_eqI)
    fix n
    show "bit c n = bit a n"
    proof (cases "n < 8")
      case True
      have "bit (c AND 0xFF) n = bit (a AND 0xFF) n" by (simp only: that(1))
      then show ?thesis using True by (auto simp: bit_simps bit_numeral_rec numeral_eq_Suc less_Suc_eq)
    next
      case False
      have "bit (drop_bit 8 c) (n - 8) = bit (drop_bit 8 a) (n - 8)" by (simp only: that(2))
      with False show ?thesis by (simp add: bit_simps)
    qed
  qed
  have "\<not> (c AND 0xFF = 0xFF \<and> drop_bit 8 c = 0xFE)" "\<not> (c AND 0xFF = 0xFE \<and> drop_bit 8 c = 0xFF)"
    using eq [of "0xFEFF"] eq [of "0xFFFE"] assms by (auto simp: swap_unit_def)
  then show ?thesis
    by (auto simp: check_byte_order_mark_def swap_unit_def)
qed

lemma latin1_ascii: "c \<le> 0x7F \<Longrightarrow> (scast (ucast (c :: wchar) :: u8) :: wchar) = c"
proof -
  assume "c \<le> 0x7F"
  then have "ucast c < (0x80 :: u8)" and "(ucast (ucast c :: u8) :: wchar) = c"
    by (simp_all add: word_less_nat_alt word_le_nat_alt unsigned_ucast_eq take_bit_nat_eq_self word_unat_eq_iff unsigned_take_bit_eq)
  then show ?thesis using scast_ascii [of "ucast c"] by metis
qed

lemma body_text_announced:
  assumes "utf16_to_utf8 w = Inr bs" and "w \<noteq> []" and "(charset, body) \<in> set (announced w bs)"
  shows "body_text (wlit charset) body = Inr w \<and> body \<noteq> [] \<and> charset \<noteq> []"
proof -
  have bs: "utf8_to_utf16 bs = Inr w" by (rule utf8_back [OF assms(1)])
  have ne: "bs \<noteq> []" "le_bytes v \<noteq> []" "be_bytes v \<noteq> []" if "v \<noteq> []" for v
    using that bs assms(2) by (cases bs, auto simp: le_bytes_def be_bytes_def neq_Nil_conv)
  have swapped: "map swap_unit (map swap_unit v) = v" for v by (simp add: swap_twice map_idI)
  then have marked: "convert_utf16_to_utf16 (0xFEFF # w) = w" "convert_utf16_to_utf16 (map swap_unit (0xFEFF # w)) = w"
    by (simp_all add: convert_utf16_to_utf16_def byte_order_marks convert_utf16be_to_utf16le_def)
  have unmarked: "convert_utf16_to_utf16 (map swap_unit w) = w" if "hd w \<notin> {0xFEFF, 0xFFFE}"
  proof -
    have "check_byte_order_mark (map swap_unit w) = unknown"
      using that assms(2) by (cases w) (simp_all add: check_byte_order_mark_none swap_twice)
    then show ?thesis using swapped [of w] by (simp add: convert_utf16_to_utf16_def convert_utf16be_to_utf16le_def)
  qed
  have latin: "latin1_to_utf16 bs = w" if "\<forall>c \<in> set w. c \<le> 0x7F"
    using ascii_bytes [OF that] assms(1) that by (auto simp: latin1_to_utf16_def latin1_ascii intro!: map_idI)
  show ?thesis
    using assms(3) bs ne assms(2) marked unmarked latin swapped [of w]
    by (auto simp: announced_def charset_texts units_le units_be split: if_splits)
qed

text \<open>C37: One document, every charset. The value of a text is the same in UTF-8, with or without regard to the content
  type (\<open>us-ascii\<close> and \<open>ascii\<close> are read as UTF-8), in UTF-16 with a byte order mark of either order, in UTF-16 whose
  order the content type names, in big-endian UTF-16 without a mark, and in ISO 8859-1 when the text is ASCII. Not
  covered, and not so: little-endian UTF-16 without a mark, which is read as big-endian, and other texts in
  ISO 8859-1 (\<open>latin1_keeps_ascii\<close>).\<close>
theorem charsets_agree:
  assumes "utf16_to_utf8 w = Inr bs" and "w \<noteq> []"
  shows "extract_json fsort True ct bs = map_option (map_sum (\<lambda>(_, e). JsonError e) id) (parse_json fsort w)
    \<and> (\<forall>(charset, body) \<in> set (announced w bs).
         extract_json fsort False (json_type charset) body
           = map_option (map_sum (\<lambda>(_, e). JsonError e) id) (parse_json fsort w))"
proof -
  have "extract_json fsort True ct bs = map_option (map_sum (\<lambda>(_, e). JsonError e) id) (parse_json fsort w)"
    by (simp add: extract_utf8 utf8_back [OF assms(1)])
  moreover have "extract_json fsort False (json_type charset) body
      = map_option (map_sum (\<lambda>(_, e). JsonError e) id) (parse_json fsort w)"
    if "(charset, body) \<in> set (announced w bs)" for charset body
  proof -
    have "charset \<in> {''utf-8'', ''us-ascii'', ''ascii'', ''utf-16'', ''utf-16le'', ''utf-16be'', ''iso-8859-1''}"
      using that by (auto simp: announced_def split: if_splits)
    then have "parse_content_type_and_charset (json_type charset) = (wlit ''application/json'', Some (wlit charset))"
      using charset_headers by blast
    then show ?thesis using body_text_announced [OF assms that] by (intro extract_charset) (auto simp: wlit_eq_Nil)
  qed
  ultimately show ?thesis by blast
qed

theorem charsets_agree_witness:
  "extract_json ref_sort False (json_type ''utf-16'') (be_bytes [0xFEFF, 0x5B, 0x5D])
     = extract_json ref_sort True [] [0x5B, 0x5D]
   \<and> extract_json ref_sort False (json_type ''iso-8859-1'') [0x5B, 0x5D]
     = extract_json ref_sort False (json_type ''utf-16'') (be_bytes [0x5B, 0x5D])"
  using charsets_agree [of "[0x5B, 0x5D]" "[0x5B, 0x5D]" ref_sort "[]"]
  by (simp add: unit_bytes_def high_surrogate_def announced_def)

end
