(* ===== verification/Ip_Fetcher.thy ===== *)
theory Ip_Fetcher
  imports State Http_Body
begin

text \<open>
  \<open>ip_fetcher.cpp\<close>: the request for the server's list of DNS servers and the parser of its answer.
  The list is an \<open>unordered_map\<close> from view names to an \<open>unordered_map\<close> from server addresses
  (\<open>vip\<close>) to their uptime. A \<open>json_exception\<close> inside the parser leaves it with the entries, the
  messages and the counter it had so far; \<open>fetch\<close> turns it into a result code.
\<close>

section \<open>The parser\<close>

type_synonym dns_map = "wstring umap umap"

text \<open>
  The idiom \<open>v[key].is_null()\<close> followed by \<open>v[key].as_string()\<close> (\<open>as_array\<close>): both subscripts are
  taken, on the value as the first one left it.
\<close>

definition string_field :: "wstring \<Rightarrow> json \<Rightarrow> json_exception + wstring option \<times> json" where
  "string_field key v =
     (case value_index key v of
        Inl e \<Rightarrow> Inl e
      | Inr (f, v1) \<Rightarrow>
          if is_null f then Inr (None, v1)
          else (case value_index key v1 of
                  Inl e \<Rightarrow> Inl e
                | Inr (f, v2) \<Rightarrow>
                    (case as_string f of Inl e \<Rightarrow> Inl e | Inr s \<Rightarrow> Inr (Some s, v2))))"

definition array_field :: "wstring \<Rightarrow> json \<Rightarrow> json_exception + json list option \<times> json" where
  "array_field key v =
     (case value_index key v of
        Inl e \<Rightarrow> Inl e
      | Inr (f, v1) \<Rightarrow>
          if is_null f then Inr (None, v1)
          else (case value_index key v1 of
                  Inl e \<Rightarrow> Inl e
                | Inr (f, v2) \<Rightarrow>
                    (case as_array f of Inl e \<Rightarrow> Inl e | Inr vs \<Rightarrow> Inr (Some vs, v2))))"

text \<open>The body of the inner loop.\<close>

definition parse_ip_item ::
  "json \<Rightarrow> wstring umap \<Rightarrow> ('w, 'm) st_scheme \<Rightarrow>
     (json_exception + unit) \<times> wstring umap \<times> ('w, 'm) st_scheme" where
  "parse_ip_item ip_item map_vip_uptime s =
     (case string_field (wlit ''vip'') ip_item of
        Inl e \<Rightarrow> (Inl e, map_vip_uptime, s)
      | Inr (None, _) \<Rightarrow> (Inr (), map_vip_uptime, showwarning (MsgFetch NoVip) s)
      | Inr (Some str_vip, ip_item) \<Rightarrow>
          (case string_field (wlit ''uptime'') ip_item of
             Inl e \<Rightarrow> (Inl e, map_vip_uptime, s)
           | Inr (Some str_uptime, _) \<Rightarrow> (Inr (), um_insert str_vip str_uptime map_vip_uptime, s)
           | Inr (None, _) \<Rightarrow>
               (Inr (), um_insert str_vip (wlit ''unknow'') map_vip_uptime,
                showwarning (MsgFetch NoUptime) s)))"

fun parse_ip_items ::
  "json list \<Rightarrow> wstring umap \<Rightarrow> ('w, 'm) st_scheme \<Rightarrow>
     (json_exception + unit) \<times> wstring umap \<times> ('w, 'm) st_scheme" where
  "parse_ip_items [] m s = (Inr (), m, s)"
| "parse_ip_items (ip_item # rest) m s =
     (case parse_ip_item ip_item m s of
        (Inl e, m', s') \<Rightarrow> (Inl e, m', s')
      | (Inr _, m', s') \<Rightarrow> parse_ip_items rest m' s')"

text \<open>The name of a view, the counter \<open>s_suffix\<close> naming the views that have none.\<close>

definition view_name ::
  "wstring option \<Rightarrow> ('w, 'm) st_scheme \<Rightarrow> wstring \<times> ('w, 'm) st_scheme" where
  "view_name name s =
     (case name of
        Some str_view_name \<Rightarrow> (str_view_name, s)
      | None \<Rightarrow>
          let s = s\<lparr>suffix := suffix s + 1\<rparr>
          in (wlit ''unknow'' @ to_wstring (unat (suffix s)), showwarning (MsgFetch NoViewName) s))"

text \<open>The body of the outer loop.\<close>

definition parse_view_item ::
  "json \<Rightarrow> dns_map \<Rightarrow> ('w, 'm) st_scheme \<Rightarrow>
     (json_exception + unit) \<times> dns_map \<times> ('w, 'm) st_scheme" where
  "parse_view_item view_item map_dns_info s =
     (case string_field (wlit ''view_name'') view_item of
        Inl e \<Rightarrow> (Inl e, map_dns_info, s)
      | Inr (name, view_item) \<Rightarrow>
          (case view_name name s of (str_view_name, s) \<Rightarrow>
             (case array_field (wlit ''info'') view_item of
                Inl e \<Rightarrow> (Inl e, map_dns_info, s)
              | Inr (None, _) \<Rightarrow> (Inr (), map_dns_info, showwarning (MsgFetch NoInfo) s)
              | Inr (Some ip_items, _) \<Rightarrow>
                  (case parse_ip_items ip_items [] s of
                     (Inl e, _, s) \<Rightarrow> (Inl e, map_dns_info, s)
                   | (Inr _, map_vip_uptime, s) \<Rightarrow>
                       (Inr (), um_insert str_view_name map_vip_uptime map_dns_info, s)))))"

fun parse_view_items ::
  "json list \<Rightarrow> dns_map \<Rightarrow> ('w, 'm) st_scheme \<Rightarrow>
     (json_exception + unit) \<times> dns_map \<times> ('w, 'm) st_scheme" where
  "parse_view_items [] m s = (Inr (), m, s)"
| "parse_view_items (view_item # rest) m s =
     (case parse_view_item view_item m s of
        (Inl e, m', s') \<Rightarrow> (Inl e, m', s')
      | (Inr _, m', s') \<Rightarrow> parse_view_items rest m' s')"

definition parse_respond ::
  "json \<Rightarrow> dns_map \<Rightarrow> ('w, 'm) st_scheme \<Rightarrow>
     (json_exception + result) \<times> dns_map \<times> ('w, 'm) st_scheme" where
  "parse_respond resp map_dns_info s =
     (case string_field (wlit ''status'') resp of
        Inl e \<Rightarrow> (Inl e, map_dns_info, s)
      | Inr (None, _) \<Rightarrow> (Inr result_network_interface_respond_status_not_exist, map_dns_info, s)
      | Inr (Some str_status, resp) \<Rightarrow>
          if str_status \<noteq> wlit ''success''
          then (Inr result_network_interface_respond_status_not_success, map_dns_info,
                showerror (MsgFetch (ListStatus str_status)) s)
          else (case array_field (wlit ''data'') resp of
                  Inl e \<Rightarrow> (Inl e, map_dns_info, s)
                | Inr (None, _) \<Rightarrow>
                    (Inr result_network_interface_respond_data_not_exist, map_dns_info, s)
                | Inr (Some view_items, _) \<Rightarrow>
                    (case parse_view_items view_items map_dns_info s of
                       (Inl e, m, s) \<Rightarrow> (Inl e, m, s)
                     | (Inr _, m, s) \<Rightarrow> (Inr result_success, m, s))))"

section \<open>The request\<close>

text \<open>The second continuation of the request, once the task has delivered a value.\<close>

definition handle_respond ::
  "json \<Rightarrow> dns_map \<Rightarrow> ('w, 'm) st_scheme \<Rightarrow> result \<times> dns_map \<times> ('w, 'm) st_scheme" where
  "handle_respond resp map_dns_info s =
     (if is_null resp then (result_network_interface_http_request_fail, map_dns_info, s)
      else (case parse_respond resp map_dns_info (showlog (MsgFetch ParseList) s) of
              (Inr res, m, s) \<Rightarrow> (res, m, s)
            | (Inl _, m, s) \<Rightarrow>
                (result_network_interface_respond_parse_fail, m, showerror (MsgFetch ParseFailed) s)))"

text \<open>
  The clauses of that continuation catch \<open>http_exception\<close> and \<open>json_exception\<close>. A \<open>range_error\<close>, thrown where
  the body is not UTF-8, passes them, is rethrown by \<open>wait\<close> and leaves the function: the answer \<open>Inl\<close>.
\<close>

definition fetch ::
  "'w os \<Rightarrow> dns_map \<Rightarrow> ('w, 'm) st_scheme \<Rightarrow> (range_error + result) \<times> dns_map \<times> ('w, 'm) st_scheme" where
  "fetch os map_dns_info s =
     (let s = emit (HttpGet NETWORK_INTERFACE) (showlog (MsgFetch RequestList) s);
          (response, s) = call (os_http_get os NETWORK_INTERFACE) s
      in case response of
           HttpException \<Rightarrow>
             (Inr result_network_interface_http_request_fail, map_dns_info, showerror (MsgFetch RequestFailed) s)
         | HttpResponse status_code body \<Rightarrow>
             if status_code = 200
             then (case body of
                     BodyJson resp \<Rightarrow> apfst Inr (handle_respond resp map_dns_info s)
                   | BodyRangeError e \<Rightarrow> (Inl e, map_dns_info, s)
                   | _ \<Rightarrow> (Inr result_network_interface_respond_parse_fail, map_dns_info,
                           showerror (MsgFetch ParseFailed) s))
             else apfst Inr (handle_respond JNull map_dns_info
                    (showerror (MsgFetch (RequestStatus status_code)) s)))"

text \<open>
  What \<open>extract_json(true)\<close> makes of the bytes of a body, as the second continuation sees it: the value or the
  exception; \<open>None\<close>: the extraction does not return, or reads out of bounds.
\<close>

definition answer_body :: "field_sort \<Rightarrow> bytes \<Rightarrow> json_body option" where
  "answer_body fsort body =
     (case extract_json fsort True [] body of
        Some (Inr v) \<Rightarrow> Some (BodyJson v)
      | Some (Inl HttpError) \<Rightarrow> Some BodyHttpException
      | Some (Inl (JsonError e)) \<Rightarrow> Some BodyJsonException
      | Some (Inl (RangeError e)) \<Rightarrow> Some (BodyRangeError e)
      | _ \<Rightarrow> None)"

section \<open>The document, read without mutation\<close>

text \<open>
  What the server's document says, by pure lookups: the kind of exception it provokes, or the result
  code it carries, or the views with their entries. A view is its optional name and its entries, or
  nothing where \<open>info\<close> is missing; an entry whose \<open>vip\<close> is missing is dropped, a missing \<open>uptime\<close> is
  the literal \<open>unknow\<close>.
\<close>

definition read_string :: "wstring \<Rightarrow> json \<Rightarrow> json_exception + wstring option" where
  "read_string key v =
     (case get_field key v of
        None \<Rightarrow> Inl NotAnObject
      | Some JNull \<Rightarrow> Inr None
      | Some (JString s) \<Rightarrow> Inr (Some s)
      | Some _ \<Rightarrow> Inl NotAString)"

definition read_array :: "wstring \<Rightarrow> json \<Rightarrow> json_exception + json list option" where
  "read_array key v =
     (case get_field key v of
        None \<Rightarrow> Inl NotAnObject
      | Some JNull \<Rightarrow> Inr None
      | Some (JArray vs) \<Rightarrow> Inr (Some vs)
      | Some _ \<Rightarrow> Inl NotAnArray)"

type_synonym entries = "(wstring \<times> wstring) list"
type_synonym view = "wstring option \<times> entries option"

definition read_item :: "json \<Rightarrow> json_exception + entries" where
  "read_item v =
     (case read_string (wlit ''vip'') v of
        Inl e \<Rightarrow> Inl e
      | Inr None \<Rightarrow> Inr []
      | Inr (Some vip) \<Rightarrow>
          (case read_string (wlit ''uptime'') v of
             Inl e \<Rightarrow> Inl e
           | Inr u \<Rightarrow> Inr [(vip, case u of None \<Rightarrow> wlit ''unknow'' | Some t \<Rightarrow> t)]))"

fun read_items :: "json list \<Rightarrow> json_exception + entries" where
  "read_items [] = Inr []"
| "read_items (v # vs) =
     (case read_item v of
        Inl e \<Rightarrow> Inl e
      | Inr es \<Rightarrow> (case read_items vs of Inl e \<Rightarrow> Inl e | Inr fs \<Rightarrow> Inr (es @ fs)))"

definition read_view :: "json \<Rightarrow> json_exception + view" where
  "read_view v =
     (case read_string (wlit ''view_name'') v of
        Inl e \<Rightarrow> Inl e
      | Inr name \<Rightarrow>
          (case read_array (wlit ''info'') v of
             Inl e \<Rightarrow> Inl e
           | Inr None \<Rightarrow> Inr (name, None)
           | Inr (Some vs) \<Rightarrow> (case read_items vs of Inl e \<Rightarrow> Inl e | Inr es \<Rightarrow> Inr (name, Some es))))"

fun read_views :: "json list \<Rightarrow> json_exception + view list" where
  "read_views [] = Inr []"
| "read_views (v # vs) =
     (case read_view v of
        Inl e \<Rightarrow> Inl e
      | Inr w \<Rightarrow> (case read_views vs of Inl e \<Rightarrow> Inl e | Inr ws \<Rightarrow> Inr (w # ws)))"

definition read_respond :: "json \<Rightarrow> json_exception + result + view list" where
  "read_respond v =
     (case read_string (wlit ''status'') v of
        Inl e \<Rightarrow> Inl e
      | Inr None \<Rightarrow> Inr (Inl result_network_interface_respond_status_not_exist)
      | Inr (Some t) \<Rightarrow>
          if t \<noteq> wlit ''success'' then Inr (Inl result_network_interface_respond_status_not_success)
          else (case read_array (wlit ''data'') v of
                  Inl e \<Rightarrow> Inl e
                | Inr None \<Rightarrow> Inr (Inl result_network_interface_respond_data_not_exist)
                | Inr (Some vs) \<Rightarrow>
                    (case read_views vs of Inl e \<Rightarrow> Inl e | Inr ws \<Rightarrow> Inr (Inr ws))))"

text \<open>
  The names the views are stored under, the counter at \<open>n\<close> before the first: a view without a name
  takes a number even when its \<open>info\<close> is missing and nothing is stored.
\<close>

fun name_views :: "u32 \<Rightarrow> view list \<Rightarrow> (wstring \<times> wstring umap) list" where
  "name_views n [] = []"
| "name_views n ((Some name, None) # vs) = name_views n vs"
| "name_views n ((Some name, Some es) # vs) = (name, um_inserts es []) # name_views n vs"
| "name_views n ((None, None) # vs) = name_views (n + 1) vs"
| "name_views n ((None, Some es) # vs) =
     (wlit ''unknow'' @ to_wstring (unat (n + 1)), um_inserts es []) # name_views (n + 1) vs"

section \<open>The parser implements the reading\<close>

text \<open>
  \<open>agrees\<close>: a mutating read returned what the pure read says, and left a value with the same fields.
\<close>

definition agrees :: "json \<Rightarrow> json_exception + 'a \<Rightarrow> json_exception + 'a \<times> json \<Rightarrow> bool" where
  "agrees v pure mut \<longleftrightarrow>
     (case pure of
        Inl e \<Rightarrow> mut = Inl e
      | Inr x \<Rightarrow> \<exists>v'. mut = Inr (x, v') \<and> sorted_fields v' \<and> (\<forall>k. get_field k v' = get_field k v))"

lemma agrees_Inl: "agrees v (Inl e) mut \<Longrightarrow> mut = Inl e"
  by (simp add: agrees_def)

lemma agrees_Inr:
  assumes "agrees v (Inr x) mut"
  obtains v' where "mut = Inr (x, v')" "sorted_fields v'" "\<And>k. get_field k v' = get_field k v"
  using assms by (auto simp: agrees_def)

lemma string_field_agrees:
  assumes "sorted_fields v"
  shows "agrees v (read_string key v) (string_field key v)"
proof (cases "get_field key v")
  case None
  then show ?thesis
    by (simp add: agrees_def read_string_def string_field_def value_index_throws)
next
  case (Some f)
  obtain v1 where v1: "value_index key v = Inr (f, v1)" "sorted_fields v1" "\<And>k. get_field k v1 = get_field k v"
    using value_index_field [OF assms Some] by metis
  then obtain v2 where "value_index key v1 = Inr (f, v2)" "sorted_fields v2" "\<And>k. get_field k v2 = get_field k v"
    using value_index_field [OF v1(2), of key f] Some by metis
  with v1 Some show ?thesis
    by (cases f) (auto simp: agrees_def read_string_def string_field_def)
qed

lemma array_field_agrees:
  assumes "sorted_fields v"
  shows "agrees v (read_array key v) (array_field key v)"
proof (cases "get_field key v")
  case None
  then show ?thesis
    by (simp add: agrees_def read_array_def array_field_def value_index_throws)
next
  case (Some f)
  obtain v1 where v1: "value_index key v = Inr (f, v1)" "sorted_fields v1" "\<And>k. get_field k v1 = get_field k v"
    using value_index_field [OF assms Some] by metis
  then obtain v2 where "value_index key v1 = Inr (f, v2)" "sorted_fields v2" "\<And>k. get_field k v2 = get_field k v"
    using value_index_field [OF v1(2), of key f] Some by metis
  with v1 Some show ?thesis
    by (cases f) (auto simp: agrees_def read_array_def array_field_def)
qed

lemma read_cong:
  assumes "\<And>k. get_field k v = get_field k w"
  shows "read_string key v = read_string key w" "read_array key v = read_array key w"
  by (simp_all add: read_string_def read_array_def assms)

text \<open>Each level: the outcome, the map, the counter, and nothing but messages in the trace.\<close>

lemma parse_ip_item_reads:
  assumes "sorted_fields v"
  shows "case parse_ip_item v m s of (r, m', s') \<Rightarrow>
    only_shows s s' \<and> suffix s' = suffix s \<and>
    (case read_item v of Inl e \<Rightarrow> r = Inl e \<and> m' = m | Inr es \<Rightarrow> r = Inr () \<and> m' = um_inserts es m)"
proof (cases "read_string (wlit ''vip'') v")
  case (Inl e)
  then have "string_field (wlit ''vip'') v = Inl e"
    using string_field_agrees [OF assms, of "wlit ''vip''"] by (simp add: agrees_def)
  with Inl show ?thesis by (simp add: parse_ip_item_def read_item_def)
next
  case (Inr o1)
  then obtain v1 where v1: "string_field (wlit ''vip'') v = Inr (o1, v1)" "sorted_fields v1"
      and same: "\<And>k. get_field k v1 = get_field k v"
    using string_field_agrees [OF assms, of "wlit ''vip''"] by (auto elim: agrees_Inr)
  have "agrees v1 (read_string (wlit ''uptime'') v) (string_field (wlit ''uptime'') v1)"
    using string_field_agrees [OF v1(2)] read_cong(1) [OF same] by metis
  with Inr v1 show ?thesis
    by (cases "read_string (wlit ''uptime'') v"; cases o1)
      (auto simp: parse_ip_item_def read_item_def agrees_def split: option.splits)
qed

lemma parse_ip_items_reads:
  assumes "\<forall>v \<in> set vs. sorted_fields v"
  shows "case parse_ip_items vs m s of (r, m', s') \<Rightarrow>
    only_shows s s' \<and> suffix s' = suffix s \<and>
    (case read_items vs of Inl e \<Rightarrow> r = Inl e | Inr es \<Rightarrow> r = Inr () \<and> m' = um_inserts es m)"
  using assms
proof (induction vs arbitrary: m s)
  case Nil
  show ?case by simp
next
  case (Cons v vs)
  obtain r1 m1 s1 where p1: "parse_ip_item v m s = (r1, m1, s1)" by (metis prod_cases3)
  obtain r2 m2 s2 where p2: "parse_ip_items vs m1 s1 = (r2, m2, s2)" by (metis prod_cases3)
  show ?case
    using parse_ip_item_reads [of v s m] Cons.IH [of s1 m1] Cons.prems
    by (auto simp: p1 p2 split: sum.splits intro: only_shows_trans)
qed

lemma only_shows_view_name: "view_name o1 s = (n, s') \<Longrightarrow> only_shows s s'"
  by (auto simp: view_name_def Let_def only_shows_def split: option.splits)

lemma suffix_view_name:
  "view_name o1 s = (n, s') \<Longrightarrow> suffix s' = (if o1 = None then suffix s + 1 else suffix s)"
  by (auto simp: view_name_def Let_def split: option.splits)

text \<open>What one view adds to the list of named views.\<close>

lemma name_views_Cons:
  "name_views n ((o1, oes) # vs) =
     (case oes of None \<Rightarrow> []
      | Some es \<Rightarrow> [((case o1 of Some name \<Rightarrow> name | None \<Rightarrow> wlit ''unknow'' @ to_wstring (unat (n + 1))),
                    um_inserts es [])])
     @ name_views (if o1 = None then n + 1 else n) vs"
  by (cases o1; cases oes) simp_all

lemma name_views_split:
  "name_views n (w # ws) = name_views n [w] @ name_views (if fst w = None then n + 1 else n) ws"
  by (cases w) (simp only: name_views_Cons name_views.simps(1) append_Nil2 fst_conv)

lemma parse_view_item_reads:
  assumes "sorted_json v"
  shows "case parse_view_item v m s of (r, m', s') \<Rightarrow>
    only_shows s s' \<and>
    (case read_view v of
       Inl e \<Rightarrow> r = Inl e
     | Inr w \<Rightarrow> r = Inr () \<and> m' = um_inserts (name_views (suffix s) [w]) m
                \<and> suffix s' = (if fst w = None then suffix s + 1 else suffix s))"
proof (cases "read_string (wlit ''view_name'') v")
  case (Inl e)
  then have "string_field (wlit ''view_name'') v = Inl e"
    using string_field_agrees [OF sorted_json_fields [OF assms], of "wlit ''view_name''"]
    by (simp add: agrees_def)
  with Inl show ?thesis by (simp add: parse_view_item_def read_view_def)
next
  case (Inr o1)
  then obtain v1 where v1: "string_field (wlit ''view_name'') v = Inr (o1, v1)" "sorted_fields v1"
      and same: "\<And>k. get_field k v1 = get_field k v"
    using string_field_agrees [OF sorted_json_fields [OF assms], of "wlit ''view_name''"]
    by (auto elim: agrees_Inr)
  obtain n s1 where n: "view_name o1 s = (n, s1)" by fastforce
  have s1: "only_shows s s1" "suffix s1 = (if o1 = None then suffix s + 1 else suffix s)"
    using n by (simp_all add: only_shows_view_name suffix_view_name)
  have n_eq: "n = (case o1 of Some name \<Rightarrow> name | None \<Rightarrow> wlit ''unknow'' @ to_wstring (unat (suffix s + 1)))"
    using n by (auto simp: view_name_def Let_def split: option.splits)
  have info: "agrees v1 (read_array (wlit ''info'') v) (array_field (wlit ''info'') v1)"
    using array_field_agrees [OF v1(2)] read_cong(2) [OF same] by metis
  show ?thesis
  proof (cases "read_array (wlit ''info'') v")
    case (Inl e)
    then show ?thesis using info Inr v1 n s1
      by (simp add: parse_view_item_def read_view_def agrees_def)
  next
    case (Inr oa)
    note ra = this
    from Inr info obtain v2 where v2: "array_field (wlit ''info'') v1 = Inr (oa, v2)"
      by (auto elim: agrees_Inr)
    show ?thesis
    proof (cases oa)
      case None
      have "only_shows s (showwarning (MsgFetch NoInfo) s1)"
        using s1(1) by (rule only_shows_trans) simp
      then show ?thesis using None ra \<open>read_string _ v = Inr o1\<close> v1 v2 n s1
        by (simp add: parse_view_item_def read_view_def name_views_Cons)
    next
      case (Some vs)
      have "get_field (wlit ''info'') v = Some (JArray vs)"
        using ra Some by (auto simp: read_array_def split: option.splits json.splits)
      then have "\<forall>w \<in> set vs. sorted_fields w"
        using sorted_json_get_field [OF assms] sorted_json_fields by fastforce
      then have items: "case parse_ip_items vs [] s1 of (r, m', s') \<Rightarrow>
          only_shows s1 s' \<and> suffix s' = suffix s1 \<and>
          (case read_items vs of Inl e \<Rightarrow> r = Inl e | Inr es \<Rightarrow> r = Inr () \<and> m' = um_inserts es [])"
        by (rule parse_ip_items_reads)
      obtain r3 m3 s3 where p3: "parse_ip_items vs [] s1 = (r3, m3, s3)" by (metis prod_cases3)
      have "only_shows s s3" using items p3 s1(1) by (auto intro: only_shows_trans)
      then show ?thesis using items p3 ra Some \<open>read_string _ v = Inr o1\<close> v1 v2 n s1
        by (auto simp: parse_view_item_def read_view_def name_views_Cons n_eq split: sum.splits)
    qed
  qed
qed

lemma parse_view_items_reads:
  assumes "\<forall>v \<in> set vs. sorted_json v"
  shows "case parse_view_items vs m s of (r, m', s') \<Rightarrow>
    only_shows s s' \<and>
    (case read_views vs of
       Inl e \<Rightarrow> r = Inl e
     | Inr ws \<Rightarrow> r = Inr () \<and> m' = um_inserts (name_views (suffix s) ws) m)"
  using assms
proof (induction vs arbitrary: m s)
  case Nil
  show ?case by simp
next
  case (Cons v vs)
  obtain r1 m1 s1 where p1: "parse_view_item v m s = (r1, m1, s1)" by (metis prod_cases3)
  obtain r2 m2 s2 where p2: "parse_view_items vs m1 s1 = (r2, m2, s2)" by (metis prod_cases3)
  have head: "case (r1, m1, s1) of (r, m', s') \<Rightarrow>
    only_shows s s' \<and>
    (case read_view v of
       Inl e \<Rightarrow> r = Inl e
     | Inr w \<Rightarrow> r = Inr () \<and> m' = um_inserts (name_views (suffix s) [w]) m
                \<and> suffix s' = (if fst w = None then suffix s + 1 else suffix s))"
    using parse_view_item_reads [of v s m] Cons.prems p1 by simp
  have tail: "case (r2, m2, s2) of (r, m', s') \<Rightarrow>
    only_shows s1 s' \<and>
    (case read_views vs of
       Inl e \<Rightarrow> r = Inl e
     | Inr ws \<Rightarrow> r = Inr () \<and> m' = um_inserts (name_views (suffix s1) ws) m1)"
    using Cons.IH [of s1 m1] Cons.prems p2 by simp
  show ?case
  proof (cases "read_view v")
    case (Inl e)
    with head show ?thesis by (simp add: p1)
  next
    case (Inr w)
    with head have "r1 = Inr ()" by simp
    then have run: "parse_view_items (v # vs) m s = (r2, m2, s2)" by (simp add: p1 p2)
    have quiet: "only_shows s s2" using head tail by (auto intro: only_shows_trans)
    have split: "name_views (suffix s) (w # ws) = name_views (suffix s) [w] @ name_views (suffix s1) ws" for ws
      using head Inr by (simp only: name_views_split [of "suffix s" w ws] prod.case sum.case)
    show ?thesis
      unfolding run using Inr head tail quiet split [of "projr (read_views vs)"]
      by (cases "read_views vs") simp_all
  qed
qed

lemma parse_respond_reads:
  assumes "sorted_json v"
  shows "case parse_respond v m s of (r, m', s') \<Rightarrow>
    only_shows s s' \<and>
    (case read_respond v of
       Inl e \<Rightarrow> r = Inl e
     | Inr (Inl c) \<Rightarrow> r = Inr c \<and> m' = m
     | Inr (Inr ws) \<Rightarrow> r = Inr result_success \<and> m' = um_inserts (name_views (suffix s) ws) m)"
proof (cases "read_string (wlit ''status'') v")
  case (Inl e)
  then have "string_field (wlit ''status'') v = Inl e"
    using string_field_agrees [OF sorted_json_fields [OF assms], of "wlit ''status''"]
    by (simp add: agrees_def)
  with Inl show ?thesis by (simp add: parse_respond_def read_respond_def)
next
  case (Inr o1)
  then obtain v1 where v1: "string_field (wlit ''status'') v = Inr (o1, v1)" "sorted_fields v1"
      and same: "\<And>k. get_field k v1 = get_field k v"
    using string_field_agrees [OF sorted_json_fields [OF assms], of "wlit ''status''"]
    by (auto elim: agrees_Inr)
  have data: "agrees v1 (read_array (wlit ''data'') v) (array_field (wlit ''data'') v1)"
    using array_field_agrees [OF v1(2)] read_cong(2) [OF same] by metis
  show ?thesis
  proof (cases "o1 = Some (wlit ''success'')")
    case False
    with Inr v1 show ?thesis
      by (cases o1) (simp_all add: parse_respond_def read_respond_def)
  next
    case True
    show ?thesis
    proof (cases "read_array (wlit ''data'') v")
      case (Inl e)
      with data Inr v1 True show ?thesis
        by (simp add: parse_respond_def read_respond_def agrees_def)
    next
      case (Inr oa)
      with data obtain v2 where v2: "array_field (wlit ''data'') v1 = Inr (oa, v2)"
        by (auto elim: agrees_Inr)
      show ?thesis
      proof (cases oa)
        case None
        with Inr v2 \<open>read_string _ v = Inr o1\<close> v1 True show ?thesis
          by (simp add: parse_respond_def read_respond_def)
      next
        case (Some vs)
        have "get_field (wlit ''data'') v = Some (JArray vs)"
          using Inr Some by (auto simp: read_array_def split: option.splits json.splits)
        then have "\<forall>w \<in> set vs. sorted_json w"
          using sorted_json_get_field [OF assms] by fastforce
        then have "case parse_view_items vs m s of (r, m', s') \<Rightarrow>
            only_shows s s' \<and>
            (case read_views vs of
               Inl e \<Rightarrow> r = Inl e
             | Inr ws \<Rightarrow> r = Inr () \<and> m' = um_inserts (name_views (suffix s) ws) m)"
          by (rule parse_view_items_reads)
        moreover obtain r3 m3 s3 where p3: "parse_view_items vs m s = (r3, m3, s3)" by (metis prod_cases3)
        ultimately show ?thesis using Inr Some v2 \<open>read_string _ v = Inr o1\<close> v1 True
          by (cases "read_views vs") (simp_all add: parse_respond_def read_respond_def)
      qed
    qed
  qed
qed

section \<open>What every answer guarantees\<close>

text \<open>
  The facts below hold for any answer, of whatever shape: the keys of both maps stay distinct, and
  the parser touches nothing but the messages and the counter.
\<close>

definition wf_dns_map :: "dns_map \<Rightarrow> bool" where
  "wf_dns_map m \<longleftrightarrow> distinct (map fst m) \<and> list_all (\<lambda>(_, es). distinct (map fst es)) m"

lemma wf_dns_map_Nil [simp]: "wf_dns_map []"
  by (simp add: wf_dns_map_def)

lemma wf_dns_map_um_insert:
  "wf_dns_map m \<Longrightarrow> distinct (map fst es) \<Longrightarrow> wf_dns_map (um_insert name es m)"
  by (auto simp: wf_dns_map_def um_insert_def)

lemma parse_ip_item_guarantee:
  "parse_ip_item v m s = (r, m', s') \<Longrightarrow>
     only_shows s s' \<and> (distinct (map fst m) \<longrightarrow> distinct (map fst m'))"
  by (auto simp: parse_ip_item_def distinct_um_insert split: sum.splits option.splits)

lemma parse_ip_items_guarantee:
  "parse_ip_items vs m s = (r, m', s') \<Longrightarrow>
     only_shows s s' \<and> (distinct (map fst m) \<longrightarrow> distinct (map fst m'))"
proof (induction vs arbitrary: m s)
  case (Cons v vs)
  then show ?case
    by (auto split: prod.splits sum.splits dest!: parse_ip_item_guarantee Cons.IH intro: only_shows_trans)
qed simp

lemma parse_view_item_guarantee:
  assumes "parse_view_item v m s = (r, m', s')"
  shows "only_shows s s' \<and> (wf_dns_map m \<longrightarrow> wf_dns_map m')"
  using assms unfolding parse_view_item_def
  by (auto split: sum.splits prod.splits option.splits intro!: wf_dns_map_um_insert
      intro: only_shows_trans only_shows_view_name
      dest!: parse_ip_items_guarantee only_shows_view_name)

lemma parse_view_items_guarantee:
  "parse_view_items vs m s = (r, m', s') \<Longrightarrow> only_shows s s' \<and> (wf_dns_map m \<longrightarrow> wf_dns_map m')"
proof (induction vs arbitrary: m s)
  case (Cons v vs)
  then show ?case
    by (auto split: prod.splits sum.splits dest!: parse_view_item_guarantee Cons.IH intro: only_shows_trans)
qed simp

lemma parse_respond_guarantee:
  "parse_respond v m s = (r, m', s') \<Longrightarrow> only_shows s s' \<and> (wf_dns_map m \<longrightarrow> wf_dns_map m')"
  unfolding parse_respond_def
  by (auto split: sum.splits prod.splits option.splits if_splits dest!: parse_view_items_guarantee)

lemma handle_respond_guarantee:
  "handle_respond v m s = (r, m', s') \<Longrightarrow> only_shows s s' \<and> (wf_dns_map m \<longrightarrow> wf_dns_map m')"
  unfolding handle_respond_def
  by (auto split: sum.splits prod.splits if_splits dest!: parse_respond_guarantee
      dest: only_shows_before)

lemma handle_respond_fst: "apfst Inr (handle_respond v m s) = (r, p) \<Longrightarrow> handle_respond v m s = (projr r, p)"
  by (cases "handle_respond v m s") auto

text \<open>\<open>fetch\<close> makes one request and otherwise only shows messages.\<close>

definition fetch_events :: "event list \<Rightarrow> bool" where
  "fetch_events es \<longleftrightarrow>
     (\<exists>fs. es = Showlog (MsgFetch RequestList) # HttpGet NETWORK_INTERFACE # fs \<and> list_all is_show fs)"

lemma fetch_guarantee:
  assumes "fetch os m s = (r, m', s')"
  shows "wd s' = snd (os_http_get os NETWORK_INTERFACE (wd s))"
    and "extends s s'" and "fetch_events (new_events s s')" and "wf_dns_map m \<Longrightarrow> wf_dns_map m'"
proof -
  define s1 where "s1 = snd (call (os_http_get os NETWORK_INTERFACE)
      (emit (HttpGet NETWORK_INTERFACE) (showlog (MsgFetch RequestList) s)))"
  have s1: "tr s1 = tr s @ [Showlog (MsgFetch RequestList), HttpGet NETWORK_INTERFACE]"
    "wd s1 = snd (os_http_get os NETWORK_INTERFACE (wd s))"
    by (simp_all add: s1_def)
  have "only_shows s1 s' \<and> (wf_dns_map m \<longrightarrow> wf_dns_map m')"
    using assms unfolding fetch_def Let_def
    by (auto simp: s1_def split: prod.splits http_answer.splits json_body.splits if_splits
        dest!: handle_respond_guarantee [OF handle_respond_fst] dest: only_shows_before)
  then obtain fs where "tr s' = tr s1 @ fs" "list_all is_show fs" "wd s' = wd s1"
    and wf: "wf_dns_map m \<Longrightarrow> wf_dns_map m'"
    by (auto simp: only_shows_def)
  then have "tr s' = tr s @ (Showlog (MsgFetch RequestList) # HttpGet NETWORK_INTERFACE # fs)"
    by (simp add: s1)
  then show "extends s s'" "fetch_events (new_events s s')"
    using \<open>list_all is_show fs\<close> by (auto simp: fetch_events_def intro: extendsI dest: new_eventsI)
  show "wd s' = snd (os_http_get os NETWORK_INTERFACE (wd s))"
    using \<open>wd s' = wd s1\<close> s1 by simp
  show "wf_dns_map m \<Longrightarrow> wf_dns_map m'" by (rule wf)
qed

section \<open>The interface to the selector\<close>

text \<open>
  What the selector relies on: a fetch that returns only shows messages and requests the list, and the map it
  fills has distinct keys.
\<close>

locale dns_source =
  fixes source :: "dns_map \<Rightarrow> ('w, 'm) st_scheme \<Rightarrow> (result \<times> dns_map \<times> ('w, 'm) st_scheme) option"
  assumes source_extends: "source m s = Some (r, m', s') \<Longrightarrow> extends s s'"
    and source_events: "source m s = Some (r, m', s') \<Longrightarrow> fetch_events (new_events s s')"
    and source_wf: "source m s = Some (r, m', s') \<Longrightarrow> wf_dns_map m \<Longrightarrow> wf_dns_map m'"
begin

lemma source_acts: "source m s = Some (r, m', s') \<Longrightarrow> acts s' = acts s @ [HttpGet NETWORK_INTERFACE]"
  using source_extends [of m s r m' s'] source_events [of m s r m' s']
  by (auto simp: fetch_events_def acts_new_events actions_shows)

lemma source_held: "source m s = Some (r, m', s') \<Longrightarrow> held q s' = held q s"
  using source_extends [of m s r m' s'] source_events [of m s r m' s']
  by (auto simp: fetch_events_def held_new_events balance_shows)

end

text \<open>A request for the selector, which goes on only after a result: no clause of its callers catches an exception.\<close>

definition fetched :: "(range_error + result) \<times> dns_map \<times> 's \<Rightarrow> (result \<times> dns_map \<times> 's) option" where
  "fetched a = (case a of (Inr res, m, s) \<Rightarrow> Some (res, m, s) | (Inl _, _, _) \<Rightarrow> None)"

lemma fetched_Some [simp]: "fetched a = Some (res, m, s) \<longleftrightarrow> a = (Inr res, m, s)"
  by (auto simp: fetched_def split: prod.split sum.split)

lemma fetched_Inr [simp]: "fetched (Inr res, p) = Some (res, p)"
  by (cases p) simp

text \<open>No answer has a body that is not UTF-8.\<close>

definition answers_utf8 :: "'w os \<Rightarrow> bool" where
  "answers_utf8 os \<longleftrightarrow> (\<forall>w e. fst (os_http_get os NETWORK_INTERFACE w) \<noteq> HttpResponse 200 (BodyRangeError e))"

lemma fetched_None:
  "fetched (fetch os m s) = None \<longleftrightarrow> (\<exists>e. fst (os_http_get os NETWORK_INTERFACE (wd s)) = HttpResponse 200 (BodyRangeError e))"
proof -
  obtain ans w where ans: "os_http_get os NETWORK_INTERFACE (wd s) = (ans, w)" by fastforce
  have inr: "fetched (apfst Inr p) \<noteq> None" for p by (cases p) (simp add: fetched_def)
  show ?thesis
    by (cases ans; cases "case ans of HttpResponse c b \<Rightarrow> b | _ \<Rightarrow> BodyHttpException")
      (auto simp: fetch_def Let_def call_def ans inr [simplified] fetched_def [of "(Inl _, _)"])
qed

lemma fetch_returns: "answers_utf8 os \<Longrightarrow> \<exists>r m' s'. fetch os m s = (Inr r, m', s')"
  using fetched_None [of os m s] by (auto simp: answers_utf8_def)

interpretation fetcher: dns_source "\<lambda>m s. fetched (fetch os m s)" for os
  by unfold_locales (auto dest: fetch_guarantee)

section \<open>A server's document\<close>

text \<open>The document of a list of views, as the server writes it.\<close>

definition encode_item :: "wstring \<times> wstring \<Rightarrow> json" where
  "encode_item e = JObject [(wlit ''uptime'', JString (snd e)), (wlit ''vip'', JString (fst e))]"

definition encode_view :: "wstring \<times> entries \<Rightarrow> json" where
  "encode_view w = JObject [(wlit ''info'', JArray (map encode_item (snd w))),
                            (wlit ''view_name'', JString (fst w))]"

definition encode_respond :: "(wstring \<times> entries) list \<Rightarrow> json" where
  "encode_respond ws = JObject [(wlit ''data'', JArray (map encode_view ws)),
                                (wlit ''status'', JString (wlit ''success''))]"

lemma sorted_keys:
  "wlit ''uptime'' \<le> wlit ''vip''" "wlit ''info'' \<le> wlit ''view_name''" "wlit ''data'' \<le> wlit ''status''"
  by (simp_all add: wstr_simps of_char_def)

lemma sorted_json_encode: "sorted_json (encode_respond ws)"
  by (auto simp: encode_respond_def encode_view_def encode_item_def sorted_keys)

lemma read_items_encode: "read_items (map encode_item es) = Inr es"
  by (induction es) (auto simp: read_item_def read_string_def encode_item_def)

lemma read_views_encode:
  "read_views (map encode_view ws) = Inr (map (\<lambda>(name, es). (Some name, Some es)) ws)"
  by (induction ws)
    (auto simp: read_view_def read_string_def read_array_def encode_view_def read_items_encode)

lemma read_respond_encode:
  "read_respond (encode_respond ws) = Inr (Inr (map (\<lambda>(name, es). (Some name, Some es)) ws))"
  by (simp add: read_respond_def read_string_def read_array_def encode_respond_def read_views_encode)

lemma name_views_named:
  "name_views n (map (\<lambda>(name, es). (Some name, Some es)) ws) = map (\<lambda>(name, es). (name, um_inserts es [])) ws"
  by (induction ws) auto

section \<open>Properties\<close>

lemma handle_respond_null: "handle_respond JNull m s = (result_network_interface_http_request_fail, m, s)"
  by (simp add: handle_respond_def)

lemma handle_respond_result:
  assumes "sorted_json v" "v \<noteq> JNull"
  shows "fst (handle_respond v m s) =
      (case read_respond v of Inl _ \<Rightarrow> result_network_interface_respond_parse_fail
       | Inr (Inl c) \<Rightarrow> c | Inr (Inr _) \<Rightarrow> result_success)"
  using parse_respond_reads [OF assms(1), of "showlog (MsgFetch ParseList) s" m] assms(2)
  by (auto simp: handle_respond_def split: prod.splits sum.splits)


text \<open>A document that lists views with distinct names and, in each, servers with distinct
  addresses is parsed back to exactly these views, servers and uptimes, in their order, without a
  warning and without using the counter of unnamed views.\<close>

theorem parse_respond_roundtrip:
  assumes "distinct (map fst ws)" "\<forall>(name, es) \<in> set ws. distinct (map fst es)"
  shows "fst (parse_respond (encode_respond ws) [] s) = Inr result_success
    \<and> fst (snd (parse_respond (encode_respond ws) [] s)) = ws
    \<and> only_shows s (snd (snd (parse_respond (encode_respond ws) [] s)))"
proof -
  have "um_inserts es [] = es" if "(name, es) \<in> set ws" for name es
    using assms(2) that um_inserts_append [of "[]" es] by auto
  then have "name_views (suffix s) (map (\<lambda>(name, es). (Some name, Some es)) ws) = ws"
    unfolding name_views_named by (intro map_idI) auto
  moreover have "um_inserts ws [] = ws"
    using assms(1) um_inserts_append [of "[]" ws] by simp
  ultimately show ?thesis
    using parse_respond_reads [OF sorted_json_encode, of s "[]" ws]
    by (auto simp: read_respond_encode split: prod.splits)
qed

theorem parse_respond_roundtrip_witness:
  "fst (parse_respond (encode_respond [(wlit ''v'', [(wlit ''1.2.4.8'', wlit ''9'')])]) [] demo_st)
     = Inr result_success"
  using parse_respond_roundtrip [of "[(wlit ''v'', [(wlit ''1.2.4.8'', wlit ''9'')])]" demo_st] by simp

text \<open>C31: The result of a request, for every answer of the server: a network failure, a status other
  than 200 or a null body is \<open>http_request_fail\<close>; a body that cannot be read as the document is
  \<open>respond_parse_fail\<close>; a document that refuses or lacks the data has its own code; a body that is not UTF-8, under
  status 200, has no result, for its \<open>range_error\<close> leaves the function; anything else is a success. The fields of
  the parsed objects are sorted, as the parser leaves them (\<open>answer_sorted\<close>).\<close>

theorem fetch_result:
  assumes "\<And>code v. fst (os_http_get os NETWORK_INTERFACE (wd s)) = HttpResponse code (BodyJson v)
    \<Longrightarrow> sorted_json v"
  shows "fst (fetch os m s) =
    (case fst (os_http_get os NETWORK_INTERFACE (wd s)) of
       HttpException \<Rightarrow> Inr result_network_interface_http_request_fail
     | HttpResponse code body \<Rightarrow>
         if code \<noteq> 200 then Inr result_network_interface_http_request_fail
         else (case body of
                 BodyJson v \<Rightarrow>
                   if v = JNull then Inr result_network_interface_http_request_fail
                   else (case read_respond v of
                           Inl _ \<Rightarrow> Inr result_network_interface_respond_parse_fail
                         | Inr (Inl c) \<Rightarrow> Inr c
                         | Inr (Inr _) \<Rightarrow> Inr result_success)
               | BodyRangeError e \<Rightarrow> Inl e
               | BodyHttpException \<Rightarrow> Inr result_network_interface_respond_parse_fail
               | BodyJsonException \<Rightarrow> Inr result_network_interface_respond_parse_fail))"
proof -
  obtain ans w where ans: "os_http_get os NETWORK_INTERFACE (wd s) = (ans, w)" by fastforce
  show ?thesis
    using assms
    by (cases ans; cases "case ans of HttpResponse c b \<Rightarrow> b | _ \<Rightarrow> BodyHttpException")
      (auto simp: fetch_def Let_def call_def ans handle_respond_result handle_respond_null split: sum.splits)
qed

theorem fetch_result_witness:
  "fst (fetch (demo_os (HttpResponse 200 (BodyJson (encode_respond []))) [] []) [] demo_st) = Inr result_success"
  by (subst fetch_result)
    (simp_all add: sorted_json_encode, simp add: read_respond_encode, simp add: encode_respond_def)

text \<open>C3: A successful request delivers what the document says and no more: every view name is bound
  to the entries of its first occurrence in the document, the unnamed views to numbered names, and
  nothing else is bound.\<close>

theorem fetch_delivers:
  assumes "os_http_get os NETWORK_INTERFACE (wd s) = (HttpResponse 200 (BodyJson v), w)"
    and "sorted_json v" and "read_respond v = Inr (Inr ws)"
  shows "fst (fetch os [] s) = Inr result_success
    \<and> map_of (fst (snd (fetch os [] s))) = map_of (name_views (suffix s) ws)
    \<and> wd (snd (snd (fetch os [] s))) = w"
proof -
  have "v \<noteq> JNull" using assms(3) by (auto simp: read_respond_def read_string_def)
  then show ?thesis
    using parse_respond_reads [OF assms(2), of "showlog (MsgFetch ParseList)
        ((emit (HttpGet NETWORK_INTERFACE) (showlog (MsgFetch RequestList) s))\<lparr>wd := w\<rparr>)" "[]"] assms
    by (auto simp: fetch_def Let_def call_def handle_respond_def map_of_um_inserts only_shows_def
        split: prod.splits)
qed

theorem fetch_delivers_witness:
  "map_of (fst (snd (fetch (demo_os (HttpResponse 200 (BodyJson
      (encode_respond [(wlit ''v'', [(wlit ''1.2.4.8'', wlit ''9'')])]))) [] []) [] demo_st))) (wlit ''v'')
     = Some [(wlit ''1.2.4.8'', wlit ''9'')]"
  using fetch_delivers [where s = demo_st and w = 0 and os = "demo_os (HttpResponse 200 (BodyJson
      (encode_respond [(wlit ''v'', [(wlit ''1.2.4.8'', wlit ''9'')])]))) [] []",
      OF _ sorted_json_encode read_respond_encode]
  by (simp add: um_insert_def)

text \<open>C32: Whatever the server answers, a request binds every view name once and every server address
  once per view, and does nothing beyond one GET and its messages.\<close>

theorem fetch_wf:
  "wf_dns_map (fst (snd (fetch os [] s)))
   \<and> fetch_events (new_events s (snd (snd (fetch os [] s))))
   \<and> wd (snd (snd (fetch os [] s))) = snd (os_http_get os NETWORK_INTERFACE (wd s))"
  using fetch_guarantee [of os "[]" s] by (metis prod.collapse wf_dns_map_Nil)


section \<open>From the bytes of the answer\<close>

lemma answer_bodies:
  assumes "field_sorter fsort"
  shows "answer_body fsort body =
    (case utf8_to_utf16 body of
       Inl e \<Rightarrow> Some (BodyRangeError e)
     | Inr str \<Rightarrow> (case the (parse_json fsort str) of Inl e \<Rightarrow> Some BodyJsonException | Inr v \<Rightarrow> Some (BodyJson v)))"
proof (cases "utf8_to_utf16 body")
  case (Inr str)
  obtain r where "parse_json fsort str = Some r" using parse_json_some [OF assms] by blast
  with Inr show ?thesis by (cases r) (auto simp: answer_body_def extract_utf8)
qed (simp add: answer_body_def extract_utf8)

lemma answer_sorted: "field_sorter fsort \<Longrightarrow> answer_body fsort body = Some (BodyJson v) \<Longrightarrow> sorted_json v"
  using parse_json_some [of fsort "case utf8_to_utf16 body of Inr str \<Rightarrow> str | _ \<Rightarrow> []"]
  by (auto simp: answer_bodies split: sum.splits)

text \<open>Bodies that escape. Every body is answered, and the exceptions that its bytes can cause are caught, and become
  results, unless the bytes are not UTF-8: exactly then \<open>range_error\<close>, which neither clause catches, leaves the
  function.\<close>
theorem escaping_bodies:
  assumes "field_sorter fsort"
    and "map_option (HttpResponse 200) (answer_body fsort body) = Some (fst (os_http_get os NETWORK_INTERFACE (wd s)))"
  shows "fst (fetch os m s) = Inl e \<longleftrightarrow> utf8_to_utf16 body = Inl e"
proof -
  obtain ans w where ans: "os_http_get os NETWORK_INTERFACE (wd s) = (ans, w)" by fastforce
  show ?thesis using assms(2)
    by (auto simp: answer_bodies [OF assms(1)] fetch_def Let_def call_def ans split: sum.splits)
qed

lemma bodies_answered: "field_sorter fsort \<Longrightarrow> \<exists>b. answer_body fsort body = Some b"
  by (auto simp: answer_bodies split: sum.split)

theorem escaping_bodies_witness:
  "\<exists>b e. answer_body ref_sort [0x80] = Some b \<and> fst (fetch (demo_os (HttpResponse 200 b) [] []) [] demo_st) = Inl e"
proof -
  obtain b where b: "answer_body ref_sort [0x80] = Some b" using bodies_answered [OF ref_fields.field_sorter_axioms] by blast
  obtain e where "utf8_to_utf16 [0x80] = Inl e" by (simp add: leading_byte_def)
  with b show ?thesis
    using escaping_bodies [OF ref_fields.field_sorter_axioms, of "[0x80]" "demo_os (HttpResponse 200 b) [] []" demo_st "[]" e]
    by auto
qed

text \<open>The characters of a document.\<close>

definition document_texts :: "(wstring \<times> entries) list \<Rightarrow> wstring list" where
  "document_texts ws = concat (map (\<lambda>w. fst w # concat (map (\<lambda>e. [fst e, snd e]) (snd w))) ws)"

lemma document_texts_in:
  "w \<in> set ws \<Longrightarrow> fst w \<in> set (document_texts ws)"
  "w \<in> set ws \<Longrightarrow> e \<in> set (snd w) \<Longrightarrow> fst e \<in> set (document_texts ws) \<and> snd e \<in> set (document_texts ws)"
  by (auto simp: document_texts_def)

lemma writable_encode:
  assumes "\<forall>w \<in> set (document_texts ws). WEOF \<notin> set w"
  shows "writable (encode_respond ws)"
proof -
  have keys: "WEOF \<notin> set (wlit ''uptime'')" "WEOF \<notin> set (wlit ''vip'')" "WEOF \<notin> set (wlit ''info'')"
    "WEOF \<notin> set (wlit ''view_name'')" "WEOF \<notin> set (wlit ''data'')" "WEOF \<notin> set (wlit ''status'')"
    "WEOF \<notin> set (wlit ''success'')" "wlit ''uptime'' \<noteq> wlit ''vip''" "wlit ''info'' \<noteq> wlit ''view_name''"
    "wlit ''data'' \<noteq> wlit ''status''"
    by (simp_all add: wstr_simps WEOF_def)
  have "writable (encode_view w)" if "w \<in> set ws" for w
  proof -
    have "writable (encode_item e)" if "e \<in> set (snd w)" for e
      using assms document_texts_in(2) [OF \<open>w \<in> set ws\<close> that] keys by (simp add: encode_item_def sorted_keys)
    moreover have "WEOF \<notin> set (fst w)" using assms document_texts_in(1) [OF that] by blast
    ultimately show ?thesis using keys by (simp add: encode_view_def sorted_keys)
  qed
  then show ?thesis using keys by (simp add: encode_respond_def sorted_keys)
qed

lemma foldr_max_le: "\<forall>x \<in> set xs. x \<le> n \<Longrightarrow> foldr max xs 0 \<le> (n :: nat)"
  by (induction xs) auto

lemma depth_encode: "depth (encode_respond ws) \<le> 128"
proof -
  have "depth (encode_item e) \<le> 1" for e by (simp add: encode_item_def)
  then have "depth (encode_view w) \<le> 3" for w
    using foldr_max_le [of "map depth (map encode_item (snd w))" 1] by (simp add: encode_view_def)
  then have "foldr max (map depth (map encode_view ws)) 0 \<le> 3" by (intro foldr_max_le) auto
  then show ?thesis by (simp add: encode_respond_def)
qed

text \<open>C4: From the bytes to the map. When the server answers with a list of views, written as a JSON text in UTF-8, a
  request delivers exactly these views with their servers and uptimes.\<close>
theorem document_delivered:
  assumes "field_sorter fsort" and "distinct (map fst ws)" and "\<forall>(name, es) \<in> set ws. distinct (map fst es)"
    and "\<forall>w \<in> set (document_texts ws). WEOF \<notin> set w"
    and "utf16_to_utf8 (serialize fdouble (encode_respond ws)) = Inr body"
    and "map_option (HttpResponse 200) (answer_body fsort body) = Some (fst (os_http_get os NETWORK_INTERFACE (wd s)))"
  shows "fst (fetch os [] s) = Inr result_success \<and> fst (snd (fetch os [] s)) = ws"
proof -
  have "parse_json fsort (serialize fdouble (encode_respond ws)) = Some (Inr (encode_respond ws))"
    by (rule written_read [OF assms(1) writable_encode [OF assms(4)] depth_encode])
  then have answer: "fst (os_http_get os NETWORK_INTERFACE (wd s)) = HttpResponse 200 (BodyJson (encode_respond ws))"
    using assms(6) by (simp add: answer_bodies [OF assms(1)] utf8_back [OF assms(5)])
  have "um_inserts es [] = es" if "(name, es) \<in> set ws" for name es
    using assms(3) that um_inserts_append [of "[]" es] by auto
  then have "name_views n (map (\<lambda>(name, es). (Some name, Some es)) ws) = ws" for n
    unfolding name_views_named by (intro map_idI) auto
  moreover have "um_inserts ws [] = ws" using assms(2) um_inserts_append [of "[]" ws] by simp
  moreover have "encode_respond ws \<noteq> JNull" by (simp add: encode_respond_def)
  ultimately show ?thesis
    using parse_respond_reads [OF sorted_json_encode, of "showlog (MsgFetch ParseList)
        (snd (call (os_http_get os NETWORK_INTERFACE) (emit (HttpGet NETWORK_INTERFACE) (showlog (MsgFetch RequestList) s))))" "[]" ws] answer
    by (auto simp: fetch_def Let_def call_def handle_respond_def read_respond_encode split: prod.splits)
qed


theorem document_delivered_witness:
  "\<exists>body. map_option (\<lambda>b. fst (snd (fetch (demo_os (HttpResponse 200 b) [] []) [] demo_st))) (answer_body ref_sort body)
     = Some [(wlit ''v'', [(wlit ''1'', wlit ''9'')])]"
proof -
  let ?ws = "[(wlit ''v'', [(wlit ''1'', wlit ''9'')])]"
  have ascii: "\<forall>c \<in> set (serialize (\<lambda>_. []) (encode_respond ?ws)). c \<le> 0x7F"
    by (simp add: encode_respond_def encode_view_def encode_item_def format_strings_agree format_string_def
        append_escape_string_def escape_char_def special_escapes_def wstr_simps)
  obtain body where body: "utf16_to_utf8 (serialize (\<lambda>_. []) (encode_respond ?ws)) = Inr body"
    using ascii_bytes [OF ascii] by blast
  have texts: "\<forall>w \<in> set (document_texts ?ws). WEOF \<notin> set w"
    by (simp add: document_texts_def wstr_simps WEOF_def)
  have "answer_body ref_sort body \<noteq> None"
    by (simp add: answer_bodies [OF ref_fields.field_sorter_axioms] utf8_back [OF body] split: sum.split)
  then obtain b where b: "answer_body ref_sort body = Some b" by blast
  have "fst (snd (fetch (demo_os (HttpResponse 200 b) [] []) [] demo_st)) = ?ws"
    using document_delivered [OF ref_fields.field_sorter_axioms _ _ texts body, of "demo_os (HttpResponse 200 b) [] []" demo_st] b
    by simp
  with b show ?thesis by auto
qed

end
