(* ===== verification/Wmi.thy ===== *)
theory Wmi
  imports State
begin

text \<open>
  \<open>wmi.cpp\<close>: reading the network adapters from WMI and setting the DNS servers of one. Every COM call
  is a field of \<open>os\<close>; the pointers the code tests against null are booleans (or the object itself),
  and every reference, variant, string and array the code acquires and releases is an event of the
  trace.
\<close>

section \<open>Adapters\<close>

record wmi_adapter_info =
  wmi_index :: u32
  wmi_interface_index :: u32
  wmi_description :: wstring
  wmi_mac_address :: wstring
  wmi_dhcp :: bool
  wmi_dns_1 :: wstring
  wmi_dns_2 :: wstring

text \<open>The default constructor.\<close>

definition new_wmi_adapter_info :: wmi_adapter_info where
  "new_wmi_adapter_info =
     \<lparr>wmi_index = -1, wmi_interface_index = -1, wmi_description = [], wmi_mac_address = [],
      wmi_dhcp = False, wmi_dns_1 = [], wmi_dns_2 = []\<rparr>"

definition VT_NULL :: u16 where
  "VT_NULL = 1"

definition VARIANT_TRUE :: u16 where
  "VARIANT_TRUE = -1"

definition RPC_E_TOO_LATE :: u32 where
  "RPC_E_TOO_LATE = 0x80010119"

text \<open>The two characters the code shows for an unknown name.\<close>

definition unknown_name :: wstring where
  "unknown_name = [0x672A, 0x77E5]"

section \<open>Reading one adapter\<close>

text \<open>\<open>Get\<close> delivers a variant when it succeeds, \<open>VariantClear\<close> gives it back.\<close>

definition get_property ::
  "string \<Rightarrow> class_object \<Rightarrow> ('w, 'm) st_scheme \<Rightarrow> (u32 \<times> variant) \<times> ('w, 'm) st_scheme" where
  "get_property name obj s =
     (let (hres, v) = obj (wlit name)
      in ((hres, v), if FAILED hres then s else emit (Acquire R_Variant) s))"

definition variant_clear :: "('w, 'm) st_scheme \<Rightarrow> ('w, 'm) st_scheme" where
  "variant_clear = emit (Release R_Variant)"

text \<open>
  The loop over \<open>DNSServerSearchOrder\<close>: \<open>n\<close> is the index, \<open>k\<close> the indices left up to \<open>cbElements\<close>,
  \<open>valid\<close> the number of strings read so far.
\<close>

fun dns_search_order ::
  "safearray \<Rightarrow> nat \<Rightarrow> nat \<Rightarrow> nat \<Rightarrow> wmi_adapter_info \<Rightarrow> ('w, 'm) st_scheme \<Rightarrow>
     wmi_adapter_info \<times> ('w, 'm) st_scheme" where
  "dns_search_order arr 0 n valid info s = (info, s)"
| "dns_search_order arr (Suc k) n valid info s =
     (case sa_element arr n of
        None \<Rightarrow> dns_search_order arr k (n + 1) valid info s
      | Some str_dns_ip \<Rightarrow>
          let s = emit (Acquire R_DnsBstr) s; valid = valid + 1
          in if valid = 1
             then dns_search_order arr k (n + 1) valid (info\<lparr>wmi_dns_1 := c_str str_dns_ip\<rparr>) s
             else if valid = 2 then (info\<lparr>wmi_dns_2 := c_str str_dns_ip\<rparr>, s)
             else dns_search_order arr k (n + 1) valid info s)"

text \<open>
  The body of the loop over the enumerator, after \<open>Next\<close> has delivered an object, in three steps of
  the code's order. \<open>None\<close> is a \<open>break\<close> (or the \<open>continue\<close> of \<open>do ... while (false)\<close>): the adapter
  is not listed.
\<close>

definition get_indices ::
  "class_object \<Rightarrow> wmi_adapter_info \<Rightarrow> ('w, 'm) st_scheme \<Rightarrow>
     wmi_adapter_info option \<times> ('w, 'm) st_scheme" where
  "get_indices obj info s =
     (let ((hres, v), s) = get_property ''IPEnabled'' obj s
      in if FAILED hres then (None, showerror (MsgWmi (CallFailed ''IPEnable'' hres)) s)
         else if vt v \<noteq> VT_NULL \<and> boolVal v = 0 then (None, variant_clear s)
         else
     let s = variant_clear s; ((hres, v), s) = get_property ''Index'' obj s
      in if FAILED hres then (None, showerror (MsgWmi (CallFailed ''Index'' hres)) s)
         else if \<not> (vt v \<noteq> VT_NULL \<and> intVal v \<noteq> -1) then (None, variant_clear s)
         else
     let info = info\<lparr>wmi_index := intVal v\<rparr>; s = variant_clear s;
         ((hres, v), s) = get_property ''InterfaceIndex'' obj s
      in if FAILED hres then (None, showerror (MsgWmi (CallFailed ''InterfaceIndex'' hres)) s)
         else if \<not> (vt v \<noteq> VT_NULL \<and> intVal v \<noteq> -1) then (None, variant_clear s)
         else (Some (info\<lparr>wmi_interface_index := intVal v\<rparr>), variant_clear s))"

text \<open>A string property with its default, as \<open>Description\<close> and \<open>MacAddress\<close> are read.\<close>

definition string_value :: "variant \<Rightarrow> wstring" where
  "string_value v =
     (case bstrVal v of
        Some b \<Rightarrow> if vt v \<noteq> VT_NULL then c_str b else unknown_name
      | None \<Rightarrow> unknown_name)"

definition get_names ::
  "class_object \<Rightarrow> wmi_adapter_info \<Rightarrow> ('w, 'm) st_scheme \<Rightarrow>
     wmi_adapter_info option \<times> ('w, 'm) st_scheme" where
  "get_names obj info s =
     (let ((hres, v), s) = get_property ''Description'' obj s
      in if FAILED hres then (None, showerror (MsgWmi (CallFailed ''Description'' hres)) s)
         else
     let info = info\<lparr>wmi_description := string_value v\<rparr>; s = variant_clear s;
         ((hres, v), s) = get_property ''MacAddress'' obj s
      in if FAILED hres then (None, showerror (MsgWmi (CallFailed ''MacAddress'' hres)) s)
         else (Some (info\<lparr>wmi_mac_address := string_value v\<rparr>), variant_clear s))"

definition get_servers ::
  "class_object \<Rightarrow> wmi_adapter_info \<Rightarrow> ('w, 'm) st_scheme \<Rightarrow>
     wmi_adapter_info option \<times> ('w, 'm) st_scheme" where
  "get_servers obj info s =
     (let ((hres, v), s) = get_property ''DHCPEnabled'' obj s
      in if FAILED hres then (None, showerror (MsgWmi (CallFailed ''DHCPEnabled'' hres)) s)
         else
     let info = info\<lparr>wmi_dhcp := (if vt v \<noteq> VT_NULL \<and> boolVal v \<noteq> -1 then boolVal v = VARIANT_TRUE else True)\<rparr>;
         s = variant_clear s;
         ((hres, v), s) = get_property ''DNSServerSearchOrder'' obj s
      in if FAILED hres then (None, showerror (MsgWmi (CallFailed ''DNSServerSearchOrder'' hres)) s)
         else
     let info = info\<lparr>wmi_dns_1 := [], wmi_dns_2 := []\<rparr>;
         (info, s) =
           (case parray v of
              Some arr \<Rightarrow>
                if vt v \<noteq> VT_NULL then dns_search_order arr (unat (cbElements arr)) 0 0 info s
                else (info, s)
            | None \<Rightarrow> (info, s))
      in (Some info, variant_clear s))"

definition read_adapter ::
  "class_object \<Rightarrow> ('w, 'm) st_scheme \<Rightarrow> wmi_adapter_info option \<times> ('w, 'm) st_scheme" where
  "read_adapter obj s =
     (case get_indices obj new_wmi_adapter_info s of
        (None, s) \<Rightarrow> (None, s)
      | (Some info, s) \<Rightarrow>
          (case get_names obj info s of
             (None, s) \<Rightarrow> (None, s)
           | (Some info, s) \<Rightarrow> get_servers obj info s))"

text \<open>
  The loop over the enumerator: each object is released after it was read; the last \<open>Next\<close> ends
  the loop, with an error or without.
\<close>

fun enum_adapters ::
  "class_object list \<Rightarrow> u32 \<Rightarrow> wmi_adapter_info list \<Rightarrow> ('w, 'm) st_scheme \<Rightarrow>
     wmi_adapter_info list \<times> ('w, 'm) st_scheme" where
  "enum_adapters [] hres vec s =
     (vec, if FAILED hres then showerror (MsgWmi (CallFailed ''enum adapter'' hres)) s else s)"
| "enum_adapters (obj # objs) hres vec s =
     (let (info, s) = read_adapter obj (emit (Acquire R_ClassObject) s);
          s = emit (Release R_ClassObject) s
      in enum_adapters objs hres (case info of None \<Rightarrow> vec | Some i \<Rightarrow> vec @ [i]) s)"

section \<open>The session with WMI\<close>

text \<open>
  The body of \<open>initliaze_wmi\<close>: the result, whether \<open>pSvc\<close> and \<open>pLoc\<close> are set, and the state.
\<close>

definition connect_wmi ::
  "'w os \<Rightarrow> ('w, 'm) st_scheme \<Rightarrow> result \<times> bool \<times> bool \<times> ('w, 'm) st_scheme" where
  "connect_wmi os s =
     (let (hres, s) = call (os_co_initialize os) s
      in if FAILED hres
         then (result_wmi_initialize_fail, False, False, showerror (MsgWmi (CallFailed ''CoInitializeEx'' hres)) s)
         else
     let (hres, s) = call (os_co_initialize_security os) (emit (Acquire R_Com) s)
      in if FAILED hres \<and> hres \<noteq> RPC_E_TOO_LATE
         then (result_wmi_initialize_fail, False, False, showerror (MsgWmi (CallFailed ''security'' hres)) s)
         else
     let ((hres, pLoc), s) = call (os_create_locator os) s; s = acquire_if pLoc R_Locator s
      in if FAILED hres
         then (result_wmi_initialize_fail, False, pLoc, showerror (MsgWmi (CallFailed ''IWbemLocator'' hres)) s)
         else
     let ((hres, pSvc), s) = call (os_connect_server os) s; s = acquire_if pSvc R_Services s
      in if FAILED hres
         then (result_wmi_initialize_fail, pSvc, pLoc, showerror (MsgWmi (CallFailed ''connect'' hres)) s)
         else
     let (hres, s) = call (os_set_proxy_blanket os) s
      in if FAILED hres
         then (result_wmi_initialize_fail, pSvc, pLoc, showerror (MsgWmi (CallFailed ''proxy blanket'' hres)) s)
         else (result_success, pSvc, pLoc, s))"

definition uninitialize_wmi :: "bool \<Rightarrow> bool \<Rightarrow> ('w, 'm) st_scheme \<Rightarrow> ('w, 'm) st_scheme" where
  "uninitialize_wmi pSvc pLoc s =
     emit (Release R_Com) (release_if pSvc R_Services (release_if pLoc R_Locator s))"

text \<open>On failure the function releases what it holds, and its callers still see the pointers.\<close>

definition initliaze_wmi ::
  "'w os \<Rightarrow> ('w, 'm) st_scheme \<Rightarrow> result \<times> bool \<times> bool \<times> ('w, 'm) st_scheme" where
  "initliaze_wmi os s =
     (let (res, pSvc, pLoc, s) = connect_wmi os s
      in if res \<noteq> result_success
         then (res, pSvc, pLoc, emit (Release R_Com) (release_if pSvc R_Services (release_if pLoc R_Locator s)))
         else (res, pSvc, pLoc, s))"

section \<open>The operations\<close>

definition get_adapter_list ::
  "'w os \<Rightarrow> wmi_adapter_info list \<Rightarrow> ('w, 'm) st_scheme \<Rightarrow>
     result \<times> wmi_adapter_info list \<times> ('w, 'm) st_scheme" where
  "get_adapter_list os vec s =
     (let (res, pSvc, pLoc, s) = initliaze_wmi os s;
          (res, vec, s) =
            (if res \<noteq> result_success then (res, vec, s)
             else let ((hres, pEnumerator), s) = call (os_exec_query os) s;
                      s = acquire_if (pEnumerator \<noteq> None) R_Enumerator s
                  in if FAILED hres
                     then (result_enum_adapter_fail, vec, showerror (MsgWmi (CallFailed ''query'' hres)) s)
                     else (case pEnumerator of
                             None \<Rightarrow> (result_enum_adapter_fail, vec, showerror (MsgWmi EnumeratorNull) s)
                           | Some en \<Rightarrow>
                               let (vec, s) = enum_adapters (en_objects en) (en_end en) vec s
                               in (result_success, vec, emit (Release R_Enumerator) s)))
      in (res, vec, uninitialize_wmi pSvc pLoc s))"

text \<open>The path of the instance: \<open>%d\<close> prints the unsigned index as a signed one.\<close>

definition instance_path :: "u32 \<Rightarrow> wstring" where
  "instance_path index = wlit ''Win32_NetworkAdapterConfiguration.index='' @ print_int (sint index)"

lemma instance_path_inj [simp]: "instance_path i = instance_path j \<longleftrightarrow> i = j"
  by (auto simp: instance_path_def intro: signed_word_eqI)

text \<open>
  The inner block of \<open>switch_adapter_dns\<close>: the result and which of \<open>pClsObj\<close>,
  \<open>pInParamsDefinition\<close>, \<open>pClassInstance\<close> and \<open>pOutParams\<close> are set.
\<close>

definition exec_switch ::
  "'w os \<Rightarrow> wstring \<Rightarrow> wstring list \<Rightarrow> ('w, 'm) st_scheme \<Rightarrow>
     result \<times> (bool \<times> bool \<times> bool \<times> bool) \<times> ('w, 'm) st_scheme" where
  "exec_switch os path ip_list s =
     (let fail = result_switch_dns_ip_fail;
          ((hres, cls), s) = call (os_get_object os) s; s = acquire_if cls R_ClassObject s
      in if FAILED hres
         then (fail, (cls, False, False, False), showerror (MsgWmi (CallFailed ''GetObject'' hres)) s)
         else
     let ((hres, par), s) = call (os_get_method os) s; s = acquire_if par R_InParams s
      in if FAILED hres
         then (fail, (cls, par, False, False), showerror (MsgWmi (CallFailed ''GetMethod'' hres)) s)
         else
     let ((hres, ins), s) = call (os_spawn_instance os) s; s = acquire_if ins R_ClassInstance s
      in if FAILED hres
         then (fail, (cls, par, ins, False), showerror (MsgWmi (CallFailed ''SpawnInstance'' hres)) s)
         else
     let (hres, s) = call (os_put os ip_list) s
      in if FAILED hres
         then (fail, (cls, par, ins, False), showerror (MsgWmi (CallFailed ''Put'' hres)) s)
         else
     let ((hres, out), s) = call (os_exec_method os path ip_list) (emit (ExecMethod path ip_list) s);
         s = acquire_if out R_OutParams s
      in if FAILED hres
         then (fail, (cls, par, ins, out), showerror (MsgWmi (ExecMethodFailed path hres)) s)
         else (result_success, (cls, par, ins, out), s))"

text \<open>
  \<open>SysAllocString\<close> three times, two \<open>CComBSTR\<close> and the array before the block; everything is freed
  behind it.
\<close>

definition switch_adapter_dns ::
  "'w os \<Rightarrow> u32 \<Rightarrow> wstring \<Rightarrow> wstring \<Rightarrow> ('w, 'm) st_scheme \<Rightarrow> result \<times> ('w, 'm) st_scheme" where
  "switch_adapter_dns os index str_dns_1 str_dns_2 s =
     (if str_dns_1 = [] \<or> str_dns_2 = []
      then (result_dns_ip_invalid, showlog (MsgWmi (DnsInvalid str_dns_1 str_dns_2)) s)
      else
     let (res, pSvc, pLoc, s) = initliaze_wmi os s;
         (res, s) =
           (if res \<noteq> result_success then (res, s)
            else let s = emits (replicate 5 (Acquire R_Bstr) @ [Acquire R_SafeArray]) s;
                     (res, (cls, par, ins, out), s) =
                       exec_switch os (instance_path index) [c_str str_dns_1, c_str str_dns_2] s;
                     s = emits (replicate 3 (Release R_Bstr) @ [Release R_SafeArray]) s;
                     s = release_if cls R_ClassObject s;
                     s = release_if par R_InParams s;
                     s = release_if ins R_ClassInstance s;
                     s = release_if out R_OutParams s
                 in (res, emits (replicate 2 (Release R_Bstr)) s))
     in (res, uninitialize_wmi pSvc pLoc s))"

section \<open>Reading an adapter, declaratively\<close>

text \<open>
  An object is listed when every property the code asks for can be read, IP is not acts off on
  it and both its numbers are there; its servers are the first two strings found at the indices
  below \<open>cbElements\<close>.
\<close>

definition readable :: "class_object \<Rightarrow> string \<Rightarrow> bool" where
  "readable obj name \<longleftrightarrow> \<not> FAILED (fst (obj (wlit name)))"

definition property :: "class_object \<Rightarrow> string \<Rightarrow> variant" where
  "property obj name = snd (obj (wlit name))"

definition adapter_properties :: "string list" where
  "adapter_properties = [''IPEnabled'', ''Index'', ''InterfaceIndex'', ''Description'', ''MacAddress'',
     ''DHCPEnabled'', ''DNSServerSearchOrder'']"

definition has_number :: "variant \<Rightarrow> bool" where
  "has_number v \<longleftrightarrow> vt v \<noteq> VT_NULL \<and> intVal v \<noteq> -1"

definition listed :: "class_object \<Rightarrow> bool" where
  "listed obj \<longleftrightarrow> list_all (readable obj) adapter_properties
     \<and> (vt (property obj ''IPEnabled'') = VT_NULL \<or> boolVal (property obj ''IPEnabled'') \<noteq> 0)
     \<and> has_number (property obj ''Index'') \<and> has_number (property obj ''InterfaceIndex'')"

text \<open>The strings of \<open>k\<close> indices from \<open>n\<close> on.\<close>

fun elements :: "safearray \<Rightarrow> nat \<Rightarrow> nat \<Rightarrow> wstring list" where
  "elements arr n 0 = []"
| "elements arr n (Suc k) =
     (case sa_element arr n of None \<Rightarrow> [] | Some d \<Rightarrow> [c_str d]) @ elements arr (n + 1) k"

definition server_strings :: "variant \<Rightarrow> wstring list" where
  "server_strings v =
     (case parray v of
        Some arr \<Rightarrow>
          if vt v = VT_NULL then []
          else elements arr 0 (unat (cbElements arr))
      | None \<Rightarrow> [])"

definition nth_or_empty :: "wstring list \<Rightarrow> nat \<Rightarrow> wstring" where
  "nth_or_empty xs i = (if i < length xs then xs ! i else [])"

definition described :: "class_object \<Rightarrow> wmi_adapter_info" where
  "described obj =
     \<lparr>wmi_index = intVal (property obj ''Index''),
      wmi_interface_index = intVal (property obj ''InterfaceIndex''),
      wmi_description = string_value (property obj ''Description''),
      wmi_mac_address = string_value (property obj ''MacAddress''),
      wmi_dhcp = (vt (property obj ''DHCPEnabled'') = VT_NULL \<or> boolVal (property obj ''DHCPEnabled'') = VARIANT_TRUE),
      wmi_dns_1 = nth_or_empty (server_strings (property obj ''DNSServerSearchOrder'')) 0,
      wmi_dns_2 = nth_or_empty (server_strings (property obj ''DNSServerSearchOrder'')) 1\<rparr>"

definition adapter_of :: "class_object \<Rightarrow> wmi_adapter_info option" where
  "adapter_of obj = (if listed obj then Some (described obj) else None)"

lemma get_property_eq:
  "get_property name obj s =
     ((fst (obj (wlit name)), property obj name), if readable obj name then emit (Acquire R_Variant) s else s)"
  by (simp add: get_property_def readable_def property_def split_beta)

lemma elements_eq: "elements arr n k = map c_str (List.map_filter (sa_element arr) [n..<n + k])"
proof (induction k arbitrary: n)
  case 0
  show ?case by (simp add: List.map_filter_def)
next
  case (Suc k)
  have "[n..<n + Suc k] = n # [Suc n..<Suc n + k]" using upt_conv_Cons [of n "n + Suc k"] by (simp del: upt_Suc)
  then have "List.map_filter (sa_element arr) [n..<n + Suc k] =
      (case sa_element arr n of None \<Rightarrow> [] | Some d \<Rightarrow> [d]) @ List.map_filter (sa_element arr) [Suc n..<Suc n + k]"
    by (simp only:) (simp add: List.map_filter_def split: option.split)
  with Suc.IH [of "Suc n"] show ?case by (simp split: option.split)
qed

lemma dns_search_order_servers:
  "valid < 2 \<Longrightarrow> fst (dns_search_order arr k n valid info s) =
     (let ds = elements arr n k
      in if valid = 0
         then info\<lparr>wmi_dns_1 := (if ds = [] then wmi_dns_1 info else ds ! 0),
                   wmi_dns_2 := (if length ds < 2 then wmi_dns_2 info else ds ! 1)\<rparr>
         else info\<lparr>wmi_dns_2 := (if ds = [] then wmi_dns_2 info else ds ! 0)\<rparr>)"
proof (induction arr k n valid info s rule: dns_search_order.induct)
  case (1 arr n valid info s)
  show ?case by simp
next
  case (2 arr k n valid info s)
  show ?case
  proof (cases "sa_element arr n")
    case None
    with 2 show ?thesis by simp
  next
    case (Some d)
    show ?thesis
    proof (cases "valid = 0")
      case True
      with 2 Some show ?thesis by (simp add: Let_def)
    next
      case False
      with 2 Some show ?thesis by auto
    qed
  qed
qed

lemma read_adapter_listed: "fst (read_adapter obj s) = adapter_of obj"
proof -
  have indices: "fst (get_indices obj info s) =
          (if readable obj ''IPEnabled'' \<and> readable obj ''Index'' \<and> readable obj ''InterfaceIndex''
              \<and> (vt (property obj ''IPEnabled'') = VT_NULL \<or> boolVal (property obj ''IPEnabled'') \<noteq> 0)
              \<and> has_number (property obj ''Index'') \<and> has_number (property obj ''InterfaceIndex'')
           then Some (info\<lparr>wmi_index := intVal (property obj ''Index''),
                            wmi_interface_index := intVal (property obj ''InterfaceIndex'')\<rparr>)
           else None)" for info s
    by (auto simp: get_indices_def get_property_eq readable_def has_number_def Let_def)
  have names: "fst (get_names obj info s) =
      (if readable obj ''Description'' \<and> readable obj ''MacAddress''
       then Some (info\<lparr>wmi_description := string_value (property obj ''Description''),
                        wmi_mac_address := string_value (property obj ''MacAddress'')\<rparr>)
       else None)" for info s
    by (auto simp: get_names_def get_property_eq readable_def Let_def)
  have servers: "fst (get_servers obj info s) =
      (if readable obj ''DHCPEnabled'' \<and> readable obj ''DNSServerSearchOrder''
       then Some (info\<lparr>wmi_dhcp := (vt (property obj ''DHCPEnabled'') = VT_NULL
                                       \<or> boolVal (property obj ''DHCPEnabled'') = VARIANT_TRUE),
                        wmi_dns_1 := nth_or_empty (server_strings (property obj ''DNSServerSearchOrder'')) 0,
                        wmi_dns_2 := nth_or_empty (server_strings (property obj ''DNSServerSearchOrder'')) 1\<rparr>)
       else None)" for info s
    by (auto simp: get_servers_def get_property_eq readable_def Let_def VARIANT_TRUE_def
        server_strings_def nth_or_empty_def dns_search_order_servers split_beta split: option.split)
  show ?thesis
    using indices [of new_wmi_adapter_info s]
    by (cases "get_indices obj new_wmi_adapter_info s")
      (auto simp: read_adapter_def adapter_of_def listed_def described_def adapter_properties_def
        new_wmi_adapter_info_def names servers split_beta split: option.split)
qed

section \<open>Resources\<close>

lemma variant_clear_simps [simp]:
  "held r (variant_clear s) = held r s - (if r = R_Variant then 1 else 0)"
  "acts (variant_clear s) = acts s"
  "extends s0 s \<Longrightarrow> extends s0 (variant_clear s)"
  by (auto simp: variant_clear_def)

text \<open>Reading an adapter returns every variant; the strings of its servers stay allocated.\<close>

lemma dns_search_order_keeps:
  "keeps {R_DnsBstr} s0 s \<Longrightarrow> keeps {R_DnsBstr} s0 (snd (dns_search_order arr k n valid info s))"
proof (induction arr k n valid info s rule: dns_search_order.induct)
  case (1 arr n valid info s)
  then show ?case by simp
next
  case (2 arr k n valid info s)
  have "keeps {R_DnsBstr} s0 (emit (Acquire R_DnsBstr) s)"
    using "2.prems" by (auto simp: keeps_def)
  with 2 show ?case by (auto simp: Let_def split: option.split)
qed

lemma dns_search_order_simps [simp]:
  "r \<noteq> R_DnsBstr \<Longrightarrow> held r (snd (dns_search_order arr k n valid info s)) = held r s"
  "acts (snd (dns_search_order arr k n valid info s)) = acts s"
  "extends s0 s \<Longrightarrow> extends s0 (snd (dns_search_order arr k n valid info s))"
  using dns_search_order_keeps [OF keeps_refl, of s arr k n valid info]
  by (auto simp: keeps_def intro: extends_trans)

lemma dns_search_order_leaks:
  "valid < 2 \<Longrightarrow> held R_DnsBstr (snd (dns_search_order arr k n valid info s))
     = held R_DnsBstr s + int (min (2 - valid) (length (elements arr n k)))"
proof (induction arr k n valid info s rule: dns_search_order.induct)
  case (1 arr n valid info s)
  show ?case by simp
next
  case (2 arr k n valid info s)
  show ?case
  proof (cases "sa_element arr n")
    case None
    with 2 show ?thesis by simp
  next
    case (Some d)
    with 2 show ?thesis by (cases "valid = 0") (auto simp: Let_def)
  qed
qed

lemma read_adapter_keeps: "keeps {R_DnsBstr} s (snd (read_adapter obj s))"
proof -
  have indices: "keeps {R_DnsBstr} s (snd (get_indices obj info s))" for info s
    by (auto simp: keeps_def get_indices_def get_property_eq readable_def Let_def)
  have names: "keeps {R_DnsBstr} s (snd (get_names obj info s))" for info s
    by (auto simp: keeps_def get_names_def get_property_eq readable_def Let_def)
  have servers: "keeps {R_DnsBstr} s (snd (get_servers obj info s))" for info s
    by (auto simp: keeps_def get_servers_def get_property_eq readable_def Let_def split_beta
        split: option.split)
  obtain r1 s1 where r1: "get_indices obj new_wmi_adapter_info s = (r1, s1)" by fastforce
  then have k1: "keeps {R_DnsBstr} s s1" using indices [of s new_wmi_adapter_info] by simp
  show ?thesis
  proof (cases r1)
    case None
    with r1 k1 show ?thesis by (simp add: read_adapter_def)
  next
    case (Some info)
    obtain r2 s2 where r2: "get_names obj info s1 = (r2, s2)" by fastforce
    then have "keeps {R_DnsBstr} s1 s2" using names [of s1 info] by simp
    with k1 have k2: "keeps {R_DnsBstr} s s2" by (rule keeps_trans)
    from r1 r2 Some k2 servers keeps_trans [OF k2] show ?thesis
      by (auto simp: read_adapter_def split: option.split)
  qed
qed

lemma enum_adapters_keeps:
  "keeps {R_DnsBstr} s (snd (enum_adapters objs hres vec s))"
proof (induction objs hres vec s rule: enum_adapters.induct)
  case (1 hres vec s)
  show ?case by (simp add: keeps_def)
next
  case (2 obj objs hres vec s)
  obtain info s1 where r: "read_adapter obj (emit (Acquire R_ClassObject) s) = (info, s1)" by fastforce
  have "keeps {R_DnsBstr} (emit (Acquire R_ClassObject) s) s1"
    using read_adapter_keeps [of "emit (Acquire R_ClassObject) s" obj] r by simp
  then have "keeps {R_DnsBstr} s (emit (Release R_ClassObject) s1)"
    by (auto simp: keeps_def intro: extends_trans [of s "emit (Acquire R_ClassObject) s"])
  moreover have "keeps {R_DnsBstr} (emit (Release R_ClassObject) s1)
      (snd (enum_adapters objs hres (case info of None \<Rightarrow> vec | Some i \<Rightarrow> vec @ [i])
        (emit (Release R_ClassObject) s1)))"
    using "2.IH" [OF r [symmetric]] by simp
  ultimately have "keeps {R_DnsBstr} s
      (snd (enum_adapters objs hres (case info of None \<Rightarrow> vec | Some i \<Rightarrow> vec @ [i])
        (emit (Release R_ClassObject) s1)))"
    by (rule keeps_trans)
  with r show ?case by (simp add: Let_def)
qed

lemma enum_adapters_listed:
  "fst (enum_adapters objs hres vec s) = vec @ List.map_filter adapter_of objs"
proof (induction objs hres vec s rule: enum_adapters.induct)
  case (1 hres vec s)
  show ?case by (simp add: List.map_filter_def)
next
  case (2 obj objs hres vec s)
  obtain info s1 where r: "read_adapter obj (emit (Acquire R_ClassObject) s) = (info, s1)" by fastforce
  then have "info = adapter_of obj"
    using read_adapter_listed [of obj "emit (Acquire R_ClassObject) s"] by simp
  then show ?case using r "2.IH" [OF r [symmetric] refl]
    by (simp add: Let_def List.map_filter_def split: option.split)
qed

text \<open>
  The session: a successful initialisation holds COM, the locator and the services it reports; a
  failed one reports pointers it has already released.
\<close>

lemma connect_wmi_held:
  assumes "connect_wmi os s = (res, pSvc, pLoc, s')"
  shows "extends s s' \<and> acts s' = acts s \<and>
    held r s' = held r s + of_bool (\<not> FAILED (fst (os_co_initialize os (wd s))) \<and> R_Com = r)
      + of_bool (pLoc \<and> R_Locator = r) + of_bool (pSvc \<and> R_Services = r)"
proof -
  obtain h1 t1 where c1: "call (os_co_initialize os) s = (h1, t1)" by (metis prod.exhaust)
  obtain h2 t2 where c2: "call (os_co_initialize_security os) (emit (Acquire R_Com) t1) = (h2, t2)"
    by (metis prod.exhaust)
  obtain h3 b3 t3 where c3: "call (os_create_locator os) t2 = ((h3, b3), t3)" by (metis prod.exhaust)
  obtain h4 b4 t4 where c4: "call (os_connect_server os) (acquire_if b3 R_Locator t3) = ((h4, b4), t4)"
    by (metis prod.exhaust)
  obtain h5 t5 where c5: "call (os_set_proxy_blanket os) (acquire_if b4 R_Services t4) = (h5, t5)"
    by (metis prod.exhaust)
  note fh = call_frames(1) [OF c1, of r] call_frames(1) [OF c2, of r] call_frames(1) [OF c3, of r]
    call_frames(1) [OF c4, of r] call_frames(1) [OF c5, of r]
  note fs = call_frames(2) [OF c1] call_frames(2) [OF c2] call_frames(2) [OF c3]
    call_frames(2) [OF c4] call_frames(2) [OF c5]
  note fe = call_frames(3) [OF c1, of s] call_frames(3) [OF c2, of s] call_frames(3) [OF c3, of s]
    call_frames(3) [OF c4, of s] call_frames(3) [OF c5, of s]
  note e = assms [unfolded connect_wmi_def Let_def c1 prod.case c2 c3 c4 c5]
  have "h1 = fst (os_co_initialize os (wd s))" by (rule call_frame(5) [OF c1])
  then have "held r s' = held r s + of_bool (\<not> FAILED (fst (os_co_initialize os (wd s))) \<and> R_Com = r)
      + of_bool (pLoc \<and> R_Locator = r) + of_bool (pSvc \<and> R_Services = r)"
    using e fh by (auto split: if_split_asm)
  moreover have "extends s s'" using e fe by (auto split: if_split_asm)
  moreover have "acts s' = acts s" using e fs by (auto split: if_split_asm)
  ultimately show ?thesis by blast
qed

text \<open>What the session leaves held: nothing after a success, less than nothing after a failure.\<close>

definition com_started :: "'w os \<Rightarrow> ('w, 'm) st_scheme \<Rightarrow> bool" where
  "com_started os s \<longleftrightarrow> \<not> FAILED (fst (os_co_initialize os (wd s)))"

definition wmi_ready :: "'w os \<Rightarrow> ('w, 'm) st_scheme \<Rightarrow> bool" where
  "wmi_ready os s \<longleftrightarrow> fst (initliaze_wmi os s) = result_success"

definition session_debt :: "resource \<Rightarrow> bool \<Rightarrow> bool \<Rightarrow> bool \<Rightarrow> int" where
  "session_debt r started pSvc pLoc =
     (if r = R_Com then (if started then 1 else 2)
      else if r = R_Locator \<and> pLoc \<or> r = R_Services \<and> pSvc then 1 else 0)"

lemma connect_wmi_started: "fst (connect_wmi os s) = result_success \<Longrightarrow> com_started os s"
  by (auto simp: connect_wmi_def Let_def call_beta split_beta com_started_def split: if_splits)

lemma wmi_ready_connect: "wmi_ready os s \<longleftrightarrow> fst (connect_wmi os s) = result_success"
  by (simp add: wmi_ready_def initliaze_wmi_def split_beta)

text \<open>The balance when the session is closed on the state \<open>s'\<close> the initialisation left.\<close>

lemma initliaze_uninitialize_held:
  assumes "initliaze_wmi os s = (res, pSvc, pLoc, s')"
  shows "extends s s'" "acts s' = acts s"
    and "held r (uninitialize_wmi pSvc pLoc s') = held r s'
      - (if r = R_Com \<or> r = R_Locator \<and> pLoc \<or> r = R_Services \<and> pSvc then 1 else 0)"
    and "wmi_ready os s \<Longrightarrow> held r s' = held r s
      + (if r = R_Com \<or> r = R_Locator \<and> pLoc \<or> r = R_Services \<and> pSvc then 1 else 0)"
    and "\<not> wmi_ready os s \<Longrightarrow> held r (uninitialize_wmi pSvc pLoc s') =
      held r s - session_debt r (com_started os s) pSvc pLoc"
proof -
  obtain res1 p l s1 where c: "connect_wmi os s = (res1, p, l, s1)" by (metis prod_cases4)
  note h = connect_wmi_held [OF c]
  have st: "com_started os s" if "res1 = result_success"
    using connect_wmi_started [of os s] c that by simp
  have ready: "wmi_ready os s \<longleftrightarrow> res1 = result_success"
    by (simp add: wmi_ready_connect c)
  show "extends s s'" "acts s' = acts s"
    using assms h by (auto simp: initliaze_wmi_def c split: if_splits)
  show "held r (uninitialize_wmi pSvc pLoc s') = held r s'
      - (if r = R_Com \<or> r = R_Locator \<and> pLoc \<or> r = R_Services \<and> pSvc then 1 else 0)"
    by (auto simp: uninitialize_wmi_def)
  show "held r s' = held r s
      + (if r = R_Com \<or> r = R_Locator \<and> pLoc \<or> r = R_Services \<and> pSvc then 1 else 0)"
    if "wmi_ready os s"
    using assms h [of r] st that by (auto simp: initliaze_wmi_def c ready com_started_def split: if_splits)
  show "held r (uninitialize_wmi pSvc pLoc s') = held r s - session_debt r (com_started os s) pSvc pLoc"
    if "\<not> wmi_ready os s"
    using assms h [of r] that
    by (auto simp: initliaze_wmi_def uninitialize_wmi_def session_debt_def com_started_def c ready
        split: if_splits)
qed

lemma uninitialize_wmi_simps [simp]:
  "acts (uninitialize_wmi p l s) = acts s"
  "extends s0 s \<Longrightarrow> extends s0 (uninitialize_wmi p l s)"
  by (simp_all add: uninitialize_wmi_def)

section \<open>The operations, by their outcome\<close>

text \<open>What \<open>ExecQuery\<close> answers once the session is open.\<close>

definition query_answer :: "'w os \<Rightarrow> ('w, 'm) st_scheme \<Rightarrow> u32 \<times> enumerator option" where
  "query_answer os s = fst (os_exec_query os (wd (snd (snd (snd (initliaze_wmi os s))))))"

lemma connect_wmi_fail:
  "fst (connect_wmi os s) = result_success \<or> fst (connect_wmi os s) = result_wmi_initialize_fail"
  by (simp add: connect_wmi_def Let_def call_beta split_beta)

lemma initliaze_wmi_fail:
  "fst (initliaze_wmi os s) = (if wmi_ready os s then result_success else result_wmi_initialize_fail)"
  using connect_wmi_fail [of os s] by (auto simp: wmi_ready_connect initliaze_wmi_def split_beta)

lemma get_adapter_list_outcome:
  "fst (get_adapter_list os vec s) =
     (if \<not> wmi_ready os s then result_wmi_initialize_fail
      else if FAILED (fst (query_answer os s)) \<or> snd (query_answer os s) = None then result_enum_adapter_fail
      else result_success)"
  "fst (snd (get_adapter_list os vec s)) =
     (if wmi_ready os s \<and> \<not> FAILED (fst (query_answer os s))
      then (case snd (query_answer os s) of
              None \<Rightarrow> vec
            | Some en \<Rightarrow> vec @ List.map_filter adapter_of (en_objects en))
      else vec)"
proof -
  obtain res p l s1 where i: "initliaze_wmi os s = (res, p, l, s1)" by (metis prod_cases4)
  have res: "res = (if wmi_ready os s then result_success else result_wmi_initialize_fail)"
    using initliaze_wmi_fail [of os s] i by simp
  have q: "query_answer os s = fst (os_exec_query os (wd s1))"
    by (simp add: query_answer_def i)
  show "fst (get_adapter_list os vec s) =
     (if \<not> wmi_ready os s then result_wmi_initialize_fail
      else if FAILED (fst (query_answer os s)) \<or> snd (query_answer os s) = None then result_enum_adapter_fail
      else result_success)"
    unfolding get_adapter_list_def i q
    by (simp add: res Let_def call_beta split_beta split: option.split)
  show "fst (snd (get_adapter_list os vec s)) =
     (if wmi_ready os s \<and> \<not> FAILED (fst (query_answer os s))
      then (case snd (query_answer os s) of
              None \<Rightarrow> vec
            | Some en \<Rightarrow> vec @ List.map_filter adapter_of (en_objects en))
      else vec)"
    unfolding get_adapter_list_def i q
    by (simp add: res Let_def call_beta split_beta enum_adapters_listed split: option.split)
qed

lemma enum_adapters_simps [simp]:
  "r \<noteq> R_DnsBstr \<Longrightarrow> held r (snd (enum_adapters objs hres vec s)) = held r s"
  "acts (snd (enum_adapters objs hres vec s)) = acts s"
  "extends s0 s \<Longrightarrow> extends s0 (snd (enum_adapters objs hres vec s))"
  using enum_adapters_keeps [of s objs hres vec] by (auto simp: keeps_def intro: extends_trans)

text \<open>Listing switches nothing, ready or not.\<close>

lemma get_adapter_list_acts:
  "acts (snd (snd (get_adapter_list os vec s))) = acts s
   \<and> extends s (snd (snd (get_adapter_list os vec s)))"
proof -
  obtain res p l s1 where i: "initliaze_wmi os s = (res, p, l, s1)" by (metis prod_cases4)
  show ?thesis
    using initliaze_uninitialize_held(1,2) [OF i]
    unfolding get_adapter_list_def i by (simp add: Let_def call_beta split_beta split: option.split)
qed

text \<open>The documented contract of \<open>ExecQuery\<close>: a failed call delivers no enumerator.\<close>

definition query_contract :: "'w os \<Rightarrow> bool" where
  "query_contract os \<longleftrightarrow>
     (\<forall>w. FAILED (fst (fst (os_exec_query os w))) \<longrightarrow> snd (fst (os_exec_query os w)) = None)"

lemma get_adapter_list_keeps:
  assumes "query_contract os"
  shows "wmi_ready os s \<Longrightarrow> keeps {R_DnsBstr} s (snd (snd (get_adapter_list os vec s)))"
proof -
  obtain res p l s1 where i: "initliaze_wmi os s = (res, p, l, s1)" by (metis prod_cases4)
  have res: "res = (if wmi_ready os s then result_success else result_wmi_initialize_fail)"
    using initliaze_wmi_fail [of os s] i by simp
  note h = initliaze_uninitialize_held [OF i]
  have contract: "snd (fst (os_exec_query os (wd s1))) = None" if "FAILED (fst (fst (os_exec_query os (wd s1))))"
    using assms that by (simp add: query_contract_def)
  show "keeps {R_DnsBstr} s (snd (snd (get_adapter_list os vec s)))" if "wmi_ready os s"
  proof -
    let ?X = "snd (snd (get_adapter_list os vec s))"
    have "held r ?X = held r s" if "r \<noteq> R_DnsBstr" for r
      unfolding get_adapter_list_def i
      using h(4) [OF \<open>wmi_ready os s\<close>, of r] res \<open>wmi_ready os s\<close> contract that
      by (auto simp: Let_def call_beta split_beta uninitialize_wmi_def split: option.split)
    then show ?thesis using get_adapter_list_acts [of os vec s] by (simp add: keeps_def)
  qed
qed

lemma get_adapter_list_debt:
  assumes "\<not> wmi_ready os s"
  shows "\<exists>p l. held r (snd (snd (get_adapter_list os vec s)))
      = held r s - session_debt r (com_started os s) p l"
proof -
  obtain res p l s1 where i: "initliaze_wmi os s = (res, p, l, s1)" by (metis prod_cases4)
  have "res \<noteq> result_success" using initliaze_wmi_fail [of os s] i assms by simp
  then show ?thesis
    unfolding get_adapter_list_def i using initliaze_uninitialize_held(5) [OF i assms, of r]
    by (auto simp: Let_def)
qed

lemma exec_switch_outcome:
  assumes "exec_switch os path ips s = (res, (cls, par, ins, out), s')"
  shows "extends s s'"
    and "held r s' = held r s + of_bool (cls \<and> R_ClassObject = r) + of_bool (par \<and> R_InParams = r)
      + of_bool (ins \<and> R_ClassInstance = r) + of_bool (out \<and> R_OutParams = r)"
    and "res = result_success \<or> res = result_switch_dns_ip_fail"
    and "acts s' = acts s \<and> res \<noteq> result_success \<or> acts s' = acts s @ [ExecMethod path ips]"
proof -
  obtain h1 b1 t1 where c1: "call (os_get_object os) s = ((h1, b1), t1)" by (metis prod.exhaust)
  obtain h2 b2 t2 where c2: "call (os_get_method os) (acquire_if b1 R_ClassObject t1) = ((h2, b2), t2)"
    by (metis prod.exhaust)
  obtain h3 b3 t3 where c3: "call (os_spawn_instance os) (acquire_if b2 R_InParams t2) = ((h3, b3), t3)"
    by (metis prod.exhaust)
  obtain h4 t4 where c4: "call (os_put os ips) (acquire_if b3 R_ClassInstance t3) = (h4, t4)"
    by (metis prod.exhaust)
  obtain h5 b5 t5 where c5: "call (os_exec_method os path ips) (emit (ExecMethod path ips) t4) = ((h5, b5), t5)"
    by (metis prod.exhaust)
  note fh = call_frames(1) [OF c1, of r] call_frames(1) [OF c2, of r] call_frames(1) [OF c3, of r]
    call_frames(1) [OF c4, of r] call_frames(1) [OF c5, of r]
  note fs = call_frames(2) [OF c1] call_frames(2) [OF c2] call_frames(2) [OF c3]
    call_frames(2) [OF c4] call_frames(2) [OF c5]
  note fe = call_frames(3) [OF c1, of s] call_frames(3) [OF c2, of s] call_frames(3) [OF c3, of s]
    call_frames(3) [OF c4, of s] call_frames(3) [OF c5, of s]
  note e = assms [unfolded exec_switch_def Let_def c1 prod.case c2 c3 c4 c5]
  show "extends s s'"
    using e fe by (auto split: if_split_asm)
  show "held r s' = held r s + of_bool (cls \<and> R_ClassObject = r) + of_bool (par \<and> R_InParams = r)
      + of_bool (ins \<and> R_ClassInstance = r) + of_bool (out \<and> R_OutParams = r)"
    using e fh by (auto split: if_split_asm split del: split_of_bool)
  show "res = result_success \<or> res = result_switch_dns_ip_fail"
    using e by (auto split: if_split_asm)
  show "acts s' = acts s \<and> res \<noteq> result_success \<or> acts s' = acts s @ [ExecMethod path ips]"
    using e fs by (auto split: if_split_asm)
qed

lemma switch_adapter_dns_empty:
  "d1 = [] \<or> d2 = [] \<Longrightarrow> switch_adapter_dns os index d1 d2 s =
     (result_dns_ip_invalid, showlog (MsgWmi (DnsInvalid d1 d2)) s)"
  by (simp add: switch_adapter_dns_def)

text \<open>The switch as the three phases: open the session, execute, close.\<close>

lemma switch_adapter_dns_cases:
  assumes "d1 \<noteq> []" "d2 \<noteq> []" "switch_adapter_dns os index d1 d2 s = (res, s')"
  shows "extends s s'"
    and "\<not> wmi_ready os s \<Longrightarrow> res = result_wmi_initialize_fail \<and> acts s' = acts s
      \<and> (\<exists>p l. held r s' = held r s - session_debt r (com_started os s) p l)"
    and "wmi_ready os s \<Longrightarrow> held r s' = held r s
      \<and> (res = result_success \<or> res = result_switch_dns_ip_fail)
      \<and> (acts s' = acts s \<and> res \<noteq> result_success
         \<or> acts s' = acts s @ [ExecMethod (instance_path index) [c_str d1, c_str d2]])"
proof -
  obtain ri p l s1 where i: "initliaze_wmi os s = (ri, p, l, s1)" by (metis prod_cases4)
  have ri: "ri = (if wmi_ready os s then result_success else result_wmi_initialize_fail)"
    using initliaze_wmi_fail [of os s] i by simp
  note h = initliaze_uninitialize_held [OF i]
  define s2 where "s2 = emits (replicate 5 (Acquire R_Bstr) @ [Acquire R_SafeArray]) s1"
  obtain re fl s3 where e3: "exec_switch os (instance_path index) [c_str d1, c_str d2] s2 = (re, fl, s3)"
    by (rule prod_cases3)
  obtain cls par ins out where fl: "fl = (cls, par, ins, out)" by (rule prod_cases4)
  note e = e3 [unfolded fl]
  note x = exec_switch_outcome [OF e]
  have s2: "extends s s2" "acts s2 = acts s"
    using h(1,2) by (simp_all add: s2_def acts_emits eval_nat_numeral)
  have run: "switch_adapter_dns os index d1 d2 s =
     (if ri \<noteq> result_success then (ri, uninitialize_wmi p l s1)
      else (re, uninitialize_wmi p l (emits (replicate 2 (Release R_Bstr))
        (release_if out R_OutParams (release_if ins R_ClassInstance (release_if par R_InParams
        (release_if cls R_ClassObject
          (emits (replicate 3 (Release R_Bstr) @ [Release R_SafeArray]) s3))))))))"
    using assms(1,2) by (simp add: switch_adapter_dns_def i Let_def e flip: s2_def)
  show "extends s s'"
    using run assms(3) h(1) extends_trans [OF s2(1) x(1)] by (auto split: if_splits)
  show "res = result_wmi_initialize_fail \<and> acts s' = acts s
      \<and> (\<exists>p l. held r s' = held r s - session_debt r (com_started os s) p l)" if "\<not> wmi_ready os s"
    using run assms(3) h(2) h(5) [OF that, of r] that by (auto simp: ri)
  show "held r s' = held r s
      \<and> (res = result_success \<or> res = result_switch_dns_ip_fail)
      \<and> (acts s' = acts s \<and> res \<noteq> result_success
         \<or> acts s' = acts s @ [ExecMethod (instance_path index) [c_str d1, c_str d2]])" if "wmi_ready os s"
  proof -
    have "held r s2 = held r s1 + balance r (replicate 5 (Acquire R_Bstr) @ [Acquire R_SafeArray])"
      by (simp add: s2_def)
    moreover have "res = re"
      "s' = uninitialize_wmi p l (emits (replicate 2 (Release R_Bstr))
        (release_if out R_OutParams (release_if ins R_ClassInstance (release_if par R_InParams
        (release_if cls R_ClassObject
          (emits (replicate 3 (Release R_Bstr) @ [Release R_SafeArray]) s3))))))"
      using run assms(3) that by (simp_all add: ri)
    ultimately show ?thesis
      using h(3) h(4) [OF that, of r] x(2) [of r] x(3,4) s2(2)
      by (auto simp: acts_emits uninitialize_wmi_def eval_nat_numeral)
  qed
qed

section \<open>A concrete adapter\<close>

text \<open>An object with every property, used at concrete inputs.\<close>

definition demo_variant :: "u32 \<Rightarrow> variant" where
  "demo_variant n = \<lparr>vt = 3, intVal = n, bstrVal = Some (wlit ''x''), parray = None\<rparr>"

definition demo_servers :: "wstring list \<Rightarrow> variant" where
  "demo_servers ds = \<lparr>vt = 8200, intVal = 0, bstrVal = None,
     parray = Some \<lparr>cbElements = 4, sa_element = (\<lambda>i. if i < length ds then Some (ds ! i) else None)\<rparr>\<rparr>"

definition demo_object :: "u32 \<Rightarrow> u32 \<Rightarrow> bool \<Rightarrow> wstring list \<Rightarrow> class_object" where
  "demo_object index ifindex dhcp ds name =
     (0, if name = wlit ''Index'' then demo_variant index
         else if name = wlit ''InterfaceIndex'' then demo_variant ifindex
         else if name = wlit ''DHCPEnabled'' then demo_variant (if dhcp then -1 else 0)
         else if name = wlit ''DNSServerSearchOrder'' then demo_servers ds
         else demo_variant 1)"

lemma FAILED_0 [simp]: "\<not> FAILED 0"
  by (simp add: FAILED_def)

lemma ucast_minus_1 [simp]: "(ucast (-1 :: u32) :: u16) = -1"
  by (rule bit_word_eqI) (auto simp: bit_simps)

lemma elements_4: "elements arr n 4 =
    (case sa_element arr n of None \<Rightarrow> [] | Some d \<Rightarrow> [c_str d])
  @ (case sa_element arr (n + 1) of None \<Rightarrow> [] | Some d \<Rightarrow> [c_str d])
  @ (case sa_element arr (n + 2) of None \<Rightarrow> [] | Some d \<Rightarrow> [c_str d])
  @ (case sa_element arr (n + 3) of None \<Rightarrow> [] | Some d \<Rightarrow> [c_str d])"
  by (simp add: eval_nat_numeral)

lemma adapter_of_demo_object:
  assumes "index \<noteq> -1" "ifindex \<noteq> -1" "length ds \<le> 4"
  shows "adapter_of (demo_object index ifindex dhcp ds) = Some
    \<lparr>wmi_index = index, wmi_interface_index = ifindex, wmi_description = wlit ''x'',
     wmi_mac_address = wlit ''x'', wmi_dhcp = dhcp,
     wmi_dns_1 = nth_or_empty (map c_str ds) 0, wmi_dns_2 = nth_or_empty (map c_str ds) 1\<rparr>"
proof -
  have "c_str (wlit ''x'') = wlit ''x''"
    by (rule c_str_id) (simp add: wstr_simps of_char_def)
  moreover have "elements \<lparr>cbElements = 4, sa_element = (\<lambda>i. if i < length ds then Some (ds ! i) else None)\<rparr> 0 4
      = map c_str ds"
    using assms(3) by (cases ds rule: remdups_adj.cases) (auto simp: elements_4 nth_Cons' le_Suc_eq length_Suc_conv eval_nat_numeral)
  ultimately show ?thesis using assms(1,2)
    by (auto simp: adapter_of_def listed_def described_def adapter_properties_def readable_def property_def
        demo_object_def demo_variant_def demo_servers_def has_number_def VT_NULL_def VARIANT_TRUE_def
        boolVal_def string_value_def server_strings_def)
qed

section \<open>Properties\<close>

lemma demo_wmi_ready [simp]: "wmi_ready (demo_os v objs rows) s"
  by (simp add: wmi_ready_connect connect_wmi_def Let_def call_beta split_beta FAILED_def)

lemma demo_query [simp]:
  "query_answer (demo_os v objs rows) s = (0, Some \<lparr>en_objects = objs, en_end = 1\<rparr>)"
  by (simp add: query_answer_def)

lemma demo_query_contract [simp]: "query_contract (demo_os v objs rows)"
  by (simp add: query_contract_def)

text \<open>C5: Once the session is open and the query is accepted, the list is exactly the adapters that
  can be read, in the order of the enumeration, each with the values of its properties and the first
  two of its servers; an enumeration that ends in an error still counts as a success. Nothing is
  acts and everything acquired is returned except the strings of the servers.\<close>

theorem get_adapter_list_lists:
  assumes "wmi_ready os s" and "query_answer os s = (hres, Some en)" and "\<not> FAILED hres"
    and "query_contract os"
  shows "fst (get_adapter_list os [] s) = result_success
    \<and> fst (snd (get_adapter_list os [] s)) = List.map_filter adapter_of (en_objects en)
    \<and> keeps {R_DnsBstr} s (snd (snd (get_adapter_list os [] s)))"
  using get_adapter_list_outcome [of os "[]" s] get_adapter_list_keeps [OF assms(4,1), of "[]"] assms
  by simp

theorem get_adapter_list_lists_witness:
  "map wmi_dns_1 (fst (snd (get_adapter_list
     (demo_os HttpException [demo_object 7 12 False [wlit ''1.2.4.8'', wlit ''8.8.8.8'']] []) [] demo_st)))
   = [c_str (wlit ''1.2.4.8'')]"
  using get_adapter_list_lists [OF demo_wmi_ready demo_query FAILED_0 demo_query_contract, of HttpException
    "[demo_object 7 12 False [wlit ''1.2.4.8'', wlit ''8.8.8.8'']]" "[]" demo_st]
  by (simp add: List.map_filter_def adapter_of_demo_object nth_or_empty_def)

text \<open>Every listing of an adapter leaves the strings of the servers it read allocated: one per
  server, two at most. They are copies made by \<open>SafeArrayGetElement\<close>, and no path frees them.\<close>

theorem read_adapter_leaks_servers:
  assumes "listed obj"
  shows "held R_DnsBstr (snd (read_adapter obj s)) = held R_DnsBstr s
    + int (min 2 (length (server_strings (property obj ''DNSServerSearchOrder''))))"
proof -
  have ok: "\<not> FAILED (fst (obj (wlit name)))" "readable obj name" if "name \<in> set adapter_properties" for name
    using assms that by (auto simp: listed_def adapter_properties_def readable_def)
  note ok = ok [unfolded adapter_properties_def]
  have indices: "get_indices obj info s = (Some (info\<lparr>wmi_index := intVal (property obj ''Index''),
      wmi_interface_index := intVal (property obj ''InterfaceIndex'')\<rparr>), snd (get_indices obj info s))
    \<and> held R_DnsBstr (snd (get_indices obj info s)) = held R_DnsBstr s" for info s
    using assms by (auto simp: get_indices_def get_property_eq ok Let_def listed_def has_number_def)
  have names: "\<exists>i. get_names obj info s = (Some i, snd (get_names obj info s))
    \<and> held R_DnsBstr (snd (get_names obj info s)) = held R_DnsBstr s" for info s
    by (simp add: get_names_def get_property_eq ok Let_def)
  have servers: "held R_DnsBstr (snd (get_servers obj info s)) = held R_DnsBstr s
    + int (min 2 (length (server_strings (property obj ''DNSServerSearchOrder''))))" for info s
    by (auto simp: get_servers_def get_property_eq ok Let_def split_beta server_strings_def
        dns_search_order_leaks split: option.split)
  obtain i1 s1 where r1: "get_indices obj new_wmi_adapter_info s = (Some i1, s1)"
      "held R_DnsBstr s1 = held R_DnsBstr s"
    using indices [of new_wmi_adapter_info s] by metis
  obtain i2 s2 where "get_names obj i1 s1 = (Some i2, s2)" "held R_DnsBstr s2 = held R_DnsBstr s1"
    using names [of i1 s1] by metis
  with r1 servers [of i2 s2] show ?thesis by (simp add: read_adapter_def)
qed

lemma listed_demo_object:
  "index \<noteq> -1 \<Longrightarrow> ifindex \<noteq> -1 \<Longrightarrow> listed (demo_object index ifindex dhcp ds)"
  by (auto simp: listed_def adapter_properties_def readable_def property_def
      demo_object_def demo_variant_def demo_servers_def has_number_def VT_NULL_def boolVal_def)

theorem read_adapter_leaks_servers_witness:
  "held R_DnsBstr (snd (read_adapter (demo_object 7 12 False [wlit ''1.2.4.8'']) demo_st)) = 1"
  using read_adapter_leaks_servers [OF listed_demo_object, of 7 12 False "[wlit ''1.2.4.8'']" demo_st]
  by (simp add: property_def demo_object_def demo_servers_def server_strings_def VT_NULL_def elements_4 held_def)

text \<open>C6: A switch that reports success has opened a session and made exactly one call of
  \<open>SetDNSServerSearchOrder\<close>, on the adapter's own path and with the two servers in their order; a
  switch that reports anything else has made at most that call; and in a session that was opened,
  every reference, string and array is returned.\<close>

theorem switch_adapter_dns_switches:
  assumes "wmi_ready os s" and "d_a \<noteq> []" and "d_b \<noteq> []"
  shows "(case switch_adapter_dns os index d_a d_b s of (res, s') \<Rightarrow>
      held r s' = held r s
    \<and> (if res = result_success
       then acts s' = acts s @ [ExecMethod (instance_path index) [c_str d_a, c_str d_b]]
       else res = result_switch_dns_ip_fail
         \<and> acts s' \<in> {acts s, acts s @ [ExecMethod (instance_path index) [c_str d_a, c_str d_b]]}))"
proof -
  obtain res s' where "switch_adapter_dns os index d_a d_b s = (res, s')" by fastforce
  with switch_adapter_dns_cases(3) [OF assms(2,3) this assms(1), of r] show ?thesis by auto
qed

theorem switch_adapter_dns_switches_witness:
  "acts (snd (switch_adapter_dns (demo_os HttpException [] []) 7 (wlit ''1'') (wlit ''2'') demo_st))
     = [ExecMethod (instance_path 7) [c_str (wlit ''1''), c_str (wlit ''2'')]]"
proof -
  let ?x = "switch_adapter_dns (demo_os HttpException [] []) 7 (wlit ''1'') (wlit ''2'') demo_st"
  have "fst ?x = result_success"
    by (simp add: switch_adapter_dns_def initliaze_wmi_def connect_wmi_def exec_switch_def Let_def
        call_beta split_beta FAILED_def)
  then show ?thesis
    using switch_adapter_dns_switches [where os = "demo_os HttpException [] []" and s = demo_st
      and d_a = "wlit ''1''" and d_b = "wlit ''2''" and index = 7]
    by (simp add: split_beta acts_def)
qed

text \<open>When the session cannot be opened, the code releases it twice: \<open>initliaze_wmi\<close> on its way
  out and \<open>uninitialize_wmi\<close> after it. Listing and switching then leave COM one initialisation short
  of what the thread had, two when COM itself could not be started.\<close>

theorem failed_session_released_twice:
  assumes "\<not> wmi_ready os s" and "d_a \<noteq> []" and "d_b \<noteq> []"
  shows "held R_Com (snd (snd (get_adapter_list os vec s)))
      = held R_Com s - (if com_started os s then 1 else 2)
    \<and> held R_Com (snd (switch_adapter_dns os index d_a d_b s))
      = held R_Com s - (if com_started os s then 1 else 2)"
proof -
  obtain res s' where "switch_adapter_dns os index d_a d_b s = (res, s')" by fastforce
  with switch_adapter_dns_cases(2) [OF assms(2,3) this assms(1), of R_Com]
    get_adapter_list_debt [OF assms(1), of R_Com vec]
  show ?thesis by (auto simp: session_debt_def)
qed

text \<open>A machine on which WMI refuses the connection after COM was started.\<close>

definition refusing_os :: "int os" where
  "refusing_os = (demo_os HttpException [] [])\<lparr>os_connect_server := \<lambda>w. ((0x80041003, False), w)\<rparr>"

lemma refusing_not_ready [simp]: "\<not> wmi_ready refusing_os s"
  by (simp add: wmi_ready_connect connect_wmi_def Let_def call_beta split_beta FAILED_def refusing_os_def)

lemma refusing_com: "os_co_initialize refusing_os w = (0, w)"
  by (simp add: refusing_os_def)

theorem failed_session_released_twice_witness:
  "held R_Com (snd (snd (get_adapter_list refusing_os [] demo_st))) = -1"
  using failed_session_released_twice [where os = refusing_os and s = demo_st
      and d_a = "wlit ''1''" and d_b = "wlit ''2''" and vec = "[]" and index = 0]
    refusing_not_ready [of demo_st]
  by (simp add: held_def com_started_def refusing_com)

end
