(* ===== verification/Performance_Counter.thy ===== *)
theory Performance_Counter
  imports State
begin

text \<open>
  \<open>performance_counter.cpp\<close>: the octets every interface has received and sent, read from the
  interface table into a buffer that is enlarged once. \<open>os_get_if_table\<close> gets the size of the buffer
  and answers with the error code, the size it wrote back and the rows.
\<close>

record adapter_performance_counter =
  pc_interface_index :: u32
  pc_recv_bytes_total :: u32
  pc_send_bytes_total :: u32

text \<open>The layout of the Windows headers: a count and one row of 860 bytes.\<close>

definition sizeof_MIB_IFTABLE :: nat where
  "sizeof_MIB_IFTABLE = 864"

definition ERROR_INSUFFICIENT_BUFFER :: u32 where
  "ERROR_INSUFFICIENT_BUFFER = 122"

definition counter_of_row :: "ifrow \<Rightarrow> adapter_performance_counter" where
  "counter_of_row row =
     \<lparr>pc_interface_index = dwIndex row, pc_recv_bytes_total = dwInOctets row,
      pc_send_bytes_total = dwOutOctets row\<rparr>"

definition get_adapter_performance ::
  "'w os \<Rightarrow> adapter_performance_counter list \<Rightarrow> ('w, 'm) st_scheme \<Rightarrow>
     result \<times> adapter_performance_counter list \<times> ('w, 'm) st_scheme" where
  "get_adapter_performance os vec s =
     (let (pIfTable, s) = call (os_malloc os sizeof_MIB_IFTABLE) s; s = acquire_if pIfTable R_IfTable s
      in if \<not> pIfTable then (result_getiftalbe_malloc_fail, vec, s)
         else
     let ((ret, dwSize, _), s) = call (os_get_if_table os (of_nat sizeof_MIB_IFTABLE)) s;
         (pIfTable, s) =
           (if ret = ERROR_INSUFFICIENT_BUFFER
            then let s = emit (Release R_IfTable) s;
                     (p, s) = call (os_malloc os (unat dwSize)) s
                 in (p, acquire_if p R_IfTable s)
            else (True, s))
      in if \<not> pIfTable then (result_getiftalbe_malloc_fail, vec, s)
         else
     let ((dwRetVal, _, rows), s) = call (os_get_if_table os dwSize) s
      in if dwRetVal \<noteq> 0
         then (result_getiftalbe_fail, vec,
               emit (Release R_IfTable) (showerror (MsgWmi (GetIfTableFailed dwRetVal)) s))
         else (result_success, vec @ map counter_of_row rows, s))"

text \<open>The table is freed on every failure and kept on success.\<close>

lemma get_adapter_performance_outcome:
  assumes "get_adapter_performance os vec s = (res, vec', s')"
  shows "extends s s'" "acts s' = acts s"
    and "held r s' = held r s + of_bool (res = result_success \<and> R_IfTable = r)"
    and "res \<in> {result_success, result_getiftalbe_malloc_fail, result_getiftalbe_fail}"
    and "\<exists>rows. vec' = vec @ map counter_of_row rows \<and> (res \<noteq> result_success \<longrightarrow> rows = [])"
proof -
  obtain p1 t1 where c1: "call (os_malloc os sizeof_MIB_IFTABLE) s = (p1, t1)" by fastforce
  obtain ret dw rows1 t2 where c2: "call (os_get_if_table os (of_nat sizeof_MIB_IFTABLE))
      (acquire_if p1 R_IfTable t1) = ((ret, dw, rows1), t2)" by (metis prod.exhaust)
  obtain p3 t3 where c3: "call (os_malloc os (unat dw)) (emit (Release R_IfTable) t2) = (p3, t3)" by fastforce
  define t4 where "t4 = (if ret = ERROR_INSUFFICIENT_BUFFER then acquire_if p3 R_IfTable t3 else t2)"
  obtain ret5 dw5 rows t5 where c5: "call (os_get_if_table os dw) t4 = ((ret5, dw5, rows), t5)"
    by (metis prod.exhaust)
  have run: "get_adapter_performance os vec s =
    (if \<not> p1 then (result_getiftalbe_malloc_fail, vec, acquire_if p1 R_IfTable t1)
     else if ret = ERROR_INSUFFICIENT_BUFFER \<and> \<not> p3 then (result_getiftalbe_malloc_fail, vec, t4)
     else if ret5 \<noteq> 0
     then (result_getiftalbe_fail, vec, emit (Release R_IfTable) (showerror (MsgWmi (GetIfTableFailed ret5)) t5))
     else (result_success, vec @ map counter_of_row rows, t5))"
    using c5 unfolding t4_def get_adapter_performance_def Let_def c1 prod.case c2 c3
    by (cases "ret = ERROR_INSUFFICIENT_BUFFER"; cases p3) simp_all
  note fh = call_frames(1) [OF c1, of r] call_frames(1) [OF c2, of r] call_frames(1) [OF c3, of r]
    call_frames(1) [OF c5, of r]
  note fs = call_frames(2) [OF c1] call_frames(2) [OF c2] call_frames(2) [OF c3] call_frames(2) [OF c5]
  note fe = call_frames(3) [OF c1, of s] call_frames(3) [OF c2, of s] call_frames(3) [OF c3, of s]
    call_frames(3) [OF c5, of s]
  show "extends s s'" using run assms fe by (auto simp: t4_def split: if_split_asm)
  show "acts s' = acts s" using run assms fs by (auto simp: t4_def split: if_split_asm)
  show "held r s' = held r s + of_bool (res = result_success \<and> R_IfTable = r)"
    using run assms fh by (auto simp: t4_def split: if_split_asm)
  show "res \<in> {result_success, result_getiftalbe_malloc_fail, result_getiftalbe_fail}"
    using run assms by (auto split: if_split_asm)
  show "\<exists>rows. vec' = vec @ map counter_of_row rows \<and> (res \<noteq> result_success \<longrightarrow> rows = [])"
    using run assms by (auto split: if_split_asm)
qed

section \<open>Property\<close>

text \<open>The interface table is never given back after a successful reading: one buffer stays
  allocated per call, whatever the sizes were, while every failing path gives it back.\<close>

theorem interface_table_leaks:
  "(case get_adapter_performance os vec s of (res, _, s') \<Rightarrow>
      held R_IfTable s' = held R_IfTable s + of_bool (res = result_success)
      \<and> keeps {R_IfTable} s s')"
proof -
  obtain res vec' s' where r: "get_adapter_performance os vec s = (res, vec', s')" by (metis prod_cases3)
  show ?thesis
    using get_adapter_performance_outcome(1-3) [OF r] by (auto simp: r keeps_def)
qed

end
