(* ===== verification/Dns_Switcher.thy ===== *)
theory Dns_Switcher
  imports Wmi Performance_Counter
begin

text \<open>
  \<open>dns_switcher.cpp\<close>: the adapters of WMI joined with their octet counters and sorted by the octets
  received, and the switch of an adapter by the identifier the list gave it. The identifier packs the
  two numbers of the adapter into one word (\<open>MAKELONG\<close>); the switch takes the low half back.
\<close>

record adapter_info =
  ai_id :: u32
  ai_description :: wstring
  ai_mac_address :: wstring
  ai_dhcp :: bool
  ai_dns_1 :: wstring
  ai_dns_2 :: wstring
  ai_recv_bytes_total :: u32
  ai_send_bytes_total :: u32

text \<open>The body of the joining loop; \<open>find\<close> is \<open>std::find_if\<close>.\<close>

definition join_counters ::
  "adapter_performance_counter list \<Rightarrow> wmi_adapter_info \<Rightarrow> adapter_info" where
  "join_counters vec_counter wmi_info =
     (let it = find (\<lambda>r. wmi_interface_index wmi_info = pc_interface_index r) vec_counter
      in \<lparr>ai_id = MAKELONG (wmi_index wmi_info) (wmi_interface_index wmi_info),
          ai_description = wmi_description wmi_info,
          ai_mac_address = wmi_mac_address wmi_info,
          ai_dhcp = wmi_dhcp wmi_info,
          ai_dns_1 = wmi_dns_1 wmi_info,
          ai_dns_2 = wmi_dns_2 wmi_info,
          ai_recv_bytes_total = (case it of Some c \<Rightarrow> pc_recv_bytes_total c | None \<Rightarrow> 0),
          ai_send_bytes_total = (case it of Some c \<Rightarrow> pc_send_bytes_total c | None \<Rightarrow> 0)\<rparr>)"

definition list_adapters ::
  "stdlib \<Rightarrow> 'w os \<Rightarrow> adapter_info list \<Rightarrow> ('w, 'm) st_scheme \<Rightarrow>
     result \<times> adapter_info list \<times> ('w, 'm) st_scheme" where
  "list_adapters lib os vec s =
     (let (res, vec_wmi, s) = get_adapter_list os [] s
      in if res \<noteq> result_success then (res, vec, s)
         else
     let (res, vec_counter, s) = get_adapter_performance os [] s
      in if res \<noteq> result_success then (res, vec, s)
         else (result_success,
               std_sort lib (>) ai_recv_bytes_total (vec @ map (join_counters vec_counter) vec_wmi), s))"

definition switch_adapter ::
  "'w os \<Rightarrow> u32 \<Rightarrow> wstring \<Rightarrow> wstring \<Rightarrow> ('w, 'm) st_scheme \<Rightarrow> result \<times> ('w, 'm) st_scheme" where
  "switch_adapter os adapter_id str_dns_1 str_dns_2 s =
     switch_adapter_dns os (ucast (LOWORD adapter_id)) str_dns_1 str_dns_2 s"

section \<open>Facts\<close>

text \<open>The path a switch of an identifier addresses.\<close>

definition switch_path :: "u32 \<Rightarrow> wstring" where
  "switch_path adapter_id = instance_path (ucast (LOWORD adapter_id))"

lemma list_adapters_acts:
  "acts (snd (snd (list_adapters lib os vec s))) = acts s
   \<and> extends s (snd (snd (list_adapters lib os vec s)))"
proof -
  obtain r1 w1 s1 where 1: "get_adapter_list os [] s = (r1, w1, s1)" by (metis prod_cases3)
  obtain r2 w2 s2 where 2: "get_adapter_performance os [] s1 = (r2, w2, s2)" by (metis prod_cases3)
  show ?thesis
    using get_adapter_list_acts [of os "[]" s] get_adapter_performance_outcome(1,2) [OF 2]
    by (auto simp: list_adapters_def 1 2 intro: extends_trans)
qed

lemma list_adapters_success:
  assumes "list_adapters lib os vec s = (result_success, vec', s')"
  obtains w s1 c where "get_adapter_list os [] s = (result_success, w, s1)"
    "get_adapter_performance os [] s1 = (result_success, c, s')"
    "vec' = std_sort lib (>) ai_recv_bytes_total (vec @ map (join_counters c) w)"
  using assms by (auto simp: list_adapters_def split: prod.splits if_splits)

lemma list_adapters_failure:
  "fst (list_adapters lib os vec s) \<noteq> result_success \<Longrightarrow> fst (snd (list_adapters lib os vec s)) = vec"
  by (auto simp: list_adapters_def split: prod.splits if_splits)

lemma switch_adapter_outcome:
  assumes "switch_adapter os i d1 d2 s = (res, s')"
  shows "extends s s'"
    and "res = result_success \<Longrightarrow> acts s' = acts s @ [ExecMethod (switch_path i) [c_str d1, c_str d2]]
           \<and> d1 \<noteq> [] \<and> d2 \<noteq> []"
    and "acts s' \<in> {acts s, acts s @ [ExecMethod (switch_path i) [c_str d1, c_str d2]]}"
    and "d1 = [] \<or> d2 = [] \<Longrightarrow> res = result_dns_ip_invalid \<and> acts s' = acts s"
    and "d1 \<noteq> [] \<Longrightarrow> d2 \<noteq> [] \<Longrightarrow>
      res \<in> {result_success, result_switch_dns_ip_fail, result_wmi_initialize_fail}"
proof -
  let ?i = "ucast (LOWORD i) :: u32"
  have run: "switch_adapter_dns os ?i d1 d2 s = (res, s')"
    using assms by (simp add: switch_adapter_def)
  have all: "extends s s' \<and>
    (res = result_success \<longrightarrow> acts s' = acts s @ [ExecMethod (switch_path i) [c_str d1, c_str d2]]
           \<and> d1 \<noteq> [] \<and> d2 \<noteq> []) \<and>
    acts s' \<in> {acts s, acts s @ [ExecMethod (switch_path i) [c_str d1, c_str d2]]} \<and>
    (d1 = [] \<or> d2 = [] \<longrightarrow> res = result_dns_ip_invalid \<and> acts s' = acts s) \<and>
    (d1 \<noteq> [] \<longrightarrow> d2 \<noteq> [] \<longrightarrow>
      res \<in> {result_success, result_switch_dns_ip_fail, result_wmi_initialize_fail})"
  proof (cases "d1 = [] \<or> d2 = []")
    case True
    with run have "(res, s') = (result_dns_ip_invalid, showlog (MsgWmi (DnsInvalid d1 d2)) s)"
      by (simp only: switch_adapter_dns_empty)
    with True show ?thesis by auto
  next
    case False
    then have "d1 \<noteq> []" "d2 \<noteq> []" by simp_all
    note c = switch_adapter_dns_cases [OF this run]
    show ?thesis
      using c(1) c(2,3) [where r = R_Com] False
      by (cases "wmi_ready os s") (auto simp: switch_path_def)
  qed
  from all show "extends s s'" by blast
  from all show "res = result_success \<Longrightarrow> acts s' = acts s @ [ExecMethod (switch_path i) [c_str d1, c_str d2]]
           \<and> d1 \<noteq> [] \<and> d2 \<noteq> []" by blast
  from all show "acts s' \<in> {acts s, acts s @ [ExecMethod (switch_path i) [c_str d1, c_str d2]]}" by blast
  from all show "d1 = [] \<or> d2 = [] \<Longrightarrow> res = result_dns_ip_invalid \<and> acts s' = acts s" by blast
  from all show "d1 \<noteq> [] \<Longrightarrow> d2 \<noteq> [] \<Longrightarrow>
      res \<in> {result_success, result_switch_dns_ip_fail, result_wmi_initialize_fail}" by blast
qed

section \<open>The interface to the selector\<close>

text \<open>
  What the selector relies on: listing switches nothing and lists nothing when it fails; a switch is
  at most one call on the path of the identifier, exactly one when it reports success, and none when
  a server is missing.
\<close>

locale adapter_provider =
  fixes adapters :: "('w, 'm) st_scheme \<Rightarrow> result \<times> adapter_info list \<times> ('w, 'm) st_scheme"
    and switch :: "u32 \<Rightarrow> wstring \<Rightarrow> wstring \<Rightarrow> ('w, 'm) st_scheme \<Rightarrow> result \<times> ('w, 'm) st_scheme"
    and path :: "u32 \<Rightarrow> wstring"
  assumes adapters_quiet: "adapters s = (r, v, s') \<Longrightarrow> extends s s' \<and> acts s' = acts s"
    and adapters_fail: "adapters s = (r, v, s') \<Longrightarrow> r \<noteq> result_success \<Longrightarrow> v = []"
    and switch_extends: "switch i d1 d2 s = (r, s') \<Longrightarrow> extends s s'"
    and switch_done: "switch i d1 d2 s = (result_success, s') \<Longrightarrow>
          acts s' = acts s @ [ExecMethod (path i) [c_str d1, c_str d2]] \<and> d1 \<noteq> [] \<and> d2 \<noteq> []"
    and switch_once: "switch i d1 d2 s = (r, s') \<Longrightarrow>
          acts s' \<in> {acts s, acts s @ [ExecMethod (path i) [c_str d1, c_str d2]]}"
    and switch_missing: "switch i d1 d2 s = (r, s') \<Longrightarrow> d1 = [] \<or> d2 = [] \<Longrightarrow>
          r = result_dns_ip_invalid \<and> acts s' = acts s"
begin

lemma switch_length: "switch i d1 d2 s = (r, s') \<Longrightarrow> length (acts s') \<le> length (acts s) + 1"
  by (drule switch_once) auto

text \<open>Listing and then switching is at most one switch.\<close>

lemma list_then_switch:
  assumes "adapters s = (r, v, s1)" "switch i d1 d2 s1 = (r', s2)"
  shows "extends s s2" "acts s2 \<in> {acts s, acts s @ [ExecMethod (path i) [c_str d1, c_str d2]]}"
    and "r' = result_success \<Longrightarrow> acts s2 = acts s @ [ExecMethod (path i) [c_str d1, c_str d2]]"
  using adapters_quiet [OF assms(1)] switch_once [OF assms(2)] switch_extends [OF assms(2)]
    switch_done [of i d1 d2 s1 s2] assms(2) by (auto intro: extends_trans)

end

interpretation switcher: adapter_provider "list_adapters lib os []" "switch_adapter os" switch_path
  for lib os
proof
  fix s s' :: "('a, 'b) st_scheme" and r v i d1 d2
  show "extends s s' \<and> acts s' = acts s" if "list_adapters lib os [] s = (r, v, s')"
    using list_adapters_acts [of lib os "[]" s] that by simp
  show "v = []" if "list_adapters lib os [] s = (r, v, s')" "r \<noteq> result_success"
    using list_adapters_failure [of lib os "[]" s] that by simp
  show "extends s s'" if "switch_adapter os i d1 d2 s = (r, s')"
    by (rule switch_adapter_outcome(1) [OF that])
  show "acts s' = acts s @ [ExecMethod (switch_path i) [c_str d1, c_str d2]] \<and> d1 \<noteq> [] \<and> d2 \<noteq> []"
    if "switch_adapter os i d1 d2 s = (result_success, s')"
    by (rule switch_adapter_outcome(2) [OF that refl])
  show "acts s' \<in> {acts s, acts s @ [ExecMethod (switch_path i) [c_str d1, c_str d2]]}"
    if "switch_adapter os i d1 d2 s = (r, s')"
    by (rule switch_adapter_outcome(3) [OF that])
  show "r = result_dns_ip_invalid \<and> acts s' = acts s"
    if "switch_adapter os i d1 d2 s = (r, s')" "d1 = [] \<or> d2 = []"
    by (rule switch_adapter_outcome(4) [OF that])
qed

section \<open>Properties\<close>

text \<open>
  What a listed adapter \<open>a\<close> shows of the adapter \<open>x\<close> of WMI and the counters \<open>c\<close>, field by field: the identifier has
  the low half of the index of \<open>x\<close> below the low half of the index of its interface, the texts and addresses are those
  of \<open>x\<close>, and the traffic is that of the first counter of the interface of \<open>x\<close>, or none where it has no counter.
\<close>

definition shows_adapter :: "adapter_performance_counter list \<Rightarrow> wmi_adapter_info \<Rightarrow> adapter_info \<Rightarrow> bool" where
  "shows_adapter c x a \<longleftrightarrow>
     unat (ai_id a) = unat (wmi_index x) mod 0x10000 + 0x10000 * (unat (wmi_interface_index x) mod 0x10000)
     \<and> ai_description a = wmi_description x \<and> ai_mac_address a = wmi_mac_address x \<and> ai_dhcp a = wmi_dhcp x
     \<and> ai_dns_1 a = wmi_dns_1 x \<and> ai_dns_2 a = wmi_dns_2 x
     \<and> (if \<forall>k < length c. pc_interface_index (c ! k) \<noteq> wmi_interface_index x
        then ai_recv_bytes_total a = 0 \<and> ai_send_bytes_total a = 0
        else \<exists>k < length c. pc_interface_index (c ! k) = wmi_interface_index x
          \<and> (\<forall>j < k. pc_interface_index (c ! j) \<noteq> wmi_interface_index x)
          \<and> ai_recv_bytes_total a = pc_recv_bytes_total (c ! k) \<and> ai_send_bytes_total a = pc_send_bytes_total (c ! k))"

lemma unat_MAKELONG: "unat (MAKELONG a b) = unat a mod 0x10000 + 0x10000 * (unat b mod 0x10000)"
proof -
  have "unat (MAKELONG a b) = take_bit 16 (unat a) OR push_bit 16 (take_bit 16 (unat b))"
    by (simp add: MAKELONG_def unsigned_or_eq unsigned_push_bit_eq unsigned_ucast_eq
        unsigned_take_bit_eq take_bit_push_bit)
  also have "\<dots> = take_bit 16 (unat a) + push_bit 16 (take_bit 16 (unat b))"
    by (rule disjunctive_add_eq_or [symmetric]) (rule bit_eqI, auto simp: bit_simps)
  also have "\<dots> = unat a mod 0x10000 + 0x10000 * (unat b mod 0x10000)"
    by (simp add: take_bit_eq_mod push_bit_eq_mult)
  finally show ?thesis .
qed

lemma join_counters_shows: "shows_adapter c x (join_counters c x)"
proof (cases "find (\<lambda>r. wmi_interface_index x = pc_interface_index r) c")
  case None
  then have "\<forall>r \<in> set c. wmi_interface_index x \<noteq> pc_interface_index r" by (auto simp: find_None_iff)
  then have "pc_interface_index (c ! k) \<noteq> wmi_interface_index x" if "k < length c" for k
    using that nth_mem [OF that] by fastforce
  with None show ?thesis by (simp add: shows_adapter_def join_counters_def unat_MAKELONG)
next
  case (Some r)
  then obtain k where k: "k < length c" "pc_interface_index (c ! k) = wmi_interface_index x" "r = c ! k"
      "\<forall>j < k. pc_interface_index (c ! j) \<noteq> wmi_interface_index x"
    by (auto simp: find_Some_iff) metis
  with Some show ?thesis by (auto simp: shows_adapter_def join_counters_def unat_MAKELONG)
qed

text \<open>A list with the elements of \<open>map f w\<close> is \<open>f\<close> of a list with the elements of \<open>w\<close>.\<close>

lemma map_permuted: "mset ys = mset (map f w) \<Longrightarrow> \<exists>w'. mset w' = mset w \<and> ys = map f w'"
proof (induction ys arbitrary: w)
  case (Cons y ys)
  then have "y \<in> set (map f w)" by (metis list.set_intros(1) mset_eq_setD)
  then obtain x u v where w: "w = u @ x # v" "y = f x" by (metis (no_types) image_iff list.set_map split_list)
  with Cons.prems have "mset ys = mset (map f (u @ v))" by simp
  from Cons.IH [OF this] obtain w' where "mset w' = mset (u @ v)" "ys = map f w'" by blast
  with w show ?case by (intro exI [of _ "x # w'"]) simp
qed simp

lemma mset_pair: "mset xs = mset [a, b] \<longleftrightarrow> xs = [a, b] \<or> xs = [b, a]"
proof
  assume m: "mset xs = mset [a, b]"
  then have "length xs = length [a, b]" by (rule mset_eq_length)
  then obtain x y where "xs = [x, y]" by (auto simp: length_Suc_conv)
  with m show "xs = [a, b] \<or> xs = [b, a]" by (auto simp: add_eq_conv_ex)
qed (auto simp: add_mset_commute)

text \<open>C7: A successful listing has one entry for every adapter of WMI and no other. An entry has its adapter's texts and
  addresses, the identifier made of its two indices, and the bytes received and sent by its interface: those of the
  first counter with the adapter's interface index, 0 where no counter has it. The adapter that received most comes
  first and every adapter after one that received at least as much, whichever order the sort leaves equal adapters in.\<close>

theorem list_adapters_sorted:
  assumes "stdlib_laws lib" and "list_adapters lib os [] s = (result_success, vec, s')"
  shows "\<exists>w s1 c vec_w. get_adapter_list os [] s = (result_success, w, s1)
    \<and> get_adapter_performance os [] s1 = (result_success, c, s')
    \<and> mset vec_w = mset w \<and> list_all2 (shows_adapter c) vec_w vec
    \<and> sorted_wrt (\<lambda>a b. ai_recv_bytes_total b \<le> ai_recv_bytes_total a) vec"
proof -
  obtain w s1 c where *: "get_adapter_list os [] s = (result_success, w, s1)"
    "get_adapter_performance os [] s1 = (result_success, c, s')"
    "vec = std_sort lib (>) ai_recv_bytes_total (map (join_counters c) w)"
    using list_adapters_success [OF assms(2)] by (metis append_Nil)
  have "mset vec = mset (map (join_counters c) w)"
    unfolding *(3) by (rule stdlib_laws.mset_std_sort [OF assms(1)]) simp
  then obtain vec_w where "mset vec_w = mset w" "vec = map (join_counters c) vec_w"
    using map_permuted by blast
  moreover have "list_all2 (shows_adapter c) vec_w (map (join_counters c) vec_w)"
    by (simp add: list.rel_map list.rel_refl join_counters_shows)
  moreover have "sorted_wrt (\<lambda>a b. ai_recv_bytes_total b \<le> ai_recv_bytes_total a) vec"
    unfolding *(3)
    using stdlib_laws.sorted_std_sort [OF assms(1) strict_weak_greater, of ai_recv_bytes_total]
    by (simp add: not_less)
  ultimately show ?thesis using * by blast
qed

lemma demo_list_adapters:
  "\<exists>s'. list_adapters lib (demo_os v objs rows) [] s = (result_success,
     std_sort lib (>) ai_recv_bytes_total
       (map (join_counters (map counter_of_row rows)) (List.map_filter adapter_of objs)), s')"
proof -
  obtain r w s1 where 1: "get_adapter_list (demo_os v objs rows) [] s = (r, w, s1)" by (metis prod_cases3)
  then have "r = result_success" "w = List.map_filter adapter_of objs"
    using get_adapter_list_outcome [of "demo_os v objs rows" "[]" s] by simp_all
  moreover have "\<exists>s2. get_adapter_performance (demo_os v objs rows) [] s1
      = (result_success, map counter_of_row rows, s2)"
    by (simp add: get_adapter_performance_def Let_def call_beta split_beta ERROR_INSUFFICIENT_BUFFER_def)
  ultimately show ?thesis using 1 by (auto simp: list_adapters_def)
qed

theorem list_adapters_sorted_witness:
  "\<exists>vec s'. list_adapters ref_stdlib
     (demo_os HttpException [demo_object 7 12 False [], demo_object 8 13 False []]
       [\<lparr>dwIndex = 13, dwInOctets = 5, dwOutOctets = 1\<rparr>]) [] demo_st = (result_success, vec, s')
   \<and> map (\<lambda>a. (unat (ai_id a), ai_recv_bytes_total a, ai_send_bytes_total a)) vec
       = [(8 + 13 * 0x10000, 5, 1), (7 + 12 * 0x10000, 0, 0)]"
proof -
  let ?objs = "[demo_object 7 12 False [], demo_object 8 13 False []]"
  let ?row = "\<lparr>dwIndex = 13, dwInOctets = 5, dwOutOctets = 1\<rparr> :: ifrow"
  let ?os = "demo_os HttpException ?objs [?row]"
  obtain vec s' where run: "list_adapters ref_stdlib ?os [] demo_st = (result_success, vec, s')"
    using demo_list_adapters by blast
  obtain a b where w: "List.map_filter adapter_of ?objs = [a, b]"
    and ab: "wmi_index a = 7" "wmi_interface_index a = 12" "wmi_index b = 8" "wmi_interface_index b = 13"
    by (simp add: List.map_filter_def adapter_of_demo_object)
  from list_adapters_sorted [OF ref_lib.stdlib_laws_axioms run] obtain ws s1 c vec_w where
    run_w: "get_adapter_list ?os [] demo_st = (result_success, ws, s1)"
      "get_adapter_performance ?os [] s1 = (result_success, c, s')" and
    rows: "mset vec_w = mset ws" "list_all2 (shows_adapter c) vec_w vec" and
    order: "sorted_wrt (\<lambda>a b. ai_recv_bytes_total b \<le> ai_recv_bytes_total a) vec" by blast
  have "ws = [a, b]" using get_adapter_list_outcome(2) [of ?os "[]" demo_st] run_w(1) w by simp
  with rows(1) have "vec_w = [a, b] \<or> vec_w = [b, a]" using mset_pair [of vec_w a b] by simp
  moreover have c: "c = [counter_of_row ?row]"
    using run_w(2) by (simp add: get_adapter_performance_def Let_def call_beta split_beta ERROR_INSUFFICIENT_BUFFER_def)
  have rows_a: "ai_recv_bytes_total y = 0" "ai_send_bytes_total y = 0" "unat (ai_id y) = 7 + 12 * 0x10000"
    if "shows_adapter c a y" for y
    using that ab by (simp_all add: c shows_adapter_def counter_of_row_def)
  have rows_b: "ai_recv_bytes_total y = 5" "ai_send_bytes_total y = 1" "unat (ai_id y) = 8 + 13 * 0x10000"
    if "shows_adapter c b y" for y
    using that ab by (auto simp: c shows_adapter_def counter_of_row_def split: if_splits)
  from calculation rows(2) obtain x y where
    "vec = [x, y]" "shows_adapter c a x \<and> shows_adapter c b y \<or> shows_adapter c b x \<and> shows_adapter c a y"
    by (auto simp: list_all2_Cons1)
  then show ?thesis using run order by (elim disjE conjE) (auto simp: rows_a rows_b)
qed

text \<open>The identifier an adapter is listed under leads a later switch back to that adapter exactly
  when its WMI index is below 65536: the identifier keeps the low half of the index only.\<close>

theorem adapter_id_roundtrip:
  "switch_path (ai_id (join_counters c w)) = instance_path (wmi_index w) \<longleftrightarrow> unat (wmi_index w) < 65536"
  by (simp add: switch_path_def join_counters_def Let_def LOWORD_MAKELONG ucast_ucast_word16)

end
