(* ===== verification/Util.thy ===== *)
theory Util
  imports State
begin

text \<open>
  \<open>util.h\<close> and \<open>version.h\<close>: the conversions between narrow and wide strings, the directory of the
  executable and the version string. Where the C++ code leaves its buffers or dereferences a null
  pointer the function has no value (\<open>None\<close>).
\<close>

section \<open>Strings\<close>

text \<open>
  \<open>util_string_a2w\<close>: the conversion of the system, a leading byte-order mark dropped, up to the first
  zero. A conversion of size 0 makes the function return a string built from a null pointer.
\<close>

definition util_string_a2w :: "'w os \<Rightarrow> bytes \<Rightarrow> wstring option" where
  "util_string_a2w os str =
     (if str = [] then Some []
      else let dst = os_acp_to_wide os str
           in if dst = [] then None
              else Some (c_str (if hd dst = 0xFEFF then tl dst else dst)))"

text \<open>\<open>util_string_w2a\<close>: converts with the terminator, which the code then overwrites.\<close>

definition util_string_w2a :: "'w os \<Rightarrow> wstring \<Rightarrow> bytes" where
  "util_string_w2a os wstr =
     (if wstr = [] then []
      else takeWhile (\<lambda>c. c \<noteq> 0) (os_wide_to_acp os (c_str wstr)))"

section \<open>Paths\<close>

text \<open>
  The loop of \<open>util_get_image_dir\<close> from the index \<open>i\<close> downwards. Its condition \<open>i >= 0\<close> on an unsigned
  index always holds: without a backslash the index wraps below 0 and the buffer is left.
\<close>

fun image_dir_from :: "wstring \<Rightarrow> nat \<Rightarrow> wstring option" where
  "image_dir_from path 0 = (if path \<noteq> [] \<and> path ! 0 = 92 then Some (take 1 path) else None)"
| "image_dir_from path (Suc i) =
     (if Suc i < length path \<and> path ! Suc i = 92 then Some (take (Suc i + 1) path)
      else image_dir_from path i)"

definition util_get_image_dir :: "wstring \<Rightarrow> wstring option" where
  "util_get_image_dir path = image_dir_from path (length path)"

section \<open>Version\<close>

text \<open>
  \<open>get_version\<close>: the two words of the product version, when the two calls of the version API
  succeed.
\<close>

definition get_version :: "(u32 \<times> u32) option \<Rightarrow> wstring" where
  "get_version info =
     (case info of
        None \<Rightarrow> []
      | Some (ms, ls) \<Rightarrow>
          wlit ''Ver '' @ to_wstring (unat (HIWORD ms)) @ wlit ''.'' @ to_wstring (unat (LOWORD ms))
            @ wlit ''.'' @ to_wstring (unat (HIWORD ls)) @ wlit ''.'' @ to_wstring (unat (LOWORD ls)))"

section \<open>Facts\<close>

lemma image_dir_from_Some:
  "image_dir_from path i = Some d \<Longrightarrow>
     \<exists>j \<le> i. j < length path \<and> path ! j = 92 \<and> d = take (j + 1) path
       \<and> (\<forall>k. j < k \<and> k \<le> i \<and> k < length path \<longrightarrow> path ! k \<noteq> 92)"
proof (induction i)
  case 0
  then show ?case by (auto split: if_splits)
next
  case (Suc i)
  show ?case
  proof (cases "Suc i < length path \<and> path ! Suc i = 92")
    case True
    with Suc.prems show ?thesis by (intro exI [of _ "Suc i"]) auto
  next
    case False
    with Suc obtain j where "j \<le> i" "j < length path" "path ! j = 92" "d = take (j + 1) path"
        "\<forall>k. j < k \<and> k \<le> i \<and> k < length path \<longrightarrow> path ! k \<noteq> 92" by auto
    with False show ?thesis by (intro exI [of _ j]) (auto simp: le_Suc_eq)
  qed
qed

lemma image_dir_from_None:
  "image_dir_from path i = None \<longleftrightarrow> (\<forall>j \<le> i. j < length path \<longrightarrow> path ! j \<noteq> 92)"
  by (induction i) (auto simp: le_Suc_eq)

lemma takeWhile_not_last:
  assumes "j < length path" "path ! j = c" "\<forall>k. j < k \<and> k < length path \<longrightarrow> path ! k \<noteq> c"
  shows "c \<notin> set (drop (j + 1) path)"
  using assms by (auto simp: in_set_conv_nth)

text \<open>The directory of a path with a backslash is the path up to its last backslash; without one
  the code runs out of its buffer.\<close>

theorem util_get_image_dir_correct:
  "(case util_get_image_dir path of
      Some d \<Rightarrow> \<exists>file. path = d @ file \<and> last d = 92 \<and> d \<noteq> [] \<and> 92 \<notin> set file
    | None \<Rightarrow> 92 \<notin> set path)"
proof (cases "util_get_image_dir path")
  case None
  then have "\<forall>j < length path. path ! j \<noteq> 92"
    by (simp add: util_get_image_dir_def image_dir_from_None)
  with None show ?thesis by (auto simp: in_set_conv_nth)
next
  case (Some d)
  then obtain j where j: "j < length path" "path ! j = 92" "d = take (j + 1) path"
      "\<forall>k. j < k \<and> k < length path \<longrightarrow> path ! k \<noteq> 92"
    unfolding util_get_image_dir_def using image_dir_from_Some less_imp_le by blast
  then have "d = take j path @ [92]" by (simp add: take_Suc_conv_app_nth)
  moreover have "92 \<notin> set (drop (j + 1) path)" using j by (intro takeWhile_not_last) auto
  moreover have "path = d @ drop (j + 1) path" using j(3) by simp
  ultimately show ?thesis unfolding Some option.case by (metis last_snoc snoc_eq_iff_butlast)
qed

text \<open>A conversion that keeps plain text makes both string functions keep it.\<close>

lemma util_string_a2w_plain:
  assumes "os_acp_to_wide os str = w" "w \<noteq> []" "0 \<notin> set w" "hd w \<noteq> 0xFEFF" "str \<noteq> []"
  shows "util_string_a2w os str = Some w"
  using assms by (simp add: util_string_a2w_def Let_def c_str_id)

end
