(* ===== verification/Ad_Performancer.thy ===== *)
theory Ad_Performancer
  imports Util
begin

text \<open>
  \<open>ad_performancer.cpp\<close>: checking that the page of the program can be fetched, and asking the browser
  control to show it. \<open>None\<close> is the undefined string of a failed conversion of the address.
\<close>

definition check_ad_resource ::
  "'w os \<Rightarrow> wstring \<Rightarrow> ('w, 'm) st_scheme \<Rightarrow> result \<times> ('w, 'm) st_scheme" where
  "check_ad_resource os url s =
     (let (response, s) = call (os_http_get os url) (emit (HttpGet url) s)
      in case response of
           HttpException \<Rightarrow> (result_temp_ad_uri_invalid, s)
         | HttpResponse status_code _ \<Rightarrow>
             (if status_code \<noteq> 200 then result_temp_ad_uri_invalid else result_success, s))"

definition ad_initialize ::
  "'w os \<Rightarrow> ('w, 'm) st_scheme \<Rightarrow> (result \<times> ('w, 'm) st_scheme) option" where
  "ad_initialize os s =
     (case util_string_a2w os AD_LINK_URL of
        None \<Rightarrow> None
      | Some url \<Rightarrow>
          (case check_ad_resource os url s of
             (res, s) \<Rightarrow>
               if res \<noteq> result_success then Some (res, s)
               else Some (result_success, emit (Navigate AD_LINK_URL) s)))"

lemma ad_initialize_outcome:
  assumes "ad_initialize os s = Some (res, s')"
  shows "res \<in> {result_success, result_temp_ad_uri_invalid}"
    and "\<exists>url. tr s' = tr s @ HttpGet url # (if res = result_success then [Navigate AD_LINK_URL] else [])"
  using assms
  by (auto simp: ad_initialize_def check_ad_resource_def Let_def call_beta
      split: option.splits http_answer.splits if_splits)

end
