(* ===== verification/Selector.thy ===== *)
theory Selector
  imports Ip_Fetcher Dns_Switcher Ad_Performancer
begin

text \<open>
  \<open>dns_selector.cpp\<close>: the automatic choice of the servers and the four requests of the user
  interface. The class reaches its components through its members (\<open>m_ip_fetcher\<close>, \<open>m_dns_ping\<close>,
  \<open>m_dns_switcher\<close>); the record \<open>members\<close> holds their operations, and the definitions call them in the
  order of the code. A ping answers with a result and, when it succeeded, the time in milliseconds; it may not
  return, and an exception may leave a request for the list, so the operations that ping or request answer an option:
  nothing here catches an exception.
\<close>

section \<open>The members\<close>

record 's members =
  m_fetch :: "dns_map \<Rightarrow> 's \<Rightarrow> (result \<times> dns_map \<times> 's) option"
  m_ping :: "wstring \<Rightarrow> 's \<Rightarrow> (result \<times> u32 \<times> 's) option"
  m_adapters :: "'s \<Rightarrow> result \<times> adapter_info list \<times> 's"
  m_switch :: "u32 \<Rightarrow> wstring \<Rightarrow> wstring \<Rightarrow> 's \<Rightarrow> result \<times> 's"

definition ms_string :: "u32 \<Rightarrow> wstring" where
  "ms_string t = to_wstring (unat t) @ wlit ''ms''"

text \<open>\<open>Sleep(1000)\<close>.\<close>

definition sleep :: "'w os \<Rightarrow> nat \<Rightarrow> ('w, 'm) st_scheme \<Rightarrow> ('w, 'm) st_scheme" where
  "sleep os n s = snd (call (\<lambda>w. ((), os_sleep os n w)) (emit (Sleep n) s))"

section \<open>Fetching the list\<close>

text \<open>
  The loop of \<open>auto_select_dns\<close> over the requests, \<open>k\<close> of them left and \<open>n\<close> made: \<open>Inl\<close> is the return
  from within the loop.
\<close>

fun fetch_retry ::
  "'w os \<Rightarrow> ('w, 'm) st_scheme members \<Rightarrow> nat \<Rightarrow> nat \<Rightarrow> result \<Rightarrow> dns_map \<Rightarrow> ('w, 'm) st_scheme \<Rightarrow>
     ((result + result \<times> dns_map) \<times> ('w, 'm) st_scheme) option" where
  "fetch_retry os M 0 n res map_dns_info s = Some (Inr (res, map_dns_info), s)"
| "fetch_retry os M (Suc k) n res map_dns_info s =
     (case m_fetch M [] s of
        None \<Rightarrow> None
      | Some (res, map_dns_info, s) \<Rightarrow>
          if res = result_success then Some (Inr (res, map_dns_info), s)
          else if res \<noteq> result_network_interface_http_request_fail then Some (Inl res, s)
          else let s = showwarning (MsgSelector (Retry (n + 1) NET_WORK_INTERFACE_REQUEST_MAX_TIME)) s
               in fetch_retry os M k (n + 1) res map_dns_info (sleep os 1000 s))"

text \<open>The detour over the public servers, when the last request failed.\<close>

definition fetch_public ::
  "('w, 'm) st_scheme members \<Rightarrow> result \<Rightarrow> dns_map \<Rightarrow> ('w, 'm) st_scheme \<Rightarrow>
     (result \<times> dns_map \<times> ('w, 'm) st_scheme) option" where
  "fetch_public M res map_dns_info s =
     (if res \<noteq> result_network_interface_http_request_fail then Some (res, map_dns_info, s)
      else
     let s = showlog (MsgSelector LookForAdapter) (showlog (MsgSelector SwitchPublic) s);
         (res, vec, s) = m_adapters M s
      in if res \<noteq> result_success then Some (res, map_dns_info, s)
         else if vec = [] then Some (result_no_valid_adapter_for_switching, map_dns_info, s)
         else
     let s = showlog (MsgSelector (SwitchAdapterPublic (ai_description (hd vec)))) s;
         (res, s) = m_switch M (ai_id (hd vec)) DEFAULT_DNS_1 DEFAULT_DNS_2 s
      in if res \<noteq> result_success then Some (res, map_dns_info, s)
         else m_fetch M map_dns_info (showlog (MsgSelector PublicDone) s))"

text \<open>The first part of \<open>auto_select_dns\<close>, up to a list of servers.\<close>

definition obtain_dns_info ::
  "'w os \<Rightarrow> ('w, 'm) st_scheme members \<Rightarrow> ('w, 'm) st_scheme \<Rightarrow>
     ((result + dns_map) \<times> ('w, 'm) st_scheme) option" where
  "obtain_dns_info os M s =
     (case fetch_retry os M NET_WORK_INTERFACE_REQUEST_MAX_TIME 0 result_success []
             (showlog (MsgSelector AutoStart) s) of
        None \<Rightarrow> None
      | Some (Inl res, s) \<Rightarrow> Some (Inl res, s)
      | Some (Inr (res, map_dns_info), s) \<Rightarrow>
          if res = result_success then Some (Inr map_dns_info, s)
          else case fetch_public M res map_dns_info s of
                 None \<Rightarrow> None
               | Some (res, map_dns_info, s) \<Rightarrow>
                   Some (if res \<noteq> result_success then (Inl res, s) else (Inr map_dns_info, s)))"

section \<open>Measuring\<close>

text \<open>The time the automatic choice writes for a server that did not answer.\<close>

definition time_out :: u32 where
  "time_out = 9999999"

text \<open>The entries of the map in the order the two nested loops walk them.\<close>

definition walk :: "stdlib \<Rightarrow> dns_map \<Rightarrow> (wstring \<times> wstring) list" where
  "walk lib map_dns_info = concat (map (\<lambda>it. um_iter lib (snd it)) (um_iter lib map_dns_info))"

fun measure_all ::
  "('w, 'm) st_scheme members \<Rightarrow> (wstring \<times> wstring) list \<Rightarrow> (u32 \<times> wstring) list \<Rightarrow> ('w, 'm) st_scheme \<Rightarrow>
     ((u32 \<times> wstring) list \<times> ('w, 'm) st_scheme) option" where
  "measure_all M [] vec s = Some (vec, s)"
| "measure_all M ((str_vip, str_uptime) # items) vec s =
     (case m_ping M str_vip (showlog (MsgChoice (Measure str_vip)) s) of
        None \<Rightarrow> None
      | Some (res, time_ms, s) \<Rightarrow>
          (let (time_ms, s) =
             (if res = result_success
              then (time_ms, showlog (MsgChoice (Pinged str_vip (ms_string time_ms))) s)
              else (time_out, showwarning (MsgChoice (PingTimedOut str_vip)) s))
           in measure_all M items (vec @ [(time_ms, str_vip)]) s))"

section \<open>Choosing\<close>

text \<open>The choice from the sorted times: the result and the two servers, empty where none was found.\<close>

definition choose_dns ::
  "(u32 \<times> wstring) list \<Rightarrow> ('w, 'm) st_scheme \<Rightarrow> (result \<times> wstring \<times> wstring) \<times> ('w, 'm) st_scheme" where
  "choose_dns vec s =
     (if vec = [] \<or> fst (hd vec) = PING_TIMEOUT then ((result_no_valid_dns_for_switching, [], []), s)
      else
     let dns_1 = snd (hd vec);
         s = showlog (MsgChoice (Best dns_1)) s;
         (dns_2, s) =
           (if length vec > 1 \<and> fst (vec ! 1) \<noteq> PING_TIMEOUT
            then (snd (vec ! 1), showlog (MsgChoice (BestBackup (snd (vec ! 1)))) s)
            else ([], s));
         s = (if dns_2 = [] then showwarning (MsgChoice NoBackup) s else s)
     in ((result_success, dns_1, dns_2), s))"

text \<open>The backup server when only one was found, from the defaults or the adapter's own servers.\<close>

definition choose_backup ::
  "adapter_info \<Rightarrow> wstring \<Rightarrow> ('w, 'm) st_scheme \<Rightarrow> wstring \<times> ('w, 'm) st_scheme" where
  "choose_backup info dns_1 s =
     (if ai_dhcp info \<and> dns_1 \<noteq> DEFAULT_DNS_1
      then (DEFAULT_DNS_1, showlog (MsgChoice (BackupDefault1 DEFAULT_DNS_1)) s)
      else if ai_dhcp info \<and> dns_1 \<noteq> DEFAULT_DNS_2
      then (DEFAULT_DNS_2, showlog (MsgChoice (BackupDefault2 DEFAULT_DNS_2)) s)
      else if ai_dns_1 info \<noteq> dns_1
      then (ai_dns_1 info, showlog (MsgChoice (BackupOriginal1 (ai_dns_1 info))) s)
      else if ai_dns_2 info \<noteq> dns_1
      then (ai_dns_2 info, showlog (MsgChoice (BackupOriginal2 (ai_dns_2 info))) s)
      else ([], s))"

text \<open>The last part of \<open>auto_select_dns\<close>: find the adapter, complete the pair, switch.\<close>

definition switch_to ::
  "('w, 'm) st_scheme members \<Rightarrow> wstring \<Rightarrow> wstring \<Rightarrow> ('w, 'm) st_scheme \<Rightarrow> result \<times> ('w, 'm) st_scheme" where
  "switch_to M dns_1 dns_2 s =
     (let (res, vec, s) = m_adapters M (showlog (MsgSelector FindAdapter) s)
      in if res \<noteq> result_success then (res, s)
         else if vec = [] then (result_no_valid_adapter_for_switching, s)
         else
     let info = hd vec;
         s = showlog (MsgSelector (FoundAdapter (ai_description info) (ai_dns_1 info) (ai_dns_2 info))) s;
         (dns_2, s) = (if dns_2 = [] then choose_backup info dns_1 s else (dns_2, s));
         s = showlog (MsgSelector (Switching dns_1 dns_2 (ai_description info))) s;
         (res, s) = m_switch M (ai_id info) dns_1 dns_2 s
     in (res, s))"

definition auto_select_dns ::
  "stdlib \<Rightarrow> 'w os \<Rightarrow> ('w, 'm) st_scheme members \<Rightarrow> ('w, 'm) st_scheme \<Rightarrow> (result \<times> ('w, 'm) st_scheme) option" where
  "auto_select_dns lib os M s =
     (case obtain_dns_info os M s of
        None \<Rightarrow> None
      | Some (Inl res, s) \<Rightarrow> Some (res, s)
      | Some (Inr map_dns_info, s) \<Rightarrow>
          (case measure_all M (walk lib map_dns_info) []
                  (showlog (MsgSelector (GotDns (length (walk lib map_dns_info)))) s) of
             None \<Rightarrow> None
           | Some (vec, s) \<Rightarrow>
               (let s = showlog (MsgChoice Choose) s;
                    ((res, dns_1, dns_2), s) = choose_dns (std_sort lib (<) fst vec) s
                in Some (if res \<noteq> result_success then (res, s) else switch_to M dns_1 dns_2 s))))"

section \<open>The requests of the user interface\<close>

record ui_dns_info =
  ud_vip :: wstring
  ud_uptime :: wstring
  ud_ping_t_ms :: wstring

record freshen_dns_info_result_data =
  fd_freshen_take_time :: wstring
  fd_ip_dns_info :: "ui_dns_info list"

record ui_adapter_info =
  ua_id :: u32
  ua_description :: wstring
  ua_dns_1 :: wstring
  ua_dns_2 :: wstring

record freshen_adapter_info_result_data =
  fa_freshen_take_time :: wstring
  fa_adapter_info :: "ui_adapter_info list"

text \<open>The texts of a timed-out ping and of an automatic address.\<close>

definition timed_out_text :: wstring where
  "timed_out_text = [0x8D85, 0x65F6]"

definition automatic_text :: wstring where
  "automatic_text = [0x81EA, 0x52A8, 0x83B7, 0x53D6]"

definition on_auto_done ::
  "stdlib \<Rightarrow> 'w os \<Rightarrow> ('w, 'm) st_scheme members \<Rightarrow> wstring \<Rightarrow> ('w, 'm) st_scheme \<Rightarrow>
     (result \<times> wstring \<times> ('w, 'm) st_scheme) option" where
  "on_auto_done lib os M take_time s =
     (let (tick_count, s) = call (os_tick_count os) s
      in case auto_select_dns lib os M s of
           None \<Rightarrow> None
         | Some (res, s) \<Rightarrow>
             Some (if res \<noteq> result_success then (res, take_time, s)
                   else let (now, s) = call (os_tick_count os) s
                        in (result_success, ms_string (now - tick_count), s)))"

text \<open>
  The two loops of \<open>on_freshen_dns_info\<close>. Unlike the automatic choice, every server of a view that
  does not answer gets a later time than the one before it; a new view starts again.
\<close>

fun freshen_view ::
  "('w, 'm) st_scheme members \<Rightarrow> (wstring \<times> wstring) list \<Rightarrow> u32 \<Rightarrow> (u32 \<times> ui_dns_info) list \<Rightarrow>
     ('w, 'm) st_scheme \<Rightarrow> ((u32 \<times> ui_dns_info) list \<times> ('w, 'm) st_scheme) option" where
  "freshen_view M [] out vec s = Some (vec, s)"
| "freshen_view M ((str_vip, str_uptime) # items) out vec s =
     (case m_ping M str_vip (showlog (MsgChoice (Measure str_vip)) s) of
        None \<Rightarrow> None
      | Some (res, time_ms, s) \<Rightarrow>
          if res = result_success
          then freshen_view M items out
                 (vec @ [(time_ms, \<lparr>ud_vip = str_vip, ud_uptime = str_uptime, ud_ping_t_ms = ms_string time_ms\<rparr>)])
                 (showlog (MsgChoice (Pinged str_vip (ms_string time_ms))) s)
          else freshen_view M items (out + 1)
                 (vec @ [(out, \<lparr>ud_vip = str_vip, ud_uptime = str_uptime, ud_ping_t_ms = timed_out_text\<rparr>)])
                 (showerror (MsgChoice (PingTimedOut str_vip)) s))"

fun freshen_views ::
  "stdlib \<Rightarrow> ('w, 'm) st_scheme members \<Rightarrow> dns_map \<Rightarrow> (u32 \<times> ui_dns_info) list \<Rightarrow>
     ('w, 'm) st_scheme \<Rightarrow> ((u32 \<times> ui_dns_info) list \<times> ('w, 'm) st_scheme) option" where
  "freshen_views lib M [] vec s = Some (vec, s)"
| "freshen_views lib M (it # rest) vec s =
     (case freshen_view M (um_iter lib (snd it)) time_out vec s of
        None \<Rightarrow> None
      | Some (vec, s) \<Rightarrow> freshen_views lib M rest vec s)"

definition on_freshen_dns_info ::
  "stdlib \<Rightarrow> 'w os \<Rightarrow> ('w, 'm) st_scheme members \<Rightarrow> freshen_dns_info_result_data \<Rightarrow>
     ('w, 'm) st_scheme \<Rightarrow> (result \<times> freshen_dns_info_result_data \<times> ('w, 'm) st_scheme) option" where
  "on_freshen_dns_info lib os M res_data s =
     (let (tick_count, s) = call (os_tick_count os) s;
          s = showlog (MsgSelector FreshenDns) s
      in case m_fetch M [] s of
           None \<Rightarrow> None
         | Some (res, map_dns_info, s) \<Rightarrow>
             (case (if res \<noteq> result_success then Some ([], s)
                    else freshen_views lib M (um_iter lib map_dns_info) []
                           (showlog (MsgSelector (GotViews (length map_dns_info))) s)) of
                None \<Rightarrow> None
              | Some (vec, s) \<Rightarrow>
                  (let (now, s) = call (os_tick_count os) s;
                       vec = std_sort lib (<) fst vec
                   in Some (res,
                       \<lparr>fd_freshen_take_time = ms_string (now - tick_count),
                        fd_ip_dns_info = fd_ip_dns_info res_data @ map snd vec\<rparr>, s))))"

definition on_switch_dns ::
  "('w, 'm) st_scheme members \<Rightarrow> u32 \<Rightarrow> wstring \<Rightarrow> ('w, 'm) st_scheme \<Rightarrow> result \<times> ('w, 'm) st_scheme" where
  "on_switch_dns M adapter_id str_ip s =
     (let (res, vec, s) = m_adapters M s;
          str_dns_2 =
            (if res \<noteq> result_success then str_ip
             else case find (\<lambda>r. adapter_id = ai_id r) vec of
                    None \<Rightarrow> str_ip
                  | Some info \<Rightarrow>
                      if ai_dns_1 info = [] then str_ip
                      else if ai_dns_1 info \<noteq> str_ip then ai_dns_1 info
                      else if ai_dns_2 info = [] then str_ip
                      else if ai_dns_2 info \<noteq> str_ip then ai_dns_2 info
                      else str_ip)
      in m_switch M adapter_id str_ip str_dns_2 s)"

definition ui_info_of :: "adapter_info \<Rightarrow> ui_adapter_info" where
  "ui_info_of info =
     \<lparr>ua_id = ai_id info, ua_description = ai_description info,
      ua_dns_1 = (if ai_dhcp info then automatic_text else ai_dns_1 info),
      ua_dns_2 = (if ai_dhcp info then automatic_text else ai_dns_2 info)\<rparr>"

definition on_freshen_adapter_info ::
  "'w os \<Rightarrow> ('w, 'm) st_scheme members \<Rightarrow> freshen_adapter_info_result_data \<Rightarrow> ('w, 'm) st_scheme \<Rightarrow>
     result \<times> freshen_adapter_info_result_data \<times> ('w, 'm) st_scheme" where
  "on_freshen_adapter_info os M res_data s =
     (let (tick_count, s) = call (os_tick_count os) s;
          (res, vec, s) = m_adapters M s
      in if res \<noteq> result_success then (res, res_data, s)
         else let (now, s) = call (os_tick_count os) s
              in (res, \<lparr>fa_freshen_take_time = ms_string (now - tick_count),
                        fa_adapter_info = fa_adapter_info res_data @ map ui_info_of vec\<rparr>, s))"

text \<open>
  \<open>on_initialize\<close>: a page that cannot be shown is a warning; the other components always initialise
  successfully.
\<close>

definition ip_fetcher_initialize :: result where "ip_fetcher_initialize = result_success"
definition dns_ping_initialize :: result where "dns_ping_initialize = result_success"
definition dns_switcher_initialize :: result where "dns_switcher_initialize = result_success"

definition on_initialize ::
  "'w os \<Rightarrow> ('w, 'm) st_scheme \<Rightarrow> (result \<times> ('w, 'm) st_scheme) option" where
  "on_initialize os s =
     (case ad_initialize os s of
        None \<Rightarrow> None
      | Some (res, s) \<Rightarrow>
          let s = (if res \<noteq> result_success
                   then emit (ShowAd False) (showwarning (MsgSelector (PageFailed (result_string res))) s)
                   else s)
          in Some (if ip_fetcher_initialize \<noteq> result_success then ip_fetcher_initialize
                   else if dns_ping_initialize \<noteq> result_success then dns_ping_initialize
                   else if dns_switcher_initialize \<noteq> result_success then dns_switcher_initialize
                   else result_success, s))"

section \<open>Facts about the parts\<close>

lemma sleep_simps [simp]:
  "acts (sleep os n s) = acts s @ [Sleep n]" "extends s0 s \<Longrightarrow> extends s0 (sleep os n s)"
  "held r (sleep os n s) = held r s"
  by (auto simp: sleep_def call_beta acts_def extends_def held_def)

lemma choose_dns_simps [simp]:
  "acts (snd (choose_dns vec s)) = acts s"
  "extends s0 s \<Longrightarrow> extends s0 (snd (choose_dns vec s))"
  by (simp_all add: choose_dns_def Let_def)

lemma choose_dns_outcome:
  "fst (choose_dns vec s) =
     (if vec = [] \<or> fst (hd vec) = PING_TIMEOUT then (result_no_valid_dns_for_switching, [], [])
      else (result_success, snd (hd vec),
            if length vec > 1 \<and> fst (vec ! 1) \<noteq> PING_TIMEOUT then snd (vec ! 1) else []))"
  by (simp add: choose_dns_def Let_def)

lemma choose_backup_simps [simp]:
  "acts (snd (choose_backup info d s)) = acts s"
  "extends s0 s \<Longrightarrow> extends s0 (snd (choose_backup info d s))"
  by (simp_all add: choose_backup_def)

text \<open>The backup server does not depend on the state.\<close>

definition backup_of :: "adapter_info \<Rightarrow> wstring \<Rightarrow> wstring" where
  "backup_of info dns_1 =
     (if ai_dhcp info then (if dns_1 \<noteq> DEFAULT_DNS_1 then DEFAULT_DNS_1 else DEFAULT_DNS_2)
      else if ai_dns_1 info \<noteq> dns_1 then ai_dns_1 info
      else if ai_dns_2 info \<noteq> dns_1 then ai_dns_2 info else [])"

lemma choose_backup_backup_of [simp]: "fst (choose_backup info d s) = backup_of info d"
  by (auto simp: choose_backup_def backup_of_def)

section \<open>The selector over any components\<close>

text \<open>A ping acts on its server and on nothing else.\<close>

locale pinger =
  fixes ping :: "wstring \<Rightarrow> ('w, 'm) st_scheme \<Rightarrow> (result \<times> u32 \<times> ('w, 'm) st_scheme) option"
  assumes ping_extends: "ping ip s = Some (r, t, s') \<Longrightarrow> extends s s'"
    and ping_acts: "ping ip s = Some (r, t, s') \<Longrightarrow> acts s' = acts s @ [Ping ip]"

definition tries :: "nat \<Rightarrow> event list" where
  "tries j = concat (replicate j [HttpGet NETWORK_INTERFACE, Sleep 1000])"

lemma tries_simps [simp]:
  "tries 0 = []" "tries (Suc j) = HttpGet NETWORK_INTERFACE # Sleep 1000 # tries j"
  by (simp_all add: tries_def)

text \<open>The actions of the loop over the requests, \<open>k\<close> of them allowed.\<close>

definition retried :: "nat \<Rightarrow> result + result \<times> dns_map \<Rightarrow> event list \<Rightarrow> bool" where
  "retried k r es \<longleftrightarrow>
     (case r of
        Inl _ \<Rightarrow> \<exists>j < k. es = tries j @ [HttpGet NETWORK_INTERFACE]
      | Inr (res, _) \<Rightarrow>
          if res = result_success then \<exists>j < k. es = tries j @ [HttpGet NETWORK_INTERFACE]
          else es = tries k)"

lemma retried_Suc:
  "retried k r es \<Longrightarrow> retried (Suc k) r (HttpGet NETWORK_INTERFACE # Sleep 1000 # es)"
  unfolding retried_def
  by (auto split: sum.splits if_splits) (metis Suc_less_eq append_Cons tries_simps(2))+

definition retry_result :: "result + result \<times> dns_map \<Rightarrow> bool" where
  "retry_result r \<longleftrightarrow>
     (case r of
        Inl res \<Rightarrow> res \<noteq> result_success \<and> res \<noteq> result_network_interface_http_request_fail
      | Inr (res, m) \<Rightarrow> wf_dns_map m \<and> (res = result_success \<or> res = result_network_interface_http_request_fail))"

text \<open>How often each kind of action occurs.\<close>

definition gets :: "event list \<Rightarrow> nat" where
  "gets es = length (filter (\<lambda>e. case e of HttpGet _ \<Rightarrow> True | _ \<Rightarrow> False) es)"

definition sleeps :: "event list \<Rightarrow> nat" where
  "sleeps es = length (filter (\<lambda>e. case e of Sleep _ \<Rightarrow> True | _ \<Rightarrow> False) es)"

definition execs :: "event list \<Rightarrow> nat" where
  "execs es = length (filter (\<lambda>e. case e of ExecMethod _ _ \<Rightarrow> True | _ \<Rightarrow> False) es)"

lemma count_simps [simp]:
  "gets [] = 0" "sleeps [] = 0" "execs [] = 0"
  "gets (es @ fs) = gets es + gets fs" "sleeps (es @ fs) = sleeps es + sleeps fs"
  "execs (es @ fs) = execs es + execs fs"
  "gets (HttpGet u # es) = Suc (gets es)" "gets (Sleep n # es) = gets es"
  "gets (Ping i # es) = gets es" "gets (ExecMethod p d # es) = gets es"
  "sleeps (HttpGet u # es) = sleeps es" "sleeps (Sleep n # es) = Suc (sleeps es)"
  "sleeps (Ping i # es) = sleeps es" "sleeps (ExecMethod p d # es) = sleeps es"
  "execs (HttpGet u # es) = execs es" "execs (Sleep n # es) = execs es"
  "execs (Ping i # es) = execs es" "execs (ExecMethod p d # es) = Suc (execs es)"
  by (simp_all add: gets_def sleeps_def execs_def)

lemma count_tries [simp]: "gets (tries j) = j" "sleeps (tries j) = j" "execs (tries j) = 0"
  by (induction j) simp_all

lemma count_pings [simp]:
  "gets (map (\<lambda>i. Ping (f i)) xs) = 0" "sleeps (map (\<lambda>i. Ping (f i)) xs) = 0"
  "execs (map (\<lambda>i. Ping (f i)) xs) = 0"
  by (induction xs) simp_all

text \<open>The operations return when the pings of their servers do.\<close>

definition pings_return :: "('w, 'm) st_scheme members \<Rightarrow> wstring set \<Rightarrow> bool" where
  "pings_return M D \<longleftrightarrow> (\<forall>d \<in> D. \<forall>s. \<exists>r t s'. m_ping M d s = Some (r, t, s'))"

lemma pings_returnD:
  assumes "pings_return M D" and "d \<in> D"
  obtains r t s' where "m_ping M d s = Some (r, t, s')"
  using assms unfolding pings_return_def by metis

lemma measure_all_returns:
  assumes "pings_return M D"
  shows "fst ` set items \<subseteq> D \<Longrightarrow> \<exists>v s'. measure_all M items vec s = Some (v, s')"
proof (induction items arbitrary: vec s)
  case (Cons item items)
  obtain vip up where item: "item = (vip, up)" by fastforce
  with Cons.prems have "vip \<in> D" by simp
  with assms obtain r t s1 where "m_ping M vip (showlog (MsgChoice (Measure vip)) s) = Some (r, t, s1)"
    by (rule pings_returnD)
  with Cons.IH Cons.prems show ?case by (simp add: item Let_def)
qed simp

text \<open>And the requests for the list return when no exception leaves them.\<close>

definition fetches_return :: "('w, 'm) st_scheme members \<Rightarrow> bool" where
  "fetches_return M \<longleftrightarrow> (\<forall>m s. \<exists>r m' s'. m_fetch M m s = Some (r, m', s'))"

lemma fetches_returnD:
  assumes "fetches_return M"
  obtains r m' s' where "m_fetch M m s = Some (r, m', s')"
  using assms unfolding fetches_return_def by metis

lemma fetch_retry_returns:
  assumes "fetches_return M"
  shows "\<exists>r s'. fetch_retry os M k n res m s = Some (r, s')"
proof (induction k arbitrary: n res m s)
  case (Suc k)
  obtain r1 m1 s1 where "m_fetch M [] s = Some (r1, m1, s1)" using assms by (rule fetches_returnD)
  with Suc.IH show ?case by (simp add: Let_def)
qed simp

lemma fetch_public_returns:
  assumes "fetches_return M"
  shows "\<exists>r m' s'. fetch_public M res m s = Some (r, m', s')"
proof -
  have "\<exists>r m' s'. m_fetch M m s = Some (r, m', s')" for m s using assms by (metis fetches_returnD)
  then show ?thesis by (simp add: fetch_public_def Let_def split_beta)
qed

lemma obtain_dns_info_returns:
  assumes "fetches_return M"
  shows "\<exists>r s'. obtain_dns_info os M s = Some (r, s')"
proof -
  obtain f s1 where f: "fetch_retry os M NET_WORK_INTERFACE_REQUEST_MAX_TIME 0 result_success []
      (showlog (MsgSelector AutoStart) s) = Some (f, s1)"
    using fetch_retry_returns [OF assms] by blast
  show ?thesis
  proof (cases f)
    case (Inl e)
    with f show ?thesis by (simp add: obtain_dns_info_def)
  next
    case (Inr p)
    obtain res m where "p = (res, m)" by fastforce
    moreover obtain r2 m2 s2 where "fetch_public M res m s1 = Some (r2, m2, s2)"
      using fetch_public_returns [OF assms] by blast
    ultimately show ?thesis using f Inr by (simp add: obtain_dns_info_def)
  qed
qed

lemma auto_select_returns:
  assumes "fetches_return M"
    and "\<And>m s1. obtain_dns_info os M s = Some (Inr m, s1) \<Longrightarrow> pings_return M (fst ` set (walk lib m))"
  shows "\<exists>res s'. auto_select_dns lib os M s = Some (res, s')"
proof -
  obtain r s1 where o: "obtain_dns_info os M s = Some (r, s1)" using obtain_dns_info_returns [OF assms(1)] by blast
  show ?thesis
  proof (cases r)
    case (Inl e)
    with o show ?thesis by (simp add: auto_select_dns_def)
  next
    case (Inr m)
    with o assms(2) have "pings_return M (fst ` set (walk lib m))" by simp
    from measure_all_returns [OF this order_refl] obtain v s2 where
      "measure_all M (walk lib m) [] (showlog (MsgSelector (GotDns (length (walk lib m)))) s1) = Some (v, s2)"
      by blast
    with o Inr show ?thesis by (simp add: auto_select_dns_def Let_def split_beta)
  qed
qed

lemma freshen_view_returns:
  assumes "pings_return M D"
  shows "fst ` set items \<subseteq> D \<Longrightarrow> \<exists>v s'. freshen_view M items out vec s = Some (v, s')"
proof (induction items arbitrary: out vec s)
  case (Cons item items)
  obtain vip up where item: "item = (vip, up)" by fastforce
  with Cons.prems have "vip \<in> D" by simp
  with assms obtain r t s1 where "m_ping M vip (showlog (MsgChoice (Measure vip)) s) = Some (r, t, s1)"
    by (rule pings_returnD)
  with Cons.IH Cons.prems show ?case by (simp add: item)
qed simp

lemma freshen_views_returns:
  assumes "pings_return M D"
  shows "fst ` set (concat (map (\<lambda>it. um_iter lib (snd it)) its)) \<subseteq> D
    \<Longrightarrow> \<exists>v s'. freshen_views lib M its vec s = Some (v, s')"
proof (induction its arbitrary: vec s)
  case (Cons it its)
  from Cons.prems have sub: "fst ` set (um_iter lib (snd it)) \<subseteq> D"
    "fst ` set (concat (map (\<lambda>it. um_iter lib (snd it)) its)) \<subseteq> D" by auto
  from freshen_view_returns [OF assms sub(1)] obtain v s1 where
    "freshen_view M (um_iter lib (snd it)) time_out vec s = Some (v, s1)" by blast
  with Cons.IH [OF sub(2), of v s1] show ?case by simp
qed simp

lemma on_freshen_dns_info_returns:
  assumes "fetches_return M"
    and "\<And>s m s1. m_fetch M [] s = Some (result_success, m, s1) \<Longrightarrow> pings_return M (fst ` set (walk lib m))"
  shows "\<exists>res data' s'. on_freshen_dns_info lib os M data s = Some (res, data', s')"
proof -
  obtain t0 s0 where c0: "call (os_tick_count os) s = (t0, s0)" by fastforce
  obtain r m s1 where f: "m_fetch M [] (showlog (MsgSelector FreshenDns) s0) = Some (r, m, s1)"
    using assms(1) by (rule fetches_returnD)
  have "\<exists>v s2. (if r \<noteq> result_success then Some ([], s1)
      else freshen_views lib M (um_iter lib m) [] (showlog (MsgSelector (GotViews (length m))) s1)) = Some (v, s2)"
    using assms(2) [of _ m s1] f freshen_views_returns [of M "fst ` set (walk lib m)" lib "um_iter lib m"]
    by (cases "r = result_success") (auto simp: walk_def)
  then obtain v s2 where "(if r \<noteq> result_success then Some ([], s1)
      else freshen_views lib M (um_iter lib m) [] (showlog (MsgSelector (GotViews (length m))) s1)) = Some (v, s2)"
    by blast
  then show ?thesis unfolding on_freshen_dns_info_def c0 Let_def prod.case f
    by (simp split: prod.split)
qed

text \<open>Under an invariant of the state that pings keep, no ping of the servers \<open>D\<close> succeeds.\<close>

definition pings_fail ::
  "(('w, 'm) st_scheme \<Rightarrow> bool) \<Rightarrow> ('w, 'm) st_scheme members \<Rightarrow> wstring set \<Rightarrow> bool" where
  "pings_fail I M D \<longleftrightarrow>
     (\<forall>d \<in> D. \<forall>s r t s'. I s \<longrightarrow> m_ping M d s = Some (r, t, s') \<longrightarrow> r \<noteq> result_success \<and> I s')"

lemma pings_failD:
  "pings_fail I M D \<Longrightarrow> d \<in> D \<Longrightarrow> I s \<Longrightarrow> m_ping M d s = Some (r, t, s') \<Longrightarrow> r \<noteq> result_success \<and> I s'"
  unfolding pings_fail_def by blast

lemma pings_fail_mono: "pings_fail I M D \<Longrightarrow> E \<subseteq> D \<Longrightarrow> pings_fail I M E"
  unfolding pings_fail_def by blast

text \<open>
  The pings of a run: \<open>pings_run ping s outs s'\<close> leads from the state \<open>s\<close> to \<open>s'\<close> by one ping for every entry of
  \<open>outs\<close>, which names the server and what its ping answered, each in the state the one before it left, with nothing
  but messages in between.
\<close>

inductive pings_run ::
  "(wstring \<Rightarrow> ('w, 'm) st_scheme \<Rightarrow> (result \<times> u32 \<times> ('w, 'm) st_scheme) option) \<Rightarrow> ('w, 'm) st_scheme
     \<Rightarrow> (wstring \<times> result \<times> u32) list \<Rightarrow> ('w, 'm) st_scheme \<Rightarrow> bool" for ping where
  stop: "only_shows s s' \<Longrightarrow> pings_run ping s [] s'"
| ping: "only_shows s s0 \<Longrightarrow> ping d s0 = Some (r, t, s1) \<Longrightarrow> pings_run ping s1 outs s'
    \<Longrightarrow> pings_run ping s ((d, r, t) # outs) s'"

inductive_cases pings_run_NilE: "pings_run ping s [] s'"
inductive_cases pings_run_ConsE: "pings_run ping s ((d, r, t) # outs) s'"

lemma pings_run_shows:
  "only_shows s0 s \<Longrightarrow> pings_run ping s outs s' \<Longrightarrow> pings_run ping s0 outs s'"
  "pings_run ping s outs s' \<Longrightarrow> only_shows s' s'' \<Longrightarrow> pings_run ping s outs s''"
proof -
  show "only_shows s0 s \<Longrightarrow> pings_run ping s outs s' \<Longrightarrow> pings_run ping s0 outs s'"
    by (erule pings_run.cases) (auto intro: pings_run.intros only_shows_trans)
  show "pings_run ping s outs s' \<Longrightarrow> only_shows s' s'' \<Longrightarrow> pings_run ping s outs s''"
    by (induction rule: pings_run.induct) (auto intro: pings_run.intros only_shows_trans)
qed

text \<open>The time a ping counts with.\<close>

definition time_of :: "wstring \<times> result \<times> u32 \<Rightarrow> u32 \<times> wstring" where
  "time_of out = (case out of (d, r, t) \<Rightarrow> (if r = result_success then t else time_out, d))"

lemma snd_time_of [simp]: "snd (time_of out) = fst out"
  by (simp add: time_of_def split: prod.split)

lemma choose_dns_shows: "only_shows s (snd (choose_dns vec s))"
  by (auto simp: choose_dns_def Let_def)

lemma choose_backup_shows: "only_shows s (snd (choose_backup info d s))"
  by (auto simp: choose_backup_def)

locale selector = stdlib_laws lib + dns_source "m_fetch M" +
    adapter_provider "m_adapters M" "m_switch M" path + pinger "m_ping M"
  for lib :: stdlib and M :: "('w, 'm) st_scheme members" and path :: "u32 \<Rightarrow> wstring"
begin

lemma fetch_retry_outcome:
  assumes "fetch_retry os M k n res m s = Some (r, s')"
    and "res = result_network_interface_http_request_fail \<or> 0 < k" and "wf_dns_map m"
  shows "extends s s' \<and> retry_result r \<and> (\<exists>es. acts s' = acts s @ es \<and> retried k r es)"
  using assms
proof (induction k arbitrary: n res m s)
  case 0
  then show ?case by (auto simp: retried_def retry_result_def)
next
  case (Suc k)
  obtain r1 m1 s1 where f: "m_fetch M [] s = Some (r1, m1, s1)"
    using Suc.prems(1) by (auto split: option.splits)
  note f_ext = source_extends [OF f] and f_acts = source_acts [OF f]
  have f_wf: "wf_dns_map m1" using source_wf [OF f] by simp
  consider "r1 = result_success"
    | "r1 \<noteq> result_success" "r1 \<noteq> result_network_interface_http_request_fail"
    | "r1 = result_network_interface_http_request_fail" by blast
  then show ?case
  proof cases
    case 1
    with Suc.prems(1) f have "r = Inr (result_success, m1)" "s' = s1" by simp_all
    then show ?thesis using f_ext f_acts f_wf
      by (auto simp: retried_def retry_result_def intro: exI [of _ 0])
  next
    case 2
    with Suc.prems(1) f have "r = Inl r1" "s' = s1" by simp_all
    then show ?thesis using 2 f_ext f_acts
      by (auto simp: retried_def retry_result_def intro: exI [of _ 0])
  next
    case 3
    define s2 where "s2 = sleep os 1000
      (showwarning (MsgSelector (Retry (n + 1) NET_WORK_INTERFACE_REQUEST_MAX_TIME)) s1)"
    have "fetch_retry os M k (n + 1) r1 m1 s2 = Some (r, s')"
      using Suc.prems(1) f 3 by (simp add: s2_def Let_def)
    from Suc.IH [OF this] 3 f_wf have IH: "extends s2 s'" "retry_result r"
        "\<exists>es. acts s' = acts s2 @ es \<and> retried k r es" by auto
    have s2: "extends s s2" "acts s2 = acts s @ [HttpGet NETWORK_INTERFACE, Sleep 1000]"
      using f_ext f_acts by (simp_all add: s2_def)
    obtain es where "acts s' = acts s2 @ es" "retried k r es" using IH(3) by blast
    then have "acts s' = acts s @ (HttpGet NETWORK_INTERFACE # Sleep 1000 # es)"
        "retried (Suc k) r (HttpGet NETWORK_INTERFACE # Sleep 1000 # es)"
      using s2 by (simp_all add: retried_Suc)
    then show ?thesis using IH(2) extends_trans [OF s2(1) IH(1)] by blast
  qed
qed

lemma measure_all_outcome:
  assumes "measure_all M items vec s = Some (vec', s')"
  shows "extends s s' \<and> acts s' = acts s @ map (\<lambda>i. Ping (fst i)) items
    \<and> (\<exists>outs. pings_run (m_ping M) s outs s' \<and> map fst outs = map fst items \<and> vec' = vec @ map time_of outs)"
  using assms
proof (induction items arbitrary: vec s)
  case Nil
  then show ?case by (auto simp: pings_run.stop)
next
  case (Cons item items)
  obtain vip up where item: "item = (vip, up)" by fastforce
  obtain r t s1 where p: "m_ping M vip (showlog (MsgChoice (Measure vip)) s) = Some (r, t, s1)"
    using Cons.prems by (auto simp: item split: option.splits)
  define t2 where "t2 = (if r = result_success then t else time_out)"
  define s2 where "s2 = (if r = result_success
    then showlog (MsgChoice (Pinged vip (ms_string t))) s1 else showwarning (MsgChoice (PingTimedOut vip)) s1)"
  have "measure_all M items (vec @ [(t2, vip)]) s2 = Some (vec', s')"
    using Cons.prems p by (auto simp: item Let_def t2_def s2_def split: if_splits)
  from Cons.IH [OF this] obtain outs where IH: "extends s2 s'"
      "acts s' = acts s2 @ map (\<lambda>i. Ping (fst i)) items" "pings_run (m_ping M) s2 outs s'"
      "map fst outs = map fst items" "vec' = (vec @ [(t2, vip)]) @ map time_of outs" by blast
  have "extends s s2" "acts s2 = acts s @ [Ping vip]"
    using ping_extends [OF p] ping_acts [OF p] extends_trans [of s "showlog (MsgChoice (Measure vip)) s" s1]
    by (auto simp: s2_def)
  moreover have "pings_run (m_ping M) s ((vip, r, t) # outs) s'"
  proof (rule pings_run.ping [where ping = "m_ping M", OF _ p])
    show "pings_run (m_ping M) s1 outs s'"
      by (rule pings_run_shows(1) [OF _ IH(3)]) (auto simp: s2_def)
  qed simp
  moreover have "time_of (vip, r, t) = (t2, vip)" by (simp add: time_of_def t2_def)
  ultimately show ?case using IH extends_trans [of s s2 s']
    by (auto simp: item intro!: exI [of _ "(vip, r, t) # outs"])
qed

text \<open>The detour: at most one switch, to the public servers, and after it at most one request.\<close>

lemma fetch_public_outcome:
  assumes "fetch_public M res m s = Some (res', m', s')" and "wf_dns_map m"
  shows "extends s s' \<and> wf_dns_map m' \<and>
    (\<exists>es. acts s' = acts s @ es
      \<and> (es = [] \<or> (\<exists>i. es = [ExecMethod (path i) [c_str DEFAULT_DNS_1, c_str DEFAULT_DNS_2]]
                   \<or> es = [ExecMethod (path i) [c_str DEFAULT_DNS_1, c_str DEFAULT_DNS_2],
                           HttpGet NETWORK_INTERFACE]))
      \<and> (res = result_network_interface_http_request_fail \<and> res' = result_success
          \<longrightarrow> HttpGet NETWORK_INTERFACE \<in> set es))"
proof (cases "res = result_network_interface_http_request_fail")
  case False
  with assms show ?thesis by (simp add: fetch_public_def)
next
  case True
  define s1 where "s1 = showlog (MsgSelector LookForAdapter) (showlog (MsgSelector SwitchPublic) s)"
  have s1: "extends s s1" "acts s1 = acts s" by (simp_all add: s1_def)
  obtain ra vec s2 where a: "m_adapters M s1 = (ra, vec, s2)" by (metis prod_cases3)
  have s2: "extends s s2" "acts s2 = acts s"
    using adapters_quiet [OF a] s1 by (auto intro: extends_trans)
  show ?thesis
  proof (cases "ra \<noteq> result_success \<or> vec = []")
    case True
    then have "m' = m" "s' = s2" "res' \<noteq> result_success"
      using assms(1) \<open>res = _\<close> a by (auto simp: fetch_public_def s1_def split: if_splits)
    with s2 assms(2) show ?thesis by simp
  next
    case False
    define s3 where "s3 = showlog (MsgSelector (SwitchAdapterPublic (ai_description (hd vec)))) s2"
    obtain rb s4 where b: "m_switch M (ai_id (hd vec)) DEFAULT_DNS_1 DEFAULT_DNS_2 s3 = (rb, s4)"
      by fastforce
    have s4: "extends s s4" "acts s4 \<in> {acts s, acts s @
        [ExecMethod (path (ai_id (hd vec))) [c_str DEFAULT_DNS_1, c_str DEFAULT_DNS_2]]}"
      using extends_trans [of s s3 s4] switch_extends [OF b] switch_once [OF b] s2 by (auto simp: s3_def)
    show ?thesis
    proof (cases "rb = result_success")
      case fail: False
      then have "m' = m" "s' = s4" "res' \<noteq> result_success"
        using assms(1) \<open>res = _\<close> a b False
        by (auto simp: fetch_public_def s3_def s1_def Let_def split: if_splits)
      with s4 assms(2) show ?thesis by auto
    next
      case ok: True
      then have s4': "acts s4 = acts s @
          [ExecMethod (path (ai_id (hd vec))) [c_str DEFAULT_DNS_1, c_str DEFAULT_DNS_2]]"
        using switch_done [of "ai_id (hd vec)" DEFAULT_DNS_1 DEFAULT_DNS_2 s3 s4] b s2
        by (simp add: s3_def)
      have c: "m_fetch M m (showlog (MsgSelector PublicDone) s4) = Some (res', m', s')"
        using assms(1) \<open>res = _\<close> a b False ok
        by (auto simp: fetch_public_def s3_def s1_def Let_def split: prod.splits)
      have "extends s s'" "wf_dns_map m'"
          "acts s' = acts s @ [ExecMethod (path (ai_id (hd vec))) [c_str DEFAULT_DNS_1, c_str DEFAULT_DNS_2],
            HttpGet NETWORK_INTERFACE]"
        using source_extends [OF c] source_acts [OF c] source_wf [OF c] assms(2) s4(1) s4'
        by (auto intro: extends_trans [of s "showlog (MsgSelector PublicDone) s4"])
      then show ?thesis by auto
    qed
  qed
qed

lemma obtain_dns_info_outcome:
  assumes "obtain_dns_info os M s = Some (r, s')"
  shows "extends s s' \<and> r \<noteq> Inl result_success \<and> (\<forall>m. r = Inr m \<longrightarrow> wf_dns_map m)
    \<and> (\<exists>j \<le> NET_WORK_INTERFACE_REQUEST_MAX_TIME. \<exists>es. acts s' = acts s @ tries j @ es
        \<and> (j < NET_WORK_INTERFACE_REQUEST_MAX_TIME \<and> es = [HttpGet NETWORK_INTERFACE]
           \<or> j = NET_WORK_INTERFACE_REQUEST_MAX_TIME \<and>
             (es = [] \<or> (\<exists>i. es = [ExecMethod (path i) [c_str DEFAULT_DNS_1, c_str DEFAULT_DNS_2]]
                          \<or> es = [ExecMethod (path i) [c_str DEFAULT_DNS_1, c_str DEFAULT_DNS_2],
                                  HttpGet NETWORK_INTERFACE]))))"
proof -
  define s0 where "s0 = showlog (MsgSelector AutoStart) s"
  have s0: "extends s s0" "acts s0 = acts s" by (simp_all add: s0_def)
  obtain f s1 where f: "fetch_retry os M NET_WORK_INTERFACE_REQUEST_MAX_TIME 0 result_success [] s0 = Some (f, s1)"
    using assms by (auto simp: obtain_dns_info_def s0_def split: option.splits)
  from fetch_retry_outcome [OF f] obtain es1 where
    1: "extends s0 s1" "retry_result f" "acts s1 = acts s0 @ es1"
       "retried NET_WORK_INTERFACE_REQUEST_MAX_TIME f es1"
    by (auto simp: NET_WORK_INTERFACE_REQUEST_MAX_TIME_def)
  have s1: "extends s s1" using extends_trans [OF s0(1) 1(1)] .
  show ?thesis
  proof (cases f)
    case (Inl res)
    then have "r = Inl res" "s' = s1" using assms f by (simp_all add: obtain_dns_info_def s0_def)
    with Inl 1 s0 s1 show ?thesis
      by (auto simp: retried_def retry_result_def intro: less_imp_le)
  next
    case (Inr p)
    obtain res m where p: "p = (res, m)" by fastforce
    show ?thesis
    proof (cases "res = result_success")
      case True
      then have "r = Inr m" "s' = s1" using assms f Inr p by (simp_all add: obtain_dns_info_def s0_def)
      with True Inr p 1 s0 s1 show ?thesis
        by (auto simp: retried_def retry_result_def intro: less_imp_le)
    next
      case False
      obtain res2 m2 s2 where q: "fetch_public M res m s1 = Some (res2, m2, s2)"
        using assms f Inr p False by (auto simp: obtain_dns_info_def s0_def split: option.splits)
      have "wf_dns_map m" using 1(2) Inr p by (simp add: retry_result_def)
      from fetch_public_outcome [OF q this] obtain es2 where
        2: "extends s1 s2" "wf_dns_map m2" "acts s2 = acts s1 @ es2"
           "es2 = [] \<or> (\<exists>i. es2 = [ExecMethod (path i) [c_str DEFAULT_DNS_1, c_str DEFAULT_DNS_2]]
                   \<or> es2 = [ExecMethod (path i) [c_str DEFAULT_DNS_1, c_str DEFAULT_DNS_2],
                           HttpGet NETWORK_INTERFACE])" by blast
      have "s' = s2" "r = (if res2 = result_success then Inr m2 else Inl res2)"
        using assms f Inr p False q by (auto simp: obtain_dns_info_def s0_def split: if_splits)
      moreover have "acts s1 = acts s @ tries NET_WORK_INTERFACE_REQUEST_MAX_TIME"
        using 1(3,4) Inr p False s0 by (simp add: retried_def)
      ultimately show ?thesis using 2 extends_trans [OF s1 2(1)]
        by (auto intro!: exI [of _ NET_WORK_INTERFACE_REQUEST_MAX_TIME] exI [of _ es2])
    qed
  qed
qed

lemma switch_to_outcome:
  assumes "switch_to M dns_1 dns_2 s = (res, s')"
  shows "extends s s' \<and>
    (acts s' = acts s \<and> res \<noteq> result_success
     \<or> (\<exists>info sa. (\<exists>s1 rest s4. m_adapters M (showlog (MsgSelector FindAdapter) s) = (result_success, info # rest, s1)
            \<and> only_shows s1 s4 \<and> m_switch M (ai_id info) dns_1 sa s4 = (res, s'))
          \<and> sa = (if dns_2 = [] then backup_of info dns_1 else dns_2)
          \<and> acts s' = acts s @ [ExecMethod (path (ai_id info)) [c_str dns_1, c_str sa]]
          \<and> (res = result_success \<longrightarrow> dns_1 \<noteq> [] \<and> sa \<noteq> [])))"
proof -
  obtain ra vec s1 where a: "m_adapters M (showlog (MsgSelector FindAdapter) s) = (ra, vec, s1)"
    by (metis prod_cases3)
  have s1: "extends s s1" "acts s1 = acts s"
    using adapters_quiet [OF a] extends_trans [of s "showlog (MsgSelector FindAdapter) s" s1] by auto
  show ?thesis
  proof (cases "ra \<noteq> result_success \<or> vec = []")
    case True
    with assms a s1 show ?thesis by (auto simp: switch_to_def split: if_splits)
  next
    case False
    then obtain info rest where vec: "vec = info # rest" by (cases vec) auto
    define s2 where "s2 = showlog (MsgSelector (FoundAdapter (ai_description info) (ai_dns_1 info) (ai_dns_2 info))) s1"
    define sa where "sa = (if dns_2 = [] then backup_of info dns_1 else dns_2)"
    define s3 where "s3 = (if dns_2 = [] then snd (choose_backup info dns_1 s2) else s2)"
    define s4 where "s4 = showlog (MsgSelector (Switching dns_1 sa (ai_description info))) s3"
    have b: "m_switch M (ai_id info) dns_1 sa s4 = (res, s')"
    proof -
      have pair: "(if dns_2 = [] then choose_backup info dns_1 s2 else (dns_2, s2)) = (sa, s3)"
        using choose_backup_backup_of [of info dns_1 s2]
        by (cases "choose_backup info dns_1 s2") (auto simp: sa_def s3_def simp del: choose_backup_backup_of)
      have "switch_to M dns_1 dns_2 s = m_switch M (ai_id info) dns_1 sa s4"
        using a False unfolding switch_to_def vec
        by (simp add: Let_def s4_def pair [unfolded s2_def] split del: if_split)
      with assms show ?thesis by simp
    qed
    have s4: "extends s s4" "acts s4 = acts s" using s1 by (simp_all add: s4_def s3_def s2_def)
    have quiet: "only_shows s1 s4"
      using choose_backup_shows [of s2 info dns_1]
      by (auto simp: s4_def s3_def s2_def intro: only_shows_trans)
    have "extends s s'" using s4(1) switch_extends [OF b] by (rule extends_trans)
    moreover have "acts s' = acts s \<and> res \<noteq> result_success \<or>
        acts s' = acts s @ [ExecMethod (path (ai_id info)) [c_str dns_1, c_str sa]]
          \<and> (res = result_success \<longrightarrow> dns_1 \<noteq> [] \<and> sa \<noteq> [])"
      using switch_once [OF b] switch_done [of "ai_id info" dns_1 sa s4 s'] b s4(2) by auto
    moreover have "m_adapters M (showlog (MsgSelector FindAdapter) s) = (result_success, info # rest, s1)"
      using a False vec by simp
    ultimately show ?thesis using b quiet sa_def by blast
  qed
qed

text \<open>The automatic choice, from its parts: what a success did, and that nothing else switches.\<close>

lemma auto_select_dns_outcome:
  assumes "auto_select_dns lib os M s = Some (res, s')"
  obtains (unfetched) r s1 where "obtain_dns_info os M s = Some (Inl r, s1)" "res = r" "s' = s1"
  | (undecided) m s1 outs where "obtain_dns_info os M s = Some (Inr m, s1)"
      "pings_run (m_ping M) s1 outs s'" "map fst outs = map fst (walk lib m)"
      "outs = [] \<or> Min (fst ` time_of ` set outs) = PING_TIMEOUT"
      "res = result_no_valid_dns_for_switching"
      "acts s' = acts s1 @ map (\<lambda>i. Ping (fst i)) (walk lib m)" "extends s1 s'"
  | (decided) m s1 outs ts s2 where "obtain_dns_info os M s = Some (Inr m, s1)"
      "pings_run (m_ping M) s1 outs s2" "map fst outs = map fst (walk lib m)"
      "mset ts = mset (map time_of outs)" "sorted (map fst ts)" "ts \<noteq> []" "fst (hd ts) \<noteq> PING_TIMEOUT"
      "acts s2 = acts s1 @ map (\<lambda>i. Ping (fst i)) (walk lib m)" "extends s1 s2"
      "switch_to M (snd (hd ts))
         (if length ts > 1 \<and> fst (ts ! 1) \<noteq> PING_TIMEOUT then snd (ts ! 1) else []) s2 = (res, s')"
proof -
  obtain r s1 where o: "obtain_dns_info os M s = Some (r, s1)"
    using assms by (auto simp: auto_select_dns_def split: option.splits)
  show ?thesis
  proof (cases r)
    case (Inl e)
    with assms o show ?thesis by (intro unfetched) (simp_all add: auto_select_dns_def)
  next
    case (Inr m)
    define s2 where "s2 = showlog (MsgSelector (GotDns (length (walk lib m)))) s1"
    obtain times s3 where m: "measure_all M (walk lib m) [] s2 = Some (times, s3)"
      using assms o Inr by (auto simp: auto_select_dns_def s2_def split: option.splits)
    define ts where "ts = std_sort lib (<) fst times"
    define s4 where "s4 = showlog (MsgChoice Choose) s3"
    from measure_all_outcome [OF m] obtain outs where times: "extends s2 s3"
        "acts s3 = acts s2 @ map (\<lambda>i. Ping (fst i)) (walk lib m)"
        "pings_run (m_ping M) s2 outs s3" "map fst outs = map fst (walk lib m)" "times = map time_of outs"
      by auto
    have ts: "mset ts = mset (map time_of outs)" "sorted (map fst ts)"
      using mset_std_sort [OF strict_weak_less] sorted_std_sort [OF strict_weak_less, of fst times]
      by (simp_all add: ts_def sorted_wrt_map not_less times(5) [symmetric])
    let ?c = "choose_dns ts s4"
    have run: "auto_select_dns lib os M s = Some
      (if fst (fst ?c) \<noteq> result_success then (fst (fst ?c), snd ?c)
       else switch_to M (fst (snd (fst ?c))) (snd (snd (fst ?c))) (snd ?c))"
      using o Inr m by (simp add: auto_select_dns_def Let_def s2_def s4_def ts_def split_beta)
    have e: "extends s1 (snd ?c)" "acts (snd ?c) = acts s1 @ map (\<lambda>i. Ping (fst i)) (walk lib m)"
      using times(1,2) extends_trans [of s1 s2 s3] by (simp_all add: s4_def s2_def)
    have run_pings: "pings_run (m_ping M) s1 outs (snd ?c)"
    proof (rule pings_run_shows(1))
      have "only_shows s3 (snd ?c)" using choose_dns_shows by (rule only_shows_trans [rotated]) (auto simp: s4_def)
      with times(3) show "pings_run (m_ping M) s2 outs (snd ?c)" by (rule pings_run_shows(2))
    qed (auto simp: s2_def)
    show ?thesis
    proof (cases "ts = [] \<or> fst (hd ts) = PING_TIMEOUT")
      case True
      have "outs = [] \<or> Min (fst ` time_of ` set outs) = PING_TIMEOUT"
      proof (cases ts)
        case Nil
        with ts(1) show ?thesis by simp
      next
        case (Cons a as)
        have "time_of ` set outs = set ts" using ts(1) by (metis mset_eq_setD set_map)
        moreover have "Min (fst ` set ts) = fst a"
          using ts(2) Cons by (intro Min_eqI) auto
        ultimately show ?thesis using True Cons by simp
      qed
      moreover have "(res, s') = (result_no_valid_dns_for_switching, snd ?c)"
        using run assms True by (simp add: choose_dns_outcome)
      ultimately show ?thesis using o Inr run_pings times(4) e by (intro undecided) auto
    next
      case False
      then have "switch_to M (snd (hd ts))
         (if length ts > 1 \<and> fst (ts ! 1) \<noteq> PING_TIMEOUT then snd (ts ! 1) else []) (snd ?c) = (res, s')"
        using run assms by (simp add: choose_dns_outcome)
      with False show ?thesis using o Inr run_pings times(4) ts e by (intro decided) auto
    qed
  qed
qed

lemma auto_select_best:
  assumes "auto_select_dns lib os M s = Some (result_success, s')"
  shows "\<exists>m s1 outs s2 ts info rest s3 dns_2 s4.
    obtain_dns_info os M s = Some (Inr m, s1)
    \<and> pings_run (m_ping M) s1 outs s2 \<and> map fst outs = map fst (walk lib m)
    \<and> mset ts = mset (map time_of outs) \<and> sorted (map fst ts) \<and> ts \<noteq> []
    \<and> m_adapters M (showlog (MsgSelector FindAdapter) s2) = (result_success, info # rest, s3)
    \<and> dns_2 = (if length ts > 1 \<and> fst (ts ! 1) \<noteq> PING_TIMEOUT \<and> snd (ts ! 1) \<noteq> []
               then snd (ts ! 1) else backup_of info (snd (hd ts)))
    \<and> dns_2 \<noteq> [] \<and> only_shows s3 s4 \<and> m_switch M (ai_id info) (snd (hd ts)) dns_2 s4 = (result_success, s')
    \<and> acts s' = acts s1 @ map (\<lambda>i. Ping (fst i)) (walk lib m)
        @ [ExecMethod (path (ai_id info)) [c_str (snd (hd ts)), c_str dns_2]]"
  using assms
proof (cases rule: auto_select_dns_outcome)
  case (unfetched r s1)
  with obtain_dns_info_outcome [OF unfetched(1)] show ?thesis by simp
next
  case (undecided m s1 outs)
  then show ?thesis by simp
next
  case (decided m s1 outs ts s2)
  from switch_to_outcome [OF decided(10)] obtain info sa s3 rest s4 where
    a: "m_adapters M (showlog (MsgSelector FindAdapter) s2) = (result_success, info # rest, s3)"
      "only_shows s3 s4" "m_switch M (ai_id info) (snd (hd ts)) sa s4 = (result_success, s')"
    and sa: "sa = (if (if length ts > 1 \<and> fst (ts ! 1) \<noteq> PING_TIMEOUT then snd (ts ! 1) else []) = []
           then backup_of info (snd (hd ts))
           else (if length ts > 1 \<and> fst (ts ! 1) \<noteq> PING_TIMEOUT then snd (ts ! 1) else []))"
    and e: "acts s' = acts s2 @ [ExecMethod (path (ai_id info)) [c_str (snd (hd ts)), c_str sa]]" "sa \<noteq> []"
    by auto
  have "sa = (if length ts > 1 \<and> fst (ts ! 1) \<noteq> PING_TIMEOUT \<and> snd (ts ! 1) \<noteq> []
      then snd (ts ! 1) else backup_of info (snd (hd ts)))"
    by (simp add: sa)
  moreover have "acts s' = acts s1 @ map (\<lambda>i. Ping (fst i)) (walk lib m)
      @ [ExecMethod (path (ai_id info)) [c_str (snd (hd ts)), c_str sa]]"
    using e(1) decided(8) by simp
  ultimately show ?thesis using a e(2) decided(1-6) by - ((rule exI)+, (rule conjI | assumption)+)
qed

text \<open>Whatever happens: four requests, three waits and two switches at most, and the messages.\<close>

lemma auto_select_bounded:
  assumes "auto_select_dns lib os M s = Some (res, s')"
  shows "extends s s'"
    and "\<exists>es. acts s' = acts s @ es \<and> 1 \<le> gets es \<and> gets es \<le> 4 \<and> sleeps es \<le> 3 \<and> execs es \<le> 2"
proof -
  have front: "extends s s1 \<and> (\<exists>es. acts s1 = acts s @ es \<and> 1 \<le> gets es \<and> gets es \<le> 4 \<and> sleeps es \<le> 3 \<and> execs es \<le> 1)"
    if "obtain_dns_info os M s = Some (r, s1)" for r s1
    using obtain_dns_info_outcome [OF that]
    by (auto simp: NET_WORK_INTERFACE_REQUEST_MAX_TIME_def)
  have "extends s s' \<and> (\<exists>es. acts s' = acts s @ es \<and> 1 \<le> gets es \<and> gets es \<le> 4 \<and> sleeps es \<le> 3 \<and> execs es \<le> 2)"
    using assms
  proof (cases rule: auto_select_dns_outcome)
    case (unfetched r s1)
    with front [OF unfetched(1)] show ?thesis by force
  next
    case (undecided m s1 outs)
    with front [OF undecided(1)] show ?thesis by (force intro: extends_trans)
  next
    case (decided m s1 outs ts s2)
    from front [OF decided(1)] obtain es where
      es: "extends s s1" "acts s1 = acts s @ es" "1 \<le> gets es" "gets es \<le> 4" "sleeps es \<le> 3" "execs es \<le> 1"
      by blast
    from switch_to_outcome [OF decided(10)]
    obtain fs where fs: "acts s' = acts s2 @ fs" "gets fs = 0" "sleeps fs = 0" "execs fs \<le> 1" "extends s2 s'"
      by auto
    have "acts s' = acts s @ (es @ map (\<lambda>i. Ping (fst i)) (walk lib m) @ fs)"
      using es fs decided(8) by simp
    moreover have "extends s s'" using es(1) decided(9) fs(5) extends_trans by blast
    ultimately show ?thesis using es fs
      by (intro conjI exI [of _ "es @ map (\<lambda>i. Ping (fst i)) (walk lib m) @ fs"]) simp_all
  qed
  then show "extends s s'"
    and "\<exists>es. acts s' = acts s @ es \<and> 1 \<le> gets es \<and> gets es \<le> 4 \<and> sleeps es \<le> 3 \<and> execs es \<le> 2" by auto
qed

text \<open>
  When no ping succeeds, as long as an invariant of the state holds that pings and messages keep, every time is
  the same large number, and one of the servers is chosen all the same.
\<close>

lemma measure_all_failing:
  assumes "measure_all M items vec s = Some (vec', s')" and "I s"
    and "pings_fail I M (fst ` set items)"
    and "\<And>m s. I s \<Longrightarrow> I (showlog m s) \<and> I (showwarning m s)"
  shows "vec' = vec @ map (\<lambda>i. (time_out, fst i)) items \<and> I s'"
  using assms(1-3)
proof (induction items arbitrary: vec s)
  case Nil
  then show ?case by simp
next
  case (Cons item items)
  obtain vip up where item: "item = (vip, up)" by fastforce
  obtain r t s1 where p: "m_ping M vip (showlog (MsgChoice (Measure vip)) s) = Some (r, t, s1)"
    using Cons.prems(1) by (auto simp: item split: option.splits)
  have r: "r \<noteq> result_success" "I s1"
  proof -
    have "vip \<in> fst ` set (item # items)" by (simp add: item)
    from pings_failD [OF Cons.prems(3) this _ p] show "r \<noteq> result_success" "I s1"
      using Cons.prems(2) assms(4) by blast+
  qed
  define s2 where "s2 = showwarning (MsgChoice (PingTimedOut vip)) s1"
  have "measure_all M items (vec @ [(time_out, vip)]) s2 = Some (vec', s')"
    using Cons.prems(1) unfolding item by (simp add: p r(1) s2_def Let_def)
  moreover have "I s2" using assms(4) r(2) by (simp add: s2_def)
  moreover have "pings_fail I M (fst ` set items)"
    by (rule pings_fail_mono [OF Cons.prems(3)]) auto
  ultimately have "vec' = (vec @ [(time_out, vip)]) @ map (\<lambda>i. (time_out, fst i)) items \<and> I s'"
    by (rule Cons.IH)
  then show ?case by (simp add: item)
qed

lemma auto_select_all_timed_out:
  assumes "obtain_dns_info os M s = Some (Inr m, s1)" and "walk lib m \<noteq> []" and "I s1"
    and "pings_fail I M (fst ` set (walk lib m))"
    and "\<And>m s. I s \<Longrightarrow> I (showlog m s) \<and> I (showwarning m s)"
    and "auto_select_dns lib os M s = Some (res, s')"
  shows "\<exists>d d2 s2. d \<in> fst ` set (walk lib m) \<and> (res, s') = switch_to M d d2 s2
    \<and> acts s2 = acts s1 @ map (\<lambda>i. Ping (fst i)) (walk lib m)"
proof -
  define s2 where "s2 = showlog (MsgSelector (GotDns (length (walk lib m)))) s1"
  obtain times s3 where m: "measure_all M (walk lib m) [] s2 = Some (times, s3)"
    using assms(1,6) by (auto simp: auto_select_dns_def s2_def split: option.splits)
  have times: "times = map (\<lambda>i. (time_out, fst i)) (walk lib m)"
    using measure_all_failing [OF m, of I] assms(3-5) by (simp add: s2_def)
  have acts: "acts s3 = acts s1 @ map (\<lambda>i. Ping (fst i)) (walk lib m)"
    using measure_all_outcome [OF m] by (simp add: s2_def)
  define ts where "ts = std_sort lib (<) fst times"
  have "set ts = set times" using set_std_sort [OF strict_weak_less] by (simp add: ts_def)
  then have hd: "ts \<noteq> []" "hd ts \<in> set times" using times assms(2) by (force, metis hd_in_set length_greater_0_conv list.map_disc_iff set_empty times)
  then have d: "fst (hd ts) = time_out" "snd (hd ts) \<in> fst ` set (walk lib m)" by (force simp: times)+
  define s4 where "s4 = showlog (MsgChoice Choose) s3"
  obtain d2 s5 where c: "choose_dns ts s4 = ((result_success, snd (hd ts), d2), s5)"
    using choose_dns_outcome [of ts s4] hd(1) d(1)
    by (cases "choose_dns ts s4") (simp add: time_out_def PING_TIMEOUT_def)
  have "acts s5 = acts s4" using choose_dns_simps(1) [of ts s4] by (simp add: c)
  moreover have "auto_select_dns lib os M s = Some (switch_to M (snd (hd ts)) d2 s5)"
    using assms(1) m c by (simp add: auto_select_dns_def s2_def s4_def ts_def Let_def)
  ultimately show ?thesis using assms(6) d(2) acts
    by (intro exI [of _ "snd (hd ts)"] exI [of _ d2] exI [of _ s5] conjI) (simp_all add: s4_def)
qed

text \<open>A single server on an adapter that already uses it, or has none: the pair cannot be completed.\<close>

lemma switch_to_incomplete:
  assumes "m_adapters M (showlog (MsgSelector FindAdapter) s) = (result_success, info # rest, s1)"
    and "\<not> ai_dhcp info" and "ai_dns_1 info = [] \<or> ai_dns_1 info = dns_1 \<and> ai_dns_2 info \<in> {[], dns_1}"
    and "dns_1 \<noteq> []"
  shows "fst (switch_to M dns_1 [] s) = result_dns_ip_invalid"
proof -
  have "backup_of info dns_1 = []" using assms(2-4) by (auto simp: backup_of_def)
  then obtain s2 where "choose_backup info dns_1 (showlog (MsgSelector (FoundAdapter (ai_description info)
      (ai_dns_1 info) (ai_dns_2 info))) s1) = ([], s2)"
    by (metis choose_backup_backup_of prod.collapse)
  then have "switch_to M dns_1 [] s = m_switch M (ai_id info) dns_1 []
      (showlog (MsgSelector (Switching dns_1 [] (ai_description info))) s2)"
    using assms(1) by (simp add: switch_to_def Let_def)
  then show ?thesis using switch_missing by (metis prod.collapse)
qed

lemma on_switch_dns_outcome:
  assumes "on_switch_dns M i ip s = (res, s')"
  shows "\<exists>d. (d = ip \<or> (\<exists>info r vec s1. m_adapters M s = (r, vec, s1) \<and> info \<in> set vec \<and> ai_id info = i
                 \<and> d \<in> {ai_dns_1 info, ai_dns_2 info} \<and> d \<noteq> ip \<and> d \<noteq> []))
    \<and> extends s s' \<and> acts s' \<in> {acts s, acts s @ [ExecMethod (path i) [c_str ip, c_str d]]}
    \<and> (res = result_success \<longrightarrow> acts s' = acts s @ [ExecMethod (path i) [c_str ip, c_str d]])"
proof -
  obtain r vec s1 where a: "m_adapters M s = (r, vec, s1)" by (metis prod_cases3)
  define d where "d = (if r \<noteq> result_success then ip
     else case find (\<lambda>r. i = ai_id r) vec of
            None \<Rightarrow> ip
          | Some info \<Rightarrow>
              if ai_dns_1 info = [] then ip
              else if ai_dns_1 info \<noteq> ip then ai_dns_1 info
              else if ai_dns_2 info = [] then ip
              else if ai_dns_2 info \<noteq> ip then ai_dns_2 info
              else ip)"
  have b: "m_switch M i ip d s1 = (res, s')"
    using assms a by (simp add: on_switch_dns_def d_def Let_def)
  have "d = ip \<or> (\<exists>info. info \<in> set vec \<and> ai_id info = i \<and> d \<in> {ai_dns_1 info, ai_dns_2 info} \<and> d \<noteq> ip \<and> d \<noteq> [])"
  proof (cases "find (\<lambda>r. i = ai_id r) vec")
    case None
    then show ?thesis by (simp add: d_def)
  next
    case (Some info)
    then have "info \<in> set vec" "ai_id info = i" by (auto simp: find_Some_iff)
    with Some show ?thesis by (auto simp: d_def split: if_splits)
  qed
  then have "d = ip \<or> (\<exists>info r vec s1. m_adapters M s = (r, vec, s1) \<and> info \<in> set vec \<and> ai_id info = i
      \<and> d \<in> {ai_dns_1 info, ai_dns_2 info} \<and> d \<noteq> ip \<and> d \<noteq> [])"
    using a by blast
  with list_then_switch [OF a b] show ?thesis by (intro exI [of _ d] conjI) (assumption | rule impI)+
qed

lemma freshen_view_outcome:
  "freshen_view M items out vec s = Some (vec', s') \<Longrightarrow>
     extends s s' \<and> acts s' = acts s @ map (\<lambda>i. Ping (fst i)) items
     \<and> (\<exists>ts. vec' = vec @ ts \<and> map (\<lambda>x. (ud_vip (snd x), ud_uptime (snd x))) ts = items)"
proof (induction items arbitrary: out vec s)
  case Nil
  then show ?case by simp
next
  case (Cons item items)
  obtain vip up where item: "item = (vip, up)" by fastforce
  obtain r t s1 where p: "m_ping M vip (showlog (MsgChoice (Measure vip)) s) = Some (r, t, s1)"
    using Cons.prems by (auto simp: item split: option.splits)
  obtain out2 e s2 where rest: "freshen_view M items out2 (vec @ [e]) s2 = Some (vec', s')"
      "ud_vip (snd e) = vip" "ud_uptime (snd e) = up" "extends s1 s2" "acts s2 = acts s1"
    using Cons.prems p by (cases "r = result_success") (auto simp: item Let_def)
  have "extends s s2" "acts s2 = acts s @ [Ping vip]"
    using ping_extends [OF p] ping_acts [OF p] rest(4,5)
      extends_trans [of s "showlog (MsgChoice (Measure vip)) s" s1] extends_trans [of s s1 s2] by auto
  moreover obtain ts where "extends s2 s'" "acts s' = acts s2 @ map (\<lambda>i. Ping (fst i)) items"
      "vec' = (vec @ [e]) @ ts" "map (\<lambda>x. (ud_vip (snd x), ud_uptime (snd x))) ts = items"
    using Cons.IH [OF rest(1)] by blast
  ultimately show ?case
    using rest(2,3) extends_trans [of s s2 s'] by (auto simp: item intro!: exI [of _ "e # ts"])
qed

lemma freshen_views_outcome:
  "freshen_views lib M its vec s = Some (vec', s') \<Longrightarrow>
     extends s s' \<and> acts s' = acts s @ map (\<lambda>i. Ping (fst i)) (concat (map (\<lambda>it. um_iter lib (snd it)) its))
     \<and> (\<exists>ts. vec' = vec @ ts
         \<and> map (\<lambda>x. (ud_vip (snd x), ud_uptime (snd x))) ts = concat (map (\<lambda>it. um_iter lib (snd it)) its))"
proof (induction its arbitrary: vec s)
  case Nil
  then show ?case by simp
next
  case (Cons it its)
  obtain v1 s1 where v: "freshen_view M (um_iter lib (snd it)) time_out vec s = Some (v1, s1)"
    using Cons.prems by (auto split: option.splits)
  have "freshen_views lib M its v1 s1 = Some (vec', s')" using Cons.prems v by simp
  from Cons.IH [OF this] freshen_view_outcome [OF v] obtain t1 t2 where
    "extends s1 s'" "extends s s1" "v1 = vec @ t1" "vec' = v1 @ t2"
    "map (\<lambda>x. (ud_vip (snd x), ud_uptime (snd x))) t1 = um_iter lib (snd it)"
    "map (\<lambda>x. (ud_vip (snd x), ud_uptime (snd x))) t2 = concat (map (\<lambda>it. um_iter lib (snd it)) its)"
    "acts s1 = acts s @ map (\<lambda>i. Ping (fst i)) (um_iter lib (snd it))"
    "acts s' = acts s1 @ map (\<lambda>i. Ping (fst i)) (concat (map (\<lambda>it. um_iter lib (snd it)) its))" by blast
  then show ?case using extends_trans [of s s1 s'] by (auto intro!: exI [of _ "t1 @ t2"])
qed

lemma on_freshen_dns_info_outcome:
  assumes "on_freshen_dns_info lib os M data s = Some (res, data', s')"
  shows "\<exists>m. (\<exists>s1 s2. m_fetch M [] s1 = Some (res, m, s2)) \<and> wf_dns_map m \<and>
    (if res = result_success
     then \<exists>ts :: (u32 \<times> ui_dns_info) list. fd_ip_dns_info data' = fd_ip_dns_info data @ map snd ts \<and> sorted (map fst ts)
            \<and> mset (map (\<lambda>x. (ud_vip (snd x), ud_uptime (snd x))) ts) = mset (walk lib m)
     else fd_ip_dns_info data' = fd_ip_dns_info data)"
proof -
  obtain t0 s0 where c0: "call (os_tick_count os) s = (t0, s0)" by fastforce
  obtain r m s1 where f: "m_fetch M [] (showlog (MsgSelector FreshenDns) s0) = Some (r, m, s1)"
    using assms by (auto simp: on_freshen_dns_info_def c0 split: option.splits)
  define views where "views = (if r \<noteq> result_success then Some ([], s1)
    else freshen_views lib M (um_iter lib m) [] (showlog (MsgSelector (GotViews (length m))) s1))"
  obtain vec s2 where v: "views = Some (vec, s2)"
    using assms unfolding on_freshen_dns_info_def c0 Let_def prod.case f option.case views_def [symmetric]
    by (auto split: option.splits)
  have "res = r" and data: "fd_ip_dns_info data' = fd_ip_dns_info data @ map snd (std_sort lib (<) fst vec)"
    using assms unfolding on_freshen_dns_info_def c0 Let_def prod.case f option.case views_def [symmetric] v
    by (auto split: prod.splits)
  have "wf_dns_map m" using source_wf [OF f] by simp
  moreover have "if r = result_success
     then \<exists>ts :: (u32 \<times> ui_dns_info) list. fd_ip_dns_info data' = fd_ip_dns_info data @ map snd ts \<and> sorted (map fst ts)
            \<and> mset (map (\<lambda>x. (ud_vip (snd x), ud_uptime (snd x))) ts) = mset (walk lib m)
     else fd_ip_dns_info data' = fd_ip_dns_info data"
  proof (cases "r = result_success")
    case True
    define ts where "ts = std_sort lib (<) fst vec"
    have ts: "mset ts = mset vec" "sorted (map fst ts)"
      using mset_std_sort [OF strict_weak_less] sorted_std_sort [OF strict_weak_less, of fst vec]
      by (simp_all add: ts_def sorted_wrt_map not_less)
    have walk: "map (\<lambda>x. (ud_vip (snd x), ud_uptime (snd x))) vec = walk lib m"
      using freshen_views_outcome [of _ "[]" _ vec s2] v True by (auto simp: views_def walk_def)
    have "mset (map (\<lambda>x. (ud_vip (snd x), ud_uptime (snd x))) ts) = mset (walk lib m)"
      unfolding walk [symmetric] by (simp only: mset_map ts(1))
    moreover have "fd_ip_dns_info data' = fd_ip_dns_info data @ map snd ts"
      using data by (simp add: ts_def)
    ultimately show ?thesis unfolding if_P [OF True] using ts(2) by blast
  next
    case False
    have "std_sort lib (<) fst ([] :: (u32 \<times> ui_dns_info) list) = []"
      by (metis length_0_conv length_std_sort strict_weak_less)
    with False data v show ?thesis by (simp add: views_def)
  qed
  ultimately show ?thesis using f \<open>res = r\<close> by blast
qed

end

end
