(* ===== verification/Dnsping_Names.thy ===== *)
theory Dnsping_Names
  imports Prelude
begin

text \<open>
  The name tables of DNSPing's \<open>Protocol.cpp\<close>: four chains of comparisons that turn the name of an
  Internet protocol, a service, a DNS class or a DNS record type into its number. A chain is a list
  of rows (the spellings a comparison accepts and the constant it returns), read from the top; no match
  is 0. The last three functions return their number in network order.
\<close>

type_synonym name_table = "(string list \<times> int) list"

fun first_match :: "name_table \<Rightarrow> wstring \<Rightarrow> int" where
  "first_match [] Buffer = 0"
| "first_match ((names, number) # rest) Buffer =
     (if list_ex (\<lambda>name. Buffer = wlit name) names then number else first_match rest Buffer)"

text \<open>\<open>htons\<close> on the little-endian machine of the Win32 build swaps the two bytes.\<close>

definition htons :: "u16 \<Rightarrow> u16" where
  "htons n = push_bit 8 n OR drop_bit 8 n"

text \<open>Internet Protocol Number, part 1.\<close>

definition protocol_names_1 :: name_table where
  "protocol_names_1 =
    [([''HOPOPTS'', ''hopopts''], 0), ([''ICMP'', ''icmp''], 1), ([''IGMP'', ''igmp''], 2),
     ([''GGP'', ''ggp''], 3), ([''IPV4'', ''ipv4''], 4), ([''ST'', ''st''], 5), ([''TCP'', ''tcp''], 6),
     ([''CBT'', ''cbt''], 7), ([''EGP'', ''egp''], 8), ([''IGP'', ''igp''], 9),
     ([''BBNRCCMON'', ''bbnrccmon''], 10), ([''NVPII'', ''nvpii''], 11), ([''PUP'', ''pup''], 12),
     ([''ARGUS'', ''argus''], 13), ([''EMCON'', ''emcon''], 14), ([''XNET'', ''xnet''], 15),
     ([''CHAOS'', ''chaos''], 16), ([''UDP'', ''udp''], 17), ([''MUX'', ''mux''], 18),
     ([''DCN'', ''dcn''], 19), ([''HMP'', ''hmp''], 20), ([''PRM'', ''prm''], 21),
     ([''IDP'', ''idp''], 22), ([''TRUNK-1'', ''trunk-1''], 23), ([''TRUNK-2'', ''trunk-2''], 24),
     ([''LEAF-1'', ''leaf-1''], 25), ([''LEAF'', ''leaf-2''], 26), ([''RDP'', ''rdp''], 27),
     ([''IRTP'', ''irtp''], 28), ([''ISOTP4'', ''isotp4''], 29), ([''NETBLT'', ''netblt''], 30),
     ([''MFE'', ''mfe''], 31), ([''MERIT'', ''merit''], 32), ([''DCCP'', ''dccp''], 33),
     ([''3PC'', ''3pc''], 34), ([''IDPR'', ''idpr''], 35), ([''XTP'', ''xtp''], 36),
     ([''DDP'', ''ddp''], 37), ([''IDPRCMTP'', ''idrpcmtp''], 38), ([''TP++'', ''tp++''], 39),
     ([''IL'', ''il''], 40), ([''IPV6'', ''ipv6''], 41), ([''SDRP'', ''sdrp''], 42),
     ([''ROUTING'', ''routing''], 43), ([''FRAGMENT'', ''fragment''], 44), ([''IDRP'', ''idrp''], 45),
     ([''RSVP'', ''rsvp''], 46), ([''GRE'', ''gre''], 47), ([''DSR'', ''dsr''], 48),
     ([''BNA'', ''bna''], 49), ([''ESP'', ''esp''], 50), ([''AH'', ''ah''], 51),
     ([''NLSP'', ''nlsp''], 52), ([''SWIPE'', ''swipe''], 53), ([''NARP'', ''narp''], 54),
     ([''MOBILE'', ''mobile''], 55), ([''TLSP'', ''tlsp''], 56), ([''SKIP'', ''skip''], 57),
     ([''ICMPV6'', ''icmpv6''], 58), ([''NONE'', ''none''], 59), ([''DSTOPTS'', ''dstopts''], 60),
     ([''AHI'', ''ahi''], 61)]"

definition protocol_names_2 :: name_table where
  "protocol_names_2 =
    [([''CFTP'', ''cftp''], 62), ([''ALN'', ''aln''], 63), ([''SAT'', ''sat''], 64),
     ([''KRYPTOLAN'', ''kryptolan''], 65), ([''RVD'', ''rvd''], 66), ([''IPPC'', ''ippc''], 67),
     ([''ADF'', ''adf''], 68), ([''SATMON'', ''satmon''], 69), ([''VISA'', ''visa''], 70),
     ([''IPCV'', ''ipcv''], 71), ([''CPNX'', ''cpnx''], 72), ([''CPHB'', ''cphb''], 73),
     ([''WSN'', ''wsn''], 74), ([''PVP'', ''pvp''], 75), ([''BR'', ''br''], 76), ([''ND'', ''nd''], 77),
     ([''ICLFXBM'', ''iclfxbm''], 78), ([''WBEXPAK'', ''wbexpak''], 79), ([''ISO'', ''iso''], 80),
     ([''VMTP'', ''vmtp''], 81), ([''SVMTP'', ''svmtp''], 82), ([''VINES'', ''vines''], 83),
     ([''TTP'', ''ttp''], 84), ([''IPTM'', ''iptm''], 85), ([''NSFNET'', ''nsfnet''], 86),
     ([''DGP'', ''dgp''], 87), ([''TCF'', ''tcf''], 88), ([''EIGRP'', ''eigrp''], 89),
     ([''SPRITE'', ''sprite''], 90), ([''LARP'', ''larp''], 91), ([''MTP'', ''mtp''], 92),
     ([''AX25'', ''ax25''], 93), ([''IPIP'', ''ipip''], 94), ([''MICP'', ''micp''], 95),
     ([''SCC'', ''scc''], 96), ([''ETHERIP'', ''etherip''], 97), ([''ENCAP'', ''encap''], 98),
     ([''APES'', ''apes''], 100), ([''GMTP'', ''gmtp''], 101), ([''IFMP'', ''ifmp''], 102),
     ([''PIM'', ''pim''], 104), ([''PNNI'', ''pnni''], 103), ([''ARIS'', ''aris''], 105),
     ([''SCPS'', ''scps''], 106), ([''QNX'', ''qnx''], 107), ([''AN'', ''an''], 108),
     ([''IPCOMP'', ''ipcomp''], 109), ([''SNP'', ''snp''], 110), ([''COMPAQ'', ''compaq''], 111),
     ([''IPX'', ''ipx''], 112), ([''PGM'', ''pgm''], 113), ([''0HOP'', ''0hop''], 114),
     ([''L2TP'', ''l2tp''], 115), ([''DDX'', ''ddx''], 116), ([''IATP'', ''iatp''], 117),
     ([''STP'', ''stp''], 118), ([''SRP'', ''srp''], 119), ([''UTI'', ''uti''], 120),
     ([''SMP'', ''smp''], 121), ([''SM'', ''sm''], 122), ([''PTP'', ''ptp''], 123)]"

text \<open>Internet Protocol Number, part 2.\<close>

definition protocol_names_3 :: name_table where
  "protocol_names_3 =
    [([''ISIS'', ''isis''], 124), ([''FIRE'', ''fire''], 125), ([''CRTP'', ''crtp''], 126),
     ([''CRUDP'', ''crudp''], 127), ([''SSCOPMCE'', ''sscopmce''], 128), ([''IPLT'', ''iplt''], 129),
     ([''SPS'', ''sps''], 130), ([''PIPE'', ''pipe''], 131), ([''SCTP'', ''sctp''], 132),
     ([''FC'', ''fc''], 133), ([''RSVPE2E'', ''rsvpe2e''], 134), ([''MOBILITY'', ''mobility''], 135),
     ([''UDPLITE'', ''udplite''], 136), ([''MPLS'', ''mpls''], 137), ([''MANET'', ''manet''], 138),
     ([''HIP'', ''hip''], 139), ([''SHIM6'', ''shim6''], 140), ([''WESP'', ''wesp''], 141),
     ([''ROHC'', ''rohc''], 142), ([''TEST-1'', ''test-1''], 253), ([''TEST-2'', ''test-2''], 254),
     ([''RAW'', ''raw''], 255)]"

definition InternetProtocolNameToPort :: "wstring \<Rightarrow> u16" where
  "InternetProtocolNameToPort Buffer =
     of_int (first_match (protocol_names_1 @ protocol_names_2 @ protocol_names_3) Buffer)"

definition service_names_1 :: name_table where
  "service_names_1 =
    [([''TCPMUX'', ''tcpmux''], 1), ([''ECHO'', ''echo''], 7), ([''DISCARD'', ''discard''], 9),
     ([''SYSTAT'', ''systat''], 11), ([''DAYTIME'', ''daytime''], 13), ([''NETSTAT'', ''netstat''], 15),
     ([''QOTD'', ''qotd''], 17), ([''MSP'', ''msp''], 18), ([''CHARGEN'', ''chargen''], 19),
     ([''FTPDATA'', ''ftpdata''], 20), ([''FTP'', ''ftp''], 21), ([''SSH'', ''ssh''], 22),
     ([''TELNET'', ''telnet''], 23), ([''SMTP'', ''smtp''], 25), ([''TIME'', ''time''], 37),
     ([''RAP'', ''rap''], 38), ([''RLP'', ''rlp''], 39), ([''NAME'', ''name''], 42),
     ([''WHOIS'', ''whois''], 43), ([''TACACS'', ''tacacs''], 49), ([''DNS'', ''dns''], 53),
     ([''XNSAUTH'', ''xnsauth''], 56), ([''MTP'', ''mtp''], 57), ([''BOOTPS'', ''bootps''], 67),
     ([''BOOTPC'', ''bootpc''], 68), ([''TFTP'', ''tftp''], 69), ([''RJE'', ''rje''], 77),
     ([''FINGER'', ''finger''], 79), ([''HTTP'', ''http''], 80), ([''HTTPBACKUP'', ''httpbackup''], 81),
     ([''TTYLINK'', ''ttylink''], 87), ([''SUPDUP'', ''supdup''], 95), ([''POP3'', ''pop3''], 110),
     ([''SUNRPC'', ''sunrpc''], 111), ([''SQL'', ''sql''], 118), ([''NTP'', ''ntp''], 123),
     ([''EPMAP'', ''epmap''], 135), ([''NETBIOSNS'', ''netbiosns''], 137),
     ([''NETBIOSDGM'', ''netbiosdgm''], 138), ([''NETBIOSSSN'', ''netbiosssn''], 139),
     ([''IMAP'', ''imap''], 143), ([''BFTP'', ''bftp''], 152), ([''SGMP'', ''sgmp''], 153),
     ([''SQLSRV'', ''sqlsrv''], 156)]"

definition service_names_2 :: name_table where
  "service_names_2 =
    [([''DMSP'', ''dmsp''], 158), ([''SNMP'', ''snmp''], 161), ([''SNMPTRAP'', ''snmptrap''], 162),
     ([''ATRTMP'', ''atrtmp''], 201), ([''ATHBP'', ''athbp''], 202), ([''QMTP'', ''qmtp''], 209),
     ([''IPX'', ''ipx''], 213), ([''IMAP3'', ''imap3''], 220), ([''BGMP'', ''bgmp''], 264),
     ([''TSP'', ''tsp''], 318), ([''IMMP'', ''immp''], 323), ([''ODMR'', ''odmr''], 366),
     ([''RPC2PORTMAP'', ''rpc2portmap''], 369), ([''CLEARCASE'', ''clearcase''], 371),
     ([''HPALARMMGR'', ''hpalarmmgr''], 383), ([''ARNS'', ''arns''], 384), ([''AURP'', ''aurp''], 387),
     ([''LDAP'', ''ldap''], 389), ([''UPS'', ''ups''], 401), ([''SLP'', ''slp''], 427),
     ([''HTTPS'', ''https''], 443), ([''SNPP'', ''snpp''], 444),
     ([''MICROSOFTDS'', ''microsoftds''], 445), ([''KPASSWD'', ''kpasswd''], 464),
     ([''TCPNETHASPSRV'', ''tcpnethaspsrv''], 475), ([''RETROSPECT'', ''retrospect''], 497),
     ([''ISAKMP'', ''isakmp''], 500), ([''BIFFUDP'', ''biffudp''], 512),
     ([''WHOSERVER'', ''whoserver''], 513), ([''SYSLOG'', ''syslog''], 514),
     ([''ROUTERSERVER'', ''routerserver''], 520), ([''NCP'', ''ncp''], 524),
     ([''COURIER'', ''courier''], 530), ([''COMMERCE'', ''commerce''], 542),
     ([''RTSP'', ''rtsp''], 554), ([''NNTP'', ''nntp''], 563),
     ([''HTTPRPCEPMAP'', ''httprpcepmap''], 593), ([''IPP'', ''ipp''], 631),
     ([''LDAPS'', ''ldaps''], 636), ([''MSDP'', ''msdp''], 639), ([''AODV'', ''aodv''], 654),
     ([''FTPSDATA'', ''ftpsdata''], 989), ([''FTPS'', ''ftps''], 990), ([''NAS'', ''nas''], 991),
     ([''TELNETS'', ''telnets''], 992)]"

definition ServiceNameToPort :: "wstring \<Rightarrow> u16" where
  "ServiceNameToPort Buffer = htons (of_int (first_match (service_names_1 @ service_names_2) Buffer))"

definition class_names :: name_table where
  "class_names =
    [([''INTERNET'', ''internet'', ''IN'', ''in''], 1), ([''CSNET'', ''csnet''], 2),
     ([''CHAOS'', ''chaos''], 3), ([''HESIOD'', ''hesiod''], 4), ([''NONE'', ''none''], 254),
     ([''ALL'', ''all''], 255), ([''ANY'', ''any''], 255)]"

definition DNSClassesNameToHex :: "wstring \<Rightarrow> u16" where
  "DNSClassesNameToHex Buffer = htons (of_int (first_match class_names Buffer))"

definition type_names_1 :: name_table where
  "type_names_1 =
    [([''A'', ''a''], 1), ([''NS'', ''ns''], 2), ([''MD'', ''md''], 3), ([''MF'', ''mf''], 4),
     ([''CNAME'', ''cname''], 5), ([''SOA'', ''soa''], 6), ([''MB'', ''mb''], 7), ([''MG'', ''mg''], 8),
     ([''MR'', ''mr''], 9), ([''PTR'', ''ptr''], 12), ([''NULL'', ''null''], 10),
     ([''WKS'', ''wks''], 11), ([''HINFO'', ''hinfo''], 13), ([''MINFO'', ''minfo''], 14),
     ([''MX'', ''mx''], 15), ([''TXT'', ''txt''], 16), ([''RP'', ''rp''], 17), ([''SIG'', ''sig''], 24),
     ([''AFSDB'', ''afsdb''], 18), ([''X25'', ''x25''], 19), ([''ISDN'', ''isdn''], 20),
     ([''RT'', ''rt''], 21), ([''NSAP'', ''nsap''], 22), ([''NSAPPTR'', ''nsapptr''], 23),
     ([''SIG'', ''sig''], 24), ([''KEY'', ''key''], 25), ([''AAAA'', ''aaaa''], 28),
     ([''PX'', ''px''], 26), ([''GPOS'', ''gpos''], 27), ([''LOC'', ''loc''], 29),
     ([''NXT'', ''nxt''], 30), ([''EID'', ''eid''], 31), ([''NIMLOC'', ''nimloc''], 32),
     ([''SRV'', ''srv''], 33), ([''ATMA'', ''atma''], 34), ([''NAPTR'', ''naptr''], 35),
     ([''KX'', ''kx''], 36), ([''CERT'', ''cert''], 37), ([''A6'', ''a6''], 38),
     ([''DNAME'', ''dname''], 39), ([''SINK'', ''sink''], 40), ([''OPT'', ''opt''], 41)]"

definition type_names_2 :: name_table where
  "type_names_2 =
    [([''APL'', ''apl''], 42), ([''DS'', ''ds''], 43), ([''SSHFP'', ''sshfp''], 44),
     ([''IPSECKEY'', ''ipseckey''], 45), ([''RRSIG'', ''rrsig''], 46), ([''NSEC'', ''nsec''], 47),
     ([''DNSKEY'', ''dnskey''], 48), ([''DHCID'', ''dhcid''], 49), ([''NSEC3'', ''nsec3''], 50),
     ([''NSEC3PARAM'', ''nsec3param''], 51), ([''TLSA'', ''tlsa''], 52), ([''HIP'', ''hip''], 55),
     ([''HINFO'', ''hinfo''], 13), ([''RKEY'', ''rkey''], 57), ([''TALINK'', ''talink''], 58),
     ([''CDS'', ''cds''], 59), ([''CDNSKEY'', ''cdnskey''], 60), ([''OPENPGPKEY'', ''openpgpkey''], 61),
     ([''SPF'', ''spf''], 99), ([''UINFO'', ''uinfo''], 100), ([''UID'', ''uid''], 101),
     ([''GID'', ''gid''], 102), ([''UNSPEC'', ''unspec''], 103), ([''NID'', ''nid''], 104),
     ([''L32'', ''l32''], 105), ([''L64'', ''l64''], 106), ([''LP'', ''lp''], 107),
     ([''EUI48'', ''eui48''], 108), ([''EUI64'', ''eui64''], 109), ([''TKEY'', ''tkey''], 249),
     ([''TSIG'', ''tsig''], 250), ([''IXFR'', ''ixfr''], 251), ([''AXFR'', ''axfr''], 252),
     ([''MAILB'', ''mailb''], 253), ([''MAILA'', ''maila''], 254), ([''ANY'', ''any''], 255),
     ([''URI'', ''uri''], 256), ([''CAA'', ''caa''], 257), ([''TA'', ''ta''], 32768),
     ([''DLV'', ''dlv''], 32769), ([''RESERVED'', ''reserved''], 65535)]"

definition DNSTypeNameToHex :: "wstring \<Rightarrow> u16" where
  "DNSTypeNameToHex Buffer = htons (of_int (first_match (type_names_1 @ type_names_2) Buffer))"


section \<open>The tables\<close>

fun first_name :: "name_table \<Rightarrow> string \<Rightarrow> int" where
  "first_name [] s = 0"
| "first_name ((names, number) # rest) s = (if list_ex (\<lambda>name. s = name) names then number else first_name rest s)"

lemma first_match_wlit: "first_match rows (wlit s) = first_name rows s"
  by (induction rows s rule: first_name.induct) (auto simp: list_ex_iff)

text \<open>Every spelling of a table stands for the number of its row, and that number fits 16 bits.\<close>

definition unshadowed :: "name_table \<Rightarrow> bool" where
  "unshadowed rows \<longleftrightarrow>
     list_all (\<lambda>(names, number). 0 < number \<and> number < 65536
       \<and> list_all (\<lambda>s. first_name rows s = number) names) rows"

lemma unshadowed_types: "unshadowed (type_names_1 @ type_names_2)"
  by code_simp

lemma unshadowed_classes: "unshadowed class_names"
  by code_simp

lemma htons_htons [simp]: "htons (htons n) = n"
  unfolding htons_def by (rule bit_word_eqI) (auto simp: bit_simps)

lemma htons_inj [simp]: "htons m = htons n \<longleftrightarrow> m = n"
  by (metis htons_htons)

lemma htons_0 [simp]: "htons 0 = 0"
  by (simp add: htons_def)

lemma htons_eq_0 [simp]: "htons n = 0 \<longleftrightarrow> n = 0"
  using htons_inj [of n 0] by simp

lemma unshadowed_match:
  assumes "unshadowed rows" "(names, number) \<in> set rows" "s \<in> set names"
  shows "first_match rows (wlit s) = number" "(of_int number :: u16) \<noteq> 0"
proof -
  have n: "0 < number" "number < 65536" "first_name rows s = number"
    using assms by (auto simp: unshadowed_def list_all_iff)
  then show "first_match rows (wlit s) = number" by (simp add: first_match_wlit)
  have "uint (of_int number :: u16) = number" using n by (simp add: word_of_int_inverse)
  with n(1) show "(of_int number :: u16) \<noteq> 0" by auto
qed

text \<open>The record types. Every spelling that a comparison of the table of record types accepts stands for the
  number of its own row (no earlier row takes it), and never for 0, so that it is not read again as a
  decimal number by the option that names the type.\<close>
theorem type_names_known:
  assumes "(names, number) \<in> set (type_names_1 @ type_names_2)" and "s \<in> set names"
  shows "DNSTypeNameToHex (wlit s) = htons (of_int number) \<and> DNSTypeNameToHex (wlit s) \<noteq> 0"
  using unshadowed_match [OF unshadowed_types assms] by (simp add: DNSTypeNameToHex_def)

theorem type_names_known_witness:
  "DNSTypeNameToHex (wlit ''aaaa'') = htons 28 \<and> DNSTypeNameToHex (wlit ''aaaa'') \<noteq> 0"
  using type_names_known [of "[''AAAA'', ''aaaa'']" 28 "''aaaa''"] by (simp add: type_names_1_def)

text \<open>The hop-by-hop option is not recognised. The name of protocol 0 maps to the value for no match, and
  the protocol LEAF-2 is only accepted under the spellings LEAF and leaf-2.\<close>
theorem protocol_names_broken:
  "InternetProtocolNameToPort (wlit ''HOPOPTS'') = InternetProtocolNameToPort (wlit ''NOSUCH'')
    \<and> InternetProtocolNameToPort (wlit ''LEAF-2'') = 0
    \<and> InternetProtocolNameToPort (wlit ''leaf-2'') = 26 \<and> InternetProtocolNameToPort (wlit ''LEAF'') = 26"
proof -
  have "first_name (protocol_names_1 @ protocol_names_2 @ protocol_names_3) ''HOPOPTS'' = 0"
    "first_name (protocol_names_1 @ protocol_names_2 @ protocol_names_3) ''NOSUCH'' = 0"
    "first_name (protocol_names_1 @ protocol_names_2 @ protocol_names_3) ''LEAF-2'' = 0"
    "first_name (protocol_names_1 @ protocol_names_2 @ protocol_names_3) ''leaf-2'' = 26"
    "first_name (protocol_names_1 @ protocol_names_2 @ protocol_names_3) ''LEAF'' = 26"
    by code_simp+
  then show ?thesis unfolding InternetProtocolNameToPort_def first_match_wlit by simp
qed

end
