(* ===== verification/Dnsping_Base.thy ===== *)
theory Dnsping_Base
  imports State Dnsping_Names
begin

text \<open>
  The data of DNSPing (\<open>Base.h\<close>): the packed protocol structures, the table of parameters and results
  \<open>ConfigurationParameter\<close>, which the model keeps in the state, and the calls of Winsock and Windows it
  makes, which are parameters like those of the record \<open>os\<close>. Multi-byte fields hold the value a load on the
  little-endian machine gives, so a field in network order holds \<open>htons\<close> of its number. Text on the
  standard error stream and in the output file is not modelled.
\<close>

section \<open>Packed structures\<close>

record dns_hdr =
  ID :: u16
  Flags :: u16
  Questions :: u16
  Answer :: u16
  Authority :: u16
  Additional :: u16

record dns_qry =
  Type :: u16
  Classes :: u16

record dns_opt_record =
  RootName :: u8
  opt_Type :: u16
  UDPPayloadSize :: u16
  Extended_RCode :: u8
  Version :: u8
  Z_Field :: u16
  opt_DataLength :: u16

text \<open>
  The bit fields of the little-endian branch: one-bit members by their position in \<open>Flags\<close>, from the lowest
  bit of the first byte on. \<open>Z_Bits.DO\<close> is the highest bit of the first byte of \<open>Z_Field\<close>.
\<close>

datatype flag_bit = RD | TC | AA | QR | AD | CD | RA

fun flag_position :: "flag_bit \<Rightarrow> nat" where
  "flag_position RD = 0"
| "flag_position TC = 1"
| "flag_position AA = 2"
| "flag_position QR = 7"
| "flag_position AD = 12"
| "flag_position CD = 13"
| "flag_position RA = 15"

definition invert_flag :: "flag_bit \<Rightarrow> dns_hdr \<Rightarrow> dns_hdr" where
  "invert_flag b h = h\<lparr>Flags := flip_bit (flag_position b) (Flags h)\<rparr>"

definition invert_DO :: "dns_opt_record \<Rightarrow> dns_opt_record" where
  "invert_DO r = r\<lparr>Z_Field := flip_bit 7 (Z_Field r)\<rparr>"

text \<open>The bytes of a structure in memory, and loads from a buffer.\<close>

definition store16 :: "u16 \<Rightarrow> bytes" where
  "store16 n = [ucast n, ucast (drop_bit 8 n)]"

definition load16 :: "bytes \<Rightarrow> nat \<Rightarrow> u16" where
  "load16 b i = ucast (b ! i) OR push_bit 8 (ucast (b ! (i + 1)))"

definition hdr_bytes :: "dns_hdr \<Rightarrow> bytes" where
  "hdr_bytes h = store16 (ID h) @ store16 (Flags h) @ store16 (Questions h) @ store16 (Answer h)
     @ store16 (Authority h) @ store16 (Additional h)"

definition qry_bytes :: "dns_qry \<Rightarrow> bytes" where
  "qry_bytes q = store16 (Type q) @ store16 (Classes q)"

definition opt_bytes :: "dns_opt_record \<Rightarrow> bytes" where
  "opt_bytes r = RootName r # store16 (opt_Type r) @ store16 (UDPPayloadSize r)
     @ [Extended_RCode r, Version r] @ store16 (Z_Field r) @ store16 (opt_DataLength r)"

definition zero_hdr :: dns_hdr where
  "zero_hdr = \<lparr>ID = 0, Flags = 0, Questions = 0, Answer = 0, Authority = 0, Additional = 0\<rparr>"

definition zero_opt :: dns_opt_record where
  "zero_opt = \<lparr>RootName = 0, opt_Type = 0, UDPPayloadSize = 0, Extended_RCode = 0, Version = 0,
               Z_Field = 0, opt_DataLength = 0\<rparr>"

text \<open>
  A \<open>sockaddr_storage\<close>. Families: \<open>AF_INET\<close> is 2, \<open>AF_INET6\<close> is 23. The addresses lie at
  different offsets, the ports of both families at the same one.
\<close>

definition AF_INET :: u16 where "AF_INET = 2"
definition AF_INET6 :: u16 where "AF_INET6 = 23"

record sockaddr =
  ss_family :: u16
  sin_port :: u16
  sin_addr :: bytes
  sin6_addr :: bytes

definition zero_sockaddr :: sockaddr where
  "zero_sockaddr = \<lparr>ss_family = 0, sin_port = 0, sin_addr = replicate 4 0, sin6_addr = replicate 16 0\<rparr>"

section \<open>Constants\<close>

definition PACKET_MINSIZE :: nat where "PACKET_MINSIZE = 64"
definition PACKET_MAXSIZE :: nat where "PACKET_MAXSIZE = 1500"
definition LARGE_PACKET_MAXSIZE :: nat where "LARGE_PACKET_MAXSIZE = 4096"
definition STANDARD_TIME_OUT :: nat where "STANDARD_TIME_OUT = 1000"
definition DEFAULT_TIME_OUT :: nat where "DEFAULT_TIME_OUT = 2000"
definition TIME_OUT_MIN :: nat where "TIME_OUT_MIN = 500"
definition DEFAULT_SEND_TIMES :: nat where "DEFAULT_SEND_TIMES = 4"
definition DOMAIN_MAXSIZE :: nat where "DOMAIN_MAXSIZE = 256"
definition DOMAIN_MINSIZE :: nat where "DOMAIN_MINSIZE = 2"
definition OLD_DNS_MAXSIZE :: nat where "OLD_DNS_MAXSIZE = 512"
definition EDNS0_MINSIZE :: nat where "EDNS0_MINSIZE = 1220"
definition SOCKS_USERNAME_PASSWORD_MAXNUM :: nat where "SOCKS_USERNAME_PASSWORD_MAXNUM = 255"
definition DNS_STANDARD :: u16 where "DNS_STANDARD = 0x0100"
definition DNS_CLASS_IN :: u16 where "DNS_CLASS_IN = 1"
definition DNS_RECORD_A :: u16 where "DNS_RECORD_A = 1"
definition DNS_RECORD_AAAA :: u16 where "DNS_RECORD_AAAA = 28"
definition DNS_RECORD_OPT :: u16 where "DNS_RECORD_OPT = 41"
definition MICROSECOND_TO_MILLISECOND :: nat where "MICROSECOND_TO_MILLISECOND = 1000"
definition SOCKS_VERSION_5 :: u8 where "SOCKS_VERSION_5 = 5"
definition SOCKS_METHOD_SUPPORT_NUM :: u8 where "SOCKS_METHOD_SUPPORT_NUM = 2"
definition SOCKS_METHOD_NO_AUTHENTICATION_REQUIRED :: u8 where "SOCKS_METHOD_NO_AUTHENTICATION_REQUIRED = 0"
definition SOCKS_METHOD_USERNAME_PASSWORD :: u8 where "SOCKS_METHOD_USERNAME_PASSWORD = 2"
definition SOCKS_USERNAME_PASSWORD_VERSION :: u8 where "SOCKS_USERNAME_PASSWORD_VERSION = 1"
definition SOCKS_USERNAME_PASSWORD_SUCCESS :: u8 where "SOCKS_USERNAME_PASSWORD_SUCCESS = 0"
definition SOCKS_COMMAND_UDP_ASSOCIATE :: u8 where "SOCKS_COMMAND_UDP_ASSOCIATE = 3"
definition SOCKS5_ADDRESS_IPV4 :: u8 where "SOCKS5_ADDRESS_IPV4 = 1"
definition SOCKS5_ADDRESS_DOMAIN :: u8 where "SOCKS5_ADDRESS_DOMAIN = 3"
definition SOCKS5_ADDRESS_IPV6 :: u8 where "SOCKS5_ADDRESS_IPV6 = 4"
definition SOCKS5_REPLY_SUCCESS :: u8 where "SOCKS5_REPLY_SUCCESS = 0"
definition IPPORT_DNS :: u16 where "IPPORT_DNS = 53"

text \<open>\<open>sizeof(dns_hdr) + 4U + sizeof(dns_qry)\<close>, and the sizes of the structures themselves.\<close>

definition DNS_PACKET_MINSIZE :: nat where "DNS_PACKET_MINSIZE = 20"
definition sizeof_dns_opt_record :: nat where "sizeof_dns_opt_record = 11"

lemma sizes [simp]:
  "length (hdr_bytes h) = 12" "length (qry_bytes q) = 4" "length (opt_bytes r) = sizeof_dns_opt_record"
  by (simp_all add: hdr_bytes_def qry_bytes_def opt_bytes_def store16_def sizeof_dns_opt_record_def)

lemma load16_store16:
  assumes "b ! i = ucast n" "b ! (i + 1) = ucast (drop_bit 8 n)"
  shows "load16 b i = n"
  unfolding load16_def assms by (rule bit_word_eqI) (auto simp: bit_simps)

section \<open>The table of parameters and results\<close>

text \<open>
  \<open>ConfigurationTable\<close>. The statistics of time are floating-point numbers in the code and real numbers here,
  so their rounding is not modelled; counters and sizes have the 32 bits of the Win32 build.
\<close>

record config =
  OutputFile :: bool                  \<comment> \<open>whether the handle is set\<close>
  TransmissionInterval :: u32
  BufferSize :: u32
  RawDataLen :: nat
  EDNSPayloadSize :: u32
  Protocol :: u16
  ServiceType :: u16
  ReverseLookup :: bool
  RawSocket :: bool
  EDNS :: bool
  DNSSEC :: bool
  Validate :: bool
  ShowResponse :: bool
  ShowResponseHex :: bool
  IP_HopLimits :: u32
  SocketTimeout :: u32
  IPv4_DF :: bool
  SockAddr_Normal :: sockaddr
  SockAddr_SOCKS :: sockaddr
  Parameter_Header :: dns_hdr
  Parameter_Query :: dns_qry
  Parameter_EDNS :: dns_opt_record
  Statistics_Send :: u32
  Statistics_RealSend :: u32
  Statistics_RecvNum :: u32
  Statistics_TotalTime :: real
  Statistics_MaxTime :: real
  Statistics_MinTime :: real
  TestDomain :: bytes
  TargetString_Normal :: bytes
  TargetAddressString :: bytes
  SOCKS_Username :: bytes
  SOCKS_Password :: bytes
  wTargetString :: wstring
  TargetString_SOCKS :: wstring
  wOutputFileName :: wstring
  RawData :: "bytes option"

text \<open>The table is a global variable of the program: one more component of the state.\<close>

record 'w dnsping_st = "'w st" +
  cfg :: config

section \<open>The calls outside\<close>

text \<open>
  Windows and Winsock as DNSPing uses them. \<open>n_to_acp p\<close> is the C string that \<open>WideCharToMultiByte\<close> leaves in
  a zeroed buffer of one byte more than \<open>p\<close> has units; \<open>n_string_to_addr\<close> is \<open>WSAStringToAddressA\<close> (\<open>Inl\<close> an
  error code, \<open>Inr\<close> the address bytes); \<open>n_from_acp t\<close> is what \<open>MultiByteToWideChar\<close> leaves in a buffer of as many units; \<open>n_getaddrinfo\<close> answers \<open>None\<close> for an error code. A \<open>recv\<close> answers
  \<open>None\<close> for \<open>SOCKET_ERROR\<close> and otherwise at most as many bytes as asked for. A
  process has at most one socket of a kind open at a time, so the kind names the socket of a call; \<open>n_getsockname\<close>
  is the port of the datagram socket. \<open>n_nan_to_uint\<close> is what converting a quotient 0/0 to an \<open>unsigned int\<close> gives, which C++ leaves undefined.
\<close>

datatype addrinfo =
    AI_Inet bytes
  | AI_Inet6 bytes u32   \<comment> \<open>address and scope id\<close>
  | AI_Other

record version_info =
  dwPlatformId :: u32
  dwMajorVersion :: u32
  dwMinorVersion :: u32

text \<open>The members of \<open>struct tm\<close> that are printed.\<close>

record tm =
  tm_year :: int
  tm_mon :: int
  tm_mday :: int
  tm_hour :: int
  tm_min :: int
  tm_sec :: int

datatype socket_kind = SOCK_STREAM | SOCK_DGRAM | SOCK_RAW

datatype socket_option = SO_SNDTIMEO | SO_RCVTIMEO | IPV6_UNICAST_HOPS | IP_TTL | IP_DONTFRAGMENT

record 'w net =
  n_module_file_name :: wstring
  n_version :: "version_info option"
  n_set_ctrl_handler :: "'w \<Rightarrow> bool \<times> 'w"
  n_wsa_startup :: "'w \<Rightarrow> bool \<times> 'w"
  n_to_acp :: "wstring \<Rightarrow> bytes"
  n_from_acp :: "bytes \<Rightarrow> wstring"
  n_string_to_addr :: "u16 \<Rightarrow> bytes \<Rightarrow> u32 + bytes"
  n_addr_to_string :: "u16 \<Rightarrow> bytes \<Rightarrow> bytes"
  n_localtime :: "nat \<Rightarrow> tm"
  n_getaddrinfo :: "bytes \<Rightarrow> u16 \<Rightarrow> 'w \<Rightarrow> addrinfo list option \<times> 'w"
  n_open_file :: "wstring \<Rightarrow> 'w \<Rightarrow> bool \<times> 'w"
  n_socket :: "u16 \<Rightarrow> socket_kind \<Rightarrow> u16 \<Rightarrow> 'w \<Rightarrow> bool \<times> 'w"
  n_setsockopt :: "socket_option \<Rightarrow> u32 \<Rightarrow> 'w \<Rightarrow> bool \<times> 'w"
  n_connect :: "socket_kind \<Rightarrow> sockaddr \<Rightarrow> 'w \<Rightarrow> bool \<times> 'w"
  n_getsockname :: "'w \<Rightarrow> u16 option \<times> 'w"
  n_process_id :: u32
  n_frequency :: "'w \<Rightarrow> int \<times> 'w"              \<comment> \<open>0 when the call fails\<close>
  n_counter :: "'w \<Rightarrow> int option \<times> 'w"
  n_send :: "socket_kind \<Rightarrow> bytes \<Rightarrow> 'w \<Rightarrow> bool \<times> 'w"
  n_recv :: "socket_kind \<Rightarrow> nat \<Rightarrow> 'w \<Rightarrow> bytes option \<times> 'w"
  n_sleep :: "nat \<Rightarrow> 'w \<Rightarrow> 'w"
  n_nan_to_uint :: u32

end
