(* ===== verification/Dnsping_Protocol.thy ===== *)
theory Dnsping_Protocol
  imports Dnsping_Base
begin

text \<open>
  The helpers of DNSPing's \<open>Protocol.cpp\<close>: address text, domain names in the format of a DNS query and back,
  and the validation of a response.
\<close>

section \<open>Small helpers\<close>

text \<open>\<open>VER_PLATFORM_WIN32_NT\<close> is 2.\<close>

definition IsLowerThanWin8 :: "version_info option \<Rightarrow> bool" where
  "IsLowerThanWin8 OSVI =
     (case OSVI of
        None \<Rightarrow> False
      | Some v \<Rightarrow> dwPlatformId v = 2
          \<and> (dwMajorVersion v < 6 \<or> dwMajorVersion v = 6 \<and> dwMinorVersion v < 2))"

definition CheckEmptyBuffer :: "bytes \<Rightarrow> bool" where
  "CheckEmptyBuffer Buffer = list_all (\<lambda>b. b = 0) Buffer"

definition CaseConvert :: "bool \<Rightarrow> bytes \<Rightarrow> bytes" where
  "CaseConvert IsLowerUpper Buffer =
     map (\<lambda>c. if IsLowerUpper
               then (if 96 <s c \<and> c <s 123 then c - 32 else c)
               else (if 64 <s c \<and> c <s 91 then c + 32 else c)) Buffer"

section \<open>Address text\<close>

text \<open>\<open>std::string::find\<close> followed by \<open>replace\<close> at the position found.\<close>

fun strip_prefix :: "bytes \<Rightarrow> bytes \<Rightarrow> bytes option" where
  "strip_prefix [] s = Some s"
| "strip_prefix (p # ps) [] = None"
| "strip_prefix (p # ps) (c # cs) = (if p = c then strip_prefix ps cs else None)"

fun replace_first :: "bytes \<Rightarrow> bytes \<Rightarrow> bytes \<Rightarrow> bytes option" where
  "replace_first pat by s =
     (case strip_prefix pat s of
        Some rest \<Rightarrow> Some (by @ rest)
      | None \<Rightarrow> (case s of [] \<Rightarrow> None | c # cs \<Rightarrow> map_option ((#) c) (replace_first pat by cs)))"

declare replace_first.simps [simp del]

definition replace_once :: "bytes \<Rightarrow> bytes \<Rightarrow> bytes \<Rightarrow> bytes" where
  "replace_once pat by s = (case replace_first pat by s of None \<Rightarrow> s | Some t \<Rightarrow> t)"

lemma strip_prefix_length: "strip_prefix p s = Some r \<Longrightarrow> length s = length p + length r"
  by (induction p s rule: strip_prefix.induct) (auto split: if_splits)

lemma replace_first_Nil: "p \<noteq> [] \<Longrightarrow> replace_first p b [] = None"
  by (cases p) (simp_all add: replace_first.simps)

lemma replace_first_length:
  "replace_first p b s = Some t \<Longrightarrow> length t + length p = length s + length b"
proof (induction s arbitrary: t)
  case Nil
  then show ?case by (cases p) (auto simp: replace_first.simps)
next
  case (Cons c cs)
  then show ?case
    by (subst (asm) replace_first.simps)
      (auto split: option.splits dest: strip_prefix_length)
qed

text \<open>The loops that shorten zeros, and the one that puts a zero between two adjacent periods.\<close>

function shorten :: "bytes \<Rightarrow> bytes \<Rightarrow> bytes" where
  "shorten pat s =
     (if length pat < 2 then s
      else case replace_first pat [46] s of None \<Rightarrow> s | Some t \<Rightarrow> shorten pat t)"
  by auto
termination by (relation "measure (length \<circ> snd)") (auto dest: replace_first_length)

declare shorten.simps [simp del]

fun adjacent :: "bytes \<Rightarrow> nat" where
  "adjacent (a # b # s) = of_bool (a = 46 \<and> b = 46) + adjacent (b # s)"
| "adjacent _ = 0"

lemma adjacent_Cons: "adjacent (a # s) = of_bool (s \<noteq> [] \<and> a = 46 \<and> hd s = 46) + adjacent s"
  by (cases s) auto

lemma replace_dots_adjacent:
  "replace_first [46, 46] [46, 48, 46] s = Some t \<Longrightarrow>
     adjacent t < adjacent s \<and> (s \<noteq> [] \<and> t \<noteq> [] \<and> (hd s = 46 \<longleftrightarrow> hd t = 46))"
proof (induction s arbitrary: t)
  case Nil
  then show ?case by (simp add: replace_first.simps)
next
  case (Cons c cs)
  show ?case
  proof (cases "strip_prefix [46, 46] (c # cs)")
    case None
    with Cons.prems obtain t' where t: "replace_first [46, 46] [46, 48, 46] cs = Some t'" "t = c # t'"
      by (subst (asm) replace_first.simps) auto
    from Cons.IH [OF t(1)] t(2) show ?thesis by (auto simp: adjacent_Cons)
  next
    case (Some rest)
    then have "c = 46" "cs = 46 # rest" by (cases cs; auto split: if_splits)+
    moreover have "t = [46, 48, 46] @ rest"
      using Cons.prems Some by (subst (asm) replace_first.simps) auto
    ultimately show ?thesis by (auto simp: adjacent_Cons)
  qed
qed

function fill_zeros :: "bytes \<Rightarrow> bytes" where
  "fill_zeros s =
     (case replace_first [46, 46] [46, 48, 46] s of None \<Rightarrow> s | Some t \<Rightarrow> fill_zeros t)"
  by auto
termination by (relation "measure adjacent") (auto dest: replace_dots_adjacent)

declare fill_zeros.simps [simp del]

text \<open>The text that the IPv4 branch of \<open>AddressStringToBinary\<close> hands to the system.\<close>

fun drop_zeros :: "bytes \<Rightarrow> bytes" where
  "drop_zeros (a # b # s) = (if a = 48 \<and> b \<noteq> 46 then drop_zeros (b # s) else a # b # s)"
| "drop_zeros s = s"

definition ipv4_text :: "bytes \<Rightarrow> bytes" where
  "ipv4_text AddrString =
     (let CommaNum = length (filter (\<lambda>c. c = 46) AddrString);
          s = drop_zeros AddrString;
          s = (if CommaNum = 0 then blit ''0.0.0.'' @ AddrString
               else if CommaNum = 1 then replace_once [46] (blit ''.0.0.'') s
               else if CommaNum = 2 then replace_once [46] (blit ''.0.'') s
               else s);
          s = shorten (blit ''.00'') s;
          s = shorten (blit ''.0'') s;
          s = fill_zeros s
      in if s \<noteq> [] \<and> last s = 46 then s @ [48] else s)"

text \<open>The text that the IPv6 branch hands to the system; its loop over the characters decides nothing.\<close>

definition ipv6_text :: "bytes \<Rightarrow> bytes" where
  "ipv6_text AddrString =
     (case length (filter (\<lambda>c. c = 58) AddrString) of
        0 \<Rightarrow> blit ''::'' @ AddrString
      | Suc 0 \<Rightarrow> replace_once [58] (blit ''::'') AddrString
      | _ \<Rightarrow> AddrString)"

definition AddressStringToBinary :: "'w net \<Rightarrow> bytes \<Rightarrow> u16 \<Rightarrow> bytes option" where
  "AddressStringToBinary net AddrString Proto =
     (if Proto = AF_INET6
      then case n_string_to_addr net AF_INET6 (ipv6_text AddrString) of Inl _ \<Rightarrow> None | Inr a \<Rightarrow> Some a
      else if list_ex (\<lambda>c. c \<noteq> 46 \<and> c <s 48 \<or> 57 <s c) AddrString then None
      else case n_string_to_addr net AF_INET (ipv4_text AddrString) of Inl _ \<Rightarrow> None | Inr a \<Rightarrow> Some a)"

section \<open>Domain names\<close>

text \<open>
  \<open>CharToDNSQuery\<close> fills its target from the end: \<open>query_from\<close> walks the name from its last character, with
  the length of the label so far and what is written behind it. The length it returns ends at the first
  zero byte.
\<close>

fun query_from :: "bytes \<Rightarrow> nat \<Rightarrow> bytes \<Rightarrow> bytes" where
  "query_from [] n out = of_nat n # out"
| "query_from (c # cs) n out =
     (if c = 46 then query_from cs 0 (of_nat n # out) else query_from cs (n + 1) (c # out))"

definition query_buffer :: "bytes \<Rightarrow> bytes" where
  "query_buffer FName = query_from (rev (take DOMAIN_MAXSIZE (takeWhile (\<lambda>c. c \<noteq> 0) FName))) 0 [0]"

definition CharToDNSQuery :: "bytes \<Rightarrow> bytes \<times> nat" where
  "CharToDNSQuery FName =
     (let TName = query_buffer FName
      in (TName, min (DOMAIN_MAXSIZE - 1) (length (takeWhile (\<lambda>c. c \<noteq> 0) TName)) + 1))"

text \<open>
  \<open>DNSQueryToChar\<close>: \<open>i0\<close> and \<open>i1\<close> are the \<open>int\<close> variables \<open>Index[0]\<close> and \<open>Index[1U]\<close>; the comparison with
  the unsigned \<open>uIndex\<close> is modulo 2 to the 32. The characters written are collected in order. The answer is
  the text, the length consumed and the offset of a compression pointer.
\<close>

function query_to_char :: "bytes \<Rightarrow> nat \<Rightarrow> int \<Rightarrow> int \<Rightarrow> bytes \<Rightarrow> bytes \<times> nat \<times> u16" where
  "query_to_char TName u i0 i1 out =
     (if u \<ge> DOMAIN_MAXSIZE then (out, u, 0)
      else if TName ! u \<ge> 0xC0
      then (out, u + 2, push_bit 8 (ucast (TName ! u AND 0x3F)) + ucast (TName ! (u + 1)))
      else if u = 0 then query_to_char TName (u + 1) (sint (TName ! u)) i1 out
      else if int u = (i0 + i1 + 1) mod 2 ^ 32
      then (if TName ! u = 0 then (out, u, 0)
            else query_to_char TName (u + 1) (sint (TName ! u)) (int u) (out @ [46]))
      else query_to_char TName (u + 1) i0 i1 (out @ [TName ! u]))"
  by auto
termination by (relation "measure (\<lambda>(_, u, _). DOMAIN_MAXSIZE - u)") auto

declare query_to_char.simps [simp del]

definition DNSQueryToChar :: "bytes \<Rightarrow> bytes \<times> nat \<times> u16" where
  "DNSQueryToChar TName = query_to_char TName 0 0 0 []"

section \<open>Validation\<close>

text \<open>\<open>Buffer\<close> is the whole receive buffer, \<open>Length\<close> what was received.\<close>

definition ValidatePacket :: "config \<Rightarrow> bytes \<Rightarrow> nat \<Rightarrow> u16 \<Rightarrow> bool" where
  "ValidatePacket c Buffer Length DNS_ID =
     (if load16 Buffer 0 \<noteq> DNS_ID \<or> load16 Buffer 4 = 0 then False
      else if \<not> EDNS c then True
      else if load16 Buffer 10 = 0 then False
      else if load16 Buffer 10 = 1
      then (if Length > sizeof_dns_opt_record
            then \<not> (load16 Buffer (Length - sizeof_dns_opt_record + 3) = 0
                    \<or> DNSSEC c \<and> load16 Buffer (Length - sizeof_dns_opt_record + 7) = 0)
            else False)
      else True)"


section \<open>Dotted addresses\<close>

text \<open>The decimal text of a number, and a dotted text from its components.\<close>

definition dec_text :: "nat \<Rightarrow> bytes" where
  "dec_text n = map (\<lambda>d. 48 + of_nat d) (dec_digits n)"

definition dotted :: "bytes list \<Rightarrow> bytes" where
  "dotted cs = concat (map (\<lambda>c. 46 # c) cs)"

lemma dotted_simps [simp]:
  "dotted [] = []" "dotted (c # cs) = 46 # c @ dotted cs" "dotted (as @ bs) = dotted as @ dotted bs"
  by (simp_all add: dotted_def)

lemma digit_range:
  assumes "d < 10"
  shows "(48 + of_nat d :: u8) \<noteq> 46" "(48 + of_nat d :: u8) \<noteq> 0" "(48 + of_nat d :: u8) = 48 \<longleftrightarrow> d = 0"
    "\<not> (48 + of_nat d :: u8) <s 48" "\<not> 57 <s (48 + of_nat d :: u8)"
proof -
  have "d \<in> {0, 1, 2, 3, 4, 5, 6, 7, 8, 9}" using assms by auto
  then show "(48 + of_nat d :: u8) \<noteq> 46" "(48 + of_nat d :: u8) \<noteq> 0" "(48 + of_nat d :: u8) = 48 \<longleftrightarrow> d = 0"
    "\<not> (48 + of_nat d :: u8) <s 48" "\<not> 57 <s (48 + of_nat d :: u8)"
    by (auto simp: word_sless_alt)
qed

lemma hd_dec_digits: "n \<noteq> 0 \<Longrightarrow> hd (dec_digits n) \<noteq> 0"
proof (induction n rule: dec_digits.induct)
  case (1 n)
  then show ?case by (subst dec_digits.simps) (cases "n < 10"; simp)
qed

lemma dec_text_simps [simp]:
  "dec_text n \<noteq> []" "46 \<notin> set (dec_text n)" "0 \<notin> set (dec_text n)" "dec_text 0 = [48]"
  by (auto simp: dec_text_def digit_range dest: dec_digits_less) (simp add: dec_digits.simps)

lemma dec_text_hd: "n \<noteq> 0 \<Longrightarrow> hd (dec_text n) \<noteq> 48"
proof -
  assume n: "n \<noteq> 0"
  have "hd (dec_digits n) < 10" using dec_digits_less [of "hd (dec_digits n)" n] by simp
  then show ?thesis
    using hd_dec_digits [OF n] digit_range(3) by (simp add: dec_text_def hd_map del: add_eq_self_zero add_right_cancel)
qed

lemma dec_text_Cons: "n \<noteq> 0 \<Longrightarrow> \<exists>c cs. dec_text n = c # cs \<and> c \<noteq> 48 \<and> c \<noteq> 46"
  using dec_text_hd [of n] dec_text_simps(1,2) [of n] by (cases "dec_text n") auto

text \<open>Searching for a pattern that starts with a period skips what has none.\<close>

lemma replace_first_skip:
  "46 \<notin> set x \<Longrightarrow> replace_first (46 # p) b (x @ s) = map_option ((@) x) (replace_first (46 # p) b s)"
proof (induction x)
  case Nil
  then show ?case by (cases "replace_first (46 # p) b s") simp_all
next
  case (Cons c x)
  then show ?case
    by (subst replace_first.simps) (cases "replace_first (46 # p) b s"; simp)
qed

lemma replace_first_dot:
  "replace_first (46 # p) b (46 # s) =
     (case strip_prefix p s of
        Some r \<Rightarrow> Some (b @ r)
      | None \<Rightarrow> map_option ((#) 46) (replace_first (46 # p) b s))"
  by (subst replace_first.simps) (auto split: option.split)

text \<open>A component that is no zero: empty, or the text of a number other than 0.\<close>

definition plain :: "bytes \<Rightarrow> bool" where
  "plain c \<longleftrightarrow> 46 \<notin> set c \<and> (c \<noteq> [] \<longrightarrow> hd c \<noteq> 48)"

lemma plain_simps [simp]: "plain []" "n \<noteq> 0 \<Longrightarrow> plain (dec_text n)"
  by (simp_all add: plain_def dec_text_hd)

lemma plain_next:
  assumes "plain c" shows "strip_prefix (48 # p) (c @ dotted cs) = None"
  using assms by (cases c; cases cs) (auto simp: plain_def)

lemma no_zero:
  "list_all plain cs \<Longrightarrow> replace_first (46 # 48 # p) b (dotted cs) = None"
proof (induction cs)
  case Nil
  show ?case by (simp add: replace_first.simps)
next
  case (Cons c cs)
  then have "46 \<notin> set c" by (simp add: plain_def)
  with Cons show ?case by (simp add: replace_first_dot plain_next replace_first_skip)
qed

lemma first_zero:
  "list_all plain cs \<Longrightarrow>
     replace_first [46, 48] [46] (dotted cs @ 46 # 48 # s) = Some (dotted cs @ 46 # s)"
proof (induction cs)
  case Nil
  show ?case by (simp add: replace_first_dot)
next
  case (Cons c cs)
  then have "46 \<notin> set c" "strip_prefix [48] (c @ dotted cs @ 46 # 48 # s) = None"
    by (cases c; cases cs; auto simp: plain_def)+
  with Cons show ?case by (simp add: replace_first_dot replace_first_skip)
qed

definition emptied :: "nat \<Rightarrow> bytes" where
  "emptied n = (if n = 0 then [] else dec_text n)"

lemma plain_emptied [simp]: "plain (emptied n)"
  by (simp add: emptied_def)

lemma shorten_zeros:
  "46 \<notin> set x \<Longrightarrow> list_all plain ys \<Longrightarrow>
     shorten [46, 48] (x @ dotted (ys @ map dec_text ns)) = x @ dotted (ys @ map emptied ns)"
proof (induction ns arbitrary: ys)
  case Nil
  then show ?case by (subst shorten.simps) (simp add: replace_first_skip no_zero)
next
  case (Cons n ns)
  show ?case
  proof (cases "n = 0")
    case False
    then show ?thesis using Cons.IH [of "ys @ [dec_text n]"] Cons.prems by (simp add: emptied_def)
  next
    case True
    have "shorten [46, 48] (x @ dotted (ys @ map dec_text (n # ns))) =
        shorten [46, 48] (x @ dotted ((ys @ [[]]) @ map dec_text ns))"
      using Cons.prems True by (subst shorten.simps) (simp add: replace_first_skip first_zero)
    then show ?thesis using Cons.IH [of "ys @ [[]]"] Cons.prems True by (simp add: emptied_def)
  qed
qed

lemma shorten_none:
  assumes "46 \<notin> set x" shows "shorten [46, 48, 48] (x @ dotted (map dec_text ns)) = x @ dotted (map dec_text ns)"
proof -
  have "replace_first [46, 48, 48] [46] (dotted (map dec_text ns)) = None" for ns
  proof (induction ns)
    case Nil
    show ?case by (simp add: replace_first.simps)
  next
    case (Cons n ns)
    have "strip_prefix [48, 48] (dec_text n @ dotted (map dec_text ns)) = None"
    proof (cases "n = 0")
      case True
      then show ?thesis by (cases ns) simp_all
    next
      case False
      then obtain c cs where "dec_text n = c # cs" "c \<noteq> 48" using dec_text_Cons by blast
      then show ?thesis by simp
    qed
    with Cons.IH show ?case by (simp add: replace_first_dot replace_first_skip)
  qed
  then show ?thesis using assms by (subst shorten.simps) (simp add: replace_first_skip)
qed


text \<open>Zeros between periods come back; the last component is completed at the end.\<close>

lemma no_dots:
  "46 \<notin> set x \<Longrightarrow> \<forall>c \<in> set cs. c \<noteq> [] \<and> 46 \<notin> set c \<Longrightarrow> 46 \<notin> set l \<Longrightarrow>
     replace_first [46, 46] b (x @ dotted (cs @ [l])) = None"
proof (induction cs arbitrary: x)
  case Nil
  have none: "replace_first [46, 46] b [] = None" by (simp add: replace_first.simps)
  then have "replace_first [46, 46] b l = None"
    using replace_first_skip [of l "[46]" b "[]"] Nil.prems(3) by simp
  with Nil none show ?case by (cases l) (simp_all add: replace_first_skip replace_first_dot)
next
  case (Cons c cs)
  then have "strip_prefix [46] (c @ dotted (cs @ [l])) = None" by (cases c) auto
  with Cons Cons.IH [of c] show ?case by (simp add: replace_first_skip replace_first_dot)
qed

lemma first_dots:
  "46 \<notin> set x \<Longrightarrow> \<forall>c \<in> set cs. c \<noteq> [] \<and> 46 \<notin> set c \<Longrightarrow>
     replace_first [46, 46] [46, 48, 46] (x @ dotted cs @ 46 # 46 # s) = Some (x @ dotted cs @ 46 # 48 # 46 # s)"
proof (induction cs arbitrary: x)
  case Nil
  then show ?case by (simp add: replace_first_skip replace_first_dot)
next
  case (Cons c cs)
  then have "strip_prefix [46] (c @ dotted cs @ 46 # 46 # s) = None" by (cases c) auto
  with Cons Cons.IH [of c] show ?case by (simp add: replace_first_skip replace_first_dot)
qed

lemma fill_zeros_dotted:
  "46 \<notin> set x \<Longrightarrow> \<forall>c \<in> set cs. c \<noteq> [] \<and> 46 \<notin> set c \<Longrightarrow>
     fill_zeros (x @ dotted (cs @ map emptied ns @ [emptied l])) = x @ dotted (cs @ map dec_text ns @ [emptied l])"
proof (induction ns arbitrary: cs)
  case Nil
  have "46 \<notin> set (emptied l)" by (simp add: emptied_def)
  with Nil show ?case using no_dots [of x cs "emptied l"] by (subst fill_zeros.simps) simp
next
  case (Cons n ns)
  show ?case
  proof (cases "n = 0")
    case False
    then show ?thesis using Cons.IH [of "cs @ [dec_text n]"] Cons.prems by (simp add: emptied_def)
  next
    case True
    obtain s where s: "dotted (map emptied ns @ [emptied l]) = 46 # s" by (cases ns) simp_all
    have "fill_zeros (x @ dotted (cs @ map emptied (n # ns) @ [emptied l])) =
        fill_zeros (x @ dotted ((cs @ [[48]]) @ map emptied ns @ [emptied l]))"
      using Cons.prems True s first_dots [of x cs s] by (subst fill_zeros.simps) (simp add: emptied_def)
    then show ?thesis using Cons.IH [of "cs @ [[48]]"] Cons.prems True by simp
  qed
qed

lemma drop_zeros_dec: "drop_zeros (dec_text n @ dotted cs) = dec_text n @ dotted cs"
proof (cases "n = 0")
  case True
  then show ?thesis by (cases cs) simp_all
next
  case False
  then obtain c ds where "dec_text n = c # ds" "c \<noteq> 48" using dec_text_Cons by blast
  then show ?thesis by (cases "ds @ dotted cs") auto
qed

lemma filter_dots [simp]: "46 \<notin> set x \<Longrightarrow> filter (\<lambda>c. c = 46) x = []"
  by (auto simp: filter_empty_conv)

lemma blit_dots: "blit ''.00'' = [46, 48, 48]" "blit ''.0'' = [46, 48]" "blit ''.0.0.'' = [46, 48, 46, 48, 46]"
  "blit ''.0.'' = [46, 48, 46]"
  by (simp_all add: blit_def of_char_def)

lemma last_dotted: "last (x @ dotted (cs @ [l])) = (if l = [] then 46 else last l)"
  by (simp add: last_append)

text \<open>From any text that the first two steps leave as a dotted one.\<close>

lemma normal_tail:
  assumes "t = dec_text n @ dotted (map dec_text (ns @ [l]))"
  shows "(let s = shorten (blit ''.00'') t; s = shorten (blit ''.0'') s; s = fill_zeros s
      in if s \<noteq> [] \<and> last s = 46 then s @ [48] else s) = t"
proof -
  define m where "m = dec_text n @ dotted (map emptied (ns @ [l]))"
  define r where "r = dec_text n @ dotted (map dec_text ns @ [emptied l])"
  have 1: "shorten [46, 48, 48] t = t" unfolding assms by (rule shorten_none) simp
  have 2: "shorten [46, 48] t = m"
    using shorten_zeros [of "dec_text n" "[]" "ns @ [l]"] by (simp add: assms m_def)
  have 3: "fill_zeros m = r"
    using fill_zeros_dotted [of "dec_text n" "[]" ns l] by (simp add: m_def r_def)
  have "last (dec_text l) \<noteq> 46" by (metis last_in_set dec_text_simps(1,2))
  then have 4: "last r = 46 \<longleftrightarrow> l = 0"
    unfolding r_def last_dotted by (auto simp: emptied_def)
  have 5: "r \<noteq> []" "(if l = 0 then r @ [48] else r) = t"
    by (auto simp: r_def assms emptied_def)
  show ?thesis unfolding blit_dots Let_def 1 2 3 4 using 5 by simp
qed

lemma replace_once_dot:
  "replace_once [46] b (dec_text n @ 46 # s) = dec_text n @ b @ s"
  by (simp add: replace_once_def replace_first_skip replace_first_dot)

lemma dec_text_legal: "list_ex (\<lambda>c. c \<noteq> 46 \<and> c <s 48 \<or> 57 <s c) (dec_text n) = False"
  by (auto simp: dec_text_def list_ex_iff digit_range dest: dec_digits_less)

text \<open>Address text. A dotted address of four decimal numbers reaches the system unchanged by the loops that
  strip and restore zeros, and the short forms with two and three numbers are completed with zeros after the
  first number.\<close>
theorem ipv4_text_normal:
  "ipv4_text (dec_text a @ dotted (map dec_text [b, c, d])) = dec_text a @ dotted (map dec_text [b, c, d])
    \<and> ipv4_text (dec_text a @ dotted (map dec_text [b])) = dec_text a @ dotted (map dec_text [0, 0, b])
    \<and> ipv4_text (dec_text a @ dotted (map dec_text [b, c])) = dec_text a @ dotted (map dec_text [0, b, c])"
proof (intro conjI)
  have "drop_zeros (dec_text a @ dotted (map dec_text [b, c, d])) = dec_text a @ dotted (map dec_text [b, c, d])"
    by (rule drop_zeros_dec)
  then show "ipv4_text (dec_text a @ dotted (map dec_text [b, c, d])) = dec_text a @ dotted (map dec_text [b, c, d])"
    using normal_tail [of _ a "[b, c]" d, OF refl] by (simp add: ipv4_text_def)
  have "drop_zeros (dec_text a @ dotted (map dec_text [b])) = dec_text a @ dotted (map dec_text [b])"
    by (rule drop_zeros_dec)
  then show "ipv4_text (dec_text a @ dotted (map dec_text [b])) = dec_text a @ dotted (map dec_text [0, 0, b])"
    using normal_tail [of _ a "[0, 0]" b, OF refl] by (simp add: ipv4_text_def replace_once_dot blit_dots(3))
  have "drop_zeros (dec_text a @ dotted (map dec_text [b, c])) = dec_text a @ dotted (map dec_text [b, c])"
    by (rule drop_zeros_dec)
  then show "ipv4_text (dec_text a @ dotted (map dec_text [b, c])) = dec_text a @ dotted (map dec_text [0, b, c])"
    using normal_tail [of _ a "[0, b]" c, OF refl] by (simp add: ipv4_text_def replace_once_dot blit_dots(4))
qed

section \<open>Names in a query\<close>

text \<open>The text of a name and its encoding, from its labels.\<close>

fun join :: "bytes list \<Rightarrow> bytes" where
  "join [] = []"
| "join [l] = l"
| "join (l # ls) = l @ 46 # join ls"

definition encode_labels :: "bytes list \<Rightarrow> bytes" where
  "encode_labels ls = concat (map (\<lambda>l. of_nat (length l) # l) ls)"

definition label_ok :: "bytes \<Rightarrow> bool" where
  "label_ok l \<longleftrightarrow> l \<noteq> [] \<and> length l \<le> 63 \<and> (\<forall>c \<in> set l. c \<noteq> 46 \<and> c \<noteq> 0 \<and> c < 0xC0)"

lemma encode_simps [simp]:
  "encode_labels [] = []" "encode_labels (l # ls) = of_nat (length l) # l @ encode_labels ls"
  by (simp_all add: encode_labels_def)

lemma query_from_skip: "46 \<notin> set x \<Longrightarrow> query_from (rev x @ r) n out = query_from r (n + length x) (x @ out)"
proof (induction x arbitrary: r)
  case (Cons c x)
  then show ?case by (simp add: Cons.IH)
qed simp

lemma query_from_dot: "query_from (x @ 46 # y) n out = query_from y 0 (query_from x n out)"
  by (induction x n out rule: query_from.induct) auto

lemma query_from_join:
  "ls \<noteq> [] \<Longrightarrow> \<forall>l \<in> set ls. 46 \<notin> set l \<Longrightarrow> query_from (rev (join ls)) 0 out = encode_labels ls @ out"
proof (induction ls arbitrary: out rule: join.induct)
  case (2 l)
  then show ?case using query_from_skip [of l "[]" 0 out] by simp
next
  case (3 l m ls)
  then have "query_from (rev (join (l # m # ls))) 0 out = query_from (rev l) 0 (encode_labels (m # ls) @ out)"
    by (simp add: query_from_dot)
  then show ?case using query_from_skip [of l "[]"] 3(3) by simp
qed simp

lemma length_encode: "ls \<noteq> [] \<Longrightarrow> length (encode_labels ls) = length (join ls) + 1"
  by (induction ls rule: join.induct) simp_all

lemma join_nonzero: "\<forall>l \<in> set ls. 0 \<notin> set l \<Longrightarrow> 0 \<notin> set (join ls)"
  by (induction ls rule: join.induct) auto

lemma label_length:
  assumes "label_ok l"
  shows "(of_nat (length l) :: u8) \<noteq> 0" "sint (of_nat (length l) :: u8) = int (length l)"
    "\<not> 0xC0 \<le> (of_nat (length l) :: u8)" "0 < length l"
proof -
  have l: "0 < length l" "length l < 64" using assms by (auto simp: label_ok_def)
  then have u: "unat (of_nat (length l) :: u8) = length l" by (simp add: unat_of_nat)
  then show "(of_nat (length l) :: u8) \<noteq> 0" "0 < length l" using l by auto
  show "\<not> 0xC0 \<le> (of_nat (length l) :: u8)" using u l by (simp add: word_le_nat_alt)
  have "uint (of_nat (length l) :: u8) = int (length l)" using u by (metis uint_nat)
  then show "sint (of_nat (length l) :: u8) = int (length l)"
    using l by (simp add: sint_uint signed_take_bit_int_eq_self)
qed

lemma encode_nonzero: "\<forall>l \<in> set ls. label_ok l \<Longrightarrow> 0 \<notin> set (encode_labels ls)"
  by (induction ls) (auto simp: label_length(1) [THEN not_sym], auto simp: label_ok_def)


text \<open>Decoding: the characters of one label, then label after label.\<close>

lemma query_copy:
  assumes "label_ok l" and "u + length l < DOMAIN_MAXSIZE" and "\<forall>i < length l. T ! (u + 1 + i) = l ! i"
    and "k \<le> length l"
  shows "query_to_char T (u + 1 + k) (int (length l)) (int u) out =
    query_to_char T (u + 1 + length l) (int (length l)) (int u) (out @ drop k l)"
  using assms(4)
proof (induction "length l - k" arbitrary: k out)
  case 0
  then show ?case by simp
next
  case (Suc d)
  then have k: "k < length l" by simp
  have "T ! (u + 1 + k) = l ! k" "l ! k < 0xC0"
    using k assms(1,3) by (auto simp: label_ok_def)
  then have c: "\<not> 0xC0 \<le> T ! (u + 1 + k)" by (simp add: not_le)
  have m: "int (u + 1 + k) \<noteq> (int (length l) + int u + 1) mod 2 ^ 32"
    using k assms(2) by (subst mod_pos_pos_trivial) (auto simp: DOMAIN_MAXSIZE_def)
  have "query_to_char T (u + 1 + k) (int (length l)) (int u) out =
      query_to_char T (u + 1 + k + 1) (int (length l)) (int u) (out @ [T ! (u + 1 + k)])"
    using k assms(2) c m by (subst query_to_char.simps) simp
  also have "\<dots> = query_to_char T (u + 1 + Suc k) (int (length l)) (int u) (out @ [l ! k])"
    using \<open>T ! (u + 1 + k) = l ! k\<close> by simp
  also have "\<dots> = query_to_char T (u + 1 + length l) (int (length l)) (int u) ((out @ [l ! k]) @ drop (Suc k) l)"
    using Suc k by (intro Suc.hyps(1)) simp_all
  finally show ?case using k by (simp add: Cons_nth_drop_Suc)
qed

lemma query_decode:
  assumes "\<forall>l \<in> set (l # ls). label_ok l" and "length pre + length (join (l # ls)) < 255"
  shows "\<exists>i0 i1. int (length pre + length (join (l # ls)) + 1) = (i0 + i1 + 1) mod 2 ^ 32
    \<and> query_to_char (pre @ encode_labels (l # ls) @ tail) (length pre + 1) (int (length l)) (int (length pre)) out
      = query_to_char (pre @ encode_labels (l # ls) @ tail) (length pre + length (join (l # ls)) + 1) i0 i1
          (out @ join (l # ls))"
  using assms
proof (induction ls arbitrary: l pre out)
  case Nil
  let ?T = "pre @ encode_labels [l] @ tail"
  have l: "label_ok l" "length pre + length l < 255" using Nil by simp_all
  have "?T ! (length pre + 1 + i) = l ! i" if "i < length l" for i
    using that by (simp add: nth_append)
  then have "query_to_char ?T (length pre + 1 + 0) (int (length l)) (int (length pre)) out =
      query_to_char ?T (length pre + 1 + length l) (int (length l)) (int (length pre)) (out @ drop 0 l)"
    using l by (intro query_copy) (simp_all add: DOMAIN_MAXSIZE_def)
  moreover have "int (length pre + length l + 1) = (int (length l) + int (length pre) + 1) mod 2 ^ 32"
    using l(2) by (subst mod_pos_pos_trivial) simp_all
  ultimately show ?case
    by (intro exI [of _ "int (length l)"] exI [of _ "int (length pre)"]) (simp add: ac_simps)
next
  case (Cons m ls)
  let ?T = "pre @ encode_labels (l # m # ls) @ tail"
  let ?pre = "pre @ encode_labels [l]"
  have l: "label_ok l" "label_ok m" "length pre + length l < 254" using Cons.prems by simp_all
  have "?T ! (length pre + 1 + i) = l ! i" if "i < length l" for i
    using that by (simp add: nth_append)
  then have 1: "query_to_char ?T (length pre + 1 + 0) (int (length l)) (int (length pre)) out =
      query_to_char ?T (length pre + 1 + length l) (int (length l)) (int (length pre)) (out @ drop 0 l)"
    using l by (intro query_copy) (simp_all add: DOMAIN_MAXSIZE_def)
  have b: "?T ! (length pre + 1 + length l) = of_nat (length m)" by (simp add: nth_append)
  have 2: "query_to_char ?T (length pre + 1 + length l) (int (length l)) (int (length pre)) (out @ l) =
      query_to_char ?T (length pre + 1 + length l + 1) (int (length m)) (int (length pre + 1 + length l)) ((out @ l) @ [46])"
    using l label_length(4) [OF l(1)]
    by (subst query_to_char.simps, unfold b) (simp add: DOMAIN_MAXSIZE_def label_length [OF l(2)] del: not_le)
  have T: "?T = ?pre @ encode_labels (m # ls) @ tail" by simp
  have "\<forall>l \<in> set (m # ls). label_ok l" "length ?pre + length (join (m # ls)) < 255"
    using Cons.prems by simp_all
  from Cons.IH [OF this, of "(out @ l) @ [46]"] obtain i0 i1 where
    e: "int (length ?pre + length (join (m # ls)) + 1) = (i0 + i1 + 1) mod 2 ^ 32"
    and q: "query_to_char ?T (length ?pre + 1) (int (length m)) (int (length ?pre)) ((out @ l) @ [46])
      = query_to_char ?T (length ?pre + length (join (m # ls)) + 1) i0 i1 (((out @ l) @ [46]) @ join (m # ls))"
    unfolding T by blast
  have len: "length ?pre = length pre + 1 + length l"
    "length ?pre + length (join (m # ls)) + 1 = length pre + length (join (l # m # ls)) + 1" by simp_all
  from 1 2 q have "query_to_char ?T (length pre + 1) (int (length l)) (int (length pre)) out
      = query_to_char ?T (length pre + length (join (l # m # ls)) + 1) i0 i1 (out @ join (l # m # ls))"
    unfolding len by (simp add: add.assoc)
  with e len(2) show ?case by metis
qed

text \<open>From the first byte of a name: all its labels are read, and what follows decides.\<close>

lemma decode_labels:
  assumes "ls \<noteq> []" and "\<forall>l \<in> set ls. label_ok l" and "length (join ls) \<le> 253"
  shows "\<exists>i0 i1. int (length (join ls) + 1) = (i0 + i1 + 1) mod 2 ^ 32
    \<and> DNSQueryToChar (encode_labels ls @ tail)
      = query_to_char (encode_labels ls @ tail) (length (join ls) + 1) i0 i1 (join ls)"
proof -
  obtain l ls' where ls: "ls = l # ls'" using assms(1) by (cases ls) auto
  have l: "label_ok l" using assms(2) ls by simp
  let ?T = "encode_labels ls @ tail"
  have "?T ! 0 = of_nat (length l)" by (simp add: ls)
  then have "DNSQueryToChar ?T = query_to_char ?T 1 (int (length l)) 0 []"
    by (simp add: DNSQueryToChar_def query_to_char.simps [of _ 0] DOMAIN_MAXSIZE_def label_length [OF l] del: not_le)
  with query_decode [of l ls' "[]" tail "[]"] assms(2,3) show ?thesis by (simp add: ls)
qed

text \<open>Behind the labels: the end of the name, or a compression pointer.\<close>

definition pointer_target :: "u8 \<Rightarrow> u8 \<Rightarrow> u16" where
  "pointer_target hi lo = push_bit 8 (ucast (hi AND 0x3F)) + ucast lo"

lemma decode_end:
  assumes "ls \<noteq> []" and "\<forall>l \<in> set ls. label_ok l" and "length (join ls) \<le> 253"
  shows "DNSQueryToChar (encode_labels ls @ 0 # rest) = (join ls, length (join ls) + 1, 0)"
    and "0xC0 \<le> hi \<Longrightarrow> DNSQueryToChar (encode_labels ls @ hi # lo # rest) =
      (join ls, length (join ls) + 3, pointer_target hi lo)"
proof -
  have n: "length (encode_labels ls) = length (join ls) + 1" by (rule length_encode [OF assms(1)])
  have at: "(encode_labels ls @ b # tail) ! (length (join ls) + 1) = b" for b tail
    unfolding n [symmetric] by (rule nth_append_length)
  obtain i0 i1 where "int (length (join ls) + 1) = (i0 + i1 + 1) mod 2 ^ 32"
    "DNSQueryToChar (encode_labels ls @ 0 # rest)
      = query_to_char (encode_labels ls @ 0 # rest) (length (join ls) + 1) i0 i1 (join ls)"
    using decode_labels [OF assms] by blast
  then show "DNSQueryToChar (encode_labels ls @ 0 # rest) = (join ls, length (join ls) + 1, 0)"
    using assms(3) at [of 0 rest] by (simp add: query_to_char.simps [of _ "Suc (length (join ls))"] DOMAIN_MAXSIZE_def)
  assume hi: "0xC0 \<le> hi"
  obtain i0 i1 where
    "DNSQueryToChar (encode_labels ls @ hi # lo # rest)
      = query_to_char (encode_labels ls @ hi # lo # rest) (length (join ls) + 1) i0 i1 (join ls)"
    using decode_labels [OF assms] by blast
  moreover have "(encode_labels ls @ hi # lo # rest) ! (length (join ls) + 2) = lo"
    using n by (simp add: nth_append)
  ultimately show "DNSQueryToChar (encode_labels ls @ hi # lo # rest) =
      (join ls, length (join ls) + 3, pointer_target hi lo)"
    using assms(3) hi at [of hi "lo # rest"]
    by (simp add: query_to_char.simps [of _ "Suc (length (join ls))"] DOMAIN_MAXSIZE_def pointer_target_def)
qed

text \<open>Names in a query. A name of labels of 1 to 63 characters and at most 253 in all becomes the labels with
  their lengths and a terminating zero, with the length the packet needs; decoding that, with anything behind
  it, gives the name back, the length of its encoding, and no compression pointer.\<close>
theorem query_roundtrip:
  assumes "ls \<noteq> []" and "\<forall>l \<in> set ls. label_ok l" and "length (join ls) \<le> 253"
  shows "CharToDNSQuery (join ls) = (encode_labels ls @ [0], length (join ls) + 2)
    \<and> DNSQueryToChar (encode_labels ls @ 0 # rest) = (join ls, length (join ls) + 1, 0)"
proof
  have nz: "0 \<notin> set (join ls)" "\<forall>l \<in> set ls. 46 \<notin> set l"
    using assms(2) by (auto simp: label_ok_def intro!: join_nonzero)
  have tw: "takeWhile (\<lambda>c. c \<noteq> 0) (join ls) = join ls"
    using nz(1) by (auto simp: takeWhile_eq_all_conv)
  have q: "query_buffer (join ls) = encode_labels ls @ [0]"
    using query_from_join [OF assms(1) nz(2), of "[0]"] assms(3)
    unfolding query_buffer_def tw by (simp add: DOMAIN_MAXSIZE_def)
  have "takeWhile (\<lambda>c. c \<noteq> 0) (encode_labels ls @ [0]) = encode_labels ls"
    using encode_nonzero [OF assms(2)] by (subst takeWhile_append2) auto
  then show "CharToDNSQuery (join ls) = (encode_labels ls @ [0], length (join ls) + 2)"
    using assms(3) by (simp add: CharToDNSQuery_def q length_encode [OF assms(1)] DOMAIN_MAXSIZE_def)
  show "DNSQueryToChar (encode_labels ls @ 0 # rest) = (join ls, length (join ls) + 1, 0)"
    by (rule decode_end(1) [OF assms])
qed

theorem query_roundtrip_witness:
  "CharToDNSQuery (blit ''www.qq.com'') = ([3, 119, 119, 119, 2, 113, 113, 3, 99, 111, 109, 0], 12)
    \<and> DNSQueryToChar [3, 119, 119, 119, 2, 113, 113, 3, 99, 111, 109, 0] = (blit ''www.qq.com'', 11, 0)"
  using query_roundtrip [of "[[119, 119, 119], [113, 113], [99, 111, 109]]" "[]"]
  by (simp add: label_ok_def blit_def of_char_def)

text \<open>The option record of a response is not looked at. With EDNS on, a response that announces one additional
  record in network order is validated by its identification and question count alone: the code compares
  the count with 1 without converting it, so the branch that inspects the record is for 256 records.\<close>
theorem validate_ignores_opt:
  assumes "load16 Buffer 10 = htons 1"
  shows "ValidatePacket c Buffer Length DNS_ID \<longleftrightarrow> load16 Buffer 0 = DNS_ID \<and> load16 Buffer 4 \<noteq> 0"
proof -
  have "htons 1 = 256" by (simp add: htons_def)
  with assms show ?thesis by (simp add: ValidatePacket_def)
qed

theorem validate_ignores_opt_witness:
  "\<forall>c. ValidatePacket c [7, 0, 0, 0, 0, 1, 0, 0, 0, 0, 0, 1] 12 7"
  using validate_ignores_opt [of "[7, 0, 0, 0, 0, 1, 0, 0, 0, 0, 0, 1]" _ 12 7]
  by (simp add: load16_def htons_def)

end
