(* ===== verification/Dnsping_Commands.thy ===== *)
theory Dnsping_Commands
  imports Dnsping_Protocol
begin

text \<open>
  The command line of DNSPing: \<open>ConfigurationInitialization\<close> and \<open>ReadCommands\<close> of \<open>Main.cpp\<close> (Win32
  branches). The chain of comparisons in the loop over the arguments is split into groups, in its order; a
  group answers \<open>None\<close> when none of its options is there. An option that takes a value uses the next
  argument; the answer of an option is whether reading goes on, whether it used the next argument, and the state.
\<close>

section \<open>Numbers\<close>

text \<open>
  \<open>wcstoul\<close> and \<open>strtoul\<close> with base 0, on the units of the text: white space, a sign, the prefix of the base,
  the longest run of digits; too large a number is \<open>ULONG_MAX\<close>, no digits are 0.
\<close>

definition digit_value :: "nat \<Rightarrow> nat" where
  "digit_value c =
     (if 48 \<le> c \<and> c \<le> 57 then c - 48
      else if 65 \<le> c \<and> c \<le> 90 then c - 55
      else if 97 \<le> c \<and> c \<le> 122 then c - 87 else 36)"

definition number_prefix :: "nat \<Rightarrow> nat list \<Rightarrow> nat" where
  "number_prefix base s = foldl (\<lambda>n c. n * base + digit_value c) 0 (takeWhile (\<lambda>c. digit_value c < base) s)"

definition is_space :: "nat \<Rightarrow> bool" where
  "is_space c \<longleftrightarrow> 9 \<le> c \<and> c \<le> 13 \<or> c = 32"

fun unsigned_number :: "nat list \<Rightarrow> nat" where
  "unsigned_number (a # b # s) =
     (if a = 48 \<and> (b = 120 \<or> b = 88) then number_prefix 16 s
      else if a = 48 then number_prefix 8 (b # s)
      else number_prefix 10 (a # b # s))"
| "unsigned_number s = number_prefix 10 s"

definition strtoul :: "nat list \<Rightarrow> u32" where
  "strtoul s =
     (let s = dropWhile is_space s;
          (negative, s) = (case s of [] \<Rightarrow> (False, s)
             | c # cs \<Rightarrow> if c = 45 then (True, cs) else if c = 43 then (False, cs) else (False, s));
          n = unsigned_number s
      in if n \<ge> 2 ^ 32 then -1 else if negative then - of_nat n else of_nat n)"

definition wcstoul :: "wstring \<Rightarrow> u32" where
  "wcstoul s = strtoul (map unat s)"

section \<open>Initialisation\<close>

text \<open>
  The \<open>memset\<close> covers the members in front of the strings, so the strings and the raw data of an earlier
  call stay.
\<close>

definition cleared :: "config \<Rightarrow> config" where
  "cleared c =
     \<lparr>OutputFile = False, TransmissionInterval = 0, BufferSize = 0, RawDataLen = 0, EDNSPayloadSize = 0,
      Protocol = 0, ServiceType = 0, ReverseLookup = False, RawSocket = False, EDNS = False, DNSSEC = False,
      Validate = False, ShowResponse = False, ShowResponseHex = False, IP_HopLimits = 0, SocketTimeout = 0,
      IPv4_DF = False, SockAddr_Normal = zero_sockaddr, SockAddr_SOCKS = zero_sockaddr,
      Parameter_Header = zero_hdr, Parameter_Query = \<lparr>Type = 0, Classes = 0\<rparr>, Parameter_EDNS = zero_opt,
      Statistics_Send = 0, Statistics_RealSend = 0, Statistics_RecvNum = 0, Statistics_TotalTime = 0,
      Statistics_MaxTime = 0, Statistics_MinTime = 0,
      TestDomain = TestDomain c, TargetString_Normal = TargetString_Normal c,
      TargetAddressString = TargetAddressString c, SOCKS_Username = SOCKS_Username c,
      SOCKS_Password = SOCKS_Password c, wTargetString = wTargetString c,
      TargetString_SOCKS = TargetString_SOCKS c, wOutputFileName = wOutputFileName c, RawData = RawData c\<rparr>"

definition ConfigurationInitialization ::
  "'w net \<Rightarrow> ('w, 'm) dnsping_st_scheme \<Rightarrow> bool \<times> ('w, 'm) dnsping_st_scheme" where
  "ConfigurationInitialization net s =
     (let s = s\<lparr>cfg := (cleared (cfg s))\<lparr>Statistics_Send := of_nat DEFAULT_SEND_TIMES,
                  BufferSize := of_nat PACKET_MAXSIZE, Validate := True,
                  SocketTimeout := of_nat DEFAULT_TIME_OUT\<rparr>\<rparr>;
          (handler, s) = call (n_set_ctrl_handler net) s
      in if \<not> handler then (False, s) else call (n_wsa_startup net) s)"

section \<open>Reading options\<close>

type_synonym ('w, 'm) answer = "bool \<times> bool \<times> ('w, 'm) dnsping_st_scheme"

definition set_cfg :: "(config \<Rightarrow> config) \<Rightarrow> ('w, 'm) dnsping_st_scheme \<Rightarrow> ('w, 'm) dnsping_st_scheme" where
  "set_cfg f s = s\<lparr>cfg := f (cfg s)\<rparr>"

definition is_option :: "string list \<Rightarrow> wstring \<Rightarrow> bool" where
  "is_option names Parameter \<longleftrightarrow> list_ex (\<lambda>n. Parameter = wlit n) names"

definition plain_option ::
  "(config \<Rightarrow> config) \<Rightarrow> ('w, 'm) dnsping_st_scheme \<Rightarrow> ('w, 'm) answer option" where
  "plain_option f s = Some (True, False, set_cfg f s)"

text \<open>An option with a value: the next argument, or the error that there are not enough of them.\<close>

definition value_option ::
  "wstring list \<Rightarrow> nat \<Rightarrow> (wstring \<Rightarrow> ('w, 'm) dnsping_st_scheme \<Rightarrow> bool \<times> ('w, 'm) dnsping_st_scheme) \<Rightarrow>
     ('w, 'm) dnsping_st_scheme \<Rightarrow> ('w, 'm) answer option" where
  "value_option argv Index f s =
     Some (if Index + 1 < length argv then (let (ok, s) = f (argv ! (Index + 1)) s in (ok, True, s))
           else (False, False, s))"

text \<open>A number in a range. \<open>SSIZE_T\<close> is signed; a comparison with an unsigned constant is unsigned.\<close>

definition number_value ::
  "(u32 \<Rightarrow> bool) \<Rightarrow> (u32 \<Rightarrow> config \<Rightarrow> config) \<Rightarrow> wstring \<Rightarrow> ('w, 'm) dnsping_st_scheme \<Rightarrow>
     bool \<times> ('w, 'm) dnsping_st_scheme" where
  "number_value ok f Parameter s =
     (let Result = wcstoul Parameter in if ok Result then (True, set_cfg (f Result) s) else (False, s))"

definition upto16 :: "u32 \<Rightarrow> bool" where "upto16 r \<longleftrightarrow> 0 < sint r \<and> sint r \<le> 0xFFFF"
definition upto8 :: "u32 \<Rightarrow> bool" where "upto8 r \<longleftrightarrow> 0 < sint r \<and> sint r \<le> 0xFF"
definition upto4 :: "u32 \<Rightarrow> bool" where "upto4 r \<longleftrightarrow> 0 < sint r \<and> sint r \<le> 0xF"

definition set_header :: "(dns_hdr \<Rightarrow> dns_hdr) \<Rightarrow> config \<Rightarrow> config" where
  "set_header f c = c\<lparr>Parameter_Header := f (Parameter_Header c)\<rparr>"

definition commands_basic ::
  "wstring list \<Rightarrow> nat \<Rightarrow> wstring \<Rightarrow> ('w, 'm) dnsping_st_scheme \<Rightarrow> ('w, 'm) answer option" where
  "commands_basic argv Index Parameter s =
     (if 63 \<in> set Parameter \<or> is_option [''-h'', ''--help''] Parameter then plain_option id s
      else if is_option [''-t'', ''--until-break''] Parameter
      then plain_option (\<lambda>c. c\<lparr>Statistics_Send := 0\<rparr>) s
      else if is_option [''-a'', ''--reverse-lookup''] Parameter
      then plain_option (\<lambda>c. c\<lparr>ReverseLookup := True\<rparr>) s
      else if is_option [''-n'', ''--number''] Parameter
      then value_option argv Index (number_value upto16 (\<lambda>r c. c\<lparr>Statistics_Send := r\<rparr>)) s
      else if is_option [''-f'', ''--do-not-fragment''] Parameter
      then plain_option (\<lambda>c. c\<lparr>IPv4_DF := True\<rparr>) s
      else if is_option [''-i'', ''--hop-limits''] Parameter
      then value_option argv Index (number_value upto8 (\<lambda>r c. c\<lparr>IP_HopLimits := r\<rparr>)) s
      else if is_option [''-w'', ''--waiting-time''] Parameter
      then value_option argv Index
             (number_value (\<lambda>r. TIME_OUT_MIN \<le> unat r \<and> sint r < 0xFFFF) (\<lambda>r c. c\<lparr>SocketTimeout := r\<rparr>)) s
      else None)"

definition commands_header ::
  "wstring list \<Rightarrow> nat \<Rightarrow> wstring \<Rightarrow> ('w, 'm) dnsping_st_scheme \<Rightarrow> ('w, 'm) answer option" where
  "commands_header argv Index Parameter s =
     (if is_option [''-id'', ''--dns-id''] Parameter
      then value_option argv Index
             (number_value upto16 (\<lambda>r. set_header (\<lambda>h. h\<lparr>ID := htons (ucast r)\<rparr>))) s
      else if is_option [''-qr'', ''--flags-qr''] Parameter then plain_option (set_header (invert_flag QR)) s
      else if is_option [''-opcode'', ''--flags-opcode''] Parameter
      then value_option argv Index
             (number_value upto4 (\<lambda>r. set_header (\<lambda>h. h\<lparr>Flags := Flags h OR htons (push_bit 11 (ucast r))\<rparr>))) s
      else if is_option [''-aa'', ''--flags-aa''] Parameter then plain_option (set_header (invert_flag AA)) s
      else if is_option [''-tc'', ''--flags-tc''] Parameter then plain_option (set_header (invert_flag TC)) s
      else if is_option [''-rd'', ''--flags-rd''] Parameter then plain_option (set_header (invert_flag RD)) s
      else if is_option [''-ra'', ''--flags-ra''] Parameter then plain_option (set_header (invert_flag RA)) s
      else if is_option [''-ad'', ''--flags-ad''] Parameter then plain_option (set_header (invert_flag AD)) s
      else if is_option [''-cd'', ''--flags-cd''] Parameter then plain_option (set_header (invert_flag CD)) s
      else if is_option [''-rcode'', ''--flags-rcode''] Parameter
      then value_option argv Index
             (number_value upto4 (\<lambda>r. set_header (\<lambda>h. h\<lparr>Flags := Flags h OR htons (ucast r)\<rparr>))) s
      else None)"

definition commands_counts ::
  "wstring list \<Rightarrow> nat \<Rightarrow> wstring \<Rightarrow> ('w, 'm) dnsping_st_scheme \<Rightarrow> ('w, 'm) answer option" where
  "commands_counts argv Index Parameter s =
     (if is_option [''-qn'', ''--dns-qn''] Parameter
      then value_option argv Index
             (number_value upto16 (\<lambda>r. set_header (\<lambda>h. h\<lparr>Questions := htons (ucast r)\<rparr>))) s
      else if is_option [''-ann'', ''--dns-ann''] Parameter
      then value_option argv Index
             (number_value upto16 (\<lambda>r. set_header (\<lambda>h. h\<lparr>Answer := htons (ucast r)\<rparr>))) s
      else if is_option [''-aun'', ''--dns-aun''] Parameter
      then value_option argv Index
             (number_value upto16 (\<lambda>r. set_header (\<lambda>h. h\<lparr>Authority := htons (ucast r)\<rparr>))) s
      else if is_option [''-adn'', ''--dns-adn''] Parameter
      then value_option argv Index
             (number_value upto16 (\<lambda>r. set_header (\<lambda>h. h\<lparr>Additional := htons (ucast r)\<rparr>))) s
      else if is_option [''-ti'', ''--transmission-interval''] Parameter
      then value_option argv Index
             (number_value (\<lambda>r. 0 \<le> sint r) (\<lambda>r c. c\<lparr>TransmissionInterval := r\<rparr>)) s
      else None)"

text \<open>A name of a table, or a number.\<close>

definition named_value ::
  "(wstring \<Rightarrow> u16) \<Rightarrow> (u16 \<Rightarrow> config \<Rightarrow> config) \<Rightarrow> wstring \<Rightarrow> ('w, 'm) dnsping_st_scheme \<Rightarrow>
     bool \<times> ('w, 'm) dnsping_st_scheme" where
  "named_value table f Parameter s =
     (if table Parameter = 0 then number_value upto16 (\<lambda>r. f (htons (ucast r))) Parameter s
      else (True, set_cfg (f (table Parameter)) s))"

definition commands_query ::
  "wstring list \<Rightarrow> nat \<Rightarrow> wstring \<Rightarrow> ('w, 'm) dnsping_st_scheme \<Rightarrow> ('w, 'm) answer option" where
  "commands_query argv Index Parameter s =
     (if is_option [''-edns''] Parameter then plain_option (\<lambda>c. c\<lparr>EDNS := True\<rparr>) s
      else if is_option [''-payload''] Parameter
      then value_option argv Index
             (number_value (\<lambda>r. OLD_DNS_MAXSIZE < unat r \<and> sint r \<le> 0xFFFF)
               (\<lambda>r c. c\<lparr>EDNSPayloadSize := r, EDNS := True\<rparr>)) s
      else if is_option [''-dnssec''] Parameter then plain_option (\<lambda>c. c\<lparr>EDNS := True, DNSSEC := True\<rparr>) s
      else if is_option [''-qt'', ''--query-type''] Parameter
      then value_option argv Index (named_value DNSTypeNameToHex
             (\<lambda>n c. c\<lparr>Parameter_Query := (Parameter_Query c)\<lparr>Type := n\<rparr>\<rparr>)) s
      else if is_option [''-qc'', ''--query-classes''] Parameter
      then value_option argv Index (named_value DNSClassesNameToHex
             (\<lambda>n c. c\<lparr>Parameter_Query := (Parameter_Query c)\<lparr>Classes := n\<rparr>\<rparr>)) s
      else if is_option [''-p'', ''--port''] Parameter
      then value_option argv Index (named_value ServiceNameToPort (\<lambda>n c. c\<lparr>ServiceType := n\<rparr>)) s
      else None)"


section \<open>Raw data\<close>

text \<open>
  The loop over the hexadecimal digits, two at a time (the terminator of the string completes an odd number).
  A byte goes to position \<open>RawDataLen\<close> of a buffer of \<open>PACKET_MAXSIZE\<close> bytes; a write behind its end is
  undefined in the code and has no effect here.
\<close>

fun raw_bytes :: "bytes \<Rightarrow> config \<Rightarrow> bool \<times> config" where
  "raw_bytes [] c = (True, c)"
| "raw_bytes (a # rest) c =
     (let b = (case rest of [] \<Rightarrow> 0 | x # _ \<Rightarrow> x);
          Result = strtoul ([48, 120] @ map unat (takeWhile (\<lambda>x. x \<noteq> 0) [a, b]))
      in if upto8 Result
         then raw_bytes (drop 1 rest)
                (c\<lparr>RawData := map_option (\<lambda>d. d[RawDataLen c := ucast Result]) (RawData c),
                   RawDataLen := RawDataLen c + 1\<rparr>)
         else (False, c))"

definition read_rawdata ::
  "'w net \<Rightarrow> wstring \<Rightarrow> ('w, 'm) dnsping_st_scheme \<Rightarrow> bool \<times> ('w, 'm) dnsping_st_scheme" where
  "read_rawdata net Parameter s =
     (let RawDataString = n_to_acp net Parameter
      in if length RawDataString < PACKET_MINSIZE \<and> length RawDataString > PACKET_MAXSIZE then (False, s)
         else let (ok, c) = raw_bytes RawDataString ((cfg s)\<lparr>RawData := Some (replicate PACKET_MAXSIZE 0)\<rparr>)
              in (ok, s\<lparr>cfg := c\<rparr>))"

text \<open>\<open>IPPROTO_UDP\<close> is 17.\<close>

definition read_raw :: "wstring \<Rightarrow> ('w, 'm) dnsping_st_scheme \<Rightarrow> bool \<times> ('w, 'm) dnsping_st_scheme" where
  "read_raw Parameter s =
     (let s = set_cfg (\<lambda>c. c\<lparr>RawSocket := True\<rparr>) s;
          n = InternetProtocolNameToPort Parameter;
          Result = wcstoul Parameter
      in if n = 0
         then (if Result = 17 then (True, set_cfg (\<lambda>c. c\<lparr>RawSocket := False\<rparr>) s)
               else if upto4 Result then (True, set_cfg (\<lambda>c. c\<lparr>ServiceType := ucast Result AND 0xFF\<rparr>) s)
               else (False, s))
         else if n = 17 then (True, set_cfg (\<lambda>c. c\<lparr>RawSocket := False\<rparr>) s)
         else (True, set_cfg (\<lambda>c. c\<lparr>ServiceType := n AND 0xFF\<rparr>) s))"

section \<open>Addresses on the command line\<close>

text \<open>A character that is neither a digit nor a period, as both loops over the text of a target test it.\<close>

definition domain_char :: "u8 \<Rightarrow> bool" where
  "domain_char c \<longleftrightarrow> c <s 46 \<or> c = 47 \<or> 57 <s c"

text \<open>
  The first address of a list that the program uses: an IPv6 address with a scope (the test for link-local
  addresses reads the wrong bytes and never holds), or an IPv4 address whose bytes, read as a little-endian
  number, are neither \<open>INADDR_LOOPBACK\<close> nor \<open>INADDR_BROADCAST\<close>.
\<close>

definition little_endian :: "bytes \<Rightarrow> u32" where
  "little_endian a = foldr (\<lambda>b n. push_bit 8 n OR ucast b) a 0"

definition usable :: "addrinfo \<Rightarrow> bool" where
  "usable a =
     (case a of
        AI_Inet6 _ scope \<Rightarrow> scope \<noteq> 0
      | AI_Inet addr \<Rightarrow> little_endian addr \<noteq> 0x7F000001 \<and> little_endian addr \<noteq> 0xFFFFFFFF
      | AI_Other \<Rightarrow> False)"

text \<open>Positions of a text, \<open>None\<close> for \<open>npos\<close>.\<close>

fun find_in :: "'a list \<Rightarrow> 'a list \<Rightarrow> nat option" where
  "find_in pat s =
     (if take (length pat) s = pat then Some 0
      else case s of [] \<Rightarrow> None | _ # cs \<Rightarrow> map_option Suc (find_in pat cs))"

declare find_in.simps [simp del]

definition set_socks :: "(sockaddr \<Rightarrow> sockaddr) \<Rightarrow> config \<Rightarrow> config" where
  "set_socks f c = c\<lparr>SockAddr_SOCKS := f (SockAddr_SOCKS c)\<rparr>"

text \<open>
  The port of a SOCKS target: a service (already in network order) or a number. In an IPv6 target the
  first character is dropped; where the bracket was that character, \<open>erase\<close> throws, which is an error here.
\<close>

definition socks_port :: "wstring \<Rightarrow> u32 option" where
  "socks_port Port =
     (if ServiceNameToPort Port \<noteq> 0 then Some (ucast (ServiceNameToPort Port))
      else if upto16 (wcstoul Port) then Some (wcstoul Port) else None)"

definition socks_ipv6 ::
  "'w net \<Rightarrow> wstring \<Rightarrow> bytes \<Rightarrow> ('w, 'm) dnsping_st_scheme \<Rightarrow> bool \<times> ('w, 'm) dnsping_st_scheme" where
  "socks_ipv6 net Parameter ParameterString s =
     (if length Parameter < 6 \<or> length Parameter > 47
         \<or> find_in [93, 58] ParameterString = None
         \<or> find_in [93] ParameterString \<noteq> find_in [93, 58] ParameterString
      then (False, s)
      else
     let s = set_cfg (set_socks (\<lambda>a. a\<lparr>ss_family := AF_INET6\<rparr>)) s
     in case find_in [93, 58] Parameter of
          None \<Rightarrow> (False, s)
        | Some i \<Rightarrow>
            (case socks_port (drop (i + 2) Parameter) of
               None \<Rightarrow> (False, s)
             | Some Result \<Rightarrow>
                 let s = set_cfg (set_socks (\<lambda>a. a\<lparr>sin_port := htons (ucast Result)\<rparr>)) s;
                     ParameterString = drop 1 ParameterString
                 in case find_in [93, 58] ParameterString of
                      None \<Rightarrow> (False, s)
                    | Some j \<Rightarrow>
                        (case AddressStringToBinary net (take j ParameterString) AF_INET6 of
                           None \<Rightarrow> (False, s)
                         | Some a \<Rightarrow> (True, set_cfg (set_socks (\<lambda>x. x\<lparr>sin6_addr := a\<rparr>)) s))))"

definition socks_domain ::
  "'w net \<Rightarrow> wstring \<Rightarrow> bytes \<Rightarrow> u32 \<Rightarrow> ('w, 'm) dnsping_st_scheme \<Rightarrow> bool \<times> ('w, 'm) dnsping_st_scheme" where
  "socks_domain net Parameter ParameterString Result s =
     (if length Parameter < DOMAIN_MINSIZE + 2 \<or> length Parameter > DOMAIN_MAXSIZE + 6 then (False, s)
      else
     let (AddrInfo, s) = call (n_getaddrinfo net ParameterString (Protocol (cfg s))) s
     in case AddrInfo of
          None \<Rightarrow> (False, s)
        | Some [] \<Rightarrow> (False, s)
        | Some infos \<Rightarrow>
            (case find usable infos of
               Some (AI_Inet6 addr _) \<Rightarrow>
                 (True, set_cfg (set_socks (\<lambda>a. a\<lparr>ss_family := AF_INET6, sin6_addr := addr,
                                                  sin_port := htons (ucast Result)\<rparr>)) s)
             | Some (AI_Inet addr) \<Rightarrow>
                 (True, set_cfg (set_socks (\<lambda>a. a\<lparr>ss_family := AF_INET, sin_addr := addr,
                                                  sin_port := htons (ucast Result)\<rparr>)) s)
             | _ \<Rightarrow> (True, s)))"

definition socks_ipv4 ::
  "'w net \<Rightarrow> wstring \<Rightarrow> bytes \<Rightarrow> u32 \<Rightarrow> ('w, 'm) dnsping_st_scheme \<Rightarrow> bool \<times> ('w, 'm) dnsping_st_scheme" where
  "socks_ipv4 net Parameter ParameterString Result s =
     (if length Parameter < 9 \<or> length Parameter > 21 then (False, s)
      else
     let s = set_cfg (set_socks (\<lambda>a. a\<lparr>sin_port := htons (ucast Result), ss_family := AF_INET\<rparr>)) s
     in case AddressStringToBinary net ParameterString AF_INET of
          None \<Rightarrow> (False, s)
        | Some a \<Rightarrow> (True, set_cfg (set_socks (\<lambda>x. x\<lparr>sin_addr := a\<rparr>)) s))"

definition read_socks ::
  "'w net \<Rightarrow> wstring \<Rightarrow> ('w, 'm) dnsping_st_scheme \<Rightarrow> bool \<times> ('w, 'm) dnsping_st_scheme" where
  "read_socks net Parameter s =
     (let ParameterString = n_to_acp net Parameter;
          s = set_cfg (\<lambda>c. c\<lparr>TargetString_SOCKS := Parameter\<rparr>) s
      in if 58 \<notin> set ParameterString then (False, s)
         else if 91 \<in> set ParameterString \<or> 93 \<in> set ParameterString
         then socks_ipv6 net Parameter ParameterString s
         else case find_in [58] Parameter of
                None \<Rightarrow> (False, s)
              | Some i \<Rightarrow>
                  (case socks_port (drop (i + 1) Parameter) of
                     None \<Rightarrow> (False, s)
                   | Some Result \<Rightarrow>
                       let ParameterString = takeWhile (\<lambda>c. c \<noteq> 58) ParameterString
                       in if list_ex domain_char ParameterString
                          then socks_domain net Parameter ParameterString Result s
                          else if ParameterString \<noteq> []
                          then socks_ipv4 net Parameter ParameterString Result s
                          else (True, s)))"

definition read_socks_username ::
  "'w net \<Rightarrow> wstring \<Rightarrow> ('w, 'm) dnsping_st_scheme \<Rightarrow> bool \<times> ('w, 'm) dnsping_st_scheme" where
  "read_socks_username net Parameter s =
     (let s = set_cfg (\<lambda>c. c\<lparr>SOCKS_Username := n_to_acp net Parameter\<rparr>) s
      in (length (SOCKS_Username (cfg s)) \<le> SOCKS_USERNAME_PASSWORD_MAXNUM, s))"

definition read_socks_password ::
  "'w net \<Rightarrow> wstring \<Rightarrow> ('w, 'm) dnsping_st_scheme \<Rightarrow> bool \<times> ('w, 'm) dnsping_st_scheme" where
  "read_socks_password net Parameter s =
     (let s = set_cfg (\<lambda>c. c\<lparr>SOCKS_Password := n_to_acp net Parameter\<rparr>) s
      in (length (SOCKS_Password (cfg s)) \<le> SOCKS_USERNAME_PASSWORD_MAXNUM, s))"

definition commands_transport ::
  "'w net \<Rightarrow> wstring list \<Rightarrow> nat \<Rightarrow> wstring \<Rightarrow> ('w, 'm) dnsping_st_scheme \<Rightarrow> ('w, 'm) answer option" where
  "commands_transport net argv Index Parameter s =
     (if is_option [''-rawdata''] Parameter then value_option argv Index (read_rawdata net) s
      else if is_option [''-raw''] Parameter then value_option argv Index read_raw s
      else if is_option [''-socks''] Parameter then value_option argv Index (read_socks net) s
      else if is_option [''-socks_username''] Parameter then value_option argv Index (read_socks_username net) s
      else if is_option [''-socks_password''] Parameter then value_option argv Index (read_socks_password net) s
      else None)"

section \<open>Output, protocol, domain and target\<close>

definition read_show :: "wstring \<Rightarrow> ('w, 'm) dnsping_st_scheme \<Rightarrow> bool \<times> ('w, 'm) dnsping_st_scheme" where
  "read_show Parameter s =
     (if is_option [''result''] Parameter then (True, set_cfg (\<lambda>c. c\<lparr>ShowResponse := True\<rparr>) s)
      else if is_option [''hex'', ''hexadecimal''] Parameter
      then (True, set_cfg (\<lambda>c. c\<lparr>ShowResponseHex := True\<rparr>) s)
      else (False, s))"

text \<open>\<open>MAX_PATH\<close> is 260.\<close>

definition read_output_file :: "wstring \<Rightarrow> ('w, 'm) dnsping_st_scheme \<Rightarrow> bool \<times> ('w, 'm) dnsping_st_scheme" where
  "read_output_file Parameter s =
     (if length Parameter \<le> 260 then (True, set_cfg (\<lambda>c. c\<lparr>wOutputFileName := Parameter\<rparr>) s) else (False, s))"

definition commands_output ::
  "wstring list \<Rightarrow> nat \<Rightarrow> wstring \<Rightarrow> ('w, 'm) dnsping_st_scheme \<Rightarrow> ('w, 'm) answer option" where
  "commands_output argv Index Parameter s =
     (if is_option [''-buf'', ''--buffer-size''] Parameter
      then value_option argv Index
             (number_value (\<lambda>r. OLD_DNS_MAXSIZE \<le> unat r \<and> unat r \<le> LARGE_PACKET_MAXSIZE)
               (\<lambda>r c. c\<lparr>BufferSize := r\<rparr>)) s
      else if is_option [''-dv'', ''--disable-validate''] Parameter
      then plain_option (\<lambda>c. c\<lparr>Validate := False\<rparr>) s
      else if is_option [''-show'', ''--show-response''] Parameter then value_option argv Index read_show s
      else if is_option [''-of'', ''--output-file''] Parameter then value_option argv Index read_output_file s
      else if is_option [''-6'', ''--ipv6''] Parameter then plain_option (\<lambda>c. c\<lparr>Protocol := AF_INET6\<rparr>) s
      else if is_option [''-4'', ''--ipv4''] Parameter then plain_option (\<lambda>c. c\<lparr>Protocol := AF_INET\<rparr>) s
      else None)"


text \<open>The domain to ask for is read once, at the last but one argument; a domain of an earlier call stays.\<close>

definition command_domain ::
  "'w net \<Rightarrow> wstring list \<Rightarrow> nat \<Rightarrow> wstring \<Rightarrow> ('w, 'm) dnsping_st_scheme \<Rightarrow> ('w, 'm) answer option" where
  "command_domain net argv Index Parameter s =
     (if RawData (cfg s) = None \<and> TestDomain (cfg s) = [] \<and> Index + 2 = length argv
      then Some (if length Parameter \<le> DOMAIN_MINSIZE \<or> length Parameter > DOMAIN_MAXSIZE then (False, False, s)
                 else (True, False, set_cfg (\<lambda>c. c\<lparr>TestDomain := n_to_acp net Parameter\<rparr>) s))
      else None)"

definition set_normal :: "(sockaddr \<Rightarrow> sockaddr) \<Rightarrow> config \<Rightarrow> config" where
  "set_normal f c = c\<lparr>SockAddr_Normal := f (SockAddr_Normal c)\<rparr>"

definition bracketed :: "bytes \<Rightarrow> bytes" where
  "bracketed t = blit ''['' @ t @ blit '']''"

definition target_ipv6 ::
  "'w net \<Rightarrow> wstring \<Rightarrow> bytes \<Rightarrow> ('w, 'm) dnsping_st_scheme \<Rightarrow> bool \<times> ('w, 'm) dnsping_st_scheme" where
  "target_ipv6 net Parameter ParameterString s =
     (if length Parameter < 2 \<or> length Parameter > 40 then (False, s)
      else if Protocol (cfg s) = AF_INET then (False, s)
      else
     let s = set_cfg (\<lambda>c. (set_normal (\<lambda>a. a\<lparr>ss_family := AF_INET6\<rparr>) c)\<lparr>Protocol := AF_INET6\<rparr>) s
     in case AddressStringToBinary net ParameterString AF_INET6 of
          None \<Rightarrow> (False, s)
        | Some addr \<Rightarrow>
            (True, set_cfg (\<lambda>c. (set_normal (\<lambda>a. a\<lparr>sin6_addr := addr\<rparr>) c)
                     \<lparr>TargetString_Normal := TargetString_Normal c @ bracketed ParameterString\<rparr>) s))"

definition target_domain ::
  "'w net \<Rightarrow> wstring \<Rightarrow> bytes \<Rightarrow> ('w, 'm) dnsping_st_scheme \<Rightarrow> bool \<times> ('w, 'm) dnsping_st_scheme" where
  "target_domain net Parameter ParameterString s =
     (if length Parameter \<le> DOMAIN_MINSIZE then (False, s)
      else if ss_family (SockAddr_SOCKS (cfg s)) > 0
      then (True, set_cfg (\<lambda>c. c\<lparr>TargetString_Normal := TargetString_Normal c @ ParameterString\<rparr>) s)
      else
     let (AddrInfo, s) = call (n_getaddrinfo net ParameterString (Protocol (cfg s))) s
     in case AddrInfo of
          None \<Rightarrow> (False, s)
        | Some [] \<Rightarrow> (False, s)
        | Some infos \<Rightarrow>
            (case find usable infos of
               Some (AI_Inet6 addr _) \<Rightarrow>
                 (True, set_cfg (\<lambda>c. (set_normal (\<lambda>a. a\<lparr>ss_family := AF_INET6, sin6_addr := addr\<rparr>) c)
                    \<lparr>Protocol := AF_INET6, TargetAddressString := ParameterString,
                     TargetString_Normal := TargetString_Normal c
                       @ bracketed (CaseConvert True (n_addr_to_string net AF_INET6 addr))\<rparr>) s)
             | Some (AI_Inet addr) \<Rightarrow>
                 (True, set_cfg (\<lambda>c. (set_normal (\<lambda>a. a\<lparr>ss_family := AF_INET, sin_addr := addr\<rparr>) c)
                    \<lparr>Protocol := AF_INET, TargetAddressString := ParameterString,
                     TargetString_Normal := n_addr_to_string net AF_INET addr\<rparr>) s)
             | _ \<Rightarrow> (True, s)))"

definition target_ipv4 ::
  "'w net \<Rightarrow> wstring \<Rightarrow> bytes \<Rightarrow> ('w, 'm) dnsping_st_scheme \<Rightarrow> bool \<times> ('w, 'm) dnsping_st_scheme" where
  "target_ipv4 net Parameter ParameterString s =
     (if length Parameter < 7 \<or> length Parameter > 15 then (False, s)
      else if Protocol (cfg s) = AF_INET6 then (False, s)
      else
     let s = set_cfg (\<lambda>c. (set_normal (\<lambda>a. a\<lparr>ss_family := AF_INET\<rparr>) c)\<lparr>Protocol := AF_INET\<rparr>) s
     in case AddressStringToBinary net ParameterString AF_INET of
          None \<Rightarrow> (False, s)
        | Some addr \<Rightarrow>
            (True, set_cfg (\<lambda>c. (set_normal (\<lambda>a. a\<lparr>sin_addr := addr\<rparr>) c)\<lparr>TargetString_Normal := ParameterString\<rparr>) s))"

definition command_target ::
  "'w net \<Rightarrow> wstring list \<Rightarrow> nat \<Rightarrow> wstring \<Rightarrow> ('w, 'm) dnsping_st_scheme \<Rightarrow> ('w, 'm) answer option" where
  "command_target net argv Index Parameter s =
     (if Index + 1 = length argv
      then Some (if length Parameter < DOMAIN_MINSIZE \<or> length Parameter > DOMAIN_MAXSIZE then (False, False, s)
                 else let ParameterString = n_to_acp net Parameter;
                          (ok, s) =
                            (if 58 \<in> set ParameterString then target_ipv6 net Parameter ParameterString s
                             else if list_ex domain_char ParameterString
                             then target_domain net Parameter ParameterString s
                             else if ParameterString \<noteq> [] then target_ipv4 net Parameter ParameterString s
                             else (True, s))
                      in (ok, False, s))
      else None)"

section \<open>The loop\<close>

text \<open>An argument that no comparison accepts is skipped.\<close>

definition read_command ::
  "'w net \<Rightarrow> wstring list \<Rightarrow> nat \<Rightarrow> ('w, 'm) dnsping_st_scheme \<Rightarrow> ('w, 'm) answer" where
  "read_command net argv Index s =
     (let Parameter = argv ! Index in
      case commands_basic argv Index Parameter s of Some r \<Rightarrow> r | None \<Rightarrow>
     (case commands_header argv Index Parameter s of Some r \<Rightarrow> r | None \<Rightarrow>
     (case commands_counts argv Index Parameter s of Some r \<Rightarrow> r | None \<Rightarrow>
     (case commands_query argv Index Parameter s of Some r \<Rightarrow> r | None \<Rightarrow>
     (case commands_transport net argv Index Parameter s of Some r \<Rightarrow> r | None \<Rightarrow>
     (case commands_output argv Index Parameter s of Some r \<Rightarrow> r | None \<Rightarrow>
     (case command_domain net argv Index Parameter s of Some r \<Rightarrow> r | None \<Rightarrow>
     (case command_target net argv Index Parameter s of Some r \<Rightarrow> r | None \<Rightarrow> (True, False, s)))))))))"

function read_from ::
  "'w net \<Rightarrow> wstring list \<Rightarrow> nat \<Rightarrow> ('w, 'm) dnsping_st_scheme \<Rightarrow> bool \<times> ('w, 'm) dnsping_st_scheme" where
  "read_from net argv Index s =
     (if Index \<ge> length argv then (True, s)
      else case read_command net argv Index s of
             (ok, used, s) \<Rightarrow>
               if ok then read_from net argv (Index + (if used then 2 else 1)) s else (False, s))"
  by auto
termination by (relation "measure (\<lambda>(net, argv, Index, s). length argv - Index)") auto

declare read_from.simps [simp del]

definition ReadCommands ::
  "'w net \<Rightarrow> wstring list \<Rightarrow> ('w, 'm) dnsping_st_scheme \<Rightarrow> bool \<times> ('w, 'm) dnsping_st_scheme" where
  "ReadCommands net argv s = read_from net argv 1 s"

end
