(* ===== verification/Dnsping_Text.thy ===== *)
theory Dnsping_Text
  imports Dnsping_Names
begin

text \<open>
  The texts with which DNSPing shows a response (\<open>Resolver.cpp\<close>, \<open>PrintSecondsInDateTime\<close> of
  \<open>Protocol.cpp\<close>): flags, types and classes, times, and the hexadecimal dump. Each function exists twice in the
  code, for the screen and for the output file; the two copies write the same text and are one definition here.
  A definition is the text that is handed to \<open>fwprintf\<close>.
\<close>

section \<open>Numbers and characters\<close>

fun hex_digits :: "nat \<Rightarrow> nat list" where
  "hex_digits n = (if n < 16 then [n] else hex_digits (n div 16) @ [n mod 16])"

declare hex_digits.simps [simp del]

definition hex_char :: "nat \<Rightarrow> wchar" where
  "hex_char d = (if d < 10 then 48 + of_nat d else 87 + of_nat d)"

text \<open>The conversions \<open>%x\<close> and \<open>%0kx\<close>, \<open>%0kd\<close>, and \<open>%c\<close> of a \<open>char\<close>, which is signed.\<close>

definition pad_zeros :: "nat \<Rightarrow> wstring \<Rightarrow> wstring" where
  "pad_zeros k w = replicate (k - length w) 48 @ w"

definition hex_text :: "nat \<Rightarrow> wstring" where
  "hex_text n = map hex_char (hex_digits n)"

definition hex_pad :: "nat \<Rightarrow> nat \<Rightarrow> wstring" where
  "hex_pad k n = pad_zeros k (hex_text n)"

definition char_text :: "u8 \<Rightarrow> wchar" where
  "char_text b = scast b"

definition newline :: wstring where "newline = [10]"
definition quote :: wstring where "quote = [34]"

text \<open>A chain of comparisons that chooses a text: the first row with the number, and otherwise a default.\<close>

definition named :: "(nat \<times> string) list \<Rightarrow> nat \<Rightarrow> wstring \<Rightarrow> wstring" where
  "named rows n other = (case map_of rows n of Some t \<Rightarrow> wlit t | None \<Rightarrow> other)"

section \<open>Flags\<close>

definition opcode_texts :: "(nat \<times> string) list" where
  "opcode_texts =
    [(0, ''Query''), (1, ''Inverse Query''), (2, ''Status''), (4, ''Notify''), (5, ''Update'')]"

definition rcode_texts :: "(nat \<times> string) list" where
  "rcode_texts =
    [(0, ''No Error''), (1, ''Format Error''), (2, ''Server Failure''), (3, ''Non-Existent Domain''),
     (4, ''Not Implemented''), (5, ''Query Refused''), (6, ''Name Exists when it should not''),
     (7, ''RR Set Exists when it should not''), (8, ''RR Set that should exist does not''),
     (9, ''Server Not Authoritative for zone/Not Authorized''), (10, ''Name not contained in zone''),
     (16, ''Bad OPT Version/TSIG Signature Failure''), (17, ''Key not recognized''),
     (18, ''Signature out of time window''), (19, ''Bad TKEY Mode''), (20, ''Duplicate key name''),
     (21, ''Algorithm not supported''), (22, ''Bad Truncation'')]"

definition opcode_of :: "u16 \<Rightarrow> nat" where
  "opcode_of Flags = unat (drop_bit 11 (htons Flags AND 0x7FFF))"

definition rcode_of :: "u16 \<Rightarrow> nat" where
  "rcode_of Flags = unat (htons Flags AND 0x000F)"

text \<open>The argument is in network order.\<close>

definition PrintFlags :: "u16 \<Rightarrow> wstring" where
  "PrintFlags Flags =
     (if Flags > 0
      then wlit ''(OPCode: '' @ named opcode_texts (opcode_of Flags) (hex_text (opcode_of Flags))
        @ wlit ''/RCode: ''
        @ (let FlagsBits = rcode_of Flags
           in named rcode_texts FlagsBits
                (if FlagsBits \<ge> 0xFF00 \<and> FlagsBits \<le> 0xFFFE then wlit ''Reserved Private use''
                 else if FlagsBits = 0xFFFF then wlit ''Reserved''
                 else hex_text FlagsBits))
        @ wlit ''))''
      else []) @ newline"

section \<open>Types and classes\<close>

definition class_texts :: "(nat \<times> string) list" where
  "class_texts =
    [(1, ''IN''), (2, ''CSNET''), (3, ''CHAOS''), (4, ''HESIOD''), (254, ''NONE''), (255, ''ALL''), (255, ''ANY'')]"

definition type_texts_1 :: "(nat \<times> string) list" where
  "type_texts_1 =
    [(1, ''A''), (2, ''NS''), (3, ''MD''), (4, ''MF''), (5, ''CNAME''), (6, ''SOA''), (7, ''MB''), (8, ''MG''),
     (9, ''MR''), (10, ''NULL''), (11, ''WKS''), (12, ''PTR''), (13, ''HINFO''), (14, ''MINFO''), (15, ''MX''),
     (16, ''TXT''), (17, ''RP''), (17, ''RP''), (18, ''AFSDB''), (19, ''X25''), (20, ''ISDN''), (21, ''RT''),
     (22, ''NSAP''), (23, ''NSAP PTR''), (24, ''SIG''), (25, ''KEY''), (26, ''PX''), (27, ''GPOS''),
     (28, ''AAAA''), (29, ''LOC''), (30, ''NXT''), (31, ''EID''), (32, ''NIMLOC''), (33, ''SRV''),
     (34, ''ATMA''), (35, ''NAPTR''), (36, ''KX''), (37, ''CERT''), (39, ''DNAME''), (40, ''SINK''),
     (41, ''OPT/EDNS'')]"

definition type_texts_2 :: "(nat \<times> string) list" where
  "type_texts_2 =
    [(42, ''APL''), (43, ''DS''), (44, ''SSHFP''), (45, ''IPSECKEY''), (46, ''RRSIG''), (47, ''NSEC''),
     (48, ''DNSKEY''), (49, ''DHCID''), (50, ''NSEC3''), (51, ''NSEC3PARAM''), (52, ''TLSA''), (55, ''HIP''),
     (56, ''NINFO''), (57, ''RKEY''), (58, ''TALINK''), (59, ''CDS''), (60, ''CDNSKEY''), (61, ''OPENPGPKEY''),
     (99, ''SPF''), (101, ''UID''), (102, ''GID''), (103, ''UNSPEC''), (104, ''NID''), (105, ''L32''),
     (106, ''L64''), (107, ''LP''), (108, ''EUI48''), (109, ''EUI64''), (249, ''TKEY''), (250, ''TSIG''),
     (251, ''IXFR''), (252, ''AXFR''), (253, ''MAILB''), (254, ''MAILA''), (255, ''ANY''), (256, ''URI''),
     (257, ''CAA''), (32768, ''TA''), (32769, ''DLV'')]"

definition type_texts :: "(nat \<times> string) list" where
  "type_texts = type_texts_1 @ type_texts_2"

definition class_text :: "u16 \<Rightarrow> wstring" where
  "class_text Classes =
     (let HighBitSet = (drop_bit 15 (htons Classes) > 0);
          ClassesTemp = unat (if HighBitSet then htons Classes AND 0x7FFF else htons Classes)
      in case map_of class_texts ClassesTemp of
           None \<Rightarrow> []
         | Some t \<Rightarrow> wlit (''(Class '' @ t) @ (if HighBitSet then wlit ''/Unicast Queries or Cache Flush'' else [])
             @ wlit ''))'')"

definition type_text :: "u16 \<Rightarrow> wstring" where
  "type_text Type =
     (let n = unat (htons Type)
      in case map_of type_texts n of
           Some t \<Rightarrow> wlit (''('' @ t @ '' Record)'')
         | None \<Rightarrow> if n \<ge> 0xFF00 \<and> n \<le> 0xFFFE then wlit ''(Reserved Private use Record)''
                   else if n = 0xFFFF then wlit ''(Reserved Record)'' else [])"

text \<open>Both arguments are in network order.\<close>

definition PrintTypeClassesName :: "u16 \<Rightarrow> u16 \<Rightarrow> wstring" where
  "PrintTypeClassesName Type Classes = (if Classes > 0 then class_text Classes else type_text Type) @ newline"

section \<open>Times\<close>

text \<open>One unit of a duration: the rest of the seconds, whether something is in front, and the text so far.\<close>

definition date_part :: "nat \<times> string \<Rightarrow> nat \<times> bool \<times> wstring \<Rightarrow> nat \<times> bool \<times> wstring" where
  "date_part part r =
     (case (part, r) of ((seconds, unit_name), (DateTime, Before, out)) \<Rightarrow>
        if DateTime div seconds > 0
        then (DateTime mod seconds, True,
              out @ (if Before then wlit '' '' else []) @ to_wstring (DateTime div seconds)
                @ wlit ('' '' @ unit_name) @ (if DateTime div seconds > 1 then wlit ''s'' else []))
        else r)"

definition date_units :: "(nat \<times> string) list" where
  "date_units = [(31536000, ''year''), (2592000, ''month''), (86400, ''day''), (3600, ''hour''),
     (60, ''minute''), (1, ''second'')]"

definition PrintSecondsInDateTime :: "nat \<Rightarrow> wstring" where
  "PrintSecondsInDateTime Seconds =
     (if Seconds < 60 then []
      else wlit ''('' @ snd (snd (fold date_part date_units (Seconds, False, []))) @ wlit '')'')"

section \<open>The hexadecimal dump\<close>

definition NUM_HEX :: nat where "NUM_HEX = 16"

definition dump_char :: "u8 \<Rightarrow> wstring" where
  "dump_char b = (if 32 \<le> b \<and> b \<le> 126 then [ucast b] else wlit ''.'')"

definition hex_step :: "bytes \<Rightarrow> nat \<Rightarrow> nat \<Rightarrow> wstring" where
  "hex_step Buffer Length Index =
     (if Index = 0 then wlit ''0000  '' @ hex_pad 2 (unat (Buffer ! Index)) @ wlit '' ''
      else if Index mod NUM_HEX + 1 = NUM_HEX
      then hex_pad 2 (unat (Buffer ! Index)) @ wlit ''   ''
        @ concat (map (\<lambda>InnerIndex.
             (if InnerIndex \<noteq> Index - (NUM_HEX - 1) \<and> InnerIndex mod (NUM_HEX div 2) = 0 then wlit '' '' else [])
             @ dump_char (Buffer ! InnerIndex)) [Index - (NUM_HEX - 1) ..< Index + 1])
        @ (if Index + 1 < Length then newline @ hex_pad 4 (Index + 1) @ wlit ''  '' else [])
      else (if Index mod (NUM_HEX div 2) = 0 \<and> Index mod NUM_HEX \<noteq> 0 then wlit '' '' else [])
        @ hex_pad 2 (unat (Buffer ! Index)) @ wlit '' '')"

definition hex_border :: wstring where
  "hex_border = wlit ''------------------------------ Response Hex ------------------------------'' @ newline"

definition PrintResponseHex :: "bytes \<Rightarrow> nat \<Rightarrow> wstring" where
  "PrintResponseHex Buffer Length =
     hex_border
     @ concat (map (hex_step Buffer Length) [0..<Length])
     @ (if NUM_HEX - Length mod NUM_HEX < NUM_HEX
        then concat (replicate (NUM_HEX - Length mod NUM_HEX) (wlit ''   '')) else [])
     @ (if Length mod NUM_HEX > 0
        then wlit ''   '' @ concat (map (\<lambda>i. dump_char (Buffer ! i)) [Length - Length mod NUM_HEX ..< Length])
        else [])
     @ newline @ hex_border"

section \<open>Response codes\<close>

text \<open>The code of a response is four bits of its flags, so the rows of the extended codes are never chosen.\<close>

theorem extended_codes_unreachable: "rcode_of Flags \<le> 10 \<or> map_of rcode_texts (rcode_of Flags) = None"
proof -
  have "htons Flags AND 0x000F \<le> 0x000F" by (rule word_and_le1)
  then have "rcode_of Flags \<le> 15" unfolding rcode_of_def word_le_nat_alt by simp
  then show ?thesis by (auto simp: rcode_texts_def)
qed

section \<open>The dump, line by line\<close>

text \<open>A line has its offset, sixteen bytes in two halves, and the same bytes as characters in two halves; the last
  line, when it is shorter, is filled with blanks, and its characters are not divided.\<close>

definition dump_byte :: "bytes \<Rightarrow> nat \<Rightarrow> nat \<Rightarrow> wstring" where
  "dump_byte B start j = (if j = 8 then wlit '' '' else []) @ hex_pad 2 (unat (B ! (start + j)))
     @ (if j = 15 then [] else wlit '' '')"

definition dump_chars :: "bytes \<Rightarrow> nat \<Rightarrow> nat \<Rightarrow> wstring" where
  "dump_chars B i j = concat (map (\<lambda>k. dump_char (B ! k)) [i..<j])"

definition full_body :: "bytes \<Rightarrow> nat \<Rightarrow> wstring" where
  "full_body B start = concat (map (dump_byte B start) [0..<16])
     @ wlit ''   '' @ dump_chars B start (start + 8) @ wlit '' '' @ dump_chars B (start + 8) (start + 16)"

definition last_body :: "bytes \<Rightarrow> nat \<Rightarrow> nat \<Rightarrow> wstring" where
  "last_body B start r = concat (map (dump_byte B start) [0..<r])
     @ concat (replicate (16 - r) (wlit ''   '')) @ wlit ''   '' @ dump_chars B start (start + r)"

definition dump_line :: "bytes \<Rightarrow> nat \<Rightarrow> nat \<Rightarrow> wstring" where
  "dump_line B n start = hex_pad 4 start @ wlit ''  ''
     @ (if start + 16 \<le> n then full_body B start else last_body B start (n - start))"

fun joined :: "wstring list \<Rightarrow> wstring" where
  "joined [] = []"
| "joined [l] = l"
| "joined (l # m # ls) = l @ newline @ joined (m # ls)"

text \<open>The offset in front of a byte is written with the byte before it, except for the first.\<close>

lemma hex_step_line:
  assumes "j < 15"
  shows "hex_step B n (16 * k + j) = (if k = 0 \<and> j = 0 then wlit ''0000  '' else []) @ dump_byte B (16 * k) j"
proof -
  have m: "(16 * k + j) mod 16 = j" using assms by simp
  have h: "(16 * k + j) mod 8 = j mod 8" by presburger
  have e: "(j mod 8 = 0 \<and> j \<noteq> 0) = (j = 8)" using assms by presburger
  show ?thesis using assms e unfolding hex_step_def NUM_HEX_def m by (auto simp: dump_byte_def h)
qed

lemma hex_step_last:
  "hex_step B n (16 * k + 15) = dump_byte B (16 * k) 15 @ wlit ''   '' @ dump_chars B (16 * k) (16 * k + 8)
     @ wlit '' '' @ dump_chars B (16 * k + 8) (16 * k + 16)
     @ (if 16 * k + 16 < n then newline @ hex_pad 4 (16 * k + 16) @ wlit ''  '' else [])"
proof -
  let ?f = "\<lambda>i. (if i \<noteq> 16 * k \<and> i mod 8 = 0 then wlit '' '' else []) @ dump_char (B ! i)"
  have m: "(16 * k + 15) mod 16 = 15" by simp
  have none: "?f i = dump_char (B ! i)" if "i \<noteq> 16 * k + 8" "16 * k \<le> i" "i < 16 * k + 16" for i
  proof -
    have "\<not> (i \<noteq> 16 * k \<and> i mod 8 = 0)" using that by presburger
    then show ?thesis by (simp only: if_False append_Nil)
  qed
  have "16 * k + 8 \<noteq> 16 * k \<and> (16 * k + 8) mod 8 = 0" by presburger
  then have mid: "?f (16 * k + 8) = wlit '' '' @ dump_char (B ! (16 * k + 8))"
    by (simp only: if_True simp_thms)
  have split: "[16 * k..<16 * k + 16] = [16 * k..<16 * k + 8] @ (16 * k + 8) # [16 * k + 9..<16 * k + 16]"
    by (simp add: upt_add_eq_append [of "16 * k" "16 * k + 8" 8, simplified] upt_conv_Cons)
  have "map ?f [16 * k..<16 * k + 8] = map (\<lambda>i. dump_char (B ! i)) [16 * k..<16 * k + 8]"
    by (rule map_cong [OF refl], rule none) simp_all
  moreover have "map ?f [16 * k + 9..<16 * k + 16] = map (\<lambda>i. dump_char (B ! i)) [16 * k + 9..<16 * k + 16]"
    by (rule map_cong [OF refl], rule none) simp_all
  ultimately have line: "concat (map ?f [16 * k..<16 * k + 16]) =
      dump_chars B (16 * k) (16 * k + 8) @ wlit '' '' @ dump_chars B (16 * k + 8) (16 * k + 16)"
    using mid unfolding split dump_chars_def by (simp add: upt_conv_Cons add.commute)
  have first: "16 * k + 15 - (16 - 1) = 16 * k" "16 * k + 15 + 1 = 16 * k + 16" "16 div 2 = (8 :: nat)" by simp_all
  show ?thesis
    unfolding hex_step_def NUM_HEX_def m first line by (simp add: dump_byte_def)
qed

lemma hex_steps:
  assumes "r \<le> 15"
  shows "concat (map (hex_step B n) [16 * k..<16 * k + r]) =
     (if k = 0 \<and> 0 < r then wlit ''0000  '' else []) @ concat (map (dump_byte B (16 * k)) [0..<r])"
  using assms
proof (induction r)
  case (Suc r)
  then have "concat (map (hex_step B n) [16 * k..<16 * k + r]) =
     (if k = 0 \<and> 0 < r then wlit ''0000  '' else []) @ concat (map (dump_byte B (16 * k)) [0..<r])" by simp
  moreover have "hex_step B n (16 * k + r) = (if k = 0 \<and> r = 0 then wlit ''0000  '' else []) @ dump_byte B (16 * k) r"
    using Suc.prems by (intro hex_step_line) simp
  ultimately show ?case by (simp only: add_Suc_right) (auto simp: not_le)
qed simp

lemma hex_steps_full:
  "concat (map (hex_step B n) [16 * k..<16 * k + 16]) =
     (if k = 0 then wlit ''0000  '' else []) @ full_body B (16 * k)
     @ (if 16 * k + 16 < n then newline @ hex_pad 4 (16 * k + 16) @ wlit ''  '' else [])"
proof -
  have "[16 * k..<16 * k + 16] = [16 * k..<16 * k + 15] @ [16 * k + 15]"
    using upt_Suc_append [of "16 * k" "16 * k + 15"] by (simp add: add.commute)
  moreover have "[0..<16] = [0..<15] @ [15 :: nat]" by (simp add: upt_rec)
  ultimately show ?thesis
    using hex_steps [of 15 B n k] by (simp add: hex_step_last full_body_def del: upt_rec_numeral)
qed

lemma joined_snoc: "ls \<noteq> [] \<Longrightarrow> joined (ls @ [l]) = joined ls @ newline @ l"
  by (induction ls rule: joined.induct) simp_all

lemma zero_offset: "hex_pad 4 0 @ wlit ''  '' = wlit ''0000  ''"
  by (simp add: hex_pad_def pad_zeros_def hex_text_def hex_digits.simps hex_char_def wstr_simps numeral_eq_Suc)

lemma hex_lines:
  "16 * q \<le> n \<Longrightarrow> concat (map (hex_step B n) [0..<16 * q]) =
     (if q = 0 then [] else joined (map (\<lambda>k. dump_line B n (16 * k)) [0..<q])
        @ (if 16 * q < n then newline @ hex_pad 4 (16 * q) @ wlit ''  '' else []))"
proof (induction q)
  case (Suc q)
  have steps: "[0..<16 * Suc q] = [0..<16 * q] @ [16 * q..<16 * q + 16]"
    using upt_add_eq_append [of 0 "16 * q" 16] by (simp add: add.commute)
  have line: "dump_line B n (16 * q) = hex_pad 4 (16 * q) @ wlit ''  '' @ full_body B (16 * q)"
    using Suc.prems by (simp add: dump_line_def)
  have at: "16 * Suc q = 16 * q + 16" by simp
  show ?case
  proof (cases "q = 0")
    case True
    with hex_steps_full [of B n 0] line show ?thesis by (simp add: zero_offset [symmetric])
  next
    case False
    with Suc have IH: "concat (map (hex_step B n) [0..<16 * q]) = joined (map (\<lambda>k. dump_line B n (16 * k)) [0..<q])
        @ newline @ hex_pad 4 (16 * q) @ wlit ''  ''" by simp
    have "joined (map (\<lambda>k. dump_line B n (16 * k)) [0..<Suc q]) =
        joined (map (\<lambda>k. dump_line B n (16 * k)) [0..<q]) @ newline @ dump_line B n (16 * q)"
      using False joined_snoc [of "map (\<lambda>k. dump_line B n (16 * k)) [0..<q]"] by simp
    then show ?thesis
      unfolding steps map_append concat_append IH hex_steps_full line using False by (simp add: at add.commute)
  qed
qed simp

text \<open>The hexadecimal dump. A response is dumped line by line: the offset, the bytes and their characters, sixteen
  to a line, the last line filled up with blanks when it is shorter.\<close>
theorem dump_by_lines:
  "PrintResponseHex B n =
     hex_border @ joined (map (\<lambda>k. dump_line B n (16 * k)) [0..<(n + 15) div 16]) @ newline @ hex_border"
proof -
  define q r where "q = n div 16" and "r = n mod 16"
  have n: "n = 16 * q + r" "r < 16" by (simp_all add: q_def r_def)
  have "[0..<n] = [0..<16 * q] @ [16 * q..<16 * q + r]" unfolding n(1) by (rule upt_add_eq_append) simp
  then have steps: "concat (map (hex_step B n) [0..<n]) = concat (map (hex_step B n) [0..<16 * q])
      @ (if q = 0 \<and> 0 < r then wlit ''0000  '' else []) @ concat (map (dump_byte B (16 * q)) [0..<r])"
    using hex_steps [of r B n q] n(2) by simp
  have whole: "concat (map (hex_step B n) [0..<16 * q]) =
     (if q = 0 then [] else joined (map (\<lambda>k. dump_line B n (16 * k)) [0..<q])
        @ (if 16 * q < n then newline @ hex_pad 4 (16 * q) @ wlit ''  '' else []))"
    by (rule hex_lines) (simp add: n(1))
  show ?thesis
  proof (cases "r = 0")
    case True
    then have "(n + 15) div 16 = q" using n(1) by simp
    with True steps whole n show ?thesis
      by (simp add: PrintResponseHex_def NUM_HEX_def)
  next
    case False
    have lines: "(n + 15) div 16 = Suc q" using False n by simp
    have last: "dump_line B n (16 * q) = hex_pad 4 (16 * q) @ wlit ''  '' @ last_body B (16 * q) r"
      using n by (simp add: dump_line_def)
    have m: "n mod 16 = r" "n - r = 16 * q" using n by simp_all
    have "joined (map (\<lambda>k. dump_line B n (16 * k)) [0..<Suc q]) =
      (if q = 0 then [] else joined (map (\<lambda>k. dump_line B n (16 * k)) [0..<q]) @ newline) @ dump_line B n (16 * q)"
      using joined_snoc [of "map (\<lambda>k. dump_line B n (16 * k)) [0..<q]"] by simp
    with False steps whole n(1) show ?thesis
      unfolding PrintResponseHex_def NUM_HEX_def m lines last
      by (simp add: last_body_def dump_chars_def zero_offset [symmetric])
  qed
qed

section \<open>Type names are read back\<close>

text \<open>The table with integers, for evaluation.\<close>

definition int_texts :: "(int \<times> string) list" where
  "int_texts = map (\<lambda>(n, t). (int n, t)) type_texts"

lemma map_of_int: "map_of (map (\<lambda>(n, t). (int n, t)) rows) (int n) = map_of rows n"
  by (induction rows) auto

definition text_row_ok :: "(int \<times> string) list \<Rightarrow> int \<times> string \<Rightarrow> bool" where
  "text_row_ok rows r \<longleftrightarrow> (case r of (n, t) \<Rightarrow> n < 65536 \<and> map_of rows n = Some t
     \<and> first_name (type_names_1 @ type_names_2) t = (if n = 23 \<or> n = 41 \<or> n = 56 then 0 else n))"

lemmas int_texts_eq = int_texts_def [unfolded type_texts_def type_texts_1_def type_texts_2_def, simplified]

lemma int_texts_ok: "list_all (text_row_ok int_texts) int_texts"
  unfolding int_texts_eq by code_simp

lemma type_text_row:
  assumes "(n, t) \<in> set type_texts"
  shows "n < 65536" "map_of type_texts n = Some t"
    "first_name (type_names_1 @ type_names_2) t = (if n \<in> {23, 41, 56} then 0 else int n)"
proof -
  have "(int n, t) \<in> set int_texts" using assms by (auto simp: int_texts_def)
  then have "text_row_ok int_texts (int n, t)" using int_texts_ok by (simp only: list_all_iff)
  then show "n < 65536" "map_of type_texts n = Some t"
    "first_name (type_names_1 @ type_names_2) t = (if n \<in> {23, 41, 56} then 0 else int n)"
    by (simp_all add: text_row_ok_def int_texts_def map_of_int)
qed

text \<open>Record types are read as they are shown. Every record type is shown under the name of its row, and the name,
  given to the option that selects the type, stands for the same number; except the three that are shown as NSAP PTR,
  OPT/EDNS and NINFO, which the option does not know.\<close>
theorem type_texts_read_back:
  assumes "(n, t) \<in> set type_texts"
  shows "PrintTypeClassesName (htons (of_nat n)) 0 = wlit (''('' @ t @ '' Record)'') @ newline
    \<and> DNSTypeNameToHex (wlit t) = (if n \<in> {23, 41, 56} then 0 else htons (of_nat n))"
proof -
  note row = type_text_row [OF assms]
  have "unat (of_nat n :: u16) = n" using row(1) by (simp add: unat_of_nat)
  with row show ?thesis
    by (simp only: PrintTypeClassesName_def type_text_def Let_def htons_htons option.case
        DNSTypeNameToHex_def first_match_wlit) auto
qed

theorem type_texts_read_back_witness:
  "PrintTypeClassesName (htons 257) 0 = wlit ''(CAA Record)'' @ newline \<and> DNSTypeNameToHex (wlit ''CAA'') = htons 257"
  using type_texts_read_back [of 257 "''CAA''"] by (simp add: type_texts_def type_texts_2_def)

section \<open>Durations\<close>

text \<open>The numbers of the units, the text of one, and texts with a space between them.\<close>

fun decompose :: "(nat \<times> string) list \<Rightarrow> nat \<Rightarrow> (nat \<times> string) list" where
  "decompose [] n = []"
| "decompose ((k, name) # us) n = (n div k, name) # decompose us (n mod k)"

definition unit_text :: "nat \<times> string \<Rightarrow> wstring" where
  "unit_text u = to_wstring (fst u) @ wlit ('' '' @ snd u) @ (if fst u > 1 then wlit ''s'' else [])"

fun spaced :: "bool \<Rightarrow> wstring list \<Rightarrow> wstring" where
  "spaced b [] = []"
| "spaced b (w # ws) = (if b then wlit '' '' else []) @ w @ spaced True ws"

lemma fold_date_part:
  "\<forall>u \<in> set us. 0 < fst u \<Longrightarrow> snd (snd (fold date_part us (n, b, out)))
     = out @ spaced b (map unit_text (filter (\<lambda>u. 0 < fst u) (decompose us n)))"
proof (induction us arbitrary: n b out)
  case (Cons u us)
  obtain k name where u: "u = (k, name)" by force
  from Cons show ?case by (auto simp: u date_part_def unit_text_def div_eq_0_iff)
qed simp

text \<open>Durations. A time to live of a minute or more is followed by its years of 365 days, months of 30 days, days,
  hours, minutes and seconds; the units that are zero are left out, and the rest adds up to the number of seconds.\<close>
theorem durations_add_up:
  assumes "60 \<le> n"
  shows "\<exists>years months days hours minutes seconds.
      PrintSecondsInDateTime n = wlit ''('' @ spaced False (map unit_text (filter (\<lambda>u. 0 < fst u)
        [(years, ''year''), (months, ''month''), (days, ''day''), (hours, ''hour''), (minutes, ''minute''),
         (seconds, ''second'')])) @ wlit '')''
    \<and> n = 31536000 * years + 2592000 * months + 86400 * days + 3600 * hours + 60 * minutes + seconds
    \<and> months \<le> 12 \<and> days < 30 \<and> hours < 24 \<and> minutes < 60 \<and> seconds < 60"
proof -
  let ?y = "n mod 31536000" let ?m = "?y mod 2592000" let ?d = "?m mod 86400" let ?h = "?d mod 3600"
  have parts: "decompose date_units n =
      [(n div 31536000, ''year''), (?y div 2592000, ''month''), (?m div 86400, ''day''), (?d div 3600, ''hour''),
       (?h div 60, ''minute''), (?h mod 60, ''second'')]"
    by (simp add: date_units_def)
  have "\<forall>u \<in> set date_units. 0 < fst u" by (simp add: date_units_def)
  from fold_date_part [OF this, of n False "[]"]
  have "PrintSecondsInDateTime n = wlit ''('' @ spaced False (map unit_text (filter (\<lambda>u. 0 < fst u)
      (decompose date_units n))) @ wlit '')''"
    using assms by (simp add: PrintSecondsInDateTime_def)
  then show ?thesis
    unfolding parts
  proof (intro exI conjI, assumption)
    show "n = 31536000 * (n div 31536000) + 2592000 * (?y div 2592000) + 86400 * (?m div 86400)
        + 3600 * (?d div 3600) + 60 * (?h div 60) + ?h mod 60"
      by (simp only: add.assoc mult_div_mod_eq)
    have "?y < 31536000" "?m < 2592000" "?d < 86400" "?h < 3600" by simp_all
    then show "?y div 2592000 \<le> 12" "?m div 86400 < 30" "?d div 3600 < 24" "?h div 60 < 60"
      by (simp_all only: less_mult_imp_div_less) (simp_all add: div_le_mono less_mult_imp_div_less)
  qed simp
qed

theorem durations_add_up_witness:
  "\<exists>years months days hours minutes seconds.
      PrintSecondsInDateTime 90061 = wlit ''('' @ spaced False (map unit_text (filter (\<lambda>u. 0 < fst u)
        [(years, ''year''), (months, ''month''), (days, ''day''), (hours, ''hour''), (minutes, ''minute''),
         (seconds, ''second'')])) @ wlit '')''
    \<and> 90061 = 31536000 * years + 2592000 * months + 86400 * days + 3600 * hours + 60 * minutes + seconds
    \<and> months \<le> 12 \<and> days < 30 \<and> hours < 24 \<and> minutes < 60 \<and> seconds < 60"
  by (rule durations_add_up) simp

end
