(* ===== verification/Dnsping_Resolver.thy ===== *)
theory Dnsping_Resolver
  imports Dnsping_Protocol Dnsping_Text
begin

text \<open>
  How DNSPing shows a response (\<open>Resolver.cpp\<close>): names with their compression pointers, resource data, and
  the walk over the sections. The code reads the receive buffer at offsets that the response chooses and checks
  none of them. Reading outside the buffer is undefined; it is the value \<open>Outside_Buffer\<close> here. Following
  pointers may not end; that is \<open>None\<close>.
\<close>

section \<open>Printing\<close>

datatype fault = Outside_Buffer

text \<open>
  A function for the output file is given the file, but some of its calls leave that argument out and write to the
  screen. A character is written to the stream the function is given, or to the screen nevertheless. The function
  for the screen writes to the screen in both cases.
\<close>

datatype stream = Given | Screen

type_synonym written = "(stream \<times> wchar) list"

definition own :: "wstring \<Rightarrow> written" where "own w = map (Pair Given) w"
definition stray :: "wstring \<Rightarrow> written" where "stray w = map (Pair Screen) w"

text \<open>What is written and an answer, or a fault, or nothing when the function does not return.\<close>

type_synonym 'a printing = "(fault + written \<times> 'a) option"

definition give :: "'a \<Rightarrow> 'a printing" where "give a = Some (Inr ([], a))"
definition say :: "wstring \<Rightarrow> unit printing" where "say w = Some (Inr (own w, ()))"
definition say_stray :: "bool \<Rightarrow> wstring \<Rightarrow> unit printing" where
  "say_stray to_file w = (if to_file then Some (Inr (stray w, ())) else say w)"
definition outside :: "'a printing" where "outside = Some (Inl Outside_Buffer)"

definition andthen :: "'a printing \<Rightarrow> ('a \<Rightarrow> 'b printing) \<Rightarrow> 'b printing" where
  "andthen m f =
     (case m of
        None \<Rightarrow> None
      | Some (Inl e) \<Rightarrow> Some (Inl e)
      | Some (Inr (t, a)) \<Rightarrow>
          (case f a of
             None \<Rightarrow> None
           | Some (Inl e) \<Rightarrow> Some (Inl e)
           | Some (Inr (t', b)) \<Rightarrow> Some (Inr (t @ t', b))))"

fun say_all :: "unit printing list \<Rightarrow> unit printing" where
  "say_all [] = give ()"
| "say_all (m # ms) = andthen m (\<lambda>_. say_all ms)"

definition lit :: "string \<Rightarrow> unit printing" where "lit s = say (wlit s)"

text \<open>Printing what a read value gives.\<close>

definition show_with :: "('a \<Rightarrow> wstring) \<Rightarrow> 'a printing \<Rightarrow> unit printing" where
  "show_with f m = andthen m (\<lambda>a. say (f a))"

definition show_stray :: "bool \<Rightarrow> ('a \<Rightarrow> wstring) \<Rightarrow> 'a printing \<Rightarrow> unit printing" where
  "show_stray to_file f m = andthen m (\<lambda>a. say_stray to_file (f a))"

section \<open>Reading the buffer\<close>

text \<open>A byte, a 16-bit member as it lies in memory, and the members in host order (\<open>ntohs\<close>, \<open>ntohl\<close>).\<close>

definition read8 :: "bytes \<Rightarrow> nat \<Rightarrow> u8 printing" where
  "read8 B i = (if i < length B then give (B ! i) else outside)"

definition read16 :: "bytes \<Rightarrow> nat \<Rightarrow> u16 printing" where
  "read16 B i = (if i + 1 < length B then give (load16 B i) else outside)"

definition host16 :: "bytes \<Rightarrow> nat \<Rightarrow> nat printing" where
  "host16 B i = andthen (read16 B i) (\<lambda>n. give (unat (htons n)))"

definition host32 :: "bytes \<Rightarrow> nat \<Rightarrow> nat printing" where
  "host32 B i =
     (if i + 3 < length B
      then give (((unat (B ! i) * 256 + unat (B ! (i + 1))) * 256 + unat (B ! (i + 2))) * 256 + unat (B ! (i + 3)))
      else outside)"

text \<open>A loop \<open>for (Index = from; Index < to; ++Index)\<close> that prints one byte at a time.\<close>

definition each_byte :: "bytes \<Rightarrow> (u8 \<Rightarrow> wstring) \<Rightarrow> nat \<Rightarrow> nat \<Rightarrow> unit printing" where
  "each_byte B show from to =
     (if to \<le> from then give ()
      else if to \<le> length B then say (concat (map (\<lambda>i. show (B ! i)) [from..<to]))
      else outside)"

text \<open>\<open>strnlen_s\<close> at an offset, with a maximum.\<close>

definition strnlen :: "bytes \<Rightarrow> nat \<Rightarrow> nat \<Rightarrow> nat printing" where
  "strnlen B loc maximum =
     (let n = length (takeWhile (\<lambda>b. b \<noteq> 0) (drop loc B))
      in if maximum \<le> n then give maximum else if loc + n < length B then give n else outside)"

section \<open>Names\<close>

text \<open>\<open>DNSQueryToChar\<close> at an offset of the buffer, with its reads checked.\<close>

function read_labels :: "bytes \<Rightarrow> nat \<Rightarrow> nat \<Rightarrow> int \<Rightarrow> int \<Rightarrow> bytes \<Rightarrow> (bytes \<times> nat \<times> u16) option" where
  "read_labels B loc u i0 i1 out =
     (if u \<ge> DOMAIN_MAXSIZE then Some (out, u, 0)
      else if loc + u \<ge> length B then None
      else let b = B ! (loc + u)
      in if b \<ge> 0xC0
         then (if loc + u + 1 \<ge> length B then None
               else Some (out, u + 2, push_bit 8 (ucast (b AND 0x3F)) + ucast (B ! (loc + u + 1))))
         else if u = 0 then read_labels B loc (u + 1) (sint b) i1 out
         else if int u = (i0 + i1 + 1) mod 2 ^ 32
         then (if b = 0 then Some (out, u, 0) else read_labels B loc (u + 1) (sint b) (int u) (out @ [46]))
         else read_labels B loc (u + 1) i0 i1 (out @ [b]))"
  by auto
termination by (relation "measure (\<lambda>(_, _, u, _). DOMAIN_MAXSIZE - u)") (auto simp: Let_def)

declare read_labels.simps [simp del]

definition read_name :: "bytes \<Rightarrow> nat \<Rightarrow> (bytes \<times> nat \<times> u16) option" where
  "read_name B loc = read_labels B loc 0 0 0 []"

text \<open>What the loops over \<open>BufferTemp\<close> print: up to the first zero byte.\<close>

definition name_text :: "bytes \<Rightarrow> wstring" where
  "name_text out = map char_text (takeWhile (\<lambda>b. b \<noteq> 0) (take PACKET_MAXSIZE out))"

text \<open>The loop \<open>while (Truncated > 0)\<close>, with \<open>MultiplePTR\<close>.\<close>

partial_function (option) follow :: "bytes \<Rightarrow> u16 \<Rightarrow> bool \<Rightarrow> wstring \<Rightarrow> (fault + wstring) option" where
  "follow B Truncated MultiplePTR shown =
     (if Truncated = 0 then Some (Inr shown)
      else case read_name B (unat Truncated) of
             None \<Rightarrow> Some (Inl Outside_Buffer)
           | Some r \<Rightarrow> follow B (snd (snd r)) True
               (shown @ (if MultiplePTR then wlit ''.'' else []) @ name_text (fst r)))"

text \<open>
  \<open>PrintDomainName\<close> answers the length of the name at its place. When the name has a pointer, what is in front of
  it is printed first and the temporary buffer is cleared, so that printing it once more at the end prints nothing.
\<close>

definition PrintDomainName :: "bytes \<Rightarrow> nat \<Rightarrow> nat printing" where
  "PrintDomainName B Location =
     andthen (read8 B Location) (\<lambda>b.
       if b = 0 then andthen (lit ''<Root>'') (\<lambda>_. give 1)
       else case read_name B Location of
              None \<Rightarrow> outside
            | Some (out, Result, Truncated) \<Rightarrow>
                if Truncated > 0
                then (case follow B Truncated False
                             (if Result > 2 then name_text out @ wlit ''.'' else []) of
                        None \<Rightarrow> None
                      | Some (Inl e) \<Rightarrow> Some (Inl e)
                      | Some (Inr shown) \<Rightarrow> Some (Inr (own shown, Result)))
                else andthen (say (name_text out)) (\<lambda>_. give (Result + 1)))"

definition print_name :: "bytes \<Rightarrow> nat \<Rightarrow> unit printing" where
  "print_name B Location = andthen (PrintDomainName B Location) (\<lambda>_. give ())"

section \<open>Resource data\<close>

definition data_line :: "unit printing" where
  "data_line = andthen (say newline) (\<lambda>_. lit ''   Data: '')"

definition sub_line :: "string \<Rightarrow> unit printing" where
  "sub_line s = andthen (say newline) (\<lambda>_. lit (''         '' @ s))"

definition dec :: "nat printing \<Rightarrow> unit printing" where
  "dec = show_with to_wstring"

definition hex :: "nat printing \<Rightarrow> unit printing" where
  "hex = show_with hex_text"

definition host8 :: "bytes \<Rightarrow> nat \<Rightarrow> nat printing" where
  "host8 B i = andthen (read8 B i) (\<lambda>b. give (unat b))"

text \<open>A number of seconds, and what it amounts to: the call for the latter never has the file.\<close>

definition seconds :: "bool \<Rightarrow> nat printing \<Rightarrow> unit printing" where
  "seconds to_file m = andthen m (\<lambda>n. say_all [say (to_wstring n), say_stray to_file (PrintSecondsInDateTime n)])"

definition a_data :: "bytes \<Rightarrow> nat \<Rightarrow> unit printing" where
  "a_data B loc = say_all [dec (host8 B loc), lit ''.'', dec (host8 B (loc + 1)), lit ''.'', dec (host8 B (loc + 2)),
     lit ''.'', dec (host8 B (loc + 3))]"

definition soa_data :: "bool \<Rightarrow> bytes \<Rightarrow> nat \<Rightarrow> unit printing" where
  "soa_data to_file B loc =
     andthen (lit ''Primary Name Server: '') (\<lambda>_. andthen (PrintDomainName B loc) (\<lambda>n.
     andthen (sub_line ''Responsible authority's mailbox: '') (\<lambda>_. andthen (PrintDomainName B (loc + n)) (\<lambda>m.
     let soa = loc + n + m in
     say_all [sub_line ''Serial Number: '', dec (host32 B soa),
       sub_line ''Refresh Interval: '', seconds to_file (host32 B (soa + 4)),
       sub_line ''Retry Interval: '', seconds to_file (host32 B (soa + 8)),
       sub_line ''Expire Limit: '', seconds to_file (host32 B (soa + 12)),
       sub_line ''Minimum TTL: '', seconds to_file (host32 B (soa + 16))]))))"

definition mx_data :: "bytes \<Rightarrow> nat \<Rightarrow> unit printing" where
  "mx_data B loc = say_all [lit ''Preference: '', dec (host16 B loc), sub_line ''Mail Exchange: '', print_name B (loc + 2)]"

definition txt_data :: "bytes \<Rightarrow> nat \<Rightarrow> nat \<Rightarrow> unit printing" where
  "txt_data B loc len = say_all [lit ''Length: '', dec (host8 B loc), sub_line ''TXT: '', say quote,
     each_byte B (\<lambda>b. [char_text b]) (loc + 1) (loc + len), say quote]"

definition ADDR_STRING_MAXSIZE :: nat where "ADDR_STRING_MAXSIZE = 64"

text \<open>The text of the system up to its terminator, in capitals; the buffer of \<open>ADDR_STRING_MAXSIZE\<close> holds it.\<close>

definition aaaa_data :: "'w net \<Rightarrow> bytes \<Rightarrow> nat \<Rightarrow> unit printing" where
  "aaaa_data net B loc =
     (if loc + 16 \<le> length B
      then say (map char_text (CaseConvert True (takeWhile (\<lambda>b. b \<noteq> 0)
             (take ADDR_STRING_MAXSIZE (n_addr_to_string net AF_INET6 (take 16 (drop loc B)))))))
      else outside)"

definition srv_data :: "bytes \<Rightarrow> nat \<Rightarrow> unit printing" where
  "srv_data B loc = say_all [lit ''Priority: '', hex (host16 B loc), sub_line ''Weight: '', dec (host16 B (loc + 2)),
     sub_line ''Port: '', dec (host16 B (loc + 4)), sub_line ''Target: '', print_name B (loc + 6)]"

definition option_codes :: "(nat \<times> string) list" where
  "option_codes = [(1, ''LLQ''), (2, ''LLQ''), (3, []), (4, ''OWNER''), (5, ''DAU''), (6, ''DHU''), (7, ''N3U''),
     (8, ''CLIENT_SUBNET''), (9, ''EDNS_EXPIRE''), (0x50FA, ''CLIENT_SUBNET_EXP'')]"

text \<open>\<open>loc\<close> is the place of the whole record, whose root name is one byte.\<close>

definition opt_data :: "bytes \<Rightarrow> nat \<Rightarrow> nat \<Rightarrow> unit printing" where
  "opt_data B loc len = say_all
     [lit ''UDP Playload Size: '', dec (host16 B (loc + 3)), sub_line ''Extended RCode: '', hex (host8 B (loc + 5)),
      sub_line ''EDNS Version: '', dec (host8 B (loc + 6)),
      andthen (host16 B (loc + 7)) (\<lambda>z.
        sub_line (if z div 2 ^ 15 = 0 then ''Server cannot handle DNSSEC security RRs.''
                  else ''Server can handle DNSSEC security RRs.'')),
      if len \<ge> 4
      then say_all [sub_line ''EDNS Option:'', say newline, lit ''                         Code: '',
             show_with (\<lambda>n. named option_codes n (hex_text n)) (host16 B (loc + sizeof_dns_opt_record)),
             say newline, lit ''                         Length: '', hex (host16 B (loc + sizeof_dns_opt_record + 2))]
      else give ()]"

definition algorithm_names :: "(nat \<times> string) list" where
  "algorithm_names = [(1, ''RSA/MD5''), (2, ''DH''), (3, ''DSA''), (4, ''ECC''), (5, ''RSA/SHA-1''),
     (6, ''DSA/NSEC3/SHA-1''), (7, ''RSA/SHA-1/NSEC3/SHA-1''), (8, ''RSA/SHA-256''), (10, ''RSA/SHA-512''),
     (12, ''ECC/GOST''), (13, ''ECDSA P256/SHA-256''), (14, ''ECDSA P386/SHA-386''), (157, ''HMAC/MD5''),
     (252, ''Indirect''), (253, ''Private DNS''), (254, ''Private OID'')]"

definition PrintDateTime :: "'w net \<Rightarrow> nat \<Rightarrow> wstring" where
  "PrintDateTime net t =
     (let d = n_localtime net t
      in print_int (tm_year d + 1900) @ wlit ''-'' @ pad_zeros 2 (print_int (tm_mon d + 1)) @ wlit ''-''
         @ pad_zeros 2 (print_int (tm_mday d)) @ wlit '' '' @ pad_zeros 2 (print_int (tm_hour d)) @ wlit '':''
         @ pad_zeros 2 (print_int (tm_min d)) @ wlit '':'' @ pad_zeros 2 (print_int (tm_sec d)))"

text \<open>\<open>sizeof(dns_rrsig_record)\<close> is 18. The length of the signer's name gets one more than \<open>PrintDomainName\<close> answers.\<close>

definition rrsig_data :: "'w net \<Rightarrow> bool \<Rightarrow> bytes \<Rightarrow> nat \<Rightarrow> nat \<Rightarrow> unit printing" where
  "rrsig_data net to_file B loc len =
     andthen (say_all
       [lit ''Type Covered: 0x'', show_with (hex_pad 4) (host16 B loc),
        show_stray to_file (\<lambda>t. PrintTypeClassesName t 0) (read16 B loc),
        lit ''         Algorithm: '', show_with (\<lambda>n. named algorithm_names n (to_wstring n)) (host8 B (loc + 2)),
        sub_line ''Labels: '', dec (host8 B (loc + 3)), sub_line ''Original TTL: '', seconds to_file (host32 B (loc + 4)),
        sub_line ''Signature Expiration: '', show_stray to_file (PrintDateTime net) (host32 B (loc + 8)),
        sub_line ''Signature Inception: '', show_stray to_file (PrintDateTime net) (host32 B (loc + 12)),
        sub_line ''Key Tag: '', dec (host16 B (loc + 16)), sub_line ''Signer's name: '']) (\<lambda>_.
     andthen (PrintDomainName B (loc + 18)) (\<lambda>n.
     let CurrentLength = n + 1 + 18 in
     say_all [sub_line ''Signature: '', each_byte B (\<lambda>b. hex_pad 2 (unat b)) (loc + CurrentLength) (loc + len)]))"

definition nsec_data :: "bytes \<Rightarrow> nat \<Rightarrow> nat \<Rightarrow> unit printing" where
  "nsec_data B loc len =
     andthen (lit ''Next Domain Name: '') (\<lambda>_. andthen (PrintDomainName B loc) (\<lambda>n.
     say_all [sub_line ''List of Type Bit Map: '', each_byte B (\<lambda>b. hex_text (unat b)) (loc + n) (loc + len)]))"

definition caa_data :: "bytes \<Rightarrow> nat \<Rightarrow> nat \<Rightarrow> unit printing" where
  "caa_data B loc len =
     andthen (host8 B (loc + 1)) (\<lambda>n.
     say_all [lit ''   Data: Flags: '', hex (host8 B loc), sub_line ''Length: '', say (to_wstring n),
       sub_line ''Tag: '', say quote, each_byte B (\<lambda>b. [char_text b]) (loc + 2) (loc + 2 + n), say quote,
       sub_line ''Value: '', say quote, each_byte B (\<lambda>b. [char_text b]) (loc + 2 + n) (loc + len), say quote])"

text \<open>
  The type and the class are in network order. The function for the output file says nothing for DS and DNSKEY
  records, where the one for the screen begins a line of data.
\<close>

definition PrintResourseData :: "'w net \<Rightarrow> bool \<Rightarrow> bytes \<Rightarrow> nat \<Rightarrow> nat \<Rightarrow> u16 \<Rightarrow> u16 \<Rightarrow> unit printing" where
  "PrintResourseData net to_file B loc len rtype class =
     (if len = 0 \<and> rtype \<noteq> htons 41 \<or> class = 0 then give ()
      else andthen
        (if rtype = htons 1 \<and> len = 4 then andthen data_line (\<lambda>_. a_data B loc)
         else if rtype = htons 2 then andthen data_line (\<lambda>_. print_name B loc)
         else if rtype = htons 5 then andthen data_line (\<lambda>_. print_name B loc)
         else if rtype = htons 6 then andthen data_line (\<lambda>_. soa_data to_file B loc)
         else if rtype = htons 12 then andthen data_line (\<lambda>_. print_name B loc)
         else if rtype = htons 15 then andthen data_line (\<lambda>_. mx_data B loc)
         else if rtype = htons 16 then andthen data_line (\<lambda>_. txt_data B loc len)
         else if rtype = htons 28 \<and> len = 16 then andthen data_line (\<lambda>_. aaaa_data net B loc)
         else if rtype = htons 33 then andthen data_line (\<lambda>_. srv_data B loc)
         else if rtype = htons 41 then andthen (lit ''   Data: '') (\<lambda>_. opt_data B loc len)
         else if rtype = htons 43 then (if to_file then give () else data_line)
         else if rtype = htons 46 then andthen data_line (\<lambda>_. rrsig_data net to_file B loc len)
         else if rtype = htons 47 then andthen data_line (\<lambda>_. nsec_data B loc len)
         else if rtype = htons 48 then (if to_file then give () else data_line)
         else if rtype = htons 257 then caa_data B loc len
         else give ())
        (\<lambda>_. say newline))"

section \<open>The walk over the sections\<close>

text \<open>A question: its name is measured with \<open>strnlen_s\<close>, up to the difference of two \<open>size_t\<close>.\<close>

definition print_question :: "bytes \<Rightarrow> nat \<Rightarrow> nat \<Rightarrow> nat printing" where
  "print_question B Length cur =
     andthen (print_name B cur) (\<lambda>_. andthen (say newline) (\<lambda>_.
     andthen (strnlen B cur (nat ((int Length - int cur) mod 2 ^ 32))) (\<lambda>n.
     let cur = cur + n + 1 in
     andthen (say_all [lit ''   Type: 0x'', show_with (hex_pad 4) (host16 B cur),
       show_with (\<lambda>t. PrintTypeClassesName t 0) (read16 B cur),
       lit ''   Classes: 0x'', show_with (hex_pad 4) (host16 B (cur + 2)),
       show_with (PrintTypeClassesName 0) (read16 B (cur + 2))])
     (\<lambda>_. give (cur + 4)))))"

fun print_questions :: "bytes \<Rightarrow> nat \<Rightarrow> nat \<Rightarrow> nat \<Rightarrow> nat printing" where
  "print_questions B Length 0 cur = give cur"
| "print_questions B Length (Suc n) cur = andthen (print_question B Length cur) (print_questions B Length n)"

text \<open>The head of a resource record: its number and name; the answer is the place of its fixed members.\<close>

definition print_head :: "bytes \<Rightarrow> nat \<Rightarrow> nat \<Rightarrow> nat printing" where
  "print_head B i cur =
     andthen (say (wlit '' RR('' @ to_wstring (i + 1) @ wlit '')'' @ newline @ wlit ''   Name: '')) (\<lambda>_.
     andthen (PrintDomainName B cur) (\<lambda>n. andthen (say newline) (\<lambda>_. give (cur + n))))"

definition print_type :: "bytes \<Rightarrow> nat \<Rightarrow> unit printing" where
  "print_type B cur = say_all [lit ''   Type: 0x'', show_with (hex_pad 4) (host16 B cur),
     show_with (\<lambda>t. PrintTypeClassesName t 0) (read16 B cur)]"

text \<open>The members behind the type, and the data; the answer is the place behind the record.\<close>

definition print_rest :: "'w net \<Rightarrow> bool \<Rightarrow> bytes \<Rightarrow> nat \<Rightarrow> nat printing" where
  "print_rest net to_file B cur =
     andthen (say_all [lit ''   Classes: 0x'', show_with (hex_pad 4) (host16 B (cur + 2)),
       show_with (PrintTypeClassesName 0) (read16 B (cur + 2)),
       lit ''   TTL: '', seconds to_file (host32 B (cur + 4)), say newline,
       lit ''   Length: '', dec (host16 B (cur + 8))]) (\<lambda>_.
     andthen (host16 B (cur + 8)) (\<lambda>len. andthen (read16 B cur) (\<lambda>rtype. andthen (read16 B (cur + 2)) (\<lambda>class.
     andthen (PrintResourseData net to_file B (cur + 10) len rtype class) (\<lambda>_. give (cur + 10 + len))))))"

definition print_answer :: "'w net \<Rightarrow> bool \<Rightarrow> bytes \<Rightarrow> nat \<Rightarrow> nat \<Rightarrow> nat printing" where
  "print_answer net to_file B i cur =
     andthen (print_head B i cur) (\<lambda>cur. andthen (print_type B cur) (\<lambda>_. print_rest net to_file B cur))"

definition print_additional :: "'w net \<Rightarrow> bool \<Rightarrow> bytes \<Rightarrow> nat \<Rightarrow> nat \<Rightarrow> nat printing" where
  "print_additional net to_file B i cur =
     andthen (print_head B i cur) (\<lambda>cur. andthen (print_type B cur) (\<lambda>_. andthen (read16 B cur) (\<lambda>rtype.
     if rtype = htons DNS_RECORD_OPT
     then andthen (host16 B (cur + 8)) (\<lambda>len. andthen (read16 B (cur + 2)) (\<lambda>class.
          andthen (PrintResourseData net to_file B (cur - 1) len rtype class) (\<lambda>_. give (cur + 10 + len))))
     else print_rest net to_file B cur)))"

fun print_records :: "(nat \<Rightarrow> nat \<Rightarrow> nat printing) \<Rightarrow> nat \<Rightarrow> nat \<Rightarrow> nat \<Rightarrow> nat printing" where
  "print_records f 0 i cur = give cur"
| "print_records f (Suc n) i cur = andthen (f i cur) (print_records f n (i + 1))"

definition print_section :: "string \<Rightarrow> (nat \<Rightarrow> nat \<Rightarrow> nat printing) \<Rightarrow> nat \<Rightarrow> nat \<Rightarrow> nat printing" where
  "print_section title f n cur =
     (if n > 0 then andthen (say (wlit (title @ '' RR:'') @ newline)) (\<lambda>_. print_records f n 0 cur) else give cur)"

definition response_border :: wstring where
  "response_border = wlit ''-------------------------------- Response --------------------------------'' @ newline"

definition count_line :: "string \<Rightarrow> nat \<Rightarrow> unit printing" where
  "count_line s n = say (wlit (s @ '' RR Count: '') @ to_wstring n @ newline)"

definition PrintResponse :: "'w net \<Rightarrow> bool \<Rightarrow> bytes \<Rightarrow> nat \<Rightarrow> unit printing" where
  "PrintResponse net to_file B Length =
     andthen (host16 B 4) (\<lambda>questions. andthen (host16 B 6) (\<lambda>answers.
     andthen (host16 B 8) (\<lambda>authorities. andthen (host16 B 10) (\<lambda>additionals.
     andthen (say_all [say response_border, lit ''ID: 0x'', show_with (hex_pad 4) (host16 B 0), say newline,
       lit ''Flags: 0x'', show_with (hex_pad 4) (host16 B 2), show_with PrintFlags (read16 B 2),
       count_line ''Questions'' questions, count_line ''Answer'' answers, count_line ''Authority'' authorities,
       count_line ''Additional'' additionals]) (\<lambda>_.
     andthen (if questions > 0
       then andthen (say (wlit ''Questions RR:'' @ newline @ wlit ''   Name: ''))
              (\<lambda>_. print_questions B Length questions 12)
       else give 12) (\<lambda>cur.
     andthen (print_section ''Answer'' (print_answer net to_file B) answers cur) (\<lambda>cur.
     andthen (print_section ''Authority'' (print_answer net to_file B) authorities cur) (\<lambda>cur.
     andthen (print_section ''Additional'' (print_additional net to_file B) additionals cur) (\<lambda>_.
     say response_border)))))))))"

section \<open>Laws of printing\<close>

lemma own_simps [simp]: "own [] = []" "own (c # w) = (Given, c) # own w" "own (v @ w) = own v @ own w"
  by (simp_all add: own_def)

text \<open>The ordinary outcome; text that comes first moves in front of an outcome.\<close>

definition shown :: "written \<Rightarrow> 'a \<Rightarrow> 'a printing" where "shown w a = Some (Inr (w, a))"

definition behind :: "written \<Rightarrow> 'a printing \<Rightarrow> 'a printing" where
  "behind w m = andthen (shown w ()) (\<lambda>_. m)"

lemma behind_simps [simp]:
  "behind w (shown w' a) = shown (w @ w') a" "behind w outside = outside" "behind w None = None"
  "behind [] m = m" "behind w (behind w' m) = behind (w @ w') m"
  by (auto simp: behind_def andthen_def shown_def outside_def split: option.splits sum.splits)

lemma andthen_simps [simp]:
  "andthen (shown w a) f = behind w (f a)" "andthen outside f = outside" "andthen None f = None"
  "andthen (behind w m) f = behind w (andthen m f)"
  by (auto simp: behind_def andthen_def shown_def outside_def split: option.splits sum.splits)

lemma andthen_assoc: "andthen (andthen m f) g = andthen m (\<lambda>a. andthen (f a) g)"
  by (auto simp: andthen_def split: option.splits sum.splits)

lemma say_shown [simp]:
  "say w = shown (own w) ()" "give a = shown [] a" "lit s = shown (own (wlit s)) ()"
  "say_stray to_file w = shown (if to_file then stray w else own w) ()"
  by (simp_all add: say_def give_def shown_def lit_def say_stray_def)

text \<open>Functions that return, with a fault or without: all of them but the loop over pointers.\<close>

definition returns :: "'a printing \<Rightarrow> bool" where "returns m \<longleftrightarrow> m \<noteq> None"

lemma outcomes [simp]:
  "returns (shown w a)" "returns outside" "\<not> returns None" "returns (behind w m) = returns m"
  "shown w a \<noteq> outside" "outside \<noteq> shown w a" "shown w a = shown w' a' \<longleftrightarrow> w = w' \<and> a = a'"
  by (auto simp: returns_def shown_def outside_def behind_def andthen_def split: option.splits sum.splits prod.splits)

lemma printing_cases:
  obtains (none) "m = None" | (fault) "m = outside" | (ok) w a where "m = shown w a"
proof (cases m)
  case None
  then show ?thesis by (rule none)
next
  case (Some r)
  then show ?thesis using fault ok by (cases r) (auto simp: shown_def outside_def, metis fault.exhaust)
qed

named_theorems returning \<open>functions that return\<close>

lemma andthen_returns [returning]:
  assumes "returns m" and "\<And>a. returns (f a)"
  shows "returns (andthen m f)"
  using assms by (cases m rule: printing_cases) simp_all

lemma say_all_returns [returning]:
  "returns (say_all [])" "returns m \<Longrightarrow> returns (say_all ms) \<Longrightarrow> returns (say_all (m # ms))"
  by (simp_all add: andthen_returns)

lemma reads_return [returning]:
  "returns (read8 B i)" "returns (read16 B i)" "returns (host8 B i)" "returns (host16 B i)" "returns (host32 B i)"
  "returns (each_byte B g i j)" "returns (strnlen B i k)" "returns m \<Longrightarrow> returns (show_with f m)"
  "returns m \<Longrightarrow> returns (show_stray to_file f m)" "returns (say_stray to_file w)" "returns (say w)" "returns (lit t)" "returns (give a)" "returns outside"
  by (simp_all add: read8_def read16_def host8_def host16_def host32_def each_byte_def strnlen_def show_with_def
      show_stray_def andthen_returns Let_def)

section \<open>Names return exactly when their pointers end\<close>

text \<open>Reading a name never loops. A name has a pointer when reading it gives one that is not zero.\<close>

definition pointer :: "bytes \<Rightarrow> nat \<Rightarrow> nat \<Rightarrow> bool" where
  "pointer B loc t \<longleftrightarrow> (case read_name B loc of None \<Rightarrow> False | Some (_, _, p) \<Rightarrow> p \<noteq> 0 \<and> t = unat p)"

text \<open>The pointers of a name end when it is accessible backwards along them.\<close>

definition pointers_end :: "bytes \<Rightarrow> nat \<Rightarrow> bool" where
  "pointers_end B loc \<longleftrightarrow> Wellfounded.accp (\<lambda>t loc. pointer B loc t) loc"

lemma pointers_endI: "(\<And>t. pointer B loc t \<Longrightarrow> pointers_end B t) \<Longrightarrow> pointers_end B loc"
  unfolding pointers_end_def by (rule accp.accI) simp

lemma pointers_endD: "pointers_end B loc \<Longrightarrow> pointer B loc t \<Longrightarrow> pointers_end B t"
  unfolding pointers_end_def by (rule accp_downward)

lemma follow_returns:
  assumes "pointers_end B loc"
  shows "p \<noteq> 0 \<Longrightarrow> unat p = loc \<Longrightarrow> follow B p m w \<noteq> None"
  using assms unfolding pointers_end_def
proof (induction loc arbitrary: p m w rule: accp.induct)
  case (accI loc)
  then have p: "p \<noteq> 0" "unat p = loc" by simp_all
  show ?case
  proof (cases "read_name B loc")
    case None
    with p show ?thesis by (subst follow.simps) simp
  next
    case (Some r)
    obtain out n q where r: "r = (out, n, q)" by (metis prod_cases3)
    show ?thesis
    proof (cases "q = 0")
      case True
      with p Some r show ?thesis by (subst follow.simps) (simp add: follow.simps [of _ 0])
    next
      case False
      with Some r have "pointer B loc (unat q)" by (simp add: pointer_def)
      with accI.IH False p Some r show ?thesis by (subst follow.simps) simp
    qed
  qed
qed

lemma follow_ends:
  "follow B p m w = Some r \<Longrightarrow> p \<noteq> 0 \<Longrightarrow> pointers_end B (unat p)"
proof (induction B p m w r rule: follow.raw_induct [rotated, consumes 1, case_names step])
  case (step fol B p m w r)
  show ?case
  proof (rule pointers_endI)
    fix t assume "pointer B (unat p) t"
    then obtain out n q where q: "read_name B (unat p) = Some (out, n, q)" "q \<noteq> 0" "t = unat q"
      by (auto simp: pointer_def split: option.splits)
    with step.hyps step.prems have "fol B q True (w @ (if m then wlit ''.'' else []) @ name_text out) = Some r"
      by simp
    with step.IH q show "pointers_end B t" by blast
  qed
qed

lemma PrintDomainName_returns_iff:
  "returns (PrintDomainName B loc) \<longleftrightarrow> (loc < length B \<and> B ! loc = 0) \<or> pointers_end B loc"
proof (cases "loc < length B \<and> B ! loc \<noteq> 0")
  case False
  have none: "read_name B loc = None" if "\<not> loc < length B"
    unfolding read_name_def using that by (subst read_labels.simps) (simp add: DOMAIN_MAXSIZE_def)
  have "pointers_end B loc" if "\<not> loc < length B"
    using none [OF that] pointers_endI [of B loc] by (simp add: pointer_def)
  moreover have "returns (PrintDomainName B loc)"
    using False by (cases "loc < length B") (simp_all add: PrintDomainName_def read8_def)
  ultimately show ?thesis using False by blast
next
  case name: True
  show ?thesis
  proof (cases "read_name B loc")
    case None
    then have "pointers_end B loc" using pointers_endI [of B loc] by (simp add: pointer_def)
    with name None show ?thesis by (simp add: PrintDomainName_def read8_def)
  next
    case (Some r)
    obtain out n q where r: "r = (out, n, q)" by (metis prod_cases3)
    show ?thesis
    proof (cases "q = 0")
      case True
      then have "pointers_end B loc" using Some r pointers_endI [of B loc] by (simp add: pointer_def)
      with name Some r True show ?thesis by (simp add: PrintDomainName_def read8_def)
    next
      case False
      define w where "w = (if n > 2 then name_text out @ wlit ''.'' else [])"
      have "pointer B loc t \<longleftrightarrow> t = unat q" for t using Some r False by (simp add: pointer_def)
      then have "pointers_end B loc \<longleftrightarrow> pointers_end B (unat q)"
        by (metis pointers_endI pointers_endD)
      also have "\<dots> \<longleftrightarrow> follow B q False w \<noteq> None"
        using follow_returns [OF _ False refl] follow_ends [OF _ False] by (metis not_None_eq)
      also have "\<dots> \<longleftrightarrow> returns (PrintDomainName B loc)"
        using name Some r False
        by (auto simp: PrintDomainName_def read8_def w_def [symmetric] word_gt_0 returns_def split: option.splits sum.splits)
      finally show ?thesis using name by simp
    qed
  qed
qed


section \<open>A response whose pointers end is printed\<close>

lemma name_returns [returning]:
  "(\<And>loc. pointers_end B loc) \<Longrightarrow> returns (PrintDomainName B loc)"
  "(\<And>loc. pointers_end B loc) \<Longrightarrow> returns (print_name B loc)"
  by (simp_all add: PrintDomainName_returns_iff print_name_def andthen_returns)

lemma line_returns [returning]:
  "returns data_line" "returns (sub_line t)" "returns m \<Longrightarrow> returns (dec m)" "returns m \<Longrightarrow> returns (hex m)"
  "returns m \<Longrightarrow> returns (seconds to_file m)" "returns (count_line t n)" "returns (print_type B loc)" "returns (a_data B loc)"
  "returns (txt_data B loc len)" "returns (aaaa_data net B loc)" "returns (opt_data B loc len)"
  "returns (caa_data B loc len)"
  by (simp_all add: data_line_def sub_line_def dec_def hex_def seconds_def count_line_def print_type_def a_data_def
      txt_data_def aaaa_data_def opt_data_def caa_data_def Let_def returning del: say_all.simps)

lemma data_returns [returning]:
  assumes "\<And>loc. pointers_end B loc"
  shows "returns (soa_data to_file B loc)" "returns (mx_data B loc)" "returns (srv_data B loc)"
    "returns (rrsig_data net to_file B loc len)" "returns (nsec_data B loc len)"
    "returns (PrintResourseData net to_file B loc len t c)"
proof -
  note names = name_returns [OF assms]
  show *: "returns (soa_data to_file B loc)" "returns (mx_data B loc)" "returns (srv_data B loc)"
    "returns (rrsig_data net to_file B loc len)" "returns (nsec_data B loc len)"
    by (simp_all add: soa_data_def mx_data_def srv_data_def rrsig_data_def nsec_data_def Let_def
        returning names del: say_all.simps)
  show "returns (PrintResourseData net to_file B loc len t c)"
    unfolding PrintResourseData_def by (simp add: * returning names)
qed

lemma walk_returns:
  assumes "\<And>loc. pointers_end B loc"
  shows "returns (print_questions B n k cur)" "returns (print_answer net to_file B i cur)"
    "returns (print_additional net to_file B i cur)"
proof -
  note names = name_returns [OF assms] and data = data_returns [OF assms]
  show "returns (print_questions B n k cur)"
    by (induction k arbitrary: cur)
      (simp_all add: print_question_def Let_def returning names del: say_all.simps)
  show "returns (print_answer net to_file B i cur)" "returns (print_additional net to_file B i cur)"
    by (simp_all add: print_answer_def print_additional_def print_head_def print_rest_def returning names data
        del: say_all.simps)
qed

lemma section_returns: "(\<And>i cur. returns (f i cur)) \<Longrightarrow> returns (print_section t f n cur)"
proof -
  assume f: "\<And>i cur. returns (f i cur)"
  have "returns (print_records f n i cur)" for i
    by (induction n arbitrary: i cur) (simp_all add: f andthen_returns)
  then show ?thesis by (simp add: print_section_def)
qed

lemma PrintResponse_returns:
  assumes "\<And>loc. pointers_end B loc"
  shows "returns (PrintResponse net to_file B n)"
  unfolding PrintResponse_def
  by (simp add: returning walk_returns [OF assms] section_returns del: say_all.simps)


section \<open>Names are printed in full\<close>

text \<open>The checked reading is the reading of the code when that stays inside the buffer.\<close>

lemma query_to_char_le: "query_to_char T u i0 i1 out = (o', r, t) \<Longrightarrow> u \<le> r"
proof (induction T u i0 i1 out rule: query_to_char.induct)
  case (1 T u i0 i1 out)
  show ?case
  proof (cases "u \<ge> DOMAIN_MAXSIZE \<or> T ! u \<ge> 0xC0")
    case True
    with "1.prems" show ?thesis by (subst (asm) query_to_char.simps) (auto split: if_splits)
  next
    case False
    with "1.prems" "1.IH" show ?thesis
      by (subst (asm) query_to_char.simps) (auto simp: not_le split: if_splits dest: Suc_leD)
  qed
qed

lemma read_labels_checked:
  "query_to_char (drop loc B) u i0 i1 out = (o', r, t) \<Longrightarrow> loc + r \<le> length B \<Longrightarrow> t \<noteq> 0 \<or> loc + r < length B
    \<Longrightarrow> read_labels B loc u i0 i1 out = Some (o', r, t)"
proof (induction B loc u i0 i1 out rule: read_labels.induct)
  case (1 B loc u i0 i1 out)
  let ?b = "B ! (loc + u)"
  have b: "drop loc B ! k = B ! (loc + k)" for k using "1.prems"(2) by simp
  show ?case
  proof (cases "u \<ge> DOMAIN_MAXSIZE")
    case True
    with "1.prems"(1) have "(out, u, 0) = (o', r, t)" by (simp add: query_to_char.simps [of "drop loc B" u i0 i1 out])
    moreover have "read_labels B loc u i0 i1 out = Some (out, u, 0)" using True by (subst read_labels.simps) simp
    ultimately show ?thesis by simp
  next
    case small: False
    show ?thesis
    proof (cases "?b \<ge> 0xC0")
      case True
      with small "1.prems"(1) have "r = u + 2" "o' = out"
          "t = push_bit 8 (ucast (?b AND 0x3F)) + ucast (B ! (loc + u + 1))"
        by (simp_all add: query_to_char.simps [of "drop loc B" u i0 i1 out] b add.assoc)
      with small True "1.prems"(2) show ?thesis by (simp add: read_labels.simps [of B loc u i0 i1 out] Let_def)
    next
      case False
      have in_buffer: "loc + u < length B"
        using query_to_char_le [OF "1.prems"(1)] "1.prems" small False
        by (subst (asm) query_to_char.simps) (auto simp: b not_le split: if_splits dest!: query_to_char_le)
      note step = "1.IH" [OF small _ refl False]
      show ?thesis
        using small False in_buffer "1.prems" step
        by (cases "?b = 0") (simp_all add: read_labels.simps [of B loc u i0 i1 out]
            query_to_char.simps [of "drop loc B" u i0 i1 out] b Let_def split: if_splits)
    qed
  qed
qed


lemma read_name_checked:
  "DNSQueryToChar (drop loc B) = (out, r, t) \<Longrightarrow> loc + r \<le> length B \<Longrightarrow> t \<noteq> 0 \<or> loc + r < length B
    \<Longrightarrow> read_name B loc = Some (out, r, t)"
  unfolding DNSQueryToChar_def read_name_def by (rule read_labels_checked)

text \<open>
  A name in a message, as RFC 1035 lays it out: labels and the end, or labels and a pointer to a name that has
  labels of its own.
\<close>

definition legal :: "bytes list \<Rightarrow> bool" where
  "legal ls \<longleftrightarrow> ls \<noteq> [] \<and> (\<forall>l \<in> set ls. label_ok l) \<and> length (join ls) \<le> 253"

inductive labels_at :: "bytes \<Rightarrow> nat \<Rightarrow> bytes list \<Rightarrow> nat \<Rightarrow> bool" for B where
  ending: "legal ls \<Longrightarrow> drop loc B = encode_labels ls @ 0 # rest \<Longrightarrow> labels_at B loc ls (length (join ls) + 2)"
| pointing: "legal ls \<Longrightarrow> drop loc B = encode_labels ls @ hi # lo # rest \<Longrightarrow> 0xC0 \<le> hi \<Longrightarrow>
    pointer_target hi lo \<noteq> 0 \<Longrightarrow> labels_at B (unat (pointer_target hi lo)) ls' n \<Longrightarrow>
    labels_at B loc (ls @ ls') (length (join ls) + 3)"

text \<open>A name may also be nothing but a pointer.\<close>

definition name_at :: "bytes \<Rightarrow> nat \<Rightarrow> bytes list \<Rightarrow> nat \<Rightarrow> bool" where
  "name_at B loc ls n \<longleftrightarrow> labels_at B loc ls n
     \<or> (\<exists>hi lo rest m. drop loc B = hi # lo # rest \<and> 0xC0 \<le> hi \<and> pointer_target hi lo \<noteq> 0
          \<and> labels_at B (unat (pointer_target hi lo)) ls m \<and> n = 2)"

lemma legalD: "legal ls \<Longrightarrow> ls \<noteq> []" "legal ls \<Longrightarrow> \<forall>l \<in> set ls. label_ok l" "legal ls \<Longrightarrow> length (join ls) \<le> 253"
  by (simp_all add: legal_def)

lemma labels_not_Nil: "labels_at B loc ls n \<Longrightarrow> ls \<noteq> []"
  by (induction rule: labels_at.induct) (auto dest: legalD)

lemma join_append: "ls \<noteq> [] \<Longrightarrow> ls' \<noteq> [] \<Longrightarrow> join (ls @ ls') = join ls @ 46 # join ls'"
proof (induction ls rule: join.induct)
  case (2 l)
  then show ?case by (cases ls') simp_all
qed simp_all

lemma name_text_join:
  assumes "legal ls"
  shows "name_text (join ls) = map char_text (join ls)"
proof -
  have "0 \<notin> set (join ls)" using legalD(2) [OF assms] by (intro join_nonzero) (auto simp: label_ok_def)
  then have whole: "takeWhile (\<lambda>b. b \<noteq> 0) (join ls) = join ls" by (auto simp: takeWhile_eq_all_conv)
  have "take PACKET_MAXSIZE (join ls) = join ls" using legalD(3) [OF assms] by (simp add: PACKET_MAXSIZE_def)
  then show ?thesis by (simp only: name_text_def whole)
qed

text \<open>What reading such a name gives.\<close>

lemma read_ending:
  assumes "legal ls" and "drop loc B = encode_labels ls @ 0 # rest"
  shows "read_name B loc = Some (join ls, length (join ls) + 1, 0)"
proof -
  have "length (drop loc B) = length (join ls) + 2 + length rest"
    unfolding assms(2) by (simp add: length_encode [OF legalD(1) [OF assms(1)]])
  then have "loc + (length (join ls) + 1) < length B" by simp
  with decode_end(1) [OF legalD [OF assms(1)], of rest] assms(2) show ?thesis
    by (intro read_name_checked) simp_all
qed

lemma read_pointing:
  assumes "legal ls" and "drop loc B = encode_labels ls @ hi # lo # rest" and "0xC0 \<le> hi"
    and "pointer_target hi lo \<noteq> 0"
  shows "read_name B loc = Some (join ls, length (join ls) + 3, pointer_target hi lo)"
proof -
  have "length (drop loc B) = length (join ls) + 3 + length rest"
    unfolding assms(2) by (simp add: length_encode [OF legalD(1) [OF assms(1)]])
  then have "loc + (length (join ls) + 3) \<le> length B" by simp
  with decode_end(2) [OF legalD [OF assms(1)] assms(3), of lo rest] assms(2,4) show ?thesis
    by (intro read_name_checked) simp_all
qed

lemma first_byte:
  assumes "legal ls" and "drop loc B = encode_labels ls @ tail"
  shows "loc < length B" "B ! loc \<noteq> 0"
proof -
  obtain l ls' where ls: "ls = l # ls'" using legalD(1) [OF assms(1)] by (cases ls) auto
  have "drop loc B \<noteq> []" by (simp add: assms(2) ls)
  then show l: "loc < length B" by simp
  have "B ! loc = drop loc B ! 0" using l by simp
  also have "\<dots> = of_nat (length l)" by (simp add: assms(2) ls)
  finally show "B ! loc \<noteq> 0" using label_length(1) [of l] legalD(2) [OF assms(1)] ls by simp
qed

lemma follow_labels:
  "labels_at B loc ls n \<Longrightarrow> loc = unat p \<Longrightarrow> p \<noteq> 0 \<Longrightarrow>
    follow B p m w = Some (Inr (w @ (if m then wlit ''.'' else []) @ map char_text (join ls)))"
proof (induction arbitrary: p m w rule: labels_at.induct)
  case (ending ls loc rest)
  have "read_name B (unat p) = Some (join ls, length (join ls) + 1, 0)"
    using read_ending [OF ending.hyps] ending.prems by simp
  with ending show ?case
    by (subst follow.simps) (simp add: follow.simps [of _ 0] name_text_join)
next
  case (pointing ls loc hi lo rest ls' n)
  have "read_name B (unat p) = Some (join ls, length (join ls) + 3, pointer_target hi lo)"
    using read_pointing [OF pointing.hyps(1-4)] pointing.prems by simp
  moreover have "map char_text (join (ls @ ls')) = map char_text (join ls) @ wlit ''.'' @ map char_text (join ls')"
    using join_append [OF legalD(1) [OF pointing.hyps(1)] labels_not_Nil [OF pointing.hyps(5)]]
    by (simp add: char_text_def wstr_simps)
  ultimately show ?case using pointing
    by (subst follow.simps) (simp add: name_text_join)
qed

text \<open>At the place of the name itself.\<close>

lemma PrintDomainName_labels:
  assumes "labels_at B loc ls n"
  shows "PrintDomainName B loc = shown (own (map char_text (join ls))) n"
  using assms
proof cases
  case (ending rest)
  then show ?thesis using first_byte [OF ending(2,3)] read_ending [OF ending(2,3)]
    by (simp add: PrintDomainName_def read8_def name_text_join)
next
  case (pointing ls1 hi lo rest ls2 m)
  let ?p = "pointer_target hi lo"
  have "2 < length (join ls1) + 3" by simp
  have "follow B ?p False (map char_text (join ls1) @ wlit ''.'') =
      Some (Inr (map char_text (join ls1) @ wlit ''.'' @ map char_text (join ls2)))"
    using follow_labels [OF pointing(7) refl pointing(6), where m = False] by simp
  moreover have "join ls = join ls1 @ 46 # join ls2"
    unfolding pointing(1) using legalD(1) [OF pointing(3)] labels_not_Nil [OF pointing(7)] by (rule join_append)
  ultimately show ?thesis
    using pointing first_byte [OF pointing(3,4)] read_pointing [OF pointing(3-6)]
    by (simp add: PrintDomainName_def read8_def name_text_join word_gt_0 shown_def [symmetric])
      (simp add: shown_def char_text_def wstr_simps)
qed

lemma read_pointer:
  assumes "drop loc B = hi # lo # rest" and "0xC0 \<le> hi" and "pointer_target hi lo \<noteq> 0"
  shows "read_name B loc = Some ([], 2, pointer_target hi lo)"
proof -
  have "length (drop loc B) = length rest + 2" by (simp add: assms(1))
  moreover have "DNSQueryToChar (drop loc B) = ([], 2, pointer_target hi lo)"
    using assms(2) unfolding assms(1) DNSQueryToChar_def
    by (subst query_to_char.simps) (simp add: DOMAIN_MAXSIZE_def pointer_target_def)
  ultimately show ?thesis using assms(3) by (intro read_name_checked) simp_all
qed

lemma PrintDomainName_name:
  assumes "name_at B loc ls n"
  shows "PrintDomainName B loc = shown (own (map char_text (join ls))) n"
proof -
  consider "labels_at B loc ls n"
    | hi lo rest m where "drop loc B = hi # lo # rest" "0xC0 \<le> hi" "pointer_target hi lo \<noteq> 0"
        "labels_at B (unat (pointer_target hi lo)) ls m" "n = 2"
    using assms by (auto simp: name_at_def)
  then show ?thesis
  proof cases
    case 1
    then show ?thesis by (rule PrintDomainName_labels)
  next
    case 2
    have "loc < length B" using 2(1) by (metis drop_eq_Nil list.distinct(1) not_le)
    moreover from this have "B ! loc = hi" using 2(1) by (metis nth_via_drop)
    moreover have "hi \<noteq> 0" using 2(2) by auto
    ultimately show ?thesis
      using 2 follow_labels [OF 2(4) refl 2(3), where m = False and w = "[]"] read_pointer [OF 2(1-3)]
      by (simp add: PrintDomainName_def read8_def word_gt_0) (simp add: shown_def)
  qed
qed

end
