(* ===== verification/Dnsping_Responses.thy ===== *)
theory Dnsping_Responses
  imports Dnsping_Resolver
begin

text \<open>
  What \<open>PrintResponse\<close> of DNSPing shows, and when it shows nothing: names are printed label by label, a response with
  addresses is printed record by record, pointers that do not end and counts without records are followed all the same.
\<close>

section \<open>Reading inside the buffer\<close>

named_theorems inside \<open>reads inside the buffer give values\<close>

lemma reads_inside [inside]:
  "i < length B \<Longrightarrow> read8 B i = shown [] (B ! i)" "i < length B \<Longrightarrow> host8 B i = shown [] (unat (B ! i))"
  "i + 1 < length B \<Longrightarrow> read16 B i = shown [] (load16 B i)"
  "i + 1 < length B \<Longrightarrow> host16 B i = shown [] (unat (htons (load16 B i)))"
  "i + 3 < length B \<Longrightarrow> host32 B i =
     shown [] (((unat (B ! i) * 256 + unat (B ! (i + 1))) * 256 + unat (B ! (i + 2))) * 256 + unat (B ! (i + 3)))"
  "j \<le> length B \<Longrightarrow> each_byte B f i j = shown (own (concat (map (\<lambda>k. f (B ! k)) [i..<j]))) ()"
  by (simp_all add: read8_def host8_def read16_def host16_def host32_def each_byte_def)

lemma lines_shown [simp]:
  "show_with f (shown w x) = shown (w @ own (f x)) ()" "dec (shown w a) = shown (w @ own (to_wstring a)) ()"
  "show_stray to_file f (shown w x) = shown (w @ (if to_file then stray (f x) else own (f x))) ()"
  "hex (shown w a) = shown (w @ own (hex_text a)) ()"
  "seconds to_file (shown w a) = shown (w @ own (to_wstring a)
     @ (if to_file then stray (PrintSecondsInDateTime a) else own (PrintSecondsInDateTime a))) ()"
  "sub_line t = shown (own (newline @ wlit (''         '' @ t))) ()"
  "data_line = shown (own (newline @ wlit ''   Data: '')) ()"
  by (simp_all add: show_with_def show_stray_def dec_def hex_def seconds_def sub_line_def data_line_def)

text \<open>Functions that write something and return.\<close>

definition writes :: "unit printing \<Rightarrow> bool" where "writes m \<longleftrightarrow> (\<exists>w. m = shown w ())"

lemma writes_simps [simp]:
  "writes (shown w ())" "writes (say_all [])" "writes m \<Longrightarrow> writes (say_all ms) \<Longrightarrow> writes (say_all (m # ms))"
  by (auto simp: writes_def)

lemma labels_endI:
  "legal ls \<Longrightarrow> drop loc B = encode_labels ls @ 0 # rest \<Longrightarrow> n = length (join ls) + 2 \<Longrightarrow> labels_at B loc ls n"
  using labels_at.ending by blast

lemma labels_pointerI:
  "legal ls \<Longrightarrow> drop loc B = encode_labels ls @ hi # lo # rest \<Longrightarrow> 0xC0 \<le> hi \<Longrightarrow> t = unat (pointer_target hi lo) \<Longrightarrow>
    0 < t \<Longrightarrow> labels_at B t ls' m \<Longrightarrow> n = length (join ls) + 3 \<Longrightarrow> labels_at B loc (ls @ ls') n"
  using labels_at.pointing by (metis unat_gt_0)

section \<open>Properties\<close>

text \<open>C40: Names of a response. A name laid out as RFC 1035 says, labels and possibly pointers to names that have labels
  of their own, is printed with all its labels and a period between them, and measured by the bytes at its own place.\<close>
theorem name_printed:
  assumes "name_at B loc ls n"
  shows "PrintDomainName B loc = Some (Inr (own (map char_text (join ls)), n))"
  using PrintDomainName_name [OF assms] by (simp add: shown_def)

definition mail_qq :: bytes where
  "mail_qq = replicate 12 0 @ [2, 113, 113, 0, 4, 109, 97, 105, 108, 0xC0, 12]"

theorem name_printed_witness:
  "PrintDomainName mail_qq 16 = Some (Inr (own (wlit ''mail.qq''), 7))"
proof -
  have "labels_at mail_qq 12 [[113, 113]] 4"
    by (rule labels_endI [where rest = "[4, 109, 97, 105, 108, 0xC0, 12]"])
      (simp_all add: mail_qq_def legal_def label_ok_def)
  then have "labels_at mail_qq 16 ([[109, 97, 105, 108]] @ [[113, 113]]) 7"
    by (rule labels_pointerI [where hi = "0xC0" and lo = 12 and rest = "[]", rotated 5])
      (simp_all add: mail_qq_def legal_def label_ok_def pointer_target_def)
  then have n: "name_at mail_qq 16 [[109, 97, 105, 108], [113, 113]] 7" by (simp add: name_at_def)
  show ?thesis using name_printed [OF n] by (simp add: wstr_simps char_text_def)
qed

text \<open>Pointers that never end. Printing a name returns exactly when it is the root or following its pointers comes
  to an end; a pointer to itself, for one, is followed forever.\<close>
theorem name_returns_iff:
  "PrintDomainName B loc \<noteq> None \<longleftrightarrow> loc < length B \<and> B ! loc = 0 \<or> pointers_end B loc"
  using PrintDomainName_returns_iff [of B loc] by (simp add: returns_def)

lemma self_pointer:
  assumes "pointer B loc loc"
  shows "\<not> pointers_end B loc"
proof
  assume "pointers_end B loc"
  then have "pointer B loc loc \<longrightarrow> False" unfolding pointers_end_def
    by (induction rule: accp.induct) blast
  with assms show False by simp
qed

text \<open>Signatures lose a byte. The signature of an RRSIG record is printed from its second byte on, because the
  length of the signer's name in front of it is taken one too large.\<close>
theorem rrsig_signature_shortened:
  assumes "name_at B (loc + 18) ls n" and "18 + n < len" and "loc + len \<le> length B"
  shows "\<exists>w. rrsig_data net to_file B loc len =
    Some (Inr (w @ own (concat (map (\<lambda>i. hex_pad 2 (unat (B ! i))) [loc + 18 + n + 1 ..< loc + len])), ()))"
proof -
  have name: "PrintDomainName B (loc + 18) = shown (own (map char_text (join ls))) n"
    using assms(1) by (rule PrintDomainName_name)
  define head where "head = say_all
       [lit ''Type Covered: 0x'', show_with (hex_pad 4) (host16 B loc),
        show_stray to_file (\<lambda>t. PrintTypeClassesName t 0) (read16 B loc),
        lit ''         Algorithm: '', show_with (\<lambda>n. named algorithm_names n (to_wstring n)) (host8 B (loc + 2)),
        sub_line ''Labels: '', dec (host8 B (loc + 3)), sub_line ''Original TTL: '', seconds to_file (host32 B (loc + 4)),
        sub_line ''Signature Expiration: '', show_stray to_file (PrintDateTime net) (host32 B (loc + 8)),
        sub_line ''Signature Inception: '', show_stray to_file (PrintDateTime net) (host32 B (loc + 12)),
        sub_line ''Key Tag: '', dec (host16 B (loc + 16)), sub_line ''Signer's name: '']"
  have "writes head"
    using assms(2,3) unfolding head_def by (simp add: inside del: say_all.simps)
  then obtain w where "head = shown w ()" by (auto simp: writes_def)
  with assms(2,3) name show ?thesis
    unfolding rrsig_data_def head_def [symmetric]
    by (intro exI [of _ "w @ own (map char_text (join ls) @ newline @ wlit ''         Signature: '')"])
      (simp add: Let_def inside, simp add: shown_def add.left_commute)
qed

definition rrsig_example :: bytes where
  "rrsig_example = replicate 30 0 @ [2, 113, 113, 0, 1, 2, 3]"

theorem rrsig_signature_shortened_witness:
  "\<forall>net to_file. \<exists>w. rrsig_data net to_file rrsig_example 12 25 = Some (Inr (w @ own (wlit ''0203''), ()))"
proof (intro allI)
  fix net :: "'w net" and to_file
  have "labels_at rrsig_example 30 [[113, 113]] 4"
    by (rule labels_endI [where rest = "[1, 2, 3]"]) (simp_all add: rrsig_example_def legal_def label_ok_def)
  then have "name_at rrsig_example (12 + 18) [[113, 113]] 4" by (simp add: name_at_def)
  note short = rrsig_signature_shortened [OF this, of 25 net to_file]
  have bytes: "concat (map (\<lambda>i. hex_pad 2 (unat (rrsig_example ! i))) [12 + 18 + 4 + 1 ..< 12 + 25]) = wlit ''0203''"
    by (simp add: rrsig_example_def nth_append upt_rec hex_pad_def pad_zeros_def hex_text_def hex_digits.simps
        hex_char_def wstr_simps)
  show "\<exists>w. rrsig_data net to_file rrsig_example 12 25 = Some (Inr (w @ own (wlit ''0203''), ()))"
    using short [unfolded bytes] by (simp add: rrsig_example_def)
qed

section \<open>Counts beyond the buffer\<close>

definition zeros_from :: "nat \<Rightarrow> bytes \<Rightarrow> bool" where
  "zeros_from n B \<longleftrightarrow> set (drop n B) \<subseteq> {0}"

lemma zeros_fromD:
  assumes "zeros_from n B" and "n \<le> i" and "i < length B"
  shows "B ! i = 0"
proof -
  have "drop n B ! (i - n) \<in> set (drop n B)" using assms(2,3) by (intro nth_mem) simp
  with assms show ?thesis by (auto simp: zeros_from_def)
qed

lemma zeros_load16: "zeros_from n B \<Longrightarrow> n \<le> i \<Longrightarrow> i + 1 < length B \<Longrightarrow> load16 B i = 0"
  using zeros_fromD [of n B i] zeros_fromD [of n B "i + 1"] by (simp add: load16_def)

text \<open>A read outside makes the whole outside when everything in front of it returns.\<close>

lemma outside_later:
  assumes "returns m" and "\<And>a. f a = outside"
  shows "andthen m f = outside"
  using assms by (cases m rule: printing_cases) simp_all

lemma say_all_outside: "\<forall>m \<in> set ms. returns m \<Longrightarrow> outside \<in> set ms \<Longrightarrow> say_all ms = outside"
proof (induction ms)
  case (Cons m ms)
  show ?case
  proof (cases "m = outside")
    case False
    with Cons have "say_all ms = outside" by simp
    with Cons.prems(1) show ?thesis by (simp add: outside_later)
  qed simp
qed simp

lemma host16_outside: "\<not> i + 1 < length B \<Longrightarrow> host16 B i = outside"
  by (simp add: host16_def read16_def)

lemma print_rest_outside:
  assumes "length B < cur + 10"
  shows "print_rest net to_file B cur = outside"
proof -
  have "dec (host16 B (cur + 8)) = outside"
    using assms by (simp add: host16_outside dec_def show_with_def)
  then have "say_all [lit ''   Classes: 0x'', show_with (hex_pad 4) (host16 B (cur + 2)),
       show_with (PrintTypeClassesName 0) (read16 B (cur + 2)),
       lit ''   TTL: '', seconds to_file (host32 B (cur + 4)), say newline,
       lit ''   Length: '', dec (host16 B (cur + 8))] = outside"
    by (intro say_all_outside) (simp_all add: returning seconds_def del: say_shown)
  then show ?thesis by (simp only: print_rest_def andthen_simps)
qed

text \<open>Eleven zero bytes are read as an empty record of the root; fewer of them are not enough.\<close>

lemma zero_record:
  assumes "zeros_from m B" and "m \<le> cur"
  shows "cur + 11 \<le> length B \<Longrightarrow> \<exists>w. print_answer net to_file B i cur = shown w (cur + 11)"
    and "length B < cur + 11 \<Longrightarrow> print_answer net to_file B i cur = outside"
proof -
  have name: "PrintDomainName B cur = shown (own (wlit ''<Root>'')) 1" if "cur < length B"
    using zeros_fromD [OF assms that] that by (simp add: PrintDomainName_def inside)
  note zero = zeros_load16 [OF assms(1)] zeros_fromD [OF assms(1)]
  show "\<exists>w. print_answer net to_file B i cur = shown w (cur + 11)" if "cur + 11 \<le> length B"
    using that assms(2)
    by (simp add: print_answer_def print_head_def print_type_def print_rest_def name inside zero
        PrintResourseData_def)
  show "print_answer net to_file B i cur = outside" if "length B < cur + 11"
  proof (cases "cur < length B")
    case True
    have "print_rest net to_file B (cur + 1) = outside" using that by (intro print_rest_outside) simp
    then have "andthen (print_type B (cur + 1)) (\<lambda>_. print_rest net to_file B (cur + 1)) = outside"
      by (intro outside_later) (simp_all add: line_returns)
    with name [OF True] show ?thesis by (simp add: print_answer_def print_head_def)
  next
    case False
    then show ?thesis by (simp add: print_answer_def print_head_def PrintDomainName_def read8_def)
  qed
qed

lemma zero_records:
  "zeros_from m B \<Longrightarrow> m \<le> cur \<Longrightarrow> length B < cur + 11 * n \<Longrightarrow> cur \<le> length B \<Longrightarrow>
    print_records (print_answer net to_file B) n i cur = outside"
proof (induction n arbitrary: i cur)
  case (Suc n)
  show ?case
  proof (cases "length B < cur + 11")
    case True
    then show ?thesis by (simp add: zero_record(2) [OF Suc.prems(1,2)])
  next
    case False
    then obtain w where "print_answer net to_file B i cur = shown w (cur + 11)"
      using zero_record(1) [OF Suc.prems(1,2)] by (metis not_less)
    moreover have "print_records (print_answer net to_file B) n (i + 1) (cur + 11) = outside"
      using Suc.prems False by (intro Suc.IH) simp_all
    ultimately show ?thesis by simp
  qed
qed simp

text \<open>Counts beyond the buffer. The records that a header announces are read whether the response has them or not:
  when nothing but zeros follows a header without questions, and the buffer has not eleven bytes for each of the
  answers, printing reads outside the buffer.\<close>
theorem counts_read_outside:
  assumes "zeros_from 12 B" and "12 \<le> length B" and "load16 B 4 = 0"
    and "length B < 12 + 11 * unat (htons (load16 B 6))"
  shows "PrintResponse net to_file B Length = Some (Inl Outside_Buffer)"
proof -
  let ?n = "unat (htons (load16 B 6))"
  have "print_records (print_answer net to_file B) ?n 0 12 = outside"
    using assms by (intro zero_records [where m = 12]) (simp_all only: le_refl)
  moreover have "0 < ?n" using assms(2,4) by (cases ?n) simp_all
  ultimately show ?thesis
    using assms(2,3) by (simp add: PrintResponse_def inside print_section_def count_line_def) (simp add: outside_def)
qed

theorem counts_read_outside_witness:
  "\<forall>net. PrintResponse net False ([0, 7, 0x81, 0x80, 0, 0, 0xFF, 0xFF, 0, 0, 0, 0] @ replicate 1488 0) 20
    = Some (Inl Outside_Buffer)"
  by (intro allI, rule counts_read_outside) (simp_all add: zeros_from_def load16_def htons_def)

section \<open>A response with addresses\<close>

text \<open>Numbers in network order.\<close>

definition be16 :: "nat \<Rightarrow> bytes" where
  "be16 n = [of_nat (n div 256), of_nat n]"

definition be32 :: "nat \<Rightarrow> bytes" where
  "be32 n = [of_nat (n div 16777216), of_nat (n div 65536), of_nat (n div 256), of_nat n]"

lemma host_order: "unat (htons (load16 B i)) = 256 * unat (B ! i) + unat (B ! (i + 1))"
proof -
  let ?a = "B ! i" and ?b = "B ! (i + 1)"
  have "htons (load16 B i) = push_bit 8 (ucast ?a) OR ucast ?b"
    unfolding htons_def load16_def by (rule bit_word_eqI) (auto simp: bit_simps dest: bit_imp_le_length)
  also have "\<dots> = push_bit 8 (ucast ?a) + ucast ?b"
    by (rule disjunctive_add [symmetric]) (auto simp: bit_simps dest: bit_imp_le_length)
  also have "\<dots> = of_nat (256 * unat ?a + unat ?b)"
    by (simp add: push_bit_eq_mult)
  finally have *: "htons (load16 B i) = of_nat (256 * unat ?a + unat ?b)" .
  have "unat ?a < 256" "unat ?b < 256" using unsigned_less [of ?a, where ?'a = nat] unsigned_less [of ?b, where ?'a = nat] by simp_all
  then have "256 * unat ?a + unat ?b < 2 ^ 16" by simp
  then show ?thesis unfolding * unat_of_nat by (intro mod_less) simp
qed

lemma nth_drop_le: "drop loc B = x @ rest \<Longrightarrow> k < length x \<Longrightarrow> B ! (loc + k) = x ! k \<and> loc + k < length B"
proof -
  assume d: "drop loc B = x @ rest" and k: "k < length x"
  have "length B - loc = length x + length rest" using d by (metis length_append length_drop)
  with k have l: "loc + k < length B" by simp
  then have "B ! (loc + k) = drop loc B ! k" by (simp add: nth_drop)
  with l show "B ! (loc + k) = x ! k \<and> loc + k < length B" using d k by (simp add: nth_append)
qed

lemma unat_byte: "unat (of_nat n :: u8) = n mod 256"
  by (simp add: unat_of_nat)

lemma host16_be16:
  assumes "drop i B = be16 n @ rest" and "n < 65536"
  shows "host16 B i = shown [] n"
proof -
  have b: "B ! i = of_nat (n div 256)" "B ! (i + 1) = of_nat n" "i + 1 < length B"
    using nth_drop_le [OF assms(1), of 0] nth_drop_le [OF assms(1), of 1] by (simp_all add: be16_def)
  have "n div 256 mod 256 = n div 256" using assms(2) by (intro mod_less) simp
  then have "unat (htons (load16 B i)) = n" unfolding host_order b by (simp add: unat_byte)
  with b(3) show ?thesis by (simp add: inside)
qed

lemma host32_be32:
  assumes "drop i B = be32 n @ rest" and "n < 2 ^ 32"
  shows "host32 B i = shown [] n"
proof -
  have b: "B ! i = of_nat (n div 16777216)" "B ! (i + 1) = of_nat (n div 65536)" "B ! (i + 2) = of_nat (n div 256)"
    "B ! (i + 3) = of_nat n" "i + 3 < length B"
    using nth_drop_le [OF assms(1), of 0] nth_drop_le [OF assms(1), of 1] nth_drop_le [OF assms(1), of 2]
      nth_drop_le [OF assms(1), of 3] by (simp_all add: be32_def)
  have m: "n div 16777216 mod 256 = n div 16777216" using assms(2) by (intro mod_less) (simp add: less_mult_imp_div_less)
  have "((n div 16777216 * 256 + n div 65536 mod 256) * 256 + n div 256 mod 256) * 256 + n mod 256 = n"
  proof -
    let ?a = "n div 256"
    let ?b = "?a div 256"
    have "n div 65536 = ?b" "n div 16777216 = ?b div 256" by (simp_all add: div_mult2_eq [symmetric])
    moreover have "?b div 256 * 256 + ?b mod 256 = ?b" "?b * 256 + ?a mod 256 = ?a" "?a * 256 + n mod 256 = n"
      by (simp_all only: div_mult_mod_eq)
    ultimately show ?thesis by simp
  qed
  then show ?thesis by (simp only: inside(5) [OF b(5)] b(1-4) unat_byte m)
qed


text \<open>A record of type A whose name points to the question, and a response with one question and such records.\<close>

definition answer_bytes :: "nat \<times> bytes \<Rightarrow> bytes" where
  "answer_bytes r = (case r of (ttl, addr) \<Rightarrow> [0xC0, 12] @ be16 1 @ be16 1 @ be32 ttl @ be16 4 @ addr)"

definition response_bytes :: "nat \<Rightarrow> nat \<Rightarrow> bytes list \<Rightarrow> (nat \<times> bytes) list \<Rightarrow> bytes" where
  "response_bytes i flags ls rs = be16 i @ be16 flags @ be16 1 @ be16 (length rs) @ be16 0 @ be16 0
     @ encode_labels ls @ 0 # be16 1 @ be16 1 @ concat (map answer_bytes rs)"

definition address_text :: "bytes \<Rightarrow> wstring" where
  "address_text addr = to_wstring (unat (addr ! 0)) @ wlit ''.'' @ to_wstring (unat (addr ! 1)) @ wlit ''.''
     @ to_wstring (unat (addr ! 2)) @ wlit ''.'' @ to_wstring (unat (addr ! 3))"

text \<open>In the file the text of a duration is missing; it goes to the screen.\<close>

definition duration_text :: "bool \<Rightarrow> nat \<Rightarrow> written" where
  "duration_text to_file n = (if to_file then stray (PrintSecondsInDateTime n) else own (PrintSecondsInDateTime n))"

definition answer_text :: "bool \<Rightarrow> wstring \<Rightarrow> nat \<Rightarrow> nat \<times> bytes \<Rightarrow> written" where
  "answer_text to_file name i r = (case r of (ttl, addr) \<Rightarrow>
     own (wlit '' RR('' @ to_wstring (i + 1) @ wlit '')'' @ newline @ wlit ''   Name: '' @ name @ newline
     @ wlit ''   Type: 0x0001(A Record)'' @ newline @ wlit ''   Classes: 0x0001(Class IN))'' @ newline
     @ wlit ''   TTL: '' @ to_wstring ttl) @ duration_text to_file ttl @ own (newline
     @ wlit ''   Length: 4'' @ newline @ wlit ''   Data: '' @ address_text addr @ newline))"

definition record_ok :: "nat \<times> bytes \<Rightarrow> bool" where
  "record_ok r \<longleftrightarrow> fst r < 2 ^ 32 \<and> length (snd r) = 4"

lemma answer_length: "record_ok r \<Longrightarrow> length (answer_bytes r) = 16"
  by (cases r) (simp add: record_ok_def answer_bytes_def be16_def be32_def)

lemma drop_drop_eq: "drop loc B = x @ rest \<Longrightarrow> loc' = loc + length x \<Longrightarrow> drop loc' B = rest"
  by (metis add.commute append_eq_conv_conj drop_drop)

lemma read16_be16:
  assumes "drop i B = be16 n @ rest" and "n < 65536"
  shows "read16 B i = shown [] (htons (of_nat n))"
proof -
  have b: "i + 1 < length B" using nth_drop_le [OF assms(1), of 1] by (simp add: be16_def)
  have "htons (of_nat n) = htons (of_nat (unat (htons (load16 B i))))"
    using host16_be16 [OF assms] b by (simp add: inside)
  then show ?thesis using b by (simp add: inside)
qed

lemma hex_4_1: "hex_pad 4 1 = wlit ''0001''"
  by (simp add: hex_pad_def pad_zeros_def hex_text_def hex_digits.simps hex_char_def wstr_simps numeral_eq_Suc)

lemma dec_4: "to_wstring 4 = wlit ''4''"
  by (simp add: to_wstring_def dec_digits.simps wstr_simps)

lemma text_A: "PrintTypeClassesName (htons 1) 0 = wlit ''(A Record)'' @ newline"
  by (simp add: PrintTypeClassesName_def type_text_def type_texts_def type_texts_1_def)

lemma text_IN: "PrintTypeClassesName 0 (htons 1) = wlit ''(Class IN))'' @ newline"
  by (simp add: PrintTypeClassesName_def class_text_def class_texts_def word_gt_0 wstr_simps)

lemma one_answer:
  assumes "drop cur B = answer_bytes r @ rest" and "record_ok r" and "labels_at B 12 ls m"
  shows "print_answer net to_file B i cur = shown (answer_text to_file (map char_text (join ls)) i r) (cur + 16)"
proof -
  obtain ttl addr where r: "r = (ttl, addr)" by force
  have ok: "ttl < 2 ^ 32" "length addr = 4" using assms(2) by (simp_all add: r record_ok_def)
  have "drop cur B = 0xC0 # 12 # be16 1 @ be16 1 @ be32 ttl @ be16 4 @ addr @ rest"
    using assms(1) by (simp add: r answer_bytes_def)
  then have "name_at B cur ls 2"
    using assms(3) unfolding name_at_def by (auto simp: pointer_target_def)
  then have name: "PrintDomainName B cur = shown (own (map char_text (join ls))) 2" by (rule PrintDomainName_name)
  let ?c = "cur + 2"
  have "drop cur B = [0xC0, 12] @ be16 1 @ be16 1 @ be32 ttl @ be16 4 @ addr @ rest"
    using assms(1) by (simp add: r answer_bytes_def)
  then have c0: "drop ?c B = be16 1 @ be16 1 @ be32 ttl @ be16 4 @ addr @ rest" by (rule drop_drop_eq) simp
  then have c2: "drop (?c + 2) B = be16 1 @ be32 ttl @ be16 4 @ addr @ rest" by (rule drop_drop_eq) (simp add: be16_def)
  then have c4: "drop (?c + 4) B = be32 ttl @ be16 4 @ addr @ rest" by (rule drop_drop_eq) (simp add: be16_def)
  then have c8: "drop (?c + 8) B = be16 4 @ addr @ rest" by (rule drop_drop_eq) (simp add: be32_def)
  then have c10: "drop (?c + 10) B = addr @ rest" by (rule drop_drop_eq) (simp add: be16_def)
  have fields: "host16 B ?c = shown [] 1" "read16 B ?c = shown [] (htons 1)" "host16 B (?c + 2) = shown [] 1"
    "read16 B (?c + 2) = shown [] (htons 1)" "host32 B (?c + 4) = shown [] ttl" "host16 B (?c + 8) = shown [] 4"
    using host16_be16 [OF c0] read16_be16 [OF c0] host16_be16 [OF c2] read16_be16 [OF c2] host32_be32 [OF c4 ok(1)]
      host16_be16 [OF c8] by simp_all
  have bytes: "host8 B (?c + 10 + k) = shown [] (unat (addr ! k))" if "k < 4" for k
    using nth_drop_le [OF c10, of k] that ok(2) by (simp add: inside add.assoc)
  have "a_data B (?c + 10) = shown (own (address_text addr)) ()"
    using bytes [of 0] bytes [of 1] bytes [of 2] bytes [of 3] by (simp add: a_data_def address_text_def add.assoc)
  then have "PrintResourseData net to_file B (?c + 10) 4 (htons 1) (htons 1)
      = shown (own (newline @ wlit ''   Data: '' @ address_text addr @ newline)) ()"
    by (simp add: PrintResourseData_def)
  with name fields show ?thesis
    by (simp add: r print_answer_def print_head_def print_type_def print_rest_def answer_text_def
        hex_4_1 hex_4_1 [unfolded One_nat_def] dec_4 text_A text_IN duration_text_def)
      (simp add: wstr_simps)
qed

lemma all_answers:
  "drop cur B = concat (map answer_bytes rs) @ rest \<Longrightarrow> \<forall>r \<in> set rs. record_ok r \<Longrightarrow> labels_at B 12 ls m \<Longrightarrow>
    print_records (print_answer net to_file B) (length rs) i cur =
      shown (concat (map (\<lambda>k. answer_text to_file (map char_text (join ls)) (i + k) (rs ! k)) [0..<length rs])) (cur + 16 * length rs)"
proof (induction rs arbitrary: i cur)
  case (Cons r rs)
  have r: "drop cur B = answer_bytes r @ concat (map answer_bytes rs) @ rest" "record_ok r" using Cons.prems by simp_all
  have "drop (cur + 16) B = concat (map answer_bytes rs) @ rest"
    using drop_drop_eq [OF r(1)] answer_length [OF r(2)] by simp
  from Cons.IH [OF this _ Cons.prems(3), of "i + 1"] Cons.prems(2)
  show ?case by (simp add: one_answer [OF r Cons.prems(3)] upt_conv_Cons map_Suc_upt [symmetric] del: upt_Suc) (simp add: comp_def)
qed simp

definition response_text :: "bool \<Rightarrow> nat \<Rightarrow> nat \<Rightarrow> wstring \<Rightarrow> (nat \<times> bytes) list \<Rightarrow> written" where
  "response_text to_file i flags name rs =
     own (response_border @ wlit ''ID: 0x'' @ hex_pad 4 i @ newline @ wlit ''Flags: 0x'' @ hex_pad 4 flags
     @ PrintFlags (htons (of_nat flags))
     @ wlit ''Questions RR Count: 1'' @ newline @ wlit ''Answer RR Count: '' @ to_wstring (length rs) @ newline
     @ wlit ''Authority RR Count: 0'' @ newline @ wlit ''Additional RR Count: 0'' @ newline
     @ wlit ''Questions RR:'' @ newline @ wlit ''   Name: '' @ name @ newline
     @ wlit ''   Type: 0x0001(A Record)'' @ newline @ wlit ''   Classes: 0x0001(Class IN))'' @ newline)
     @ (if rs = [] then [] else own (wlit ''Answer RR:'' @ newline)
          @ concat (map (\<lambda>k. answer_text to_file name k (rs ! k)) [0..<length rs]))
     @ own response_border"

lemma digits_0_1: "to_wstring 0 = wlit ''0''" "to_wstring (Suc 0) = wlit ''1''"
  by (simp_all add: to_wstring_def dec_digits.simps wstr_simps)

lemma strnlen_inside:
  assumes "drop cur B = x @ 0 # rest" and "0 \<notin> set x" and "length x < k"
  shows "strnlen B cur k = shown [] (length x)"
proof -
  have "takeWhile (\<lambda>b. b \<noteq> 0) (drop cur B) = x"
    unfolding assms(1) using assms(2) by (induction x) auto
  moreover have "cur + length x < length B"
    using nth_drop_le [of cur B "x @ [0]" rest "length x"] assms(1) by simp
  ultimately show ?thesis using assms(3) by (simp add: strnlen_def)
qed

lemma the_question:
  assumes "drop cur B = encode_labels ls @ 0 # be16 1 @ be16 1 @ rest" and "legal ls"
    and "cur + length (encode_labels ls) < Length" and "Length < 2 ^ 32"
  shows "print_question B Length cur = shown (own (map char_text (join ls) @ newline
     @ wlit ''   Type: 0x0001(A Record)'' @ newline @ wlit ''   Classes: 0x0001(Class IN))'' @ newline))
     (cur + length (encode_labels ls) + 5)"
proof -
  let ?n = "length (encode_labels ls)"
  have "labels_at B cur ls (length (join ls) + 2)" by (rule labels_endI [OF assms(2,1) refl])
  then have "name_at B cur ls (length (join ls) + 2)" by (simp add: name_at_def)
  then have name: "print_name B cur = shown (own (map char_text (join ls))) ()"
    by (simp add: print_name_def PrintDomainName_name)
  have room: "nat ((int Length - int cur) mod 4294967296) = Length - cur" using assms(3,4) by simp
  have len: "strnlen B cur (Length - cur) = shown [] ?n"
    using assms(1,3) encode_nonzero [OF legalD(2) [OF assms(2)]] by (intro strnlen_inside) simp_all
  have "drop cur B = (encode_labels ls @ [0]) @ be16 1 @ be16 1 @ rest" using assms(1) by simp
  then have c1: "drop (cur + ?n + 1) B = be16 1 @ be16 1 @ rest" by (rule drop_drop_eq) simp
  then have c3: "drop (cur + ?n + 3) B = be16 1 @ rest" by (rule drop_drop_eq) (simp add: be16_def)
  have fields: "host16 B (Suc (cur + ?n)) = shown [] 1" "read16 B (Suc (cur + ?n)) = shown [] (htons 1)"
    "host16 B (Suc (Suc (Suc (cur + ?n)))) = shown [] 1"
    "read16 B (Suc (Suc (Suc (cur + ?n)))) = shown [] (htons 1)"
    using host16_be16 [OF c1] read16_be16 [OF c1] host16_be16 [OF c3] read16_be16 [OF c3]
    by (simp_all add: numeral_3_eq_3)
  with name show ?thesis
    by (simp add: print_question_def room len Let_def hex_4_1 hex_4_1 [unfolded One_nat_def] text_A text_IN)
      (simp add: wstr_simps)
qed

text \<open>C38: Responses with addresses. A response to an A query whose records hold addresses and name the question by a
  pointer is shown, whatever follows it in the buffer, with its identifier, flags and counts, the question, and the
  name, type, class, time to live, length and dotted address of every record, in their order. The function for the
  output file writes the same, but for the durations: it writes them to the screen.\<close>
theorem response_shown:
  assumes "legal ls" and "\<forall>r \<in> set rs. record_ok r" and "i < 65536" and "flags < 65536" and "length rs < 65536"
  shows "PrintResponse net to_file (response_bytes i flags ls rs @ rest) (length (response_bytes i flags ls rs))
    = Some (Inr (response_text to_file i flags (map char_text (join ls)) rs, ()))"
proof -
  let ?B = "response_bytes i flags ls rs @ rest" and ?n = "length (encode_labels ls)"
  have d0: "drop 0 ?B = be16 i @ be16 flags @ be16 1 @ be16 (length rs) @ be16 0 @ be16 0
     @ encode_labels ls @ 0 # be16 1 @ be16 1 @ concat (map answer_bytes rs) @ rest"
    by (simp add: response_bytes_def)
  note d2 = drop_drop_eq [OF d0, of 2, unfolded be16_def, simplified, folded be16_def]
  have "drop 12 ?B = encode_labels ls @ 0 # be16 1 @ be16 1 @ concat (map answer_bytes rs) @ rest" (is "_ = ?q")
    by (simp add: response_bytes_def be16_def)
  note q = this
  have "drop 2 ?B = be16 flags @ be16 1 @ be16 (length rs) @ be16 0 @ be16 0 @ ?q"
    "drop 4 ?B = be16 1 @ be16 (length rs) @ be16 0 @ be16 0 @ ?q"
    "drop 6 ?B = be16 (length rs) @ be16 0 @ be16 0 @ ?q"
    "drop 8 ?B = be16 0 @ be16 0 @ ?q" "drop 10 ?B = be16 0 @ ?q"
    by (simp_all add: response_bytes_def be16_def)
  then have fields: "host16 ?B 0 = shown [] i" "host16 ?B 2 = shown [] flags"
    "read16 ?B 2 = shown [] (htons (of_nat flags))" "host16 ?B 4 = shown [] 1"
    "host16 ?B 6 = shown [] (length rs)" "host16 ?B 8 = shown [] 0" "host16 ?B 10 = shown [] 0"
    using host16_be16 [OF d0] assms(3-5) by (auto intro: host16_be16 read16_be16)
  have total: "length (response_bytes i flags ls rs) = 17 + ?n + 16 * length rs" (is "?L = _")
    using assms(2) by (simp add: response_bytes_def be16_def length_concat answer_length sum_list_triv cong: map_cong)
  have "?n \<le> 254" using length_encode [OF legalD(1)] legalD(3) assms(1) by simp
  with total assms(5) have question: "print_question ?B ?L 12 = shown (own (map char_text (join ls) @ newline
     @ wlit ''   Type: 0x0001(A Record)'' @ newline @ wlit ''   Classes: 0x0001(Class IN))'' @ newline))
     (17 + ?n)"
    using the_question [OF q assms(1), of ?L] by (simp add: add.commute)
  have at_question: "labels_at ?B 12 ls (length (join ls) + 2)" by (rule labels_endI [OF assms(1) q refl])
  have "drop 12 ?B = (encode_labels ls @ 0 # be16 1 @ be16 1) @ concat (map answer_bytes rs) @ rest" using q by simp
  then have "drop (17 + ?n) ?B = concat (map answer_bytes rs) @ rest" by (rule drop_drop_eq) (simp add: be16_def)
  from all_answers [OF this assms(2) at_question, of net to_file 0] fields question show ?thesis
    by (simp add: PrintResponse_def print_section_def count_line_def digits_0_1 response_text_def)
      (simp add: shown_def wstr_simps)
qed

theorem response_shown_witness:
  "\<forall>net. PrintResponse net True
     (response_bytes 7 0x8180 [[113, 113]] [(600, [1, 2, 3, 4])] @ replicate 100 0) 36
   = Some (Inr (response_text True 7 0x8180 (wlit ''qq'') [(600, [1, 2, 3, 4])], ()))"
proof
  fix net :: "'w net"
  have "length (response_bytes 7 0x8180 [[113, 113]] [(600, [1, 2, 3, 4])]) = 36"
    by (simp add: response_bytes_def be16_def be32_def answer_bytes_def)
  then show "PrintResponse net True (response_bytes 7 0x8180 [[113, 113]] [(600, [1, 2, 3, 4])] @ replicate 100 0) 36
      = Some (Inr (response_text True 7 0x8180 (wlit ''qq'') [(600, [1, 2, 3, 4])], ()))"
    using response_shown [of "[[113, 113]]" "[(600, [1, 2, 3, 4])]" 7 "0x8180" net True "replicate 100 0"]
    by (simp add: legal_def label_ok_def record_ok_def char_text_def wstr_simps)
qed

end
