(* ===== verification/Dnsping_Process.thy ===== *)
theory Dnsping_Process
  imports Dnsping_Commands Dnsping_Responses
begin

text \<open>
  One request of DNSPing: \<open>SendProcess\<close> and \<open>SOCKS_UDP_ASSOCIATE\<close> of \<open>Process.cpp\<close> (Win32 branches). The two
  halves for IPv6 and IPv4 differ in the family alone. A function that can fail answers whether it
  succeeded; the loop that waits for a valid response may run forever, so what contains it answers
  \<open>None\<close> when it does not return. A packet that does not fit its buffer, where \<open>memmove_s\<close> ends the program, is
  not modelled. Waiting between requests is a call of the outside.
\<close>

section \<open>Sockets\<close>

definition socks_mode :: "config \<Rightarrow> bool" where
  "socks_mode c \<longleftrightarrow> ss_family (SockAddr_SOCKS c) > 0"

definition raw_mode :: "config \<Rightarrow> bool" where
  "raw_mode c \<longleftrightarrow> ss_family (SockAddr_SOCKS c) = 0 \<and> RawSocket c \<and> RawData c \<noteq> None"

text \<open>The kind of \<open>*Socket_Exchange\<close>.\<close>

definition exchange_kind :: "config \<Rightarrow> socket_kind" where
  "exchange_kind c = (if raw_mode c then SOCK_RAW else SOCK_DGRAM)"

definition open_sockets :: "'w net \<Rightarrow> ('w, 'm) dnsping_st_scheme \<Rightarrow> bool \<times> ('w, 'm) dnsping_st_scheme" where
  "open_sockets net s =
     (let c = cfg s;
          family = (if Protocol c = AF_INET6 \<or> ss_family (SockAddr_SOCKS c) = AF_INET6 then AF_INET6 else AF_INET)
      in if raw_mode c
         then let (ok, s) = call (n_socket net family SOCK_RAW (ServiceType c)) s
              in (ok, acquire_if ok R_Socket s)
         else if socks_mode c
         then let (normal, s) = call (n_socket net family SOCK_STREAM 6) s;
                  s = acquire_if normal R_Socket s;
                  (socks, s) = call (n_socket net family SOCK_DGRAM 17) s;
                  s = acquire_if socks R_Socket s
              in (normal \<and> socks, s)
         else let (ok, s) = call (n_socket net family SOCK_DGRAM 17) s
              in (ok, acquire_if ok R_Socket s))"

text \<open>\<open>closesocket\<close> of both variables; outside SOCKS mode the second one is 0 and nothing is closed.\<close>

definition close_sockets :: "('w, 'm) dnsping_st_scheme \<Rightarrow> ('w, 'm) dnsping_st_scheme" where
  "close_sockets s = release_if (socks_mode (cfg s)) R_Socket (emit (Release R_Socket) s)"

fun set_all :: "'w net \<Rightarrow> (socket_option \<times> u32) list \<Rightarrow> ('w, 'm) dnsping_st_scheme \<Rightarrow> bool \<times> ('w, 'm) dnsping_st_scheme" where
  "set_all net [] s = (True, s)"
| "set_all net ((opt, v) # os) s =
     (let (ok, s) = call (n_setsockopt net opt v) s in if ok then set_all net os s else (False, s))"

definition wanted_options :: "config \<Rightarrow> (socket_option \<times> u32) list" where
  "wanted_options c =
     [(SO_SNDTIMEO, SocketTimeout c), (SO_RCVTIMEO, SocketTimeout c)]
     @ (if Protocol c = AF_INET6
        then (if IP_HopLimits c \<noteq> 0 then [(IPV6_UNICAST_HOPS, IP_HopLimits c)] else [])
        else (if IP_HopLimits c \<noteq> 0 then [(IP_TTL, IP_HopLimits c)] else [])
             @ (if IPv4_DF c then [(IP_DONTFRAGMENT, 1)] else []))"

section \<open>The packet\<close>

text \<open>Whether the header gets the identification of the process, and the identification to validate against.\<close>

definition own_id :: "'w net \<Rightarrow> config \<Rightarrow> u16 option" where
  "own_id net c =
     (if ss_family (SockAddr_SOCKS c) = 0 \<and> RawData c \<noteq> None then None
      else if ID (Parameter_Header c) = 0 then Some (htons (ucast (n_process_id net))) else None)"

definition request_header :: "'w net \<Rightarrow> config \<Rightarrow> dns_hdr" where
  "request_header net c =
     (case own_id net c of None \<Rightarrow> Parameter_Header c | Some i \<Rightarrow> (Parameter_Header c)\<lparr>ID := i\<rparr>)"

definition make_packet :: "'w net \<Rightarrow> config \<Rightarrow> bytes" where
  "make_packet net c =
     (case (ss_family (SockAddr_SOCKS c) = 0, RawData c) of
        (True, Some raw) \<Rightarrow>
          (if unat (BufferSize c) \<ge> RawDataLen c then take (RawDataLen c) raw else take (unat (BufferSize c)) raw)
      | _ \<Rightarrow>
          (let (TName, n) = CharToDNSQuery (TestDomain c)
           in hdr_bytes (request_header net c) @ take n TName @ qry_bytes (Parameter_Query c)
              @ (if EDNS c then opt_bytes (Parameter_EDNS c) else [])))"

section \<open>SOCKS\<close>

text \<open>What a \<open>recv\<close> leaves in a buffer that holds \<open>buf\<close>.\<close>

definition received :: "bytes \<Rightarrow> bytes \<Rightarrow> bytes" where
  "received b buf = b @ drop (length b) buf"

definition send_stream ::
  "'w net \<Rightarrow> bytes \<Rightarrow> ('w, 'm) dnsping_st_scheme \<Rightarrow> bool \<times> ('w, 'm) dnsping_st_scheme" where
  "send_stream net b s =
     (let (ok, s) = call (n_send net SOCK_STREAM b) s in (ok, if ok then emit (SendPacket b) s else s))"

text \<open>A reception that has to bring something, into a buffer that holds \<open>buf\<close>.\<close>

definition recv_stream ::
  "'w net \<Rightarrow> bytes \<Rightarrow> ('w, 'm) dnsping_st_scheme \<Rightarrow> bytes option \<times> ('w, 'm) dnsping_st_scheme" where
  "recv_stream net buf s =
     (let (data, s) = call (n_recv net SOCK_STREAM LARGE_PACKET_MAXSIZE) s
      in (case data of None \<Rightarrow> None | Some b \<Rightarrow> if b = [] then None else Some (received b buf), s))"

definition zeroed :: bytes where
  "zeroed = replicate LARGE_PACKET_MAXSIZE 0"

definition authentication :: "config \<Rightarrow> bytes" where
  "authentication c =
     [SOCKS_USERNAME_PASSWORD_VERSION, of_nat (length (SOCKS_Username c))] @ SOCKS_Username c
     @ (if length (SOCKS_Password c) > 0 then of_nat (length (SOCKS_Password c)) # SOCKS_Password c else [])"

text \<open>The server's choice of a method and, when it asks for it, the authentication.\<close>

definition authenticate ::
  "'w net \<Rightarrow> bytes \<Rightarrow> ('w, 'm) dnsping_st_scheme \<Rightarrow> bool \<times> ('w, 'm) dnsping_st_scheme" where
  "authenticate net Buffer s =
     (if Buffer ! 0 \<noteq> SOCKS_VERSION_5 then (False, s)
      else if Buffer ! 1 = SOCKS_METHOD_NO_AUTHENTICATION_REQUIRED then (True, s)
      else if Buffer ! 1 \<noteq> SOCKS_METHOD_USERNAME_PASSWORD then (False, s)
      else
     let b = authentication (cfg s);
         (ok, s) = send_stream net b s
     in if \<not> ok then (False, s)
        else let (reply, s) = recv_stream net (received b zeroed) s
             in case reply of
                  None \<Rightarrow> (False, s)
                | Some buf \<Rightarrow>
                    (buf ! 0 = SOCKS_USERNAME_PASSWORD_VERSION \<and> buf ! 1 = SOCKS_USERNAME_PASSWORD_SUCCESS, s))"

definition udp_associate :: "config \<Rightarrow> u16 \<Rightarrow> bytes" where
  "udp_associate c SOCKS_Local_Port =
     (if ss_family (SockAddr_Normal c) = AF_INET6
      then [SOCKS_VERSION_5, SOCKS_COMMAND_UDP_ASSOCIATE, 0, SOCKS5_ADDRESS_IPV6] @ replicate 16 0
      else [SOCKS_VERSION_5, SOCKS_COMMAND_UDP_ASSOCIATE, 0, SOCKS5_ADDRESS_IPV4] @ replicate 4 0)
     @ store16 SOCKS_Local_Port"

definition associated :: "config \<Rightarrow> sockaddr \<Rightarrow> bytes \<Rightarrow> sockaddr option" where
  "associated c udp buf =
     (if buf ! 0 \<noteq> SOCKS_VERSION_5 \<or> buf ! 1 \<noteq> SOCKS5_REPLY_SUCCESS then None
      else if ss_family udp = AF_INET6 \<and> buf ! 3 = SOCKS5_ADDRESS_IPV6
      then (let udp = udp\<lparr>sin6_addr := sin6_addr (SockAddr_SOCKS c)\<rparr>
            in Some (if load16 buf 20 > 0 then udp\<lparr>sin_port := load16 buf 20\<rparr> else udp))
      else if ss_family udp = AF_INET \<and> buf ! 3 = SOCKS5_ADDRESS_IPV4
      then (let udp = udp\<lparr>sin_addr := sin_addr (SockAddr_SOCKS c)\<rparr>
            in Some (if load16 buf 8 > 0 then udp\<lparr>sin_port := load16 buf 8\<rparr> else udp))
      else None)"

definition SOCKS_UDP_ASSOCIATE ::
  "'w net \<Rightarrow> sockaddr \<Rightarrow> u16 \<Rightarrow> ('w, 'm) dnsping_st_scheme \<Rightarrow> sockaddr option \<times> ('w, 'm) dnsping_st_scheme" where
  "SOCKS_UDP_ASSOCIATE net udp SOCKS_Local_Port s =
     (let (ok, s) = call (n_connect net SOCK_STREAM (SockAddr_SOCKS (cfg s))) s
      in if \<not> ok then (None, s)
         else
      let (ok, s) = send_stream net [SOCKS_VERSION_5, SOCKS_METHOD_SUPPORT_NUM,
                      SOCKS_METHOD_NO_AUTHENTICATION_REQUIRED, SOCKS_METHOD_USERNAME_PASSWORD] s
      in if \<not> ok then (None, s)
         else
      let (reply, s) = recv_stream net zeroed s
      in case reply of
           None \<Rightarrow> (None, s)
         | Some buf \<Rightarrow>
             let (ok, s) = authenticate net buf s
             in if \<not> ok then (None, s)
                else
             let (ok, s) = send_stream net (udp_associate (cfg s) SOCKS_Local_Port) s
             in if \<not> ok then (None, s)
                else
             let (reply, s) = recv_stream net zeroed s
             in (case reply of None \<Rightarrow> None | Some buf \<Rightarrow> associated (cfg s) udp buf, s))"

text \<open>The header of a relayed packet: two reserved bytes, the fragment number, the type and the target.\<close>

definition socks_packet :: "config \<Rightarrow> sockaddr \<Rightarrow> bytes \<Rightarrow> bytes option" where
  "socks_packet c Target packet =
     (if ss_family Target = AF_INET6
      then Some ([0, 0, 0, SOCKS5_ADDRESS_IPV6] @ sin6_addr Target @ store16 (sin_port Target) @ packet)
      else if ss_family Target = AF_INET
      then Some ([0, 0, 0, SOCKS5_ADDRESS_IPV4] @ sin_addr Target @ store16 (sin_port Target) @ packet)
      else if TargetString_Normal c \<noteq> []
      then Some ([0, 0, 0, SOCKS5_ADDRESS_DOMAIN, of_nat (length (TargetString_Normal c))]
                 @ TargetString_Normal c @ store16 (ServiceType c) @ packet)
      else None)"

definition prepare_socks ::
  "'w net \<Rightarrow> bytes \<Rightarrow> ('w, 'm) dnsping_st_scheme \<Rightarrow> bytes option \<times> ('w, 'm) dnsping_st_scheme" where
  "prepare_socks net packet s =
     (let socks = SockAddr_SOCKS (cfg s);
          udp = (if ss_family socks = AF_INET6
                 then zero_sockaddr\<lparr>ss_family := ss_family socks, sin6_addr := sin6_addr socks\<rparr>
                 else zero_sockaddr\<lparr>ss_family := ss_family socks, sin_addr := sin_addr socks\<rparr>);
          (ok, s) = call (n_connect net SOCK_DGRAM udp) s
      in if \<not> ok then (None, s)
         else
      let (port, s) = call (n_getsockname net) s
      in case port of
           None \<Rightarrow> (None, s)
         | Some SOCKS_Local_Port \<Rightarrow>
             let (assoc, s) = SOCKS_UDP_ASSOCIATE net udp SOCKS_Local_Port s
             in case assoc of
                  None \<Rightarrow> (None, s)
                | Some udp \<Rightarrow>
                    let (ok, s) = call (n_connect net SOCK_DGRAM udp) s
                    in (if ok then socks_packet (cfg s) (SockAddr_Normal (cfg s)) packet else None, s))"

text \<open>The check of a relayed response, which has at least \<open>DNS_PACKET_MINSIZE\<close> bytes.\<close>

definition socks_reply_ok :: "bytes \<Rightarrow> bool" where
  "socks_reply_ok b \<longleftrightarrow> load16 b 0 = 0 \<and> b ! 2 = 0 \<and> length b \<ge> 4
     \<and> (b ! 3 = SOCKS5_ADDRESS_IPV6 \<and> length b > 22 \<or> b ! 3 = SOCKS5_ADDRESS_IPV4 \<and> length b > 10)"

section \<open>Responses\<close>

definition elapsed :: "int \<Rightarrow> int \<Rightarrow> int \<Rightarrow> real" where
  "elapsed freq before after = real_of_int (after - before) * real MICROSECOND_TO_MILLISECOND / real_of_int freq"

text \<open>The receive buffer with a response: what is behind it is zero.\<close>

definition recv_buffer :: "config \<Rightarrow> bytes \<Rightarrow> bytes" where
  "recv_buffer c b = b @ replicate (unat (BufferSize c) - length b) 0"

definition valid_response :: "config \<Rightarrow> u16 \<Rightarrow> bytes \<Rightarrow> bool" where
  "valid_response c i b = ValidatePacket c (recv_buffer c b) (length b) i"

text \<open>
  The loop that waits for a valid response. \<open>data\<close> is what was received last; the answer is whether the
  clock could be read, the time, what was received last, and the state.
\<close>

partial_function (option) wait_valid ::
  "'w net \<Rightarrow> u16 \<Rightarrow> int \<Rightarrow> int \<Rightarrow> real \<Rightarrow> bytes option \<Rightarrow> ('w, 'm) dnsping_st_scheme \<Rightarrow>
     (bool \<times> real \<times> bytes option \<times> ('w, 'm) dnsping_st_scheme) option" where
  "wait_valid net i freq before Result data s =
     (if Result \<ge> real_of_int (sint (SocketTimeout (cfg s))) then Some (True, Result, data, s)
      else case call (n_recv net (exchange_kind (cfg s)) (unat (BufferSize (cfg s)))) s of (data, s) \<Rightarrow>
           (case call (n_counter net) s of (after, s) \<Rightarrow>
           (case after of
              None \<Rightarrow> Some (False, Result, data, s)
            | Some t \<Rightarrow>
                (case data of
                   None \<Rightarrow> Some (True, elapsed freq before t, data, s)
                 | Some b \<Rightarrow>
                     if b = [] \<or> valid_response (cfg s) i b then Some (True, elapsed freq before t, data, s)
                     else wait_valid net i freq before (elapsed freq before t) data s))))"

definition record_time :: "real \<Rightarrow> config \<Rightarrow> config" where
  "record_time Result c =
     (let c = c\<lparr>Statistics_TotalTime := Statistics_TotalTime c + Result,
                Statistics_RecvNum := Statistics_RecvNum c + 1\<rparr>
      in if Statistics_MaxTime c = 0 then c\<lparr>Statistics_MinTime := Result, Statistics_MaxTime := Result\<rparr>
         else if Result < Statistics_MinTime c then c\<lparr>Statistics_MinTime := Result\<rparr>
         else if Result > Statistics_MaxTime c then c\<lparr>Statistics_MaxTime := Result\<rparr>
         else c)"

definition pause ::
  "'w net \<Rightarrow> bool \<Rightarrow> real \<Rightarrow> ('w, 'm) dnsping_st_scheme \<Rightarrow> ('w, 'm) dnsping_st_scheme" where
  "pause net LastSend Result s =
     (let interval = TransmissionInterval (cfg s)
      in if LastSend then s
         else if interval \<noteq> 0 \<and> real (unat interval) > Result
         then s\<lparr>wd := n_sleep net (nat \<lfloor>real (unat interval) - Result\<rfloor>) (wd s)\<rparr>
         else if Result \<le> real STANDARD_TIME_OUT
         then s\<lparr>wd := n_sleep net STANDARD_TIME_OUT (wd s)\<rparr>
         else s)"

text \<open>The end of a request, with a response that counts or without one.\<close>

definition finish_request ::
  "'w net \<Rightarrow> bool \<Rightarrow> real \<Rightarrow> ('w, 'm) dnsping_st_scheme \<Rightarrow> bool \<times> ('w, 'm) dnsping_st_scheme" where
  "finish_request net LastSend Result s = (True, close_sockets (pause net LastSend Result s))"

definition count_response ::
  "'w net \<Rightarrow> bool \<Rightarrow> real \<Rightarrow> ('w, 'm) dnsping_st_scheme \<Rightarrow> bool \<times> ('w, 'm) dnsping_st_scheme" where
  "count_response net LastSend Result s = finish_request net LastSend Result (set_cfg (record_time Result) s)"

text \<open>
  What \<open>-show\<close> prints of a response that counts, on the screen and into the output file. In SOCKS mode the
  relay's header was moved away from the front of the buffer; what was behind it stays, and so does the length.
\<close>

definition shown_buffer :: "config \<Rightarrow> bytes \<Rightarrow> bytes" where
  "shown_buffer c b =
     (if socks_mode c
      then let n = (if b ! 3 = SOCKS5_ADDRESS_IPV6 then 22 else 10)
           in recv_buffer c (drop n b @ drop (length b - n) b)
      else recv_buffer c b)"

definition show_response :: "'w net \<Rightarrow> config \<Rightarrow> bytes \<Rightarrow> unit printing" where
  "show_response net c b =
     (let buffer = shown_buffer c b; dump = say (PrintResponseHex buffer (length b))
      in say_all
           [if ShowResponse c then PrintResponse net False buffer (length b) else give (),
            if ShowResponse c \<and> OutputFile c then PrintResponse net True buffer (length b) else give (),
            if ShowResponseHex c then dump else give (),
            if ShowResponseHex c \<and> OutputFile c then dump else give ()])"

text \<open>
  A response that counts is shown first. \<open>None\<close>: showing it does not return, or reads outside the buffer, which
  leaves the rest of the program without a meaning.
\<close>

definition report_response ::
  "'w net \<Rightarrow> bool \<Rightarrow> real \<Rightarrow> bytes \<Rightarrow> ('w, 'm) dnsping_st_scheme \<Rightarrow> (bool \<times> ('w, 'm) dnsping_st_scheme) option" where
  "report_response net LastSend Result b s =
     (case show_response net (cfg s) b of
        Some (Inr _) \<Rightarrow> Some (count_response net LastSend Result s)
      | _ \<Rightarrow> None)"

definition take_response ::
  "'w net \<Rightarrow> bool \<Rightarrow> int \<Rightarrow> int \<Rightarrow> real \<Rightarrow> bytes option \<Rightarrow> ('w, 'm) dnsping_st_scheme \<Rightarrow>
     (bool \<times> ('w, 'm) dnsping_st_scheme) option" where
  "take_response net LastSend freq before Result data s =
     (case data of
        None \<Rightarrow> Some (finish_request net LastSend Result s)
      | Some b \<Rightarrow>
          if length b < DNS_PACKET_MINSIZE then Some (finish_request net LastSend Result s)
          else if socks_mode (cfg s)
          then (if socks_reply_ok b then report_response net LastSend Result b s else Some (False, close_sockets s))
          else case own_id net (cfg s) of
                 None \<Rightarrow> report_response net LastSend Result b s
               | Some i \<Rightarrow>
                   if \<not> Validate (cfg s) \<or> valid_response (cfg s) i b
                   then report_response net LastSend Result b s
                   else case wait_valid net i freq before Result data s of
                          None \<Rightarrow> None
                        | Some (ok, Result, data, s) \<Rightarrow>
                            (if \<not> ok then Some (False, close_sockets s)
                             else case data of
                                    None \<Rightarrow> Some (True, close_sockets s)
                                  | Some b \<Rightarrow> if b = [] then Some (True, close_sockets s)
                                              else report_response net LastSend Result b s))"

section \<open>One request\<close>

definition exchange ::
  "'w net \<Rightarrow> bool \<Rightarrow> bytes \<Rightarrow> ('w, 'm) dnsping_st_scheme \<Rightarrow> (bool \<times> ('w, 'm) dnsping_st_scheme) option" where
  "exchange net LastSend packet s =
     (let (freq, s) = call (n_frequency net) s
      in if freq = 0 then Some (False, close_sockets s)
         else
      let (before, s) = call (n_counter net) s
      in case before of
           None \<Rightarrow> Some (False, close_sockets s)
         | Some t0 \<Rightarrow>
            (let (sent, s) = call (n_send net (exchange_kind (cfg s)) packet) s
             in if \<not> sent then Some (False, close_sockets s)
                else
             let s = emit (SendPacket packet) s;
                 (data, s) = call (n_recv net (exchange_kind (cfg s)) (unat (BufferSize (cfg s)))) s;
                 (after, s) = call (n_counter net) s
             in case after of
                  None \<Rightarrow> Some (False, close_sockets s)
                | Some t \<Rightarrow> take_response net LastSend freq t0 (elapsed freq t0 t) data s))"

definition SendProcess ::
  "'w net \<Rightarrow> bool \<Rightarrow> ('w, 'm) dnsping_st_scheme \<Rightarrow> (bool \<times> ('w, 'm) dnsping_st_scheme) option" where
  "SendProcess net LastSend s =
     (let (ok, s) = open_sockets net s
      in if \<not> ok then Some (False, s)
         else
      let (ok, s) = set_all net (wanted_options (cfg s)) s
      in if \<not> ok then Some (False, close_sockets s)
         else
      let (packet, s) =
            (if socks_mode (cfg s) then prepare_socks net (make_packet net (cfg s)) s
             else let (ok, s) = call (n_connect net (exchange_kind (cfg s)) (SockAddr_Normal (cfg s))) s
                  in (if ok then Some (make_packet net (cfg s)) else None, s))
      in case packet of
           None \<Rightarrow> Some (False, close_sockets s)
         | Some b \<Rightarrow> exchange net LastSend b s)"


section \<open>What a stage leaves alone\<close>

lemma cfg_simps [simp]:
  "cfg (emit e s) = cfg s" "cfg (emits es s) = cfg s" "cfg (acquire_if b r s) = cfg s"
  "cfg (release_if b r s) = cfg s" "cfg (close_sockets s) = cfg s" "cfg (pause net L t s) = cfg s"
  "cfg (set_cfg f s) = f (cfg s)" "cfg (s\<lparr>wd := w\<rparr>) = cfg s"
  by (simp_all add: emit_def emits_def acquire_if_def release_if_def close_sockets_def pause_def set_cfg_def Let_def)

lemma tr_simps [simp]:
  "tr (pause net L t s) = tr s" "tr (set_cfg f s) = tr s" "wd (set_cfg f s) = wd s" "wd (close_sockets s) = wd s"
  "tr (acquire_if b r s) = tr s @ (if b then [Acquire r] else [])"
  "tr (release_if b r s) = tr s @ (if b then [Release r] else [])"
  "tr (close_sockets s) = tr s @ Release R_Socket # (if socks_mode (cfg s) then [Release R_Socket] else [])"
  by (simp_all add: pause_def set_cfg_def Let_def acquire_if_def release_if_def close_sockets_def)

text \<open>A call of the outside changes the world alone.\<close>

definition same :: "('w, 'm) dnsping_st_scheme \<Rightarrow> ('w, 'm) dnsping_st_scheme \<Rightarrow> bool" where
  "same s s' \<longleftrightarrow> cfg s' = cfg s \<and> tr s' = tr s"

lemma same_call: "call f s = (a, s') \<Longrightarrow> same s s' \<and> wd s' = snd (f (wd s)) \<and> a = fst (f (wd s))"
  by (auto simp: same_def call_beta)

lemma same_simps: "same s s' \<Longrightarrow> cfg s' = cfg s" "same s s' \<Longrightarrow> tr s' = tr s"
  by (simp_all add: same_def)

lemma same_trans [trans]: "same s s' \<Longrightarrow> same s' s'' \<Longrightarrow> same s s''"
  by (simp add: same_def)

lemma set_all_same: "set_all net os s = (ok, s') \<Longrightarrow> same s s'"
proof (induction net os s rule: set_all.induct)
  case (1 net s)
  then show ?case by (simp add: same_def)
next
  case (2 net opt v os s)
  then show ?case by (auto simp: Let_def split: prod.splits if_splits dest!: same_call intro: same_trans)
qed

text \<open>Outside SOCKS mode one socket is opened or none.\<close>

lemma open_sockets_normal:
  assumes "open_sockets net s = (ok, s')" and "\<not> socks_mode (cfg s)"
  shows "cfg s' = cfg s" "tr s' = tr s @ (if ok then [Acquire R_Socket] else [])"
  using assms
  by (auto simp: open_sockets_def Let_def call_beta split: if_splits)

section \<open>The loop that waits\<close>



lemma wait_valid_same:
  "wait_valid net i freq before Result data s = Some r \<Longrightarrow> same s (snd (snd (snd r)))"
proof (induction net i freq before Result data s r rule: wait_valid.raw_induct [rotated, consumes 1, case_names step])
  case (step wv net i freq before Result data s r)
  have "cfg (snd (snd (snd r))) = cfg s0 \<and> tr (snd (snd (snd r))) = tr s0"
    if "wv net i freq before R d s0 = Some r" for R d s0
    using step(1) [OF that] by (simp add: same_def)
  with step(2) show ?case
    by (fastforce simp: same_def call_def split: if_splits prod.splits option.splits)
qed

text \<open>What ends the loop: a failing clock, no data, a valid response, or the time.\<close>

definition wait_ended :: "config \<Rightarrow> u16 \<Rightarrow> bool \<times> real \<times> bytes option \<times> ('w, 'm) dnsping_st_scheme \<Rightarrow> bool" where
  "wait_ended c i r =
     (case r of (ok, R, data, s') \<Rightarrow>
        \<not> ok \<or> data = None \<or> data = Some [] \<or> R \<ge> real_of_int (sint (SocketTimeout c))
        \<or> (\<exists>b. data = Some b \<and> valid_response c i b))"

lemma wait_valid_ended:
  "wait_valid net i freq before Result data s = Some r \<Longrightarrow> wait_ended (cfg s) i r"
proof (induction net i freq before Result data s r rule: wait_valid.raw_induct [rotated, consumes 1, case_names step])
  case (step wv net i freq before Result data s r)
  have "wait_ended (cfg s) i r" if "wv net i freq before R d s0 = Some r" "cfg s0 = cfg s" for R d s0
    using step(1) [OF that(1)] that(2) by simp
  with step(2) show ?case
    by (auto simp: call_def wait_ended_def split: if_splits prod.splits option.splits)
qed

section \<open>One request outside SOCKS mode\<close>

lemma record_time_simps [simp]:
  "socks_mode (record_time r c) = socks_mode c"
  "Statistics_RecvNum (record_time r c) = Statistics_RecvNum c + 1"
  "Statistics_TotalTime (record_time r c) = Statistics_TotalTime c + r"
  "Statistics_RealSend (record_time r c) = Statistics_RealSend c"
  "Statistics_Send (record_time r c) = Statistics_Send c"
  "ShowResponse (record_time r c) = ShowResponse c"
  by (simp_all add: record_time_def Let_def socks_mode_def)

lemma finish_request_simps [simp]:
  "fst (finish_request net L r s)"
  "cfg (snd (finish_request net L r s)) = cfg s"
  "tr (snd (finish_request net L r s)) = tr s @ Release R_Socket # (if socks_mode (cfg s) then [Release R_Socket] else [])"
  by (simp_all add: finish_request_def)

lemma count_response_simps [simp]:
  "fst (count_response net L r s)"
  "cfg (snd (count_response net L r s)) = record_time r (cfg s)"
  "tr (snd (count_response net L r s)) = tr s @ Release R_Socket # (if socks_mode (cfg s) then [Release R_Socket] else [])"
  by (simp_all add: count_response_def)

lemma finish_count_fields:
  "finish_request net L r s = (ok, s') \<Longrightarrow> ok \<and> cfg s' = cfg s \<and>
     tr s' = tr s @ Release R_Socket # (if socks_mode (cfg s) then [Release R_Socket] else [])"
  "count_response net L r s = (ok, s') \<Longrightarrow> ok \<and> cfg s' = record_time r (cfg s) \<and>
     tr s' = tr s @ Release R_Socket # (if socks_mode (cfg s) then [Release R_Socket] else [])"
  using finish_request_simps [of net L r s] count_response_simps [of net L r s] by simp_all

lemma report_response_count [dest!]:
  "report_response net L R b s = Some r \<Longrightarrow> count_response net L R s = r"
  by (auto simp: report_response_def split: option.splits sum.splits)

text \<open>Without \<open>-show result\<close> nothing that is shown depends on what the response says.\<close>

lemma report_quiet: "\<not> ShowResponse (cfg s) \<Longrightarrow> report_response net L R b s = Some (count_response net L R s)"
  by (simp add: report_response_def show_response_def Let_def) (simp add: shown_def)

text \<open>The response: both sockets are closed, and only a successful request is counted.\<close>

lemma take_response_frame:
  assumes "take_response net L freq before R data s = Some (ok, s')"
  shows "tr s' = tr s @ Release R_Socket # (if socks_mode (cfg s) then [Release R_Socket] else [])
    \<and> (cfg s' = cfg s \<or> ok \<and> (\<exists>r. cfg s' = record_time r (cfg s)))"
  using assms
  by (auto simp: take_response_def same_simps split: option.splits if_splits
      dest!: finish_count_fields wait_valid_same) blast

text \<open>How a request can go: no socket, a failure before or after sending, or an exchange that may be counted.\<close>

definition request_outcome :: "'w net \<Rightarrow> config \<Rightarrow> bool \<Rightarrow> config \<Rightarrow> event list \<Rightarrow> bool" where
  "request_outcome net c ok c' es \<longleftrightarrow>
     (let sent = [Acquire R_Socket, SendPacket (make_packet net c), Release R_Socket]
      in if ok then es = sent \<and> (c' = c \<or> (\<exists>r. c' = record_time r c))
         else c' = c \<and> (es = [] \<or> es = [Acquire R_Socket, Release R_Socket] \<or> es = sent))"

lemma exchange_frame:
  assumes "exchange net L b s = Some (ok, s')" and "\<not> socks_mode (cfg s)"
  shows "(tr s' = tr s @ [SendPacket b, Release R_Socket] \<or> \<not> ok \<and> tr s' = tr s @ [Release R_Socket])
    \<and> (cfg s' = cfg s \<or> ok \<and> (\<exists>r. cfg s' = record_time r (cfg s)))"
  using assms
  by (auto simp: exchange_def call_beta Let_def split: if_splits option.splits dest!: take_response_frame)

lemma SendProcess_outcome:
  assumes "SendProcess net L s = Some (ok, s')" and "\<not> socks_mode (cfg s)"
  shows "\<exists>es. tr s' = tr s @ es \<and> request_outcome net (cfg s) ok (cfg s') es"
proof -
  obtain opened s1 where o: "open_sockets net s = (opened, s1)" by force
  obtain set s2 where t: "set_all net (wanted_options (cfg s1)) s1 = (set, s2)" by force
  obtain connected s3 where c: "call (n_connect net (exchange_kind (cfg s2)) (SockAddr_Normal (cfg s2))) s2 = (connected, s3)"
    by force
  note o' = open_sockets_normal [OF o assms(2)]
  note t' = same_simps [OF set_all_same [OF t], unfolded o']
  note c' = same_simps [OF same_call [OF c, THEN conjunct1], unfolded t']
  show ?thesis
    using assms exchange_frame [of net L "make_packet net (cfg s)" s3 ok s'] o' t' c'
    by (auto simp: SendProcess_def o t [unfolded o'] c [unfolded t'] request_outcome_def Let_def split: if_splits)
qed

section \<open>An advancing clock\<close>

text \<open>
  The documented behaviour of the performance counter: it can be read, never goes back, and has moved on when
  a reception returns.
\<close>

definition clock_advances :: "'w net \<Rightarrow> ('w \<Rightarrow> int) \<Rightarrow> bool" where
  "clock_advances net clock \<longleftrightarrow>
     (\<forall>w. fst (n_counter net w) = Some (clock w) \<and> clock w \<le> clock (snd (n_counter net w))
        \<and> 0 \<le> fst (n_frequency net w)
        \<and> (\<forall>k b. clock w \<le> clock (snd (n_send net k b w)))
        \<and> (\<forall>k n. clock w < clock (snd (n_recv net k n w))))"

lemma clockD:
  assumes "clock_advances net clock"
  shows "fst (n_counter net w) = Some (clock w)" "clock w \<le> clock (snd (n_counter net w))"
    "0 \<le> fst (n_frequency net w)" "clock w \<le> clock (snd (n_send net k b w))"
    "clock w < clock (snd (n_recv net k n w))"
  using assms by (simp_all add: clock_advances_def)

lemma elapsed_pos: "0 < freq \<Longrightarrow> before < t \<Longrightarrow> 0 < elapsed freq before t"
  by (simp add: elapsed_def MICROSECOND_TO_MILLISECOND_def)

lemma elapsed_late:
  assumes "0 < freq" and "elapsed freq before t < T"
  shows "t < before + \<lceil>T * real_of_int freq / 1000\<rceil>"
proof -
  have "real_of_int (t - before) < T * real_of_int freq / 1000"
    using assms by (simp add: elapsed_def MICROSECOND_TO_MILLISECOND_def field_simps)
  then show ?thesis by linarith
qed

lemma wait_valid_returns:
  fixes s :: "('w, 'm) dnsping_st_scheme"
  assumes clock: "clock_advances net clock" and "0 < freq"
  shows "t \<le> clock (wd s) \<Longrightarrow> \<exists>r. wait_valid net i freq before (elapsed freq before t) data s = Some r"
proof (induction "nat (before + \<lceil>real_of_int (sint (SocketTimeout (cfg s))) * real_of_int freq / 1000\<rceil> - t)"
    arbitrary: t data s rule: less_induct)
  case less
  let ?T = "real_of_int (sint (SocketTimeout (cfg s)))"
  show ?case
  proof (cases "?T \<le> elapsed freq before t")
    case True
    then show ?thesis by (subst wait_valid.simps) auto
  next
    case False
    let ?k = "exchange_kind (cfg s)" and ?n = "unat (BufferSize (cfg s))"
    let ?w = "snd (n_recv net ?k ?n (wd s))" and ?d = "fst (n_recv net ?k ?n (wd s))"
    let ?s = "s\<lparr>wd := snd (n_counter net ?w)\<rparr>"
    have late: "t < before + \<lceil>?T * real_of_int freq / 1000\<rceil>"
      using elapsed_late [OF \<open>0 < freq\<close>] False by simp
    have t: "t < clock ?w" "clock ?w \<le> clock (wd ?s)"
      using less.prems clockD(5) [OF clock, of "wd s" ?k ?n] clockD(2) [OF clock, of ?w] by simp_all
    have "\<exists>r. wait_valid net i freq before (elapsed freq before (clock ?w)) ?d ?s = Some r"
      using late t by (intro less.hyps) simp_all
    with False show ?thesis
      by (subst wait_valid.simps) (auto simp: call_beta clockD [OF clock] split: option.splits)
  qed
qed

text \<open>The times of a loop that succeeds are positive when the first one is.\<close>

lemma wait_valid_positive:
  "wait_valid net i freq before Result data s = Some r \<Longrightarrow>
     clock_advances net clock \<Longrightarrow> 0 < freq \<Longrightarrow> before < clock (wd s) \<Longrightarrow> 0 < Result \<Longrightarrow> 0 < fst (snd r)"
proof (induction net i freq before Result data s r rule: wait_valid.raw_induct [rotated, consumes 1, case_names step])
  case (step wv net i freq before Result data s r)
  note clock = clockD [OF step.prems(1)]
  let ?k = "exchange_kind (cfg s)" and ?n = "unat (BufferSize (cfg s))"
  let ?w = "snd (n_recv net ?k ?n (wd s))"
  have b: "before < clock ?w" "before < clock (snd (n_counter net ?w))"
    using step.prems(3) clock(5) [of "wd s" ?k ?n] clock(2) [of ?w] by simp_all
  have "0 < fst (snd r)"
    if "wv net i freq before (elapsed freq before (clock ?w)) d (s\<lparr>wd := snd (n_counter net ?w)\<rparr>) = Some r" for d
    using step.IH [OF that] step.prems b elapsed_pos [of freq before "clock ?w"] by simp
  with step.hyps step.prems b elapsed_pos [of freq before "clock ?w"] show ?case
    by (auto simp: call_beta clock split: if_splits option.splits)
qed

lemma take_response_returns:
  assumes "clock_advances net clock" and "0 < freq" and "t \<le> clock (wd s)" and quiet: "\<not> ShowResponse (cfg s)"
  shows "\<exists>r. take_response net L freq before (elapsed freq before t) data s = Some r"
proof (cases data)
  case None
  then show ?thesis by (simp add: take_response_def)
next
  case data: (Some b)
  show ?thesis
  proof (cases "own_id net (cfg s)")
    case None
    with data quiet show ?thesis by (auto simp: take_response_def report_quiet)
  next
    case (Some i)
    obtain r where r: "wait_valid net i freq before (elapsed freq before t) data s = Some r"
      using wait_valid_returns [OF assms(1-3)] by blast
    obtain ok R d s' where rs: "r = (ok, R, d, s')" by (metis prod_cases4)
    have "\<not> ShowResponse (cfg s')" using wait_valid_same [OF r] quiet rs by (simp add: same_def)
    with data Some quiet r rs show ?thesis
      by (cases d) (auto simp: take_response_def report_quiet)
  qed
qed

lemma exchange_returns:
  assumes "clock_advances net clock" and "\<not> ShowResponse (cfg s)"
  shows "\<exists>r. exchange net L b s = Some r"
proof -
  note clock = clockD [OF assms(1)]
  have pos: "0 < fst (n_frequency net w)" if "fst (n_frequency net w) \<noteq> 0" for w
    using that clock(3) [of w] by simp
  show ?thesis
    using assms(2)
    by (auto simp: exchange_def call_beta Let_def clock(1) simp del: split_paired_Ex
        intro!: take_response_returns [OF assms(1)] pos clock(2))
qed

definition counted :: "(real \<Rightarrow> bool) \<Rightarrow> config \<Rightarrow> config \<Rightarrow> bool" where
  "counted P c c' \<longleftrightarrow> c' = c \<or> (\<exists>r. P r \<and> c' = record_time r c)"

lemma counted_intros: "counted P c c" "P r \<Longrightarrow> counted P c (record_time r c)"
  by (auto simp: counted_def)

lemma take_response_positive:
  assumes "take_response net L freq before R data s = Some (ok, s')"
    and clock: "clock_advances net clock" and "0 < freq" "before < clock (wd s)" "0 < R"
  shows "counted ((<) 0) (cfg s) (cfg s')"
proof -
  have w: "cfg s'' = cfg s \<and> 0 < R'"
    if "wait_valid net i freq before R d s = Some (ok', R', data', s'')" for i d ok' R' data' s''
    using wait_valid_positive [OF that clock assms(3-5)] wait_valid_same [OF that] by (simp add: same_def)
  show ?thesis
    using assms(1,5)
    by (auto simp: take_response_def counted_intros split: option.splits if_splits
        dest!: finish_count_fields w)
qed

lemma exchange_positive:
  assumes "exchange net L b s = Some (ok, s')" and clock: "clock_advances net clock"
  shows "counted ((<) 0) (cfg s) (cfg s')"
proof -
  note c = clockD [OF clock]
  let ?f = "fst (n_frequency net (wd s))" and ?w = "snd (n_frequency net (wd s))"
  let ?sent = "snd (n_send net (exchange_kind (cfg s)) b (snd (n_counter net ?w)))"
  let ?got = "snd (n_recv net (exchange_kind (cfg s)) (unat (BufferSize (cfg s))) ?sent)"
  have t: "clock ?w < clock ?got" "clock ?w < clock (snd (n_counter net ?got))"
    using c(2) [of ?w] c(4) [of "snd (n_counter net ?w)" "exchange_kind (cfg s)" b]
      c(5) [of ?sent "exchange_kind (cfg s)" "unat (BufferSize (cfg s))"] c(2) [of ?got] by simp_all
  have f: "?f \<noteq> 0 \<Longrightarrow> 0 < ?f" using c(3) [of "wd s"] by simp
  show ?thesis
    using assms(1) f t elapsed_pos [of ?f "clock ?w" "clock ?got"]
    by (auto simp: exchange_def call_beta Let_def c(1) counted_intros split: if_splits
        dest!: take_response_positive [OF _ clock])
qed

section \<open>The statistics of time\<close>

definition mean_ok :: "config \<Rightarrow> bool" where
  "mean_ok c \<longleftrightarrow>
     (let n = real (unat (Statistics_RecvNum c))
      in if Statistics_RecvNum c = 0 then Statistics_TotalTime c = 0 \<and> Statistics_MaxTime c = 0
         else 0 < Statistics_MinTime c \<and> Statistics_MinTime c \<le> Statistics_MaxTime c
            \<and> n * Statistics_MinTime c \<le> Statistics_TotalTime c
            \<and> Statistics_TotalTime c \<le> n * Statistics_MaxTime c)"

lemma unat_Suc:
  assumes "unat n + 1 < 2 ^ 32" shows "unat (n + 1 :: u32) = unat n + 1"
  using assms by (simp add: unat_word_ariths)

lemma mean_step:
  fixes u r T :: real
  assumes "0 \<le> u" "u * lo \<le> T" "T \<le> u * hi"
  shows "(u + 1) * min lo r \<le> T + r" "T + r \<le> (u + 1) * max hi r"
proof -
  have "u * min lo r \<le> u * lo" "u * hi \<le> u * max hi r"
    using assms(1) by (simp_all add: mult_left_mono)
  with assms show "(u + 1) * min lo r \<le> T + r" "T + r \<le> (u + 1) * max hi r"
    by (simp_all add: distrib_right)
qed

lemma record_time_mean:
  assumes "mean_ok c" and "0 < r" and "unat (Statistics_RecvNum c) + 1 < 2 ^ 32"
  shows "mean_ok (record_time r c)"
proof -
  let ?u = "real (unat (Statistics_RecvNum c))"
  have n: "real (unat (Statistics_RecvNum c + 1)) = ?u + 1"
    using unat_Suc [OF assms(3)] by simp
  then have nz: "Statistics_RecvNum c + 1 \<noteq> 0" by (metis add_is_0 assms(3) one_neq_zero unat_0 unat_Suc)
  show ?thesis
  proof (cases "Statistics_RecvNum c = 0")
    case True
    with assms(1,2) show ?thesis by (simp add: mean_ok_def record_time_def)
  next
    case False
    have u: "0 \<le> ?u" by (rule of_nat_0_le_iff)
    from False assms(1) have c: "0 < Statistics_MinTime c" "Statistics_MinTime c \<le> Statistics_MaxTime c"
      "?u * Statistics_MinTime c \<le> Statistics_TotalTime c" "Statistics_TotalTime c \<le> ?u * Statistics_MaxTime c"
      by (simp_all add: mean_ok_def Let_def)
    have t: "Statistics_MinTime (record_time r c) = min (Statistics_MinTime c) r"
      "Statistics_MaxTime (record_time r c) = max (Statistics_MaxTime c) r"
      using c(1,2) by (auto simp: record_time_def Let_def)
    from mean_step [OF u c(3,4), of r] c(1,2) assms(2) show ?thesis
      unfolding mean_ok_def record_time_simps n Let_def t by (simp add: nz)
  qed
qed

section \<open>Sockets in every mode\<close>

definition only_sends :: "('w, 'm) dnsping_st_scheme \<Rightarrow> ('w, 'm) dnsping_st_scheme \<Rightarrow> bool" where
  "only_sends s s' \<longleftrightarrow> cfg s' = cfg s \<and> keeps {} s s'"

lemma only_sends_refl: "only_sends s s"
  by (simp add: only_sends_def)

lemma only_sends_trans [trans]: "only_sends s s' \<Longrightarrow> only_sends s' s'' \<Longrightarrow> only_sends s s''"
  by (auto simp: only_sends_def intro: keeps_trans)

lemma only_sends_call: "call f s = (a, s') \<Longrightarrow> only_sends s s'"
  by (auto simp: only_sends_def call_beta keeps_def)

lemma only_sends_send: "send_stream net b s = (ok, s') \<Longrightarrow> only_sends s s'"
  by (auto simp: send_stream_def only_sends_def call_beta Let_def keeps_def)

lemma only_sends_recv: "recv_stream net buf s = (d, s') \<Longrightarrow> only_sends s s'"
  by (auto simp: recv_stream_def only_sends_def call_beta Let_def keeps_def)

lemmas only_sends_steps = only_sends_call only_sends_send only_sends_recv

lemma only_sends_authenticate: "authenticate net buf s = (ok, s') \<Longrightarrow> only_sends s s'"
  by (auto simp: authenticate_def Let_def intro: only_sends_refl only_sends_trans
      split: prod.splits option.splits if_splits dest!: only_sends_steps)

lemma only_sends_associate: "SOCKS_UDP_ASSOCIATE net udp port s = (a, s') \<Longrightarrow> only_sends s s'"
  by (auto simp: SOCKS_UDP_ASSOCIATE_def Let_def split: prod.splits option.splits if_splits
      dest!: only_sends_steps only_sends_authenticate) (meson only_sends_trans)+

lemma only_sends_prepare: "prepare_socks net packet s = (b, s') \<Longrightarrow> only_sends s s'"
  by (auto simp: prepare_socks_def Let_def split: prod.splits option.splits if_splits
      dest!: only_sends_call only_sends_associate) (meson only_sends_trans)+

lemma raw_not_socks: "raw_mode c \<Longrightarrow> \<not> socks_mode c"
  by (simp add: raw_mode_def socks_mode_def)

lemma open_sockets_held:
  assumes "open_sockets net s = (ok, s')"
  shows "cfg s' = cfg s"
    "ok \<Longrightarrow> held R_Socket s' = held R_Socket s + 1 + of_bool (socks_mode (cfg s))"
    "\<not> ok \<Longrightarrow> held R_Socket s' = held R_Socket s \<or> socks_mode (cfg s) \<and> held R_Socket s' = held R_Socket s + 1"
  using assms raw_not_socks [of "cfg s"]
  by (auto simp: open_sockets_def Let_def call_beta split: if_splits)

lemma close_sockets_held [simp]:
  "held R_Socket (close_sockets s) = held R_Socket s - 1 - of_bool (socks_mode (cfg s))"
  by (simp add: close_sockets_def)

lemma take_response_held:
  assumes "take_response net L freq before R data s = Some (ok, s')"
  shows "held R_Socket s' = held R_Socket s - 1 - of_bool (socks_mode (cfg s))"
  using take_response_frame [OF assms] by (auto simp: held_def)

lemma exchange_held:
  assumes "exchange net L b s = Some (ok, s')"
  shows "held R_Socket s' = held R_Socket s - 1 - of_bool (socks_mode (cfg s))"
  using assms
  by (auto simp: exchange_def call_beta Let_def split: if_splits option.splits dest!: take_response_held)

text \<open>Sockets are all that is acquired, and nothing of it is an action.\<close>

lemma keeps_sockets:
  "tr s' = tr s @ es \<Longrightarrow> set es \<subseteq> {Acquire R_Socket, Release R_Socket} \<union> range SendPacket \<Longrightarrow> keeps {R_Socket} s s'"
proof -
  have "actions es = [] \<and> (r \<noteq> R_Socket \<longrightarrow> balance r es = 0)"
    if "set es \<subseteq> {Acquire R_Socket, Release R_Socket} \<union> range SendPacket" for r es
    using that by (induction es) auto
  then show "tr s' = tr s @ es \<Longrightarrow> set es \<subseteq> {Acquire R_Socket, Release R_Socket} \<union> range SendPacket \<Longrightarrow> keeps {R_Socket} s s'"
    by (auto simp: keeps_def acts_def held_def extends_def)
qed

lemma keeps_close [intro]: "keeps {R_Socket} s (close_sockets s)"
  by (rule keeps_sockets) (auto split: if_splits)

lemma open_sockets_keeps:
  assumes "open_sockets net s = (ok, s')"
  shows "keeps {R_Socket} s s'"
  using assms
  by (auto simp: open_sockets_def Let_def call_beta keeps_def split: if_splits)

lemma take_response_keeps:
  assumes "take_response net L freq before R data s = Some (ok, s')"
  shows "keeps {R_Socket} s s'"
  using conjunct1 [OF take_response_frame [OF assms]] by (rule keeps_sockets) (auto split: if_splits)

lemma exchange_keeps:
  assumes "exchange net L b s = Some (ok, s')"
  shows "keeps {R_Socket} s s'"
proof -
  have *: "keeps {R_Socket} s u \<Longrightarrow> keeps {R_Socket} s (close_sockets u)" for u
    by (blast intro: keeps_trans)
  have **: "keeps {R_Socket} s u \<Longrightarrow> take_response net L f t R d u = Some (ok, s') \<Longrightarrow> keeps {R_Socket} s s'" for u f t R d
    by (blast intro: keeps_trans take_response_keeps)
  show ?thesis
    using assms
    by (auto simp: exchange_def call_beta Let_def split: if_splits option.splits intro!: * elim!: ** [rotated])
      (simp_all add: keeps_def)
qed

lemma set_all_only_sends: "set_all net os s = (ok, s') \<Longrightarrow> only_sends s s'"
  by (drule set_all_same) (simp add: same_def only_sends_def held_def keeps_def acts_def extends_def)

text \<open>The stages of a request: opening, setting the options, preparing, and the exchange.\<close>

lemma SendProcess_stages:
  obtains opened s1 set s2 packet s3
  where "open_sockets net s = (opened, s1)" and "only_sends s1 s2" and "only_sends s2 s3"
    and "SendProcess net L s =
      (if \<not> opened then Some (False, s1) else if \<not> set then Some (False, close_sockets s2)
       else case packet of None \<Rightarrow> Some (False, close_sockets s3) | Some b \<Rightarrow> exchange net L b s3)"
proof -
  obtain opened s1 where o: "open_sockets net s = (opened, s1)" by force
  obtain set s2 where t: "set_all net (wanted_options (cfg s1)) s1 = (set, s2)" by force
  obtain packet s3 where p: "(if socks_mode (cfg s2) then prepare_socks net (make_packet net (cfg s2)) s2
      else let (ok, s) = call (n_connect net (exchange_kind (cfg s2)) (SockAddr_Normal (cfg s2))) s2
           in (if ok then Some (make_packet net (cfg s2)) else None, s)) = (packet, s3)" by force
  have "only_sends s2 s3"
    using p by (auto simp: Let_def split: if_splits prod.splits dest: only_sends_prepare only_sends_call)
  moreover have "SendProcess net L s =
      (if \<not> opened then Some (False, s1) else if \<not> set then Some (False, close_sockets s2)
       else case packet of None \<Rightarrow> Some (False, close_sockets s3) | Some b \<Rightarrow> exchange net L b s3)"
    using t p by (auto simp: SendProcess_def o call_beta Let_def split: if_splits)
  ultimately show ?thesis using that o set_all_only_sends [OF t] by blast
qed

lemma SendProcess_returns:
  assumes "clock_advances net clock" and "\<not> ShowResponse (cfg s)"
  shows "\<exists>r. SendProcess net L s = Some r"
proof -
  obtain opened s1 set s2 packet s3 where
    o: "open_sockets net s = (opened, s1)" and 12: "only_sends s1 s2" and 23: "only_sends s2 s3"
    and run: "SendProcess net L s =
      (if \<not> opened then Some (False, s1) else if \<not> set then Some (False, close_sockets s2)
       else case packet of None \<Rightarrow> Some (False, close_sockets s3) | Some b \<Rightarrow> exchange net L b s3)"
    by (rule SendProcess_stages)
  have "\<not> ShowResponse (cfg s3)"
    using 12 23 open_sockets_held(1) [OF o] assms(2) by (simp add: only_sends_def)
  then have "\<exists>r. exchange net L b s3 = Some r" for b by (rule exchange_returns [OF assms(1)])
  then show ?thesis unfolding run by (auto split: option.split)
qed

lemma SendProcess_held:
  assumes "SendProcess net L s = Some (ok, s')"
  shows "keeps {R_Socket} s s'"
    and "held R_Socket s' = held R_Socket s
    \<or> \<not> ok \<and> socks_mode (cfg s) \<and> held R_Socket s' = held R_Socket s + 1"
proof -
  obtain opened s1 set s2 packet s3 where
    o: "open_sockets net s = (opened, s1)" and 12: "only_sends s1 s2" and 23: "only_sends s2 s3"
    and run: "SendProcess net L s =
      (if \<not> opened then Some (False, s1) else if \<not> set then Some (False, close_sockets s2)
       else case packet of None \<Rightarrow> Some (False, close_sockets s3) | Some b \<Rightarrow> exchange net L b s3)"
    by (rule SendProcess_stages)
  have h: "cfg s3 = cfg s" "held R_Socket s3 = held R_Socket s1" "cfg s2 = cfg s" "cfg s1 = cfg s"
    "held R_Socket s2 = held R_Socket s1"
    using 12 23 open_sockets_held(1) [OF o] by (simp_all add: only_sends_def keeps_def)
  have k: "keeps {R_Socket} s s1" "keeps {R_Socket} s1 s2" "keeps {R_Socket} s2 s3"
    using open_sockets_keeps [OF o] 12 23 by (auto simp: only_sends_def intro: keeps_mono)
  then have k3: "keeps {R_Socket} s s3" "keeps {R_Socket} s s2" by (blast intro: keeps_trans)+
  show "keeps {R_Socket} s s'"
    using assms k k3 exchange_keeps [of net L _ s3 ok s']
    by (auto simp: run split: if_splits option.splits intro: keeps_trans)
  show "held R_Socket s' = held R_Socket s
    \<or> \<not> ok \<and> socks_mode (cfg s) \<and> held R_Socket s' = held R_Socket s + 1"
    using assms h open_sockets_held [OF o] exchange_held [of net L _ s3 ok s']
    by (auto simp: run split: if_splits option.splits)
qed

text \<open>Only the exchange changes the table.\<close>

lemma SendProcess_exchange:
  assumes "SendProcess net L s = Some (ok, s')"
  shows "cfg s' = cfg s \<or> (\<exists>b u. cfg u = cfg s \<and> exchange net L b u = Some (ok, s'))"
proof -
  obtain opened s1 set s2 packet s3 where
    o: "open_sockets net s = (opened, s1)" and 12: "only_sends s1 s2" and 23: "only_sends s2 s3"
    and run: "SendProcess net L s =
      (if \<not> opened then Some (False, s1) else if \<not> set then Some (False, close_sockets s2)
       else case packet of None \<Rightarrow> Some (False, close_sockets s3) | Some b \<Rightarrow> exchange net L b s3)"
    by (rule SendProcess_stages)
  with assms open_sockets_held(1) [OF o] show ?thesis
    by (auto simp: only_sends_def split: if_splits option.splits)
qed

lemma SendProcess_counted:
  assumes "SendProcess net L s = Some (ok, s')"
  shows "counted (\<lambda>_. True) (cfg s) (cfg s')"
proof -
  have "counted (\<lambda>_. True) (cfg u) (cfg s')" if "exchange net L b u = Some (ok, s')" for b u
    using that
    by (auto simp: exchange_def call_beta Let_def counted_def split: if_splits option.splits dest!: take_response_frame)
  with SendProcess_exchange [OF assms] show ?thesis by (metis counted_intros(1))
qed

lemma SendProcess_positive:
  assumes "SendProcess net L s = Some (ok, s')" and "clock_advances net clock"
  shows "counted ((<) 0) (cfg s) (cfg s')"
  using SendProcess_exchange [OF assms(1)] exchange_positive [OF _ assms(2)] by (metis counted_intros(1))

section \<open>A concrete network\<close>

text \<open>
  A network on which every call succeeds and a reception takes \<open>delay\<close> ticks of a millisecond and brings
  \<open>reply\<close>. Its clock is read with \<open>now\<close> and moved with \<open>forward\<close>; text is converted unit by unit.
\<close>

definition demo_net :: "('w \<Rightarrow> int) \<Rightarrow> (int \<Rightarrow> 'w \<Rightarrow> 'w) \<Rightarrow> bytes option \<Rightarrow> int \<Rightarrow> 'w net" where
  "demo_net now forward reply delay = \<lparr>
     n_module_file_name = wlit ''a.exe'',
     n_version = None,
     n_set_ctrl_handler = \<lambda>w. (True, w),
     n_wsa_startup = \<lambda>w. (True, w),
     n_to_acp = map ucast,
     n_from_acp = map ucast,
     n_string_to_addr = \<lambda>family t. if t = blit ''8.8.8.8'' then Inr [8, 8, 8, 8] else Inl 10022,
     n_addr_to_string = \<lambda>family a. a,
     n_localtime = \<lambda>t. \<lparr>tm_year = 70, tm_mon = 0, tm_mday = 1, tm_hour = 0, tm_min = 0, tm_sec = 0\<rparr>,
     n_getaddrinfo = \<lambda>name family w. (None, w),
     n_open_file = \<lambda>name w. (True, w),
     n_socket = \<lambda>family kind protocol w. (True, w),
     n_setsockopt = \<lambda>opt v w. (True, w),
     n_connect = \<lambda>kind addr w. (True, w),
     n_getsockname = \<lambda>w. (Some 0, w),
     n_process_id = 7,
     n_frequency = \<lambda>w. (1000, w),
     n_counter = \<lambda>w. (Some (now w), w),
     n_send = \<lambda>kind b w. (True, w),
     n_recv = \<lambda>kind n w. (reply, forward delay w),
     n_sleep = \<lambda>n w. forward (int n) w,
     n_nan_to_uint = 0\<rparr>"

lemma demo_net_simps [simp]:
  "n_module_file_name (demo_net now forward reply delay) = wlit ''a.exe''"
  "n_version (demo_net now forward reply delay) = None"
  "n_set_ctrl_handler (demo_net now forward reply delay) w = (True, w)"
  "n_wsa_startup (demo_net now forward reply delay) w = (True, w)"
  "n_to_acp (demo_net now forward reply delay) = map ucast"
  "n_from_acp (demo_net now forward reply delay) = map ucast"
  "n_string_to_addr (demo_net now forward reply delay) family t =
     (if t = blit ''8.8.8.8'' then Inr [8, 8, 8, 8] else Inl 10022)"
  "n_socket (demo_net now forward reply delay) f k p w = (True, w)"
  "n_setsockopt (demo_net now forward reply delay) opt v w = (True, w)"
  "n_connect (demo_net now forward reply delay) k a w = (True, w)"
  "n_process_id (demo_net now forward reply delay) = 7"
  "n_frequency (demo_net now forward reply delay) w = (1000, w)"
  "n_counter (demo_net now forward reply delay) w = (Some (now w), w)"
  "n_send (demo_net now forward reply delay) k b w = (True, w)"
  "n_recv (demo_net now forward reply delay) k n w = (reply, forward delay w)"
  "n_sleep (demo_net now forward reply delay) m w = forward (int m) w"
  "n_nan_to_uint (demo_net now forward reply delay) = 0"
  by (simp_all add: demo_net_def)

definition int_net :: "bytes option \<Rightarrow> int \<Rightarrow> int net" where
  "int_net = demo_net id (+)"

lemma int_net_clock: "0 < delay \<Longrightarrow> clock_advances (int_net reply delay) id"
  by (simp add: clock_advances_def int_net_def)

definition blank_config :: config where
  "blank_config = cleared
     \<lparr>OutputFile = False, TransmissionInterval = 0, BufferSize = 0, RawDataLen = 0, EDNSPayloadSize = 0,
      Protocol = 0, ServiceType = 0, ReverseLookup = False, RawSocket = False, EDNS = False, DNSSEC = False,
      Validate = False, ShowResponse = False, ShowResponseHex = False, IP_HopLimits = 0, SocketTimeout = 0,
      IPv4_DF = False, SockAddr_Normal = zero_sockaddr, SockAddr_SOCKS = zero_sockaddr,
      Parameter_Header = zero_hdr, Parameter_Query = \<lparr>Type = 0, Classes = 0\<rparr>, Parameter_EDNS = zero_opt,
      Statistics_Send = 0, Statistics_RealSend = 0, Statistics_RecvNum = 0, Statistics_TotalTime = 0,
      Statistics_MaxTime = 0, Statistics_MinTime = 0,
      TestDomain = [], TargetString_Normal = [], TargetAddressString = [], SOCKS_Username = [],
      SOCKS_Password = [], wTargetString = [], TargetString_SOCKS = [], wOutputFileName = [], RawData = None\<rparr>"

lemma blank_config_simps [simp]:
  "SockAddr_SOCKS blank_config = zero_sockaddr" "RawData blank_config = None" "RawSocket blank_config = False"
  "TestDomain blank_config = []" "SocketTimeout blank_config = 0" "Parameter_Header blank_config = zero_hdr"
  "Validate blank_config = False" "BufferSize blank_config = 0" "Statistics_RecvNum blank_config = 0"
  "IP_HopLimits blank_config = 0" "IPv4_DF blank_config = False" "Protocol blank_config = 0"
  "ShowResponse blank_config = False"
  by (simp_all add: blank_config_def cleared_def)

lemma blank_not_socks [simp]: "\<not> socks_mode blank_config"
  by (simp add: socks_mode_def zero_sockaddr_def)

definition int_st :: "config \<Rightarrow> int dnsping_st" where
  "int_st c = \<lparr>wd = 0, tr = [], suffix = 0, cfg = c\<rparr>"

lemma int_st_simps [simp]: "wd (int_st c) = 0" "tr (int_st c) = []" "cfg (int_st c) = c"
  by (simp_all add: int_st_def)

section \<open>Properties\<close>

text \<open>C14: One request. Outside SOCKS mode a request sends one packet, the one made from the table, or none; when
  it succeeds it has sent it. Its socket is closed whenever it was opened, and at most one response is counted,
  by a request that succeeds.\<close>
theorem one_request:
  assumes "SendProcess net LastSend s = Some (ok, s')" and "\<not> socks_mode (cfg s)"
  shows "\<exists>es. tr s' = tr s @ es
    \<and> filter (\<lambda>e. e \<noteq> Acquire R_Socket \<and> e \<noteq> Release R_Socket) es \<in> {[], [SendPacket (make_packet net (cfg s))]}
    \<and> balance R_Socket es = 0
    \<and> (ok \<longrightarrow> es = [Acquire R_Socket, SendPacket (make_packet net (cfg s)), Release R_Socket])
    \<and> (cfg s' = cfg s \<or> ok \<and> (\<exists>r. cfg s' = record_time r (cfg s)))"
  using SendProcess_outcome [OF assms] by (auto simp: request_outcome_def Let_def split: if_splits)

lemma blank_request:
  "SendProcess (int_net None 10) True (int_st blank_config) =
     Some (True, (int_st blank_config)\<lparr>wd := 10,
       tr := [Acquire R_Socket, SendPacket (make_packet (int_net None 10) blank_config), Release R_Socket]\<rparr>)"
  by (simp add: SendProcess_def open_sockets_def raw_mode_def call_beta acquire_if_def emit_def wanted_options_def
      exchange_def take_response_def finish_request_def pause_def close_sockets_def release_if_def int_net_def
      int_st_def)

theorem one_request_witness:
  "\<exists>s'. SendProcess (int_net None 10) True (int_st blank_config) = Some (True, s')
     \<and> (\<exists>es. tr s' = es \<and> balance R_Socket es = 0
          \<and> es = [Acquire R_Socket, SendPacket (make_packet (int_net None 10) blank_config), Release R_Socket])"
  using one_request [OF blank_request] by (simp add: blank_request)

text \<open>A request returns. When the performance counter advances with every reception, the loop that waits for a
  valid response ends, however many invalid packets arrive, and so does a request that does not show its response.\<close>
theorem request_returns:
  assumes "clock_advances net clock" and "\<not> ShowResponse (cfg s)"
  shows "\<exists>ok s'. SendProcess net LastSend s = Some (ok, s')"
  using SendProcess_returns [OF assms, of LastSend] by auto

theorem request_returns_witness:
  "\<exists>ok s'. SendProcess (int_net (Some (replicate 20 0)) 10) True
     (int_st (blank_config\<lparr>Validate := True, SocketTimeout := 500\<rparr>)) = Some (ok, s')"
  by (rule request_returns [OF int_net_clock]) simp_all

text \<open>What ends the waiting. The loop that waits for a valid response gives back a valid response, nothing, or
  one that was not validated but is counted because its time reached the timeout.\<close>
theorem waiting_ends:
  assumes "wait_valid net i freq before Result data s = Some (True, R, Some b, s')" and "b \<noteq> []"
  shows "valid_response (cfg s) i b \<or> real_of_int (sint (SocketTimeout (cfg s))) \<le> R"
  using wait_valid_ended [OF assms(1)] assms(2) by (auto simp: wait_ended_def)

theorem waiting_ends_witness:
  "\<exists>s'. wait_valid (int_net None 10) 7 1000 0 600 (Some [1]) (int_st (blank_config\<lparr>SocketTimeout := 500\<rparr>))
      = Some (True, 600, Some [1], s')
    \<and> (valid_response (blank_config\<lparr>SocketTimeout := 500\<rparr>) 7 [1] \<or> (500 :: real) \<le> 600)"
proof -
  let ?s = "int_st (blank_config\<lparr>SocketTimeout := 500\<rparr>)"
  have w: "wait_valid (int_net None 10) 7 1000 0 600 (Some [1]) ?s = Some (True, 600, Some [1], ?s)"
    by (simp add: wait_valid.simps)
  with waiting_ends [OF w] show ?thesis by simp
qed

text \<open>A late invalid response counts. A response that fails the validation and arrives when the timeout has
  passed is counted like a valid one: the loop leaves before it receives again.\<close>
theorem late_invalid_response_counts:
  assumes "\<not> socks_mode (cfg s)" and "Validate (cfg s)" and "own_id net (cfg s) = Some i"
    and "DNS_PACKET_MINSIZE \<le> length b" and "\<not> valid_response (cfg s) i b"
    and "real_of_int (sint (SocketTimeout (cfg s))) \<le> Result" and "\<not> ShowResponse (cfg s)"
  shows "take_response net LastSend freq before Result (Some b) s = Some (count_response net LastSend Result s)"
proof -
  have "b \<noteq> []" using assms(4) by (auto simp: DNS_PACKET_MINSIZE_def)
  with assms show ?thesis by (simp add: take_response_def wait_valid.simps report_quiet)
qed

theorem late_invalid_response_counts_witness:
  "take_response (int_net None 10) True 1000 0 600 (Some (replicate 20 0))
      (int_st (blank_config\<lparr>Validate := True, SocketTimeout := 500\<rparr>))
    = Some (count_response (int_net None 10) True 600
        (int_st (blank_config\<lparr>Validate := True, SocketTimeout := 500\<rparr>)))"
  by (rule late_invalid_response_counts [where i = "htons 7"])
    (simp_all add: socks_mode_def zero_sockaddr_def own_id_def int_net_def zero_hdr_def DNS_PACKET_MINSIZE_def
      valid_response_def ValidatePacket_def load16_def recv_buffer_def nth_append htons_def)

text \<open>Sockets in every mode. A request closes what it opened, with one exception: when one of the two sockets of
  SOCKS mode cannot be created, the other one stays open.\<close>
theorem sockets_closed:
  assumes "SendProcess net LastSend s = Some (ok, s')"
  shows "held R_Socket s' = held R_Socket s
    \<or> \<not> ok \<and> socks_mode (cfg s) \<and> held R_Socket s' = held R_Socket s + 1"
  by (rule SendProcess_held(2) [OF assms])

theorem sockets_closed_witness:
  "\<exists>s'. SendProcess ((int_net None 10)\<lparr>n_socket := \<lambda>f k p w. (k = SOCK_STREAM, w)\<rparr>) True
       (int_st (blank_config\<lparr>SockAddr_SOCKS := zero_sockaddr\<lparr>ss_family := AF_INET\<rparr>\<rparr>)) = Some (False, s')
     \<and> held R_Socket s' = 1"
proof -
  let ?net = "(int_net None 10)\<lparr>n_socket := \<lambda>f k p w. (k = SOCK_STREAM, w)\<rparr>"
  let ?s = "int_st (blank_config\<lparr>SockAddr_SOCKS := zero_sockaddr\<lparr>ss_family := AF_INET\<rparr>\<rparr>)"
  have p: "SendProcess ?net True ?s = Some (False, emit (Acquire R_Socket) ?s)"
    by (simp add: SendProcess_def open_sockets_def raw_mode_def socks_mode_def call_beta acquire_if_def
        zero_sockaddr_def AF_INET_def)
  with sockets_closed [OF p] show ?thesis by (simp add: held_def)
qed

text \<open>A pointer at some place to that place.\<close>

definition points_to_itself :: "bytes \<Rightarrow> nat \<Rightarrow> bool" where
  "points_to_itself B loc \<longleftrightarrow> 0 < loc \<and> loc < 16384 \<and> loc + 1 < length B
     \<and> B ! loc = 0xC0 + of_nat (loc div 256) \<and> B ! (loc + 1) = of_nat loc"

lemma self_pointer_loops: "points_to_itself B 12 \<Longrightarrow> PrintDomainName B 12 = None"
proof -
  assume B: "points_to_itself B 12"
  then have l: "13 < length B" and b: "B ! 12 = 0xC0" "B ! 13 = 12" by (simp_all add: points_to_itself_def)
  have d: "drop 12 B = 0xC0 # 12 # drop 14 B"
    using l by (simp add: Cons_nth_drop_Suc [symmetric] b [symmetric])
  have "pointer B 12 12" using read_pointer [OF d] by (simp add: pointer_def pointer_target_def)
  then have "\<not> pointers_end B 12" by (rule self_pointer)
  then have "\<not> returns (PrintDomainName B 12)" using l b by (simp add: PrintDomainName_returns_iff)
  then show ?thesis by (simp add: returns_def)
qed

lemma question_loops:
  assumes "points_to_itself B 12" and "load16 B 4 \<noteq> 0"
  shows "PrintResponse net to_file B Length = None"
proof -
  have l: "13 < length B" using assms(1) by (simp add: points_to_itself_def)
  have "0 < unat (htons (load16 B 4))" using assms(2) by (simp add: unat_gt_0)
  then obtain n where n: "unat (htons (load16 B 4)) = Suc n" using gr0_implies_Suc by blast
  show ?thesis
    using l by (simp add: PrintResponse_def inside count_line_def n print_question_def print_name_def
        self_pointer_loops [OF assms(1)])
qed

text \<open>C39: A reply can stop the program. A response that counts - it has the identifier and passes the validation, when
  that is on - and names its first question by a pointer to itself is never shown to the end: with the option to show
  responses the request does not return.\<close>
theorem hostile_reply_hangs:
  assumes "\<not> socks_mode (cfg s)" and "ShowResponse (cfg s)"
    and "case own_id net (cfg s) of None \<Rightarrow> True | Some i \<Rightarrow> \<not> Validate (cfg s) \<or> valid_response (cfg s) i b"
    and "DNS_PACKET_MINSIZE \<le> length b" and "load16 b 4 \<noteq> 0" and "points_to_itself b 12"
  shows "take_response net LastSend freq before Result (Some b) s = None"
proof -
  let ?B = "recv_buffer (cfg s) b"
  have l: "20 \<le> length b" using assms(4) by (simp add: DNS_PACKET_MINSIZE_def)
  have "points_to_itself ?B 12" "load16 ?B 4 \<noteq> 0"
    using assms(5,6) l by (simp_all add: points_to_itself_def recv_buffer_def load16_def nth_append)
  then have "PrintResponse net False ?B (length b) = None" by (rule question_loops)
  then have "report_response net LastSend Result b s = None"
    using assms(1,2) by (simp add: report_response_def show_response_def shown_buffer_def Let_def)
  with assms(1,3,4) show ?thesis by (cases "own_id net (cfg s)") (auto simp: take_response_def)
qed

theorem hostile_reply_hangs_witness:
  "take_response (int_net None 10) True 1000 0 5
      (Some ([0, 7, 0x81, 0x80, 0, 1, 0, 0, 0, 0, 0, 0, 0xC0, 12, 0, 1, 0, 1] @ replicate 6 0))
      (int_st (blank_config\<lparr>Validate := True, EDNS := False, ShowResponse := True, SocketTimeout := 500\<rparr>)) = None"
  by (rule hostile_reply_hangs)
    (simp_all add: socks_mode_def zero_sockaddr_def own_id_def int_net_def zero_hdr_def DNS_PACKET_MINSIZE_def
      valid_response_def ValidatePacket_def load16_def recv_buffer_def nth_append htons_def points_to_itself_def)

end
