(* ===== verification/Dnsping_Main.thy ===== *)
theory Dnsping_Main
  imports Dnsping_Process
begin

text \<open>
  The main process of DNSPing (\<open>dnsping_main\<close> of \<open>Main.cpp\<close>). A function that may not return answers an
  option. What it prints is in \<open>Dnsping_Statistics\<close>.
\<close>

section \<open>The main process\<close>

text \<open>The checks of the target, and its port.\<close>

definition mark_port :: "config \<Rightarrow> config" where
  "mark_port c =
     (if ServiceType c = 0
      then set_normal (\<lambda>a. a\<lparr>sin_port := htons IPPORT_DNS\<rparr>) (c\<lparr>ServiceType := htons IPPORT_DNS\<rparr>)
      else set_normal (\<lambda>a. a\<lparr>sin_port := ServiceType c\<rparr>) c)"

definition check_target :: "config \<Rightarrow> config option" where
  "check_target c =
     (if ss_family (SockAddr_Normal c) = AF_INET6
      then (if CheckEmptyBuffer (sin6_addr (SockAddr_Normal c)) then None else Some (mark_port c))
      else if ss_family (SockAddr_Normal c) = AF_INET
      then (if CheckEmptyBuffer (sin_addr (SockAddr_Normal c)) then None else Some (mark_port c))
      else if ss_family (SockAddr_SOCKS c) = 0 then None
      else Some (if ServiceType c = 0 then c\<lparr>ServiceType := htons IPPORT_DNS\<rparr> else c))"

text \<open>The timeout on systems before Windows 8 (compared as an unsigned number), and the first minimum.\<close>

definition adjust_timeout :: "version_info option \<Rightarrow> config \<Rightarrow> config" where
  "adjust_timeout OSVI c =
     (let c = (if IsLowerThanWin8 OSVI
               then (if unat (SocketTimeout c) > TIME_OUT_MIN then c\<lparr>SocketTimeout := SocketTimeout c - 500\<rparr>
                     else if unat (SocketTimeout c) = TIME_OUT_MIN then c\<lparr>SocketTimeout := 1\<rparr>
                     else c)
               else c)
      in c\<lparr>Statistics_MinTime := real_of_int (sint (SocketTimeout c))\<rparr>)"

text \<open>What the options left open in the header, the question and the option record.\<close>

definition default_header :: "config \<Rightarrow> config" where
  "default_header c =
     (let c = (if Flags (Parameter_Header c) = 0
               then set_header (\<lambda>h. h\<lparr>Flags := htons DNS_STANDARD\<rparr>) c else c)
      in if Questions (Parameter_Header c) = 0
         then set_header (\<lambda>h. h\<lparr>Questions := htons 1\<rparr>) c else c)"

definition default_query :: "config \<Rightarrow> config" where
  "default_query c =
     (let c = (if Classes (Parameter_Query c) = 0
               then c\<lparr>Parameter_Query := (Parameter_Query c)\<lparr>Classes := htons DNS_CLASS_IN\<rparr>\<rparr> else c)
      in if Type (Parameter_Query c) = 0
         then c\<lparr>Parameter_Query := (Parameter_Query c)\<lparr>Type := htons
                (if ss_family (SockAddr_Normal c) = AF_INET6 then DNS_RECORD_AAAA else DNS_RECORD_A)\<rparr>\<rparr>
         else c)"

definition default_edns :: "config \<Rightarrow> config" where
  "default_edns c =
     (let c = (if DNSSEC c then c\<lparr>EDNS := True\<rparr> else c)
      in if \<not> EDNS c then c
         else
      let c = set_header (\<lambda>h. h\<lparr>Additional := htons 1\<rparr>) c;
          c = c\<lparr>Parameter_EDNS := (Parameter_EDNS c)
                \<lparr>opt_Type := htons DNS_RECORD_OPT,
                 UDPPayloadSize := (if EDNSPayloadSize c = 0 then htons (of_nat EDNS0_MINSIZE)
                                    else htons (ucast (EDNSPayloadSize c)))\<rparr>\<rparr>
      in if \<not> DNSSEC c then c
         else let c = set_header (\<lambda>h. invert_flag CD (invert_flag AD h)) c
              in c\<lparr>Parameter_EDNS := invert_DO (Parameter_EDNS c)\<rparr>)"

definition complete_table :: "'w net \<Rightarrow> config \<Rightarrow> config" where
  "complete_table net c =
     (let c = adjust_timeout (n_version net) c;
          c = c\<lparr>wTargetString := c_str (n_from_acp net (TargetString_Normal c))\<rparr>
      in default_edns (default_query (default_header c)))"

definition OutputResultToFile :: "'w net \<Rightarrow> ('w, 'm) dnsping_st_scheme \<Rightarrow> bool \<times> ('w, 'm) dnsping_st_scheme" where
  "OutputResultToFile net s =
     (let (ok, s) = call (n_open_file net (wOutputFileName (cfg s))) s
      in (ok, set_cfg (\<lambda>c. c\<lparr>OutputFile := ok\<rparr>) s))"

definition next_request :: "config \<Rightarrow> config" where
  "next_request c = c\<lparr>Statistics_RealSend := Statistics_RealSend c + 1\<rparr>"

text \<open>The loop for \<open>-t\<close>, and the loop over a number of requests, \<open>n\<close> of them left.\<close>

partial_function (option) send_until_full ::
  "'w net \<Rightarrow> ('w, 'm) dnsping_st_scheme \<Rightarrow> (bool \<times> ('w, 'm) dnsping_st_scheme) option" where
  "send_until_full net s =
     (if unat (Statistics_RealSend (cfg s)) \<le> 0xFFFF
      then (case SendProcess net False (set_cfg next_request s) of
              None \<Rightarrow> None
            | Some r \<Rightarrow> if fst r then send_until_full net (snd r) else Some (False, snd r))
      else Some (True, s))"

fun send_all ::
  "'w net \<Rightarrow> nat \<Rightarrow> ('w, 'm) dnsping_st_scheme \<Rightarrow> (bool \<times> ('w, 'm) dnsping_st_scheme) option" where
  "send_all net 0 s = Some (True, s)"
| "send_all net (Suc n) s =
     (case SendProcess net (n = 0) (set_cfg next_request s) of
        None \<Rightarrow> None
      | Some (ok, s) \<Rightarrow> if ok then send_all net n s else Some (False, s))"

definition dnsping_main ::
  "'w net \<Rightarrow> wstring list \<Rightarrow> ('w, 'm) dnsping_st_scheme \<Rightarrow> (bool \<times> ('w, 'm) dnsping_st_scheme) option" where
  "dnsping_main net argv s =
     (if length argv \<le> 2 then Some (True, s)
      else
     let (ok, s) = ConfigurationInitialization net s
     in if \<not> ok then Some (False, s)
        else
     let (ok, s) = ReadCommands net argv s
     in if \<not> ok then Some (False, s)
        else
     case check_target (cfg s) of
       None \<Rightarrow> Some (False, s)
     | Some c \<Rightarrow>
        (let s = s\<lparr>cfg := complete_table net c\<rparr>;
             (ok, s) = (if wOutputFileName (cfg s) = [] then (True, s) else OutputResultToFile net s)
         in if \<not> ok then Some (False, s)
            else if Statistics_Send (cfg s) = 0 then send_until_full net s
            else send_all net (unat (Statistics_Send (cfg s))) s))"

section \<open>Reading leaves the statistics alone\<close>

text \<open>
  No option touches the counters and times of a table, and reading says nothing to the outside but calls. \<open>show\<close>
  is whether the option may be read that shows responses.
\<close>

definition statistics :: "config \<Rightarrow> u32 \<times> u32 \<times> real \<times> real" where
  "statistics c = (Statistics_RealSend c, Statistics_RecvNum c, Statistics_TotalTime c, Statistics_MaxTime c)"

definition send_bound :: "config \<Rightarrow> bool" where
  "send_bound c \<longleftrightarrow> unat (Statistics_Send c) \<le> 0xFFFF"

definition reading :: "bool \<Rightarrow> ('w, 'm) dnsping_st_scheme \<Rightarrow> ('w, 'm) dnsping_st_scheme \<Rightarrow> bool" where
  "reading show s s' \<longleftrightarrow> tr s' = tr s \<and> (ShowResponse (cfg s') \<longrightarrow> ShowResponse (cfg s) \<or> show) \<and> statistics (cfg s') = statistics (cfg s)
     \<and> (send_bound (cfg s) \<longrightarrow> send_bound (cfg s'))"

lemma reading_refl [simp]: "reading sh s s"
  by (simp add: reading_def)

lemma reading_trans [trans]: "reading sh s s' \<Longrightarrow> reading sh s' s'' \<Longrightarrow> reading sh s s''"
  by (auto simp: reading_def)

lemma reading_set [simp]: "reading sh s (set_cfg f s') \<longleftrightarrow> tr s' = tr s
    \<and> (ShowResponse (f (cfg s')) \<longrightarrow> ShowResponse (cfg s) \<or> sh) \<and> statistics (f (cfg s')) = statistics (cfg s) \<and> (send_bound (cfg s) \<longrightarrow> send_bound (f (cfg s')))"
  by (simp add: reading_def)

lemma reading_call: "call f s = (a, s') \<Longrightarrow> reading sh s s'"
  by (auto simp: reading_def call_beta)

named_theorems option_defs \<open>the shapes of options\<close>

declare plain_option_def [option_defs] value_option_def [option_defs] number_value_def [option_defs]
  named_value_def [option_defs] set_header_def [option_defs] invert_flag_def [option_defs]

lemma set_stats [simp]:
  "statistics (set_header f c) = statistics c" "statistics (set_normal g c) = statistics c"
  "statistics (set_socks g c) = statistics c"
  "send_bound (set_header f c) = send_bound c" "send_bound (set_normal g c) = send_bound c"
  "send_bound (set_socks g c) = send_bound c" "ShowResponse (set_header f c) = ShowResponse c"
  "ShowResponse (set_normal g c) = ShowResponse c" "ShowResponse (set_socks g c) = ShowResponse c"
  by (simp_all add: statistics_def send_bound_def set_header_def set_normal_def set_socks_def)

lemma sint_positive:
  fixes r :: u32
  assumes "0 \<le> sint r"
  shows "uint r = sint r"
  using assms sint_lt [of r] unfolding uint_sint by (intro take_bit_int_eq_self) simp_all

lemma upto16_unat:
  assumes "upto16 r"
  shows "unat r \<le> 0xFFFF"
proof -
  from assms have "uint r \<le> 0xFFFF" using sint_positive [of r] by (simp add: upto16_def)
  then show ?thesis by (simp only: unat_eq_nat_uint nat_le_iff of_nat_numeral)
qed

lemma commands_basic_reading:
  "commands_basic argv Index Parameter s = Some (ok, used, s') \<Longrightarrow> reading sh s s'"
  by (auto simp: commands_basic_def option_defs Let_def upto16_unat statistics_def send_bound_def split: if_splits)

lemma commands_header_reading:
  "commands_header argv Index Parameter s = Some (ok, used, s') \<Longrightarrow> reading sh s s'"
  by (auto simp: commands_header_def option_defs Let_def statistics_def send_bound_def split: if_splits)

lemma commands_counts_reading:
  "commands_counts argv Index Parameter s = Some (ok, used, s') \<Longrightarrow> reading sh s s'"
  by (auto simp: commands_counts_def option_defs Let_def statistics_def send_bound_def split: if_splits)

lemma commands_query_reading:
  "commands_query argv Index Parameter s = Some (ok, used, s') \<Longrightarrow> reading sh s s'"
  by (auto simp: commands_query_def option_defs Let_def statistics_def send_bound_def split: if_splits)

lemma raw_bytes_stats:
  "raw_bytes ds c = (ok, c') \<Longrightarrow>
     statistics c' = statistics c \<and> (send_bound c \<longrightarrow> send_bound c') \<and> ShowResponse c' = ShowResponse c"
proof (induction ds c arbitrary: ok c' rule: raw_bytes.induct)
  case (1 c)
  then show ?case by simp
next
  case (2 a rest c)
  then show ?case by (fastforce simp: Let_def statistics_def send_bound_def split: if_splits)
qed

lemma read_rawdata_reading: "read_rawdata net p s = (ok, s') \<Longrightarrow> reading sh s s'"
  by (auto simp: read_rawdata_def Let_def reading_def statistics_def send_bound_def split: if_splits prod.splits
      dest!: raw_bytes_stats)

lemma read_raw_reading: "read_raw p s = (ok, s') \<Longrightarrow> reading sh s s'"
  by (auto simp: read_raw_def Let_def statistics_def send_bound_def split: if_splits)

lemma socks_ipv6_reading: "socks_ipv6 net p b s = (ok, s') \<Longrightarrow> reading sh s s'"
  by (auto simp: socks_ipv6_def Let_def split: if_splits option.splits)

lemma socks_ipv4_reading: "socks_ipv4 net p b r s = (ok, s') \<Longrightarrow> reading sh s s'"
  by (auto simp: socks_ipv4_def Let_def split: if_splits option.splits)

lemma socks_domain_reading: "socks_domain net p b r s = (ok, s') \<Longrightarrow> reading sh s s'"
  by (auto simp: socks_domain_def Let_def call_beta reading_def
      split: if_splits option.splits list.splits addrinfo.splits)

lemma read_socks_reading: "read_socks net p s = (ok, s') \<Longrightarrow> reading sh s s'"
  by (auto simp: read_socks_def Let_def reading_def statistics_def send_bound_def split: if_splits option.splits
      dest!: socks_ipv6_reading socks_ipv4_reading socks_domain_reading)

lemma commands_transport_reading:
  "commands_transport net argv Index Parameter s = Some (ok, used, s') \<Longrightarrow> reading sh s s'"
  by (auto simp: commands_transport_def value_option_def Let_def read_socks_username_def read_socks_password_def
      statistics_def send_bound_def split: if_splits prod.splits
      dest!: read_rawdata_reading read_raw_reading read_socks_reading)

text \<open>The arguments contain \<open>-show result\<close>.\<close>

definition asks_result :: "wstring list \<Rightarrow> bool" where
  "asks_result argv \<longleftrightarrow> list_ex (\<lambda>i. is_option [''-show'', ''--show-response''] (argv ! i)
     \<and> is_option [''result''] (argv ! (i + 1))) [0..<length argv - 1]"

lemma asks_resultI:
  "is_option [''-show'', ''--show-response''] (argv ! i) \<Longrightarrow> Suc i < length argv \<Longrightarrow>
     is_option [''result''] (argv ! Suc i) \<Longrightarrow> asks_result argv"
  by (force simp: asks_result_def list_ex_iff)

lemma commands_output_reading:
  assumes "commands_output argv Index (argv ! Index) s = Some (ok, used, s')"
  shows "reading (asks_result argv) s s'"
  using assms asks_resultI [of argv Index]
  by (auto simp: commands_output_def option_defs read_show_def read_output_file_def Let_def statistics_def send_bound_def
      split: if_splits)

lemma command_domain_reading:
  "command_domain net argv Index Parameter s = Some (ok, used, s') \<Longrightarrow> reading sh s s'"
  by (auto simp: command_domain_def statistics_def send_bound_def split: if_splits)

lemma target_ipv6_reading: "target_ipv6 net p b s = (ok, s') \<Longrightarrow> reading sh s s'"
  by (auto simp: target_ipv6_def Let_def statistics_def send_bound_def set_normal_def split: if_splits option.splits)

lemma target_ipv4_reading: "target_ipv4 net p b s = (ok, s') \<Longrightarrow> reading sh s s'"
  by (auto simp: target_ipv4_def Let_def statistics_def send_bound_def set_normal_def split: if_splits option.splits)

lemma target_domain_reading: "target_domain net p b s = (ok, s') \<Longrightarrow> reading sh s s'"
  by (auto simp: target_domain_def Let_def call_beta reading_def statistics_def send_bound_def set_normal_def
      split: if_splits option.splits list.splits addrinfo.splits)

lemma command_target_reading:
  "command_target net argv Index Parameter s = Some (ok, used, s') \<Longrightarrow> reading sh s s'"
  by (auto simp: command_target_def Let_def split: if_splits prod.splits
      dest!: target_ipv6_reading target_ipv4_reading target_domain_reading)

lemmas command_readings =
  commands_basic_reading commands_header_reading commands_counts_reading commands_query_reading
  commands_transport_reading commands_output_reading command_domain_reading command_target_reading

lemma read_command_reading:
  "read_command net argv Index s = (ok, used, s') \<Longrightarrow> reading (asks_result argv) s s'"
  by (auto simp: read_command_def Let_def split: option.splits dest!: command_readings)

lemma read_from_reading:
  "read_from net argv Index s = (ok, s') \<Longrightarrow> reading (asks_result argv) s s'"
proof (induction net argv Index s arbitrary: ok s' rule: read_from.induct)
  case (1 net argv Index s)
  show ?case
  proof (cases "length argv \<le> Index")
    case True
    with "1.prems" show ?thesis by (simp add: read_from.simps [of net argv Index s])
  next
    case False
    obtain ok1 used s1 where c: "read_command net argv Index s = (ok1, used, s1)" by (metis prod_cases3)
    have "reading (asks_result argv) s1 s'"
    proof (cases ok1)
      case True
      show ?thesis
        using "1.IH" [OF False c [symmetric] refl True] "1.prems" False c True
        by (simp add: read_from.simps [of net argv Index s])
    next
      case f: False
      with "1.prems" False c show ?thesis by (simp add: read_from.simps [of net argv Index s])
    qed
    with read_command_reading [OF c] show ?thesis by (rule reading_trans)
  qed
qed

lemma ConfigurationInitialization_fields:
  assumes "ConfigurationInitialization net s = (ok, s')"
  shows "tr s' = tr s" "statistics (cfg s') = (0, 0, 0, 0)" "\<not> socks_mode (cfg s')" "send_bound (cfg s')"
    "\<not> ShowResponse (cfg s')"
  using assms
  by (auto simp: ConfigurationInitialization_def Let_def call_beta statistics_def cleared_def socks_mode_def
      zero_sockaddr_def send_bound_def DEFAULT_SEND_TIMES_def split: if_splits)

lemma check_target_fields:
  "check_target c = Some c' \<Longrightarrow>
     statistics c' = statistics c \<and> send_bound c' = send_bound c \<and> ShowResponse c' = ShowResponse c"
  by (auto simp: check_target_def mark_port_def statistics_def send_bound_def set_normal_def split: if_splits)

lemma adjust_timeout_fields [simp]:
  "statistics (adjust_timeout v c) = statistics c" "send_bound (adjust_timeout v c) = send_bound c"
  "ShowResponse (adjust_timeout v c) = ShowResponse c"
  by (simp_all add: adjust_timeout_def statistics_def send_bound_def Let_def)

lemma default_header_fields [simp]:
  "statistics (default_header c) = statistics c" "send_bound (default_header c) = send_bound c"
  "ShowResponse (default_header c) = ShowResponse c"
  by (simp_all add: default_header_def Let_def)

lemma default_query_fields [simp]:
  "statistics (default_query c) = statistics c" "send_bound (default_query c) = send_bound c"
  "ShowResponse (default_query c) = ShowResponse c"
  by (simp_all add: default_query_def statistics_def send_bound_def Let_def)

lemma default_edns_fields [simp]:
  "statistics (default_edns c) = statistics c" "send_bound (default_edns c) = send_bound c"
  "ShowResponse (default_edns c) = ShowResponse c"
  by (simp_all add: default_edns_def statistics_def send_bound_def set_header_def Let_def)

lemma target_string_fields [simp]:
  "statistics (c\<lparr>wTargetString := w\<rparr>) = statistics c" "send_bound (c\<lparr>wTargetString := w\<rparr>) = send_bound c"
  by (simp_all add: statistics_def send_bound_def)

lemma complete_table_fields:
  "statistics (complete_table net c) = statistics c" "send_bound (complete_table net c) = send_bound c"
  "ShowResponse (complete_table net c) = ShowResponse c"
  by (simp_all add: complete_table_def Let_def)

lemma ReadCommands_reading: "ReadCommands net argv s = (ok, s') \<Longrightarrow> reading (asks_result argv) s s'"
  by (simp add: ReadCommands_def read_from_reading)

section \<open>What the main process does to the outside\<close>

lemma same_tr_keeps: "tr s' = tr s \<Longrightarrow> keeps X s s'"
  by (simp add: keeps_def extends_def acts_def held_def)

lemma OutputResultToFile_frame:
  "OutputResultToFile net s = (ok, s') \<Longrightarrow>
     tr s' = tr s \<and> (\<exists>b. cfg s' = (cfg s)\<lparr>OutputFile := b\<rparr>)"
  by (auto simp: OutputResultToFile_def call_beta Let_def)

lemma keeps_set_cfg: "keeps X (set_cfg f s) s' = keeps X s s'"
  by (simp add: keeps_def extends_def acts_def held_def)

lemma send_until_full_keeps:
  "send_until_full net s = Some r \<Longrightarrow> keeps {R_Socket} s (snd r)"
proof (induction net s r rule: send_until_full.raw_induct [rotated, consumes 1, case_names step])
  case (step send net s r)
  have once: "keeps {R_Socket} s (snd q)" if "SendProcess net False (set_cfg next_request s) = Some q" for q
    using SendProcess_held(1) [of net False "set_cfg next_request s" "fst q" "snd q"] that by (simp add: keeps_set_cfg)
  from step.hyps show ?case
    by (auto split: if_splits option.splits dest!: once intro: step.IH keeps_trans)
qed

lemma send_all_keeps:
  "send_all net n s = Some r \<Longrightarrow> keeps {R_Socket} s (snd r)"
proof (induction n arbitrary: s)
  case 0
  then show ?case by auto
next
  case (Suc n)
  have once: "keeps {R_Socket} s s'" if "SendProcess net L (set_cfg next_request s) = Some (ok, s')" for L ok s'
    using SendProcess_held(1) [OF that] by (simp add: keeps_set_cfg)
  from Suc.prems show ?case
    by (auto split: if_splits option.splits dest!: once) (blast intro: keeps_trans Suc.IH)
qed

text \<open>The stages of the main process: nothing sent, or the table is complete and the requests go out.\<close>

lemma dnsping_main_stages:
  assumes "dnsping_main net argv s = Some (ok, s')"
  obtains (idle) "length argv \<le> 2" "s' = s"
  | (failed) "\<not> ok" "2 < length argv" "tr s' = tr s" "statistics (cfg s') = (0, 0, 0, 0)"
  | (sent) s1 where "2 < length argv" "tr s1 = tr s" "statistics (cfg s1) = (0, 0, 0, 0)" "send_bound (cfg s1)"
      "ShowResponse (cfg s1) \<longrightarrow> asks_result argv"
      "(if Statistics_Send (cfg s1) = 0 then send_until_full net s1
        else send_all net (unat (Statistics_Send (cfg s1))) s1) = Some (ok, s')"
proof (cases "length argv \<le> 2")
  case True
  with assms that(1) show ?thesis by (simp add: dnsping_main_def)
next
  case long: False
  obtain i s1 where i: "ConfigurationInitialization net s = (i, s1)" by force
  note init = ConfigurationInitialization_fields [OF i]
  show ?thesis
  proof (cases i)
    case False
    with assms long i init that(2) show ?thesis by (simp add: dnsping_main_def)
  next
    case True
    obtain r s2 where r: "ReadCommands net argv s1 = (r, s2)" by force
    note read = ReadCommands_reading [OF r]
    show ?thesis
    proof (cases "r \<and> check_target (cfg s2) \<noteq> None")
      case False
      with assms long i True r init read that(2) show ?thesis
        by (auto simp: dnsping_main_def reading_def split: option.splits)
    next
      case ok: True
      then obtain c where c: "check_target (cfg s2) = Some c" by auto
      define s3 where "s3 = s2\<lparr>cfg := complete_table net c\<rparr>"
      obtain f s4 where f: "(if wOutputFileName (cfg s3) = [] then (True, s3) else OutputResultToFile net s3) = (f, s4)"
        by force
      have s3: "statistics (cfg s3) = (0, 0, 0, 0)" "send_bound (cfg s3)" "tr s3 = tr s"
        "ShowResponse (cfg s3) \<longrightarrow> asks_result argv"
        using init read ok complete_table_fields [of net c] check_target_fields [OF c]
        by (simp_all add: s3_def reading_def)
      have s4: "statistics (cfg s4) = statistics (cfg s3)" "send_bound (cfg s4) = send_bound (cfg s3)" "tr s4 = tr s3"
        "ShowResponse (cfg s4) = ShowResponse (cfg s3)"
        using f OutputResultToFile_frame [of net s3 f s4]
        by (auto simp: statistics_def send_bound_def split: if_splits)
      have "Some (ok, s') = (if \<not> f then Some (False, s4)
            else if Statistics_Send (cfg s4) = 0 then send_until_full net s4
            else send_all net (unat (Statistics_Send (cfg s4))) s4)"
        using assms long i True r ok c f [unfolded s3_def] by (simp add: dnsping_main_def Let_def split del: if_split)
      with long s3 s4 that show ?thesis by (cases f) auto
    qed
  qed
qed

lemma dnsping_main_keeps:
  assumes "dnsping_main net argv s = Some (ok, s')"
  shows "keeps {R_Socket} s s'"
  using assms
proof (cases rule: dnsping_main_stages)
  case idle
  then show ?thesis by simp
next
  case failed
  then show ?thesis by (simp add: same_tr_keeps)
next
  case (sent s1)
  have "keeps {R_Socket} s1 s'"
    using sent(6) send_until_full_keeps [of net s1 "(ok, s')"]
      send_all_keeps [of net "unat (Statistics_Send (cfg s1))" s1 "(ok, s')"] by (simp split: if_splits)
  with same_tr_keeps [OF sent(2)] show ?thesis by (rule keeps_trans)
qed

section \<open>Requests and responses are tallied\<close>

text \<open>
  The invariant of the table while requests go out: no more responses than requests, neither beyond the bound of
  the loops, and the times of the responses lie between the shortest and the longest one.
\<close>

definition tally :: "nat \<Rightarrow> config \<Rightarrow> bool" where
  "tally n c \<longleftrightarrow> unat (Statistics_RecvNum c) \<le> unat (Statistics_RealSend c)
     \<and> unat (Statistics_RealSend c) \<le> n \<and> mean_ok c"

lemma tally_start: "statistics c = (0, 0, 0, 0) \<Longrightarrow> tally n c"
  by (simp add: tally_def statistics_def mean_ok_def)

lemma next_request_simps [simp]:
  "Statistics_RealSend (next_request c) = Statistics_RealSend c + 1"
  "Statistics_RecvNum (next_request c) = Statistics_RecvNum c" "mean_ok (next_request c) = mean_ok c"
  "socks_mode (next_request c) = socks_mode c" "ShowResponse (next_request c) = ShowResponse c" "Statistics_Send (next_request c) = Statistics_Send c"
  by (simp_all add: next_request_def mean_ok_def socks_mode_def)

lemma tally_request:
  assumes "tally n c" and "n < 0x10000" and "SendProcess net L (set_cfg next_request s) = Some (ok, s')"
    and "cfg s = c" and "clock_advances net clock"
  shows "tally (Suc n) (cfg s')"
proof -
  have send: "unat (Statistics_RealSend c + 1) = unat (Statistics_RealSend c) + 1"
    using assms(1,2) by (intro unat_Suc) (simp add: tally_def)
  have small: "unat (Statistics_RecvNum c) + 1 < 2 ^ 32" using assms(1,2) by (simp add: tally_def)
  note recv = unat_Suc [OF small]
  have small': "unat (Statistics_RecvNum (next_request c)) + 1 < 2 ^ 32" using small by simp
  have "tally (Suc n) (next_request c)" using assms(1) send by (simp add: tally_def)
  moreover have "tally (Suc n) (record_time r (next_request c))" if "0 < r" for r
    using assms(1) send recv record_time_mean [OF _ that small'] by (simp add: tally_def)
  ultimately show ?thesis
    using SendProcess_positive [OF assms(3,5)] assms(4) by (auto simp: counted_def)
qed

lemma tally_mono:
  assumes "tally m c" and "m \<le> n"
  shows "tally n c"
  using assms by (simp add: tally_def)

lemma send_until_full_tally:
  "send_until_full net s = Some r \<Longrightarrow> clock_advances net clock \<Longrightarrow> tally 0x10000 (cfg s) \<Longrightarrow> tally 0x10000 (cfg (snd r))"
proof (induction net s r rule: send_until_full.raw_induct [rotated, consumes 1, case_names step])
  case (step send net s r)
  show ?case
  proof (cases "unat (Statistics_RealSend (cfg s)) \<le> 0xFFFF")
    case False
    with step.hyps step.prems show ?thesis by auto
  next
    case True
    with step.hyps obtain q where q: "SendProcess net False (set_cfg next_request s) = Some q"
      and r: "if fst q then send net (snd q) = Some r else r = (False, snd q)"
      by (auto split: option.splits if_splits)
    have "tally (unat (Statistics_RealSend (cfg s))) (cfg s)" using step.prems(2) by (simp add: tally_def)
    then have "tally (Suc (unat (Statistics_RealSend (cfg s)))) (cfg (snd q))"
      using True q step.prems(1) by (intro tally_request [where s = s and ok = "fst q"]) simp_all
    then have "tally 0x10000 (cfg (snd q))" by (rule tally_mono) (use True in simp)
    with r step.IH [of net "snd q" r] step.prems(1) show ?thesis by (auto split: if_splits)
  qed
qed

lemma send_all_tally:
  "send_all net n s = Some r \<Longrightarrow> clock_advances net clock \<Longrightarrow> tally k (cfg s) \<Longrightarrow> k + n \<le> 0x10000
     \<Longrightarrow> tally (k + n) (cfg (snd r))"
proof (induction n arbitrary: s k)
  case 0
  then show ?case by auto
next
  case (Suc n)
  from Suc.prems(1) obtain ok s1 where q: "SendProcess net (n = 0) (set_cfg next_request s) = Some (ok, s1)"
    and r: "if ok then send_all net n s1 = Some r else r = (False, s1)"
    by (auto split: option.splits if_splits)
  have "tally (Suc k) (cfg s1)"
    using tally_request [OF Suc.prems(3) _ q refl Suc.prems(2)] Suc.prems(4) by simp
  with r Suc.IH [of s1 "Suc k"] Suc.prems(2,4) show ?case
    by (auto split: if_splits intro: tally_mono)
qed

lemma dnsping_main_tally:
  assumes "dnsping_main net argv s = Some (ok, s')" and "clock_advances net clock" and "2 < length argv"
  shows "tally 0x10000 (cfg s')"
  using assms(1)
proof (cases rule: dnsping_main_stages)
  case idle
  with assms(3) show ?thesis by simp
next
  case failed
  then show ?thesis by (simp add: tally_start)
next
  case (sent s1)
  let ?n = "unat (Statistics_Send (cfg s1))"
  have "tally ?n (cfg s')" if "send_all net ?n s1 = Some (ok, s')"
    using send_all_tally [OF that assms(2) tally_start [OF sent(3), of 0]] sent(4) by (simp add: send_bound_def)
  then have "tally 0x10000 (cfg s')" if "send_all net ?n s1 = Some (ok, s')"
    using that sent(4) tally_mono [where m = ?n and n = 65536 and c = "cfg s'"] by (simp add: send_bound_def)
  moreover have "tally 0x10000 (cfg s')" if "send_until_full net s1 = Some (ok, s')"
    using send_until_full_tally [OF that assms(2) tally_start [OF sent(3)]] by simp
  ultimately show ?thesis using sent(6) by (simp split: if_splits)
qed

section \<open>The main process returns\<close>

lemma SendProcess_table:
  assumes "SendProcess net L s = Some (ok, s')"
  shows "Statistics_RealSend (cfg s') = Statistics_RealSend (cfg s)" "ShowResponse (cfg s') = ShowResponse (cfg s)"
  using SendProcess_counted [OF assms] by (auto simp: counted_def)

text \<open>A request of a table that does not show responses.\<close>

lemma one_returns:
  assumes "clock_advances net clock" and "\<not> ShowResponse (cfg s)"
  obtains ok s' where "SendProcess net L (set_cfg next_request s) = Some (ok, s')"
    and "\<not> ShowResponse (cfg s')" and "Statistics_RealSend (cfg s') = Statistics_RealSend (cfg s) + 1"
proof -
  have "\<not> ShowResponse (cfg (set_cfg next_request s))" using assms(2) by simp
  then obtain ok s' where q: "SendProcess net L (set_cfg next_request s) = Some (ok, s')"
    using SendProcess_returns [OF assms(1)] by (metis surj_pair)
  with SendProcess_table [OF q] assms(2) that show ?thesis by simp
qed

lemma send_until_full_returns:
  assumes clock: "clock_advances net clock"
  shows "\<not> ShowResponse (cfg s) \<Longrightarrow> \<exists>r. send_until_full net s = Some r"
proof (induction "0x10000 - unat (Statistics_RealSend (cfg s))" arbitrary: s rule: less_induct)
  case less
  show ?case
  proof (cases "unat (Statistics_RealSend (cfg s)) \<le> 0xFFFF")
    case False
    then show ?thesis by (subst send_until_full.simps) (simp del: split_paired_Ex)
  next
    case True
    obtain ok s1 where q: "SendProcess net False (set_cfg next_request s) = Some (ok, s1)"
      and s1: "\<not> ShowResponse (cfg s1)" "Statistics_RealSend (cfg s1) = Statistics_RealSend (cfg s) + 1"
      using clock less.prems by (rule one_returns)
    have "unat (Statistics_RealSend (cfg s1)) = unat (Statistics_RealSend (cfg s)) + 1"
      using s1(2) True by (simp add: unat_Suc)
    with less.hyps [of s1] True q s1(1) show ?thesis by (subst send_until_full.simps) auto
  qed
qed

lemma send_all_returns:
  assumes clock: "clock_advances net clock"
  shows "\<not> ShowResponse (cfg s) \<Longrightarrow> \<exists>r. send_all net n s = Some r"
proof (induction n arbitrary: s)
  case (Suc n)
  obtain ok s1 where "SendProcess net (n = 0) (set_cfg next_request s) = Some (ok, s1)" "\<not> ShowResponse (cfg s1)"
    using clock Suc.prems by (rule one_returns)
  with Suc.IH [of s1] show ?case by auto
qed (simp del: split_paired_Ex)

lemma dnsping_main_returns:
  assumes clock: "clock_advances net clock" and quiet: "\<not> asks_result argv"
  shows "\<exists>r. dnsping_main net argv s = Some r"
proof -
  obtain i s1 where i: "ConfigurationInitialization net s = (i, s1)" by force
  obtain ok s2 where read: "ReadCommands net argv s1 = (ok, s2)" by force
  have s2: "\<not> ShowResponse (cfg s2)"
    using ConfigurationInitialization_fields(5) [OF i] ReadCommands_reading [OF read] quiet by (simp add: reading_def)
  have done': "(\<exists>r. send_until_full net u = Some r) \<and> (\<exists>r. send_all net n u = Some r)"
    if "\<not> ShowResponse (cfg u)" for u n
    using send_until_full_returns [OF clock that] send_all_returns [OF clock that] by blast
  have sent: "\<exists>r. (let (ok, s) = (if wOutputFileName (cfg u) = [] then (True, u) else OutputResultToFile net u)
      in if \<not> ok then Some (False, s)
         else if Statistics_Send (cfg s) = 0 then send_until_full net s
         else send_all net (unat (Statistics_Send (cfg s))) s) = Some r"
    if "\<not> ShowResponse (cfg u)" for u
  proof -
    obtain b v where v: "(if wOutputFileName (cfg u) = [] then (True, u) else OutputResultToFile net u) = (b, v)"
      by force
    then have "\<not> ShowResponse (cfg v)"
      using that OutputResultToFile_frame [of net u b v] by (auto split: if_splits)
    from done' [OF this] show ?thesis by (simp add: v del: split_paired_Ex)
  qed
  have "\<not> ShowResponse (cfg (s2\<lparr>cfg := complete_table net c\<rparr>))" if "check_target (cfg s2) = Some c" for c
    using s2 check_target_fields [OF that] by (simp add: complete_table_fields)
  from sent [OF this] show ?thesis
    by (cases "check_target (cfg s2)") (auto simp: dnsping_main_def i read Let_def)
qed

end
