(* ===== verification/Dnsping_Ping.thy ===== *)
theory Dnsping_Ping
  imports Dnsping_Main
begin

text \<open>
  The entry of DNSPing that the application uses (\<open>DNSPingInterface::Ping\<close> of \<open>Interface.cpp\<close>) and the
  application's component \<open>dns_ping\<close>: what the fixed arguments set in the table, what is sent, and what a success means.
\<close>

section \<open>The entry of the application\<close>

text \<open>
  The nine arguments (of the release build). \<open>wcscpy_s\<close> into an array of 64 units ends the program when the
  text does not fit. The result of \<open>dnsping_main\<close> is not looked at. Converting a time is truncation; without
  any response it is the quotient 0/0.
\<close>

definition ping_arguments :: "'w net \<Rightarrow> wstring \<Rightarrow> wstring \<Rightarrow> wstring list" where
  "ping_arguments net str_dns_ip str_url =
     [n_module_file_name net, wlit ''-qt'', wlit ''A'', wlit ''-n'', wlit ''3'', wlit ''-w'', wlit ''500'',
      c_str str_url, c_str str_dns_ip]"

definition mean_time :: "'w net \<Rightarrow> config \<Rightarrow> u32" where
  "mean_time net c =
     (if Statistics_RecvNum c = 0 then n_nan_to_uint net
      else of_int \<lfloor>Statistics_TotalTime c / real (unat (Statistics_RecvNum c))\<rfloor>)"

definition DNSPingInterface_Ping ::
  "'w net \<Rightarrow> wstring \<Rightarrow> wstring \<Rightarrow> u32 \<Rightarrow> ('w, 'm) dnsping_st_scheme \<Rightarrow>
     (bool \<times> u32 \<times> ('w, 'm) dnsping_st_scheme) option" where
  "DNSPingInterface_Ping net str_dns_ip str_url t_ms s =
     (if length (c_str str_url) \<ge> 64 \<or> length (c_str str_dns_ip) \<ge> 64 then None
      else case dnsping_main net (ping_arguments net str_dns_ip str_url) s of
             None \<Rightarrow> None
           | Some (_, s) \<Rightarrow>
               Some (if Statistics_RealSend (cfg s) - Statistics_RecvNum (cfg s) > 0 then (False, t_ms, s)
                     else (True, mean_time net (cfg s), s)))"

text \<open>\<open>dns_ping::ping\<close>; the ping is recorded in the trace.\<close>

definition dns_ping ::
  "'w net \<Rightarrow> wstring \<Rightarrow> u32 \<Rightarrow> ('w, 'm) dnsping_st_scheme \<Rightarrow> (result \<times> u32 \<times> ('w, 'm) dnsping_st_scheme) option" where
  "dns_ping net str_dns_ip t_ms s =
     (case DNSPingInterface_Ping net str_dns_ip DNS_PING_URL t_ms (emit (Ping str_dns_ip) s) of
        None \<Rightarrow> None
      | Some (ok, time, s) \<Rightarrow> Some (if \<not> ok then (result_dnsping_fail, t_ms, s) else (result_success, time, s)))"

section \<open>The frame\<close>

lemma ping_arguments_length [simp]: "length (ping_arguments net ip url) = 9"
  by (simp add: ping_arguments_def)

lemma word_diff_positive: "0 < a - b \<longleftrightarrow> a \<noteq> (b :: u32)"
  by (auto simp: word_gt_0)

lemma Ping_result:
  assumes "DNSPingInterface_Ping net ip url t s = Some (ok, t', s')"
  shows "\<exists>r. dnsping_main net (ping_arguments net ip url) s = Some (r, s')
    \<and> (ok \<longleftrightarrow> Statistics_RealSend (cfg s') = Statistics_RecvNum (cfg s'))
    \<and> t' = (if ok then mean_time net (cfg s') else t)"
proof -
  have fits: "\<not> (length (c_str url) \<ge> 64 \<or> length (c_str ip) \<ge> 64)"
    using assms by (cases "length (c_str url) \<ge> 64 \<or> length (c_str ip) \<ge> 64") (simp_all add: DNSPingInterface_Ping_def)
  then obtain r u where r: "dnsping_main net (ping_arguments net ip url) s = Some (r, u)"
    using assms by (cases "dnsping_main net (ping_arguments net ip url) s") (auto simp: DNSPingInterface_Ping_def)
  have "Some (if Statistics_RealSend (cfg u) \<noteq> Statistics_RecvNum (cfg u) then (False, t, u)
      else (True, mean_time net (cfg u), u)) = Some (ok, t', s')"
    using assms unfolding DNSPingInterface_Ping_def if_not_P [OF fits] r word_diff_positive by simp
  then show ?thesis using r
    by (cases "Statistics_RealSend (cfg u) = Statistics_RecvNum (cfg u)") (simp_all only: if_True if_False not_not refl prod.inject option.inject not_True_eq_False not_False_eq_True, auto)
qed

lemma Ping_run:
  assumes "DNSPingInterface_Ping net ip url t s = Some (ok, t', s')"
  obtains r where "dnsping_main net (ping_arguments net ip url) s = Some (r, s')"
    and "ok \<longleftrightarrow> Statistics_RealSend (cfg s') = Statistics_RecvNum (cfg s')"
    and "t' = (if ok then mean_time net (cfg s') else t)"
  using Ping_result [OF assms] by blast

lemma Ping_keeps:
  assumes "DNSPingInterface_Ping net ip url t s = Some (ok, t', s')"
  shows "keeps {R_Socket} s s'"
  using assms by (rule Ping_run) (rule dnsping_main_keeps)

lemma dns_ping_run:
  assumes "dns_ping net ip t s = Some (res, t', s')"
  obtains ok u where "DNSPingInterface_Ping net ip DNS_PING_URL t (emit (Ping ip) s) = Some (ok, u, s')"
    and "res = (if ok then result_success else result_dnsping_fail)" and "t' = (if ok then u else t)"
  using assms by (auto simp: dns_ping_def split: option.splits if_splits)

lemma dns_ping_acts:
  assumes "dns_ping net ip t s = Some (res, t', s')"
  shows "extends s s'" and "acts s' = acts s @ [Ping ip]"
proof -
  obtain ok u where "DNSPingInterface_Ping net ip DNS_PING_URL t (emit (Ping ip) s) = Some (ok, u, s')"
    using assms by (rule dns_ping_run)
  note k = keepsD [OF Ping_keeps [OF this]]
  from k(1) show "extends s s'" by (rule extends_trans [rotated]) simp
  from k(2) show "acts s' = acts s @ [Ping ip]" by simp
qed

text \<open>The arguments of the application do not ask for responses to be shown, whatever the address.\<close>

lemma ping_asks_nothing: "\<not> asks_result (ping_arguments net ip DNS_PING_URL)"
proof -
  have "c_str DNS_PING_URL = wlit ''www.qq.com''" by (simp add: DNS_PING_URL_def c_str_def wstr_simps)
  moreover have "[0..<8] = [0, 1, 2, 3, 4, 5, 6, 7 :: nat]" by (simp add: upt_rec)
  ultimately show ?thesis by (simp add: asks_result_def ping_arguments_def is_option_def)
qed

lemma dns_ping_returns:
  assumes "clock_advances net clock" and "length (c_str ip) < 64"
  shows "\<exists>r. dns_ping net ip t s = Some r"
proof -
  have "length (c_str DNS_PING_URL) < 64" by (simp add: DNS_PING_URL_def c_str_def wstr_simps)
  moreover obtain r s' where "dnsping_main net (ping_arguments net ip DNS_PING_URL) (emit (Ping ip) s) = Some (r, s')"
    using dnsping_main_returns [OF assms(1) ping_asks_nothing] by (metis surj_pair)
  ultimately show ?thesis using assms(2) by (simp add: dns_ping_def DNSPingInterface_Ping_def del: split_paired_Ex)
qed

section \<open>What the arguments set\<close>

text \<open>A dotted address: digits and periods.\<close>

definition dotted_text :: "wstring \<Rightarrow> bool" where
  "dotted_text ip \<longleftrightarrow> set ip \<subseteq> set (wlit ''.0123456789'') \<and> 7 \<le> length ip \<and> length ip \<le> 15"

text \<open>The documented behaviour of the conversion on ASCII text.\<close>

definition ascii_kept :: "'w net \<Rightarrow> bool" where
  "ascii_kept net \<longleftrightarrow> (\<forall>p. (\<forall>c \<in> set p. 0 < c \<and> c < 128) \<longrightarrow> n_to_acp net p = map ucast p)"

definition set_type :: "u16 \<Rightarrow> config \<Rightarrow> config" where
  "set_type n c = c\<lparr>Parameter_Query := (Parameter_Query c)\<lparr>Type := n\<rparr>\<rparr>"

lemma strtoul_3: "wcstoul (wlit ''3'') = 3"
  by (simp add: wcstoul_def strtoul_def number_prefix_def digit_value_def is_space_def wstr_simps)

lemma strtoul_500: "wcstoul (wlit ''500'') = 500"
  by (simp add: wcstoul_def strtoul_def number_prefix_def digit_value_def is_space_def wstr_simps)

lemma type_A: "DNSTypeNameToHex (wlit ''A'') = htons 1"
proof -
  have "first_name (type_names_1 @ type_names_2) ''A'' = 1" by code_simp
  then show ?thesis by (simp add: DNSTypeNameToHex_def first_match_wlit)
qed

lemmas option_evals = read_command_def commands_basic_def commands_header_def commands_counts_def
  commands_query_def commands_transport_def commands_output_def is_option_def value_option_def Let_def

lemma no_question [simp]: "63 \<in> set (wlit s) \<longleftrightarrow> CHR ''?'' \<in> set s"
proof -
  have "(63 :: wchar) = of_char CHR ''?''" by simp
  then show ?thesis by (simp only: wlit_def set_map image_iff of_char_wchar_inj) blast
qed

lemma read_qt:
  assumes "argv ! i = wlit ''-qt''" and "argv ! Suc i = wlit ''A''" and "Suc i < length argv"
  shows "read_command net argv i s = (True, True, set_cfg (set_type (htons 1)) s)"
  using assms by (simp add: option_evals named_value_def type_A set_type_def [abs_def])

lemma read_n:
  assumes "argv ! i = wlit ''-n''" and "argv ! Suc i = wlit ''3''" and "Suc i < length argv"
  shows "read_command net argv i s = (True, True, set_cfg (\<lambda>c. c\<lparr>Statistics_Send := 3\<rparr>) s)"
  using assms by (simp add: option_evals number_value_def strtoul_3 upto16_def)

lemma read_w:
  assumes "argv ! i = wlit ''-w''" and "argv ! Suc i = wlit ''500''" and "Suc i < length argv"
  shows "read_command net argv i s = (True, True, set_cfg (\<lambda>c. c\<lparr>SocketTimeout := 500\<rparr>) s)"
  using assms by (simp add: option_evals number_value_def strtoul_500 TIME_OUT_MIN_def)

lemma url_ascii: "c \<in> set DNS_PING_URL \<Longrightarrow> 0 < c \<and> c < 128"
  by (auto simp: DNS_PING_URL_def wstr_simps)

lemma read_url:
  assumes "argv ! i = DNS_PING_URL" and "Suc (Suc i) = length argv" and "RawData (cfg s) = None"
    and "TestDomain (cfg s) \<in> {[], blit ''www.qq.com''}" and "ascii_kept net"
  shows "read_command net argv i s = (True, False, set_cfg (\<lambda>c. c\<lparr>TestDomain := blit ''www.qq.com''\<rparr>) s)"
proof -
  have "n_to_acp net DNS_PING_URL = map ucast DNS_PING_URL"
    using assms(5) url_ascii by (simp add: ascii_kept_def)
  then have "n_to_acp net DNS_PING_URL = blit ''www.qq.com''"
    by (simp add: DNS_PING_URL_def wstr_simps)
  with assms show ?thesis
    by (auto simp: option_evals command_domain_def command_target_def DNS_PING_URL_def DOMAIN_MINSIZE_def
        DOMAIN_MAXSIZE_def set_cfg_def)
qed

lemma dotted_text_simps:
  assumes "dotted_text ip"
  shows "ip \<noteq> wlit (CHR ''-'' # s)" "63 \<notin> set ip" "list_ex domain_char (map ucast ip) = False"
    "58 \<notin> set (map ucast ip :: bytes)" "\<forall>c \<in> set ip. 0 < c \<and> c < 128" "ip \<noteq> []" "c_str ip = ip"
    "length ip < 64"
proof -
  have d: "c \<in> set ip \<Longrightarrow> c \<in> {46, 48, 49, 50, 51, 52, 53, 54, 55, 56, 57}" for c
    using assms by (auto simp: dotted_text_def wstr_simps)
  then show "63 \<notin> set ip" "\<forall>c \<in> set ip. 0 < c \<and> c < 128" by force+
  then show "c_str ip = ip" by (metis c_str_id less_irrefl)
  show "ip \<noteq> wlit (CHR ''-'' # s)" using d [of 45] by (auto simp: wstr_simps)
  show "58 \<notin> set (map ucast ip :: bytes)" using d by fastforce
  show "list_ex domain_char (map ucast ip) = False" using d by (fastforce simp: list_ex_iff domain_char_def)
  show "ip \<noteq> []" "length ip < 64" using assms by (auto simp: dotted_text_def)
qed

lemma read_ip:
  assumes "argv ! i = ip" and "Suc i = length argv" and "dotted_text ip" and "ascii_kept net"
  shows "read_command net argv i s =
    (fst (target_ipv4 net ip (map ucast ip) s), False, snd (target_ipv4 net ip (map ucast ip) s))"
proof -
  note d = dotted_text_simps [OF assms(3)]
  have "n_to_acp net ip = map ucast ip" using assms(4) d(5) by (simp add: ascii_kept_def)
  moreover have "2 \<le> length ip" "length ip \<le> 256" using assms(3) by (simp_all add: dotted_text_def)
  ultimately show ?thesis using assms(1,2) d(1-4,6)
    by (simp add: option_evals command_domain_def command_target_def DOMAIN_MINSIZE_def DOMAIN_MAXSIZE_def split_beta)
qed

text \<open>Reading the nine arguments: the options, the domain, and the address, which only the system can refuse.\<close>

definition ping_options :: "config \<Rightarrow> config" where
  "ping_options c = (set_type (htons 1) c)
     \<lparr>Statistics_Send := 3, SocketTimeout := 500, TestDomain := blit ''www.qq.com''\<rparr>"

lemma read_ping_arguments:
  assumes "dotted_text ip" and "ascii_kept net" and "RawData (cfg s) = None"
    and "TestDomain (cfg s) \<in> {[], blit ''www.qq.com''}"
  shows "ReadCommands net (ping_arguments net ip DNS_PING_URL) s =
    target_ipv4 net ip (map ucast ip) (set_cfg ping_options s)"
proof -
  let ?argv = "ping_arguments net ip DNS_PING_URL"
  have url: "c_str DNS_PING_URL = DNS_PING_URL" using url_ascii by (metis c_str_id less_irrefl)
  have argv: "?argv ! 1 = wlit ''-qt''" "?argv ! Suc 1 = wlit ''A''" "?argv ! 3 = wlit ''-n''"
    "?argv ! Suc 3 = wlit ''3''" "?argv ! 5 = wlit ''-w''" "?argv ! Suc 5 = wlit ''500''"
    "?argv ! 7 = DNS_PING_URL" "?argv ! 8 = ip"
    using url dotted_text_simps(7) [OF assms(1)] by (simp_all add: ping_arguments_def)
  let ?t = "set_cfg (set_type (htons 1)) s"
  let ?n = "set_cfg (\<lambda>c. c\<lparr>Statistics_Send := 3\<rparr>) ?t"
  let ?w = "set_cfg (\<lambda>c. c\<lparr>SocketTimeout := 500\<rparr>) ?n"
  let ?u = "set_cfg (\<lambda>c. c\<lparr>TestDomain := blit ''www.qq.com''\<rparr>) ?w"
  have steps: "read_command net ?argv 1 s = (True, True, ?t)" "read_command net ?argv 3 ?t = (True, True, ?n)"
    "read_command net ?argv 5 ?n = (True, True, ?w)"
    using argv by (simp_all add: read_qt read_n read_w)
  have "RawData (cfg ?w) = None" "TestDomain (cfg ?w) \<in> {[], blit ''www.qq.com''}"
    using assms(3,4) by (simp_all add: set_type_def)
  then have u: "read_command net ?argv 7 ?w = (True, False, ?u)"
    using argv(7) assms(2) by (intro read_url) simp_all
  have "?u = set_cfg ping_options s"
    by (simp add: set_cfg_def ping_options_def set_type_def)
  moreover obtain ok s' where t: "target_ipv4 net ip (map ucast ip) ?u = (ok, s')" by (metis surj_pair)
  moreover have "read_command net ?argv 8 ?u = (ok, False, s')"
    using read_ip [OF argv(8) _ assms(1,2), of ?u] by (simp add: t)
  ultimately show ?thesis using steps u
    by (simp add: ReadCommands_def read_from.simps)
qed

section \<open>What is sent\<close>

text \<open>
  What a table of the application holds between pings, and the query of its requests: one question for the
  address of \<open>www.qq.com\<close>, with recursion desired.
\<close>

definition app_table :: "config \<Rightarrow> bool" where
  "app_table c \<longleftrightarrow> RawData c = None \<and> TestDomain c \<in> {[], blit ''www.qq.com''} \<and> wOutputFileName c = []"

definition query_packet :: "'w net \<Rightarrow> bytes" where
  "query_packet net =
     store16 (htons (ucast (n_process_id net))) @ [1, 0, 0, 1, 0, 0, 0, 0, 0, 0]
     @ [3] @ blit ''www'' @ [2] @ blit ''qq'' @ [3] @ blit ''com'' @ [0] @ [0, 1, 0, 1]"

definition ready :: "'w net \<Rightarrow> config \<Rightarrow> bool" where
  "ready net c \<longleftrightarrow> \<not> socks_mode c \<and> Statistics_Send c = 3 \<and> make_packet net c = query_packet net
     \<and> app_table c \<and> \<not> EDNS c \<and> \<not> ShowResponse c \<and> ID (Parameter_Header c) = 0 \<and> ss_family (SockAddr_SOCKS c) = 0"

lemma ping_options_simps [simp]:
  "Protocol (ping_options c) = Protocol c" "SockAddr_SOCKS (ping_options c) = SockAddr_SOCKS c"
  "RawData (ping_options c) = RawData c" "SockAddr_Normal (ping_options c) = SockAddr_Normal c"
  by (simp_all add: ping_options_def set_type_def)

lemma query_name: "CharToDNSQuery (blit ''www.qq.com'') =
    ([3] @ blit ''www'' @ [2] @ blit ''qq'' @ [3] @ blit ''com'' @ [0], 12)"
  by (simp add: CharToDNSQuery_def query_buffer_def DOMAIN_MAXSIZE_def wstr_simps)

text \<open>The table that the options, the address and the defaults give.\<close>

definition target_table :: "bytes \<Rightarrow> bytes \<Rightarrow> config \<Rightarrow> config" where
  "target_table text addr c =
     (set_normal (\<lambda>a. a\<lparr>ss_family := AF_INET, sin_addr := addr\<rparr>) c)
       \<lparr>Protocol := AF_INET, TargetString_Normal := text\<rparr>"

lemma initialised:
  assumes "\<forall>w. fst (n_set_ctrl_handler net w)" and "\<forall>w. fst (n_wsa_startup net w)"
  obtains s1 where "ConfigurationInitialization net s = (True, s1)" and "tr s1 = tr s"
    and "cfg s1 = (cleared (cfg s))\<lparr>Statistics_Send := 4, BufferSize := 1500, Validate := True, SocketTimeout := 2000\<rparr>"
  using assms
  by (simp add: ConfigurationInitialization_def Let_def call_beta DEFAULT_SEND_TIMES_def PACKET_MAXSIZE_def
      DEFAULT_TIME_OUT_def)

lemma dotted_legal:
  assumes "dotted_text ip"
  shows "list_ex (\<lambda>c. c \<noteq> 46 \<and> c <s 48 \<or> 57 <s c) (map ucast ip :: bytes) = False"
proof -
  have "c \<in> set ip \<Longrightarrow> c \<in> {46, 48, 49, 50, 51, 52, 53, 54, 55, 56, 57}" for c
    using assms by (auto simp: dotted_text_def wstr_simps)
  then show ?thesis by (fastforce simp: list_ex_iff)
qed

lemma read_target:
  assumes "dotted_text ip" and "Protocol (cfg s) = 0"
    and "n_string_to_addr net AF_INET (ipv4_text (map ucast ip)) = r"
  shows "\<exists>s'. target_ipv4 net ip (map ucast ip) s = (r \<in> range Inr, s') \<and> tr s' = tr s
    \<and> (\<forall>a. r = Inr a \<longrightarrow> cfg s' = target_table (map ucast ip) a (cfg s))"
proof -
  have "7 \<le> length ip" "length ip \<le> 15" using assms(1) by (simp_all add: dotted_text_def)
  with assms(2,3) dotted_legal [OF assms(1)] show ?thesis
    by (cases r) (auto simp: target_ipv4_def AddressStringToBinary_def Let_def target_table_def set_normal_def
        set_cfg_def AF_INET_def AF_INET6_def)
qed

lemma cleared_fields [simp]:
  "Protocol (cleared c) = 0" "RawData (cleared c) = RawData c" "TestDomain (cleared c) = TestDomain c"
  "wOutputFileName (cleared c) = wOutputFileName c" "SockAddr_SOCKS (cleared c) = zero_sockaddr"
  "Parameter_Header (cleared c) = zero_hdr" "Parameter_Query (cleared c) = \<lparr>Type = 0, Classes = 0\<rparr>"
  "EDNS (cleared c) = False" "DNSSEC (cleared c) = False" "ServiceType (cleared c) = 0" "ShowResponse (cleared c) = False"
  "SockAddr_Normal (cleared c) = zero_sockaddr"
  by (simp_all add: cleared_def)

text \<open>The table after the options of a ping and an accepted address is completed to one that sends the query.\<close>

definition ping_table :: "bytes \<Rightarrow> bytes \<Rightarrow> config \<Rightarrow> config" where
  "ping_table text addr c = target_table text addr (ping_options ((cleared c)
     \<lparr>Statistics_Send := 4, BufferSize := 1500, Validate := True, SocketTimeout := 2000\<rparr>))"

lemma ping_table_fields:
  "ss_family (SockAddr_Normal (ping_table text a c)) = AF_INET" "sin_addr (SockAddr_Normal (ping_table text a c)) = a"
  "ss_family (SockAddr_SOCKS (ping_table text a c)) = 0" "RawData (ping_table text a c) = RawData c"
  "Parameter_Header (ping_table text a c) = zero_hdr" "EDNS (ping_table text a c) = False"
  "DNSSEC (ping_table text a c) = False" "Parameter_Query (ping_table text a c) = \<lparr>Type = htons 1, Classes = 0\<rparr>"
  "TestDomain (ping_table text a c) = blit ''www.qq.com''" "wOutputFileName (ping_table text a c) = wOutputFileName c"
  "Statistics_Send (ping_table text a c) = 3" "ServiceType (ping_table text a c) = 0"
  "ShowResponse (ping_table text a c) = False"
  by (simp_all add: ping_table_def target_table_def ping_options_def set_type_def set_normal_def zero_sockaddr_def)

lemma mark_port_fields:
  "Parameter_Header (mark_port c) = Parameter_Header c" "Parameter_Query (mark_port c) = Parameter_Query c"
  "TestDomain (mark_port c) = TestDomain c" "SockAddr_SOCKS (mark_port c) = SockAddr_SOCKS c"
  "RawData (mark_port c) = RawData c" "EDNS (mark_port c) = EDNS c" "DNSSEC (mark_port c) = DNSSEC c"
  "wOutputFileName (mark_port c) = wOutputFileName c" "Statistics_Send (mark_port c) = Statistics_Send c"
  "ss_family (SockAddr_Normal (mark_port c)) = ss_family (SockAddr_Normal c)" "ShowResponse (mark_port c) = ShowResponse c"
  by (simp_all add: mark_port_def set_normal_def)

lemma adjust_fields:
  fixes v :: "version_info option"
  defines "d \<equiv> adjust_timeout v"
  shows "Parameter_Header (d c) = Parameter_Header c" "Parameter_Query (d c) = Parameter_Query c"
    "TestDomain (d c) = TestDomain c" "SockAddr_SOCKS (d c) = SockAddr_SOCKS c" "RawData (d c) = RawData c"
    "EDNS (d c) = EDNS c" "DNSSEC (d c) = DNSSEC c" "wOutputFileName (d c) = wOutputFileName c"
    "Statistics_Send (d c) = Statistics_Send c" "SockAddr_Normal (d c) = SockAddr_Normal c"
    "ShowResponse (d c) = ShowResponse c"
  by (simp_all add: d_def adjust_timeout_def Let_def)

text \<open>The header and the question of the requests.\<close>

definition request_table :: "config \<Rightarrow> config" where
  "request_table c = c\<lparr>Parameter_Header := zero_hdr\<lparr>Flags := htons DNS_STANDARD, Questions := htons 1\<rparr>,
     Parameter_Query := \<lparr>Type = htons 1, Classes = htons 1\<rparr>\<rparr>"

lemma default_header_zero:
  "Parameter_Header c = zero_hdr \<Longrightarrow>
     default_header c = c\<lparr>Parameter_Header := zero_hdr\<lparr>Flags := htons DNS_STANDARD, Questions := htons 1\<rparr>\<rparr>"
  by (simp add: default_header_def set_header_def zero_hdr_def DNS_STANDARD_def Let_def)

lemma default_query_A:
  "Parameter_Query c = \<lparr>Type = htons 1, Classes = 0\<rparr> \<Longrightarrow>
     default_query c = c\<lparr>Parameter_Query := \<lparr>Type = htons 1, Classes = htons 1\<rparr>\<rparr>"
  by (simp add: default_query_def DNS_CLASS_IN_def Let_def)

lemma default_edns_off: "\<not> EDNS c \<Longrightarrow> \<not> DNSSEC c \<Longrightarrow> default_edns c = c"
  by (simp add: default_edns_def)

lemma request_packet:
  assumes "ss_family (SockAddr_SOCKS c) = 0" and "RawData c = None" and "EDNS c = False"
    and "TestDomain c = blit ''www.qq.com''"
  shows "make_packet net (request_table c) = query_packet net"
proof -
  have "request_header net (request_table c) = zero_hdr\<lparr>ID := htons (ucast (n_process_id net)),
      Flags := htons DNS_STANDARD, Questions := htons 1\<rparr>"
    using assms(2) by (simp add: request_header_def own_id_def request_table_def zero_hdr_def)
  moreover have "hdr_bytes (zero_hdr\<lparr>ID := i, Flags := htons DNS_STANDARD, Questions := htons 1\<rparr>) =
      store16 i @ [1, 0, 0, 1, 0, 0, 0, 0, 0, 0]" for i
    by (simp add: hdr_bytes_def zero_hdr_def store16_def htons_def DNS_STANDARD_def)
  moreover have "qry_bytes \<lparr>Type = htons 1, Classes = htons 1\<rparr> = [0, 1, 0, 1]"
    by (simp add: qry_bytes_def store16_def htons_def)
  ultimately show ?thesis using assms
    by (simp add: make_packet_def query_packet_def query_name request_table_def)
qed

lemma complete_ready:
  assumes "app_table c"
  shows "ready net (complete_table net (mark_port (ping_table text a c)))"
proof -
  let ?c = "mark_port (ping_table text a c)"
  let ?w = "(adjust_timeout (n_version net) ?c)\<lparr>wTargetString :=
    c_str (n_from_acp net (TargetString_Normal (adjust_timeout (n_version net) ?c)))\<rparr>"
  note fields = mark_port_fields adjust_fields ping_table_fields
  have "complete_table net ?c = request_table ?w"
    by (simp add: complete_table_def Let_def default_header_zero default_query_A default_edns_off fields
        request_table_def)
  moreover have "make_packet net (request_table ?w) = query_packet net"
    using assms by (intro request_packet) (simp_all add: fields app_table_def)
  ultimately show ?thesis using assms
    by (simp add: ready_def app_table_def socks_mode_def request_table_def fields zero_hdr_def)
qed

text \<open>
  The documented behaviour that an ordinary ping needs: Winsock starts, and the handler can be set; \<open>accepts\<close>
  says what the system makes of the text of an address.
\<close>

definition winsock_starts :: "'w net \<Rightarrow> bool" where
  "winsock_starts net \<longleftrightarrow> ascii_kept net \<and> (\<forall>w. fst (n_set_ctrl_handler net w)) \<and> (\<forall>w. fst (n_wsa_startup net w))"

definition accepts :: "'w net \<Rightarrow> wstring \<Rightarrow> bytes option" where
  "accepts net ip = AddressStringToBinary net (map ucast ip) AF_INET"

lemma ping_main:
  assumes "winsock_starts net" and "dotted_text ip" and "app_table (cfg s)"
  shows "\<exists>s1. tr s1 = tr s \<and> statistics (cfg s1) = (0, 0, 0, 0) \<and>
    (case accepts net ip of
       None \<Rightarrow> dnsping_main net (ping_arguments net ip DNS_PING_URL) s = Some (False, s1)
     | Some a \<Rightarrow>
         if CheckEmptyBuffer a then dnsping_main net (ping_arguments net ip DNS_PING_URL) s = Some (False, s1)
         else ready net (cfg s1)
              \<and> dnsping_main net (ping_arguments net ip DNS_PING_URL) s = send_all net 3 s1)"
proof -
  obtain s0 where i: "ConfigurationInitialization net s = (True, s0)" "tr s0 = tr s"
    "cfg s0 = (cleared (cfg s))\<lparr>Statistics_Send := 4, BufferSize := 1500, Validate := True, SocketTimeout := 2000\<rparr>"
    using initialised assms(1) unfolding winsock_starts_def by metis
  define r where "r = n_string_to_addr net AF_INET (ipv4_text (map ucast ip))"
  have r: "accepts net ip = (case r of Inl _ \<Rightarrow> None | Inr a \<Rightarrow> Some a)"
    using dotted_legal [OF assms(2)] by (simp add: accepts_def AddressStringToBinary_def r_def AF_INET_def AF_INET6_def)
  have read: "ReadCommands net (ping_arguments net ip DNS_PING_URL) s0 =
      target_ipv4 net ip (map ucast ip) (set_cfg ping_options s0)"
    using assms i(3) by (intro read_ping_arguments) (simp_all add: winsock_starts_def app_table_def)
  obtain s2 where t: "target_ipv4 net ip (map ucast ip) (set_cfg ping_options s0) = (r \<in> range Inr, s2)"
      "tr s2 = tr s0"
      "\<And>a. r = Inr a \<Longrightarrow> cfg s2 = target_table (map ucast ip) a (ping_options (cfg s0))"
    using read_target [OF assms(2) _ r_def [symmetric], of "set_cfg ping_options s0"] i(3) by auto
  note main = i(1) read t(1)
  have zero: "statistics (cfg s2) = (0, 0, 0, 0)"
    using ReadCommands_reading [OF read [unfolded t(1)]] ConfigurationInitialization_fields(2) [OF i(1)]
    by (simp add: reading_def)
  show ?thesis
  proof (cases r)
    case (Inl e)
    then show ?thesis using r main i(2) t(2) zero
      by (intro exI [of _ s2]) (auto simp: dnsping_main_def)
  next
    case (Inr a)
    then have c: "cfg s2 = ping_table (map ucast ip) a (cfg s)" using t(3) i(3) by (simp add: ping_table_def)
    show ?thesis
    proof (cases "CheckEmptyBuffer a")
      case True
      then have "check_target (cfg s2) = None"
        by (simp add: c check_target_def ping_table_fields AF_INET_def AF_INET6_def)
      with True Inr r main i(2) t(2) zero show ?thesis
        by (intro exI [of _ s2]) (auto simp: dnsping_main_def)
    next
      case False
      then have m: "check_target (cfg s2) = Some (mark_port (cfg s2))"
        by (simp add: c check_target_def ping_table_fields AF_INET_def AF_INET6_def)
      define s3 where "s3 = s2\<lparr>cfg := complete_table net (mark_port (cfg s2))\<rparr>"
      have rd: "ready net (cfg s3)" using complete_ready [OF assms(3)] by (simp add: s3_def c)
      then have "dnsping_main net (ping_arguments net ip DNS_PING_URL) s = send_all net 3 s3"
        using Inr main m by (auto simp: dnsping_main_def s3_def ready_def app_table_def Let_def)
      moreover have "statistics (cfg s3) = (0, 0, 0, 0)" "tr s3 = tr s"
        using zero i(2) t(2) complete_table_fields [of net "mark_port (cfg s2)"] check_target_fields [OF m]
        by (simp_all add: s3_def)
      ultimately show ?thesis using rd Inr False r by (intro exI [of _ s3]) simp
    qed
  qed
qed

section \<open>The requests\<close>

fun packets :: "event list \<Rightarrow> bytes list" where
  "packets [] = []"
| "packets (SendPacket b # es) = b # packets es"
| "packets (_ # es) = packets es"

lemma packets_append [simp]: "packets (es @ fs) = packets es @ packets fs"
  by (induction es rule: packets.induct) simp_all

lemma make_packet_unchanged [simp]:
  "make_packet net (next_request c) = make_packet net c" "make_packet net (record_time r c) = make_packet net c"
  by (simp_all add: make_packet_def next_request_def record_time_def request_header_def own_id_def Let_def
      split: bool.split option.split)

text \<open>The requests of a ready table: each sends the same packet, a failing one is the last and is not counted.\<close>

lemma send_all_packets:
  assumes "send_all net n s = Some (ok, s')" and "\<not> socks_mode (cfg s)" and "clock_advances net clock"
    and "tally k (cfg s)" and "k + n \<le> 0x10000"
  shows "\<exists>j es. tr s' = tr s @ es \<and> packets es = replicate j (make_packet net (cfg s)) \<and> j \<le> n
    \<and> balance R_Socket es = 0
    \<and> (if ok then j = n \<and> Statistics_RealSend (cfg s') = Statistics_RealSend (cfg s) + of_nat n
       else Statistics_RecvNum (cfg s') \<noteq> Statistics_RealSend (cfg s'))"
  using assms
proof (induction n arbitrary: s k)
  case 0
  then show ?case by auto
next
  case (Suc n)
  from Suc.prems(1) obtain ok1 s1 where q: "SendProcess net (n = 0) (set_cfg next_request s) = Some (ok1, s1)"
    and r: "if ok1 then send_all net n s1 = Some (ok, s') else (ok, s') = (False, s1)"
    by (auto split: option.splits if_splits)
  from SendProcess_outcome [OF q] Suc.prems(2) obtain es where es: "tr s1 = tr s @ es"
    "request_outcome net (next_request (cfg s)) ok1 (cfg s1) es" by auto
  let ?p = "make_packet net (cfg s)"
  have one: "\<exists>i \<le> 1. packets es = replicate i ?p \<and> (ok1 \<longrightarrow> i = 1)" "balance R_Socket es = 0"
    "ok1 \<or> cfg s1 = next_request (cfg s)" "make_packet net (cfg s1) = ?p" "\<not> socks_mode (cfg s1)"
    "Statistics_RealSend (cfg s1) = Statistics_RealSend (cfg s) + 1"
    using es(2) Suc.prems(2) by (auto simp: request_outcome_def Let_def split: if_splits)
  have ks: "tally (Suc k) (cfg s1)" using tally_request [OF Suc.prems(4) _ q refl Suc.prems(3)] Suc.prems(5) by simp
  show ?case
  proof (cases ok1)
    case True
    then obtain j es' where "tr s' = tr s1 @ es'" "packets es' = replicate j ?p" "j \<le> n" "balance R_Socket es' = 0"
      "if ok then j = n \<and> Statistics_RealSend (cfg s') = Statistics_RealSend (cfg s1) + of_nat n
       else Statistics_RecvNum (cfg s') \<noteq> Statistics_RealSend (cfg s')"
      using Suc.IH [of s1 "Suc k"] r one(4,5) ks Suc.prems(3,5) by auto
    with True es(1) one(1,2,6) show ?thesis
      by (intro exI [of _ "Suc j"] exI [of _ "es @ es'"]) (auto split: if_splits)
  next
    case False
    have lt: "unat (Statistics_RecvNum (cfg s)) < unat (Statistics_RealSend (cfg s) + 1)"
      using Suc.prems(4,5) by (subst unat_Suc) (simp_all add: tally_def)
    from one(1) obtain i where "i \<le> 1" "packets es = replicate i ?p" by blast
    with False r es(1) one(2,3) lt show ?thesis
      by (intro exI [of _ i] exI [of _ es]) auto
  qed
qed

section \<open>A silent network\<close>

text \<open>A network that never answers.\<close>

definition silent :: "'w net \<Rightarrow> bool" where
  "silent net \<longleftrightarrow> (\<forall>k n w. fst (n_recv net k n w) = None)"

lemma silent_request:
  assumes "silent net" and "SendProcess net L s = Some (ok, s')"
  shows "cfg s' = cfg s"
proof -
  have "cfg s' = cfg u" if "exchange net L b u = Some (ok, s')" for b u
    using that assms(1)
    by (auto simp: exchange_def silent_def take_response_def call_beta Let_def split: if_splits option.splits
        dest!: finish_count_fields)
  with SendProcess_exchange [OF assms(2)] show ?thesis by metis
qed

lemma app_table_next_request [simp]: "app_table (next_request c) = app_table c"
  by (simp add: app_table_def next_request_def)

lemma silent_requests:
  assumes "silent net"
  shows "send_all net n s = Some (ok, s') \<Longrightarrow>
    (\<exists>k \<le> n. (0 < n \<longrightarrow> 0 < k) \<and> Statistics_RealSend (cfg s') = Statistics_RealSend (cfg s) + of_nat k)
    \<and> Statistics_RecvNum (cfg s') = Statistics_RecvNum (cfg s) \<and> app_table (cfg s') = app_table (cfg s)"
proof (induction n arbitrary: s)
  case 0
  then show ?case by auto
next
  case (Suc n)
  from Suc.prems obtain ok1 s1 where q: "SendProcess net (n = 0) (set_cfg next_request s) = Some (ok1, s1)"
    and r: "if ok1 then send_all net n s1 = Some (ok, s') else (ok, s') = (False, s1)"
    by (auto split: option.splits if_splits)
  have c: "cfg s1 = next_request (cfg s)" using silent_request [OF assms q] by simp
  show ?case
  proof (cases ok1)
    case True
    with r Suc.IH [of s1] c obtain k where "k \<le> n" "Statistics_RealSend (cfg s') = Statistics_RealSend (cfg s) + 1 + of_nat k"
      "Statistics_RecvNum (cfg s') = Statistics_RecvNum (cfg s)" "app_table (cfg s') = app_table (cfg s)" by auto
    then show ?thesis by (intro conjI exI [of _ "Suc k"]) (simp_all add: add.assoc)
  next
    case False
    with r c show ?thesis by (intro conjI exI [of _ 1]) simp_all
  qed
qed

lemma silent_ping:
  assumes "silent net" and "winsock_starts net" and "dotted_text ip" and "app_table (cfg s)"
    and "accepts net ip = Some a" and "\<not> CheckEmptyBuffer a"
    and "dns_ping net ip t s = Some (res, t', s')"
  shows "res \<noteq> result_success \<and> app_table (cfg s')"
proof -
  obtain ok u where run: "DNSPingInterface_Ping net ip DNS_PING_URL t (emit (Ping ip) s) = Some (ok, u, s')"
    and res: "res = (if ok then result_success else result_dnsping_fail)"
    using assms(7) by (rule dns_ping_run)
  have "app_table (cfg (emit (Ping ip) s))" using assms(4) by simp
  from ping_main [OF assms(2,3) this] assms(5,6) obtain s1 where
    s1: "statistics (cfg s1) = (0, 0, 0, 0)" "ready net (cfg s1)"
      "dnsping_main net (ping_arguments net ip DNS_PING_URL) (emit (Ping ip) s) = send_all net 3 s1" by auto
  obtain r where "send_all net 3 s1 = Some (r, s')"
    and ok: "ok \<longleftrightarrow> Statistics_RealSend (cfg s') = Statistics_RecvNum (cfg s')"
    using Ping_run [OF run] s1(3) by metis
  from silent_requests [OF assms(1) this(1)] s1(1,2) obtain k :: nat where
    k: "k \<le> 3" "0 < k" "Statistics_RealSend (cfg s') = of_nat k" "Statistics_RecvNum (cfg s') = 0"
       "app_table (cfg s')" by (auto simp: statistics_def ready_def)
  from k(1,2) have "k = 1 \<or> k = 2 \<or> k = 3" by auto
  with k(3,4) have "Statistics_RealSend (cfg s') \<noteq> Statistics_RecvNum (cfg s')" by auto
  with ok res k(5) show ?thesis by simp
qed

section \<open>Properties\<close>

lemma mean_between:
  assumes "mean_ok c" and "Statistics_RecvNum c \<noteq> 0"
  defines "mean \<equiv> Statistics_TotalTime c / real (unat (Statistics_RecvNum c))"
  shows "Statistics_MinTime c \<le> mean \<and> mean \<le> Statistics_MaxTime c \<and> 0 < Statistics_MinTime c"
proof -
  let ?n = "real (unat (Statistics_RecvNum c))"
  have n: "0 < ?n" using assms(2) by (simp only: of_nat_0_less_iff unat_gt_0 simp_thms)
  have nz: "(Statistics_RecvNum c = 0) = False" using assms(2) by simp
  from assms(1) [unfolded mean_ok_def Let_def nz if_False] have m: "0 < Statistics_MinTime c" "?n * Statistics_MinTime c \<le> Statistics_TotalTime c"
      "Statistics_TotalTime c \<le> ?n * Statistics_MaxTime c"
    by blast+
  have "Statistics_MinTime c \<le> mean" using m(2) n unfolding mean_def by (simp only: pos_le_divide_eq mult.commute)
  moreover have "mean \<le> Statistics_MaxTime c" using m(3) n unfolding mean_def by (simp only: pos_divide_le_eq mult.commute)
  ultimately show ?thesis using m(1) by simp
qed

lemma mean_time_between:
  assumes "mean_ok c" and "Statistics_RecvNum c \<noteq> 0"
  shows "\<exists>mean. Statistics_MinTime c \<le> mean \<and> mean \<le> Statistics_MaxTime c \<and> 0 < mean
    \<and> mean_time net c = of_int \<lfloor>mean\<rfloor>"
proof (intro exI conjI)
  let ?mean = "Statistics_TotalTime c / real (unat (Statistics_RecvNum c))"
  show "Statistics_MinTime c \<le> ?mean" "?mean \<le> Statistics_MaxTime c" "0 < ?mean"
    using mean_between [OF assms] by (blast intro: less_le_trans)+
  show "mean_time net c = of_int \<lfloor>?mean\<rfloor>" using assms(2) by (simp only: mean_time_def if_False)
qed

text \<open>What the application relies on before a ping: a working Winsock, an advancing clock and its own table.\<close>

definition ping_ready :: "'w net \<Rightarrow> ('w \<Rightarrow> int) \<Rightarrow> config \<Rightarrow> bool" where
  "ping_ready net clock c \<longleftrightarrow> winsock_starts net \<and> clock_advances net clock \<and> app_table c"

text \<open>What a ping did, from the events it added and its table afterwards.\<close>

definition ping_outcome :: "'w net \<Rightarrow> event list \<Rightarrow> config \<Rightarrow> result \<Rightarrow> u32 \<Rightarrow> bool" where
  "ping_outcome net es c res time \<longleftrightarrow>
     balance R_Socket es = 0 \<and>
     (if res = result_success
      then packets es = replicate 3 (query_packet net) \<and> Statistics_RealSend c = 3 \<and> Statistics_RecvNum c = 3
         \<and> (\<exists>mean. Statistics_MinTime c \<le> mean \<and> mean \<le> Statistics_MaxTime c \<and> 0 < mean \<and> time = of_int \<lfloor>mean\<rfloor>)
      else \<exists>j \<le> 3. packets es = replicate j (query_packet net))"

lemma Ping_outcome:
  assumes "ping_ready net clock (cfg s)" and "dotted_text ip" and "accepts net ip = Some a" "\<not> CheckEmptyBuffer a"
    and "DNSPingInterface_Ping net ip DNS_PING_URL t s = Some (ok, t', s')"
  shows "\<exists>es. tr s' = tr s @ es \<and> ping_outcome net es (cfg s') (if ok then result_success else result_dnsping_fail) t'"
proof -
  from assms(1) have net: "winsock_starts net" "clock_advances net clock" "app_table (cfg s)"
    by (simp_all add: ping_ready_def)
  from ping_main [OF net(1) assms(2) net(3)] assms(3,4) obtain s1 where
    s1: "tr s1 = tr s" "statistics (cfg s1) = (0, 0, 0, 0)" "ready net (cfg s1)"
      "dnsping_main net (ping_arguments net ip DNS_PING_URL) s = send_all net 3 s1" by auto
  obtain r where run: "send_all net 3 s1 = Some (r, s')"
    and ok: "ok \<longleftrightarrow> Statistics_RealSend (cfg s') = Statistics_RecvNum (cfg s')"
    and t': "t' = (if ok then mean_time net (cfg s') else t)"
    using Ping_run [OF assms(5)] s1(4) by metis
  have normal: "\<not> socks_mode (cfg s1)" and p: "make_packet net (cfg s1) = query_packet net"
    using s1(3) by (simp_all add: ready_def)
  have tally: "tally 3 (cfg s')" using send_all_tally [OF run net(2) tally_start [OF s1(2), of 0]] by simp
  obtain j es where es: "tr s' = tr s1 @ es" "packets es = replicate j (query_packet net)" "j \<le> 3"
      "balance R_Socket es = 0"
      "if r then j = 3 \<and> Statistics_RealSend (cfg s') = Statistics_RealSend (cfg s1) + of_nat 3
       else Statistics_RecvNum (cfg s') \<noteq> Statistics_RealSend (cfg s')"
    using send_all_packets [OF run normal net(2) tally_start [OF s1(2), of 0]] p by auto
  have "ping_outcome net es (cfg s') (if ok then result_success else result_dnsping_fail) t'"
  proof (cases ok)
    case True
    with ok es(5) have r: r by (auto split: if_splits)
    with es(5) s1(2) True ok have c: "Statistics_RealSend (cfg s') = 3" "Statistics_RecvNum (cfg s') = 3"
      by (auto simp: statistics_def)
    then have "\<exists>mean. Statistics_MinTime (cfg s') \<le> mean \<and> mean \<le> Statistics_MaxTime (cfg s') \<and> 0 < mean
        \<and> t' = of_int \<lfloor>mean\<rfloor>"
      using mean_time_between [of "cfg s'" net] tally t' True by (simp add: tally_def)
    with True r c es show ?thesis by (simp add: ping_outcome_def)
  next
    case False
    with es show ?thesis by (auto simp: ping_outcome_def)
  qed
  with es(1) s1(1) show ?thesis by auto
qed

lemma refused_ping:
  assumes "winsock_starts net" and "app_table (cfg s)" and "dotted_text ip"
    and "\<And>a. accepts net ip = Some a \<Longrightarrow> CheckEmptyBuffer a"
  shows "\<exists>s'. dns_ping net ip t s = Some (result_success, n_nan_to_uint net, s') \<and> tr s' = tr s @ [Ping ip]"
proof -
  have "app_table (cfg (emit (Ping ip) s))" using assms(2) by simp
  from ping_main [OF assms(1,3) this] obtain s1 where
    s1: "tr s1 = tr s @ [Ping ip]" "statistics (cfg s1) = (0, 0, 0, 0)"
      "dnsping_main net (ping_arguments net ip DNS_PING_URL) (emit (Ping ip) s) = Some (False, s1)"
    using assms(4) by (auto split: option.splits)
  have "length (c_str DNS_PING_URL) < 64" by (simp add: DNS_PING_URL_def c_str_def wstr_simps)
  with s1 dotted_text_simps(7,8) [OF assms(3)] show ?thesis
    by (auto simp: dns_ping_def DNSPingInterface_Ping_def statistics_def mean_time_def)
qed

text \<open>C2: A ping of a dotted address. When the system accepts the address and it is not the empty one, a ping that
  succeeds has sent the query for the address of \<open>www.qq.com\<close> exactly three times, has received three responses,
  and reports the whole milliseconds of a time between the shortest and the longest of them; one that fails has sent
  it at most three times and leaves the time of its caller alone. When the system refuses the address, or it is
  0.0.0.0, nothing is sent and the ping succeeds all the same, with the conversion of the quotient 0/0 as its time.
  Every socket is closed. Winsock starts, the performance counter advances and the table is the application's.\<close>
theorem ping_three_requests:
  assumes "ping_ready net clock (cfg s)" and "dotted_text ip" and "dns_ping net ip t s = Some (res, time, s')"
  shows "\<exists>es. tr s' = tr s @ Ping ip # es \<and> balance R_Socket es = 0
    \<and> (if \<exists>a. accepts net ip = Some a \<and> \<not> CheckEmptyBuffer a
       then ping_outcome net es (cfg s') res time \<and> (res = result_success \<or> res = result_dnsping_fail \<and> time = t)
       else es = [] \<and> res = result_success \<and> time = n_nan_to_uint net)"
proof (cases "\<exists>a. accepts net ip = Some a \<and> \<not> CheckEmptyBuffer a")
  case True
  then obtain a where a: "accepts net ip = Some a" "\<not> CheckEmptyBuffer a" by blast
  obtain ok u where run: "DNSPingInterface_Ping net ip DNS_PING_URL t (emit (Ping ip) s) = Some (ok, u, s')"
    and res: "res = (if ok then result_success else result_dnsping_fail)" and u: "time = (if ok then u else t)"
    using assms(3) by (rule dns_ping_run)
  obtain es where "tr s' = tr (emit (Ping ip) s) @ es" "ping_outcome net es (cfg s') res u"
    using Ping_outcome [OF _ assms(2) a run] assms(1) res by auto
  with res u show ?thesis unfolding if_P [OF True]
    by (intro exI [of _ es]) (auto simp: ping_outcome_def)
next
  case False
  from assms(1) have "winsock_starts net" "app_table (cfg s)" by (simp_all add: ping_ready_def)
  from refused_ping [OF this assms(2), of t] False assms(3) show ?thesis unfolding if_not_P [OF False]
    by (intro exI [of _ "[]"]) auto
qed

text \<open>A network for witnesses: the first address of the application is accepted; \<open>reply\<close> comes after 10 ms.\<close>

definition ip_8 :: wstring where
  "ip_8 = wlit ''8.8.8.8''"

lemma ip_8_dotted: "dotted_text ip_8"
  by (simp add: ip_8_def dotted_text_def wstr_simps)

lemma int_net_ready: "ping_ready (int_net reply 10) id blank_config"
proof -
  have "winsock_starts (int_net reply 10)"
    by (simp add: winsock_starts_def ascii_kept_def int_net_def)
  moreover have "app_table blank_config" by (simp add: app_table_def blank_config_def)
  ultimately show ?thesis using int_net_clock [of 10 reply] by (simp add: ping_ready_def)
qed

lemma int_net_accepts: "accepts (int_net reply 10) ip_8 = Some [8, 8, 8, 8]"
  by (simp add: accepts_def AddressStringToBinary_def ip_8_def wstr_simps int_net_def AF_INET_def AF_INET6_def
      ipv4_text_def Let_def shorten.simps fill_zeros.simps replace_first.simps)

text \<open>A response to the query of the application's process on that network: its question and one address.\<close>

definition app_reply :: bytes where
  "app_reply = [0, 7, 0x81, 0x80, 0, 1, 0, 1, 0, 0, 0, 0]
     @ [3] @ blit ''www'' @ [2] @ blit ''qq'' @ [3] @ blit ''com'' @ [0] @ [0, 1, 0, 1]
     @ [0xC0, 12, 0, 1, 0, 1, 0, 0, 0, 60, 0, 4, 1, 2, 3, 4]"

lemma app_reply_valid: "\<not> EDNS c \<Longrightarrow> valid_response c (htons 7) app_reply"
  by (simp add: valid_response_def ValidatePacket_def recv_buffer_def app_reply_def load16_def nth_append htons_def)

lemma answered_request:
  fixes s :: "(int, 'a) dnsping_st_scheme"
  assumes "ready (int_net (Some app_reply) 10) (cfg s)"
  shows "\<exists>s'. SendProcess (int_net (Some app_reply) 10) L s = Some (True, s') \<and> cfg s' = record_time 10 (cfg s)"
proof -
  let ?net = "int_net (Some app_reply) 10"
  have c: "\<not> socks_mode (cfg s)" "\<not> raw_mode (cfg s)" "own_id ?net (cfg s) = Some (htons 7)"
    "valid_response (cfg s) (htons 7) app_reply" "\<not> ShowResponse (cfg s)"
    using assms app_reply_valid [of "cfg s"] by (simp_all add: ready_def app_table_def raw_mode_def own_id_def int_net_def)
  have sent: "set_all ?net opts u = (True, u)" for opts and u :: "(int, 'a) dnsping_st_scheme"
    by (induction opts) (auto simp: call_beta int_net_def)
  have len: "DNS_PACKET_MINSIZE \<le> length app_reply" by (simp add: DNS_PACKET_MINSIZE_def app_reply_def wstr_simps)
  have e: "elapsed 1000 t (10 + t) = 10" for t
    by (simp add: elapsed_def MICROSECOND_TO_MILLISECOND_def)
  have "exchange ?net L b u = Some (count_response ?net L 10
      ((emit (SendPacket b) u)\<lparr>wd := 10 + wd u\<rparr>))" if "cfg u = cfg s"
      for b and u :: "(int, 'a) dnsping_st_scheme"
    using c that len e by (simp add: exchange_def call_beta take_response_def Let_def report_quiet int_net_def)
  then show ?thesis using c sent
    by (simp add: SendProcess_def open_sockets_def Let_def call_beta count_response_def finish_request_def int_net_def)
qed

lemma ready_counted [simp]:
  "ready net (next_request c) = ready net c" "ready net (record_time r c) = ready net c"
  by (simp_all add: ready_def app_table_def socks_mode_def) (simp_all add: next_request_def record_time_def Let_def)

lemma answered_ping:
  assumes "app_table (cfg s)"
  shows "\<exists>s'. dns_ping (int_net (Some app_reply) 10) ip_8 t s = Some (result_success, 10, s') \<and> app_table (cfg s')"
proof -
  let ?net = "int_net (Some app_reply) 10"
  have "app_table (cfg (emit (Ping ip_8) s))" using assms by simp
  moreover have "winsock_starts ?net" using int_net_ready by (simp add: ping_ready_def)
  ultimately obtain s0 where s0: "statistics (cfg s0) = (0, 0, 0, 0)" "ready ?net (cfg s0)"
      "dnsping_main ?net (ping_arguments ?net ip_8 DNS_PING_URL) (emit (Ping ip_8) s) = send_all ?net 3 s0"
    using ping_main [of ?net ip_8 "emit (Ping ip_8) s"] ip_8_dotted int_net_accepts [of "Some app_reply"]
    by (auto simp: CheckEmptyBuffer_def)
  have step: "\<exists>u'. SendProcess ?net L (set_cfg next_request u) = Some (True, u') \<and> ready ?net (cfg u')
      \<and> cfg u' = record_time 10 (next_request (cfg u))" if "ready ?net (cfg u)" for L u
    using answered_request [of "set_cfg next_request u" L] that by auto
  obtain s1 where s1: "SendProcess ?net False (set_cfg next_request s0) = Some (True, s1)" "ready ?net (cfg s1)"
      "cfg s1 = record_time 10 (next_request (cfg s0))" using step [OF s0(2)] by blast
  obtain s2 where s2: "SendProcess ?net False (set_cfg next_request s1) = Some (True, s2)" "ready ?net (cfg s2)"
      "cfg s2 = record_time 10 (next_request (cfg s1))" using step [OF s1(2)] by blast
  obtain s3 where s3: "SendProcess ?net True (set_cfg next_request s2) = Some (True, s3)" "ready ?net (cfg s3)"
      "cfg s3 = record_time 10 (next_request (cfg s2))" using step [OF s2(2)] by blast
  have all: "send_all ?net 3 s0 = Some (True, s3)"
    using s1(1) s2(1) s3(1) by (simp add: eval_nat_numeral)
  have counts: "Statistics_RealSend (cfg s3) = 3" "Statistics_RecvNum (cfg s3) = 3" "Statistics_TotalTime (cfg s3) = 30"
    using s0(1) by (simp_all add: s1(3) s2(3) s3(3) statistics_def record_time_def next_request_def Let_def)
  have "mean_time ?net (cfg s3) = 10" by (simp add: mean_time_def counts)
  moreover have "length (c_str DNS_PING_URL) < 64" by (simp add: DNS_PING_URL_def c_str_def wstr_simps)
  moreover have "app_table (cfg s3)" using s3(2) by (simp add: ready_def)
  ultimately show ?thesis using s0(3) all counts(1,2) dotted_text_simps(7,8) [OF ip_8_dotted]
    by (simp add: dns_ping_def DNSPingInterface_Ping_def)
qed

theorem ping_three_requests_witness:
  "\<exists>s' es. dns_ping (int_net (Some app_reply) 10) ip_8 0 (int_st blank_config) = Some (result_success, 10, s')
     \<and> tr s' = Ping ip_8 # es \<and> packets es = replicate 3 (query_packet (int_net (Some app_reply) 10))
     \<and> Statistics_RecvNum (cfg s') = 3"
proof -
  have "app_table (cfg (int_st blank_config))" using int_net_ready [of None] by (simp add: ping_ready_def)
  from answered_ping [OF this, of 0] obtain s' where
    run: "dns_ping (int_net (Some app_reply) 10) ip_8 0 (int_st blank_config) = Some (result_success, 10, s')" by blast
  have "\<exists>a. accepts (int_net (Some app_reply) 10) ip_8 = Some a \<and> \<not> CheckEmptyBuffer a"
    using int_net_accepts [of "Some app_reply"] by (simp add: CheckEmptyBuffer_def)
  moreover have "ping_ready (int_net (Some app_reply) 10) id (cfg (int_st blank_config))" using int_net_ready by simp
  note ping_three_requests [OF this ip_8_dotted run]
  ultimately show ?thesis using run by (auto simp: ping_outcome_def)
qed

text \<open>A refused address. When the system does not accept the text of a dotted address, or it is the empty address
  0.0.0.0, nothing is sent; no request was counted as lost, so the ping succeeds all the same, with the conversion
  of the quotient 0/0 as its time. Its program returns, whatever the clock does.\<close>
theorem refused_address_succeeds:
  assumes "winsock_starts net" and "app_table (cfg s)" and "dotted_text ip"
    and "\<And>a. accepts net ip = Some a \<Longrightarrow> CheckEmptyBuffer a"
  shows "\<exists>s'. dns_ping net ip t s = Some (result_success, n_nan_to_uint net, s') \<and> tr s' = tr s @ [Ping ip]"
  by (rule refused_ping [OF assms])

theorem refused_address_succeeds_witness:
  "\<exists>s'. dns_ping (int_net None 10) (wlit ''1.1.1.1.1'') 5 (int_st blank_config) = Some (result_success, 0, s')
     \<and> tr s' = [Ping (wlit ''1.1.1.1.1'')]"
proof -
  have "accepts (int_net None 10) (wlit ''1.1.1.1.1'') = None"
    by (simp add: accepts_def AddressStringToBinary_def wstr_simps int_net_def AF_INET_def AF_INET6_def
        ipv4_text_def Let_def shorten.simps fill_zeros.simps replace_first.simps)
  moreover have "dotted_text (wlit ''1.1.1.1.1'')" by (simp add: dotted_text_def wstr_simps)
  ultimately show ?thesis
    using refused_address_succeeds [of "int_net None 10" "int_st blank_config" "wlit ''1.1.1.1.1''" 5]
      int_net_ready [of None] by (simp add: ping_ready_def) (simp add: int_net_def)
qed

text \<open>C29: Requests are bounded. When the performance counter advances, whatever the arguments, no run has more
  responses than requests or more than 65536 requests, and when there are responses the mean of their times lies between the shortest and the longest.\<close>
theorem requests_bounded:
  assumes "dnsping_main net argv s = Some (ok, s')" and "clock_advances net clock" and "2 < length argv"
  shows "unat (Statistics_RecvNum (cfg s')) \<le> unat (Statistics_RealSend (cfg s'))
    \<and> unat (Statistics_RealSend (cfg s')) \<le> 65536
    \<and> (Statistics_RecvNum (cfg s') \<noteq> 0 \<longrightarrow>
        (\<exists>mean. Statistics_MinTime (cfg s') \<le> mean \<and> mean \<le> Statistics_MaxTime (cfg s') \<and> 0 < mean
           \<and> mean_time net (cfg s') = of_int \<lfloor>mean\<rfloor>))"
  using dnsping_main_tally [OF assms] mean_time_between [of "cfg s'" net] by (auto simp: tally_def)

text \<open>C28: The program returns. When the performance counter advances with every reception, every run of the main
  process whose arguments do not contain \<open>-show result\<close> ends, also with \<open>-t\<close>, whose counter is full at 65536
  requests. (With \<open>-show result\<close> a response can make it run forever.)\<close>
theorem main_returns:
  assumes "clock_advances net clock" and "\<not> asks_result argv"
  shows "\<exists>ok s'. dnsping_main net argv s = Some (ok, s')"
  using dnsping_main_returns [OF assms, of s] by auto

theorem main_returns_witness:
  "\<exists>ok s'. dnsping_main (int_net (Some (replicate 20 0)) 10)
     [wlit ''a.exe'', wlit ''-t'', wlit ''www.qq.com'', wlit ''8.8.8.8''] (int_st blank_config) = Some (ok, s')"
  by (rule main_returns [OF int_net_clock]) (simp_all add: asks_result_def is_option_def)

theorem requests_bounded_witness:
  "\<exists>ok s'. dnsping_main (int_net None 10) [wlit ''a.exe'', wlit ''-t'', wlit ''www.qq.com'', wlit ''8.8.8.8'']
       (int_st blank_config) = Some (ok, s')
     \<and> unat (Statistics_RealSend (cfg s')) \<le> 65536"
proof -
  let ?argv = "[wlit ''a.exe'', wlit ''-t'', wlit ''www.qq.com'', wlit ''8.8.8.8'']"
  obtain ok s' where run: "dnsping_main (int_net None 10) ?argv (int_st blank_config) = Some (ok, s')"
    using dnsping_main_returns [OF int_net_clock [of 10 None], of ?argv "int_st blank_config"]
    by (auto simp: asks_result_def is_option_def)
  with requests_bounded [OF run int_net_clock] show ?thesis by simp
qed

end
