(* ===== verification/Dnsping_Options.thy ===== *)
theory Dnsping_Options
  imports Dnsping_Process
begin

text \<open>
  What single options of DNSPing's command line do to the table: the bits of the header, the bounds of the numbers, and
  the raw data.
\<close>

section \<open>Numbers\<close>

text \<open>A 32-bit number read as a signed one.\<close>

lemma sint_u32:
  fixes r :: u32
  shows "sint r = (if unat r < 2 ^ 31 then int (unat r) else int (unat r) - 2 ^ 32)"
proof -
  define n where "n = unat r"
  have r: "- (2 ^ 31) \<le> sint r" "sint r < 2 ^ 31" using sint_ge [of r] sint_lt [of r] by simp_all
  have u: "int n = sint r mod 2 ^ 32" unfolding n_def
    by (simp only: uint_nat [symmetric] uint_sint take_bit_eq_mod) simp
  show ?thesis unfolding n_def [symmetric]
  proof (cases "0 \<le> sint r")
    case True
    with r u have "int n = sint r" by simp
    with r True show "sint r = (if n < 2 ^ 31 then int n else int n - 2 ^ 32)" by auto
  next
    case False
    then have "sint r mod 2 ^ 32 = sint r + 2 ^ 32"
      using r by (subst mod_add_self2 [symmetric], subst mod_pos_pos_trivial) simp_all
    with u r False show "sint r = (if n < 2 ^ 31 then int n else int n - 2 ^ 32)" by auto
  qed
qed

section \<open>Properties\<close>

text \<open>The flags of authenticated data and checking disabled are swapped. In a header in memory the option \<open>-ad\<close>
  turns over the bit \<open>0x10\<close> of the fourth byte, which is the protocol's CD, and \<open>-cd\<close> the bit \<open>0x20\<close>,
  which is its AD; the other options turn over the bit of their name, QR, AA, TC and RD in the third byte
  and RA in the fourth.\<close>
theorem header_bits:
  "hdr_bytes (invert_flag AD h) = (hdr_bytes h)[3 := hdr_bytes h ! 3 XOR 0x10]
    \<and> hdr_bytes (invert_flag CD h) = (hdr_bytes h)[3 := hdr_bytes h ! 3 XOR 0x20]
    \<and> hdr_bytes (invert_flag RA h) = (hdr_bytes h)[3 := hdr_bytes h ! 3 XOR 0x80]
    \<and> hdr_bytes (invert_flag QR h) = (hdr_bytes h)[2 := hdr_bytes h ! 2 XOR 0x80]
    \<and> hdr_bytes (invert_flag AA h) = (hdr_bytes h)[2 := hdr_bytes h ! 2 XOR 4]
    \<and> hdr_bytes (invert_flag TC h) = (hdr_bytes h)[2 := hdr_bytes h ! 2 XOR 2]
    \<and> hdr_bytes (invert_flag RD h) = (hdr_bytes h)[2 := hdr_bytes h ! 2 XOR 1]"
proof -
  have low: "k < 8 \<Longrightarrow> store16 (flip_bit k n) = [ucast n XOR push_bit k 1, ucast (drop_bit 8 n)]" for k and n :: u16
    unfolding store16_def list.inject
    by (intro conjI bit_word_eqI TrueI) (auto simp: bit_simps)
  have high: "k < 8 \<Longrightarrow> store16 (flip_bit (k + 8) n) = [ucast n, ucast (drop_bit 8 n) XOR push_bit k 1]" for k and n :: u16
    unfolding store16_def list.inject
    by (intro conjI bit_word_eqI TrueI) (auto simp: bit_simps)
  note bits = low [of 0] low [of 1] low [of 2] low [of 7] high [of 4] high [of 5] high [of 7]
  show ?thesis
    using bits [of "Flags h"] by (simp add: hdr_bytes_def invert_flag_def store16_def)
qed

text \<open>The timeout option. A value of \<open>-w\<close> is taken exactly when it lies between 500 and 65534 or is at least
  2 to the 31, which the two comparisons of different signedness let through; such a timeout is negative.\<close>
theorem waiting_time_accepted:
  assumes "Suc Index < length argv"
  shows "\<exists>ok s'. commands_basic argv Index (wlit ''-w'') s = Some (ok, True, s')
    \<and> (ok \<longleftrightarrow> (let n = unat (wcstoul (argv ! Suc Index)) in 500 \<le> n \<and> n < 65535 \<or> 2 ^ 31 \<le> n))
    \<and> (ok \<longrightarrow> SocketTimeout (cfg s') = wcstoul (argv ! Suc Index))
    \<and> (2 ^ 31 \<le> unat (wcstoul (argv ! Suc Index)) \<longrightarrow> sint (SocketTimeout (cfg s')) < 0)"
proof -
  let ?v = "wcstoul (argv ! Suc Index)"
  define ok where "ok \<longleftrightarrow> TIME_OUT_MIN \<le> unat ?v \<and> sint ?v < 0xFFFF"
  have run: "commands_basic argv Index (wlit ''-w'') s =
      Some (ok, True, if ok then set_cfg (\<lambda>c. c\<lparr>SocketTimeout := ?v\<rparr>) s else s)"
    using assms by (simp add: commands_basic_def is_option_def value_option_def number_value_def ok_def Let_def wstr_simps)
  define n where "n = unat ?v"
  have n: "n < 2 ^ 32" unfolding n_def using unsigned_less [where 'a = nat and w = ?v] by simp
  have s: "sint ?v = (if n < 2 ^ 31 then int n else int n - 2 ^ 32)" unfolding n_def by (rule sint_u32)
  have ok: "ok \<longleftrightarrow> 500 \<le> n \<and> sint ?v < 0xFFFF" by (simp add: ok_def n_def TIME_OUT_MIN_def)
  have "ok \<longleftrightarrow> (let n = unat ?v in 500 \<le> n \<and> n < 65535 \<or> 2 ^ 31 \<le> n)"
    unfolding n_def [symmetric] ok s using n by (auto simp: Let_def)
  moreover have "2 ^ 31 \<le> unat ?v \<Longrightarrow> ok \<and> sint ?v < 0"
    unfolding n_def [symmetric] ok s using n by auto
  ultimately show ?thesis using run by (auto simp: set_cfg_def)
qed

theorem waiting_time_accepted_witness:
  "\<exists>s'. commands_basic [wlit ''a.exe'', wlit ''-w'', wlit ''4294967295''] 1 (wlit ''-w'')
      (int_st blank_config) = Some (True, True, s')
    \<and> sint (SocketTimeout (cfg s')) < 0"
proof -
  let ?argv = "[wlit ''a.exe'', wlit ''-w'', wlit ''4294967295'']"
  have v: "wcstoul (?argv ! Suc 1) = 4294967295"
    by (simp add: wcstoul_def strtoul_def number_prefix_def digit_value_def is_space_def wstr_simps)
  from waiting_time_accepted [of 1 ?argv "int_st blank_config"] show ?thesis unfolding v by auto
qed

text \<open>Two digits of raw data.\<close>

lemma raw_bytes_ones:
  "raw_bytes (concat (replicate n [49, 49])) c = (ok, c') \<Longrightarrow> ok \<and> RawDataLen c' = RawDataLen c + n"
proof (induction n arbitrary: c)
  case 0
  then show ?case by simp
next
  case (Suc n)
  have "strtoul [48, 120, 49, 49] = 17"
    by (simp add: strtoul_def number_prefix_def digit_value_def is_space_def)
  with Suc.prems have "raw_bytes (concat (replicate n [49, 49]))
      (c\<lparr>RawData := map_option (\<lambda>d. d[RawDataLen c := 17]) (RawData c), RawDataLen := RawDataLen c + 1\<rparr>) = (ok, c')"
    by (simp add: upto8_def Let_def)
  from Suc.IH [OF this] show ?case by simp
qed

lemma raw_bytes_size:
  "raw_bytes ds c = (ok, c') \<Longrightarrow> (\<exists>d. RawData c = Some d \<and> length d = k) \<Longrightarrow> \<exists>d. RawData c' = Some d \<and> length d = k"
proof (induction ds c arbitrary: ok c' rule: raw_bytes.induct)
  case (1 c)
  then show ?case by simp
next
  case (2 a rest c)
  from "2.prems"(2) obtain d where "RawData c = Some d" "length d = k" by blast
  with 2 show ?case by (fastforce simp: Let_def split: if_splits)
qed

text \<open>Raw data is not bounded. The check of its length can never fail, so digits of any number of bytes are
  accepted and counted, also more than the buffer of \<open>PACKET_MAXSIZE\<close> bytes has; a byte of two zeros is refused.\<close>
theorem raw_data_unbounded:
  assumes "n_to_acp net p = concat (replicate n [49, 49])" and "RawDataLen (cfg s) = 0"
  shows "\<exists>s'. read_rawdata net p s = (True, s') \<and> RawDataLen (cfg s') = n
    \<and> (\<exists>d. RawData (cfg s') = Some d \<and> length d = PACKET_MAXSIZE)
    \<and> fst (raw_bytes ([48, 48] @ rest) (cfg s)) = False"
proof -
  let ?c = "(cfg s)\<lparr>RawData := Some (replicate PACKET_MAXSIZE 0)\<rparr>"
  obtain ok c' where run: "raw_bytes (concat (replicate n [49, 49])) ?c = (ok, c')" by (metis surj_pair)
  have "fst (raw_bytes ([48, 48] @ rest) (cfg s)) = False"
    by (simp add: strtoul_def number_prefix_def digit_value_def is_space_def upto8_def Let_def)
  moreover have "read_rawdata net p s = (ok, s\<lparr>cfg := c'\<rparr>)"
  proof -
    have never: "(length b < PACKET_MINSIZE \<and> length b > PACKET_MAXSIZE) = False" for b :: bytes
      by (simp add: PACKET_MINSIZE_def PACKET_MAXSIZE_def)
    show ?thesis unfolding read_rawdata_def Let_def never if_False assms(1) run by simp
  qed
  moreover have "\<exists>d. RawData c' = Some d \<and> length d = PACKET_MAXSIZE"
    using raw_bytes_size [OF run, of PACKET_MAXSIZE] by simp
  ultimately show ?thesis using raw_bytes_ones [OF run] assms(2) by simp
qed

theorem raw_data_unbounded_witness:
  "\<exists>s'. read_rawdata (int_net None 10) (concat (replicate 1600 [49, 49])) (int_st blank_config) = (True, s')
     \<and> RawDataLen (cfg s') = 1600"
proof -
  have "n_to_acp (int_net None 10) (concat (replicate n [49, 49])) = concat (replicate n [49, 49])" for n
    by (simp add: int_net_def map_concat)
  moreover have "RawDataLen (cfg (int_st blank_config)) = 0" by (simp add: blank_config_def cleared_def)
  ultimately have "\<exists>s'. read_rawdata (int_net None 10) (concat (replicate 1600 [49, 49])) (int_st blank_config) = (True, s')
      \<and> RawDataLen (cfg s') = 1600 \<and> (\<exists>d. RawData (cfg s') = Some d \<and> length d = PACKET_MAXSIZE)
      \<and> fst (raw_bytes ([48, 48] @ []) (cfg (int_st blank_config))) = False"
    by (rule raw_data_unbounded)
  then show ?thesis by blast
qed

end
