(* ===== verification/Ui.thy ===== *)
theory Ui
  imports Selector Util
begin

text \<open>
  \<open>ui.cpp\<close> and the part of the list control of duilib (\<open>UIList.cpp\<close>) that decides which row is
  selected. The window runs in one thread: it takes posted tasks (closures in the code, values of
  \<open>task\<close> here) from the queue of the window before it takes input. Every operation of the user runs
  in a detached thread (a \<open>worker\<close>), which only posts tasks; what the selector answers it is left open,
  so the facts hold for every \<open>ui_notifyer\<close>. A step is one task, one input or one action of a worker.
\<close>

section \<open>The list control\<close>

type_synonym item = nat

text \<open>
  A list of the window with what \<open>ui\<close> keeps for it: the rows, the index of the selected one (\<open>-1\<close> for
  none), the colours of the items, the original colour, the last clicked item, and the map from items
  to what a switch needs.
\<close>

record ('r, 'k) list_view =
  rows :: "(item \<times> 'r) list"
  cur_sel :: int
  bk_color :: "item \<Rightarrow> u32"
  orgin_color :: u32
  last_selected :: "item option"
  item_map :: "item \<rightharpoonup> 'k"

text \<open>\<open>CListUI::SelectItem\<close>; the rows of the program are always visible and enabled.\<close>

definition SelectItem :: "int \<Rightarrow> ('r, 'k) list_view \<Rightarrow> ('r, 'k) list_view" where
  "SelectItem i v =
     (if i = cur_sel v then v
      else if i < 0 then v\<lparr>cur_sel := -1\<rparr>
      else if nat i \<ge> length (rows v) then v\<lparr>cur_sel := -1\<rparr>
      else v\<lparr>cur_sel := i\<rparr>)"

text \<open>\<open>CListUI::RemoveAll\<close>, \<open>CListUI::Add\<close>, \<open>CListUI::GetItemIndex\<close>, \<open>CContainerUI::FindSelectable\<close>.\<close>

definition RemoveAll :: "('r, 'k) list_view \<Rightarrow> ('r, 'k) list_view" where
  "RemoveAll v = v\<lparr>cur_sel := -1, rows := []\<rparr>"

definition Add :: "item \<times> 'r \<Rightarrow> ('r, 'k) list_view \<Rightarrow> ('r, 'k) list_view" where
  "Add row v = v\<lparr>rows := rows v @ [row]\<rparr>"

fun index_from :: "item \<Rightarrow> (item \<times> 'r) list \<Rightarrow> int \<Rightarrow> int" where
  "index_from p [] n = -1"
| "index_from p (row # rest) n = (if fst row = p then n else index_from p rest (n + 1))"

definition GetItemIndex :: "item \<Rightarrow> ('r, 'k) list_view \<Rightarrow> int" where
  "GetItemIndex p v = index_from p (rows v) 0"

definition FindSelectable :: "int \<Rightarrow> ('r, 'k) list_view \<Rightarrow> int" where
  "FindSelectable i v =
     (if rows v = [] then -1 else max 0 (min i (int (length (rows v)) - 1)))"

text \<open>
  The keys of \<open>CListUI::DoEvent\<close>. No case of its switch ends with a \<open>break\<close>: a key runs its own case
  and every later one. Paging and activation do not select.
\<close>

datatype list_key = VK_UP | VK_DOWN | VK_PRIOR | VK_NEXT | VK_HOME | VK_END | VK_RETURN

fun key_case :: "list_key \<Rightarrow> ('r, 'k) list_view \<Rightarrow> ('r, 'k) list_view" where
  "key_case VK_UP v = SelectItem (FindSelectable (cur_sel v - 1) v) v"
| "key_case VK_DOWN v = SelectItem (FindSelectable (cur_sel v + 1) v) v"
| "key_case VK_PRIOR v = v"
| "key_case VK_NEXT v = v"
| "key_case VK_HOME v = SelectItem (FindSelectable 0 v) v"
| "key_case VK_END v = SelectItem (FindSelectable (int (length (rows v)) - 1) v) v"
| "key_case VK_RETURN v = v"

definition key_down :: "list_key \<Rightarrow> ('r, 'k) list_view \<Rightarrow> ('r, 'k) list_view" where
  "key_down k v =
     fold key_case (dropWhile (\<lambda>c. c \<noteq> k) [VK_UP, VK_DOWN, VK_PRIOR, VK_NEXT, VK_HOME, VK_END, VK_RETURN]) v"

section \<open>The operations of ui on a list\<close>

text \<open>The colour of a row as its resource file builds it, and the value for no colour yet.\<close>

definition ITEM_BK_COLOR :: u32 where
  "ITEM_BK_COLOR = 0xFFD7AD69"

definition no_color :: u32 where
  "no_color = 0xFFFFFFFF"

text \<open>The first lines of \<open>OnFreshenAdapterInfo\<close> and \<open>OnFreshenDNSInfo\<close>.\<close>

definition clear_list :: "('r, 'k) list_view \<Rightarrow> ('r, 'k) list_view" where
  "clear_list v = (RemoveAll (v\<lparr>last_selected := None, orgin_color := no_color\<rparr>))\<lparr>item_map := Map.empty\<rparr>"

text \<open>One turn of the loops that fill a list, with the item \<open>p\<close> that the builder creates.\<close>

definition add_row :: "item \<Rightarrow> 'r \<Rightarrow> 'k \<Rightarrow> ('r, 'k) list_view \<Rightarrow> ('r, 'k) list_view" where
  "add_row p info key v =
     (let v = v\<lparr>bk_color := (bk_color v)(p := ITEM_BK_COLOR)\<rparr>;
          v = (if orgin_color v = no_color then v\<lparr>orgin_color := bk_color v p\<rparr> else v);
          v = Add (p, info) v
      in v\<lparr>item_map := (item_map v)(p \<mapsto> key)\<rparr>)"

text \<open>One of the two blocks of \<open>OnItemClick\<close>.\<close>

definition click_row :: "item \<Rightarrow> ('r, 'k) list_view \<Rightarrow> ('r, 'k) list_view" where
  "click_row p v =
     (case item_map v p of
        None \<Rightarrow> v
      | Some _ \<Rightarrow>
          let v = (case last_selected v of
                     None \<Rightarrow> v
                   | Some l \<Rightarrow> v\<lparr>bk_color := (bk_color v)(l := orgin_color v)\<rparr>);
              v = v\<lparr>bk_color := (bk_color v)(p := LIST_ITEM_SELECTED_COLOR), last_selected := Some p\<rparr>
          in SelectItem (GetItemIndex p v) v)"

section \<open>The window\<close>

datatype task =
    T_Log u32 message
  | T_ShowAd bool
  | T_Navigate bytes
  | T_Enable bool
  | T_FillAdapters freshen_adapter_info_result_data
  | T_FillDns freshen_dns_info_result_data

datatype worker =
    W_Init | W_Auto | W_FreshenAdapter | W_FreshenDns
  | W_Switch u32 wstring  \<comment> \<open>the index of the adapter and the address\<close>

record ui =
  auto_done_btn :: bool
  freshen_adapter_btn :: bool
  freshen_dns_btn :: bool
  switch_adapter_dns_btn :: bool
  professional_view :: bool
  client_height :: nat
  ad_shown :: bool
  ad_url :: bytes
  log_list :: "(u32 \<times> message) list"
  dns_info_list :: "(ui_dns_info, wstring) list_view"
  adapter_info_list :: "(ui_adapter_info, u32) list_view"
  next_item :: item
  tasks :: "task list"
  workers :: "worker list"
  closed :: bool

definition post_call :: "task \<Rightarrow> ui \<Rightarrow> ui" where
  "post_call t u = u\<lparr>tasks := tasks u @ [t]\<rparr>"

definition EnableUserOperation :: "bool \<Rightarrow> ui \<Rightarrow> ui" where
  "EnableUserOperation b = post_call (T_Enable b)"

definition ui_showlog :: "message \<Rightarrow> ui \<Rightarrow> ui" where
  "ui_showlog m = post_call (T_Log UI_MSG_TEXT_COLOR m)"

definition ui_showwarning :: "message \<Rightarrow> ui \<Rightarrow> ui" where
  "ui_showwarning m = post_call (T_Log UI_WARNING_TEXT_COLOR m)"

definition ui_showerror :: "message \<Rightarrow> ui \<Rightarrow> ui" where
  "ui_showerror m = post_call (T_Log UI_ERROR_TEXT_COLOR m)"

definition show_ad :: "bool \<Rightarrow> ui \<Rightarrow> ui" where
  "show_ad b = post_call (T_ShowAd b)"

definition navigate :: "bytes \<Rightarrow> ui \<Rightarrow> ui" where
  "navigate url = post_call (T_Navigate url)"

text \<open>\<open>std::thread(...).detach()\<close>.\<close>

definition detach :: "worker \<Rightarrow> ui \<Rightarrow> ui" where
  "detach w u = u\<lparr>workers := workers u @ [w]\<rparr>"

text \<open>What the components of the program show reaches the window through the singleton \<open>ui\<close>.\<close>

fun shown :: "event \<Rightarrow> ui \<Rightarrow> ui" where
  "shown (Showlog m) u = ui_showlog m u"
| "shown (Showwarning m) u = ui_showwarning m u"
| "shown (Showerror m) u = ui_showerror m u"
| "shown (ShowAd b) u = show_ad b u"
| "shown (Navigate url) u = navigate url u"
| "shown _ u = u"

text \<open>\<open>InitWindow\<close> on a window as the resource file builds it.\<close>

definition empty_view :: "('r, 'k) list_view" where
  "empty_view = \<lparr>rows = [], cur_sel = -1, bk_color = \<lambda>_. no_color, orgin_color = no_color,
                 last_selected = None, item_map = Map.empty\<rparr>"

definition built :: ui where
  "built = \<lparr>auto_done_btn = True, freshen_adapter_btn = True, freshen_dns_btn = True,
            switch_adapter_dns_btn = True, professional_view = False,
            client_height = UI_MAIN_FRAME_MIN_HEIGHT, ad_shown = False, ad_url = [], log_list = [],
            dns_info_list = empty_view, adapter_info_list = empty_view, next_item = 0,
            tasks = [], workers = [], closed = False\<rparr>"

definition InitWindow :: "ui \<Rightarrow> ui" where
  "InitWindow u = detach W_Init (EnableUserOperation False (u\<lparr>ad_shown := True, ad_url := blit ''about:blank''\<rparr>))"

section \<open>The handlers\<close>

definition OnAutoDone :: "ui \<Rightarrow> ui" where
  "OnAutoDone u = detach W_Auto (EnableUserOperation False u)"

definition OnFreshenAdapterInfo :: "ui \<Rightarrow> ui" where
  "OnFreshenAdapterInfo u =
     detach W_FreshenAdapter (EnableUserOperation False
       (u\<lparr>adapter_info_list := clear_list (adapter_info_list u)\<rparr>))"

definition OnFreshenDNSInfo :: "ui \<Rightarrow> ui" where
  "OnFreshenDNSInfo u =
     detach W_FreshenDns (EnableUserOperation False (u\<lparr>dns_info_list := clear_list (dns_info_list u)\<rparr>))"

definition OnSwitchAdapter :: "ui \<Rightarrow> ui" where
  "OnSwitchAdapter u =
     (let a = adapter_info_list u; d = dns_info_list u
      in if cur_sel a = -1 then ui_showwarning (MsgUi PickAdapter) u
         else if cur_sel d = -1 then ui_showwarning (MsgUi PickDns) u
         else case item_map a (fst (rows a ! nat (cur_sel a))) of
           None \<Rightarrow> ui_showerror (MsgUi AdapterMissing) u
         | Some index \<Rightarrow>
             (case item_map d (fst (rows d ! nat (cur_sel d))) of
                None \<Rightarrow> ui_showerror (MsgUi DnsMissing) u
              | Some str_ip \<Rightarrow> detach (W_Switch index str_ip) (EnableUserOperation False u)))"

definition OnItemClick :: "item \<Rightarrow> ui \<Rightarrow> ui" where
  "OnItemClick p u =
     (let u = u\<lparr>dns_info_list := click_row p (dns_info_list u)\<rparr>
      in u\<lparr>adapter_info_list := click_row p (adapter_info_list u)\<rparr>)"

text \<open>\<open>OnKeyDown\<close> with Control and F5 down.\<close>

definition OnKeyDown :: "ui \<Rightarrow> ui" where
  "OnKeyDown u =
     (if professional_view u
      then (show_ad False u)\<lparr>client_height := UI_MAIN_FRAME_MIN_HEIGHT, professional_view := False\<rparr>
      else u\<lparr>client_height := UI_MAIN_FRAME_MAX_HEIGHT, professional_view := True\<rparr>)"

text \<open>The bodies of the posted closures.\<close>

definition fill_adapter :: "ui_adapter_info \<Rightarrow> ui \<Rightarrow> ui" where
  "fill_adapter info u =
     u\<lparr>adapter_info_list := add_row (next_item u) info (ua_id info) (adapter_info_list u),
       next_item := next_item u + 1\<rparr>"

definition fill_dns :: "ui_dns_info \<Rightarrow> ui \<Rightarrow> ui" where
  "fill_dns info u =
     u\<lparr>dns_info_list := add_row (next_item u) info (ud_vip info) (dns_info_list u),
       next_item := next_item u + 1\<rparr>"

fun run_task :: "task \<Rightarrow> ui \<Rightarrow> ui" where
  "run_task (T_Log c m) u = u\<lparr>log_list := log_list u @ [(c, m)]\<rparr>"
| "run_task (T_ShowAd b) u = u\<lparr>ad_shown := b\<rparr>"
| "run_task (T_Navigate url) u = u\<lparr>ad_url := url\<rparr>"
| "run_task (T_Enable b) u =
     u\<lparr>auto_done_btn := b, freshen_adapter_btn := b, freshen_dns_btn := b, switch_adapter_dns_btn := b\<rparr>"
| "run_task (T_FillAdapters res_data) u =
     EnableUserOperation True (fold fill_adapter (fa_adapter_info res_data)
       (ui_showlog (MsgUi (FreshenAdapterTook (fa_freshen_take_time res_data))) u))"
| "run_task (T_FillDns res_data) u =
     EnableUserOperation True (fold fill_dns (fd_ip_dns_info res_data)
       (ui_showlog (MsgUi (FreshenDnsTook (fd_freshen_take_time res_data))) u))"

text \<open>What a worker does with the answer of the selector, at the end of its thread.\<close>

datatype answer =
    A_Init result
  | A_Auto result wstring
  | A_Adapters result freshen_adapter_info_result_data
  | A_Dns result freshen_dns_info_result_data
  | A_Switch result

fun finish :: "worker \<Rightarrow> answer \<Rightarrow> ui \<Rightarrow> ui option" where
  "finish W_Init (A_Init res) u =
     Some (if res = result_success then EnableUserOperation True u
           else ui_showerror (MsgUi (InitFailed (result_string res))) u)"
| "finish W_Auto (A_Auto res take_time) u =
     Some (EnableUserOperation True
       (if res = result_success then ui_showlog (MsgUi (AutoDone take_time)) u
        else ui_showerror (MsgUi (AutoFailed (result_string res))) u))"
| "finish W_FreshenAdapter (A_Adapters res res_data) u =
     Some (if res \<noteq> result_success
           then EnableUserOperation True (ui_showerror (MsgUi (FreshenAdapterFailed (result_string res))) u)
           else post_call (T_FillAdapters res_data) u)"
| "finish W_FreshenDns (A_Dns res res_data) u =
     Some (if res \<noteq> result_success
           then EnableUserOperation True (ui_showerror (MsgUi (FreshenDnsFailed (result_string res))) u)
           else post_call (T_FillDns res_data) u)"
| "finish (W_Switch index str_ip) (A_Switch res) u =
     Some (EnableUserOperation True
       (if res = result_success then ui_showlog (MsgUi SwitchDone) (OnFreshenAdapterInfo u)
        else ui_showerror (MsgUi (SwitchFailed (result_string res))) u))"
| "finish _ _ _ = None"

section \<open>Steps\<close>

datatype ui_event =
    Pump                   \<comment> \<open>\<open>MessageHandler\<close> runs the next task\<close>
  | ClickAutoDone | ClickFreshenAdapter | ClickFreshenDns | ClickSwitch | ClickExit
  | ClickItem item
  | KeyAdapter list_key | KeyDns list_key
  | KeyCtrlF5
  | Says nat event         \<comment> \<open>a worker shows something\<close>
  | Answers nat answer     \<comment> \<open>the selector answers a worker\<close>

definition is_row :: "item \<Rightarrow> ui \<Rightarrow> bool" where
  "is_row p u \<longleftrightarrow> p \<in> fst ` set (rows (dns_info_list u)) \<or> p \<in> fst ` set (rows (adapter_info_list u))"

text \<open>
  \<open>OnClick\<close> and the other handlers under the conditions under which the window calls them: input is
  taken when no task is waiting, a disabled button is not clicked, and the professional view is there.
\<close>

definition provided :: "bool \<Rightarrow> ui \<Rightarrow> ui option" where
  "provided b u = (if b then Some u else None)"

fun input :: "ui_event \<Rightarrow> ui \<Rightarrow> ui option" where
  "input ClickAutoDone u = provided (auto_done_btn u) (OnAutoDone (show_ad False u))"
| "input ClickFreshenAdapter u = provided (professional_view u \<and> freshen_adapter_btn u) (OnFreshenAdapterInfo u)"
| "input ClickFreshenDns u = provided (professional_view u \<and> freshen_dns_btn u) (OnFreshenDNSInfo u)"
| "input ClickSwitch u = provided (professional_view u \<and> switch_adapter_dns_btn u) (OnSwitchAdapter u)"
| "input ClickExit u = Some (u\<lparr>closed := True\<rparr>)"
| "input (ClickItem p) u = provided (professional_view u \<and> is_row p u) (OnItemClick p u)"
| "input (KeyAdapter k) u = Some (u\<lparr>adapter_info_list := key_down k (adapter_info_list u)\<rparr>)"
| "input (KeyDns k) u = Some (u\<lparr>dns_info_list := key_down k (dns_info_list u)\<rparr>)"
| "input KeyCtrlF5 u = Some (OnKeyDown u)"
| "input _ u = None"

fun ui_step :: "ui_event \<Rightarrow> ui \<Rightarrow> ui option" where
  "ui_step Pump u =
     (case tasks u of [] \<Rightarrow> None | t # ts \<Rightarrow> provided (\<not> closed u) (run_task t (u\<lparr>tasks := ts\<rparr>)))"
| "ui_step (Says i e) u = provided (\<not> closed u \<and> i < length (workers u)) (shown e u)"
| "ui_step (Answers i a) u =
     (if closed u \<or> length (workers u) \<le> i then None
      else finish (workers u ! i) a (u\<lparr>workers := take i (workers u) @ drop (i + 1) (workers u)\<rparr>))"
| "ui_step e u = (if closed u \<or> tasks u \<noteq> [] then None else input e u)"

fun ui_run :: "ui_event list \<Rightarrow> ui \<Rightarrow> ui option" where
  "ui_run [] u = Some u"
| "ui_run (e # es) u = (case ui_step e u of None \<Rightarrow> None | Some u' \<Rightarrow> ui_run es u')"

text \<open>The window after \<open>InitWindow\<close>, and everything that can follow.\<close>

inductive ui_reach :: "ui \<Rightarrow> bool" where
  start: "ui_reach (InitWindow built)"
| step: "ui_reach u \<Longrightarrow> ui_step e u = Some u' \<Longrightarrow> ui_reach u'"

text \<open>The runs in which no switch of the servers has succeeded.\<close>

fun switched :: "ui_event \<Rightarrow> bool" where
  "switched (Answers i (A_Switch res)) = (res = result_success)"
| "switched _ = False"

inductive ui_reach_plain :: "ui \<Rightarrow> bool" where
  start: "ui_reach_plain (InitWindow built)"
| step: "ui_reach_plain u \<Longrightarrow> ui_step e u = Some u' \<Longrightarrow> \<not> switched e \<Longrightarrow> ui_reach_plain u'"


section \<open>The lists stay consistent\<close>

text \<open>
  The rows are distinct items, the map holds what each row shows, the selection is a row, and exactly the
  last clicked row has the colour of a selection.
\<close>

definition lv_ok :: "('r \<Rightarrow> 'k) \<Rightarrow> nat \<Rightarrow> ('r, 'k) list_view \<Rightarrow> bool" where
  "lv_ok key n v \<longleftrightarrow>
     distinct (map fst (rows v)) \<and> (\<forall>p \<in> fst ` set (rows v). p < n)
     \<and> item_map v = map_of (map (\<lambda>(p, r). (p, key r)) (rows v))
     \<and> -1 \<le> cur_sel v \<and> cur_sel v < int (length (rows v))
     \<and> orgin_color v = (if rows v = [] then no_color else ITEM_BK_COLOR)
     \<and> (\<forall>l. last_selected v = Some l \<longrightarrow> l \<in> fst ` set (rows v))
     \<and> (\<forall>p \<in> fst ` set (rows v).
           bk_color v p = (if last_selected v = Some p then LIST_ITEM_SELECTED_COLOR else ITEM_BK_COLOR))"

lemma lv_ok_empty [simp]: "lv_ok key n empty_view"
  by (simp add: lv_ok_def empty_view_def)

lemma lv_ok_clear [simp]: "lv_ok key n (clear_list v)"
  by (simp add: lv_ok_def clear_list_def RemoveAll_def)

lemma lv_ok_mono: "lv_ok key n v \<Longrightarrow> n \<le> m \<Longrightarrow> lv_ok key m v"
  unfolding lv_ok_def by (meson less_le_trans)

lemma no_color_item: "no_color \<noteq> ITEM_BK_COLOR" "ITEM_BK_COLOR \<noteq> no_color"
  by (simp_all add: no_color_def ITEM_BK_COLOR_def)

lemma map_fst_keyed [simp]: "map fst (map (\<lambda>(p, r). (p, key r)) xs) = map fst xs"
  by (induction xs) auto

lemma dom_keyed: "dom (map_of (map (\<lambda>(p, r). (p, key r)) xs)) = fst ` set xs"
  by (metis dom_map_of_conv_image_fst list.set_map map_fst_keyed)

lemma lv_ok_add:
  assumes "lv_ok key n v"
  shows "lv_ok key (Suc n) (add_row n info (key info) v)"
proof -
  have n: "n \<notin> fst ` set (rows v)" using assms by (auto simp: lv_ok_def)
  have "map_of (map (\<lambda>(p, r). (p, key r)) (rows v @ [(n, info)])) =
      (map_of (map (\<lambda>(p, r). (p, key r)) (rows v)))(n \<mapsto> key info)"
  proof -
    have "n \<notin> dom (map_of (map (\<lambda>(p, r). (p, key r)) (rows v)))"
      unfolding dom_keyed by (rule n)
    then show ?thesis by (auto simp: map_add_def fun_eq_iff split: option.splits)
  qed
  with assms n show ?thesis
    unfolding lv_ok_def add_row_def Let_def Add_def
    by (auto simp: no_color_item less_Suc_eq)
qed

lemma SelectItem_simps [simp]:
  "rows (SelectItem i v) = rows v" "bk_color (SelectItem i v) = bk_color v"
  "orgin_color (SelectItem i v) = orgin_color v" "last_selected (SelectItem i v) = last_selected v"
  "item_map (SelectItem i v) = item_map v"
  by (simp_all add: SelectItem_def)

lemma lv_ok_select: "lv_ok key n v \<Longrightarrow> lv_ok key n (SelectItem i v)"
  unfolding lv_ok_def by (auto simp: SelectItem_def)

lemma lv_ok_key_case: "lv_ok key n v \<Longrightarrow> lv_ok key n (key_case k v)"
  by (cases k) (simp_all add: lv_ok_select)

lemma fold_keeps: "P v \<Longrightarrow> (\<And>x v. P v \<Longrightarrow> P (f x v)) \<Longrightarrow> P (fold f xs v)"
  by (induction xs arbitrary: v) simp_all

lemma lv_ok_key: "lv_ok key n v \<Longrightarrow> lv_ok key n (key_down k v)"
  unfolding key_down_def by (rule fold_keeps) (auto intro: lv_ok_key_case)

lemma item_map_ok:
  assumes "lv_ok key n v"
  shows "item_map v p = Some k \<longleftrightarrow> (\<exists>r. (p, r) \<in> set (rows v) \<and> k = key r)"
proof -
  have d: "distinct (map fst (map (\<lambda>(p, r). (p, key r)) (rows v)))"
    unfolding map_fst_keyed using assms by (simp add: lv_ok_def)
  have "item_map v = map_of (map (\<lambda>(p, r). (p, key r)) (rows v))" using assms by (simp add: lv_ok_def)
  then show ?thesis by (auto simp: map_of_eq_Some_iff [OF d])
qed

lemma index_from_found:
  "p \<in> fst ` set rs \<Longrightarrow>
     n \<le> index_from p rs n \<and> nat (index_from p rs n - n) < length rs \<and> fst (rs ! nat (index_from p rs n - n)) = p"
proof (induction rs arbitrary: n)
  case (Cons r rs)
  show ?case
  proof (cases "fst r = p")
    case False
    then have "nat (index_from p rs (n + 1) - n) = Suc (nat (index_from p rs (n + 1) - (n + 1)))"
      "n + 1 \<le> index_from p rs (n + 1)"
      using Cons.IH [of "n + 1"] Cons.prems by auto
    then show ?thesis using False Cons.IH [of "n + 1"] Cons.prems by auto
  qed simp
qed simp

lemma lv_ok_click:
  assumes "lv_ok key n v" shows "lv_ok key n (click_row p v)"
proof (cases "item_map v p")
  case None
  then show ?thesis using assms by (simp add: click_row_def)
next
  case (Some k)
  then obtain r where r: "(p, r) \<in> set (rows v)" using item_map_ok [OF assms] by blast
  then have ne: "rows v \<noteq> []" and p: "p \<in> fst ` set (rows v)" by force+
  define v1 where "v1 = (case last_selected v of
                     None \<Rightarrow> v
                   | Some l \<Rightarrow> v\<lparr>bk_color := (bk_color v)(l := orgin_color v)\<rparr>)"
  define v2 where "v2 = v1\<lparr>bk_color := (bk_color v1)(p := LIST_ITEM_SELECTED_COLOR), last_selected := Some p\<rparr>"
  have "lv_ok key n v2"
    using assms ne p unfolding lv_ok_def v2_def v1_def by (auto split: option.splits)
  then show ?thesis
    using Some by (simp add: click_row_def Let_def lv_ok_select flip: v1_def v2_def)
qed


lemma rows_key_case [simp]: "rows (key_case c v) = rows v"
  by (cases c) simp_all

lemma rows_key_down [simp]: "rows (key_down c v) = rows v"
  unfolding key_down_def by (rule fold_keeps [where P = "\<lambda>w. rows w = rows v"]) simp_all

lemma rows_simps [simp]:
  "rows (clear_list v) = []" "rows (add_row p info k v) = rows v @ [(p, info)]"
  "rows (click_row p v) = rows v" "rows empty_view = []"
  by (simp_all add: clear_list_def RemoveAll_def add_row_def Add_def click_row_def empty_view_def Let_def
      split: option.split)

section \<open>The window stays consistent\<close>

definition ui_ok :: "ui \<Rightarrow> bool" where
  "ui_ok u \<longleftrightarrow>
     lv_ok ud_vip (next_item u) (dns_info_list u) \<and> lv_ok ua_id (next_item u) (adapter_info_list u)
     \<and> fst ` set (rows (dns_info_list u)) \<inter> fst ` set (rows (adapter_info_list u)) = {}
     \<and> freshen_adapter_btn u = auto_done_btn u \<and> freshen_dns_btn u = auto_done_btn u
     \<and> switch_adapter_dns_btn u = auto_done_btn u
     \<and> client_height u = (if professional_view u then UI_MAIN_FRAME_MAX_HEIGHT else UI_MAIN_FRAME_MIN_HEIGHT)"

lemmas post_defs = EnableUserOperation_def ui_showlog_def ui_showwarning_def ui_showerror_def
  show_ad_def navigate_def post_call_def detach_def

lemma ui_ok_frame [simp]:
  "ui_ok (u\<lparr>tasks := ts\<rparr>) = ui_ok u" "ui_ok (u\<lparr>workers := ws\<rparr>) = ui_ok u"
  "ui_ok (u\<lparr>log_list := l\<rparr>) = ui_ok u" "ui_ok (u\<lparr>closed := b\<rparr>) = ui_ok u"
  "ui_ok (u\<lparr>ad_shown := b\<rparr>) = ui_ok u" "ui_ok (u\<lparr>ad_url := url\<rparr>) = ui_ok u"
  by (simp_all add: ui_ok_def)

lemma ui_ok_posts [simp]:
  "ui_ok (post_call t u) = ui_ok u" "ui_ok (EnableUserOperation b u) = ui_ok u"
  "ui_ok (ui_showlog m u) = ui_ok u" "ui_ok (ui_showwarning m u) = ui_ok u"
  "ui_ok (ui_showerror m u) = ui_ok u" "ui_ok (show_ad b u) = ui_ok u"
  "ui_ok (navigate url u) = ui_ok u" "ui_ok (detach w u) = ui_ok u"
  by (simp_all add: post_defs)

lemma ui_ok_shown [simp]: "ui_ok (shown e u) = ui_ok u"
  by (cases e) simp_all

lemma ui_ok_fill_adapter: "ui_ok u \<Longrightarrow> ui_ok (fill_adapter info u)"
  using lv_ok_add [of ua_id "next_item u" "adapter_info_list u" info]
    lv_ok_mono [of ud_vip "next_item u" "dns_info_list u" "Suc (next_item u)"]
  by (auto simp: ui_ok_def fill_adapter_def) (auto simp: lv_ok_def)

lemma ui_ok_fill_dns: "ui_ok u \<Longrightarrow> ui_ok (fill_dns info u)"
  using lv_ok_add [of ud_vip "next_item u" "dns_info_list u" info]
    lv_ok_mono [of ua_id "next_item u" "adapter_info_list u" "Suc (next_item u)"]
  by (auto simp: ui_ok_def fill_dns_def) (auto simp: lv_ok_def)

lemma ui_ok_fills: "ui_ok u \<Longrightarrow> ui_ok (fold fill_adapter as u)" "ui_ok u \<Longrightarrow> ui_ok (fold fill_dns ds u)"
  by (rule fold_keeps, simp, blast intro: ui_ok_fill_adapter ui_ok_fill_dns)+

lemma ui_ok_run_task: "ui_ok u \<Longrightarrow> ui_ok (run_task t u)"
  by (cases t) (simp_all add: ui_ok_fills, simp add: ui_ok_def)

lemma ui_ok_handlers:
  assumes "ui_ok u"
  shows "ui_ok (OnAutoDone u)" "ui_ok (OnFreshenAdapterInfo u)" "ui_ok (OnFreshenDNSInfo u)"
    "ui_ok (OnSwitchAdapter u)" "ui_ok (OnItemClick p u)" "ui_ok (OnKeyDown u)"
    "ui_ok (u\<lparr>adapter_info_list := key_down k (adapter_info_list u)\<rparr>)"
    "ui_ok (u\<lparr>dns_info_list := key_down k (dns_info_list u)\<rparr>)"
  using assms
  by (simp_all add: OnAutoDone_def OnFreshenAdapterInfo_def OnFreshenDNSInfo_def OnSwitchAdapter_def
      Let_def split: option.split)
    (simp_all add: ui_ok_def OnItemClick_def OnKeyDown_def lv_ok_click lv_ok_key post_defs)

lemma ui_ok_finish:
  assumes "ui_ok u" "finish w a u = Some u'" shows "ui_ok u'"
  using assms by (cases "(w, a, u)" rule: finish.cases) (auto simp: ui_ok_handlers)

lemma provided_Some [simp]: "provided b u = Some u' \<longleftrightarrow> b \<and> u' = u"
  by (auto simp: provided_def)

lemma ui_ok_step:
  assumes "ui_ok u" "ui_step e u = Some u'" shows "ui_ok u'"
  using assms
  by (cases e) (auto simp: ui_ok_run_task ui_ok_handlers split: list.splits if_splits dest: ui_ok_finish [rotated])

lemma ui_ok_reach: "ui_reach u \<Longrightarrow> ui_ok u"
proof (induction rule: ui_reach.induct)
  case start
  show ?case by (simp add: InitWindow_def built_def ui_ok_def post_defs)
next
  case (step u e u')
  then show ?case by (blast intro: ui_ok_step)
qed


section \<open>The buttons\<close>

text \<open>What the buttons will be once the queue is worked off, but for the tasks that fill a list.\<close>

fun settle :: "task list \<Rightarrow> bool \<Rightarrow> bool" where
  "settle [] b = b"
| "settle (T_Enable c # ts) b = settle ts c"
| "settle (_ # ts) b = settle ts b"

definition settled :: "ui \<Rightarrow> bool" where
  "settled u = settle (tasks u) (auto_done_btn u)"

fun is_fill :: "task \<Rightarrow> bool" where
  "is_fill (T_FillAdapters _) = True"
| "is_fill (T_FillDns _) = True"
| "is_fill _ = False"

text \<open>The operations of the user under way: a worker, or a list that still has to be filled.\<close>

definition pending :: "ui \<Rightarrow> nat" where
  "pending u = length (workers u) + length (filter is_fill (tasks u))"

definition init_failed :: "ui \<Rightarrow> bool" where
  "init_failed u \<longleftrightarrow> (\<exists>c b. (c, MsgUi (InitFailed b)) \<in> set (log_list u) \<or> T_Log c (MsgUi (InitFailed b)) \<in> set (tasks u))"

lemma settle_append [simp]: "settle (ts @ us) b = settle us (settle ts b)"
  by (induction ts b rule: settle.induct) simp_all

fun quiet :: "task \<Rightarrow> bool" where
  "quiet (T_Log _ _) = True"
| "quiet (T_ShowAd _) = True"
| "quiet (T_Navigate _) = True"
| "quiet _ = False"

lemma settle_quiet [simp]: "quiet t \<Longrightarrow> settle (t # ts) b = settle ts b" "quiet t \<Longrightarrow> \<not> is_fill t"
  by (cases t; simp)+

lemma settle_fill [simp]: "is_fill t \<Longrightarrow> settle (t # ts) b = settle ts b"
  by (cases t) simp_all

lemma fold_field: "(\<And>x u. h (f x u) = h u) \<Longrightarrow> h (fold f xs u) = h u"
  by (rule fold_keeps [where P = "\<lambda>v. h v = h u"]) simp_all

lemma fold_fill [simp]:
  "tasks (fold fill_adapter as u) = tasks u" "workers (fold fill_adapter as u) = workers u"
  "log_list (fold fill_adapter as u) = log_list u" "auto_done_btn (fold fill_adapter as u) = auto_done_btn u"
  "ui.closed (fold fill_adapter as u) = ui.closed u"
  "tasks (fold fill_dns ds u) = tasks u" "workers (fold fill_dns ds u) = workers u"
  "log_list (fold fill_dns ds u) = log_list u" "auto_done_btn (fold fill_dns ds u) = auto_done_btn u"
  "ui.closed (fold fill_dns ds u) = ui.closed u"
  by (rule fold_field, simp add: fill_adapter_def fill_dns_def)+

text \<open>A step, by what it does to the queue, the workers and the buttons.\<close>

definition same_rest :: "ui \<Rightarrow> ui \<Rightarrow> bool" where
  "same_rest u u' \<longleftrightarrow> log_list u' = log_list u \<and> auto_done_btn u' = auto_done_btn u"

lemma OnSwitchAdapter_cases:
  assumes "u' = OnSwitchAdapter u"
  obtains t where "tasks u' = tasks u @ [t]" "quiet t" "workers u' = workers u" "same_rest u u'"
  | w where "tasks u' = tasks u @ [T_Enable False]" "workers u' = workers u @ [w]" "w \<noteq> W_Init" "same_rest u u'"
proof -
  have "(\<exists>t. tasks u' = tasks u @ [t] \<and> quiet t \<and> workers u' = workers u \<and> same_rest u u') \<or>
      (\<exists>w. tasks u' = tasks u @ [T_Enable False] \<and> workers u' = workers u @ [w] \<and> w \<noteq> W_Init \<and> same_rest u u')"
    unfolding assms by (simp add: OnSwitchAdapter_def Let_def post_defs same_rest_def split: option.split)
  then show ?thesis using that by blast
qed

lemma ui_step_cases:
  assumes "ui_step e u = Some u'" and "ui_ok u"
  obtains
    (quiet_task) t ts where "tasks u = t # ts" "quiet t" "tasks u' = ts" "workers u' = workers u"
      "auto_done_btn u' = auto_done_btn u" "\<forall>c m. t = T_Log c m \<longrightarrow> log_list u' = log_list u @ [(c, m)]"
      "set (log_list u) \<subseteq> set (log_list u')"
  | (enable) b ts where "tasks u = T_Enable b # ts" "tasks u' = ts" "workers u' = workers u"
      "auto_done_btn u' = b" "log_list u' = log_list u"
  | (fill) t ts m where "tasks u = t # ts" "is_fill t" "tasks u' = ts @ [T_Log UI_MSG_TEXT_COLOR m, T_Enable True]"
      "workers u' = workers u" "same_rest u u'"
  | (starts) w ts where "tasks u = []" "auto_done_btn u" "\<forall>t \<in> set ts. quiet t" "tasks u' = ts @ [T_Enable False]"
      "workers u' = workers u @ [w]" "w \<noteq> W_Init" "same_rest u u'"
  | (posts) ts where "\<forall>t \<in> set ts. quiet t" "tasks u' = tasks u @ ts" "workers u' = workers u" "same_rest u u'"
      "workers u = [] \<longrightarrow> tasks u = []"
  | (answers) i a u0 where "e = Answers i a" "i < length (workers u)" "finish (workers u ! i) a u0 = Some u'"
      "u0 = u\<lparr>workers := take i (workers u) @ drop (i + 1) (workers u)\<rparr>"
proof (cases e)
  case Pump
  with assms(1) obtain t ts where t: "tasks u = t # ts" "u' = run_task t (u\<lparr>tasks := ts\<rparr>)"
    by (auto split: list.splits)
  show ?thesis
  proof (cases t)
    case (T_Enable b)
    with t show ?thesis by (intro enable [of b ts]) simp_all
  next
    case (T_FillAdapters d)
    with t show ?thesis by (intro fill [of t ts]) (simp_all add: post_defs same_rest_def)
  next
    case (T_FillDns d)
    with t show ?thesis by (intro fill [of t ts]) (simp_all add: post_defs same_rest_def)
  qed (use t in \<open>auto intro!: quiet_task\<close>)
next
  case ClickSwitch
  with assms have u: "tasks u = []" "auto_done_btn u" "u' = OnSwitchAdapter u"
    by (auto simp: ui_ok_def split: if_splits)
  from OnSwitchAdapter_cases [OF u(3)] show ?thesis
  proof cases
    case (1 t)
    with u(1) show ?thesis by (intro posts [of "[t]"]) simp_all
  next
    case (2 w)
    with u(1,2) show ?thesis by (intro starts [of "[]" w]) simp_all
  qed
next
  case (Says i ev)
  with assms(1) have i: "i < length (workers u)" "u' = shown ev u" by auto
  have "\<exists>ts. (\<forall>t \<in> set ts. quiet t) \<and> tasks u' = tasks u @ ts \<and> workers u' = workers u \<and> same_rest u u'"
    unfolding i(2) by (cases ev) (simp_all add: post_defs same_rest_def)
  with i(1) show ?thesis by (auto intro: posts)
next
  case (Answers i a)
  with assms(1) show ?thesis by (intro answers [of i a]) (auto split: if_splits)
next
  case ClickAutoDone
  with assms have "tasks u = []" "auto_done_btn u" "u' = OnAutoDone (show_ad False u)"
    by (auto split: if_splits)
  then show ?thesis
    by (intro starts [of "[T_ShowAd False]" W_Auto]) (simp_all add: OnAutoDone_def post_defs same_rest_def)
next
  case ClickFreshenAdapter
  with assms have "tasks u = []" "auto_done_btn u" "u' = OnFreshenAdapterInfo u"
    by (auto simp: ui_ok_def split: if_splits)
  then show ?thesis
    by (intro starts [of "[]" W_FreshenAdapter]) (simp_all add: OnFreshenAdapterInfo_def post_defs same_rest_def)
next
  case ClickFreshenDns
  with assms have "tasks u = []" "auto_done_btn u" "u' = OnFreshenDNSInfo u"
    by (auto simp: ui_ok_def split: if_splits)
  then show ?thesis
    by (intro starts [of "[]" W_FreshenDns]) (simp_all add: OnFreshenDNSInfo_def post_defs same_rest_def)
next
  case KeyCtrlF5
  with assms(1) have "tasks u = []" "u' = OnKeyDown u" by (auto split: if_splits)
  then show ?thesis
    by (intro posts [of "if professional_view u then [T_ShowAd False] else []"])
      (simp_all add: OnKeyDown_def post_defs same_rest_def)
qed (use assms(1) in \<open>intro posts [of "[]"]; auto simp: OnItemClick_def same_rest_def split: if_splits\<close>)+


lemma ui_reach_run: "ui_reach u \<Longrightarrow> ui_run es u = Some u' \<Longrightarrow> ui_reach u'"
  by (induction es arbitrary: u) (auto split: option.splits intro: ui_reach.step)

lemma ui_run_append [simp]:
  "ui_run (es @ fs) u = (case ui_run es u of None \<Rightarrow> None | Some u' \<Rightarrow> ui_run fs u')"
  by (induction es arbitrary: u) (auto split: option.split)

lemma settle_quiets [simp]:
  "\<forall>t \<in> set ts. quiet t \<Longrightarrow> settle ts b = b" "\<forall>t \<in> set ts. quiet t \<Longrightarrow> filter is_fill ts = []"
proof (induction ts)
  case (Cons t ts)
  {
    case 1
    with Cons(1) show ?case by simp
  next
    case 2
    with Cons(2) show ?case by simp
  }
qed simp_all

text \<open>The end of a worker: it leaves, and either posts the task that fills a list or enables the buttons.\<close>

lemma finish_outcome:
  assumes "finish w a u0 = Some u'"
  obtains
    (init_fails) res where "w = W_Init" "a = A_Init res" "res \<noteq> result_success"
      "tasks u' = tasks u0 @ [T_Log UI_ERROR_TEXT_COLOR (MsgUi (InitFailed (result_string res)))]"
      "workers u' = workers u0" "same_rest u0 u'"
  | (fills) t where "tasks u' = tasks u0 @ [t]" "is_fill t" "workers u' = workers u0" "same_rest u0 u'" "w \<noteq> W_Init"
  | (ends) ts where "\<forall>t \<in> set ts. quiet t" "tasks u' = tasks u0 @ ts @ [T_Enable True]" "workers u' = workers u0"
      "same_rest u0 u'"
  | (refreshes) i ip m where "w = W_Switch i ip" "a = A_Switch result_success"
      "tasks u' = tasks u0 @ [T_Enable False, T_Log UI_MSG_TEXT_COLOR m, T_Enable True]"
      "workers u' = workers u0 @ [W_FreshenAdapter]" "same_rest u0 u'"
proof -
  note ends' = ends [of "[T_Log c m]" for c m]
  show ?thesis
  proof (cases "(w, a, u0)" rule: finish.cases)
    case (1 res u)
    show ?thesis
    proof (cases "res = result_success")
      case True
      with 1 assms show ?thesis by (intro ends [of "[]"]) (auto simp: post_defs same_rest_def)
    next
      case False
      with 1 assms show ?thesis by (intro init_fails [of res]) (auto simp: post_defs same_rest_def)
    qed
  next
    case (2 res t u)
    with assms show ?thesis
      by (cases "res = result_success") (rule ends'; auto simp: post_defs same_rest_def)+
  next
    case (3 res d u)
    show ?thesis
    proof (cases "res = result_success")
      case True
      with 3 assms show ?thesis by (intro fills [of "T_FillAdapters d"]) (auto simp: post_defs same_rest_def)
    next
      case False
      with 3 assms show ?thesis by (rule_tac ends') (auto simp: post_defs same_rest_def)
    qed
  next
    case (4 res d u)
    show ?thesis
    proof (cases "res = result_success")
      case True
      with 4 assms show ?thesis by (intro fills [of "T_FillDns d"]) (auto simp: post_defs same_rest_def)
    next
      case False
      with 4 assms show ?thesis by (rule_tac ends') (auto simp: post_defs same_rest_def)
    qed
  next
    case (5 i ip res u)
    show ?thesis
    proof (cases "res = result_success")
      case True
      with 5 assms show ?thesis
        by (intro refreshes [of i ip]) (auto simp: OnFreshenAdapterInfo_def post_defs same_rest_def)
    next
      case False
      with 5 assms show ?thesis by (rule_tac ends') (auto simp: post_defs same_rest_def)
    qed
  qed (use assms in simp_all)
qed

lemma worker_leaves:
  "i < length (workers u) \<Longrightarrow>
     length (workers (u\<lparr>workers := take i (workers u) @ drop (i + 1) (workers u)\<rparr>)) = length (workers u) - 1"
  by simp


section \<open>Invariants of the buttons\<close>

text \<open>Nothing under way: the buttons come back, unless the initialisation failed.\<close>

definition returns :: "ui \<Rightarrow> bool" where
  "returns u \<longleftrightarrow> pending u = 0 \<longrightarrow> settled u \<or> init_failed u"

lemma init_failed_mono:
  assumes "set (log_list u) \<subseteq> set (log_list u')"
    and "\<And>c m. T_Log c m \<in> set (tasks u) \<Longrightarrow> T_Log c m \<in> set (tasks u') \<or> (c, m) \<in> set (log_list u')"
    and "init_failed u"
  shows "init_failed u'"
  using assms unfolding init_failed_def by blast

lemma returns_step:
  assumes "ui_ok u" "returns u" "ui_step e u = Some u'"
  shows "returns u'"
  using assms(3,1)
proof (cases rule: ui_step_cases)
  case (quiet_task t ts)
  have "init_failed u \<Longrightarrow> init_failed u'"
    by (rule init_failed_mono) (use quiet_task in auto)
  moreover have "pending u' = pending u" "settled u' = settled u"
    using quiet_task(1-5) by (simp_all add: pending_def settled_def)
  ultimately show ?thesis using assms(2) by (auto simp: returns_def)
next
  case (enable b ts)
  have "init_failed u \<Longrightarrow> init_failed u'" by (rule init_failed_mono) (use enable in auto)
  moreover have "pending u' = pending u" "settled u' = settled u"
    using enable by (simp_all add: pending_def settled_def)
  ultimately show ?thesis using assms(2) by (auto simp: returns_def)
next
  case (fill t ts m)
  then show ?thesis by (simp add: returns_def settled_def)
next
  case (starts w ts)
  then show ?thesis by (simp add: returns_def pending_def)
next
  case (posts ts)
  have "init_failed u \<Longrightarrow> init_failed u'"
    by (rule init_failed_mono) (use posts in \<open>auto simp: same_rest_def\<close>)
  moreover have "pending u' = pending u" "settled u' = settled u"
    using posts by (simp_all add: pending_def settled_def same_rest_def)
  ultimately show ?thesis using assms(2) by (auto simp: returns_def)
next
  case (answers i a u0)
  from answers(3) show ?thesis
  proof (cases rule: finish_outcome)
    case (init_fails res)
    then have "init_failed u'" by (auto simp: init_failed_def)
    then show ?thesis by (simp add: returns_def)
  next
    case (fills t)
    then show ?thesis by (simp add: returns_def pending_def)
  next
    case (ends ts)
    then show ?thesis by (simp add: returns_def settled_def)
  next
    case (refreshes i ip m)
    then show ?thesis by (simp add: returns_def pending_def)
  qed
qed

lemma returns_reach: "ui_reach u \<Longrightarrow> returns u"
proof (induction rule: ui_reach.induct)
  case start
  show ?case by (simp add: returns_def pending_def InitWindow_def built_def post_defs)
next
  case (step u e u')
  then show ?case by (blast intro: returns_step ui_ok_reach)
qed

text \<open>Until the initialisation is done nothing else runs; when it failed, nothing can.\<close>

definition idle :: "ui \<Rightarrow> bool" where
  "idle u \<longleftrightarrow> filter is_fill (tasks u) = [] \<and> T_Enable True \<notin> set (tasks u) \<and> \<not> settled u"

definition starting :: "ui \<Rightarrow> bool" where
  "starting u \<longleftrightarrow> (W_Init \<in> set (workers u) \<longrightarrow> workers u = [W_Init] \<and> idle u)"

lemma idle_step:
  assumes "ui_ok u" "idle u" "ui_step e u = Some u'" and "\<nexists>i a. e = Answers i a"
  shows "idle u' \<and> workers u' = workers u"
  using assms(3,1)
proof (cases rule: ui_step_cases)
  case (enable b ts)
  with assms(2) show ?thesis by (cases b) (auto simp: idle_def settled_def)
next
  case (starts w ts)
  with assms(2) show ?thesis by (simp add: idle_def settled_def)
next
  case (posts ts)
  then have "T_Enable True \<notin> set ts" by auto
  with posts assms(2) show ?thesis by (auto simp: idle_def settled_def same_rest_def)
qed (use assms(2,4) in \<open>auto simp: idle_def settled_def same_rest_def\<close>)

lemma starting_step:
  assumes "ui_ok u" "starting u" "ui_step e u = Some u'"
  shows "starting u'"
proof (cases "\<exists>i a. e = Answers i a")
  case False
  show ?thesis
  proof (cases "W_Init \<in> set (workers u)")
    case True
    then show ?thesis using idle_step [OF assms(1) _ assms(3)] assms(2) False by (auto simp: starting_def)
  next
    case no: False
    from assms(3,1) have "W_Init \<notin> set (workers u')"
      by (cases rule: ui_step_cases) (use no False in auto)
    then show ?thesis by (simp add: starting_def)
  qed
next
  case True
  then obtain i a where e: "e = Answers i a" by blast
  define u0 where "u0 = u\<lparr>workers := take i (workers u) @ drop (i + 1) (workers u)\<rparr>"
  have i: "i < length (workers u)" "finish (workers u ! i) a u0 = Some u'"
    using assms(3) by (auto simp: e u0_def split: if_splits)
  have "W_Init \<notin> set (workers u0)"
  proof (cases "W_Init \<in> set (workers u)")
    case True
    with assms(2) i(1) show ?thesis by (auto simp: starting_def u0_def)
  next
    case False
    then show ?thesis by (auto simp: u0_def dest: in_set_takeD in_set_dropD)
  qed
  with i(2) have "W_Init \<notin> set (workers u')"
    by (cases rule: finish_outcome) auto
  then show ?thesis by (simp add: starting_def)
qed

lemma starting_reach: "ui_reach u \<Longrightarrow> starting u"
proof (induction rule: ui_reach.induct)
  case start
  show ?case by (simp add: starting_def idle_def settled_def InitWindow_def built_def post_defs)
next
  case (step u e u')
  then show ?case by (blast intro: starting_step ui_ok_reach)
qed

lemma idle_run:
  "ui_ok u \<Longrightarrow> idle u \<Longrightarrow> workers u = [] \<Longrightarrow> ui_run es u = Some u' \<Longrightarrow> idle u' \<and> workers u' = []"
proof (induction es arbitrary: u)
  case (Cons e es)
  obtain u1 where u1: "ui_step e u = Some u1" "ui_run es u1 = Some u'"
    using Cons.prems(4) by (auto split: option.splits)
  have "\<nexists>i a. e = Answers i a" using u1(1) Cons.prems(3) by auto
  from idle_step [OF Cons.prems(1,2) u1(1) this] show ?case
    using Cons.IH [OF ui_ok_step [OF Cons.prems(1) u1(1)] _ _ u1(2)] Cons.prems(3) by auto
qed simp

text \<open>Without a successful switch the operations of the user exclude one another.\<close>

definition exclusive :: "ui \<Rightarrow> bool" where
  "exclusive u \<longleftrightarrow> pending u \<le> 1 \<and> (pending u = 1 \<longrightarrow> \<not> settled u)"

lemma exclusive_step:
  assumes "ui_ok u" "exclusive u" "ui_step e u = Some u'" "\<not> switched e"
  shows "exclusive u'"
  using assms(3,1)
proof (cases rule: ui_step_cases)
  case (answers i a u0)
  have n: "length (workers u) + length (filter is_fill (tasks u)) \<le> 1" "0 < length (workers u)"
    using assms(2) answers(2) by (auto simp: exclusive_def pending_def)
  then have w: "length (workers u) = 1" and f: "filter is_fill (tasks u) = []"
    by (linarith, cases "filter is_fill (tasks u)") auto
  have p: "pending u = 1" "\<not> settled u" and p0: "length (workers u0) = 0" "filter is_fill (tasks u0) = []"
    "settled u0 = settled u"
    using assms(2) answers(2,4) w f by (auto simp: exclusive_def pending_def settled_def)
  from answers(3) show ?thesis
  proof (cases rule: finish_outcome)
    case (refreshes i' ip m)
    with assms(4) answers(1) show ?thesis by simp
  qed (use p p0 in \<open>auto simp: exclusive_def pending_def settled_def same_rest_def\<close>)
qed (use assms(2) in \<open>auto simp: exclusive_def pending_def settled_def same_rest_def le_Suc_eq\<close>)

lemma exclusive_reach: "ui_reach_plain u \<Longrightarrow> exclusive u \<and> ui_ok u"
proof (induction rule: ui_reach_plain.induct)
  case start
  show ?case using ui_ok_reach [OF ui_reach.start]
    by (simp add: exclusive_def pending_def settled_def InitWindow_def built_def post_defs)
next
  case (step u e u')
  then show ?case by (blast intro: exclusive_step ui_ok_step)
qed


section \<open>Working off the queue\<close>

definition task_weight :: "ui \<Rightarrow> nat" where
  "task_weight u = length (tasks u) + 2 * length (filter is_fill (tasks u))"

lemma pump_weight:
  assumes "\<not> ui.closed u" "tasks u \<noteq> []"
  shows "\<exists>u'. ui_step Pump u = Some u' \<and> task_weight u' < task_weight u \<and> \<not> ui.closed u' \<and> workers u' = workers u"
proof -
  obtain t ts where t: "tasks u = t # ts" using assms(2) by (cases "tasks u") auto
  then show ?thesis using assms(1)
    by (cases t) (simp_all add: task_weight_def post_defs provided_def)
qed

lemma pump_all:
  "\<not> ui.closed u \<Longrightarrow> \<exists>n \<le> task_weight u. \<exists>u'. ui_run (replicate n Pump) u = Some u' \<and> tasks u' = [] \<and> workers u' = workers u"
proof (induction "task_weight u" arbitrary: u rule: less_induct)
  case less
  show ?case
  proof (cases "tasks u = []")
    case True
    then show ?thesis by (intro exI [of _ 0]) simp
  next
    case False
    obtain u1 where u1: "ui_step Pump u = Some u1" "task_weight u1 < task_weight u" "\<not> ui.closed u1"
        "workers u1 = workers u"
      using pump_weight [OF less.prems False] by blast
    from less.hyps [OF u1(2,3)] obtain n u2 where
      "n \<le> task_weight u1" "ui_run (replicate n Pump) u1 = Some u2" "tasks u2 = []" "workers u2 = workers u1"
      by blast
    then show ?thesis using u1 by (intro exI [of _ "Suc n"]) (auto simp del: ui_step.simps)
  qed
qed

section \<open>Properties\<close>

text \<open>A run of the window: initialised, professional view, both lists filled and a row of each clicked.\<close>

definition demo_adapter_data :: freshen_adapter_info_result_data where
  "demo_adapter_data = \<lparr>fa_freshen_take_time = [], fa_adapter_info =
     [\<lparr>ua_id = 7, ua_description = [], ua_dns_1 = [], ua_dns_2 = []\<rparr>]\<rparr>"

definition demo_dns_data :: freshen_dns_info_result_data where
  "demo_dns_data = \<lparr>fd_freshen_take_time = [], fd_ip_dns_info =
     [\<lparr>ud_vip = [49], ud_uptime = [], ud_ping_t_ms = []\<rparr>, \<lparr>ud_vip = [50], ud_uptime = [], ud_ping_t_ms = []\<rparr>]\<rparr>"

definition demo_filled :: "ui_event list" where
  "demo_filled =
     [Pump, Answers 0 (A_Init result_success), Pump, KeyCtrlF5,
      ClickFreshenAdapter, Pump, Answers 0 (A_Adapters result_success demo_adapter_data), Pump, Pump, Pump,
      ClickFreshenDns, Pump, Answers 0 (A_Dns result_success demo_dns_data), Pump, Pump, Pump,
      ClickItem 0, ClickItem 1]"

definition demo_ui :: ui where
  "demo_ui = the (ui_run demo_filled (InitWindow built))"

lemmas ui_eval = InitWindow_def built_def post_defs OnAutoDone_def OnFreshenAdapterInfo_def OnFreshenDNSInfo_def
  OnSwitchAdapter_def OnItemClick_def OnKeyDown_def fill_adapter_def fill_dns_def add_row_def Add_def
  clear_list_def RemoveAll_def click_row_def GetItemIndex_def SelectItem_def empty_view_def provided_def
  is_row_def Let_def demo_adapter_data_def demo_dns_data_def no_color_def ITEM_BK_COLOR_def
  LIST_ITEM_SELECTED_COLOR_def

lemma demo_run: "ui_run demo_filled (InitWindow built) = Some demo_ui"
proof -
  have "\<exists>u. ui_run demo_filled (InitWindow built) = Some u"
    by (simp add: demo_filled_def ui_eval)
  then show ?thesis by (auto simp: demo_ui_def)
qed

lemma demo_reach: "ui_reach demo_ui"
  by (rule ui_reach_run [OF ui_reach.start demo_run])

lemma demo_ui_view:
  "rows (dns_info_list demo_ui) = [(1, hd (fd_ip_dns_info demo_dns_data)), (2, hd (tl (fd_ip_dns_info demo_dns_data)))]"
  "rows (adapter_info_list demo_ui) = [(0, hd (fa_adapter_info demo_adapter_data))]"
  "cur_sel (dns_info_list demo_ui) = 0" "cur_sel (adapter_info_list demo_ui) = 0"
  "tasks demo_ui = []" "workers demo_ui = []" "ui.closed demo_ui = False" "professional_view demo_ui = True"
  "switch_adapter_dns_btn demo_ui = True" "auto_done_btn demo_ui = True"
  by (simp_all add: demo_ui_def demo_filled_def ui_eval)


text \<open>C9: The switch request. Clicking the switch button in any reachable state either shows one of the two
  warnings that a row must be picked first, or disables the buttons and starts one worker for exactly the
  adapter and the server shown in the two selected rows; the branches for a row missing from the maps are
  never taken.\<close>
theorem switch_request:
  assumes "ui_reach u" and "ui_step ClickSwitch u = Some u'"
  shows "(if cur_sel (adapter_info_list u) = -1 \<or> cur_sel (dns_info_list u) = -1
      then workers u' = workers u
        \<and> (\<exists>m \<in> {PickAdapter, PickDns}. tasks u' = [T_Log UI_WARNING_TEXT_COLOR (MsgUi m)])
      else \<exists>a d. (\<exists>p. rows (adapter_info_list u) ! nat (cur_sel (adapter_info_list u)) = (p, a))
        \<and> (\<exists>q. rows (dns_info_list u) ! nat (cur_sel (dns_info_list u)) = (q, d))
        \<and> workers u' = workers u @ [W_Switch (ua_id a) (ud_vip d)] \<and> tasks u' = [T_Enable False])"
proof -
  have ok: "lv_ok ua_id (next_item u) (adapter_info_list u)" "lv_ok ud_vip (next_item u) (dns_info_list u)"
    using ui_ok_reach [OF assms(1)] by (auto simp: ui_ok_def)
  have u: "tasks u = []" "u' = OnSwitchAdapter u" using assms(2) by (auto split: if_splits)
  have row: "\<exists>p r. rows v ! nat (cur_sel v) = (p, r) \<and> item_map v p = Some (key r)"
    if "lv_ok key n v" "cur_sel v \<noteq> -1" for key n and v :: "('r, 'k) list_view"
  proof -
    have "nat (cur_sel v) < length (rows v)" using that by (auto simp: lv_ok_def)
    then show ?thesis using item_map_ok [OF that(1)] by (metis nth_mem surj_pair)
  qed
  show ?thesis
    using row [OF ok(1)] row [OF ok(2)] u by (auto simp: OnSwitchAdapter_def Let_def post_defs)
qed

theorem switch_request_witness:
  "\<exists>u'. ui_step ClickSwitch demo_ui = Some u' \<and> workers u' = [W_Switch 7 [49]] \<and> tasks u' = [T_Enable False]"
proof -
  have "ui_step ClickSwitch demo_ui = Some (OnSwitchAdapter demo_ui)"
    by (simp add: demo_ui_view provided_def)
  from switch_request [OF demo_reach this] this show ?thesis
    by (simp add: demo_ui_view demo_adapter_data_def demo_dns_data_def)
qed

text \<open>A click on the row \<open>p\<close> of the list \<open>v\<close>, which makes it \<open>v'\<close>: that row is selected, and is the only one with the
  colour of a selection.\<close>

definition clicked_row :: "item \<Rightarrow> ('r, 'k) list_view \<Rightarrow> ('r, 'k) list_view \<Rightarrow> bool" where
  "clicked_row p v v' \<longleftrightarrow>
     rows v' = rows v \<and> 0 \<le> cur_sel v' \<and> nat (cur_sel v') < length (rows v')
     \<and> fst (rows v' ! nat (cur_sel v')) = p
     \<and> (\<forall>q \<in> fst ` set (rows v').
          bk_color v' q = (if q = p then LIST_ITEM_SELECTED_COLOR else ITEM_BK_COLOR))"

lemma click_row_selects:
  assumes "lv_ok key n v" and "p \<in> fst ` set (rows v)"
  shows "clicked_row p v (click_row p v)"
proof -
  obtain r where "(p, r) \<in> set (rows v)" using assms(2) by auto
  then have k: "item_map v p = Some (key r)" using item_map_ok [OF assms(1)] by blast
  have same: "rows (click_row p v) = rows v" by (simp add: click_row_def Let_def split: option.split)
  have "last_selected (click_row p v) = Some p"
    using k by (simp add: click_row_def Let_def)
  then have "\<forall>q \<in> fst ` set (rows v). bk_color (click_row p v) q =
      (if q = p then LIST_ITEM_SELECTED_COLOR else ITEM_BK_COLOR)"
    using lv_ok_click [OF assms(1), of p] by (auto simp: lv_ok_def)
  moreover have "cur_sel (click_row p v) = index_from p (rows v) 0"
    using k index_from_found [OF assms(2), of 0]
    by (auto simp: click_row_def Let_def SelectItem_def GetItemIndex_def split: option.splits)
  ultimately show ?thesis
    using index_from_found [OF assms(2), of 0] by (auto simp: clicked_row_def same)
qed

lemma click_row_elsewhere:
  assumes "lv_ok key n v" and "p \<notin> fst ` set (rows v)"
  shows "click_row p v = v"
proof -
  have "item_map v p = None" using item_map_ok [OF assms(1)] assms(2) by (metis fst_conv image_eqI option.exhaust)
  then show ?thesis by (simp add: click_row_def)
qed

text \<open>C12: Selecting by click. A click goes to a row of the list of servers or of the list of adapters. After it that
  row is the selected one of its list and the only row there with the colour of a selection, and the rest of the
  window, the other list included, is as before.\<close>
theorem click_selects:
  assumes "ui_reach u" and "ui_step (ClickItem p) u = Some u'"
  shows "if p \<in> fst ` set (rows (dns_info_list u))
    then clicked_row p (dns_info_list u) (dns_info_list u') \<and> u' = u\<lparr>dns_info_list := dns_info_list u'\<rparr>
    else p \<in> fst ` set (rows (adapter_info_list u))
      \<and> clicked_row p (adapter_info_list u) (adapter_info_list u') \<and> u' = u\<lparr>adapter_info_list := adapter_info_list u'\<rparr>"
proof -
  have ok: "lv_ok ud_vip (next_item u) (dns_info_list u)" "lv_ok ua_id (next_item u) (adapter_info_list u)"
      "fst ` set (rows (dns_info_list u)) \<inter> fst ` set (rows (adapter_info_list u)) = {}"
    using ui_ok_reach [OF assms(1)] by (auto simp: ui_ok_def)
  have u': "u' = OnItemClick p u" and row: "is_row p u" using assms(2) by (auto split: if_splits)
  show ?thesis
  proof (cases "p \<in> fst ` set (rows (dns_info_list u))")
    case True
    with ok(3) have "p \<notin> fst ` set (rows (adapter_info_list u))" by blast
    from click_row_elsewhere [OF ok(2) this] click_row_selects [OF ok(1) True] True show ?thesis
      by (simp add: u' OnItemClick_def)
  next
    case False
    with row have p: "p \<in> fst ` set (rows (adapter_info_list u))" by (auto simp: is_row_def)
    from click_row_elsewhere [OF ok(1) False] click_row_selects [OF ok(2) p] False p show ?thesis
      by (simp add: u' OnItemClick_def)
  qed
qed

text \<open>The same run before the two clicks, where no row is selected.\<close>

definition demo_unclicked :: ui where
  "demo_unclicked = the (ui_run (take 16 demo_filled) (InitWindow built))"

lemma demo_unclicked_run: "ui_run (take 16 demo_filled) (InitWindow built) = Some demo_unclicked"
proof -
  have "\<exists>u. ui_run (take 16 demo_filled) (InitWindow built) = Some u"
    by (simp add: demo_filled_def ui_eval)
  then show ?thesis by (auto simp: demo_unclicked_def)
qed

lemma demo_unclicked_view:
  "rows (dns_info_list demo_unclicked) = [(1, hd (fd_ip_dns_info demo_dns_data)), (2, hd (tl (fd_ip_dns_info demo_dns_data)))]"
  "rows (adapter_info_list demo_unclicked) = [(0, hd (fa_adapter_info demo_adapter_data))]"
  "cur_sel (adapter_info_list demo_unclicked) = -1" "bk_color (adapter_info_list demo_unclicked) 0 = ITEM_BK_COLOR"
  "tasks demo_unclicked = []" "ui.closed demo_unclicked = False" "professional_view demo_unclicked = True"
  by (simp_all add: demo_unclicked_def demo_filled_def ui_eval)

theorem click_selects_witness:
  "(\<exists>u'. ui_step (ClickItem 0) demo_unclicked = Some u' \<and> cur_sel (adapter_info_list u') = 0
       \<and> bk_color (adapter_info_list u') 0 = LIST_ITEM_SELECTED_COLOR \<and> dns_info_list u' = dns_info_list demo_unclicked)
   \<and> (\<exists>u'. ui_step (ClickItem 2) demo_ui = Some u' \<and> fst (rows (dns_info_list u') ! nat (cur_sel (dns_info_list u'))) = 2
       \<and> bk_color (dns_info_list u') 1 = ITEM_BK_COLOR \<and> adapter_info_list u' = adapter_info_list demo_ui)"
proof (intro conjI)
  have run: "ui_step (ClickItem 0) demo_unclicked = Some (OnItemClick 0 demo_unclicked)"
    by (simp add: demo_unclicked_view provided_def is_row_def)
  let ?a = "adapter_info_list (OnItemClick 0 demo_unclicked)"
  have "clicked_row 0 (adapter_info_list demo_unclicked) ?a
      \<and> OnItemClick 0 demo_unclicked = demo_unclicked\<lparr>adapter_info_list := ?a\<rparr>"
    using click_selects [OF ui_reach_run [OF ui_reach.start demo_unclicked_run] run] by (simp add: demo_unclicked_view)
  then have "0 \<le> cur_sel ?a" "nat (cur_sel ?a) < 1" "bk_color ?a 0 = LIST_ITEM_SELECTED_COLOR"
      "dns_info_list (OnItemClick 0 demo_unclicked) = dns_info_list demo_unclicked"
    by (auto simp: clicked_row_def demo_unclicked_view) (metis ui.select_convs(10) ui.surjective ui.update_convs(11))
  with run show "\<exists>u'. ui_step (ClickItem 0) demo_unclicked = Some u' \<and> cur_sel (adapter_info_list u') = 0
       \<and> bk_color (adapter_info_list u') 0 = LIST_ITEM_SELECTED_COLOR \<and> dns_info_list u' = dns_info_list demo_unclicked"
    by auto
next
  have run: "ui_step (ClickItem 2) demo_ui = Some (OnItemClick 2 demo_ui)"
    by (simp add: demo_ui_view provided_def is_row_def)
  let ?d = "dns_info_list (OnItemClick 2 demo_ui)"
  have c: "clicked_row 2 (dns_info_list demo_ui) ?d" "OnItemClick 2 demo_ui = demo_ui\<lparr>dns_info_list := ?d\<rparr>"
    using click_selects [OF demo_reach run] by (simp_all add: demo_ui_view)
  from c(2) have "adapter_info_list (OnItemClick 2 demo_ui) = adapter_info_list demo_ui"
    by (metis ui.select_convs(11) ui.surjective ui.update_convs(10))
  with c(1) run show "\<exists>u'. ui_step (ClickItem 2) demo_ui = Some u'
       \<and> fst (rows (dns_info_list u') ! nat (cur_sel (dns_info_list u'))) = 2
       \<and> bk_color (dns_info_list u') 1 = ITEM_BK_COLOR \<and> adapter_info_list u' = adapter_info_list demo_ui"
    by (auto simp: clicked_row_def demo_ui_view)
qed

text \<open>Selecting by keyboard. Because the cases of the key switch fall through, every key but Return selects
  the last row, whatever was selected; the row that keeps the colour of a selection is still the one
  last clicked, so the next switch request is for a row that is not the highlighted one.\<close>
theorem key_selects_last:
  assumes "ui_reach u" and "ui_step (KeyDns k) u = Some u'" and "k \<noteq> VK_RETURN" and "rows (dns_info_list u) \<noteq> []"
  shows "cur_sel (dns_info_list u') = int (length (rows (dns_info_list u))) - 1
    \<and> bk_color (dns_info_list u') = bk_color (dns_info_list u)
    \<and> last_selected (dns_info_list u') = last_selected (dns_info_list u)"
proof -
  have u': "u' = u\<lparr>dns_info_list := key_down k (dns_info_list u)\<rparr>" using assms(2) by (auto split: if_splits)
  obtain n where n: "length (rows (dns_info_list u)) = Suc n"
    using assms(4) by (cases "rows (dns_info_list u)") auto
  then have "cur_sel (SelectItem (FindSelectable (int (length (rows v)) - 1) v) v) = int (length (rows v)) - 1"
    if "rows v = rows (dns_info_list u)" for v :: "(ui_dns_info, wstring) list_view"
    using that assms(4) by (auto simp: SelectItem_def FindSelectable_def n)
  moreover have "bk_color (key_case c v) = bk_color v" "last_selected (key_case c v) = last_selected v"
    for c and v :: "(ui_dns_info, wstring) list_view" by (cases c; simp)+
  ultimately show ?thesis
    unfolding u' using assms(3) by (cases k) (simp_all add: key_down_def)
qed

theorem key_selects_last_witness:
  "\<exists>u'. ui_step (KeyDns VK_UP) demo_ui = Some u' \<and> cur_sel (dns_info_list demo_ui) = 0
    \<and> cur_sel (dns_info_list u') = 1 \<and> last_selected (dns_info_list u') = last_selected (dns_info_list demo_ui)"
proof -
  define u' where "u' = demo_ui\<lparr>dns_info_list := key_down VK_UP (dns_info_list demo_ui)\<rparr>"
  have "ui_step (KeyDns VK_UP) demo_ui = Some u'"
    by (simp add: demo_ui_view u'_def)
  with key_selects_last [OF demo_reach this] show ?thesis by (simp add: demo_ui_view)
qed

text \<open>C8: The buttons come back. In every reachable state in which no worker runs and no task is waiting, the
  four buttons of the operations are enabled together, unless the log shows that the initialisation failed.\<close>
theorem buttons_come_back:
  assumes "ui_reach u" and "workers u = []" and "tasks u = []"
    and "\<forall>c b. (c, MsgUi (InitFailed b)) \<notin> set (log_list u)"
  shows "auto_done_btn u \<and> freshen_adapter_btn u \<and> freshen_dns_btn u \<and> switch_adapter_dns_btn u"
  using returns_reach [OF assms(1)] ui_ok_reach [OF assms(1)] assms(2-4)
  by (simp add: returns_def pending_def settled_def init_failed_def ui_ok_def)

theorem buttons_come_back_witness:
  "workers demo_ui = [] \<and> tasks demo_ui = [] \<and> auto_done_btn demo_ui \<and> freshen_dns_btn demo_ui"
proof -
  have "\<forall>c b. (c, MsgUi (InitFailed b)) \<notin> set (log_list demo_ui)"
    by (simp add: demo_ui_def demo_filled_def ui_eval)
  with buttons_come_back [OF demo_reach] show ?thesis by (simp add: demo_ui_view)
qed

text \<open>A failed initialisation is final. When the initialisation answers with an error, no later run of the
  window ever starts a worker, and the buttons stay disabled.\<close>
theorem init_failure_is_final:
  assumes "ui_reach u" and "ui_step (Answers i (A_Init res)) u = Some v" and "res \<noteq> result_success"
    and "ui_run es v = Some w"
  shows "workers w = [] \<and> (tasks w = [] \<longrightarrow>
    \<not> auto_done_btn w \<and> \<not> freshen_adapter_btn w \<and> \<not> freshen_dns_btn w \<and> \<not> switch_adapter_dns_btn w)"
proof -
  define u0 where "u0 = u\<lparr>workers := take i (workers u) @ drop (i + 1) (workers u)\<rparr>"
  have i: "i < length (workers u)" "finish (workers u ! i) (A_Init res) u0 = Some v"
    using assms(2) by (auto simp: u0_def split: if_splits)
  then have "workers u ! i = W_Init"
    by (cases "(workers u ! i, A_Init res, u0)" rule: finish.cases) auto
  then have st: "workers u = [W_Init]" "idle u"
    using starting_reach [OF assms(1)] i(1) by (auto simp: starting_def in_set_conv_nth)
  have "tasks v = tasks u @ [T_Log UI_ERROR_TEXT_COLOR (MsgUi (InitFailed (result_string res)))]"
      "workers v = []" "auto_done_btn v = auto_done_btn u"
    using i assms(3) st(1) by (auto simp: u0_def post_defs)
  then have "idle v" "workers v = []" using st(2) by (auto simp: idle_def settled_def)
  moreover have "ui_ok v" using ui_ok_reach [OF ui_reach.step [OF assms(1,2)]] .
  ultimately have "idle w" "workers w = []" using idle_run assms(4) by blast+
  moreover have "ui_ok w" using ui_ok_reach ui_reach_run ui_reach.step assms(1,2,4) by blast
  ultimately show ?thesis by (auto simp: idle_def settled_def ui_ok_def)
qed

theorem init_failure_is_final_witness:
  "\<exists>v w. ui_step (Answers 0 (A_Init result_com_initialize_fail)) (InitWindow built) = Some v
    \<and> ui_run [Pump, Pump] v = Some w \<and> tasks w = [] \<and> workers w = [] \<and> \<not> auto_done_btn w"
proof -
  obtain v where v: "ui_step (Answers 0 (A_Init result_com_initialize_fail)) (InitWindow built) = Some v"
    by (simp add: ui_eval)
  then obtain w where w: "ui_run [Pump, Pump] v = Some w" "tasks w = []"
    by (auto simp: ui_eval)
  have "result_com_initialize_fail \<noteq> result_success" by simp
  from init_failure_is_final [OF ui_reach.start v this w(1)] v w show ?thesis by blast
qed


text \<open>C10: One operation at a time. As long as no switch of servers has succeeded, at most one operation of the
  user is under way (a worker, or a fetched list not yet shown), and while one is and no task is waiting
  the four buttons are disabled.\<close>
theorem one_operation_at_a_time:
  assumes "ui_reach_plain u"
  shows "length (workers u) + length (filter is_fill (tasks u)) \<le> 1
    \<and> (workers u \<noteq> [] \<and> tasks u = [] \<longrightarrow>
         \<not> auto_done_btn u \<and> \<not> freshen_adapter_btn u \<and> \<not> freshen_dns_btn u \<and> \<not> switch_adapter_dns_btn u)"
  using exclusive_reach [OF assms] by (auto simp: exclusive_def pending_def settled_def ui_ok_def le_Suc_eq)

lemma ui_reach_plain_run:
  "ui_reach_plain u \<Longrightarrow> ui_run es u = Some u' \<Longrightarrow> \<forall>e \<in> set es. \<not> switched e \<Longrightarrow> ui_reach_plain u'"
  by (induction es arbitrary: u) (auto split: option.splits intro: ui_reach_plain.step)

theorem one_operation_at_a_time_witness:
  "\<exists>u'. ui_run [ClickAutoDone, Pump, Pump] demo_ui = Some u' \<and> workers u' = [W_Auto] \<and> \<not> auto_done_btn u'"
proof -
  have "\<forall>e \<in> set demo_filled. \<not> switched e" by (simp add: demo_filled_def)
  then have plain: "ui_reach_plain demo_ui"
    by (rule ui_reach_plain_run [OF ui_reach_plain.start demo_run])
  obtain u' where u': "ui_run [ClickAutoDone, Pump, Pump] demo_ui = Some u'" "workers u' = [W_Auto]" "tasks u' = []"
    by (simp add: demo_ui_view provided_def OnAutoDone_def post_defs)
  have "ui_reach_plain u'" by (rule ui_reach_plain_run [OF plain u'(1)]) simp
  from one_operation_at_a_time [OF this] u' show ?thesis by auto
qed

text \<open>The exclusion is lost after a switch. A switch that succeeds refreshes the adapters in a worker of its
  own and enables the buttons while that worker still runs; from there the window can come to run two
  automatic selections at the same time.\<close>
theorem two_selections_at_once:
  "\<exists>u. ui_reach u \<and> workers u = [W_Auto, W_Auto]"
proof -
  have "\<exists>u. ui_run [ClickSwitch, Pump, Answers 0 (A_Switch result_success), Pump, Pump, Pump,
      ClickAutoDone, Pump, Pump, Answers 0 (A_Adapters result_success demo_adapter_data), Pump, Pump, Pump,
      ClickAutoDone] demo_ui = Some u \<and> workers u = [W_Auto, W_Auto]"
    by (simp add: demo_ui_def demo_filled_def ui_eval)
  then show ?thesis using ui_reach_run [OF demo_reach] by blast
qed

text \<open>C11: The queue is worked off. From any state of an open window the message loop alone empties the queue in
  at most as many steps as there are tasks, counting a task that fills a list three times.\<close>
theorem queue_is_worked_off:
  assumes "\<not> ui.closed u"
  shows "\<exists>n \<le> length (tasks u) + 2 * length (filter is_fill (tasks u)).
    \<exists>u'. ui_run (replicate n Pump) u = Some u' \<and> tasks u' = [] \<and> workers u' = workers u"
  using pump_all [OF assms] by (simp only: task_weight_def)

theorem queue_is_worked_off_witness:
  "\<exists>n \<le> 1. \<exists>u'. ui_run (replicate n Pump) (InitWindow built) = Some u' \<and> tasks u' = []"
  using queue_is_worked_off [of "InitWindow built"] by (auto simp: InitWindow_def built_def post_defs)

end
