(* ===== verification/Application.thy ===== *)
theory Application
  imports Selector Dnsping_Ping Dnsping_Options Ui
begin

text \<open>
  The program put together: the members of \<open>dns_selector\<close> are the modelled components, and what the locales of
  the selector show holds of them. The outside stays a parameter: \<open>os\<close> for Windows and the server, \<open>net\<close> for
  Winsock, \<open>lib\<close> for the order of the standard library's containers.
\<close>

section \<open>The members\<close>

definition the_members :: "stdlib \<Rightarrow> 'w os \<Rightarrow> 'w net \<Rightarrow> ('w, 'm) dnsping_st_scheme members" where
  "the_members lib os net =
     \<lparr>m_fetch = (\<lambda>m s. fetched (fetch os m s)), m_ping = (\<lambda>ip. dns_ping net ip 0), m_adapters = list_adapters lib os [],
      m_switch = switch_adapter os\<rparr>"

lemma the_members_simps [simp]:
  "m_fetch (the_members lib os net) = (\<lambda>m s. fetched (fetch os m s))" "m_ping (the_members lib os net) ip = dns_ping net ip 0"
  "m_adapters (the_members lib os net) = list_adapters lib os []" "m_switch (the_members lib os net) = switch_adapter os"
  by (simp_all add: the_members_def)

interpretation pings: pinger "\<lambda>ip. dns_ping net ip t" for net t
  by unfold_locales (rule dns_ping_acts, assumption)+

lemma the_members_ping: "m_ping (the_members lib os net) = (\<lambda>d. dns_ping net d 0)"
  by (simp add: the_members_def)

lemma the_selector:
  assumes "stdlib_laws lib"
  shows "selector lib (the_members lib os net) switch_path"
  unfolding selector_def the_members_simps
  by (intro conjI assms fetcher.dns_source_axioms switcher.adapter_provider_axioms)
    (simp add: the_members_def pings.pinger_axioms)

interpretation app: selector ref_stdlib "the_members ref_stdlib os net" switch_path for os net
  by (rule the_selector) (rule ref_lib.stdlib_laws_axioms)

section \<open>A machine for witnesses\<close>

text \<open>One view with one server and one adapter with an automatic address, on a network that answers every query or
  none.\<close>

definition app_views :: dns_map where
  "app_views = [(wlit ''v'', [(ip_8, wlit ''9'')])]"

definition app_os :: "int os" where
  "app_os = demo_os (HttpResponse 200 (BodyJson (encode_respond app_views)))
     [demo_object 7 12 True [wlit ''1.2.4.8'']] [\<lparr>dwIndex = 12, dwInOctets = 5, dwOutOctets = 1\<rparr>]"

abbreviation members_on :: "int net \<Rightarrow> (int, 'm) dnsping_st_scheme members" where
  "members_on net \<equiv> the_members ref_stdlib app_os net"

abbreviation app_members :: "(int, 'm) dnsping_st_scheme members" where
  "app_members \<equiv> members_on (int_net None 10)"

lemma more_cfg: "st.more s = st.more s' \<Longrightarrow> cfg s = cfg s'"
  by (cases s; cases s') simp

lemma app_fetch: "\<exists>s1. fetch app_os [] s = (Inr result_success, app_views, s1) \<and> cfg s1 = cfg s"
proof -
  let ?v = "encode_respond app_views"
  define s0 where "s0 = showlog (MsgFetch ParseList)
      (emit (HttpGet NETWORK_INTERFACE) (showlog (MsgFetch RequestList) s))"
  have "?v \<noteq> JNull" by (simp add: encode_respond_def)
  moreover have "um_inserts (name_views (suffix s0) (map (\<lambda>(name, es). (Some name, Some es)) app_views)) [] = app_views"
    by (simp add: name_views_named app_views_def um_insert_def)
  ultimately obtain s1 where p: "parse_respond ?v [] s0 = (Inr result_success, app_views, s1)" "only_shows s0 s1"
    using parse_respond_reads [OF sorted_json_encode, of s0 "[]" app_views]
    by (auto simp: read_respond_encode split: prod.splits)
  have "fetch app_os [] s = (Inr result_success, app_views, s1)"
    using p(1) \<open>?v \<noteq> JNull\<close> by (simp add: fetch_def Let_def call_beta app_os_def handle_respond_def s0_def)
  moreover have "cfg s1 = cfg s"
    using p(2) by (intro more_cfg) (simp add: only_shows_def s0_def)
  ultimately show ?thesis by blast
qed

lemma app_obtain:
  "\<exists>s1. obtain_dns_info app_os (members_on net) s = Some (Inr app_views, s1) \<and> cfg s1 = cfg s"
proof -
  obtain s1 where "fetch app_os [] (showlog (MsgSelector AutoStart) s) = (Inr result_success, app_views, s1)"
      "cfg s1 = cfg (showlog (MsgSelector AutoStart) s)"
    using app_fetch by blast
  moreover have "cfg (showlog m s) = cfg s" for m by (simp add: showlog_def)
  ultimately show ?thesis
    by (simp add: obtain_dns_info_def NET_WORK_INTERFACE_REQUEST_MAX_TIME_def eval_nat_numeral Let_def)
qed

lemma app_walk: "walk ref_stdlib app_views = [(ip_8, wlit ''9'')]"
  by (simp add: walk_def um_iter_def permute_def ref_stdlib_def app_views_def)

lemma app_adapters:
  "\<exists>info s1. list_adapters ref_stdlib app_os [] s = (result_success, [info], s1) \<and> ai_dhcp info"
proof -
  let ?row = "\<lparr>dwIndex = 12, dwInOctets = 5, dwOutOctets = 1\<rparr> :: ifrow"
  obtain w where w: "List.map_filter adapter_of [demo_object 7 12 True [wlit ''1.2.4.8'']] = [w]" "wmi_dhcp w"
    by (simp add: List.map_filter_def adapter_of_demo_object)
  have one: "std_sort ref_stdlib (>) ai_recv_bytes_total [x] = [x]" for x
    using ref_lib.mset_std_sort [OF strict_weak_greater, of ai_recv_bytes_total "[x]"] by simp
  from demo_list_adapters [of ref_stdlib "HttpResponse 200 (BodyJson (encode_respond app_views))"
        "[demo_object 7 12 True [wlit ''1.2.4.8'']]" "[?row]" s, folded app_os_def, unfolded w(1) list.map one]
  obtain s1 where "list_adapters ref_stdlib app_os [] s = (result_success, [join_counters [counter_of_row ?row] w], s1)"
    by blast
  moreover have "ai_dhcp (join_counters [counter_of_row ?row] w)" using w(2) by (simp add: join_counters_def Let_def)
  ultimately show ?thesis by blast
qed

text \<open>The same machine with a fixed address and one server on its adapter.\<close>

definition static_os :: "int os" where
  "static_os = demo_os HttpException [demo_object 7 12 False [ip_8]] [\<lparr>dwIndex = 12, dwInOctets = 5, dwOutOctets = 1\<rparr>]"

lemma static_adapters:
  "\<exists>info s1. list_adapters ref_stdlib static_os [] s = (result_success, [info], s1)
     \<and> \<not> ai_dhcp info \<and> ai_dns_1 info = ip_8 \<and> ai_dns_2 info = []"
proof -
  let ?row = "\<lparr>dwIndex = 12, dwInOctets = 5, dwOutOctets = 1\<rparr> :: ifrow"
  obtain w where w: "List.map_filter adapter_of [demo_object 7 12 False [ip_8]] = [w]"
      "\<not> wmi_dhcp w \<and> wmi_dns_1 w = ip_8 \<and> wmi_dns_2 w = []"
    using dotted_text_simps(7) [OF ip_8_dotted]
    by (simp add: List.map_filter_def adapter_of_demo_object nth_or_empty_def)
  have one: "std_sort ref_stdlib (>) ai_recv_bytes_total [x] = [x]" for x
    using ref_lib.mset_std_sort [OF strict_weak_greater, of ai_recv_bytes_total "[x]"] by simp
  from demo_list_adapters [of ref_stdlib HttpException "[demo_object 7 12 False [ip_8]]" "[?row]" s,
      folded static_os_def, unfolded w(1) list.map one]
  obtain s1 where "list_adapters ref_stdlib static_os [] s = (result_success, [join_counters [counter_of_row ?row] w], s1)"
    by blast
  then show ?thesis using w(2) by (auto simp: join_counters_def Let_def)
qed

lemma app_switch_to:
  assumes "d \<noteq> []"
  shows "\<exists>s'. switch_to (members_on net) d d2 s = (result_success, s')"
proof -
  obtain info s1 where a: "list_adapters ref_stdlib app_os [] (showlog (MsgSelector FindAdapter) s) =
      (result_success, [info], s1)" "ai_dhcp info"
    using app_adapters by blast
  have sw: "\<exists>s'. switch_adapter app_os i d e s = (result_success, s')" if "e \<noteq> []" for i e and s :: "(int, 'a) dnsping_st_scheme"
  proof -
    have "fst (switch_adapter app_os i d e s) = result_success" using that assms
      by (simp add: app_os_def switch_adapter_def switch_adapter_dns_def initliaze_wmi_def connect_wmi_def exec_switch_def
          Let_def call_beta split_beta FAILED_def)
    then show ?thesis by (metis prod.collapse)
  qed
  have "backup_of info d \<noteq> []" using a(2) by (simp add: backup_of_def DEFAULT_DNS_1_def DEFAULT_DNS_2_def)
  then show ?thesis using a sw
    by (auto simp: switch_to_def Let_def split_beta)
qed

text \<open>A selection on this machine succeeds although no server answers.\<close>

lemma app_pings: "pings_return app_members D" if "\<forall>d \<in> D. length (c_str d) < 64"
  unfolding pings_return_def the_members_simps
  using that dns_ping_returns [OF int_net_clock [of 10 None]] by (metis prod_cases3 zero_less_numeral)

lemma app_silent: "silent (int_net None 10)" "winsock_starts (int_net None 10)" "app_table (cfg (int_st blank_config))"
  using int_net_ready [of None] by (simp_all add: ping_ready_def silent_def int_net_def)

lemma app_accepts:
  "d \<in> fst ` set (walk ref_stdlib app_views) \<Longrightarrow>
     dotted_text d \<and> (\<exists>a. accepts (int_net None 10) d = Some a \<and> \<not> CheckEmptyBuffer a)"
  using ip_8_dotted int_net_accepts [of None] by (simp add: app_walk CheckEmptyBuffer_def)

lemma app_utf8: "answers_utf8 app_os"
  by (simp add: answers_utf8_def app_os_def)

lemma members_fetch: "answers_utf8 os \<Longrightarrow> fetches_return (the_members lib os net)"
  unfolding fetches_return_def the_members_simps fetched_Some using fetch_returns by blast

lemma app_runs:
  "\<exists>res s'. auto_select_dns ref_stdlib app_os app_members (int_st blank_config) = Some (res, s')"
proof (rule auto_select_returns [OF members_fetch [OF app_utf8]])
  fix m s1
  assume "obtain_dns_info app_os app_members (int_st blank_config) = Some (Inr m, s1)"
  then have "m = app_views" using app_obtain [of "int_net None 10" "int_st blank_config"] by auto
  then show "pings_return app_members (fst ` set (walk ref_stdlib m))"
    using dotted_text_simps(7,8) [OF ip_8_dotted] by (intro app_pings) (simp add: app_walk)
qed

lemma app_selection:
  "\<exists>s'. auto_select_dns ref_stdlib app_os app_members (int_st blank_config) = Some (result_success, s')"
proof -
  obtain s1 where o: "obtain_dns_info app_os app_members (int_st blank_config) = Some (Inr app_views, s1)"
      "cfg s1 = cfg (int_st blank_config)"
    using app_obtain by blast
  obtain res s' where run: "auto_select_dns ref_stdlib app_os app_members (int_st blank_config) = Some (res, s')"
    using app_runs by blast
  have "pings_fail (\<lambda>s. app_table (cfg s)) app_members (fst ` set (walk ref_stdlib app_views))"
    unfolding pings_fail_def the_members_simps using app_accepts silent_ping [OF app_silent(1,2)] by blast
  from app.auto_select_all_timed_out [OF o(1) _ _ this _ run] o(2) app_silent(3)
  obtain d d2 s2 where "d \<in> fst ` set (walk ref_stdlib app_views)" "(res, s') = switch_to app_members d d2 s2"
    by (auto simp: app_walk showlog_def showwarning_def)
  then have "res = result_success"
    using app_switch_to [of d "int_net None 10" d2 s2] by (auto simp: app_walk ip_8_def)
  with run show ?thesis by blast
qed

section \<open>Automatic selection\<close>

text \<open>On the network that answers, the server is measured with 10 ms and chosen.\<close>

lemma app_answered:
  "\<exists>s'. auto_select_dns ref_stdlib app_os (members_on (int_net (Some app_reply) 10)) (int_st blank_config)
     = Some (result_success, s')"
proof -
  let ?M = "members_on (int_net (Some app_reply) 10)"
  obtain s1 where o: "obtain_dns_info app_os ?M (int_st blank_config) = Some (Inr app_views, s1)"
      "cfg s1 = cfg (int_st blank_config)"
    using app_obtain by blast
  let ?u = "showlog (MsgChoice (Measure ip_8)) (showlog (MsgSelector (GotDns 1)) s1)"
  have "app_table (cfg ?u)" using o(2) app_silent(3) by (simp add: showlog_def)
  from answered_ping [OF this, of 0] obtain u where
    "dns_ping (int_net (Some app_reply) 10) ip_8 0 ?u = Some (result_success, 10, u)" by blast
  then obtain s2 where
    "measure_all ?M (walk ref_stdlib app_views) [] (showlog (MsgSelector (GotDns (length (walk ref_stdlib app_views)))) s1)
      = Some ([(10, ip_8)], s2)"
    by (simp add: app_walk)
  moreover have one: "std_sort ref_stdlib (<) fst [(10 :: u32, ip_8)] = [(10, ip_8)]"
    using ref_lib.mset_std_sort [OF strict_weak_less, of fst "[(10 :: u32, ip_8)]"] by simp
  ultimately have "auto_select_dns ref_stdlib app_os ?M (int_st blank_config) =
      Some (switch_to ?M ip_8 [] (snd (choose_dns [(10, ip_8)] (showlog (MsgChoice Choose) s2))))"
    using o(1) by (simp add: auto_select_dns_def choose_dns_def PING_TIMEOUT_def Let_def)
  moreover have "ip_8 \<noteq> []" by (simp add: ip_8_def)
  ultimately show ?thesis using app_switch_to by metis
qed

text \<open>C1: The automatic selection. A successful selection has obtained a map of servers and then pinged every one of
  them once, in the order of the map, each ping in the state that the one before it left. It sorted the servers by
  their times, which are the time the server's own ping reported, when it succeeded, and 9999999 when it failed.
  Then it listed the adapters and made one more call of \<open>SetDNSServerSearchOrder\<close>, on the first adapter, with the
  fastest server and, as the second one, the next fastest or, where there is none, a default or a server of the
  adapter.\<close>
theorem selection_takes_fastest:
  fixes s :: "('w, 'm) dnsping_st_scheme"
  assumes "stdlib_laws lib"
    and "auto_select_dns lib os (the_members lib os net) s = Some (result_success, s')"
  shows "\<exists>m s1 outs s2 ts info rest s3 dns_2 s4.
    obtain_dns_info os (the_members lib os net) s = Some (Inr m, s1)
    \<and> pings_run (\<lambda>d. dns_ping net d 0) s1 outs s2 \<and> map fst outs = map fst (walk lib m)
    \<and> mset ts = mset (map (\<lambda>(d, r, t). (if r = result_success then t else time_out, d)) outs)
    \<and> sorted (map fst ts) \<and> ts \<noteq> []
    \<and> list_adapters lib os [] (showlog (MsgSelector FindAdapter) s2) = (result_success, info # rest, s3)
    \<and> dns_2 = (if length ts > 1 \<and> fst (ts ! 1) \<noteq> PING_TIMEOUT \<and> snd (ts ! 1) \<noteq> []
               then snd (ts ! 1) else backup_of info (snd (hd ts)))
    \<and> dns_2 \<noteq> [] \<and> only_shows s3 s4 \<and> switch_adapter os (ai_id info) (snd (hd ts)) dns_2 s4 = (result_success, s')
    \<and> acts s' = acts s1 @ map (\<lambda>i. Ping (fst i)) (walk lib m)
        @ [ExecMethod (switch_path (ai_id info)) [c_str (snd (hd ts)), c_str dns_2]]"
  using selector.auto_select_best [OF the_selector [OF assms(1)] assms(2)]
  by (simp only: the_members_simps the_members_ping time_of_def [abs_def])

theorem selection_takes_fastest_witness:
  "\<exists>s' es (info :: adapter_info) dns_2.
     auto_select_dns ref_stdlib app_os (members_on (int_net (Some app_reply) 10)) (int_st blank_config)
       = Some (result_success, s')
     \<and> acts s' = es @ [Ping ip_8, ExecMethod (switch_path (ai_id info)) [c_str ip_8, c_str dns_2]]"
proof -
  let ?net = "int_net (Some app_reply) 10"
  obtain s' where run: "auto_select_dns ref_stdlib app_os (members_on ?net) (int_st blank_config) = Some (result_success, s')"
    using app_answered by blast
  from selection_takes_fastest [OF ref_lib.stdlib_laws_axioms run] obtain m s1 dns_2
    and outs :: "(wstring \<times> result \<times> u32) list" and ts :: "(u32 \<times> wstring) list" and info :: adapter_info where
    m: "obtain_dns_info app_os (members_on ?net) (int_st blank_config) = Some (Inr m, s1)"
    and ts: "map fst outs = map fst (walk ref_stdlib m)"
      "mset ts = mset (map (\<lambda>(d, r, t). (if r = result_success then t else time_out, d)) outs)"
    and acts: "acts s' = acts s1 @ map (\<lambda>i. Ping (fst i)) (walk ref_stdlib m)
        @ [ExecMethod (switch_path (ai_id info)) [c_str (snd (hd ts)), c_str dns_2]]" by blast
  have "m = app_views" using m app_obtain [of ?net "int_st blank_config"] by auto
  moreover from this ts have "snd (hd ts) = ip_8" by (auto simp: app_walk map_eq_Cons_conv)
  ultimately show ?thesis using run acts by (auto simp: app_walk)
qed

text \<open>C13: The selection is bounded. When it returns, whatever its result, it has made between one and four requests for the
  list, waited at most three times and switched at most twice (once to the public servers).\<close>
theorem selection_bounded:
  assumes "stdlib_laws lib" and "auto_select_dns lib os (the_members lib os net) s = Some (res, s')"
  shows "extends s s' \<and> (\<exists>es. acts s' = acts s @ es \<and> 1 \<le> gets es \<and> gets es \<le> 4 \<and> sleeps es \<le> 3 \<and> execs es \<le> 2)"
  using selector.auto_select_bounded [OF the_selector [OF assms(1)] assms(2)] by blast

theorem selection_bounded_witness:
  "\<exists>res s'. auto_select_dns ref_stdlib app_os app_members (int_st blank_config) = Some (res, s')
     \<and> 1 \<le> gets (acts s') \<and> gets (acts s') \<le> 4 \<and> execs (acts s') \<le> 2"
proof -
  obtain res s' where run: "auto_select_dns ref_stdlib app_os app_members (int_st blank_config) = Some (res, s')"
    using app_runs by blast
  with selection_bounded [OF ref_lib.stdlib_laws_axioms run] show ?thesis by (auto simp: acts_def)
qed

text \<open>C27: The selection returns. When no answer for the list has a body that is not UTF-8, the performance counter
  advances and the servers of the list have fewer than 64 characters, no exception leaves a request, all pings return,
  and so does the selection.\<close>
theorem selection_returns:
  assumes "answers_utf8 os" and "clock_advances net clock"
    and "\<And>m s1 d. obtain_dns_info os (the_members lib os net) s = Some (Inr m, s1) \<Longrightarrow> d \<in> fst ` set (walk lib m)
           \<Longrightarrow> length (c_str d) < 64"
  shows "\<exists>res s'. auto_select_dns lib os (the_members lib os net) s = Some (res, s')"
proof (rule auto_select_returns [OF members_fetch [OF assms(1)]])
  fix m s1
  assume "obtain_dns_info os (the_members lib os net) s = Some (Inr m, s1)"
  from assms(3) [OF this] show "pings_return (the_members lib os net) (fst ` set (walk lib m))"
    unfolding pings_return_def using dns_ping_returns [OF assms(2)] by (metis prod_cases3 the_members_simps(2))
qed

theorem selection_returns_witness:
  "\<exists>res s'. auto_select_dns ref_stdlib app_os app_members (int_st blank_config) = Some (res, s')"
proof (rule selection_returns [OF app_utf8 int_net_clock [of 10 None]])
  show "0 < (10 :: int)" by simp
  show "length (c_str d) < 64"
    if "obtain_dns_info app_os app_members (int_st blank_config) = Some (Inr m, s1)"
      "d \<in> fst ` set (walk ref_stdlib m)" for m s1 d
    using that app_obtain [of "int_net None 10" "int_st blank_config"] dotted_text_simps(7,8) [OF ip_8_dotted]
    by (auto simp: app_walk)
qed

text \<open>And it does not return when the first answer has such a body: nothing between the request and the thread of the
  window catches the exception.\<close>
theorem undecodable_answer_escapes:
  assumes "fst (os_http_get os NETWORK_INTERFACE (wd s)) = HttpResponse 200 (BodyRangeError e)"
  shows "auto_select_dns lib os (the_members lib os net) s = None"
proof -
  have "fetched (fetch os [] (showlog (MsgSelector AutoStart) s)) = None" using assms by (simp add: fetched_None)
  then show ?thesis
    by (simp add: auto_select_dns_def obtain_dns_info_def NET_WORK_INTERFACE_REQUEST_MAX_TIME_def eval_nat_numeral)
qed

theorem undecodable_answer_escapes_witness:
  "\<exists>e. auto_select_dns ref_stdlib (demo_os (HttpResponse 200 (BodyRangeError e)) [] [])
     (the_members ref_stdlib (demo_os (HttpResponse 200 (BodyRangeError e)) [] []) (int_net None 10)) (int_st blank_config) = None"
  by (rule exI) (rule undecodable_answer_escapes, simp)

text \<open>Servers that all time out. When the network never answers, every server of the list gets the same time of
  9999999 ms; the check for a choice compares with \<open>PING_TIMEOUT\<close>, which is another number, so the
  selection goes on and switches to one of the servers that did not answer.\<close>
theorem silent_servers_selected:
  assumes "stdlib_laws lib" and "silent net" and "winsock_starts net"
    and "obtain_dns_info os (the_members lib os net) s = Some (Inr m, s1)" and "walk lib m \<noteq> []" and "app_table (cfg s1)"
    and "\<And>d. d \<in> fst ` set (walk lib m) \<Longrightarrow> dotted_text d \<and> (\<exists>a. accepts net d = Some a \<and> \<not> CheckEmptyBuffer a)"
    and "auto_select_dns lib os (the_members lib os net) s = Some (res, s')"
  shows "\<exists>d d2 s2. d \<in> fst ` set (walk lib m) \<and> (res, s') = switch_to (the_members lib os net) d d2 s2
    \<and> acts s2 = acts s1 @ map (\<lambda>i. Ping (fst i)) (walk lib m)"
proof (rule selector.auto_select_all_timed_out [OF the_selector [OF assms(1)] assms(4,5), where I = "\<lambda>s. app_table (cfg s)"])
  show "pings_fail (\<lambda>s. app_table (cfg s)) (the_members lib os net) (fst ` set (walk lib m))"
    unfolding pings_fail_def the_members_simps using assms(7) silent_ping [OF assms(2,3)] by blast
  show "app_table (cfg s1)" by (rule assms(6))
  show "app_table (cfg s) \<Longrightarrow> app_table (cfg (showlog m s)) \<and> app_table (cfg (showwarning m s))" for m s
    by (simp add: showlog_def showwarning_def)
  show "auto_select_dns lib os (the_members lib os net) s = Some (res, s')" by (rule assms(8))
qed

theorem silent_servers_selected_witness:
  "\<exists>d2 s2 res s'. auto_select_dns ref_stdlib app_os app_members (int_st blank_config) = Some (res, s')
     \<and> (res, s') = switch_to app_members ip_8 d2 s2"
proof -
  obtain s1 where o: "obtain_dns_info app_os app_members (int_st blank_config) = Some (Inr app_views, s1)"
      "cfg s1 = cfg (int_st blank_config)"
    using app_obtain by blast
  obtain res s' where run: "auto_select_dns ref_stdlib app_os app_members (int_st blank_config) = Some (res, s')"
    using app_runs by blast
  from silent_servers_selected [OF ref_lib.stdlib_laws_axioms app_silent(1,2) o(1) _ _ app_accepts run] o(2) app_silent(3)
  have "\<exists>d d2 s2. d \<in> fst ` set (walk ref_stdlib app_views) \<and> (res, s') = switch_to app_members d d2 s2"
    by (auto simp: app_walk)
  with run show ?thesis by (auto simp: app_walk)
qed

section \<open>The requests of the window\<close>

text \<open>A pair that cannot be completed. When the selection found one server only, and the first adapter has a fixed
  address and no other server than that one, the second server stays empty and the switch is refused as an invalid
  address, although a server was found.\<close>
theorem single_server_refused:
  fixes s :: "('w, 'm) dnsping_st_scheme"
  assumes "stdlib_laws lib"
    and "list_adapters lib os [] (showlog (MsgSelector FindAdapter) s) = (result_success, info # rest, s1)"
    and "\<not> ai_dhcp info" and "ai_dns_1 info = [] \<or> ai_dns_1 info = dns_1 \<and> ai_dns_2 info \<in> {[], dns_1}"
    and "dns_1 \<noteq> []"
  shows "fst (switch_to (the_members lib os net) dns_1 [] s) = result_dns_ip_invalid"
  by (rule selector.switch_to_incomplete [OF the_selector [OF assms(1)], unfolded the_members_simps, OF assms(2-5)])

theorem single_server_refused_witness:
  "fst (switch_to (the_members ref_stdlib static_os (int_net None 10)) ip_8 [] (int_st blank_config))
     = result_dns_ip_invalid"
proof -
  obtain info s1 where "list_adapters ref_stdlib static_os [] (showlog (MsgSelector FindAdapter) (int_st blank_config))
      = (result_success, [info], s1)" "\<not> ai_dhcp info" "ai_dns_1 info = ip_8" "ai_dns_2 info = []"
    using static_adapters by blast
  then show ?thesis
    by (intro single_server_refused [OF ref_lib.stdlib_laws_axioms]) (auto simp: ip_8_def)
qed

text \<open>Switching on request. A request to switch an adapter to a server makes at most one call, with that server
  first; the second one is the same server or another one that the adapter already uses; a success made the call.\<close>
theorem switch_request_keeps_server:
  fixes s :: "('w, 'm) dnsping_st_scheme"
  assumes "stdlib_laws lib" and "on_switch_dns (the_members lib os net) i ip s = (res, s')"
  shows "\<exists>d. (d = ip \<or> (\<exists>info r vec s1. list_adapters lib os [] s = (r, vec, s1) \<and> info \<in> set vec \<and> ai_id info = i
                 \<and> d \<in> {ai_dns_1 info, ai_dns_2 info} \<and> d \<noteq> ip \<and> d \<noteq> []))
    \<and> extends s s' \<and> acts s' \<in> {acts s, acts s @ [ExecMethod (switch_path i) [c_str ip, c_str d]]}
    \<and> (res = result_success \<longrightarrow> acts s' = acts s @ [ExecMethod (switch_path i) [c_str ip, c_str d]])"
  by (rule selector.on_switch_dns_outcome [OF the_selector [OF assms(1)] assms(2), unfolded the_members_simps])

theorem switch_request_keeps_server_witness:
  "\<exists>res s' d. on_switch_dns app_members 7 ip_8 (int_st blank_config) = (res, s')
     \<and> acts s' \<in> {[], [ExecMethod (switch_path 7) [c_str ip_8, c_str d]]}"
proof -
  obtain res s' where run: "on_switch_dns app_members 7 ip_8 (int_st blank_config) = (res, s')" by fastforce
  from switch_request_keeps_server [OF ref_lib.stdlib_laws_axioms run] run show ?thesis by (auto simp: acts_def)
qed

text \<open>The list of servers. Refreshing the list appends to it exactly the servers and uptimes of the obtained map,
  in the order of their times, and leaves it alone when the map could not be obtained.\<close>
theorem refresh_lists_servers:
  fixes s :: "('w, 'm) dnsping_st_scheme"
  assumes "stdlib_laws lib" and "on_freshen_dns_info lib os (the_members lib os net) data s = Some (res, data', s')"
  shows "\<exists>m. (\<exists>(s1 :: ('w, 'm) dnsping_st_scheme) s2. fetch os [] s1 = (Inr res, m, s2)) \<and> wf_dns_map m \<and>
    (if res = result_success
     then \<exists>ts :: (u32 \<times> ui_dns_info) list. fd_ip_dns_info data' = fd_ip_dns_info data @ map snd ts \<and> sorted (map fst ts)
            \<and> mset (map (\<lambda>x. (ud_vip (snd x), ud_uptime (snd x))) ts) = mset (walk lib m)
     else fd_ip_dns_info data' = fd_ip_dns_info data)"
  by (rule selector.on_freshen_dns_info_outcome [OF the_selector [OF assms(1)] assms(2), unfolded the_members_simps fetched_Some])

theorem refresh_lists_servers_witness:
  "\<exists>res data' s'. on_freshen_dns_info ref_stdlib app_os app_members
       \<lparr>fd_freshen_take_time = [], fd_ip_dns_info = []\<rparr> (int_st blank_config) = Some (res, data', s')
     \<and> res = result_success \<and> map ud_vip (fd_ip_dns_info data') = [ip_8]"
proof -
  let ?data = "\<lparr>fd_freshen_take_time = [], fd_ip_dns_info = []\<rparr>"
  have views: "r = result_success \<and> m = app_views" if "fetch app_os [] s = (Inr r, m, s1)"
    for r m s1 and s :: "int dnsping_st"
  proof -
    obtain s2 where "fetch app_os [] s = (Inr result_success, app_views, s2)" using app_fetch [of s] by blast
    with that show ?thesis by simp
  qed
  have "pings_return app_members (fst ` set (walk ref_stdlib m))"
    if "m_fetch app_members [] s = Some (result_success, m, s1)" for m s1 and s :: "int dnsping_st"
  proof -
    have "m = app_views" using views [of s result_success m s1] that by simp
    then show ?thesis using dotted_text_simps(7,8) [OF ip_8_dotted] by (intro app_pings) (simp add: app_walk)
  qed
  then have "\<exists>res data' s'. on_freshen_dns_info ref_stdlib app_os app_members ?data (int_st blank_config) = Some (res, data', s')"
    by (rule on_freshen_dns_info_returns [OF members_fetch [OF app_utf8]])
  then obtain res data' s' where
    run: "on_freshen_dns_info ref_stdlib app_os app_members ?data (int_st blank_config) = Some (res, data', s')"
    by blast
  from refresh_lists_servers [OF ref_lib.stdlib_laws_axioms run] obtain m s1 s2 where
    "fetch app_os [] (s1 :: int dnsping_st) = (Inr res, m, s2)" and
    list: "if res = result_success
     then \<exists>ts :: (u32 \<times> ui_dns_info) list. fd_ip_dns_info data' = fd_ip_dns_info ?data @ map snd ts \<and> sorted (map fst ts)
            \<and> mset (map (\<lambda>x. (ud_vip (snd x), ud_uptime (snd x))) ts) = mset (walk ref_stdlib m)
     else fd_ip_dns_info data' = fd_ip_dns_info ?data" by blast
  with views [of s1 res m s2] have r: "res = result_success" "m = app_views" by simp_all
  with list obtain ts :: "(u32 \<times> ui_dns_info) list" where ts: "fd_ip_dns_info data' = map snd ts"
      "mset (map (\<lambda>x. (ud_vip (snd x), ud_uptime (snd x))) ts) = {#(ip_8, wlit ''9'')#}" by (auto simp: app_walk)
  from ts(2) have "map (\<lambda>x. (ud_vip (snd x), ud_uptime (snd x))) ts = [(ip_8, wlit ''9'')]"
    by (simp only: mset_single_iff)
  with run r ts(1) show ?thesis by (auto simp: map_eq_Cons_conv)
qed

end
