(* ===== verification/Dnsping_Statistics.thy ===== *)
theory Dnsping_Statistics
  imports Dnsping_Ping
begin

text \<open>
  What DNSPing says before, after and between its requests: the line that opens a run (\<open>PrintHeaderToScreen\<close> of
  \<open>Main.cpp\<close>), the statistics (\<open>PrintProcess\<close> of \<open>Process.cpp\<close>) and the handler for Ctrl+C, Ctrl+Break and the other
  signals of a console (\<open>Console.cpp\<close>). A result is the text on the screen and the text in the output file.
\<close>

section \<open>The texts\<close>

definition to_both :: "config \<Rightarrow> wstring \<Rightarrow> wstring \<times> wstring" where
  "to_both c w = (w, if OutputFile c then w else [])"

text \<open>\<open>fms\<close> is the conversion \<open>%lf\<close>. The subtraction of the guard is a signed one.\<close>

definition lost_text :: "config \<Rightarrow> wstring" where
  "lost_text c =
     (let sent = Statistics_RealSend c; received = Statistics_RecvNum c
      in if sint sent - sint received \<ge> 0
         then wlit ''   Lost: '' @ to_wstring (unat (sent - received))
           @ (if sent > 0 then wlit '' ('' @ to_wstring (unat ((sent - received) * 100 div sent)) @ wlit ''%)'' else [])
           @ newline
         else wlit ''   Lost: 0 (0%)'' @ newline)"

definition packet_text :: "config \<Rightarrow> wstring" where
  "packet_text c =
     newline @ wlit ''Packet statistics for pinging '' @ c_str (wTargetString c) @ wlit '':'' @ newline
     @ wlit ''   Send: '' @ to_wstring (unat (Statistics_RealSend c)) @ newline
     @ wlit ''   Receive: '' @ to_wstring (unat (Statistics_RecvNum c)) @ newline @ lost_text c"

definition time_text :: "(real \<Rightarrow> wstring) \<Rightarrow> config \<Rightarrow> wstring" where
  "time_text fms c =
     newline @ wlit ''Time statistics for pinging '' @ c_str (wTargetString c) @ wlit '':'' @ newline
     @ wlit ''   Minimum time: '' @ fms (Statistics_MinTime c) @ wlit '' ms.'' @ newline
     @ wlit ''   Maximum time: '' @ fms (Statistics_MaxTime c) @ wlit '' ms.'' @ newline
     @ wlit ''   Average time: '' @ fms (Statistics_TotalTime c / real (unat (Statistics_RecvNum c))) @ wlit '' ms.'' @ newline"

definition PrintProcess :: "(real \<Rightarrow> wstring) \<Rightarrow> bool \<Rightarrow> bool \<Rightarrow> config \<Rightarrow> wstring \<times> wstring" where
  "PrintProcess fms IsPacketStatistics IsTimeStatistics c =
     to_both c ((if IsPacketStatistics then packet_text c else [])
       @ (if IsTimeStatistics \<and> Statistics_RecvNum c > 0 \<and> Statistics_MaxTime c > 0 \<and> Statistics_MinTime c > 0
          then time_text fms c else []))"

text \<open>
  The opening line names the target by its address, or by a name with the address in brackets. \<open>host\<close> is what
  \<open>getnameinfo\<close> answers for the target: an error code or a name.
\<close>

definition opening_line :: "config \<Rightarrow> wstring \<Rightarrow> wstring option \<Rightarrow> wstring" where
  "opening_line c wTestDomain name =
     (let port = wlit '':'' @ to_wstring (unat (htons (ServiceType c)))
      in wlit ''DNSPing '' @ (case name of
           None \<Rightarrow> c_str (wTargetString c) @ port
         | Some n \<Rightarrow> c_str n @ port @ wlit '' ['' @ c_str (wTargetString c) @ wlit '']'')
         @ wlit '' with '' @ c_str wTestDomain @ wlit '':'' @ newline)"

definition PrintHeaderToScreen :: "'w net \<Rightarrow> u32 + bytes \<Rightarrow> wstring \<Rightarrow> wstring \<Rightarrow> config \<Rightarrow> wstring \<times> wstring" where
  "PrintHeaderToScreen net host wTargetAddressString wTestDomain c =
     (let line = (\<lambda>before name. (newline @ before @ opening_line c wTestDomain name,
                                 if OutputFile c then opening_line c wTestDomain name else []))
      in if ReverseLookup c \<and> ss_family (SockAddr_SOCKS c) = 0
         then (if wTargetAddressString = []
               then (case host of
                       Inl e \<Rightarrow> line (wlit ''Resolve addresses to host names error, error code is ''
                                  @ print_int (sint e) @ wlit ''.'' @ newline) None
                     | Inr FQDN \<Rightarrow> line [] (if TargetString_Normal c = FQDN then None else Some (n_from_acp net FQDN)))
               else line [] (Some wTargetAddressString))
         else line [] (if TargetAddressString c \<noteq> [] then Some wTargetAddressString else None))"

text \<open>The handler: what it answers, what it writes, and whether it closes the files and Winsock.\<close>

datatype ctrl_type = CTRL_C_EVENT | CTRL_BREAK_EVENT | CTRL_OTHER_EVENT

definition CtrlHandler :: "(real \<Rightarrow> wstring) \<Rightarrow> ctrl_type \<Rightarrow> config \<Rightarrow> bool \<times> (wstring \<times> wstring) \<times> bool" where
  "CtrlHandler fms fdwCtrlType c =
     (let (screen, file) = PrintProcess fms True True c
      in case fdwCtrlType of
           CTRL_C_EVENT \<Rightarrow> (False, (wlit ''Get Control-C.'' @ newline @ screen, file), True)
         | CTRL_BREAK_EVENT \<Rightarrow> (True, (wlit ''Get Control-Break.'' @ newline @ screen, file), False)
         | CTRL_OTHER_EVENT \<Rightarrow> (False, (wlit ''Get closing signal.'' @ newline @ screen, file), True))"

section \<open>What the statistics say of a run\<close>

lemma lost_text_counts:
  assumes "unat (Statistics_RecvNum c) \<le> unat (Statistics_RealSend c)" and "unat (Statistics_RealSend c) \<le> 65536"
  shows "lost_text c =
    (let sent = unat (Statistics_RealSend c); lost = sent - unat (Statistics_RecvNum c)
     in wlit ''   Lost: '' @ to_wstring lost
        @ (if sent > 0 then wlit '' ('' @ to_wstring (100 * lost div sent) @ wlit ''%)'' else []) @ newline)"
proof -
  define s r where "s = Statistics_RealSend c" and "r = Statistics_RecvNum c"
  have small: "sint w = int (unat w)" if "unat w \<le> 65536" for w :: u32
  proof -
    have w: "uint w \<le> 65536" "0 \<le> uint w" using that uint_nat [of w] by linarith+
    have "signed_take_bit 31 (uint w) = uint w" by (rule signed_take_bit_int_eq_self) (use w order_trans [of "- 2147483648" 0 "uint w"] in simp_all)
    then show ?thesis by (simp add: sint_uint flip: uint_nat)
  qed
  have sr: "unat r \<le> unat s" "unat s \<le> 65536" "unat r \<le> 65536" using assms by (simp_all add: s_def r_def)
  have "sint s - sint r \<ge> 0" using small [OF sr(2)] small [OF sr(3)] sr(1) by linarith
  moreover have diff: "unat (s - r) = unat s - unat r" using sr(1) by (simp add: unat_sub word_le_nat_alt)
  moreover have times: "unat (x * 100) = unat x * 100" if "unat x \<le> 65536" for x :: u32
    using that by (subst unat_word_ariths(2)) simp
  have "unat ((s - r) * 100) = (unat s - unat r) * 100"
    using times [of "s - r"] sr diff by linarith
  then have "unat ((s - r) * 100 div s) = 100 * (unat s - unat r) div unat s" by (simp add: unat_div mult.commute)
  moreover have "s > 0 \<longleftrightarrow> unat s > 0" by (simp add: word_less_nat_alt)
  ultimately show ?thesis by (simp add: lost_text_def Let_def flip: s_def r_def)
qed

text \<open>C30: The statistics of a run. When the main process has ended, the statistics name the packets that were sent and
  received, their difference as lost, which is never negative, and its percentage; with responses also the times, whose
  average lies between the minimum and the maximum. The file gets the text of the screen.\<close>
theorem statistics_shown:
  assumes "dnsping_main net argv s = Some (ok, s')" and "clock_advances net clock" and "2 < length argv"
  shows "let c = cfg s'; sent = unat (Statistics_RealSend c); received = unat (Statistics_RecvNum c);
      mean = Statistics_TotalTime c / real received
    in received \<le> sent
      \<and> fst (PrintProcess fms True False c) =
        newline @ wlit ''Packet statistics for pinging '' @ c_str (wTargetString c) @ wlit '':'' @ newline
        @ wlit ''   Send: '' @ to_wstring sent @ newline @ wlit ''   Receive: '' @ to_wstring received @ newline
        @ wlit ''   Lost: '' @ to_wstring (sent - received)
        @ (if sent > 0 then wlit '' ('' @ to_wstring (100 * (sent - received) div sent) @ wlit ''%)'' else []) @ newline
      \<and> fst (PrintProcess fms False True c) = (if received > 0 then time_text fms c else [])
      \<and> (received > 0 \<longrightarrow> Statistics_MinTime c \<le> mean \<and> mean \<le> Statistics_MaxTime c)
      \<and> snd (PrintProcess fms True True c) \<in> {fst (PrintProcess fms True True c), []}"
proof -
  have t: "unat (Statistics_RecvNum (cfg s')) \<le> unat (Statistics_RealSend (cfg s'))"
    "unat (Statistics_RealSend (cfg s')) \<le> 65536" "mean_ok (cfg s')"
    using dnsping_main_tally [OF assms] by (simp_all add: tally_def)
  have "unat (Statistics_RecvNum (cfg s')) > 0 \<longleftrightarrow> Statistics_RecvNum (cfg s') > 0" by (simp add: word_less_nat_alt)
  moreover have "Statistics_RecvNum (cfg s') \<noteq> 0 \<Longrightarrow> 0 < Statistics_MaxTime (cfg s')"
    using mean_between [OF t(3)] by linarith
  ultimately show ?thesis
    using mean_between [OF t(3)] t(1) lost_text_counts [OF t(1,2)]
    by (auto simp: PrintProcess_def to_both_def packet_text_def Let_def)
qed

theorem statistics_shown_witness:
  "\<exists>s'. dnsping_main (int_net None 10) [wlit ''a.exe'', wlit ''-t'', wlit ''www.qq.com'', wlit ''8.8.8.8''] (int_st blank_config)
      = Some s' \<and> unat (Statistics_RecvNum (cfg (snd s'))) \<le> unat (Statistics_RealSend (cfg (snd s')))"
proof -
  let ?argv = "[wlit ''a.exe'', wlit ''-t'', wlit ''www.qq.com'', wlit ''8.8.8.8'']"
  obtain ok s' where run: "dnsping_main (int_net None 10) ?argv (int_st blank_config) = Some (ok, s')"
    using dnsping_main_returns [OF int_net_clock [of 10 None], of ?argv "int_st blank_config"]
    by (auto simp: asks_result_def is_option_def)
  with statistics_shown [OF run int_net_clock, of "\<lambda>_. []"] show ?thesis by (simp add: Let_def)
qed

end
