(* ===== verification/Json_Number.thy ===== *)
theory Json_Number
  imports Json_Value
begin

text \<open>
  The tests and conversions of \<open>json::number\<close> (\<open>json.h\<close>, \<open>json.cpp\<close>). Every conversion of an integer is a cast of its
  64 bits; a \<open>double\<close> is truncated, and outside the range of the target C++ leaves the result undefined (\<open>None\<close>).
\<close>

section \<open>Tests and conversions\<close>

fun is_int32 :: "number \<Rightarrow> bool" where
  "is_int32 (Signed n) \<longleftrightarrow> - (2 ^ 31) \<le> sint n \<and> sint n \<le> 2 ^ 31 - 1"
| "is_int32 (Unsigned n) \<longleftrightarrow> n \<le> 0x7FFFFFFF"
| "is_int32 (Double d) \<longleftrightarrow> False"

fun is_uint32 :: "number \<Rightarrow> bool" where
  "is_uint32 (Signed n) \<longleftrightarrow> 0 \<le> sint n \<and> sint n \<le> 2 ^ 32 - 1"
| "is_uint32 (Unsigned n) \<longleftrightarrow> n \<le> 0xFFFFFFFF"
| "is_uint32 (Double d) \<longleftrightarrow> False"

fun is_int64 :: "number \<Rightarrow> bool" where
  "is_int64 (Signed n) \<longleftrightarrow> True"
| "is_int64 (Unsigned n) \<longleftrightarrow> n \<le> 0x7FFFFFFFFFFFFFFF"
| "is_int64 (Double d) \<longleftrightarrow> False"

fun is_uint64 :: "number \<Rightarrow> bool" where
  "is_uint64 (Signed n) \<longleftrightarrow> 0 \<le> sint n"
| "is_uint64 (Unsigned n) \<longleftrightarrow> True"
| "is_uint64 (Double d) \<longleftrightarrow> False"

fun is_integral :: "number \<Rightarrow> bool" where
  "is_integral (Double d) = False"
| "is_integral _ = True"

definition trunc :: "rat \<Rightarrow> int" where
  "trunc d = (if d < 0 then \<lceil>d\<rceil> else \<lfloor>d\<rfloor>)"

definition cast_double :: "int \<Rightarrow> int \<Rightarrow> rat \<Rightarrow> 'a :: len word option" where
  "cast_double low high d = (if low \<le> trunc d \<and> trunc d \<le> high then Some (of_int (trunc d)) else None)"

fun to_int32 :: "number \<Rightarrow> u32 option" where
  "to_int32 (Double d) = cast_double (- (2 ^ 31)) (2 ^ 31 - 1) d"
| "to_int32 (Signed n) = Some (ucast n)"
| "to_int32 (Unsigned n) = Some (ucast n)"

fun to_uint32 :: "number \<Rightarrow> u32 option" where
  "to_uint32 (Double d) = cast_double 0 (2 ^ 32 - 1) d"
| "to_uint32 (Signed n) = Some (ucast n)"
| "to_uint32 (Unsigned n) = Some (ucast n)"

fun to_int64 :: "number \<Rightarrow> 64 word option" where
  "to_int64 (Double d) = cast_double (- (2 ^ 63)) (2 ^ 63 - 1) d"
| "to_int64 (Signed n) = Some n"
| "to_int64 (Unsigned n) = Some n"

fun to_uint64 :: "number \<Rightarrow> 64 word option" where
  "to_uint64 (Double d) = cast_double 0 (2 ^ 64 - 1) d"
| "to_uint64 (Signed n) = Some n"
| "to_uint64 (Unsigned n) = Some n"

text \<open>\<open>operator==\<close> compares numbers of the same representation only.\<close>

fun number_equal :: "number \<Rightarrow> number \<Rightarrow> bool" where
  "number_equal (Signed m) (Signed n) \<longleftrightarrow> m = n"
| "number_equal (Unsigned m) (Unsigned n) \<longleftrightarrow> m = n"
| "number_equal (Double c) (Double d) \<longleftrightarrow> c = d"
| "number_equal _ _ \<longleftrightarrow> False"

lemma number_equal_iff: "number_equal m n \<longleftrightarrow> m = n"
  by (cases m; cases n) simp_all

section \<open>A test guards its conversion\<close>

fun number_value :: "number \<Rightarrow> rat" where
  "number_value (Signed n) = of_int (sint n)"
| "number_value (Unsigned n) = of_int (uint n)"
| "number_value (Double d) = d"

lemma uint_of_small: "0 \<le> i \<Longrightarrow> i < 2 ^ LENGTH('a) \<Longrightarrow> uint (of_int i :: 'a :: len word) = i"
  by (simp add: unsigned_of_int take_bit_int_eq_self)

lemma sint_of_small:
  "- (2 ^ (LENGTH('a) - 1)) \<le> i \<Longrightarrow> i < 2 ^ (LENGTH('a) - 1) \<Longrightarrow> sint (of_int i :: 'a :: len word) = i"
  by (simp add: signed_of_int signed_take_bit_int_eq_self)

lemma ucast_of_uint: "ucast (n :: 64 word) = (of_int (uint n) :: u32)"
  by simp

lemma ucast_of_sint: "ucast (n :: 64 word) = (of_int (sint n) :: u32)"
  by (rule bit_word_eqI) (simp add: bit_simps)

text \<open>When a number passes the test for a type of integers, its conversion to this type keeps the
  value.\<close>
theorem tested_conversions_exact:
  "(is_int32 n \<longrightarrow> (\<exists>w. to_int32 n = Some w \<and> of_int (sint w) = number_value n))
   \<and> (is_uint32 n \<longrightarrow> (\<exists>w. to_uint32 n = Some w \<and> of_int (uint w) = number_value n))
   \<and> (is_int64 n \<longrightarrow> (\<exists>w. to_int64 n = Some w \<and> of_int (sint w) = number_value n))
   \<and> (is_uint64 n \<longrightarrow> (\<exists>w. to_uint64 n = Some w \<and> of_int (uint w) = number_value n))"
proof (cases n)
  case (Signed m)
  have "uint m = sint m" if "0 \<le> sint m"
  proof (rule bit_eqI)
    have "\<not> bit (uint m) 63" using that by (simp add: sint_uint)
    then show "bit (uint m) k = bit (sint m) k" for k
      by (cases "k \<le> 63") (auto simp: sint_uint bit_signed_take_bit_iff min_def bit_uint_iff)
  qed
  note same = this
  have "sint (ucast m :: u32) = sint m" if "is_int32 n"
    unfolding ucast_of_sint using that Signed by (intro sint_of_small) simp_all
  moreover have "uint (ucast m :: u32) = sint m" if "is_uint32 n"
    unfolding ucast_of_sint using that Signed by (intro uint_of_small) simp_all
  moreover have "uint m = sint m" if "is_uint64 n" using that Signed same by simp
  ultimately have "is_int32 n \<longrightarrow> sint (ucast m :: u32) = sint m" "is_uint32 n \<longrightarrow> uint (ucast m :: u32) = sint m"
    "is_uint64 n \<longrightarrow> uint m = sint m"
    by blast+
  then show ?thesis
    unfolding Signed to_int32.simps to_uint32.simps to_int64.simps to_uint64.simps number_value.simps option.inject
    by (intro conjI impI exI refl arg_cong [where f = rat_of_int]) blast+
next
  case (Unsigned m)
  have "sint (ucast m :: u32) = uint m" if "is_int32 n"
    unfolding ucast_of_uint using that Unsigned
    by (intro sint_of_small order_trans [OF _ uint_ge_0]) (simp_all add: word_le_def)
  moreover have "uint (ucast m :: u32) = uint m" if "is_uint32 n"
    unfolding ucast_of_uint using that Unsigned by (intro uint_of_small) (simp_all add: word_le_def)
  moreover have "sint m = uint m" if "is_int64 n"
    unfolding sint_uint using that Unsigned
    by (intro signed_take_bit_int_eq_self order_trans [OF _ uint_ge_0]) (simp_all add: word_le_def)
  ultimately have "is_int32 n \<longrightarrow> sint (ucast m :: u32) = uint m" "is_uint32 n \<longrightarrow> uint (ucast m :: u32) = uint m"
    "is_int64 n \<longrightarrow> sint m = uint m"
    by blast+
  then show ?thesis
    unfolding Unsigned to_int32.simps to_uint32.simps to_int64.simps to_uint64.simps number_value.simps option.inject
    by (intro conjI impI exI refl arg_cong [where f = rat_of_int]) blast+
qed simp

end
