(* ===== verification/Duilib_String.thy ===== *)
theory Duilib_String
  imports Prelude "HOL-Library.Monad_Syntax"
begin

text \<open>
  \<open>CDuiString\<close> of duilib (\<open>Utils.h\<close>, \<open>Utils.cpp\<close>): a text in a buffer of 64 units inside the object or, when it is
  long, in a block of the heap. An operation returns \<open>None\<close> where the code reads or writes outside a buffer, or uses
  memory it was not given; the argument \<open>mem\<close> says how many bytes \<open>malloc\<close> grants and what fresh memory holds.
\<close>

section \<open>Memory and the string functions of C\<close>

record memory =
  grants :: "nat \<Rightarrow> bool"
  junk :: "nat \<Rightarrow> wchar"

text \<open>\<open>malloc\<close> and \<open>realloc\<close> of an array of \<open>TCHAR\<close>; the units beyond the old block hold anything.\<close>

definition realloc_units :: "memory \<Rightarrow> wchar list \<Rightarrow> nat \<Rightarrow> wchar list option" where
  "realloc_units mem old n = (if grants mem (n * 2) then Some (take n old @ map (junk mem) [length old..<n]) else None)"

definition malloc_units :: "memory \<Rightarrow> nat \<Rightarrow> wchar list option" where
  "malloc_units mem n = realloc_units mem [] n"

definition tcslen :: "wchar list \<Rightarrow> nat option" where
  "tcslen b = (if 0 \<in> set b then Some (length (c_str b)) else None)"

definition tcscpy :: "wchar list \<Rightarrow> wstring \<Rightarrow> wchar list option" where
  "tcscpy dst src = (if length src < length dst then Some (src @ 0 # drop (Suc (length src)) dst) else None)"

definition tcscat :: "wchar list \<Rightarrow> wstring \<Rightarrow> wchar list option" where
  "tcscat dst src = do {
     n \<leftarrow> tcslen dst;
     tail \<leftarrow> tcscpy (drop n dst) src;
     Some (take n dst @ tail) }"

definition tcsncpy :: "wchar list \<Rightarrow> wstring \<Rightarrow> nat \<Rightarrow> wchar list option" where
  "tcsncpy dst src n =
     (if n \<le> length dst then Some (take n src @ replicate (n - length src) 0 @ drop n dst) else None)"

definition store_unit :: "wchar list \<Rightarrow> nat \<Rightarrow> wchar \<Rightarrow> wchar list option" where
  "store_unit dst i c = (if i < length dst then Some (dst[i := c]) else None)"

fun tcscmp :: "wstring \<Rightarrow> wstring \<Rightarrow> int" where
  "tcscmp [] [] = 0"
| "tcscmp [] (d # t) = -1"
| "tcscmp (c # s) [] = 1"
| "tcscmp (c # s) (d # t) = (if c < d then -1 else if d < c then 1 else tcscmp s t)"

text \<open>A sum of two \<open>int\<close>s, undefined when it overflows.\<close>

definition add_int :: "int \<Rightarrow> int \<Rightarrow> int option" where
  "add_int a b = (if - (2 ^ 31) \<le> a + b \<and> a + b < 2 ^ 31 then Some (a + b) else None)"

text \<open>The first and the last place of a unit, and the first place of a text; the terminator belongs to what is searched.\<close>

definition tcschr :: "wstring \<Rightarrow> wchar \<Rightarrow> nat option" where
  "tcschr s c =
     (if c = 0 then Some (length s) else if c \<in> set s then Some (length (takeWhile (\<lambda>d. d \<noteq> c) s)) else None)"

definition tcsrchr :: "wstring \<Rightarrow> wchar \<Rightarrow> nat option" where
  "tcsrchr s c =
     (if c = 0 then Some (length s)
      else if c \<in> set s then Some (length s - Suc (length (takeWhile (\<lambda>d. d \<noteq> c) (rev s)))) else None)"

fun tcsstr :: "wstring \<Rightarrow> wstring \<Rightarrow> nat option" where
  "tcsstr [] sub = (if sub = [] then Some 0 else None)"
| "tcsstr (c # s) sub = (if take (length sub) (c # s) = sub then Some 0 else map_option Suc (tcsstr s sub))"

text \<open>\<open>_tcslwr\<close>, \<open>_tcsupr\<close> and \<open>_tcsicmp\<close> in the C locale change the letters of ASCII only.\<close>

definition lower_unit :: "wchar \<Rightarrow> wchar" where
  "lower_unit c = (if 65 \<le> c \<and> c \<le> 90 then c + 32 else c)"

definition upper_unit :: "wchar \<Rightarrow> wchar" where
  "upper_unit c = (if 97 \<le> c \<and> c \<le> 122 then c - 32 else c)"

section \<open>The object\<close>

definition MAX_LOCAL_STRING_LEN :: nat where
  "MAX_LOCAL_STRING_LEN = 63"

text \<open>\<open>m_heap\<close> is the block \<open>m_pstr\<close> points to, \<open>None\<close> while it points to \<open>m_szBuffer\<close>.\<close>

record dui_string =
  m_szBuffer :: "wchar list"
  m_heap :: "wchar list option"

definition m_pstr :: "dui_string \<Rightarrow> wchar list" where
  "m_pstr s = (case m_heap s of None \<Rightarrow> m_szBuffer s | Some b \<Rightarrow> b)"

definition store_pstr :: "wchar list \<Rightarrow> dui_string \<Rightarrow> dui_string" where
  "store_pstr b s = (if m_heap s = None then s\<lparr>m_szBuffer := b\<rparr> else s\<lparr>m_heap := Some b\<rparr>)"

definition GetLength :: "dui_string \<Rightarrow> int option" where
  "GetLength s = map_option int (tcslen (m_pstr s))"

text \<open>The units from position \<open>i\<close> to the terminator, what \<open>m_pstr + i\<close> means as a string.\<close>

definition string_at :: "dui_string \<Rightarrow> int \<Rightarrow> wstring option" where
  "string_at s i = (if 0 \<le> i \<and> 0 \<in> set (drop (nat i) (m_pstr s)) then Some (c_str (drop (nat i) (m_pstr s))) else None)"

definition Empty :: "dui_string \<Rightarrow> dui_string" where
  "Empty s = s\<lparr>m_heap := None, m_szBuffer := (m_szBuffer s)[0 := 0]\<rparr>"

definition new_string :: "memory \<Rightarrow> dui_string" where
  "new_string mem = \<lparr>m_szBuffer = (map (junk mem) [0..<Suc MAX_LOCAL_STRING_LEN])[0 := 0], m_heap = None\<rparr>"

definition new_string_ch :: "memory \<Rightarrow> wchar \<Rightarrow> dui_string" where
  "new_string_ch mem ch = \<lparr>m_szBuffer = (map (junk mem) [0..<Suc MAX_LOCAL_STRING_LEN])[0 := ch, 1 := 0], m_heap = None\<rparr>"

text \<open>
  \<open>Assign\<close>: \<open>pstr\<close> is the text of the argument without its terminator (a null pointer stands for the empty text),
  \<open>cchMax\<close> the length to take, negative for all of it.
\<close>

definition Assign :: "memory \<Rightarrow> dui_string \<Rightarrow> wstring option \<Rightarrow> int \<Rightarrow> dui_string option" where
  "Assign mem s pstr cchMax = do {
     let pstr = (case pstr of None \<Rightarrow> [] | Some p \<Rightarrow> p);
     let cchMax = (if cchMax < 0 then length pstr else nat cchMax);
     s \<leftarrow> (if cchMax < MAX_LOCAL_STRING_LEN then Some (s\<lparr>m_heap := None\<rparr>)
           else do {
             n \<leftarrow> tcslen (m_pstr s);
             if n < cchMax \<or> m_heap s = None
             then do {
               b \<leftarrow> realloc_units mem (case m_heap s of None \<Rightarrow> [] | Some b \<Rightarrow> b) (Suc cchMax);
               Some (s\<lparr>m_heap := Some b\<rparr>) }
             else Some s });
     b \<leftarrow> tcsncpy (m_pstr s) pstr cchMax;
     b \<leftarrow> store_unit b cchMax 0;
     Some (store_pstr b s) }"

definition Append :: "memory \<Rightarrow> dui_string \<Rightarrow> wstring \<Rightarrow> dui_string option" where
  "Append mem s pstr = do {
     n \<leftarrow> tcslen (m_pstr s);
     let nNewLength = n + length pstr;
     if MAX_LOCAL_STRING_LEN \<le> nNewLength
     then (case m_heap s of
             None \<Rightarrow> do {
               b \<leftarrow> malloc_units mem (Suc nNewLength);
               b \<leftarrow> tcscpy b (c_str (m_szBuffer s));
               b \<leftarrow> tcscat b pstr;
               Some (s\<lparr>m_heap := Some b\<rparr>) }
           | Some b \<Rightarrow> do {
               b \<leftarrow> realloc_units mem b (Suc nNewLength);
               b \<leftarrow> tcscat b pstr;
               Some (s\<lparr>m_heap := Some b\<rparr>) })
     else do {
       b \<leftarrow> tcscat (m_szBuffer s) pstr;
       Some (s\<lparr>m_heap := None, m_szBuffer := b\<rparr>) } }"


text \<open>The constructor \<open>CDuiString(lpsz, nLen)\<close>; the copy constructor takes the text of the other string.\<close>

definition string_of :: "memory \<Rightarrow> wstring option \<Rightarrow> int \<Rightarrow> dui_string option" where
  "string_of mem lpsz nLen = Assign mem (new_string mem) lpsz nLen"

definition copy_string :: "memory \<Rightarrow> dui_string \<Rightarrow> dui_string option" where
  "copy_string mem src = do { p \<leftarrow> string_at src 0; string_of mem (Some p) (-1) }"

definition IsEmpty :: "dui_string \<Rightarrow> bool" where
  "IsEmpty s \<longleftrightarrow> m_pstr s ! 0 = 0"

definition GetAt :: "dui_string \<Rightarrow> int \<Rightarrow> wchar option" where
  "GetAt s nIndex = (if 0 \<le> nIndex \<and> nat nIndex < length (m_pstr s) then Some (m_pstr s ! nat nIndex) else None)"

definition SetAt :: "dui_string \<Rightarrow> int \<Rightarrow> wchar \<Rightarrow> dui_string option" where
  "SetAt s nIndex ch =
     (if nIndex < 0 then None else map_option (\<lambda>b. store_pstr b s) (store_unit (m_pstr s) (nat nIndex) ch))"

text \<open>The assignments and sums of the operators; \<open>None\<close> as a text is the null pointer.\<close>

definition assign_string :: "memory \<Rightarrow> dui_string \<Rightarrow> dui_string \<Rightarrow> dui_string option" where
  "assign_string mem s src = do { p \<leftarrow> string_at src 0; Assign mem s (Some p) (-1) }"

definition assign_text :: "memory \<Rightarrow> dui_string \<Rightarrow> wstring option \<Rightarrow> dui_string option" where
  "assign_text mem s lpStr = (case lpStr of None \<Rightarrow> Some (Empty s) | Some p \<Rightarrow> Assign mem s (Some p) (-1))"

definition assign_ch :: "dui_string \<Rightarrow> wchar \<Rightarrow> dui_string" where
  "assign_ch s ch = (let s = Empty s in s\<lparr>m_szBuffer := (m_szBuffer s)[0 := ch, 1 := 0]\<rparr>)"

definition append_string :: "memory \<Rightarrow> dui_string \<Rightarrow> dui_string \<Rightarrow> dui_string option" where
  "append_string mem s src = do { p \<leftarrow> string_at src 0; Append mem s p }"

definition append_text :: "memory \<Rightarrow> dui_string \<Rightarrow> wstring option \<Rightarrow> dui_string option" where
  "append_text mem s lpStr = (case lpStr of None \<Rightarrow> Some s | Some p \<Rightarrow> Append mem s p)"

definition append_ch :: "memory \<Rightarrow> dui_string \<Rightarrow> wchar \<Rightarrow> dui_string option" where
  "append_ch mem s ch = Append mem s (c_str [ch])"

definition plus_string :: "memory \<Rightarrow> dui_string \<Rightarrow> dui_string \<Rightarrow> dui_string option" where
  "plus_string mem s src = do { sTemp \<leftarrow> copy_string mem s; append_string mem sTemp src }"

definition plus_text :: "memory \<Rightarrow> dui_string \<Rightarrow> wstring option \<Rightarrow> dui_string option" where
  "plus_text mem s lpStr =
     (case lpStr of None \<Rightarrow> copy_string mem s | Some p \<Rightarrow> do { sTemp \<leftarrow> copy_string mem s; Append mem sTemp p })"

definition Compare :: "dui_string \<Rightarrow> wstring \<Rightarrow> int option" where
  "Compare s lpsz = do { p \<leftarrow> string_at s 0; Some (tcscmp p lpsz) }"

definition CompareNoCase :: "dui_string \<Rightarrow> wstring \<Rightarrow> int option" where
  "CompareNoCase s lpsz = do { p \<leftarrow> string_at s 0; Some (tcscmp (map lower_unit p) (map lower_unit lpsz)) }"

definition string_eq :: "dui_string \<Rightarrow> wstring \<Rightarrow> bool option" where
  "string_eq s str = map_option (\<lambda>r. r = 0) (Compare s str)"

definition MakeUpper :: "dui_string \<Rightarrow> dui_string option" where
  "MakeUpper s = do { n \<leftarrow> tcslen (m_pstr s); Some (store_pstr (map upper_unit (take n (m_pstr s)) @ drop n (m_pstr s)) s) }"

definition MakeLower :: "dui_string \<Rightarrow> dui_string option" where
  "MakeLower s = do { n \<leftarrow> tcslen (m_pstr s); Some (store_pstr (map lower_unit (take n (m_pstr s)) @ drop n (m_pstr s)) s) }"

section \<open>Parts of a string, and searching\<close>

definition Left :: "memory \<Rightarrow> dui_string \<Rightarrow> int \<Rightarrow> dui_string option" where
  "Left mem s iLength = do {
     n \<leftarrow> GetLength s;
     let iLength = (if iLength < 0 then 0 else iLength);
     let iLength = (if iLength > n then n else iLength);
     p \<leftarrow> string_at s 0;
     string_of mem (Some p) iLength }"

definition Mid :: "memory \<Rightarrow> dui_string \<Rightarrow> int \<Rightarrow> int \<Rightarrow> dui_string option" where
  "Mid mem s iPos iLength = do {
     n \<leftarrow> GetLength s;
     iLength \<leftarrow> (if iLength < 0 then add_int n (- iPos) else Some iLength);
     iEnd \<leftarrow> add_int iPos iLength;
     iLength \<leftarrow> (if iEnd > n then add_int n (- iPos) else Some iLength);
     if iLength \<le> 0 then Some (new_string mem)
     else do { p \<leftarrow> string_at s iPos; string_of mem (Some p) iLength } }"

definition Right :: "memory \<Rightarrow> dui_string \<Rightarrow> int \<Rightarrow> dui_string option" where
  "Right mem s iLength = do {
     n \<leftarrow> GetLength s;
     iPos \<leftarrow> add_int n (- iLength);
     let (iPos, iLength) = (if iPos < 0 then (0, n) else (iPos, iLength));
     p \<leftarrow> string_at s iPos;
     string_of mem (Some p) iLength }"

definition position :: "int \<Rightarrow> nat option \<Rightarrow> int" where
  "position iPos p = (case p of None \<Rightarrow> -1 | Some i \<Rightarrow> iPos + int i)"

definition Find_ch :: "dui_string \<Rightarrow> wchar \<Rightarrow> int \<Rightarrow> int option" where
  "Find_ch s ch iPos = do {
     n \<leftarrow> GetLength s;
     if iPos \<noteq> 0 \<and> (iPos < 0 \<or> iPos \<ge> n) then Some (-1)
     else do { p \<leftarrow> string_at s iPos; Some (position iPos (tcschr p ch)) } }"

definition Find_text :: "dui_string \<Rightarrow> wstring \<Rightarrow> int \<Rightarrow> int option" where
  "Find_text s pstrSub iPos = do {
     n \<leftarrow> GetLength s;
     if iPos \<noteq> 0 \<and> (iPos < 0 \<or> iPos > n) then Some (-1)
     else do { p \<leftarrow> string_at s iPos; Some (position iPos (tcsstr p pstrSub)) } }"

definition ReverseFind :: "dui_string \<Rightarrow> wchar \<Rightarrow> int option" where
  "ReverseFind s ch = do { p \<leftarrow> string_at s 0; Some (position 0 (tcsrchr p ch)) }"

text \<open>The loop of \<open>Replace\<close>; \<open>None\<close> is also not returning.\<close>

partial_function (option) replace_loop ::
  "memory \<Rightarrow> wstring \<Rightarrow> wstring \<Rightarrow> dui_string \<Rightarrow> dui_string \<Rightarrow> int \<Rightarrow> int \<Rightarrow> (dui_string \<times> int) option" where
  "replace_loop mem pstrFrom pstrTo s sTemp iPos nCount =
     (if iPos < 0 then Some (s, nCount)
      else Option.bind (Left mem s iPos) (\<lambda>left.
        Option.bind (assign_string mem sTemp left) (\<lambda>sTemp.
          Option.bind (append_text mem sTemp (Some pstrTo)) (\<lambda>sTemp.
            Option.bind (Mid mem s (iPos + int (length pstrFrom)) (-1)) (\<lambda>rest.
              Option.bind (append_string mem sTemp rest) (\<lambda>sTemp.
                Option.bind (assign_string mem s sTemp) (\<lambda>s.
                  Option.bind (Find_text s pstrFrom (iPos + int (length pstrTo))) (\<lambda>iPos.
                    replace_loop mem pstrFrom pstrTo s sTemp iPos (nCount + 1)))))))))"

definition Replace :: "memory \<Rightarrow> dui_string \<Rightarrow> wstring \<Rightarrow> wstring \<Rightarrow> (dui_string \<times> int) option" where
  "Replace mem s pstrFrom pstrTo = do {
     iPos \<leftarrow> Find_text s pstrFrom 0;
     if iPos < 0 then Some (s, 0) else replace_loop mem pstrFrom pstrTo s (new_string mem) iPos 0 }"


section \<open>What an object stands for\<close>

text \<open>A block spells a text when its first terminator is behind this text.\<close>

definition spells :: "wchar list \<Rightarrow> wstring \<Rightarrow> bool" where
  "spells b t \<longleftrightarrow> 0 \<in> set b \<and> c_str b = t"

lemma c_str_append: "0 \<notin> set t \<Longrightarrow> c_str (t @ 0 # r) = t"
  by (auto simp: c_str_def takeWhile_append)

lemma spells_iff: "spells b t \<longleftrightarrow> 0 \<notin> set t \<and> (\<exists>r. b = t @ 0 # r)"
proof
  assume b: "spells b t"
  then obtain u r where "b = u @ 0 # r" "0 \<notin> set u" by (auto simp: spells_def dest: split_list_first)
  with b show "0 \<notin> set t \<and> (\<exists>r. b = t @ 0 # r)" by (auto simp: spells_def c_str_append)
qed (auto simp: spells_def c_str_append)

lemma tcslen_spells: "spells b t \<Longrightarrow> tcslen b = Some (length t)"
  by (simp add: spells_def tcslen_def)

lemma spells_drop: "spells b t \<Longrightarrow> i \<le> length t \<Longrightarrow> spells (drop i b) (drop i t)"
  by (auto simp: spells_iff dest: in_set_dropD)

lemma tcscpy_spells:
  assumes "0 \<notin> set src" and "length src < length dst"
  obtains b where "tcscpy dst src = Some b" "spells b src" "length b = length dst"
  using assms by (auto simp: tcscpy_def spells_iff)

lemma tcscat_spells:
  assumes "spells dst t" and "0 \<notin> set src" and "length t + length src < length dst"
  obtains b where "tcscat dst src = Some b" "spells b (t @ src)" "length b = length dst"
proof -
  obtain r where dst: "dst = t @ 0 # r" "0 \<notin> set t" using assms(1) by (auto simp: spells_iff)
  from assms(3) obtain b where b: "tcscpy (0 # r) src = Some b" "spells b src" "length b = length (0 # r)"
    using tcscpy_spells [OF assms(2), of "0 # r"] by (auto simp: dst)
  have "tcscat dst src = Some (t @ b)" using b(1) by (simp add: tcscat_def tcslen_spells [OF assms(1)]) (simp add: dst)
  moreover have "spells (t @ b) (t @ src)" using b(2) dst(2) by (auto simp: spells_iff)
  ultimately show thesis using b(3) that dst by simp
qed

text \<open>
  An object stands for a text: its active buffer spells it, and it uses a block only for a text that does not fit into
  the buffer of the object. Memory is \<open>roomy\<close> for texts of \<open>k\<close> units when it grants their blocks.
\<close>

definition string_rep :: "dui_string \<Rightarrow> wstring \<Rightarrow> bool" where
  "string_rep s t \<longleftrightarrow> length (m_szBuffer s) = Suc MAX_LOCAL_STRING_LEN \<and> spells (m_pstr s) t
     \<and> (m_heap s \<noteq> None \<longrightarrow> MAX_LOCAL_STRING_LEN \<le> length t)"

definition roomy :: "memory \<Rightarrow> nat \<Rightarrow> bool" where
  "roomy mem k \<longleftrightarrow> (\<forall>n \<le> Suc k. grants mem (n * 2))"

lemma string_repD:
  assumes "string_rep s t"
  shows "spells (m_pstr s) t" "length (m_szBuffer s) = 64" "m_heap s = Some b \<Longrightarrow> 63 \<le> length t"
    "0 \<notin> set t" "tcslen (m_pstr s) = Some (length t)" "GetLength s = Some (int (length t))"
  using assms by (auto simp: string_rep_def MAX_LOCAL_STRING_LEN_def tcslen_spells GetLength_def spells_iff)

lemma realloc_roomy:
  "roomy mem k \<Longrightarrow> n \<le> Suc k \<Longrightarrow> realloc_units mem old n = Some (take n old @ map (junk mem) [length old..<n])"
  by (simp add: realloc_units_def roomy_def)

lemma realloc_spells:
  assumes "spells old t" and "length t < n" and "roomy mem k" and "n \<le> Suc k"
  obtains b where "realloc_units mem old n = Some b" "spells b t" "length b = n"
proof -
  obtain r where old: "old = t @ 0 # r" "0 \<notin> set t" using assms(1) by (auto simp: spells_iff)
  obtain j where "n - length t = Suc j" using assms(2) by (metis Suc_diff_Suc)
  then show thesis using assms(3,4) old by (intro that [OF realloc_roomy]) (auto simp: spells_iff)
qed

lemma new_string_rep: "string_rep (new_string mem) []"
  by (simp add: string_rep_def new_string_def m_pstr_def spells_iff MAX_LOCAL_STRING_LEN_def upt_rec)

lemma new_string_ch_rep: "ch \<noteq> 0 \<Longrightarrow> string_rep (new_string_ch mem ch) [ch]"
  by (simp add: string_rep_def new_string_ch_def m_pstr_def spells_iff MAX_LOCAL_STRING_LEN_def upt_rec)

lemma Empty_rep: "string_rep s t \<Longrightarrow> string_rep (Empty s) []"
  by (cases "m_szBuffer s") (auto simp: string_rep_def Empty_def m_pstr_def spells_iff MAX_LOCAL_STRING_LEN_def)

text \<open>\<open>Assign\<close> with a length not beyond the text takes this many units, whatever the object held.\<close>

lemma copied:
  assumes "m \<le> length p" and "m < length b"
  shows "Option.bind (tcsncpy b p m) (\<lambda>b. store_unit b m 0) = Some (take m p @ 0 # drop (Suc m) b)"
proof -
  have "drop m b = b ! m # drop (Suc m) b" using assms(2) by (simp add: Cons_nth_drop_Suc)
  with assms show ?thesis by (simp add: tcsncpy_def store_unit_def list_update_append)
qed

lemma Assign_rep:
  assumes "spells (m_pstr s) t" "length (m_szBuffer s) = 64"
    and "0 \<notin> set p" and "n \<le> int (length p)" and "roomy mem (length p)"
  obtains s' where "Assign mem s (Some p) n = Some s'" "string_rep s' (if n < 0 then p else take (nat n) p)"
proof -
  define m where "m = (if n < 0 then length p else nat n)"
  have m: "m \<le> length p" using assms(4) by (auto simp: m_def)
  have q: "0 \<notin> set (take m p)" using assms(3) by (auto dest: in_set_takeD)
  obtain s1 where s1: "(if m < MAX_LOCAL_STRING_LEN then Some (s\<lparr>m_heap := None\<rparr>)
           else do {
             n \<leftarrow> tcslen (m_pstr s);
             if n < m \<or> m_heap s = None
             then do {
               b \<leftarrow> realloc_units mem (case m_heap s of None \<Rightarrow> [] | Some b \<Rightarrow> b) (Suc m);
               Some (s\<lparr>m_heap := Some b\<rparr>) }
             else Some s }) = Some s1"
    "m_heap s1 = None \<longleftrightarrow> m < 63" "length (m_szBuffer s1) = 64" "m < length (m_pstr s1)"
  proof (cases "m < 63")
    case True
    then show thesis using that [of "s\<lparr>m_heap := None\<rparr>"] assms(2) by (simp add: MAX_LOCAL_STRING_LEN_def m_pstr_def)
  next
    case False
    define b where "b old = take (Suc m) old @ map (junk mem) [length old..<Suc m]" for old
    have b: "realloc_units mem old (Suc m) = Some (b old)" "length (b old) = Suc m" for old
      using m assms(5) by (simp_all add: realloc_roomy [where k = "length p"] b_def)
    show thesis
    proof (cases "length t < m \<or> m_heap s = None")
      case True
      then show thesis using False assms(2) tcslen_spells [OF assms(1)] b
        by (intro that [of "s\<lparr>m_heap := Some (b (case m_heap s of None \<Rightarrow> [] | Some b \<Rightarrow> b))\<rparr>"])
          (simp_all add: MAX_LOCAL_STRING_LEN_def m_pstr_def)
    next
      case ret: False
      then have "m < length (m_pstr s)" using assms(1) by (auto simp: spells_iff)
      then show thesis using False ret assms(2) tcslen_spells [OF assms(1)]
        by (intro that [of s]) (auto simp: MAX_LOCAL_STRING_LEN_def)
    qed
  qed
  let ?b = "take m p @ 0 # drop (Suc m) (m_pstr s1)"
  have "Assign mem s (Some p) n = Some (store_pstr ?b s1)"
    using copied [OF m s1(4)] s1(1) unfolding Assign_def by (simp add: m_def [symmetric] Option.bind_assoc [symmetric] del: Option.bind_assoc)
  moreover have "string_rep (store_pstr ?b s1) (if n < 0 then p else take (nat n) p)"
    using s1 q m by (auto simp: string_rep_def store_pstr_def m_pstr_def spells_iff MAX_LOCAL_STRING_LEN_def m_def split: if_splits)
  ultimately show thesis by (rule that)
qed

lemma Append_rep:
  assumes "string_rep s t" and "0 \<notin> set p" and "roomy mem (length t + length p)"
  obtains s' where "Append mem s p = Some s'" "string_rep s' (t @ p)"
proof (cases "63 \<le> length t + length p")
  case True
  obtain b where "Append mem s p = Some (s\<lparr>m_heap := Some b\<rparr>)" "spells b (t @ p)"
  proof (cases "m_heap s")
    case None
    obtain b0 where b0: "malloc_units mem (Suc (length t + length p)) = Some b0" "length b0 = Suc (length t + length p)"
      using assms(3) by (simp add: malloc_units_def realloc_roomy)
    obtain b1 where b1: "tcscpy b0 t = Some b1" "spells b1 t" "length b1 = Suc (length t + length p)"
      using tcscpy_spells [of t b0] b0(2) string_repD(4) [OF assms(1)] by auto
    obtain b where "tcscat b1 p = Some b" "spells b (t @ p)" using tcscat_spells [OF b1(2) assms(2)] b1(3) by auto
    moreover have "c_str (m_szBuffer s) = t" using string_repD(1) [OF assms(1)] None by (simp add: m_pstr_def spells_def)
    ultimately show thesis
      using True None b0 b1 string_repD(5) [OF assms(1)] by (intro that) (simp_all add: Append_def MAX_LOCAL_STRING_LEN_def)
  next
    case (Some h)
    then have "spells h t" using string_repD(1) [OF assms(1)] by (simp add: m_pstr_def)
    then obtain b1 where b1: "realloc_units mem h (Suc (length t + length p)) = Some b1" "spells b1 t" "length b1 = Suc (length t + length p)"
      using realloc_spells [of h t "Suc (length t + length p)" mem] assms(3) by auto
    obtain b where "tcscat b1 p = Some b" "spells b (t @ p)" using tcscat_spells [OF b1(2) assms(2)] b1(3) by auto
    then show thesis
      using True Some b1 string_repD(5) [OF assms(1)] by (intro that) (simp_all add: Append_def MAX_LOCAL_STRING_LEN_def)
  qed
  then show thesis
    using True string_repD(2) [OF assms(1)] by (intro that [of "s\<lparr>m_heap := Some b\<rparr>"]) (simp_all add: string_rep_def m_pstr_def MAX_LOCAL_STRING_LEN_def)
next
  case False
  then have "m_heap s = None" using string_repD(3) [OF assms(1)] by (cases "m_heap s") auto
  then have "spells (m_szBuffer s) t" using string_repD(1) [OF assms(1)] by (simp add: m_pstr_def)
  then obtain b where "tcscat (m_szBuffer s) p = Some b" "spells b (t @ p)" "length b = 64"
    using tcscat_spells [of "m_szBuffer s" t p] assms(2) False string_repD(2) [OF assms(1)] by auto
  then show thesis
    using False string_repD(5) [OF assms(1)]
    by (intro that [of "s\<lparr>m_heap := None, m_szBuffer := b\<rparr>"]) (simp_all add: Append_def string_rep_def m_pstr_def MAX_LOCAL_STRING_LEN_def)
qed

lemma string_at_rep: "string_rep s t \<Longrightarrow> 0 \<le> i \<Longrightarrow> nat i \<le> length t \<Longrightarrow> string_at s i = Some (drop (nat i) t)"
  using spells_drop [OF string_repD(1), of s t "nat i"] by (simp add: string_at_def spells_def)

lemma string_of_rep:
  assumes "0 \<notin> set p" and "n \<le> int (length p)" and "roomy mem (length p)"
  obtains s' where "string_of mem (Some p) n = Some s'" "string_rep s' (if n < 0 then p else take (nat n) p)"
  using Assign_rep [OF string_repD(1,2) [OF new_string_rep] assms] unfolding string_of_def by blast

lemma roomy_le: "roomy mem k \<Longrightarrow> l \<le> k \<Longrightarrow> roomy mem l"
  by (simp add: roomy_def)

lemma Left_rep:
  assumes "string_rep s t" and "roomy mem (length t)"
  obtains s' where "Left mem s n = Some s'" "string_rep s' (take (nat n) t)"
proof -
  define m where "m = (if n < 0 then 0 else if n > int (length t) then int (length t) else n)"
  have "0 \<notin> set t" "m \<le> int (length t)" using string_repD(4) [OF assms(1)] by (simp_all add: m_def)
  then obtain s' where "string_of mem (Some t) m = Some s'" "string_rep s' (if m < 0 then t else take (nat m) t)"
    using assms(2) by (rule string_of_rep)
  then show thesis
    using string_at_rep [OF assms(1), of 0] string_repD(6) [OF assms(1)]
    by (intro that [of s']) (auto simp: Left_def m_def Let_def split: if_splits)
qed

lemma Mid_rest_rep:
  assumes "string_rep s t" and "0 \<le> i" "nat i \<le> length t" and "roomy mem (length t)" and "length t < 2 ^ 31"
  obtains s' where "Mid mem s i (-1) = Some s'" "string_rep s' (drop (nat i) t)"
proof -
  have n: "GetLength s = Some (int (length t))" by (rule string_repD(6) [OF assms(1)])
  show thesis
  proof (cases "nat i = length t")
    case True
    then show thesis using n assms(2,5) new_string_rep by (intro that [of "new_string mem"]) (auto simp: Mid_def add_int_def)
  next
    case False
    have z: "0 \<notin> set (drop (nat i) t)" using string_repD(4) [OF assms(1)] by (auto dest: in_set_dropD)
    obtain s' where s': "string_of mem (Some (drop (nat i) t)) (int (length t) - i) = Some s'"
      "string_rep s' (if int (length t) - i < 0 then drop (nat i) t else take (nat (int (length t) - i)) (drop (nat i) t))"
      using string_of_rep [OF z, of "int (length t) - i" mem] roomy_le [OF assms(4), of "length (drop (nat i) t)"] assms(2,3)
      by auto
    have "nat (int (length t) - i) = length (drop (nat i) t)" using assms(2) by auto
    then have "string_rep s' (drop (nat i) t)" using s'(2) assms(2,3) by (simp del: length_drop split: if_splits)
    moreover have "Mid mem s i (-1) = Some s'"
      using n assms(2,3,5) False s'(1) string_at_rep [OF assms(1-3)] by (auto simp: Mid_def add_int_def)
    ultimately show thesis by (intro that)
  qed
qed

lemma Mid_rep:
  assumes "string_rep s t" and "0 \<le> i" "nat i \<le> length t" and "0 \<le> n" "i + n < 2 ^ 31" and "roomy mem (length t)" and "length t < 2 ^ 31"
  obtains s' where "Mid mem s i n = Some s'" "string_rep s' (take (nat n) (drop (nat i) t))"
proof (cases "i + n \<le> int (length t) \<and> 0 < n")
  case False
  then have "take (nat n) (drop (nat i) t) = (if n = 0 then [] else drop (nat i) t)" using assms(2-4) by auto
  moreover have "Mid mem s i n = (if n = 0 then Some (new_string mem) else Mid mem s i (-1))"
    using False string_repD(6) [OF assms(1)] assms(2-5,7) by (auto simp: Mid_def add_int_def)
  ultimately show thesis
    using that Mid_rest_rep [OF assms(1-3,6,7)] new_string_rep [of mem] by (cases "n = 0") auto
next
  case True
  have z: "0 \<notin> set (drop (nat i) t)" using string_repD(4) [OF assms(1)] by (auto dest: in_set_dropD)
  have "n \<le> int (length (drop (nat i) t))" "roomy mem (length (drop (nat i) t))"
    using True assms(2) roomy_le [OF assms(6)] by auto
  from string_of_rep [OF z this] True obtain s'
    where "string_of mem (Some (drop (nat i) t)) n = Some s'" "string_rep s' (take (nat n) (drop (nat i) t))" by auto
  then show thesis
    using True string_repD(6) [OF assms(1)] assms(2-5,7) string_at_rep [OF assms(1-3)]
    by (intro that [of s']) (auto simp: Mid_def add_int_def)
qed

lemma Right_rep:
  assumes "string_rep s t" and "0 \<le> n" "n < 2 ^ 31" and "roomy mem (length t)" and "length t < 2 ^ 31"
  obtains s' where "Right mem s n = Some s'" "string_rep s' (drop (length t - nat n) t)"
proof -
  define i where "i = (if int (length t) < n then 0 else int (length t) - n)"
  have i: "0 \<le> i" "nat i \<le> length t" "drop (nat i) t = drop (length t - nat n) t" using assms(2) by (auto simp: i_def nat_diff_distrib')
  have z: "0 \<notin> set (drop (nat i) t)" using string_repD(4) [OF assms(1)] by (auto dest: in_set_dropD)
  have len: "(if int (length t) < n then int (length t) else n) = int (length (drop (nat i) t))" using assms(2) by (auto simp: i_def)
  obtain s' where s': "string_of mem (Some (drop (nat i) t)) (int (length (drop (nat i) t))) = Some s'" "string_rep s' (drop (nat i) t)"
    using string_of_rep [OF z, of "int (length (drop (nat i) t))" mem] roomy_le [OF assms(4), of "length (drop (nat i) t)"] by auto
  have "Right mem s n = string_of mem (Some (drop (nat i) t)) (if int (length t) < n then int (length t) else n)"
    using string_at_rep [OF assms(1) i(1,2)] string_repD(6) [OF assms(1)] assms(2,3,5) by (auto simp: Right_def add_int_def i_def)
  then show thesis using s' i(3) unfolding len by (intro that [of s']) simp_all
qed

lemma Find_text_rep:
  assumes "string_rep s t" and "0 \<le> i" "nat i \<le> length t"
  shows "Find_text s sub i = Some (position i (tcsstr (drop (nat i) t) sub))"
  using string_at_rep [OF assms] string_repD(6) [OF assms(1)] assms(2,3) by (auto simp: Find_text_def)

lemma Find_ch_rep:
  assumes "string_rep s t" and "0 \<le> i" "nat i < length t \<or> i = 0"
  shows "Find_ch s ch i = Some (position i (tcschr (drop (nat i) t) ch))"
  using string_at_rep [OF assms(1,2)] string_repD(6) [OF assms(1)] assms(2,3) by (auto simp: Find_ch_def)

lemma ReverseFind_rep: "string_rep s t \<Longrightarrow> ReverseFind s ch = Some (position 0 (tcsrchr t ch))"
  using string_at_rep [of s t 0] by (simp add: ReverseFind_def)

lemma tcscmp_zero: "tcscmp s t = 0 \<longleftrightarrow> s = t"
  by (induction s t rule: tcscmp.induct) auto

lemma string_eq_rep: "string_rep s t \<Longrightarrow> string_eq s p = Some (t = p)"
  using string_at_rep [of s t 0] by (simp add: string_eq_def Compare_def tcscmp_zero)

lemma assign_string_rep:
  assumes "string_rep s t" and "string_rep src p" and "roomy mem (length p)"
  obtains s' where "assign_string mem s src = Some s'" "string_rep s' p"
proof -
  obtain s' where "Assign mem s (Some p) (-1) = Some s'" "string_rep s' (if (-1 :: int) < 0 then p else take (nat (-1)) p)"
    by (rule Assign_rep [OF string_repD(1,2) [OF assms(1)] string_repD(4) [OF assms(2)] _ assms(3), of "-1"]) simp_all
  then show thesis using string_at_rep [OF assms(2), of 0] by (intro that [of s']) (simp_all add: assign_string_def)
qed

lemma append_string_rep:
  assumes "string_rep s t" and "string_rep src p" and "roomy mem (length t + length p)"
  obtains s' where "append_string mem s src = Some s'" "string_rep s' (t @ p)"
  using Append_rep [OF assms(1) string_repD(4) [OF assms(2)] assms(3)] string_at_rep [OF assms(2), of 0]
  by (auto simp: append_string_def)

lemma copy_string_rep:
  assumes "string_rep s t" and "roomy mem (length t)"
  obtains s' where "copy_string mem s = Some s'" "string_rep s' t"
proof -
  obtain s' where "string_of mem (Some t) (-1) = Some s'" "string_rep s' (if (-1 :: int) < 0 then t else take (nat (-1)) t)"
    by (rule string_of_rep [OF string_repD(4) [OF assms(1)] _ assms(2), of "-1"]) simp_all
  then show thesis using string_at_rep [OF assms(1), of 0] by (intro that [of s']) (simp_all add: copy_string_def)
qed

section \<open>Replacing\<close>

text \<open>The reference: the first occurrence is replaced, and what is behind it likewise.\<close>

lemma tcsstr_Some:
  "tcsstr t sub = Some i \<Longrightarrow> i + length sub \<le> length t \<and> take (length sub) (drop i t) = sub"
proof (induction t sub arbitrary: i rule: tcsstr.induct)
  case (2 c s sub)
  then show ?case by (force split: if_splits simp: min_def dest: arg_cong [where f = length])
qed (simp split: if_splits)

function replace_all :: "wstring \<Rightarrow> wstring \<Rightarrow> wstring \<Rightarrow> wstring" where
  "replace_all pstrFrom pstrTo t =
     (case tcsstr t pstrFrom of
        None \<Rightarrow> t
      | Some i \<Rightarrow> if pstrFrom = [] then t
                  else take i t @ pstrTo @ replace_all pstrFrom pstrTo (drop (i + length pstrFrom) t))"
  by pat_completeness auto
termination
  by (relation "measure (\<lambda>(f, r, t). length t)") (auto dest: tcsstr_Some simp: neq_Nil_conv)

declare replace_all.simps [simp del]

function occurrences :: "wstring \<Rightarrow> wstring \<Rightarrow> nat" where
  "occurrences pstrFrom t =
     (case tcsstr t pstrFrom of
        None \<Rightarrow> 0
      | Some i \<Rightarrow> if pstrFrom = [] then 0 else Suc (occurrences pstrFrom (drop (i + length pstrFrom) t)))"
  by pat_completeness auto
termination
  by (relation "measure (\<lambda>(f, t). length t)") (auto dest: tcsstr_Some simp: neq_Nil_conv)

declare occurrences.simps [simp del]

lemma replace_loop_rep:
  assumes "pstrFrom \<noteq> []" and "0 \<notin> set pstrTo" and "roomy mem k" and "k < 2 ^ 31"
    and "string_rep s (front @ t)" and "string_rep sTemp u"
    and "length front + length t * (1 + length pstrTo) \<le> k"
  shows "\<exists>s'. replace_loop mem pstrFrom pstrTo s sTemp (position (int (length front)) (tcsstr t pstrFrom)) n
      = Some (s', n + int (occurrences pstrFrom t)) \<and> string_rep s' (front @ replace_all pstrFrom pstrTo t)"
  using assms(5-7)
proof (induction "length t" arbitrary: front t s sTemp u n rule: less_induct)
  case less
  show ?case
  proof (cases "tcsstr t pstrFrom")
    case None
    then show ?thesis using less.prems
      by (simp add: replace_loop.simps [of _ _ _ _ _ "-1"] position_def occurrences.simps [of _ t] replace_all.simps [of _ _ t])
  next
    case (Some i)
    let ?i = "length front + i" and ?rest = "drop (i + length pstrFrom) t"
    have bound: "i + length pstrFrom \<le> length t" using tcsstr_Some [OF Some] by simp
    have pos: "position (int (length front)) (tcsstr t pstrFrom) = int ?i" using Some by (simp add: position_def)
    have size: "length front + length t \<le> k" using less.prems(3) by (simp add: algebra_simps)
    have "1 \<le> length pstrFrom" using assms(1) by (simp add: Suc_le_eq)
    then have fewer: "length ?rest + 1 + i \<le> length t" using bound unfolding length_drop by linarith
    have grown: "length front + i + length pstrTo + length ?rest * (1 + length pstrTo) \<le> k"
    proof -
      have "(length ?rest + 1 + i) * (1 + length pstrTo) \<le> length t * (1 + length pstrTo)"
        using fewer by (rule mult_le_mono1)
      then show ?thesis using less.prems(3) by (simp add: algebra_simps)
    qed
    have room: "roomy mem j" if "j \<le> k" for j using assms(3) that by (rule roomy_le)
    have grown': "length front + i + length pstrTo + length ?rest \<le> k"
      using grown by (rule order.trans [rotated]) simp
    have taken: "length (take i t) = i" using bound by simp
    let ?new = "(front @ take i t @ pstrTo) @ ?rest"
    have sizes: "length (front @ t) \<le> k" "length (front @ take i t) \<le> k" "length (front @ take i t) + length pstrTo \<le> k"
      "length (front @ take i t @ pstrTo) + length ?rest \<le> k" "length ?new \<le> k"
      using size grown' taken bound unfolding length_append by linarith+
    have cut: "take (nat (int ?i)) (front @ t) = front @ take i t"
      "drop (nat (int (?i + length pstrFrom))) (front @ t) = ?rest" unfolding nat_int by simp_all
    obtain left where left: "Left mem s (int ?i) = Some left" "string_rep left (front @ take i t)"
      using Left_rep [OF less.prems(1) room [OF sizes(1)], of "int ?i"] unfolding cut .
    obtain t1 where t1: "assign_string mem sTemp left = Some t1" "string_rep t1 (front @ take i t)"
      using assign_string_rep [OF less.prems(2) left(2) room [OF sizes(2)]] .
    obtain t2 where t2: "Append mem t1 pstrTo = Some t2" "string_rep t2 (front @ take i t @ pstrTo)"
      using Append_rep [OF t1(2) assms(2) room [OF sizes(3)]] unfolding append_assoc .
    have "nat (int (?i + length pstrFrom)) \<le> length (front @ t)" "length (front @ t) < 2 ^ 31" "0 \<le> int (?i + length pstrFrom)"
      using bound le_less_trans [OF sizes(1) assms(4)] by simp_all
    then obtain rest where rest: "Mid mem s (int (?i + length pstrFrom)) (-1) = Some rest" "string_rep rest ?rest"
      using Mid_rest_rep [OF less.prems(1) _ _ room [OF sizes(1)], of "int (?i + length pstrFrom)"] unfolding cut by blast
    obtain t3 where t3: "append_string mem t2 rest = Some t3" "string_rep t3 ?new"
      using append_string_rep [OF t2(2) rest(2) room [OF sizes(4)]] .
    obtain s1 where s1: "assign_string mem s t3 = Some s1" "string_rep s1 ?new"
      using assign_string_rep [OF less.prems(1) t3(2) room [OF sizes(5)]] .
    have find: "Find_text s1 pstrFrom (int (?i + length pstrTo))
        = Some (position (int (length (front @ take i t @ pstrTo))) (tcsstr ?rest pstrFrom))"
      using Find_text_rep [OF s1(2), of "int (length (front @ take i t @ pstrTo))" pstrFrom] bound by (simp add: add.assoc)
    have shorter: "length ?rest < length t" using fewer by linarith
    have next_bound: "length (front @ take i t @ pstrTo) + length ?rest * (1 + length pstrTo) \<le> k"
      using grown taken unfolding length_append by linarith
    obtain s' where "replace_loop mem pstrFrom pstrTo s1 t3
          (position (int (length (front @ take i t @ pstrTo))) (tcsstr ?rest pstrFrom)) (n + 1)
        = Some (s', n + 1 + int (occurrences pstrFrom ?rest))"
      "string_rep s' ((front @ take i t @ pstrTo) @ replace_all pstrFrom pstrTo ?rest)"
      using less.hyps [OF shorter s1(2) t3(2) next_bound, of "n + 1"] by blast
    moreover have "occurrences pstrFrom t = Suc (occurrences pstrFrom ?rest)"
      "replace_all pstrFrom pstrTo t = take i t @ pstrTo @ replace_all pstrFrom pstrTo ?rest"
      using Some assms(1) by (simp_all add: occurrences.simps [of _ t] replace_all.simps [of _ _ t])
    ultimately show ?thesis
      using left(1) t1(1) t2(1) rest(1) t3(1) s1(1) find unfolding pos
      by (subst replace_loop.simps) (simp add: append_text_def)
  qed
qed

lemma Replace_rep:
  assumes "string_rep s t" and "pstrFrom \<noteq> []" and "0 \<notin> set pstrTo"
    and "roomy mem (length t * (1 + length pstrTo))" and "length t * (1 + length pstrTo) < 2 ^ 31"
  obtains s' where "Replace mem s pstrFrom pstrTo = Some (s', int (occurrences pstrFrom t))"
    "string_rep s' (replace_all pstrFrom pstrTo t)"
proof (cases "tcsstr t pstrFrom")
  case None
  then show thesis using assms(1) Find_text_rep [OF assms(1), of 0 pstrFrom]
    by (intro that [of s]) (simp_all add: Replace_def position_def occurrences.simps [of _ t] replace_all.simps [of _ _ t])
next
  case (Some i)
  have "string_rep s ([] @ t)" using assms(1) by simp
  from replace_loop_rep [OF assms(2-5) this new_string_rep, of mem 0] Some obtain s'
    where "replace_loop mem pstrFrom pstrTo s (new_string mem) (int i) 0 = Some (s', int (occurrences pstrFrom t))"
      "string_rep s' (replace_all pstrFrom pstrTo t)" by (auto simp: position_def)
  then show thesis using Some Find_text_rep [OF assms(1), of 0 pstrFrom]
    by (intro that [of s']) (simp_all add: Replace_def position_def)
qed

text \<open>An empty text replaced by an empty text is found again at the same place, forever.\<close>

lemma replace_nothing_loops:
  "replace_loop mem pstrFrom pstrTo s sTemp iPos n = Some r \<Longrightarrow> pstrFrom = [] \<Longrightarrow> pstrTo = [] \<Longrightarrow> string_rep s t \<Longrightarrow>
    string_rep sTemp u \<Longrightarrow> roomy mem (length t) \<Longrightarrow> length t < 2 ^ 31 \<Longrightarrow> 0 \<le> iPos \<Longrightarrow> nat iPos \<le> length t \<Longrightarrow> False"
proof (induction mem pstrFrom pstrTo s sTemp iPos n r arbitrary: u
    rule: replace_loop.raw_induct [rotated, consumes 1, case_names step])
  case (step rec mem pstrFrom pstrTo s sTemp iPos n r)
  note e = step.prems(1,2) and rep = step.prems(3-8)
  obtain left where left: "Left mem s iPos = Some left" "string_rep left (take (nat iPos) t)" using Left_rep [OF rep(1,3)] .
  obtain t1 where t1: "assign_string mem sTemp left = Some t1" "string_rep t1 (take (nat iPos) t)"
    using assign_string_rep [OF rep(2) left(2)] roomy_le [OF rep(3), of "length (take (nat iPos) t)"] by auto
  obtain t2 where t2: "Append mem t1 [] = Some t2" "string_rep t2 (take (nat iPos) t)"
    using Append_rep [OF t1(2), of "[]" mem] roomy_le [OF rep(3), of "length (take (nat iPos) t)"] by auto
  obtain rest where rest: "Mid mem s iPos (-1) = Some rest" "string_rep rest (drop (nat iPos) t)"
    using Mid_rest_rep [OF rep(1,5,6,3,4)] .
  obtain t3 where t3: "append_string mem t2 rest = Some t3" "string_rep t3 t"
    using append_string_rep [OF t2(2) rest(2)] rep(3,6) by auto
  obtain s1 where s1: "assign_string mem s t3 = Some s1" "string_rep s1 t"
    using assign_string_rep [OF rep(1) t3(2) rep(3)] .
  have "Find_text s1 [] iPos = Some iPos"
    using Find_text_rep [OF s1(2) rep(5,6), of "[]"] rep(5) by (cases "drop (nat iPos) t") (simp_all add: position_def)
  then have "rec mem pstrFrom pstrTo s1 t3 iPos (n + 1) = Some r"
    using step.hyps left t1 t2 rest t3 s1 rep(5) e by (simp add: append_text_def)
  then show False by (rule step.IH [OF _ e s1(2) t3(2) rep(3-6)])
qed

text \<open>
  \<open>Assign\<close> with a length beyond its text leaves a short text in a block. The next short \<open>Append\<close> frees this block and goes
  on with what the buffer of the object held before.
\<close>

lemma append_loses_text:
  assumes "m_heap s = Some b" and "spells b t" and "spells (m_szBuffer s) u"
    and "0 \<notin> set p" and "length t + length p < 63" and "length u + length p < length (m_szBuffer s)"
  obtains s' where "Append mem s p = Some s'" "spells (m_pstr s') (u @ p)"
proof -
  obtain b' where "tcscat (m_szBuffer s) p = Some b'" "spells b' (u @ p)"
    using tcscat_spells [OF assms(3,4,6)] .
  then show thesis
    using that [of "s\<lparr>m_heap := None, m_szBuffer := b'\<rparr>"] assms(1,5) tcslen_spells [OF assms(2)]
    by (simp add: Append_def m_pstr_def MAX_LOCAL_STRING_LEN_def)
qed

section \<open>Properties\<close>

text \<open>C20: The strings of duilib are texts. For objects that stand for two texts, and with memory for their length, an
  assignment, a sum, the left, right and middle part of a string return objects for the assigned text, the concatenation
  and the parts, and comparing and searching agree with the texts.\<close>
theorem string_refines_text:
  assumes s: "string_rep s t" and src: "string_rep src p" and mem: "roomy mem (length t + length p)"
    and "length t < 2 ^ 31" and "0 \<le> i" "nat i \<le> length t" and "0 \<le> n" "i + n < 2 ^ 31"
  shows "(\<exists>s'. assign_string mem s src = Some s' \<and> string_rep s' p)
    \<and> (\<exists>s'. append_string mem s src = Some s' \<and> string_rep s' (t @ p))
    \<and> (\<exists>s'. plus_string mem s src = Some s' \<and> string_rep s' (t @ p))
    \<and> (\<exists>s'. Left mem s n = Some s' \<and> string_rep s' (take (nat n) t))
    \<and> (\<exists>s'. Right mem s n = Some s' \<and> string_rep s' (drop (length t - nat n) t))
    \<and> (\<exists>s'. Mid mem s i n = Some s' \<and> string_rep s' (take (nat n) (drop (nat i) t)))
    \<and> string_eq s p = Some (t = p) \<and> Find_text s p i = Some (position i (tcsstr (drop (nat i) t) p))"
proof (intro conjI)
  have t: "roomy mem (length t)" and p: "roomy mem (length p)" using mem by (auto elim: roomy_le)
  have n: "n < 2 ^ 31" using assms(5,8) by linarith
  show "\<exists>s'. assign_string mem s src = Some s' \<and> string_rep s' p" using assign_string_rep [OF s src p] by blast
  show "\<exists>s'. append_string mem s src = Some s' \<and> string_rep s' (t @ p)" using append_string_rep [OF s src mem] by blast
  show "\<exists>s'. plus_string mem s src = Some s' \<and> string_rep s' (t @ p)"
    by (rule copy_string_rep [OF s t], erule append_string_rep [OF _ src mem]) (simp add: plus_string_def)
  show "\<exists>s'. Left mem s n = Some s' \<and> string_rep s' (take (nat n) t)" using Left_rep [OF s t] by blast
  show "\<exists>s'. Right mem s n = Some s' \<and> string_rep s' (drop (length t - nat n) t)"
    by (rule Right_rep [OF s assms(7) n t assms(4)]) (rule exI, rule conjI)
  show "\<exists>s'. Mid mem s i n = Some s' \<and> string_rep s' (take (nat n) (drop (nat i) t))"
    by (rule Mid_rep [OF s assms(5-8) t assms(4)]) (rule exI, rule conjI)
  show "string_eq s p = Some (t = p)" by (rule string_eq_rep [OF s])
  show "Find_text s p i = Some (position i (tcsstr (drop (nat i) t) p))" by (rule Find_text_rep [OF s assms(5,6)])
qed

definition demo_memory :: memory where
  "demo_memory = \<lparr>grants = (\<lambda>n. n \<le> 4096), junk = (\<lambda>i. of_nat i)\<rparr>"

lemma demo_roomy: "k < 2048 \<Longrightarrow> roomy demo_memory k"
  by (simp add: roomy_def demo_memory_def)

text \<open>An object for \<open>ab\<close> and one of 63 units \<open>x\<close> that is in a block.\<close>

definition demo_ab :: dui_string where
  "demo_ab = \<lparr>m_szBuffer = [97, 98] @ replicate 62 0, m_heap = None\<rparr>"

definition demo_long :: dui_string where
  "demo_long = \<lparr>m_szBuffer = 0 # replicate 63 7, m_heap = Some (replicate 63 120 @ [0])\<rparr>"

lemma demo_strings: "string_rep demo_ab [97, 98]" "string_rep demo_long (replicate 63 120)"
  by (simp_all add: string_rep_def demo_ab_def demo_long_def m_pstr_def spells_def c_str_def MAX_LOCAL_STRING_LEN_def
        takeWhile_append)

theorem string_refines_text_witness:
  "\<exists>s'. append_string demo_memory demo_ab demo_long = Some s' \<and> string_rep s' (97 # 98 # replicate 63 120)"
proof -
  have "roomy demo_memory (length [97 :: wchar, 98] + length (replicate 63 (120 :: wchar)))" by (rule demo_roomy) simp
  from string_refines_text [OF demo_strings this, of 0 0] show ?thesis by simp
qed

text \<open>C19: \<open>Replace\<close> ends for a pattern that is not empty. With memory for the result it counts the
  occurrences of the pattern, taken from the left without overlap, and leaves the text in which each of them is replaced.\<close>
theorem replace_replaces_all:
  assumes "string_rep s t" and "pstrFrom \<noteq> []" and "0 \<notin> set pstrTo"
    and "roomy mem (length t * (1 + length pstrTo))" and "length t * (1 + length pstrTo) < 2 ^ 31"
  shows "\<exists>s'. Replace mem s pstrFrom pstrTo = Some (s', int (occurrences pstrFrom t))
    \<and> string_rep s' (replace_all pstrFrom pstrTo t)"
  using Replace_rep [OF assms] by blast

theorem replace_replaces_all_witness:
  "\<exists>s'. Replace demo_memory demo_ab [98] [99, 98] = Some (s', 1) \<and> string_rep s' [97, 99, 98]"
proof -
  have "roomy demo_memory (length [97 :: wchar, 98] * (1 + length [99 :: wchar, 98]))" by (rule demo_roomy) simp
  from replace_replaces_all [OF demo_strings(1) _ _ this, of "[98]"] show ?thesis
    by (simp add: occurrences.simps replace_all.simps)
qed

end
