(* ===== verification/Duilib_Map.thy ===== *)
theory Duilib_Map
  imports Duilib_String
begin

text \<open>
  \<open>CDuiStringPtrMap\<close> of duilib (\<open>Utils.h\<close>, \<open>Utils.cpp\<close>): a hash table from texts to pointers. Every bucket is a doubly
  linked list of items in the memory \<open>items\<close>, whose positions are the addresses; a pointer that is null is \<open>None\<close>, and
  \<open>None\<close> as a result means that a null or freed pointer is followed, or that a walk does not end. Data are 32-bit
  addresses, 0 the null pointer.
\<close>

section \<open>Items and their memory\<close>

record titem =
  Key :: dui_string
  Data :: u32
  pPrev :: "nat option"
  pNext :: "nat option"

type_synonym item_memory = "titem option list"

definition load :: "item_memory \<Rightarrow> nat \<Rightarrow> titem option" where
  "load h a = (if a < length h then h ! a else None)"

definition modify :: "item_memory \<Rightarrow> nat \<Rightarrow> (titem \<Rightarrow> titem) \<Rightarrow> item_memory option" where
  "modify h a f = do { it \<leftarrow> load h a; Some (h[a := Some (f it)]) }"

definition modify_if :: "item_memory \<Rightarrow> nat option \<Rightarrow> (titem \<Rightarrow> titem) \<Rightarrow> item_memory option" where
  "modify_if h p f = (case p of None \<Rightarrow> Some h | Some a \<Rightarrow> modify h a f)"

record str_map =
  m_aT :: "nat option list"
  m_nBuckets :: int
  m_nCount :: int
  items :: item_memory

section \<open>Operations\<close>

definition HashKey :: "wstring \<Rightarrow> u32" where
  "HashKey key = foldr (\<lambda>c i. push_bit 5 i + i + ucast c) key 0"

definition slot_of :: "str_map \<Rightarrow> wstring \<Rightarrow> nat" where
  "slot_of m key = unat (HashKey key) mod nat (m_nBuckets m)"

definition head_of :: "str_map \<Rightarrow> nat \<Rightarrow> nat option option" where
  "head_of m slot = (if slot < length (m_aT m) then Some (m_aT m ! slot) else None)"

definition new_map :: "int \<Rightarrow> str_map" where
  "new_map nSize =
     (let nSize = (if nSize < 16 then 16 else nSize)
      in \<lparr>m_aT = replicate (nat nSize) None, m_nBuckets = nSize, m_nCount = 0, items = []\<rparr>)"

text \<open>The loop that looks for a key along \<open>pNext\<close>.\<close>

partial_function (option) find_item :: "item_memory \<Rightarrow> wstring \<Rightarrow> nat option \<Rightarrow> nat option option" where
  "find_item h key pItem =
     (case pItem of
        None \<Rightarrow> Some None
      | Some a \<Rightarrow>
          Option.bind (load h a) (\<lambda>it.
            Option.bind (string_eq (Key it) key) (\<lambda>eq.
              if eq then Some (Some a) else find_item h key (pNext it))))"

text \<open>An item that is not the first of its bucket becomes the first.\<close>

definition move_front :: "str_map \<Rightarrow> nat \<Rightarrow> nat \<Rightarrow> str_map option" where
  "move_front m slot a = do {
     it \<leftarrow> load (items m) a;
     h \<leftarrow> modify_if (items m) (pNext it) (pPrev_update (\<lambda>_. pPrev it));
     prev \<leftarrow> pPrev it;
     h \<leftarrow> modify h prev (pNext_update (\<lambda>_. pNext it));
     h \<leftarrow> modify h a (pPrev_update (\<lambda>_. None));
     head \<leftarrow> head_of m slot;
     h \<leftarrow> modify h a (pNext_update (\<lambda>_. head));
     first \<leftarrow> head;
     h \<leftarrow> modify h first (pPrev_update (\<lambda>_. Some a));
     Some (m\<lparr>items := h, m_aT := (m_aT m)[slot := Some a]\<rparr>) }"

definition map_Find :: "str_map \<Rightarrow> wstring \<Rightarrow> bool \<Rightarrow> (u32 \<times> str_map) option" where
  "map_Find m key optimize =
     (if m_nBuckets m = 0 \<or> m_nCount m = 0 then Some (0, m)
      else do {
        let slot = slot_of m key;
        head \<leftarrow> head_of m slot;
        pItem \<leftarrow> find_item (items m) key head;
        case pItem of
          None \<Rightarrow> Some (0, m)
        | Some a \<Rightarrow> do {
            m \<leftarrow> (if optimize \<and> head \<noteq> Some a then move_front m slot a else Some m);
            it \<leftarrow> load (items m) a;
            Some (Data it, m) } })"

definition map_Insert :: "memory \<Rightarrow> str_map \<Rightarrow> wstring \<Rightarrow> u32 \<Rightarrow> (bool \<times> str_map) option" where
  "map_Insert mem m key pData =
     (if m_nBuckets m = 0 then Some (False, m)
      else do {
        (old, m) \<leftarrow> map_Find m key True;
        if old \<noteq> 0 then Some (False, m)
        else do {
          let slot = slot_of m key;
          k \<leftarrow> assign_text mem (new_string mem) (Some key);
          head \<leftarrow> head_of m slot;
          let a = length (items m);
          h \<leftarrow> modify_if (items m @ [Some \<lparr>Key = k, Data = pData, pPrev = None, pNext = head\<rparr>]) head
                 (pPrev_update (\<lambda>_. Some a));
          Some (True, m\<lparr>items := h, m_aT := (m_aT m)[slot := Some a], m_nCount := m_nCount m + 1\<rparr>) } })"

definition map_Set :: "memory \<Rightarrow> str_map \<Rightarrow> wstring \<Rightarrow> u32 \<Rightarrow> (u32 \<times> str_map) option" where
  "map_Set mem m key pData =
     (if m_nBuckets m = 0 then Some (pData, m)
      else do {
        found \<leftarrow> (if m_nCount m > 0
                  then do { head \<leftarrow> head_of m (slot_of m key); find_item (items m) key head }
                  else Some None);
        case found of
          Some a \<Rightarrow> do {
            it \<leftarrow> load (items m) a;
            h \<leftarrow> modify (items m) a (Data_update (\<lambda>_. pData));
            Some (Data it, m\<lparr>items := h\<rparr>) }
        | None \<Rightarrow> do { (_, m) \<leftarrow> map_Insert mem m key pData; Some (0, m) } })"

text \<open>\<open>Remove\<close> walks with a pointer to the pointer it may change: the entry of the table, or the \<open>pNext\<close> of an item.\<close>

datatype location = Slot nat | NextOf nat

definition read_loc :: "str_map \<Rightarrow> location \<Rightarrow> nat option option" where
  "read_loc m l = (case l of Slot i \<Rightarrow> head_of m i | NextOf a \<Rightarrow> map_option pNext (load (items m) a))"

definition write_loc :: "str_map \<Rightarrow> location \<Rightarrow> nat option \<Rightarrow> str_map option" where
  "write_loc m l p =
     (case l of
        Slot i \<Rightarrow> Some (m\<lparr>m_aT := (m_aT m)[i := p]\<rparr>)
      | NextOf a \<Rightarrow> map_option (\<lambda>h. m\<lparr>items := h\<rparr>) (modify (items m) a (pNext_update (\<lambda>_. p))))"

definition kill_item :: "str_map \<Rightarrow> location \<Rightarrow> nat \<Rightarrow> str_map option" where
  "kill_item m ppItem pKill = do {
     it \<leftarrow> load (items m) pKill;
     m \<leftarrow> write_loc m ppItem (pNext it);
     it \<leftarrow> load (items m) pKill;
     next \<leftarrow> read_loc m ppItem;
     h \<leftarrow> modify_if (items m) next (pPrev_update (\<lambda>_. pPrev it));
     Some (m\<lparr>items := h[pKill := None], m_nCount := m_nCount m - 1\<rparr>) }"

partial_function (option) remove_item :: "str_map \<Rightarrow> wstring \<Rightarrow> location \<Rightarrow> (bool \<times> str_map) option" where
  "remove_item m key ppItem =
     Option.bind (read_loc m ppItem) (\<lambda>p.
       case p of
         None \<Rightarrow> Some (False, m)
       | Some a \<Rightarrow>
           Option.bind (load (items m) a) (\<lambda>it.
             Option.bind (string_eq (Key it) key) (\<lambda>eq.
               if eq then Option.bind (kill_item m ppItem a) (\<lambda>m. Some (True, m))
               else remove_item m key (NextOf a))))"

definition map_Remove :: "str_map \<Rightarrow> wstring \<Rightarrow> (bool \<times> str_map) option" where
  "map_Remove m key =
     (if m_nBuckets m = 0 \<or> m_nCount m = 0 then Some (False, m)
      else remove_item m key (Slot (slot_of m key)))"

definition map_GetSize :: "str_map \<Rightarrow> int" where
  "map_GetSize m = m_nCount m"

text \<open>The walk of \<open>GetAt\<close> along a bucket: the item at the place, or how many places the bucket had.\<close>

partial_function (option) walk_bucket :: "item_memory \<Rightarrow> int \<Rightarrow> int \<Rightarrow> nat option \<Rightarrow> (nat option \<times> int) option" where
  "walk_bucket h iIndex pos pItem =
     (if pItem = None then Some (None, pos)
      else Option.bind (load h (the pItem)) (\<lambda>it.
        if pos = iIndex then Some (pItem, pos) else walk_bucket h iIndex (pos + 1) (pNext it)))"

fun walk_table :: "item_memory \<Rightarrow> int \<Rightarrow> int \<Rightarrow> nat option list \<Rightarrow> nat option option" where
  "walk_table h iIndex pos [] = Some None"
| "walk_table h iIndex pos (p # T) = do {
     r \<leftarrow> walk_bucket h iIndex pos p;
     case r of (Some a, _) \<Rightarrow> Some (Some a) | (None, pos) \<Rightarrow> walk_table h iIndex pos T }"

definition map_GetAt :: "str_map \<Rightarrow> int \<Rightarrow> wstring option option" where
  "map_GetAt m iIndex =
     (if m_nBuckets m = 0 \<or> m_nCount m = 0 then Some None
      else do {
        found \<leftarrow> walk_table (items m) iIndex 0 (rev (m_aT m));
        case found of
          None \<Rightarrow> Some None
        | Some a \<Rightarrow> do { it \<leftarrow> load (items m) a; k \<leftarrow> string_at (Key it) 0; Some (Some k) } })"

partial_function (option) delete_chain :: "item_memory \<Rightarrow> nat option \<Rightarrow> item_memory option" where
  "delete_chain h pItem =
     (case pItem of
        None \<Rightarrow> Some h
      | Some a \<Rightarrow> Option.bind (load h a) (\<lambda>it. delete_chain (h[a := None]) (pNext it)))"

fun delete_table :: "item_memory \<Rightarrow> nat option list \<Rightarrow> item_memory option" where
  "delete_table h [] = Some h"
| "delete_table h (p # T) = do { h \<leftarrow> delete_chain h p; delete_table h T }"

definition map_Resize :: "str_map \<Rightarrow> int \<Rightarrow> str_map option" where
  "map_Resize m nSize = do {
     h \<leftarrow> delete_table (items m) (rev (m_aT m));
     let nSize = (if nSize < 0 then 0 else nSize);
     Some \<lparr>m_aT = replicate (nat nSize) None, m_nBuckets = nSize, m_nCount = 0, items = h\<rparr> }"

definition map_RemoveAll :: "str_map \<Rightarrow> str_map option" where
  "map_RemoveAll m = map_Resize m (m_nBuckets m)"

section \<open>Doubly linked lists\<close>

text \<open>Seen through \<open>load\<close>, a memory is a partial function. What the writes of the operations do to it:\<close>

named_theorems memory_simps \<open>what is loaded from a changed memory\<close>

definition upd :: "(nat \<rightharpoonup> titem) \<Rightarrow> nat \<Rightarrow> (titem \<Rightarrow> titem) \<Rightarrow> (nat \<rightharpoonup> titem)" where
  "upd H a f = H(a := map_option f (H a))"

definition set_prev :: "(nat \<rightharpoonup> titem) \<Rightarrow> nat option \<Rightarrow> nat option \<Rightarrow> (nat \<rightharpoonup> titem)" where
  "set_prev H p r = (case p of None \<Rightarrow> H | Some a \<Rightarrow> upd H a (pPrev_update (\<lambda>_. r)))"

lemma load_update [memory_simps]: "a < length h \<Longrightarrow> load (h[a := x]) = (load h)(a := x)"
  by (auto simp: load_def fun_eq_iff)

lemma load_less: "load h a = Some it \<Longrightarrow> a < length h"
  by (simp add: load_def split: if_splits)

lemma load_append [memory_simps]: "load (h @ [Some it]) = (load h)(length h \<mapsto> it)"
  by (auto simp: load_def fun_eq_iff nth_append)

lemma modify_load:
  assumes "load h a = Some it"
  obtains h' where "modify h a f = Some h'" "load h' = (load h)(a \<mapsto> f it)"
  using assms load_less [OF assms] by (simp add: modify_def load_update)

lemma modify_if_load:
  assumes "\<And>a. p = Some a \<Longrightarrow> load h a \<noteq> None"
  obtains h' where "modify_if h p (pPrev_update (\<lambda>_. r)) = Some h'" "load h' = set_prev (load h) p r"
proof (cases p)
  case None
  then show thesis using that by (simp add: modify_if_def set_prev_def)
next
  case (Some a)
  then obtain it where it: "load h a = Some it" using assms by blast
  obtain h' where "modify h a (pPrev_update (\<lambda>_. r)) = Some h'" "load h' = (load h)(a \<mapsto> pPrev_update (\<lambda>_. r) it)"
    using modify_load [OF it] .
  then show thesis using Some it by (intro that [of h']) (simp_all add: modify_if_def set_prev_def upd_def)
qed

text \<open>A chain from the pointer \<open>p\<close> whose first item points back to \<open>q\<close>, and a segment of one.\<close>

fun chain :: "(nat \<rightharpoonup> titem) \<Rightarrow> nat option \<Rightarrow> nat option \<Rightarrow> nat list \<Rightarrow> bool" where
  "chain H q p [] \<longleftrightarrow> p = None"
| "chain H q p (a # as) \<longleftrightarrow> p = Some a \<and> (\<exists>it. H a = Some it \<and> pPrev it = q \<and> chain H (Some a) (pNext it) as)"

fun segment :: "(nat \<rightharpoonup> titem) \<Rightarrow> nat option \<Rightarrow> nat option \<Rightarrow> nat list \<Rightarrow> nat option \<Rightarrow> nat option \<Rightarrow> bool" where
  "segment H q p [] r s \<longleftrightarrow> r = q \<and> s = p"
| "segment H q p (a # as) r s \<longleftrightarrow>
     p = Some a \<and> (\<exists>it. H a = Some it \<and> pPrev it = q \<and> segment H (Some a) (pNext it) as r s)"

lemma chain_cong: "(\<And>a. a \<in> set as \<Longrightarrow> H' a = H a) \<Longrightarrow> chain H' q p as = chain H q p as"
  by (induction as arbitrary: q p) auto

lemma segment_cong: "(\<And>a. a \<in> set as \<Longrightarrow> H' a = H a) \<Longrightarrow> segment H' q p as r s = segment H q p as r s"
  by (induction as arbitrary: q p) auto

lemma chain_append: "chain H q p (xs @ ys) \<longleftrightarrow> (\<exists>r s. segment H q p xs r s \<and> chain H r s ys)"
  by (induction xs arbitrary: q p) auto

lemma segment_snoc:
  "segment H q p (xs @ [x]) r s \<longleftrightarrow>
    r = Some x \<and> (\<exists>it. H x = Some it \<and> segment H q p xs (pPrev it) (Some x) \<and> s = pNext it)"
  by (induction xs arbitrary: q p) auto

lemma chain_null: "chain H q None as \<longleftrightarrow> as = []"
  by (cases as) auto

lemma chain_loaded: "chain H q p as \<Longrightarrow> a \<in> set as \<Longrightarrow> H a \<noteq> None"
  by (induction as arbitrary: q p) auto

lemma chain_head: "chain H q (Some a) as \<Longrightarrow> a \<in> set as"
  by (cases as) auto

lemma set_prev_other: "p \<noteq> Some b \<Longrightarrow> set_prev H p r b = H b"
  by (auto simp: set_prev_def upd_def split: option.split)

text \<open>The first item of a chain gets another predecessor; a new item is put in front; an item is taken out.\<close>

lemma chain_relink:
  assumes "chain H q p as" and "distinct as"
  shows "chain (set_prev H p r) r p as"
proof (cases as)
  case (Cons a bs)
  then obtain it where it: "p = Some a" "H a = Some it" "chain H (Some a) (pNext it) bs" using assms(1) by auto
  have "chain (set_prev H p r) (Some a) (pNext it) bs"
    using it assms(2) Cons by (subst chain_cong [of _ _ H]) (auto intro: set_prev_other)
  then show ?thesis using Cons it by (simp add: set_prev_def upd_def)
qed (use assms in \<open>simp add: set_prev_def\<close>)

lemma chain_front:
  assumes "chain H q p as" and "distinct (a # as)" and "pPrev it = None" "pNext it = p"
  shows "chain (set_prev (H(a \<mapsto> it)) p (Some a)) None (Some a) (a # as)"
proof -
  have p: "p \<noteq> Some a" using assms(1,2) chain_head by auto
  have "chain (H(a \<mapsto> it)) q p as" using assms(1,2) by (subst chain_cong [of _ _ H]) auto
  then have "chain (set_prev (H(a \<mapsto> it)) p (Some a)) (Some a) p as" using assms(2) by (intro chain_relink) auto
  then show ?thesis using assms(3,4) set_prev_other [OF p] by simp
qed

lemma chain_unlink_first:
  assumes "chain H None p (a # as)" and "distinct (a # as)" and "H a = Some it"
  shows "p = Some a" "chain (set_prev H (pNext it) (pPrev it)) None (pNext it) as"
  using assms chain_relink [of H "Some a" "pNext it" as None] by auto

lemma chain_unlink:
  assumes "chain H None p (xs @ x # a # as)" and "distinct (xs @ x # a # as)" and "H a = Some it"
  shows "pPrev it = Some x"
    "chain (upd (set_prev H (pNext it) (Some x)) x (pNext_update (\<lambda>_. pNext it))) None p (xs @ x # as)"
proof -
  have "chain H None p ((xs @ [x]) @ a # as)" using assms(1) by simp
  then obtain ix where ix: "H x = Some ix" "segment H None p xs (pPrev ix) (Some x)" "pNext ix = Some a" "pPrev it = Some x"
    and as: "chain H (Some a) (pNext it) as"
    using assms(3) unfolding chain_append segment_snoc by auto
  show "pPrev it = Some x" by fact
  let ?H1 = "set_prev H (pNext it) (Some x)"
  let ?H2 = "upd ?H1 x (pNext_update (\<lambda>_. pNext it))"
  have as': "chain ?H2 (Some x) (pNext it) as"
    using chain_relink [OF as, of "Some x"] assms(2) by (subst chain_cong [of _ _ ?H1]) (auto simp: upd_def)
  have same: "?H1 b = H b" if "b \<in> set (x # xs)" for b
  proof (rule set_prev_other, rule notI)
    assume "pNext it = Some b"
    then have "b \<in> set as" using as chain_head [of H "Some a" b as] by simp
    then show False using that assms(2) by auto
  qed
  have "segment ?H2 None p xs (pPrev ix) (Some x)"
    using ix(2) same assms(2) by (subst segment_cong [of _ _ H]) (auto simp: upd_def)
  then have "segment ?H2 None p (xs @ [x]) (Some x) (pNext it)"
    unfolding segment_snoc using same [of x] ix(1) by (simp add: upd_def)
  with as' have "chain ?H2 None p ((xs @ [x]) @ as)" unfolding chain_append by blast
  then show "chain ?H2 None p (xs @ x # as)" by simp
qed

section \<open>Buckets\<close>

definition key_at :: "(nat \<rightharpoonup> titem) \<Rightarrow> nat \<Rightarrow> wstring" where
  "key_at H a = (case H a of None \<Rightarrow> [] | Some it \<Rightarrow> c_str (m_pstr (Key it)))"

definition data_at :: "(nat \<rightharpoonup> titem) \<Rightarrow> nat \<Rightarrow> u32" where
  "data_at H a = (case H a of None \<Rightarrow> 0 | Some it \<Rightarrow> Data it)"

definition entries :: "(nat \<rightharpoonup> titem) \<Rightarrow> nat list \<Rightarrow> (wstring \<times> u32) list" where
  "entries H as = map (\<lambda>a. (key_at H a, data_at H a)) as"

definition slot :: "nat \<Rightarrow> wstring \<Rightarrow> nat" where
  "slot n key = unat (HashKey key) mod n"

text \<open>The items of a bucket: linked both ways, with keys that are texts, differ and belong to this bucket.\<close>

definition item_ok :: "(nat \<rightharpoonup> titem) \<Rightarrow> nat \<Rightarrow> nat \<Rightarrow> nat \<Rightarrow> bool" where
  "item_ok H n i a \<longleftrightarrow> (\<exists>it. H a = Some it \<and> string_rep (Key it) (key_at H a)) \<and> slot n (key_at H a) = i"

definition bucket :: "(nat \<rightharpoonup> titem) \<Rightarrow> nat \<Rightarrow> nat \<Rightarrow> nat option \<Rightarrow> nat list \<Rightarrow> bool" where
  "bucket H n i p as \<longleftrightarrow> chain H None p as \<and> distinct (map (key_at H) as) \<and> (\<forall>a \<in> set as. item_ok H n i a)"

text \<open>Writes to the pointers of items change neither keys nor data.\<close>

definition same_content :: "(nat \<rightharpoonup> titem) \<Rightarrow> (nat \<rightharpoonup> titem) \<Rightarrow> bool" where
  "same_content H H' \<longleftrightarrow> (\<forall>a. map_option (\<lambda>it. (Key it, Data it)) (H' a) = map_option (\<lambda>it. (Key it, Data it)) (H a))"

lemma same_contentD:
  assumes "same_content H H'"
  shows "key_at H' a = key_at H a" "data_at H' a = data_at H a" "item_ok H' n i a = item_ok H n i a" "entries H' as = entries H as"
proof -
  have e: "map_option (\<lambda>it. (Key it, Data it)) (H' a) = map_option (\<lambda>it. (Key it, Data it)) (H a)" for a
    using assms by (simp add: same_content_def)
  show k: "key_at H' a = key_at H a" for a using e [of a] by (auto simp: key_at_def split: option.splits)
  show d: "data_at H' a = data_at H a" for a using e [of a] by (auto simp: data_at_def split: option.splits)
  show "entries H' as = entries H as" by (simp add: entries_def k d)
  show "item_ok H' n i a = item_ok H n i a"
    using e [of a] by (cases "H a"; cases "H' a") (auto simp: item_ok_def k)
qed

lemma same_content_refl [simp]: "same_content H H"
  by (simp add: same_content_def)

lemma same_content_upd:
  "same_content H H' \<Longrightarrow> (\<And>it. Key (f it) = Key it \<and> Data (f it) = Data it) \<Longrightarrow> same_content H (upd H' a f)"
  by (simp add: same_content_def upd_def option.map_comp comp_def)

lemma same_content_set_prev: "same_content H H' \<Longrightarrow> same_content H (set_prev H' p r)"
  by (auto simp: set_prev_def intro: same_content_upd split: option.split)

lemma key_at_cong: "H' a = H a \<Longrightarrow> key_at H' a = key_at H a" "H' a = H a \<Longrightarrow> data_at H' a = data_at H a"
  "H' a = H a \<Longrightarrow> item_ok H' n i a = item_ok H n i a"
  by (simp_all add: key_at_def data_at_def item_ok_def)

lemma bucket_cong:
  assumes "\<And>a. a \<in> set as \<Longrightarrow> H' a = H a"
  shows "bucket H' n i p as = bucket H n i p as" "entries H' as = entries H as"
proof -
  have keys: "map (key_at H') as = map (key_at H) as" by (rule map_cong [OF refl key_at_cong(1) [OF assms]])
  moreover have "item_ok H' n i a = item_ok H n i a" if "a \<in> set as" for a using assms [OF that] by (rule key_at_cong(3))
  ultimately show "bucket H' n i p as = bucket H n i p as"
    using chain_cong [of as H' H None p] assms by (simp add: bucket_def keys)
  show "entries H' as = entries H as"
    unfolding entries_def by (rule map_cong [OF refl]) (simp add: key_at_cong [OF assms])
qed

lemma map_fst_entries [simp]: "map fst (entries H as) = map (key_at H) as"
  by (simp add: entries_def comp_def)

lemma bucket_distinct: "bucket H n i p as \<Longrightarrow> distinct as"
  by (simp add: bucket_def distinct_map)

text \<open>The walk finds the item of a key.\<close>

lemma find_item_chain:
  assumes "chain (load h) q p as" and "\<forall>a \<in> set as. item_ok (load h) n i a"
  shows "find_item h key p = Some (List.find (\<lambda>a. key_at (load h) a = key) as)"
  using assms
proof (induction as arbitrary: q p)
  case (Cons a as)
  then obtain it where it: "p = Some a" "load h a = Some it" "string_rep (Key it) (key_at (load h) a)" "chain (load h) (Some a) (pNext it) as"
    by (auto simp: item_ok_def)
  then show ?case using Cons.IH [OF it(4)] Cons.prems(2) by (subst find_item.simps) (simp add: string_eq_rep)
qed (simp add: find_item.simps)

lemma find_entry:
  "map_of (entries H as) key = map_option (data_at H) (List.find (\<lambda>a. key_at H a = key) as)"
  by (induction as) (auto simp: entries_def)

lemma split_found:
  assumes "List.find P as = Some a"
  obtains xs ys where "as = xs @ a # ys" "P a"
  using assms by (metis find_Some_iff in_set_conv_decomp nth_mem)

text \<open>Moving an item to the front.\<close>

lemma move_front_chain:
  fixes m :: str_map
  defines "H \<equiv> load (items m)"
  assumes as: "chain H None (m_aT m ! i) (xs @ x # a # ys)" and dist: "distinct (xs @ x # a # ys)" and i: "i < length (m_aT m)"
  obtains m' where "move_front m i a = Some m'" "m_aT m' = (m_aT m)[i := Some a]" "m_nBuckets m' = m_nBuckets m"
    "m_nCount m' = m_nCount m" "chain (load (items m')) None (Some a) (a # xs @ x # ys)" "same_content H (load (items m'))"
    "\<And>b. b \<notin> set (xs @ x # a # ys) \<Longrightarrow> load (items m') b = H b"
proof -
  define p where "p = m_aT m ! i"
  have loaded: "H b \<noteq> None" if "b \<in> set (xs @ x # a # ys)" for b using chain_loaded [OF as that] .
  obtain it where it: "H a = Some it" using loaded [of a] by auto
  note un = chain_unlink [OF as dist it]
  obtain us where us: "chain H (Some a) (pNext it) ys"
    using as it unfolding chain_append by auto
  have next_ys: "b \<in> set ys" if "pNext it = Some b" for b using us chain_head that by simp
  obtain h1 where h1: "modify_if (items m) (pNext it) (pPrev_update (\<lambda>_. pPrev it)) = Some h1"
    "load h1 = set_prev H (pNext it) (Some x)"
    using modify_if_load [of "pNext it" "items m" "pPrev it"] loaded next_ys unfolding H_def un(1) by auto
  have same1: "load h1 b = H b" if "b \<in> set (xs @ [x, a])" for b
    unfolding h1(2) using that dist next_ys by (intro set_prev_other) auto
  obtain ix where ix: "H x = Some ix" using loaded [of x] by auto
  obtain h2 where h2: "modify h1 x (pNext_update (\<lambda>_. pNext it)) = Some h2"
    "load h2 = upd (load h1) x (pNext_update (\<lambda>_. pNext it))"
    using modify_load [of h1 x ix "pNext_update (\<lambda>_. pNext it)"] same1 [of x] ix by (auto simp: upd_def)
  have a2: "load h2 a = Some it" using same1 [of a] it dist by (auto simp: h2(2) upd_def)
  obtain h3 where h3: "modify h2 a (pPrev_update (\<lambda>_. None)) = Some h3" "load h3 = (load h2)(a \<mapsto> it\<lparr>pPrev := None\<rparr>)"
    using modify_load [OF a2] by auto
  obtain h4 where h4: "modify h3 a (pNext_update (\<lambda>_. p)) = Some h4" "load h4 = (load h2)(a \<mapsto> it\<lparr>pPrev := None, pNext := p\<rparr>)"
    using modify_load [of h3 a "it\<lparr>pPrev := None\<rparr>" "pNext_update (\<lambda>_. p)"] h3(2) by auto
  have chain2: "chain (load h2) None p (xs @ x # ys)" using un(2) unfolding h2(2) h1(2) p_def .
  obtain f where f: "p = Some f" "f \<in> set (xs @ x # ys)" using chain2 by (cases xs) auto
  have "load h4 f \<noteq> None" using chain_loaded [OF chain2 f(2)] by (simp add: h4(2))
  then obtain it_f where it_f: "load h4 f = Some it_f" by blast
  obtain h5 where mod5: "modify h4 f (pPrev_update (\<lambda>_. Some a)) = Some h5" "load h5 = (load h4)(f \<mapsto> pPrev_update (\<lambda>_. Some a) it_f)"
    using modify_load [OF it_f] .
  then have h5: "modify h4 f (pPrev_update (\<lambda>_. Some a)) = Some h5" "load h5 = set_prev (load h4) p (Some a)"
    by (simp_all add: f(1) set_prev_def upd_def it_f)
  define m' where "m' = m\<lparr>items := h5, m_aT := (m_aT m)[i := Some a]\<rparr>"
  show thesis
  proof (rule that [of m'])
    show "move_front m i a = Some m'"
      using it h1(1) h2(1) h3(1) h4(1) h5(1) un(1) i f(1) by (simp add: move_front_def H_def head_of_def p_def m'_def)
    show "chain (load (items m')) None (Some a) (a # xs @ x # ys)"
      using chain_front [OF chain2, of a "it\<lparr>pPrev := None, pNext := p\<rparr>"] dist by (simp add: m'_def h5(2) h4(2))
    have "same_content H (load h2)" unfolding h2(2) h1(2) by (intro same_content_upd same_content_set_prev) auto
    then have "same_content H (load h4)" using a2 it by (auto simp: same_content_def h4(2))
    then show "same_content H (load (items m'))" unfolding m'_def by (simp add: h5(2) same_content_set_prev)
    show "load (items m') b = H b" if "b \<notin> set (xs @ x # a # ys)" for b
    proof -
      have "load h1 b = H b" unfolding h1(2) using that next_ys by (intro set_prev_other) auto
      moreover have "load h5 b = load h4 b" unfolding h5(2) using that f by (intro set_prev_other) auto
      ultimately show ?thesis using that by (auto simp: m'_def h4(2) h2(2) upd_def)
    qed
  qed (simp_all add: m'_def)
qed

text \<open>Taking an item out: the pointer to it is in the table or in its predecessor.\<close>

definition loc :: "nat \<Rightarrow> nat list \<Rightarrow> location" where
  "loc i xs = (if xs = [] then Slot i else NextOf (last xs))"

lemma loc_simps [simp]: "loc i [] = Slot i" "loc i (xs @ [x]) = NextOf x"
  by (simp_all add: loc_def)

lemma set_prev_upd: "p \<noteq> Some x \<Longrightarrow> set_prev (upd H x f) p r = upd (set_prev H p r) x f"
  by (auto simp: set_prev_def upd_def fun_upd_twist split: option.split)

lemma set_prev_dom: "set_prev H p r b = None \<longleftrightarrow> H b = None"
  by (auto simp: set_prev_def upd_def split: option.split)

lemma kill_item_chain:
  fixes m :: str_map
  defines "H \<equiv> load (items m)"
  assumes as: "chain H None (m_aT m ! i) (xs @ a # ys)" and dist: "distinct (xs @ a # ys)" and i: "i < length (m_aT m)"
  obtains m' p where "kill_item m (loc i xs) a = Some m'" "m_aT m' = (m_aT m)[i := p]" "m_nBuckets m' = m_nBuckets m"
    "m_nCount m' = m_nCount m - 1" "chain (load (items m')) None p (xs @ ys)" "same_content (H(a := None)) (load (items m'))"
    "\<And>b. b \<notin> set (xs @ a # ys) \<Longrightarrow> load (items m') b = H b"
proof -
  obtain it where it: "H a = Some it" using chain_loaded [OF as, of a] by auto
  have ys: "chain H (Some a) (pNext it) ys" using as it unfolding chain_append by auto
  have next_ys: "b \<in> set ys" if "pNext it = Some b" for b using ys chain_head that by simp
  have next_loaded: "H b \<noteq> None" if "pNext it = Some b" for b using chain_loaded [OF ys next_ys [OF that]] .
  have alive: "load (h[a := None]) = (load h)(a := None)" if "load h a \<noteq> None" for h
    using that load_less by (auto intro: load_update)
  show thesis
  proof (cases xs rule: rev_cases)
    case Nil
    note un = chain_unlink_first [OF as [unfolded Nil append_Nil] dist [unfolded Nil append_Nil] it]
    obtain h where h: "modify_if (items m) (pNext it) (pPrev_update (\<lambda>_. pPrev it)) = Some h" "load h = set_prev H (pNext it) (pPrev it)"
      using modify_if_load [of "pNext it" "items m" "pPrev it"] next_loaded unfolding H_def by blast
    have gone: "load (h[a := None]) = (load h)(a := None)" by (rule alive) (simp add: h(2) set_prev_dom it)
    let ?m = "m\<lparr>items := h[a := None], m_aT := (m_aT m)[i := pNext it], m_nCount := m_nCount m - 1\<rparr>"
    show thesis
    proof (rule that [of ?m "pNext it"])
      show "kill_item m (loc i xs) a = Some ?m"
        using it h(1) i by (simp add: kill_item_def Nil H_def write_loc_def read_loc_def head_of_def)
      have "chain (load (h[a := None])) None (pNext it) ys"
        using un(2) dist unfolding h(2) [symmetric] by (subst chain_cong [of _ _ "load h"]) (auto simp: gone)
      then show "chain (load (items ?m)) None (pNext it) (xs @ ys)" by (simp add: Nil)
      have "same_content H (load h)" unfolding h(2) by (rule same_content_set_prev) simp
      then show "same_content (H(a := None)) (load (items ?m))" by (auto simp: same_content_def gone)
      show "load (items ?m) b = H b" if "b \<notin> set (xs @ a # ys)" for b
        using that next_ys set_prev_other [of "pNext it" b H "pPrev it"] by (auto simp: gone h(2))
    qed simp_all
  next
    case (snoc us x)
    note un = chain_unlink [OF as [unfolded snoc append_assoc append_Cons append_Nil] dist [unfolded snoc append_assoc append_Cons append_Nil] it]
    have nx: "pNext it \<noteq> Some x" using next_ys dist snoc by auto
    obtain ix where ix: "H x = Some ix" using chain_loaded [OF as, of x] snoc by auto
    obtain h1 where h1: "modify (items m) x (pNext_update (\<lambda>_. pNext it)) = Some h1" "load h1 = H(x \<mapsto> pNext_update (\<lambda>_. pNext it) ix)"
      using modify_load [OF ix [unfolded H_def]] unfolding H_def .
    have h1': "load h1 = upd H x (pNext_update (\<lambda>_. pNext it))" by (simp add: h1(2) upd_def ix)
    have alive1: "load h1 b \<noteq> None" if "pNext it = Some b" for b using next_loaded [OF that] by (simp add: h1(2))
    obtain h where h: "modify_if h1 (pNext it) (pPrev_update (\<lambda>_. pPrev it)) = Some h" "load h = set_prev (load h1) (pNext it) (Some x)"
      using modify_if_load [OF alive1] unfolding un(1) .
    have h2: "load h = upd (set_prev H (pNext it) (Some x)) x (pNext_update (\<lambda>_. pNext it))"
      unfolding h(2) h1' by (rule set_prev_upd [OF nx])
    have ax: "a \<noteq> x" using dist snoc by auto
    have gone: "load (h[a := None]) = (load h)(a := None)"
      by (rule alive) (simp add: h2 upd_def set_prev_dom it ax)
    let ?m = "m\<lparr>items := h[a := None], m_nCount := m_nCount m - 1\<rparr>"
    show thesis
    proof (rule that [of ?m "m_aT m ! i"])
      have "load h1 a = Some it" using it ax by (simp add: h1(2))
      moreover have "load h1 x = Some (pNext_update (\<lambda>_. pNext it) ix)" by (simp add: h1(2))
      ultimately show "kill_item m (loc i xs) a = Some ?m"
        using it h1(1) h(1) by (simp add: kill_item_def snoc H_def write_loc_def read_loc_def)
      have "chain (load (h[a := None])) None (m_aT m ! i) (us @ x # ys)"
        using un(2) dist snoc unfolding h2 [symmetric] by (subst chain_cong [of _ _ "load h"]) (auto simp: gone)
      then show "chain (load (items ?m)) None (m_aT m ! i) (xs @ ys)" by (simp add: snoc)
      have "same_content H (load h)" unfolding h2 by (intro same_content_upd same_content_set_prev) auto
      then show "same_content (H(a := None)) (load (items ?m))" by (auto simp: same_content_def gone)
      show "load (items ?m) b = H b" if "b \<notin> set (xs @ a # ys)" for b
        using that snoc next_ys set_prev_other [of "pNext it" b H "Some x"] by (auto simp: gone h2 upd_def)
    qed (use i in simp_all)
  qed
qed

text \<open>The walk of \<open>Remove\<close> reaches the item of the key with the pointer to it.\<close>

lemma remove_item_chain:
  fixes m :: str_map
  defines "H \<equiv> load (items m)"
  assumes "chain H None (m_aT m ! i) (xs @ ys)" and "i < length (m_aT m)" and "\<forall>a \<in> set ys. item_ok H n i a"
  shows "(\<exists>us a vs. ys = us @ a # vs \<and> key_at H a = key \<and>
            remove_item m key (loc i xs) = map_option (Pair True) (kill_item m (loc i (xs @ us)) a))
    \<or> (\<forall>a \<in> set ys. key_at H a \<noteq> key) \<and> remove_item m key (loc i xs) = Some (False, m)"
  using assms(2,4)
proof (induction ys arbitrary: xs)
  case Nil
  have "read_loc m (loc i xs) = Some None"
    using Nil(1) assms(3) unfolding H_def
    by (cases xs rule: rev_cases) (auto simp: read_loc_def head_of_def chain_append segment_snoc)
  then show ?case by (simp add: remove_item.simps)
next
  case (Cons a ys)
  have a: "read_loc m (loc i xs) = Some (Some a)"
    using Cons.prems(1) assms(3) unfolding H_def
    by (cases xs rule: rev_cases) (auto simp: read_loc_def head_of_def chain_append segment_snoc)
  obtain it where it: "H a = Some it" "string_rep (Key it) (key_at H a)" using Cons.prems(2) by (auto simp: item_ok_def)
  have eq: "string_eq (Key it) key = Some (key_at H a = key)" by (rule string_eq_rep [OF it(2)])
  show ?case
  proof (cases "key_at H a = key")
    case True
    then have "remove_item m key (loc i xs) = map_option (Pair True) (kill_item m (loc i (xs @ [])) a)"
      using a it(1) eq unfolding H_def by (subst remove_item.simps) (simp add: map_option_case Option.bind_def split: option.split)
    then show ?thesis using True by (intro disjI1 exI [of _ "[]"] exI [of _ a] exI [of _ ys]) simp
  next
    case False
    then have step: "remove_item m key (loc i xs) = remove_item m key (loc i (xs @ [a]))"
      using a it(1) eq unfolding H_def by (subst remove_item.simps) simp
    have "chain H None (m_aT m ! i) ((xs @ [a]) @ ys)" using Cons.prems(1) by simp
    then consider us b vs where "ys = us @ b # vs" "key_at H b = key"
        "remove_item m key (loc i (xs @ [a])) = map_option (Pair True) (kill_item m (loc i ((xs @ [a]) @ us)) b)"
      | "\<forall>a \<in> set ys. key_at H a \<noteq> key" "remove_item m key (loc i (xs @ [a])) = Some (False, m)"
      using Cons.IH Cons.prems(2) by (metis list.set_intros(2))
    then show ?thesis
    proof cases
      case 1
      then show ?thesis unfolding step by (intro disjI1 exI [of _ "a # us"] exI [of _ b] exI [of _ vs]) simp
    next
      case 2
      then show ?thesis unfolding step using False by simp
    qed
  qed
qed

end
