(* ===== verification/Duilib_Finite_Map.thy ===== *)
theory Duilib_Finite_Map
  imports Duilib_Map
begin

text \<open>
  The hash table of duilib is a finite map: \<open>map_rep\<close> relates the linked buckets of \<open>Duilib_Map\<close> to a map from texts
  to pointers. The locale \<open>finite_map\<close> states what the operations promise; what follows for any sequence of calls is
  proved in it.
\<close>

section \<open>What a table stands for\<close>

definition map_inv :: "str_map \<Rightarrow> (nat \<Rightarrow> nat list) \<Rightarrow> bool" where
  "map_inv m cs \<longleftrightarrow> 0 < length (m_aT m) \<and> m_nBuckets m = int (length (m_aT m))
     \<and> (\<forall>i < length (m_aT m). bucket (load (items m)) (length (m_aT m)) i (m_aT m ! i) (cs i))
     \<and> m_nCount m = int (\<Sum>i < length (m_aT m). length (cs i))"

definition contents :: "str_map \<Rightarrow> (nat \<Rightarrow> nat list) \<Rightarrow> wstring \<rightharpoonup> u32" where
  "contents m cs key = map_of (entries (load (items m)) (cs (slot (length (m_aT m)) key))) key"

definition map_rep :: "str_map \<Rightarrow> (wstring \<rightharpoonup> u32) \<Rightarrow> bool" where
  "map_rep m M \<longleftrightarrow> (\<exists>cs. map_inv m cs \<and> M = contents m cs)"

lemma map_invD:
  assumes "map_inv m cs"
  shows "m_nBuckets m \<noteq> 0" "slot_of m key = slot (length (m_aT m)) key" "slot (length (m_aT m)) key < length (m_aT m)"
    "head_of m (slot (length (m_aT m)) key) = Some (m_aT m ! slot (length (m_aT m)) key)"
    "bucket (load (items m)) (length (m_aT m)) (slot (length (m_aT m)) key) (m_aT m ! slot (length (m_aT m)) key) (cs (slot (length (m_aT m)) key))"
  using assms by (auto simp: map_inv_def slot_of_def slot_def head_of_def)

lemma bucketD:
  assumes "bucket H n i p as"
  shows "chain H None p as" "distinct (map (key_at H) as)" "a \<in> set as \<Longrightarrow> item_ok H n i a" "a \<in> set as \<Longrightarrow> H a \<noteq> None"
    "a \<in> set as \<Longrightarrow> slot n (key_at H a) = i"
  using assms by (auto simp: bucket_def item_ok_def)

text \<open>A change of one bucket that leaves the items of the others as they are.\<close>

lemma map_inv_change:
  assumes inv: "map_inv m cs" and i: "i < length (m_aT m)"
    and aT: "m_aT m' = (m_aT m)[i := p]" "m_nBuckets m' = m_nBuckets m"
    and as: "bucket (load (items m')) (length (m_aT m)) i p as"
    and frame: "\<And>b. b \<notin> set (cs i) \<Longrightarrow> load (items m) b \<noteq> None \<Longrightarrow> load (items m') b = load (items m) b"
    and count: "m_nCount m' = m_nCount m + int (length as) - int (length (cs i))"
  shows "map_inv m' (cs(i := as))"
    "contents m' (cs(i := as)) = (\<lambda>k. if slot (length (m_aT m)) k = i then map_of (entries (load (items m')) as) k else contents m cs k)"
proof -
  let ?n = "length (m_aT m)" and ?H = "load (items m)" and ?H' = "load (items m')"
  have other: "?H' b = ?H b" if "b \<in> set (cs j)" "j < ?n" "j \<noteq> i" for j b
  proof (rule frame)
    have b: "bucket ?H ?n j (m_aT m ! j) (cs j)" "bucket ?H ?n i (m_aT m ! i) (cs i)" using inv that i by (simp_all add: map_inv_def)
    show "b \<notin> set (cs i)" using bucketD(5) [OF b(1) that(1)] bucketD(5) [OF b(2), of b] that(3) by auto
    show "?H b \<noteq> None" by (rule bucketD(4) [OF b(1) that(1)])
  qed
  have "(\<Sum>j < ?n. length (cs j)) = length (cs i) + (\<Sum>j \<in> {..<?n} - {i}. length (cs j))"
    using i by (simp add: sum.remove [of _ i])
  moreover have "(\<Sum>j < ?n. length ((cs(i := as)) j)) = length as + (\<Sum>j \<in> {..<?n} - {i}. length ((cs(i := as)) j))"
    using i by (simp add: sum.remove [of _ i])
  moreover have "(\<Sum>j \<in> {..<?n} - {i}. length ((cs(i := as)) j)) = (\<Sum>j \<in> {..<?n} - {i}. length (cs j))"
    by (rule sum.cong) auto
  ultimately have sums: "m_nCount m' = int (\<Sum>j < ?n. length ((cs(i := as)) j))"
    using count inv by (simp add: map_inv_def)
  have "bucket ?H' ?n j ((m_aT m)[i := p] ! j) ((cs(i := as)) j)" if "j < ?n" for j
    using as inv that i bucket_cong(1) [of "cs j" ?H' ?H ?n j "m_aT m ! j"] other [OF _ that]
    by (cases "j = i") (auto simp: map_inv_def)
  with sums show "map_inv m' (cs(i := as))" using inv aT by (simp add: map_inv_def)
  show "contents m' (cs(i := as)) = (\<lambda>k. if slot ?n k = i then map_of (entries ?H' as) k else contents m cs k)"
  proof
    fix k
    show "contents m' (cs(i := as)) k = (if slot ?n k = i then map_of (entries ?H' as) k else contents m cs k)"
      using map_invD(3) [OF inv, of k] bucket_cong(2) [of "cs (slot ?n k)" ?H' ?H] other aT(1)
      by (simp add: contents_def)
  qed
qed

lemma contents_slot: "slot (length (m_aT m)) k = i \<Longrightarrow> contents m cs k = map_of (entries (load (items m)) (cs i)) k"
  by (simp add: contents_def)

lemma entries_None: "map_of (entries H as) k = None \<longleftrightarrow> k \<notin> key_at H ` set as"
  by (induction as) (auto simp: entries_def)

section \<open>The operations\<close>

lemma new_map_rep: "map_rep (new_map nSize) Map.empty"
proof -
  have "map_inv (new_map nSize) (\<lambda>_. [])" by (simp add: map_inv_def new_map_def bucket_def)
  moreover have "contents (new_map nSize) (\<lambda>_. []) = Map.empty" by (rule ext) (simp add: contents_def entries_def)
  ultimately show ?thesis unfolding map_rep_def by metis
qed

text \<open>What the loop over a bucket finds, and that an empty table has nothing to find.\<close>

lemma map_inv_find:
  assumes "map_inv m cs"
  shows "find_item (items m) key (m_aT m ! slot (length (m_aT m)) key)
      = Some (List.find (\<lambda>a. key_at (load (items m)) a = key) (cs (slot (length (m_aT m)) key)))"
  by (rule find_item_chain [where q = None])
    (use bucketD(1,3) [OF map_invD(5) [OF assms, of key]] in blast)+

lemma map_inv_empty:
  assumes "map_inv m cs" and "m_nCount m = 0"
  shows "cs (slot (length (m_aT m)) key) = []"
proof -
  have "int (\<Sum>i < length (m_aT m). length (cs i)) = 0" using assms unfolding map_inv_def by metis
  then have "(\<Sum>i < length (m_aT m). length (cs i)) = 0" by (simp only: of_nat_eq_0_iff)
  then show ?thesis using map_invD(3) [OF assms(1), of key] by simp
qed

text \<open>A lookup may move the item it finds to the front of its bucket, and changes nothing else of the order.\<close>

definition reordered :: "str_map \<Rightarrow> (nat \<Rightarrow> nat list) \<Rightarrow> wstring \<Rightarrow> str_map \<Rightarrow> (nat \<Rightarrow> nat list) \<Rightarrow> bool" where
  "reordered m cs key m' cs' \<longleftrightarrow> m' = m \<and> cs' = cs
     \<or> length (m_aT m') = length (m_aT m) \<and> key_at (load (items m')) = key_at (load (items m))
       \<and> (\<exists>us x a ys. cs (slot (length (m_aT m)) key) = us @ x # a # ys \<and> key_at (load (items m)) a = key
            \<and> cs' = cs(slot (length (m_aT m)) key := a # us @ x # ys))"

lemma map_Find_moves:
  assumes inv: "map_inv m cs"
  obtains m' cs' where "map_Find m key optimize = Some ((case contents m cs key of None \<Rightarrow> 0 | Some d \<Rightarrow> d), m')"
    "map_inv m' cs'" "contents m' cs' = contents m cs" "reordered m cs key m' cs'"
proof -
  let ?n = "length (m_aT m)" and ?H = "load (items m)"
  define i where "i = slot ?n key"
  note i = map_invD(1) [OF inv] map_invD(2-5) [OF inv, of key, folded i_def]
  have found: "contents m cs key = map_option (data_at ?H) (List.find (\<lambda>a. key_at ?H a = key) (cs i))"
    unfolding i_def by (simp add: contents_slot [OF refl] find_entry)
  have walk: "find_item (items m) key (m_aT m ! i) = Some (List.find (\<lambda>a. key_at ?H a = key) (cs i))"
    unfolding i_def by (rule map_inv_find [OF inv])
  show thesis
  proof (cases "List.find (\<lambda>a. key_at ?H a = key) (cs i)")
    case None
    then have "map_Find m key optimize = Some (0, m)" using i walk by (simp add: map_Find_def)
    then show thesis using that [OF _ inv refl] found None by (simp add: reordered_def)
  next
    case (Some a)
    have count: "m_nCount m \<noteq> 0" using map_inv_empty [OF inv, of key, folded i_def] Some by auto
    obtain xs ys where as: "cs i = xs @ a # ys" and found_key: "key_at ?H a = key" using split_found [OF Some] by metis
    obtain it where it: "?H a = Some it" using bucketD(4) [OF i(5), of a] as by auto
    have data: "data_at ?H a = Data it" by (simp add: data_at_def it)
    show thesis
    proof (cases "optimize \<and> m_aT m ! i \<noteq> Some a")
      case False
      then have "map_Find m key optimize = Some (Data it, m)" using i walk Some count it by (simp add: map_Find_def) auto
      then show thesis using that [OF _ inv refl] found Some data by (simp add: reordered_def)
    next
      case True
      then obtain us x where xs: "xs = us @ [x]"
        using bucketD(1) [OF i(5)] as by (cases xs rule: rev_cases) auto
      have dist: "distinct (us @ x # a # ys)" using bucket_distinct [OF i(5)] as xs by simp
      obtain m' where m': "move_front m i a = Some m'" "m_aT m' = (m_aT m)[i := Some a]" "m_nBuckets m' = m_nBuckets m"
        "m_nCount m' = m_nCount m" "chain (load (items m')) None (Some a) (a # us @ x # ys)" "same_content ?H (load (items m'))"
        "\<And>b. b \<notin> set (us @ x # a # ys) \<Longrightarrow> load (items m') b = ?H b"
        using move_front_chain [of m i us x a ys] bucketD(1) [OF i(5)] dist i(3) as xs by auto
      note same = same_contentD [OF m'(6)]
      have keys_same: "key_at (load (items m')) = key_at ?H" by (rule ext) (rule same(1))
      have keys: "distinct (map (key_at ?H) (us @ x # a # ys))" using bucketD(2) [OF i(5)] as xs by simp
      have ok: "\<forall>b \<in> set (us @ x # a # ys). item_ok ?H ?n i b" using bucketD(3) [OF i(5)] as xs by simp
      have bucket': "bucket (load (items m')) ?n i (Some a) (a # us @ x # ys)"
        unfolding bucket_def keys_same using m'(5) keys ok by (auto simp: same(3))
      have "map_inv m' (cs(i := a # us @ x # ys))"
        and contents': "contents m' (cs(i := a # us @ x # ys))
          = (\<lambda>k. if slot ?n k = i then map_of (entries (load (items m')) (a # us @ x # ys)) k else contents m cs k)"
        using map_inv_change [OF inv i(3) m'(2,3) bucket'] m'(4,7) as xs by auto
      moreover have "map_of (entries ?H (a # us @ x # ys)) = map_of (entries ?H (us @ x # a # ys))"
        by (subst map_of_inject_set) (use keys in \<open>auto simp: entries_def comp_def\<close>)
      then have "contents m' (cs(i := a # us @ x # ys)) = contents m cs"
        unfolding contents' by (auto simp: fun_eq_iff same(4) contents_slot as xs)
      moreover have "map_Find m key optimize = Some (Data it, m')"
      proof -
        have "map_option (\<lambda>it. (Key it, Data it)) (load (items m') a) = Some (Key it, Data it)"
          using m'(6) it by (simp add: same_content_def)
        then obtain it' where "load (items m') a = Some it'" "Data it' = Data it" by (cases "load (items m') a") auto
        then show ?thesis using i walk Some count m'(1) True by (simp add: map_Find_def)
      qed
      moreover have "reordered m cs key m' (cs(i := a # us @ x # ys))"
        using as found_key m'(2) xs keys_same unfolding reordered_def i_def by auto
      ultimately show thesis using that found Some data by simp
    qed
  qed
qed

lemma map_Find_inv:
  assumes inv: "map_inv m cs"
  obtains m' cs' where "map_Find m key optimize = Some ((case contents m cs key of None \<Rightarrow> 0 | Some d \<Rightarrow> d), m')"
    "map_inv m' cs'" "contents m' cs' = contents m cs"
  using map_Find_moves [OF inv] .

lemma fresh_address: "load h (length h) = None"
  by (simp add: load_def)

text \<open>A key that is not in the table is put in front of its bucket.\<close>

lemma map_Insert_inv:
  assumes inv: "map_inv m cs" and key: "0 \<notin> set key" "roomy mem (length key)" and not_null: "contents m cs key \<noteq> Some 0"
  obtains m' cs' where "map_Insert mem m key d = Some (contents m cs key = None, m')" "map_inv m' cs'"
    "contents m' cs' = (if contents m cs key = None then (contents m cs)(key \<mapsto> d) else contents m cs)"
proof -
  obtain m1 cs1 where find: "map_Find m key True = Some ((case contents m cs key of None \<Rightarrow> 0 | Some d \<Rightarrow> d), m1)"
    and inv1: "map_inv m1 cs1" and same: "contents m1 cs1 = contents m cs" using map_Find_inv [OF inv] .
  show thesis
  proof (cases "contents m cs key")
    case (Some e)
    then have "map_Insert mem m key d = Some (False, m1)" using find map_invD(1) [OF inv] not_null by (simp add: map_Insert_def)
    then show thesis using that [OF _ inv1] Some same by simp
  next
    case None
    let ?n = "length (m_aT m1)" and ?H = "load (items m1)"
    define i where "i = slot ?n key"
    note i = map_invD(1) [OF inv1] map_invD(2-5) [OF inv1, of key, folded i_def]
    define a where "a = length (items m1)"
    have fresh: "?H a = None" unfolding a_def by (rule fresh_address)
    then have new: "a \<notin> set (cs1 i)" using bucketD(4) [OF i(5), of a] by blast
    obtain k where k: "Assign mem (new_string mem) (Some key) (-1) = Some k" "string_rep k (if (-1 :: int) < 0 then key else take (nat (-1)) key)"
      by (rule Assign_rep [OF string_repD(1,2) [OF new_string_rep] key(1) _ key(2), of "-1"]) simp_all
    define it where "it = \<lparr>Key = k, Data = d, pPrev = None, pNext = m_aT m1 ! i\<rparr>"
    have loaded: "load (items m1 @ [Some it]) b \<noteq> None" if "m_aT m1 ! i = Some b" for b
      using bucketD(1,4) [OF i(5)] that chain_head by (fastforce simp: load_append)
    obtain h where h: "modify_if (items m1 @ [Some it]) (m_aT m1 ! i) (pPrev_update (\<lambda>_. Some a)) = Some h"
      "load h = set_prev (load (items m1 @ [Some it])) (m_aT m1 ! i) (Some a)" using modify_if_load [OF loaded] .
    have H': "load h = set_prev (?H(a \<mapsto> it)) (m_aT m1 ! i) (Some a)" unfolding h(2) load_append a_def ..
    let ?m' = "m1\<lparr>items := h, m_aT := (m_aT m1)[i := Some a], m_nCount := m_nCount m1 + 1\<rparr>"
    have run: "map_Insert mem m key d = Some (True, ?m')"
      using find None k(1) map_invD(1) [OF inv] i h(1) by (simp add: map_Insert_def assign_text_def it_def a_def)
    have same_a: "same_content (?H(a \<mapsto> it)) (load h)" unfolding H' by (intro same_content_set_prev) simp
    note content = same_contentD [OF same_a]
    have keys_h: "key_at (load h) = key_at (?H(a \<mapsto> it))" by (rule ext) (rule content(1))
    have old: "key_at (load h) b = key_at ?H b" "data_at (load h) b = data_at ?H b" "item_ok (load h) ?n i b = item_ok ?H ?n i b"
      if "b \<in> set (cs1 i)" for b
    proof -
      have "(?H(a \<mapsto> it)) b = ?H b" using that new by auto
      note eq = key_at_cong [of "?H(a \<mapsto> it)" b ?H, OF this]
      show "key_at (load h) b = key_at ?H b" "data_at (load h) b = data_at ?H b" "item_ok (load h) ?n i b = item_ok ?H ?n i b"
        by (simp_all only: content eq)
    qed
    have a: "key_at (load h) a = key" "data_at (load h) a = d" "item_ok (load h) ?n i a"
    proof -
      have ka: "key_at (?H(a \<mapsto> it)) a = key" "data_at (?H(a \<mapsto> it)) a = d"
        using k(2) by (simp_all add: key_at_def data_at_def it_def spells_def string_rep_def)
      have "item_ok (?H(a \<mapsto> it)) ?n i a" using k(2) by (simp add: item_ok_def ka) (simp add: it_def i_def)
      with ka show "key_at (load h) a = key" "data_at (load h) a = d" "item_ok (load h) ?n i a" by (simp_all only: content)
    qed
    have "find_item (items m1) key (m_aT m1 ! i) = Some (List.find (\<lambda>a. key_at ?H a = key) (cs1 i))"
      unfolding i_def by (rule map_inv_find [OF inv1])
    have "List.find (\<lambda>a. key_at ?H a = key) (cs1 i) = None"
      using None unfolding same [symmetric] contents_slot [OF i_def [symmetric]] find_entry by simp
    then have other: "key_at ?H b \<noteq> key" if "b \<in> set (cs1 i)" for b using that by (auto simp: find_None_iff)
    have chain': "chain (load h) None (Some a) (a # cs1 i)"
      unfolding H' using chain_front [OF bucketD(1) [OF i(5)], of a it] bucket_distinct [OF i(5)] new by (simp add: it_def)
    have map_old: "map (key_at (load h)) (cs1 i) = map (key_at ?H) (cs1 i)" "entries (load h) (cs1 i) = entries ?H (cs1 i)"
      by (simp_all add: old entries_def)
    have bucket': "bucket (load h) ?n i (Some a) (a # cs1 i)"
      unfolding bucket_def
    proof (intro conjI ballI)
      have "key \<notin> key_at ?H ` set (cs1 i)" using other by blast
      then show "distinct (map (key_at (load h)) (a # cs1 i))" using bucketD(2) [OF i(5)] by (simp add: map_old a(1) old)
      show "item_ok (load h) ?n i b" if "b \<in> set (a # cs1 i)" for b
        using that a(3) old(3) bucketD(3) [OF i(5)] by (cases "b = a") simp_all
    qed (rule chain')
    have frame: "load h b = ?H b" if "b \<notin> set (cs1 i)" "?H b \<noteq> None" for b
    proof -
      have "m_aT m1 ! i \<noteq> Some b" using bucketD(1) [OF i(5)] that chain_head by auto
      then show ?thesis using that fresh unfolding H' by (subst set_prev_other) auto
    qed
    have change: "map_inv ?m' (cs1(i := a # cs1 i))"
      "contents ?m' (cs1(i := a # cs1 i)) = (\<lambda>k. if slot ?n k = i then map_of (entries (load (items ?m')) (a # cs1 i)) k else contents m1 cs1 k)"
      by (rule map_inv_change [OF inv1 i(3), of ?m' "Some a" "a # cs1 i"]; use bucket' frame in simp)+
    have "contents ?m' (cs1(i := a # cs1 i)) = (contents m cs)(key \<mapsto> d)"
      unfolding change(2) same [symmetric]
      by (auto simp: fun_eq_iff contents_slot entries_def a i_def [symmetric] map_old(2) [unfolded entries_def])
    then show thesis using that [of ?m' "cs1(i := a # cs1 i)"] run change(1) None by simp
  qed
qed

text \<open>Changing the data of an item keeps the links.\<close>

lemma chain_links:
  "(\<And>a. map_option (\<lambda>it. (pPrev it, pNext it)) (H' a) = map_option (\<lambda>it. (pPrev it, pNext it)) (H a)) \<Longrightarrow>
    chain H q p as \<Longrightarrow> chain H' q p as"
proof (induction as arbitrary: q p)
  case (Cons a as)
  then obtain it where it: "p = Some a" "H a = Some it" "pPrev it = q" "chain H (Some a) (pNext it) as" by auto
  moreover obtain it' where "H' a = Some it'" "pPrev it' = pPrev it" "pNext it' = pNext it"
    using Cons.prems(1) [of a] it(2) by (cases "H' a") auto
  ultimately show ?case using Cons.IH [OF Cons.prems(1) it(4)] by simp
qed simp

lemma map_Set_inv:
  assumes inv: "map_inv m cs" and key: "0 \<notin> set key" "roomy mem (length key)"
  obtains m' cs' where "map_Set mem m key d = Some ((case contents m cs key of None \<Rightarrow> 0 | Some e \<Rightarrow> e), m')" "map_inv m' cs'"
    "contents m' cs' = (contents m cs)(key \<mapsto> d)"
proof -
  let ?n = "length (m_aT m)" and ?H = "load (items m)"
  define i where "i = slot ?n key"
  note i = map_invD(1) [OF inv] map_invD(2-5) [OF inv, of key, folded i_def]
  have found: "contents m cs key = map_option (data_at ?H) (List.find (\<lambda>a. key_at ?H a = key) (cs i))"
    unfolding i_def by (simp add: contents_slot [OF refl] find_entry)
  have walk: "find_item (items m) key (m_aT m ! i) = Some (List.find (\<lambda>a. key_at ?H a = key) (cs i))"
    unfolding i_def by (rule map_inv_find [OF inv])
  have "0 \<le> m_nCount m" using inv unfolding map_inv_def by (metis of_nat_0_le_iff)
  then have count: "m_nCount m > 0 \<or> cs i = []"
    using map_inv_empty [OF inv, of key, folded i_def] by (cases "m_nCount m = 0") auto
  show thesis
  proof (cases "List.find (\<lambda>a. key_at ?H a = key) (cs i)")
    case None
    then have c: "contents m cs key = None" by (simp add: found)
    obtain m' cs' where m': "map_Insert mem m key d = Some (True, m')" "map_inv m' cs'" "contents m' cs' = (contents m cs)(key \<mapsto> d)"
      using map_Insert_inv [OF inv key, of d] c by auto
    have "map_Set mem m key d = Some (0, m')" using i walk None m'(1) by (simp add: map_Set_def)
    then show thesis using that m' c by simp
  next
    case (Some a)
    have nonempty: "m_nCount m > 0" using count Some by auto
    obtain xs ys where as: "cs i = xs @ a # ys" "key_at ?H a = key" using split_found [OF Some] by metis
    obtain it where it: "?H a = Some it" using bucketD(4) [OF i(5), of a] as by auto
    obtain h where h: "modify (items m) a (Data_update (\<lambda>_. d)) = Some h" "load h = ?H(a \<mapsto> it\<lparr>Data := d\<rparr>)"
      using modify_load [OF it] by auto
    let ?m' = "m\<lparr>items := h\<rparr>"
    have run: "map_Set mem m key d = Some (Data it, ?m')"
      using i walk Some nonempty it h(1) by (simp add: map_Set_def)
    have keys: "key_at (load h) = key_at ?H" by (auto simp: fun_eq_iff h(2) key_at_def it)
    have data: "data_at (load h) b = (if b = a then d else data_at ?H b)" for b by (simp add: h(2) data_at_def)
    have bucket': "bucket (load (items ?m')) ?n i (m_aT m ! i) (cs i)"
    proof -
      have "chain (load h) None (m_aT m ! i) (cs i)" by (rule chain_links [OF _ bucketD(1) [OF i(5)]]) (simp add: h(2) it)
      moreover have "item_ok (load h) ?n i b = item_ok ?H ?n i b" for b unfolding item_ok_def keys by (simp add: h(2) it)
      ultimately show ?thesis using i(5) by (simp add: bucket_def keys)
    qed
    have change: "map_inv ?m' (cs(i := cs i))"
      "contents ?m' (cs(i := cs i)) = (\<lambda>k. if slot ?n k = i then map_of (entries (load (items ?m')) (cs i)) k else contents m cs k)"
      by (rule map_inv_change [OF inv i(3), of ?m' "m_aT m ! i" "cs i"]; use bucket' as in \<open>auto simp: h(2)\<close>)+
    have "contents ?m' (cs(i := cs i)) k = ((contents m cs)(key \<mapsto> d)) k" for k
    proof (cases "slot ?n k = i")
      case True
      have "map_of (entries (load h) (cs i)) k = map_option (data_at (load h)) (List.find (\<lambda>a. key_at ?H a = k) (cs i))"
        by (simp add: find_entry keys)
      also have "\<dots> = ((map_of (entries ?H (cs i)))(key \<mapsto> d)) k"
      proof (cases "k = key")
        case False
        then have "List.find (\<lambda>a. key_at ?H a = k) (cs i) \<noteq> Some a" using as(2) by (auto simp: find_Some_iff)
        then show ?thesis using False by (cases "List.find (\<lambda>a. key_at ?H a = k) (cs i)") (simp_all add: find_entry data)
      qed (use Some in \<open>simp add: data\<close>)
      finally show ?thesis unfolding change(2) using True by (simp add: contents_slot)
    qed (unfold change(2), auto simp: i_def)
    then have "contents ?m' (cs(i := cs i)) = (contents m cs)(key \<mapsto> d)" ..
    then show thesis using that [of ?m' "cs(i := cs i)"] run change(1) found Some it by (simp add: data_at_def)
  qed
qed

lemma map_Remove_inv:
  assumes inv: "map_inv m cs"
  obtains m' cs' where "map_Remove m key = Some (contents m cs key \<noteq> None, m')" "map_inv m' cs'"
    "contents m' cs' = (contents m cs)(key := None)"
proof -
  let ?n = "length (m_aT m)" and ?H = "load (items m)"
  define i where "i = slot ?n key"
  note i = map_invD(1) [OF inv] map_invD(2-5) [OF inv, of key, folded i_def]
  have here: "contents m cs key = map_of (entries ?H (cs i)) key" by (rule contents_slot) (simp add: i_def)
  have "(\<exists>us a vs. cs i = us @ a # vs \<and> key_at ?H a = key \<and>
        remove_item m key (loc i []) = map_option (Pair True) (kill_item m (loc i ([] @ us)) a))
    \<or> (\<forall>a \<in> set (cs i). key_at ?H a \<noteq> key) \<and> remove_item m key (loc i []) = Some (False, m)"
    by (rule remove_item_chain) (use bucketD(1,3) [OF i(5)] i(3) in auto)
  then consider us a vs where "cs i = us @ a # vs" "key_at ?H a = key"
      "remove_item m key (Slot i) = map_option (Pair True) (kill_item m (loc i us) a)"
    | "\<forall>a \<in> set (cs i). key_at ?H a \<noteq> key" "remove_item m key (Slot i) = Some (False, m)" by auto
  then show thesis
  proof cases
    case 2
    then have "contents m cs key = None" unfolding here by (auto simp: map_of_eq_None_iff entries_def)
    moreover have "map_Remove m key = Some (False, m)" using 2(2) i(1,2) by (simp add: map_Remove_def)
    ultimately show thesis using that [OF _ inv] by (simp add: fun_upd_idem)
  next
    case (1 us a vs)
    note as = 1(1,2)
    have count: "m_nCount m \<noteq> 0" using map_inv_empty [OF inv, of key, folded i_def] as(1) by auto
    obtain m' p where m': "kill_item m (loc i us) a = Some m'" "m_aT m' = (m_aT m)[i := p]" "m_nBuckets m' = m_nBuckets m"
      "m_nCount m' = m_nCount m - 1" "chain (load (items m')) None p (us @ vs)" "same_content (?H(a := None)) (load (items m'))"
      "\<And>b. b \<notin> set (us @ a # vs) \<Longrightarrow> load (items m') b = ?H b"
      using kill_item_chain [of m i us a vs] bucketD(1) [OF i(5)] bucket_distinct [OF i(5)] i(3) as(1) by auto
    have run: "map_Remove m key = Some (True, m')" using 1(3) m'(1) i(1,2) count by (simp add: map_Remove_def)
    have keys: "distinct (map (key_at ?H) (us @ a # vs))" using bucketD(2) [OF i(5)] as(1) by simp
    have dist: "distinct (us @ a # vs)" using bucket_distinct [OF i(5)] as(1) by simp
    note content = same_contentD [OF m'(6)]
    have old: "key_at (load (items m')) b = key_at ?H b" "data_at (load (items m')) b = data_at ?H b"
        "item_ok (load (items m')) ?n i b = item_ok ?H ?n i b" if "b \<in> set (us @ vs)" for b
    proof -
      have "(?H(a := None)) b = ?H b" using that dist by auto
      note eq = key_at_cong [of "?H(a := None)" b ?H, OF this]
      show "key_at (load (items m')) b = key_at ?H b" "data_at (load (items m')) b = data_at ?H b"
        "item_ok (load (items m')) ?n i b = item_ok ?H ?n i b" by (simp_all only: content eq)
    qed
    have map_old: "map (key_at (load (items m'))) (us @ vs) = map (key_at ?H) (us @ vs)"
      "entries (load (items m')) (us @ vs) = entries ?H (us @ vs)"
      unfolding entries_def by (rule map_cong [OF refl], simp only: old)+
    have bucket': "bucket (load (items m')) ?n i p (us @ vs)"
      unfolding bucket_def map_old(1)
    proof (intro conjI ballI)
      show "distinct (map (key_at ?H) (us @ vs))" using keys by auto
      show "item_ok (load (items m')) ?n i b" if "b \<in> set (us @ vs)" for b
        using old(3) [OF that] bucketD(3) [OF i(5), of b] that as(1) by auto
    qed (rule m'(5))
    have change: "map_inv m' (cs(i := us @ vs))"
      "contents m' (cs(i := us @ vs)) = (\<lambda>k. if slot ?n k = i then map_of (entries (load (items m')) (us @ vs)) k else contents m cs k)"
      by (rule map_inv_change [OF inv i(3) m'(2,3) bucket']; use m'(4,7) as(1) in simp)+
    have "map_of (entries ?H (us @ vs)) k = ((map_of (entries ?H (cs i)))(key := None)) k" for k
    proof (cases "k = key")
      case True
      have "key \<notin> key_at ?H ` set (us @ vs)" using keys as(2) by auto
      then show ?thesis using True by (auto simp: map_of_eq_None_iff entries_def)
    next
      case False
      then show ?thesis using as by (simp add: entries_def map_add_def split: option.split)
    qed
    then have "contents m' (cs(i := us @ vs)) = (contents m cs)(key := None)"
      unfolding change(2) map_old(2) by (auto simp: fun_eq_iff contents_slot i_def [symmetric])
    moreover have "contents m cs key \<noteq> None" unfolding here using as by (auto simp: map_of_eq_None_iff entries_def)
    ultimately show thesis using that [of m' "cs(i := us @ vs)"] run change(1) by simp
  qed
qed

text \<open>The number of items is the number of keys.\<close>

lemma map_GetSize_inv:
  assumes inv: "map_inv m cs"
  shows "map_GetSize m = int (card (dom (contents m cs)))"
proof -
  let ?n = "length (m_aT m)" and ?H = "load (items m)"
  have b: "bucket ?H ?n i (m_aT m ! i) (cs i)" if "i < ?n" for i using inv that by (simp add: map_inv_def)
  have keys: "key_at ?H ` set (cs i) = {k. slot ?n k = i \<and> k \<in> dom (contents m cs)}" if "i < ?n" for i
      proof (rule set_eqI)
    fix k
    have "k \<in> dom (contents m cs) \<longleftrightarrow> k \<in> key_at ?H ` set (cs (slot ?n k))" by (simp add: domIff contents_def entries_None)
    then show "k \<in> key_at ?H ` set (cs i) \<longleftrightarrow> k \<in> {k. slot ?n k = i \<and> k \<in> dom (contents m cs)}"
      using bucketD(5) [OF b [OF that]] by auto
  qed
  have "dom (contents m cs) = (\<Union>i < ?n. key_at ?H ` set (cs i))"
    using keys map_invD(3) [OF inv] by auto
  also have "card \<dots> = (\<Sum>i < ?n. card (key_at ?H ` set (cs i)))"
  proof (rule card_UN_disjoint)
    show "\<forall>i \<in> {..<?n}. \<forall>j \<in> {..<?n}. i \<noteq> j \<longrightarrow> key_at ?H ` set (cs i) \<inter> key_at ?H ` set (cs j) = {}" by (auto simp: keys)
  qed simp_all
  also have "\<dots> = (\<Sum>i < ?n. length (cs i))"
  proof (rule sum.cong [OF refl])
    fix i assume "i \<in> {..<?n}"
    then have "distinct (map (key_at ?H) (cs i))" using bucketD(2) [OF b] by simp
    from distinct_card [OF this] show "card (key_at ?H ` set (cs i)) = length (cs i)" by simp
  qed
  finally show ?thesis using inv by (simp add: map_GetSize_def map_inv_def)
qed

section \<open>Going through a table, and emptying it\<close>

lemma walk_bucket_chain:
  assumes "chain (load h) q p as"
  shows "walk_bucket h i pos p
    = Some (if pos \<le> i \<and> i < pos + int (length as) then (Some (as ! nat (i - pos)), i) else (None, pos + int (length as)))"
  using assms
proof (induction as arbitrary: q p pos)
  case (Cons a as)
  then obtain it where it: "p = Some a" "load h a = Some it" "chain (load h) (Some a) (pNext it) as" by auto
  show ?case
  proof (cases "pos = i")
    case False
    then have "pos < i \<Longrightarrow> nat (i - pos) = Suc (nat (i - (pos + 1)))" by simp
    then show ?thesis using it(1,2) False Cons.IH [OF it(3), of "pos + 1"] by (subst walk_bucket.simps) auto
  qed (use it in \<open>simp add: walk_bucket.simps\<close>)
qed (simp add: walk_bucket.simps)

lemma walk_table_chains:
  assumes "list_all2 (\<lambda>p as. \<exists>q. chain (load h) q p as) T css"
  shows "walk_table h i pos T
    = Some (if pos \<le> i \<and> i < pos + int (length (concat css)) then Some (concat css ! nat (i - pos)) else None)"
  using assms
proof (induction T css arbitrary: pos rule: list_all2_induct)
  case (Cons p T as css)
  then obtain q where q: "chain (load h) q p as" by blast
  have "nat (i - (pos + int (length as))) = nat (i - pos) - length as" if "pos + int (length as) \<le> i" using that by simp
  then show ?case using walk_bucket_chain [OF q, of i pos] Cons.IH [of "pos + int (length as)"]
    by (auto simp: nth_append nat_less_iff not_less)
qed simp

definition table_order :: "str_map \<Rightarrow> (nat \<Rightarrow> nat list) \<Rightarrow> nat list" where
  "table_order m cs = concat (map cs (rev [0..<length (m_aT m)]))"

lemma table_chains:
  assumes "map_inv m cs"
  shows "list_all2 (\<lambda>p as. \<exists>q. chain (load (items m)) q p as) (rev (m_aT m)) (map cs (rev [0..<length (m_aT m)]))"
proof -
  have "\<exists>q. chain (load (items m)) q (m_aT m ! i) (cs i)" if "i < length (m_aT m)" for i
  proof -
    have "bucket (load (items m)) (length (m_aT m)) i (m_aT m ! i) (cs i)" using assms that by (simp add: map_inv_def)
    from bucketD(1) [OF this] show ?thesis by blast
  qed
  then have "list_all2 (\<lambda>p as. \<exists>q. chain (load (items m)) q p as) (m_aT m) (map cs [0..<length (m_aT m)])"
    by (simp add: list_all2_conv_all_nth)
  then show ?thesis unfolding rev_map [symmetric] list_all2_rev .
qed

lemma table_keys:
  assumes inv: "map_inv m cs"
  shows "distinct (map (key_at (load (items m))) (table_order m cs))"
    and "key_at (load (items m)) ` set (table_order m cs) = dom (contents m cs)"
    and "int (length (table_order m cs)) = m_nCount m"
proof -
  let ?n = "length (m_aT m)" and ?H = "load (items m)"
  have b: "bucket ?H ?n i (m_aT m ! i) (cs i)" if "i < ?n" for i using inv that by (simp add: map_inv_def)
  have dist: "distinct (map (key_at ?H) (concat (map cs is)))" if "distinct is" "set is \<subseteq> {..<?n}" for "is"
    using that
  proof (induction "is")
    case (Cons i "is")
    have "key_at ?H ` set (cs i) \<inter> key_at ?H ` (\<Union>j \<in> set is. set (cs j)) = {}"
    proof -
      have "key_at ?H a \<noteq> key_at ?H b'" if "a \<in> set (cs i)" "j \<in> set is" "b' \<in> set (cs j)" for a j b'
      proof -
        have "i < ?n" "j < ?n" "i \<noteq> j" using Cons.prems that(2) by auto
        then show ?thesis using bucketD(5) [OF b that(1)] bucketD(5) [OF b that(3)] by metis
      qed
      then show ?thesis by blast
    qed
    then show ?case using Cons bucketD(2) [OF b, of i] by auto
  qed simp
  show "distinct (map (key_at ?H) (table_order m cs))"
    unfolding table_order_def by (rule dist) auto
  show "key_at ?H ` set (table_order m cs) = dom (contents m cs)"
  proof (rule set_eqI)
    fix k
    have "k \<in> key_at ?H ` set (table_order m cs) \<longleftrightarrow> (\<exists>i < ?n. k \<in> key_at ?H ` set (cs i))"
      by (auto simp: table_order_def image_iff)
    also have "\<dots> \<longleftrightarrow> k \<in> key_at ?H ` set (cs (slot ?n k))"
    proof
      assume "\<exists>i < ?n. k \<in> key_at ?H ` set (cs i)"
      then obtain i a where i: "i < ?n" "a \<in> set (cs i)" "k = key_at ?H a" by blast
      then show "k \<in> key_at ?H ` set (cs (slot ?n k))" using bucketD(5) [OF b [OF i(1)] i(2)] by simp
    qed (use map_invD(3) [OF inv, of k] in blast)
    also have "\<dots> \<longleftrightarrow> k \<in> dom (contents m cs)" by (simp add: domIff contents_def entries_None)
    finally show "k \<in> key_at ?H ` set (table_order m cs) \<longleftrightarrow> k \<in> dom (contents m cs)" .
  qed
  have "length (table_order m cs) = (\<Sum>i < ?n. length (cs i))"
  proof -
    have "length (table_order m cs) = sum_list (map (\<lambda>i. length (cs i)) (rev [0..<?n]))"
      by (simp add: table_order_def length_concat comp_def)
    also have "\<dots> = sum_list (map (\<lambda>i. length (cs i)) [0..<?n])" by (simp only: rev_map [symmetric] sum_list_rev)
    finally show ?thesis by (simp only: sum_list_distinct_conv_sum_set [OF distinct_upt] set_upt atLeast0LessThan)
  qed
  then show "int (length (table_order m cs)) = m_nCount m" using inv by (simp add: map_inv_def)
qed

lemma map_GetAt_inv:
  assumes inv: "map_inv m cs"
  defines "ks \<equiv> map (key_at (load (items m))) (table_order m cs)"
  shows "map_GetAt m i = Some (if 0 \<le> i \<and> nat i < length ks then Some (ks ! nat i) else None)"
proof (cases "m_nCount m = 0")
  case True
  then show ?thesis using table_keys(3) [OF inv] by (simp add: map_GetAt_def ks_def)
next
  case False
  have walk: "walk_table (items m) i 0 (rev (m_aT m))
      = Some (if 0 \<le> i \<and> i < int (length (table_order m cs)) then Some (table_order m cs ! nat i) else None)"
    using walk_table_chains [OF table_chains [OF inv], of i 0] by (simp add: table_order_def)
  show ?thesis
  proof (cases "0 \<le> i \<and> i < int (length (table_order m cs))")
    case True
    define a where "a = table_order m cs ! nat i"
    have "a \<in> set (table_order m cs)" using True unfolding a_def by (intro nth_mem) auto
    then obtain j where j: "j < length (m_aT m)" "a \<in> set (cs j)" by (auto simp: table_order_def)
    have "bucket (load (items m)) (length (m_aT m)) j (m_aT m ! j) (cs j)" using inv j(1) by (simp add: map_inv_def)
    from bucketD(3) [OF this j(2)] obtain it where it: "load (items m) a = Some it" "string_rep (Key it) (key_at (load (items m)) a)"
      by (auto simp: item_ok_def)
    then show ?thesis using True False walk map_invD(1) [OF inv] string_at_rep [OF it(2), of 0]
      by (simp add: map_GetAt_def ks_def a_def nat_less_iff)
  qed (use False walk map_invD(1) [OF inv] in \<open>auto simp: map_GetAt_def ks_def nat_less_iff\<close>)
qed

lemma delete_chain_all:
  assumes "chain (load h) q p as" and "distinct as"
  shows "\<exists>h'. delete_chain h p = Some h' \<and> (\<forall>b. b \<notin> set as \<longrightarrow> load h' b = load h b)"
  using assms
proof (induction as arbitrary: h q p)
  case (Cons a as)
  then obtain it where it: "p = Some a" "load h a = Some it" "chain (load h) (Some a) (pNext it) as" by auto
  have gone: "load (h[a := None]) = (load h)(a := None)" using load_less [OF it(2)] by (rule load_update)
  have "chain (load (h[a := None])) (Some a) (pNext it) as"
    using it(3) Cons.prems(2) by (subst chain_cong [of _ _ "load h"]) (auto simp: gone)
  from Cons.IH [OF this] Cons.prems(2) show ?case
    using it(1,2) by (subst delete_chain.simps) (auto simp: gone)
qed (simp add: delete_chain.simps)

lemma delete_table_all:
  assumes "list_all2 (\<lambda>p as. \<exists>q. chain (load h) q p as) T css" and "distinct (concat css)"
  shows "\<exists>h'. delete_table h T = Some h'"
  using assms
proof (induction css arbitrary: T h rule: list.induct)
  case (Cons as css)
  then obtain p q T' where T: "T = p # T'" "chain (load h) q p as" "list_all2 (\<lambda>p as. \<exists>q. chain (load h) q p as) T' css"
    by (auto simp: list_all2_Cons2)
  then obtain h1 where h1: "delete_chain h p = Some h1" "\<forall>b. b \<notin> set as \<longrightarrow> load h1 b = load h b"
    using delete_chain_all [of h q p as] Cons.prems(2) by auto
  have "\<exists>q. chain (load h1) q p' bs" if "\<exists>q. chain (load h) q p' bs" "bs \<in> set css" for p' bs
  proof -
    have "load h1 b = load h b" if "b \<in> set bs" for b using that \<open>bs \<in> set css\<close> h1(2) Cons.prems(2) by auto
    then show ?thesis using that(1) chain_cong [of bs "load h1" "load h"] by blast
  qed
  then have "list_all2 (\<lambda>p as. \<exists>q. chain (load h1) q p as) T' css"
    using T(3) by (auto simp: list_all2_conv_all_nth)
  then show ?case using Cons.IH [of h1 T'] h1(1) Cons.prems(2) T(1) by simp
qed simp

text \<open>
  The keys in the order of the table. Looking one up at the place \<open>i\<close> permutes the keys up to this place and leaves those
  behind it where they are.
\<close>

definition key_order :: "str_map \<Rightarrow> (nat \<Rightarrow> nat list) \<Rightarrow> wstring list" where
  "key_order m cs = map (key_at (load (items m))) (table_order m cs)"

lemma upt_around: "i < n \<Longrightarrow> rev [0..<n] = rev [Suc i..<n] @ i # rev [0..<i]"
proof -
  assume "i < n"
  then have "[0..<n] = [0..<i] @ i # [Suc i..<n]" using upt_add_eq_append [of 0 i "n - i"] by (simp add: upt_conv_Cons)
  then show ?thesis by simp
qed

lemma table_order_split:
  assumes "i < length (m_aT m)"
  shows "table_order m (cs(i := as)) = concat (map cs (rev [Suc i..<length (m_aT m)])) @ as @ concat (map cs (rev [0..<i]))"
proof -
  have "map (cs(i := as)) (rev [Suc i..<length (m_aT m)]) = map cs (rev [Suc i..<length (m_aT m)])"
    "map (cs(i := as)) (rev [0..<i]) = map cs (rev [0..<i])" by (auto intro!: map_cong)
  then show ?thesis by (simp only: table_order_def upt_around [OF assms] map_append concat_append list.map concat.simps fun_upd_same)
qed

lemma reordered_keys:
  assumes inv: "map_inv m cs" and move: "reordered m cs key m' cs'" and i: "i < length (key_order m cs)" "key_order m cs ! i = key"
  shows "drop (Suc i) (key_order m' cs') = drop (Suc i) (key_order m cs)"
    and "set (take (Suc i) (key_order m' cs')) = set (take (Suc i) (key_order m cs))"
proof -
  have dist: "distinct (key_order m cs)" unfolding key_order_def by (rule table_keys(1) [OF inv])
  have "drop (Suc i) (key_order m' cs') = drop (Suc i) (key_order m cs)
      \<and> set (take (Suc i) (key_order m' cs')) = set (take (Suc i) (key_order m cs))"
  proof (cases "m' = m \<and> cs' = cs")
    case False
    let ?s = "slot (length (m_aT m)) key"
    obtain us x a ys where same: "length (m_aT m') = length (m_aT m)" "key_at (load (items m')) = key_at (load (items m))"
      and as: "cs ?s = us @ x # a # ys" "key_at (load (items m)) a = key" "cs' = cs(?s := a # us @ x # ys)"
      using move False unfolding reordered_def by blast
    define front behind where "front = map (key_at (load (items m))) (concat (map cs (rev [Suc ?s..<length (m_aT m)])))"
      and "behind = map (key_at (load (items m))) (concat (map cs (rev [0..<?s])))"
    let ?k = "key_at (load (items m))"
    have old: "key_order m cs = (front @ map ?k us @ [?k x]) @ key # map ?k ys @ behind"
      using table_order_split [OF map_invD(3) [OF inv], of cs key "cs ?s"] as(2) unfolding fun_upd_triv
      by (simp add: key_order_def front_def behind_def as(1))
    have "table_order m' cs' = table_order m cs'" by (simp add: table_order_def same(1))
    then have new: "key_order m' cs' = (front @ key # map ?k us @ [?k x]) @ map ?k ys @ behind"
      using table_order_split [OF map_invD(3) [OF inv], of cs key "a # us @ x # ys"] as(2,3) same(2)
      by (simp add: key_order_def front_def behind_def)
    have "i = length (front @ map ?k us @ [?k x])"
      using i dist by (intro nth_eq_iff_index_eq [OF dist, THEN iffD1]) (simp_all add: old nth_append)
    then show ?thesis unfolding old new by auto
  qed simp
  then show "drop (Suc i) (key_order m' cs') = drop (Suc i) (key_order m cs)"
    and "set (take (Suc i) (key_order m' cs')) = set (take (Suc i) (key_order m cs))" by blast+
qed

text \<open>Emptying a table ends and leaves an empty one.\<close>

lemma map_Resize_rep:
  assumes "map_rep m M" and "0 < nSize"
  shows "\<exists>m'. map_Resize m nSize = Some m' \<and> map_rep m' Map.empty"
proof -
  obtain cs where inv: "map_inv m cs" using assms(1) by (auto simp: map_rep_def)
  have "distinct (table_order m cs)" using table_keys(1) [OF inv] by (simp add: distinct_map)
  then obtain h where h: "delete_table (items m) (rev (m_aT m)) = Some h"
    using delete_table_all [OF table_chains [OF inv]] by (auto simp: table_order_def)
  define m' where "m' = \<lparr>m_aT = replicate (nat nSize) None, m_nBuckets = nSize, m_nCount = 0, items = h\<rparr>"
  have "map_inv m' (\<lambda>_. [])" using assms(2) by (simp add: map_inv_def m'_def bucket_def)
  moreover have "contents m' (\<lambda>_. []) = Map.empty" by (rule ext) (simp add: contents_def entries_def)
  ultimately have "map_rep m' Map.empty" unfolding map_rep_def by metis
  then show ?thesis using h assms(2) by (simp add: map_Resize_def m'_def)
qed

section \<open>Sequences of calls\<close>

text \<open>Calls of a map, what they answer, and a map that answers them by definition. A null pointer is no value.\<close>

datatype map_call = CallFind wstring | CallInsert wstring u32 | CallSet wstring u32 | CallRemove wstring | CallGetSize

datatype map_answer = Pointer u32 | Truth bool | Number int

definition lookup :: "(wstring \<rightharpoonup> u32) \<Rightarrow> wstring \<Rightarrow> u32" where
  "lookup M k = (case M k of None \<Rightarrow> 0 | Some d \<Rightarrow> d)"

fun spec_call :: "map_call \<Rightarrow> (wstring \<rightharpoonup> u32) \<Rightarrow> map_answer \<times> (wstring \<rightharpoonup> u32)" where
  "spec_call (CallFind k) M = (Pointer (lookup M k), M)"
| "spec_call (CallInsert k d) M = (Truth (M k = None), if M k = None then M(k \<mapsto> d) else M)"
| "spec_call (CallSet k d) M = (Pointer (lookup M k), M(k \<mapsto> d))"
| "spec_call (CallRemove k) M = (Truth (M k \<noteq> None), M(k := None))"
| "spec_call CallGetSize M = (Number (int (card (dom M))), M)"

fun spec_calls :: "map_call list \<Rightarrow> (wstring \<rightharpoonup> u32) \<Rightarrow> map_answer list \<times> (wstring \<rightharpoonup> u32)" where
  "spec_calls [] M = ([], M)"
| "spec_calls (c # cs) M = (let (a, M) = spec_call c M; (as, M) = spec_calls cs M in (a # as, M))"

fun run_calls :: "('c \<Rightarrow> 's \<Rightarrow> ('a \<times> 's) option) \<Rightarrow> 'c list \<Rightarrow> 's \<Rightarrow> ('a list \<times> 's) option" where
  "run_calls step [] s = Some ([], s)"
| "run_calls step (c # cs) s = do { (a, s) \<leftarrow> step c s; (as, s) \<leftarrow> run_calls step cs s; Some (a # as, s) }"

fun call_ok :: "(wstring \<Rightarrow> bool) \<Rightarrow> map_call \<Rightarrow> bool" where
  "call_ok ok (CallInsert k d) \<longleftrightarrow> ok k \<and> d \<noteq> 0"
| "call_ok ok (CallSet k d) \<longleftrightarrow> ok k \<and> d \<noteq> 0"
| "call_ok ok _ \<longleftrightarrow> True"

text \<open>The calls of the table, with memory for the copies of the keys.\<close>

fun table_call :: "memory \<Rightarrow> map_call \<Rightarrow> str_map \<Rightarrow> (map_answer \<times> str_map) option" where
  "table_call mem (CallFind k) m = map_option (apfst Pointer) (map_Find m k True)"
| "table_call mem (CallInsert k d) m = map_option (apfst Truth) (map_Insert mem m k d)"
| "table_call mem (CallSet k d) m = map_option (apfst Pointer) (map_Set mem m k d)"
| "table_call mem (CallRemove k) m = map_option (apfst Truth) (map_Remove m k)"
| "table_call mem CallGetSize m = Some (Number (map_GetSize m), m)"

definition key_fits :: "memory \<Rightarrow> wstring \<Rightarrow> bool" where
  "key_fits mem k \<longleftrightarrow> 0 \<notin> set k \<and> roomy mem (length k)"

lemma spec_call_not_null: "call_ok ok c \<Longrightarrow> 0 \<notin> ran M \<Longrightarrow> 0 \<notin> ran (snd (spec_call c M))"
  by (cases c) (auto simp: ran_def)

text \<open>
  What the clients of a map rely on: every call answers as the finite map the state stands for would, and leaves a state
  that stands for the changed map.
\<close>

locale finite_map =
  fixes rep :: "'m \<Rightarrow> (wstring \<rightharpoonup> u32) \<Rightarrow> bool"
    and call :: "map_call \<Rightarrow> 'm \<Rightarrow> (map_answer \<times> 'm) option"
    and ok :: "wstring \<Rightarrow> bool"
  assumes call_rep: "rep m M \<Longrightarrow> 0 \<notin> ran M \<Longrightarrow> call_ok ok c \<Longrightarrow>
    \<exists>m'. call c m = Some (fst (spec_call c M), m') \<and> rep m' (snd (spec_call c M))"
begin

lemma calls_rep:
  assumes "rep m M" and "0 \<notin> ran M" and "list_all (call_ok ok) cs"
  shows "\<exists>m'. run_calls call cs m = Some (fst (spec_calls cs M), m') \<and> rep m' (snd (spec_calls cs M))"
  using assms
proof (induction cs arbitrary: m M)
  case (Cons c cs)
  then have c: "call_ok ok c" and cs: "list_all (call_ok ok) cs" by simp_all
  obtain m1 where m1: "call c m = Some (fst (spec_call c M), m1)" "rep m1 (snd (spec_call c M))"
    using call_rep [OF Cons.prems(1,2) c] by blast
  have "0 \<notin> ran (snd (spec_call c M))" using c Cons.prems(2) by (rule spec_call_not_null)
  from Cons.IH [OF m1(2) this cs] obtain m2 where "run_calls call cs m1 = Some (fst (spec_calls cs (snd (spec_call c M))), m2)"
    "rep m2 (snd (spec_calls cs (snd (spec_call c M))))" by blast
  with m1(1) show ?case by (simp add: split_beta)
qed simp

text \<open>A key that was set is found until it is set again or removed.\<close>

lemma set_then_find:
  assumes "rep m M" and "0 \<notin> ran M" and "ok k" and "d \<noteq> 0" and "list_all (call_ok ok) cs"
    and "\<forall>c \<in> set cs. c \<noteq> CallRemove k \<and> (\<forall>e. c \<noteq> CallSet k e)"
  shows "\<exists>as m'. run_calls call (CallSet k d # cs @ [CallFind k]) m = Some (as @ [Pointer d], m')"
proof -
  have kept: "snd (spec_calls cs N) k = Some d" if "N k = Some d" "\<forall>c \<in> set cs. c \<noteq> CallRemove k \<and> (\<forall>e. c \<noteq> CallSet k e)" for cs N
    using that
  proof (induction cs arbitrary: N)
    case (Cons c cs)
    have "snd (spec_call c N) k = Some d" using Cons.prems by (cases c) auto
    then show ?case using Cons by (simp add: split_beta)
  qed simp
  have app: "fst (spec_calls (cs @ [CallFind k]) N) = fst (spec_calls cs N) @ [Pointer (lookup (snd (spec_calls cs N)) k)]" for cs N
    by (induction cs arbitrary: N) (simp_all add: split_beta)
  have "list_all (call_ok ok) (CallSet k d # cs @ [CallFind k])" using assms(3-5) by simp
  from calls_rep [OF assms(1,2) this] obtain m' where
    "run_calls call (CallSet k d # cs @ [CallFind k]) m = Some (fst (spec_calls (CallSet k d # cs @ [CallFind k]) M), m')" by blast
  moreover have "fst (spec_calls (CallSet k d # cs @ [CallFind k]) M)
      = Pointer (lookup M k) # fst (spec_calls cs (M(k \<mapsto> d))) @ [Pointer d]"
    using kept [of "M(k \<mapsto> d)" cs] assms(6) by (simp add: split_beta app lookup_def)
  ultimately show ?thesis by (metis append_Cons)
qed

end

interpretation table: finite_map map_rep "table_call mem" "key_fits mem"
proof
  fix m M c
  assume "map_rep m M" and null: "0 \<notin> ran M" and ok: "call_ok (key_fits mem) c"
  then obtain cs where inv: "map_inv m cs" and M: "M = contents m cs" by (auto simp: map_rep_def)
  have rep: "map_rep m' N" if "map_inv m' cs'" "contents m' cs' = N" for m' cs' N using that by (auto simp: map_rep_def)
  show "\<exists>m'. table_call mem c m = Some (fst (spec_call c M), m') \<and> map_rep m' (snd (spec_call c M))"
  proof (cases c)
    case (CallFind k)
    obtain m' cs' where "map_Find m k True = Some (lookup M k, m')" "map_inv m' cs'" "contents m' cs' = M"
      using map_Find_inv [OF inv] unfolding M lookup_def .
    then show ?thesis using CallFind rep by auto
  next
    case (CallInsert k d)
    then have "0 \<notin> set k" "roomy mem (length k)" "M k \<noteq> Some 0" using ok null by (auto simp: key_fits_def ran_def)
    then obtain m' cs' where "map_Insert mem m k d = Some (M k = None, m')" "map_inv m' cs'"
      "contents m' cs' = (if M k = None then M(k \<mapsto> d) else M)"
      using map_Insert_inv [OF inv] unfolding M by metis
    then show ?thesis using CallInsert rep by auto
  next
    case (CallSet k d)
    then have "0 \<notin> set k" "roomy mem (length k)" using ok by (auto simp: key_fits_def)
    then obtain m' cs' where "map_Set mem m k d = Some (lookup M k, m')" "map_inv m' cs'" "contents m' cs' = M(k \<mapsto> d)"
      using map_Set_inv [OF inv] unfolding M lookup_def by metis
    then show ?thesis using CallSet rep by auto
  next
    case (CallRemove k)
    obtain m' cs' where "map_Remove m k = Some (M k \<noteq> None, m')" "map_inv m' cs'" "contents m' cs' = M(k := None)"
      using map_Remove_inv [OF inv] unfolding M .
    then show ?thesis using CallRemove rep by auto
  next
    case CallGetSize
    then show ?thesis using map_GetSize_inv [OF inv] rep [OF inv M [symmetric]] by (simp add: M)
  qed
qed

section \<open>Properties\<close>

text \<open>C15: The hash table of duilib is a finite map. Any sequence of lookups, insertions, assignments, removals and counts
  on a new table, with keys that are texts memory has room for and values that are not null, runs through without following a null
  or freed pointer, gives the answers of a finite map, and leaves buckets that stand for this map.\<close>
theorem table_answers_as_map:
  assumes "list_all (call_ok (key_fits mem)) cs"
  shows "\<exists>m'. run_calls (table_call mem) cs (new_map nSize) = Some (fst (spec_calls cs Map.empty), m')
    \<and> map_rep m' (snd (spec_calls cs Map.empty))"
  by (rule table.calls_rep [OF new_map_rep _ assms]) simp

text \<open>Two keys of the same bucket of a table with 16 buckets: the second becomes the first, and the first is looked up.\<close>

theorem table_answers_as_map_witness:
  "\<exists>m'. run_calls (table_call demo_memory)
      [CallInsert [65] 1, CallSet [81] 2, CallFind [65], CallInsert [65] 3, CallRemove [81], CallFind [81], CallGetSize] (new_map 16)
    = Some ([Truth True, Pointer 0, Pointer 1, Truth False, Truth True, Pointer 0, Number 1], m')
    \<and> map_rep m' [[65] \<mapsto> 1]"
proof -
  have "list_all (call_ok (key_fits demo_memory))
      [CallInsert [65] 1, CallSet [81] 2, CallFind [65], CallInsert [65] 3, CallRemove [81], CallFind [81], CallGetSize]"
    by (simp add: key_fits_def demo_roomy)
  from table_answers_as_map [OF this, of 16] show ?thesis by (simp add: lookup_def fun_upd_twist)
qed

text \<open>Going through a table and emptying it. \<open>GetAt\<close> gives every key of the map once, at the places below its size,
  and the null pointer elsewhere; \<open>RemoveAll\<close> ends and leaves an empty map.\<close>
theorem table_enumerates_keys:
  assumes "map_rep m M"
  shows "(\<exists>ks. distinct ks \<and> set ks = dom M \<and> map_GetSize m = int (length ks)
      \<and> (\<forall>i. map_GetAt m i = Some (if 0 \<le> i \<and> nat i < length ks then Some (ks ! nat i) else None)))
    \<and> (\<exists>m'. map_RemoveAll m = Some m' \<and> map_rep m' Map.empty)"
proof
  obtain cs where inv: "map_inv m cs" and M: "M = contents m cs" using assms by (auto simp: map_rep_def)
  let ?ks = "map (key_at (load (items m))) (table_order m cs)"
  have "distinct ?ks" "set ?ks = dom M" "map_GetSize m = int (length ?ks)"
    using table_keys [OF inv] by (simp_all add: M map_GetSize_def)
  moreover have "\<forall>i. map_GetAt m i = Some (if 0 \<le> i \<and> nat i < length ?ks then Some (?ks ! nat i) else None)"
    using map_GetAt_inv [OF inv] by blast
  ultimately show "\<exists>ks. distinct ks \<and> set ks = dom M \<and> map_GetSize m = int (length ks)
      \<and> (\<forall>i. map_GetAt m i = Some (if 0 \<le> i \<and> nat i < length ks then Some (ks ! nat i) else None))" by blast
  have "0 < m_nBuckets m" using inv by (auto simp: map_inv_def)
  then show "\<exists>m'. map_RemoveAll m = Some m' \<and> map_rep m' Map.empty"
    unfolding map_RemoveAll_def by (rule map_Resize_rep [OF assms])
qed

theorem table_enumerates_keys_witness: "map_GetAt (new_map 16) 0 = Some None \<and> (\<exists>m'. map_RemoveAll (new_map 16) = Some m' \<and> map_rep m' Map.empty)"
  using table_enumerates_keys [OF new_map_rep [of 16]] by auto

end
