(* ===== verification/Duilib_Array.thy ===== *)
theory Duilib_Array
  imports Duilib_String
begin

text \<open>
  \<open>CDuiPtrArray\<close> of duilib (\<open>Utils.h\<close>, \<open>Utils.cpp\<close>): an array of pointers that doubles its block. The result \<open>None\<close> is
  an access outside the block or an overflow of \<open>int\<close>; \<open>False\<close> is the answer of the code when it refuses. What
  \<open>CopyMemory\<close> makes of overlapping ranges, which its documentation leaves undefined, is a parameter.
\<close>

section \<open>The array\<close>

text \<open>The cells of the block are 32-bit pointers; a null \<open>m_ppVoid\<close> is an empty block.\<close>

record ptr_array =
  m_ppVoid :: "u32 list"
  m_nCount :: int
  m_nAllocated :: int

text \<open>\<open>realloc(m_ppVoid, n * sizeof(LPVOID))\<close>, whose product wraps around; new cells hold anything.\<close>

definition realloc_cells :: "memory \<Rightarrow> u32 list \<Rightarrow> int \<Rightarrow> u32 list option" where
  "realloc_cells mem old n =
     (let size = nat (n * 4 mod 2 ^ 32); cells = size div 4
      in if grants mem size then Some (take cells old @ map (\<lambda>i. ucast (junk mem i)) [length old..<cells]) else None)"

definition store_cell :: "u32 list \<Rightarrow> int \<Rightarrow> u32 \<Rightarrow> u32 list option" where
  "store_cell cells i p = (if 0 \<le> i \<and> nat i < length cells then Some (cells[nat i := p]) else None)"

text \<open>\<open>memmove\<close> of \<open>n\<close> cells.\<close>

definition move_cells :: "u32 list \<Rightarrow> nat \<Rightarrow> nat \<Rightarrow> nat \<Rightarrow> u32 list option" where
  "move_cells cells dst src n =
     (if src + n \<le> length cells \<and> dst + n \<le> length cells
      then Some (take dst cells @ take n (drop src cells) @ drop (dst + n) cells) else None)"

text \<open>
  \<open>CopyMemory\<close> copies ranges that do not overlap. Where they overlap, the \<open>k\<close>-th of the \<open>n\<close> cells gets what the parameter
  \<open>cpy cells dst src n k\<close> says.
\<close>

type_synonym copier = "u32 list \<Rightarrow> nat \<Rightarrow> nat \<Rightarrow> nat \<Rightarrow> nat \<Rightarrow> u32"

definition copy_cells :: "copier \<Rightarrow> u32 list \<Rightarrow> nat \<Rightarrow> nat \<Rightarrow> nat \<Rightarrow> u32 list option" where
  "copy_cells cpy cells dst src n =
     (if src + n \<le> length cells \<and> dst + n \<le> length cells
      then Some (take dst cells
                 @ (if dst + n \<le> src \<or> src + n \<le> dst then take n (drop src cells) else map (cpy cells dst src n) [0..<n])
                 @ drop (dst + n) cells)
      else None)"

definition new_array :: "memory \<Rightarrow> int \<Rightarrow> ptr_array" where
  "new_array mem iPreallocSize =
     \<lparr>m_ppVoid = (if 0 < iPreallocSize then (case realloc_cells mem [] iPreallocSize of None \<Rightarrow> [] | Some c \<Rightarrow> c) else []),
      m_nCount = 0, m_nAllocated = iPreallocSize\<rparr>"

definition array_Empty :: "ptr_array \<Rightarrow> ptr_array" where
  "array_Empty a = a\<lparr>m_ppVoid := [], m_nCount := 0, m_nAllocated := 0\<rparr>"

definition array_Resize :: "memory \<Rightarrow> ptr_array \<Rightarrow> int \<Rightarrow> ptr_array option" where
  "array_Resize mem a iSize = do {
     cells \<leftarrow> realloc_cells mem [] iSize;
     Some \<lparr>m_ppVoid = map (\<lambda>_. 0) cells, m_nCount = iSize, m_nAllocated = iSize\<rparr> }"

definition array_IsEmpty :: "ptr_array \<Rightarrow> bool" where
  "array_IsEmpty a \<longleftrightarrow> m_nCount a = 0"

text \<open>
  The growth both \<open>Add\<close> and \<open>InsertAt\<close> do for one more element: \<open>Some None\<close> when \<open>realloc\<close> refuses and the count goes
  back.
\<close>

definition grow :: "memory \<Rightarrow> ptr_array \<Rightarrow> ptr_array option option" where
  "grow mem a = do {
     n \<leftarrow> add_int (m_nCount a) 1;
     let b = a\<lparr>m_nCount := n\<rparr>;
     if n \<ge> m_nAllocated a
     then do {
       nAllocated \<leftarrow> add_int (m_nAllocated a) (m_nAllocated a);
       let nAllocated = (if nAllocated = 0 then 11 else nAllocated);
       Some (case realloc_cells mem (m_ppVoid a) nAllocated of
               None \<Rightarrow> None
             | Some cells \<Rightarrow> Some (b\<lparr>m_ppVoid := cells, m_nAllocated := nAllocated\<rparr>)) }
     else Some (Some b) }"

definition array_Add :: "memory \<Rightarrow> ptr_array \<Rightarrow> u32 \<Rightarrow> (bool \<times> ptr_array) option" where
  "array_Add mem a pData = do {
     g \<leftarrow> grow mem a;
     case g of
       None \<Rightarrow> Some (False, a)
     | Some b \<Rightarrow> do {
         cells \<leftarrow> store_cell (m_ppVoid b) (m_nCount b - 1) pData;
         Some (True, b\<lparr>m_ppVoid := cells\<rparr>) } }"

definition array_InsertAt :: "memory \<Rightarrow> ptr_array \<Rightarrow> int \<Rightarrow> u32 \<Rightarrow> (bool \<times> ptr_array) option" where
  "array_InsertAt mem a iIndex pData =
     (if iIndex = m_nCount a then array_Add mem a pData
      else if iIndex < 0 \<or> iIndex > m_nCount a then Some (False, a)
      else do {
        g \<leftarrow> grow mem a;
        case g of
          None \<Rightarrow> Some (False, a)
        | Some b \<Rightarrow> do {
            cells \<leftarrow> move_cells (m_ppVoid b) (nat iIndex + 1) (nat iIndex) (nat (m_nCount b - iIndex - 1));
            cells \<leftarrow> store_cell cells iIndex pData;
            Some (True, b\<lparr>m_ppVoid := cells\<rparr>) } })"

definition array_SetAt :: "ptr_array \<Rightarrow> int \<Rightarrow> u32 \<Rightarrow> (bool \<times> ptr_array) option" where
  "array_SetAt a iIndex pData =
     (if iIndex < 0 \<or> iIndex \<ge> m_nCount a then Some (False, a)
      else do { cells \<leftarrow> store_cell (m_ppVoid a) iIndex pData; Some (True, a\<lparr>m_ppVoid := cells\<rparr>) })"

definition array_Remove :: "copier \<Rightarrow> ptr_array \<Rightarrow> int \<Rightarrow> int \<Rightarrow> (bool \<times> ptr_array) option" where
  "array_Remove cpy a iIndex iCount =
     (if iIndex < 0 \<or> iCount \<le> 0 then Some (False, a)
      else do {
        iEnd \<leftarrow> add_int iIndex iCount;
        if iEnd > m_nCount a then Some (False, a)
        else do {
          cells \<leftarrow> (if iEnd < m_nCount a
                    then copy_cells cpy (m_ppVoid a) (nat iIndex) (nat iEnd) (nat (m_nCount a - iIndex - iCount))
                    else Some (m_ppVoid a));
          Some (True, a\<lparr>m_ppVoid := cells, m_nCount := m_nCount a - iCount\<rparr>) } })"

fun find_cell :: "u32 list \<Rightarrow> u32 \<Rightarrow> int \<Rightarrow> nat \<Rightarrow> int option" where
  "find_cell cells pData i 0 = Some (-1)"
| "find_cell cells pData i (Suc n) =
     (if nat i < length cells
      then if cells ! nat i = pData then Some i else find_cell cells pData (i + 1) n
      else None)"

definition array_Find :: "ptr_array \<Rightarrow> u32 \<Rightarrow> int option" where
  "array_Find a pData = find_cell (m_ppVoid a) pData 0 (nat (m_nCount a))"

definition array_GetSize :: "ptr_array \<Rightarrow> int" where
  "array_GetSize a = m_nCount a"

definition array_GetAt :: "ptr_array \<Rightarrow> int \<Rightarrow> u32 option" where
  "array_GetAt a iIndex =
     (if iIndex < 0 \<or> iIndex \<ge> m_nCount a then Some 0
      else if nat iIndex < length (m_ppVoid a) then Some (m_ppVoid a ! nat iIndex) else None)"

text \<open>The copy constructor, which does not look at the answers of \<open>Add\<close>.\<close>

fun add_all :: "memory \<Rightarrow> ptr_array \<Rightarrow> ptr_array \<Rightarrow> int \<Rightarrow> nat \<Rightarrow> ptr_array option" where
  "add_all mem src a i 0 = Some a"
| "add_all mem src a i (Suc n) = do {
     p \<leftarrow> array_GetAt src i;
     (_, a) \<leftarrow> array_Add mem a p;
     add_all mem src a (i + 1) n }"

definition copy_array :: "memory \<Rightarrow> ptr_array \<Rightarrow> ptr_array option" where
  "copy_array mem src =
     add_all mem src \<lparr>m_ppVoid = [], m_nCount = 0, m_nAllocated = 0\<rparr> 0 (nat (array_GetSize src))"

section \<open>What an array stands for\<close>

definition array_rep :: "ptr_array \<Rightarrow> u32 list \<Rightarrow> bool" where
  "array_rep a xs \<longleftrightarrow> m_nCount a = int (length xs) \<and> m_nAllocated a = int (length (m_ppVoid a))
     \<and> length xs \<le> length (m_ppVoid a) \<and> take (length xs) (m_ppVoid a) = xs"

lemma array_repD:
  assumes "array_rep a xs"
  shows "m_nCount a = int (length xs)" "m_nAllocated a = int (length (m_ppVoid a))" "\<exists>r. m_ppVoid a = xs @ r"
  using assms unfolding array_rep_def by (metis append_take_drop_id)+

lemma array_repI: "m_ppVoid a = xs @ r \<Longrightarrow> m_nCount a = int (length xs) \<Longrightarrow> m_nAllocated a = int (length (m_ppVoid a)) \<Longrightarrow> array_rep a xs"
  by (simp add: array_rep_def)

lemma new_array_rep: "\<forall>n. grants mem n \<Longrightarrow> 0 \<le> n \<Longrightarrow> n < 2 ^ 30 \<Longrightarrow> array_rep (new_array mem n) []"
  by (auto simp: array_rep_def new_array_def realloc_cells_def Let_def nat_mult_distrib nat_mod_distrib)

lemma Empty_array_rep: "array_rep (array_Empty a) []"
  by (simp add: array_rep_def array_Empty_def)

text \<open>
  The capacity the array wants for one more element. It grows when the new element would fill the block; memory is
  asked for only then.
\<close>

definition wanted_size :: "ptr_array \<Rightarrow> int" where
  "wanted_size a =
     (if m_nCount a + 1 < m_nAllocated a then m_nAllocated a else if m_nAllocated a = 0 then 11 else 2 * m_nAllocated a)"

definition growth_granted :: "memory \<Rightarrow> ptr_array \<Rightarrow> bool" where
  "growth_granted mem a \<longleftrightarrow> m_nCount a + 1 < m_nAllocated a \<or> grants mem (nat (4 * wanted_size a))"

lemma growth_granted_always: "\<forall>n. grants mem n \<Longrightarrow> growth_granted mem a"
  by (simp add: growth_granted_def)

text \<open>After growing there is room for one more, or memory was refused.\<close>

lemma grow_rep:
  assumes "array_rep a xs" and "m_nAllocated a < 2 ^ 28"
  obtains b r where "grow mem a = Some (Some b)" "m_ppVoid b = xs @ r" "r \<noteq> []" "m_nCount b = int (length xs) + 1"
    "m_nAllocated b = int (length (m_ppVoid b))" "m_nAllocated b = wanted_size a" "growth_granted mem a"
  | "grow mem a = Some None" "\<not> growth_granted mem a"
proof -
  obtain r where a: "m_ppVoid a = xs @ r" "m_nCount a = int (length xs)" "m_nAllocated a = int (length (m_ppVoid a))"
    using array_repD [OF assms(1)] by blast
  have n: "add_int (m_nCount a) 1 = Some (int (length xs) + 1)" using a assms(2) by (simp add: add_int_def)
  show thesis
  proof (cases "int (length xs) + 1 \<ge> m_nAllocated a")
    case False
    then have "r \<noteq> []" using a by auto
    then show thesis using that(1) [of "a\<lparr>m_nCount := int (length xs) + 1\<rparr>" r] False n a
      by (simp add: grow_def wanted_size_def growth_granted_def)
  next
    case True
    define new where "new = (if m_nAllocated a = 0 then 11 else 2 * m_nAllocated a)"
    have new: "0 < new" "new < 2 ^ 30" "int (length xs) < new" "int (length (m_ppVoid a)) \<le> new"
      using assms(2) a True by (auto simp: new_def)
    have add: "add_int (m_nAllocated a) (m_nAllocated a) = Some (2 * m_nAllocated a)" using assms(2) a(3) by (simp add: add_int_def)
    have grow: "grow mem a = Some (case realloc_cells mem (m_ppVoid a) new of None \<Rightarrow> None
        | Some cells \<Rightarrow> Some (a\<lparr>m_nCount := int (length xs) + 1, m_ppVoid := cells, m_nAllocated := new\<rparr>))"
      using True n add by (simp add: grow_def new_def Let_def split: option.split)
    have bytes: "nat (new * 4 mod 4294967296) = nat (4 * new)" using new(1,2) by (simp add: mult.commute)
    have size: "wanted_size a = new" "growth_granted mem a \<longleftrightarrow> grants mem (nat (4 * new))"
      using True a(2) by (simp_all add: wanted_size_def growth_granted_def new_def)
    show thesis
    proof (cases "grants mem (nat (4 * new))")
      case False
      then show thesis using that(2) grow size by (simp add: realloc_cells_def Let_def bytes)
    next
      case ok: True
      define s where "s = r @ map (\<lambda>i. ucast (junk mem i)) [length (m_ppVoid a)..<nat new]"
      have cells: "realloc_cells mem (m_ppVoid a) new = Some (xs @ s)"
        using ok new(1,4) by (simp add: realloc_cells_def Let_def bytes s_def a(1) nat_mult_distrib)
      have len: "new = int (length (xs @ s))" using new(1,4) a(1) by (simp add: s_def)
      let ?b = "a\<lparr>m_nCount := int (length xs) + 1, m_ppVoid := xs @ s, m_nAllocated := new\<rparr>"
      show thesis
      proof (rule that(1) [of ?b s])
        show "grow mem a = Some (Some ?b)" using grow cells by simp
        show "s \<noteq> []" using len new(3) by auto
        show "m_nAllocated ?b = int (length (m_ppVoid ?b))" using len by simp
      qed (simp_all add: size ok)
    qed
  qed
qed

lemma array_Add_rep:
  assumes "array_rep a xs" and "m_nAllocated a < 2 ^ 28"
  obtains a' where "array_Add mem a p = Some (growth_granted mem a, a')" "array_rep a' (if growth_granted mem a then xs @ [p] else xs)"
    "m_nAllocated a' = (if growth_granted mem a then wanted_size a else m_nAllocated a)"
proof (rule grow_rep [OF assms, of mem])
  fix b r
  assume b: "grow mem a = Some (Some b)" "m_ppVoid b = xs @ r" "r \<noteq> []" "m_nCount b = int (length xs) + 1"
    "m_nAllocated b = int (length (m_ppVoid b))" "m_nAllocated b = wanted_size a" "growth_granted mem a"
  have "store_cell (m_ppVoid b) (m_nCount b - 1) p = Some ((xs @ [p]) @ tl r)"
    using b(2-4) by (cases r) (simp_all add: store_cell_def)
  moreover have "array_rep (b\<lparr>m_ppVoid := (xs @ [p]) @ tl r\<rparr>) (xs @ [p])"
    using b(2-5) by (cases r) (auto intro: array_repI)
  ultimately show thesis using b(1,6,7) that [of "b\<lparr>m_ppVoid := (xs @ [p]) @ tl r\<rparr>"] by (simp add: array_Add_def)
qed (use that [of a] assms(1) in \<open>auto simp: array_Add_def\<close>)

lemma array_InsertAt_rep:
  assumes "array_rep a xs" and "m_nAllocated a < 2 ^ 28" and "0 \<le> i" "nat i \<le> length xs"
  obtains a' where "array_InsertAt mem a i p = Some (growth_granted mem a, a')"
    "array_rep a' (if growth_granted mem a then take (nat i) xs @ p # drop (nat i) xs else xs)"
proof (cases "i = m_nCount a")
  case True
  then have "nat i = length xs" using array_repD(1) [OF assms(1)] by simp
  then have behind: "take (nat i) xs @ p # drop (nat i) xs = xs @ [p]" by simp
  obtain a' where "array_Add mem a p = Some (growth_granted mem a, a')" "array_rep a' (if growth_granted mem a then xs @ [p] else xs)"
    using array_Add_rep [OF assms(1,2)] .
  note add = this
  show thesis
  proof (rule that [of a'])
    show "array_InsertAt mem a i p = Some (growth_granted mem a, a')" using add(1) True by (simp add: array_InsertAt_def)
    show "array_rep a' (if growth_granted mem a then take (nat i) xs @ p # drop (nat i) xs else xs)" unfolding behind by (rule add(2))
  qed
next
  case False
  then have i: "nat i < length xs" "i < m_nCount a" using assms(3,4) array_repD(1) [OF assms(1)] by auto
  show thesis
  proof (rule grow_rep [OF assms(1,2), of mem])
    fix b r
    assume b: "grow mem a = Some (Some b)" "m_ppVoid b = xs @ r" "r \<noteq> []" "m_nCount b = int (length xs) + 1"
      "m_nAllocated b = int (length (m_ppVoid b))" "growth_granted mem a"
    let ?ys = "take (nat i) xs @ p # drop (nat i) xs"
    have n: "nat (m_nCount b - i - 1) = length xs - nat i" using b(4) i assms(3) by simp
    have "move_cells (m_ppVoid b) (nat i + 1) (nat i) (nat (m_nCount b - i - 1))
        = Some (take (Suc (nat i)) xs @ drop (nat i) xs @ tl r)"
      using b(2,3) i by (cases r) (simp_all add: move_cells_def n)
    moreover have "store_cell (take (Suc (nat i)) xs @ drop (nat i) xs @ tl r) i p = Some (?ys @ tl r)"
      using assms(3) i by (simp add: store_cell_def list_update_append take_Suc_conv_app_nth)
    ultimately have "array_InsertAt mem a i p = Some (True, b\<lparr>m_ppVoid := ?ys @ tl r\<rparr>)"
      using b(1) False i(2) assms(3) by (simp add: array_InsertAt_def)
    moreover have "array_rep (b\<lparr>m_ppVoid := ?ys @ tl r\<rparr>) ?ys"
      using b(2-5) i by (cases r) (auto intro: array_repI)
    ultimately show thesis using that b(6) by simp
  qed (use that [of a] False i(2) assms(1,3) in \<open>auto simp: array_InsertAt_def\<close>)
qed

lemma array_SetAt_rep:
  assumes "array_rep a xs" and "0 \<le> i" "nat i < length xs"
  obtains a' where "array_SetAt a i p = Some (True, a')" "array_rep a' (xs[nat i := p])"
proof -
  obtain r where a: "m_ppVoid a = xs @ r" "m_nCount a = int (length xs)" "m_nAllocated a = int (length (m_ppVoid a))"
    using array_repD [OF assms(1)] by blast
  have "array_SetAt a i p = Some (True, a\<lparr>m_ppVoid := xs[nat i := p] @ r\<rparr>)"
    using a assms(2,3) by (simp add: array_SetAt_def store_cell_def list_update_append)
  moreover have "array_rep (a\<lparr>m_ppVoid := xs[nat i := p] @ r\<rparr>) (xs[nat i := p])"
    using a by (intro array_repI [where r = r]) simp_all
  ultimately show thesis by (rule that)
qed

text \<open>
  A copy from the lower to the higher addresses, one cell after the other. When \<open>CopyMemory\<close> copies overlapping ranges
  this way (\<open>copies_up\<close>), it moves the elements behind a gap down like \<open>memmove\<close>.
\<close>

fun copy_up :: "u32 list \<Rightarrow> nat \<Rightarrow> nat \<Rightarrow> nat \<Rightarrow> u32 list" where
  "copy_up cells dst src 0 = cells"
| "copy_up cells dst src (Suc n) = copy_up (cells[dst := cells ! src]) (Suc dst) (Suc src) n"

definition copies_up :: "copier \<Rightarrow> bool" where
  "copies_up cpy \<longleftrightarrow> (\<forall>cells dst src n k. dst \<le> src \<longrightarrow> src + n \<le> length cells \<longrightarrow> k < n
     \<longrightarrow> cpy cells dst src n k = copy_up cells dst src n ! (dst + k))"

lemma copy_up_forward:
  assumes "dst \<le> src" and "src + n \<le> length cells"
  shows "copy_up cells dst src n = take dst cells @ take n (drop src cells) @ drop (dst + n) cells"
  using assms
proof (induction n arbitrary: cells dst src)
  case (Suc n)
  let ?c = "cells[dst := cells ! src]"
  have copy: "copy_up cells dst src (Suc n) = take (Suc dst) ?c @ take n (drop (Suc src) ?c) @ drop (Suc dst + n) ?c"
    using Suc.prems by (simp add: Suc.IH)
  have "take (Suc dst) ?c = take dst cells @ [cells ! src]" using Suc.prems by (simp add: take_Suc_conv_app_nth)
  moreover have "drop (Suc src) ?c = drop (Suc src) cells" "drop (Suc dst + n) ?c = drop (Suc dst + n) cells" using Suc.prems by simp_all
  moreover have "take (Suc n) (drop src cells) = cells ! src # take n (drop (Suc src) cells)"
    using Suc.prems by (simp add: Cons_nth_drop_Suc [symmetric])
  ultimately show ?case unfolding copy by simp
qed simp

lemma copy_cells_forward:
  assumes "dst \<le> src" and "src + n \<le> length cells"
  obtains ys where "copy_cells cpy cells dst src n = Some (take dst cells @ ys @ drop (dst + n) cells)" "length ys = n"
    "dst + n \<le> src \<or> copies_up cpy \<longrightarrow> ys = take n (drop src cells)"
proof -
  let ?ys = "if dst + n \<le> src \<or> src + n \<le> dst then take n (drop src cells) else map (cpy cells dst src n) [0..<n]"
  have "map (cpy cells dst src n) [0..<n] = take n (drop src cells)" if "copies_up cpy"
  proof (rule nth_equalityI)
    show "map (cpy cells dst src n) [0..<n] ! k = take n (drop src cells) ! k" if "k < length (map (cpy cells dst src n) [0..<n])" for k
      using \<open>copies_up cpy\<close> assms that by (simp add: copies_up_def copy_up_forward nth_append)
  qed (use assms in simp)
  then show thesis using assms by (intro that [of ?ys]) (simp_all add: copy_cells_def)
qed

lemma array_Remove_rep:
  assumes "array_rep a xs" and "0 \<le> i" "0 < n" "nat i + nat n \<le> length xs" and "length xs < 2 ^ 31"
  obtains a' ys where "array_Remove cpy a i n = Some (True, a')" "array_rep a' (take (nat i) xs @ ys)"
    "length ys = length xs - (nat i + nat n)"
    "length xs - (nat i + nat n) \<le> nat n \<or> copies_up cpy \<longrightarrow> ys = drop (nat i + nat n) xs"
proof -
  obtain r where a: "m_ppVoid a = xs @ r" "m_nCount a = int (length xs)" "m_nAllocated a = int (length (m_ppVoid a))"
    using array_repD [OF assms(1)] by blast
  let ?m = "length xs - (nat i + nat n)"
  let ?copied = "if i + n < m_nCount a then copy_cells cpy (m_ppVoid a) (nat i) (nat (i + n)) (nat (m_nCount a - i - n)) else Some (m_ppVoid a)"
  have count: "nat (i + n) = nat i + nat n" using assms(2,3) by simp
  have add: "add_int i n = Some (i + n)" "\<not> i + n > m_nCount a" using assms a(2) by (auto simp: add_int_def)
  have "\<exists>ys s. ?copied = Some (take (nat i) xs @ ys @ s) \<and> length (take (nat i) xs @ ys @ s) = length (m_ppVoid a)
      \<and> length ys = ?m \<and> (?m \<le> nat n \<or> copies_up cpy \<longrightarrow> ys = drop (nat i + nat n) xs)"
  proof (cases "i + n < m_nCount a")
    case True
    then have m: "nat (m_nCount a - i - n) = ?m" using a(2) assms(2,3) by simp
    have "nat i \<le> nat i + nat n" "nat i + nat n + ?m \<le> length (m_ppVoid a)" using assms(4) a(1) by simp_all
    then obtain ys where ys: "copy_cells cpy (m_ppVoid a) (nat i) (nat i + nat n) ?m
        = Some (take (nat i) (m_ppVoid a) @ ys @ drop (nat i + ?m) (m_ppVoid a))" "length ys = ?m"
        "nat i + ?m \<le> nat i + nat n \<or> copies_up cpy \<longrightarrow> ys = take ?m (drop (nat i + nat n) (m_ppVoid a))"
      by (rule copy_cells_forward)
    have front: "take (nat i) (m_ppVoid a) = take (nat i) xs"
      and behind: "take ?m (drop (nat i + nat n) (m_ppVoid a)) = drop (nat i + nat n) xs"
      using assms(4) by (simp_all add: a(1))
    have "?copied = Some (take (nat i) xs @ ys @ drop (nat i + ?m) (m_ppVoid a))"
      unfolding count m if_P [OF True] by (simp only: ys(1) front)
    moreover have "length (take (nat i) xs @ ys @ drop (nat i + ?m) (m_ppVoid a)) = length (m_ppVoid a)"
      using assms(4) a(1) ys(2) by simp
    moreover have "?m \<le> nat n \<or> copies_up cpy \<longrightarrow> ys = drop (nat i + nat n) xs" using ys(3) unfolding behind by simp
    ultimately show ?thesis using ys(2) by blast
  next
    case False
    then show ?thesis using assms(2-4) a(1,2)
      by (intro exI [of _ "[]"] exI [of _ "drop (nat i) xs @ r"]) auto
  qed
  then obtain ys s where s: "?copied = Some (take (nat i) xs @ ys @ s)" "length (take (nat i) xs @ ys @ s) = length (m_ppVoid a)"
    "length ys = ?m" "?m \<le> nat n \<or> copies_up cpy \<longrightarrow> ys = drop (nat i + nat n) xs" by blast
  have "array_Remove cpy a i n = Some (True, a\<lparr>m_ppVoid := take (nat i) xs @ ys @ s, m_nCount := m_nCount a - n\<rparr>)"
    using add assms(2,3) s(1) by (simp add: array_Remove_def)
  moreover have "array_rep (a\<lparr>m_ppVoid := take (nat i) xs @ ys @ s, m_nCount := m_nCount a - n\<rparr>) (take (nat i) xs @ ys)"
    using a(2,3) s(2,3) assms(2-4) by (intro array_repI [where r = s]) auto
  ultimately show thesis using s(3,4) by (rule that)
qed

lemma array_GetAt_rep:
  assumes "array_rep a xs"
  shows "array_GetAt a i = Some (if 0 \<le> i \<and> nat i < length xs then xs ! nat i else 0)"
proof -
  obtain r where "m_ppVoid a = xs @ r" "m_nCount a = int (length xs)" using array_repD [OF assms] by blast
  then show ?thesis by (auto simp: array_GetAt_def nth_append)
qed

fun index_of :: "u32 \<Rightarrow> u32 list \<Rightarrow> nat option" where
  "index_of p [] = None"
| "index_of p (x # xs) = (if x = p then Some 0 else map_option Suc (index_of p xs))"

lemma index_of_None: "index_of p xs = None \<longleftrightarrow> p \<notin> set xs"
  by (induction xs) auto

lemma index_of_Some: "index_of p xs = Some i \<Longrightarrow> i < length xs \<and> xs ! i = p \<and> p \<notin> set (take i xs)"
  by (induction xs arbitrary: i) (auto split: if_splits)

lemma find_cell_index:
  "find_cell (front @ xs @ r) p (int (length front)) (length xs) = Some (position (int (length front)) (index_of p xs))"
proof (induction xs arbitrary: front)
  case (Cons x xs)
  show ?case using Cons.IH [of "front @ [x]"] by (auto simp: position_def nth_append add.commute split: option.split)
qed (simp add: position_def)

lemma array_Find_rep:
  assumes "array_rep a xs"
  shows "array_Find a p = Some (position 0 (index_of p xs))"
proof -
  obtain r where "m_ppVoid a = xs @ r" "m_nCount a = int (length xs)" using array_repD [OF assms] by blast
  then show ?thesis using find_cell_index [of "[]" xs r p] by (simp add: array_Find_def)
qed

section \<open>Properties\<close>

text \<open>What \<open>Remove\<close> may be asked for: a number of elements below the limit of \<open>int\<close>.\<close>

lemma array_Remove_refused:
  assumes "array_rep a xs" and "i < 0 \<or> n \<le> 0 \<or> int (length xs) < i + n" and "i + n < 2 ^ 31"
  shows "array_Remove cpy a i n = Some (False, a)"
  using assms array_repD(1) [OF assms(1)] by (auto simp: array_Remove_def add_int_def)


text \<open>A copier that copies upwards.\<close>

definition upward :: copier where
  "upward cells dst src n k = copy_up cells dst src n ! (dst + k)"

lemma upward_copies_up: "copies_up upward"
  by (simp add: copies_up_def upward_def)


text \<open>Overlapping ranges. When \<open>CopyMemory\<close> copies downwards, which its documentation allows, removing the first of four
  elements loses elements and repeats others.\<close>
theorem remove_copies_overlap:
  "\<exists>cpy a'. array_Remove cpy \<lparr>m_ppVoid = [5, 6, 7, 8], m_nCount = 4, m_nAllocated = 4\<rparr> 0 1 = Some (True, a')
     \<and> array_rep a' [8, 8, 8]"
proof -
  have "array_Remove (\<lambda>cells dst src n k. cells ! (src + n - 1)) \<lparr>m_ppVoid = [5, 6, 7, 8], m_nCount = 4, m_nAllocated = 4\<rparr> 0 1
      = Some (True, \<lparr>m_ppVoid = [8, 8, 8, 8], m_nCount = 3, m_nAllocated = 4\<rparr>)"
    by (simp add: array_Remove_def add_int_def copy_cells_def upt_rec)
  then show ?thesis by (intro exI conjI) (assumption, simp add: array_rep_def)
qed

end
