(* ===== verification/Duilib_Manager.thy ===== *)
theory Duilib_Manager
  imports Duilib_Finite_Map Duilib_Array
begin

text \<open>
  What \<open>CPaintManagerUI\<close> (\<open>UIManager.cpp\<close>) keeps about controls: the table of their names, the groups of options, the timers,
  and the pointers to the focused, hovered, clicked and key-receiving control; and what it does when a control is renamed
  or destroyed. Controls are 32-bit addresses, 0 the null pointer.
\<close>

section \<open>State\<close>

record timer_info =
  pSender :: u32
  nLocalID :: u32
  hWnd :: u32
  uWinTimer :: u32
  bKilled :: bool

text \<open>
  \<open>m_sName\<close> holds the names of the controls of this manager, \<open>groups\<close> the arrays that \<open>new CDuiPtrArray\<close> made (the array at
  the address \<open>p\<close> is at the place \<open>p - 1\<close>), \<open>m_aTimers\<close> and \<open>m_aAsyncNotify\<close> what their arrays point to (of a notification
  its sender), and \<open>win_timers\<close> the timers Windows runs for the window. As a list, \<open>m_aTimers\<close> takes for granted that
  \<open>CDuiPtrArray::Remove\<close> closes the gap, which it does if \<open>CopyMemory\<close> copies upwards (\<open>Duilib_Array\<close>); the groups, whose arrays
  are modelled cell by cell, have this as a parameter.
\<close>

record paint_manager =
  m_hWndPaint :: u32
  m_mNameHash :: str_map
  m_mOptionGroup :: str_map
  m_sName :: "u32 \<Rightarrow> wstring option"
  groups :: "ptr_array option list"
  m_aTimers :: "timer_info list"
  m_uTimerID :: u32
  win_timers :: "u32 list"
  m_pEventKey :: u32
  m_pEventHover :: u32
  m_pEventClick :: u32
  m_pFocus :: u32
  m_aAsyncNotify :: "u32 list"

section \<open>Names\<close>

definition FindControl :: "paint_manager \<Rightarrow> wstring \<Rightarrow> (u32 \<times> paint_manager) option" where
  "FindControl pm pstrName = map_option (apsnd (\<lambda>m. pm\<lparr>m_mNameHash := m\<rparr>)) (map_Find (m_mNameHash pm) pstrName True)"

text \<open>\<open>__FindControlFromNameHash\<close>, called for every control below one that is added.\<close>

definition register_control :: "memory \<Rightarrow> paint_manager \<Rightarrow> u32 \<Rightarrow> paint_manager option" where
  "register_control mem pm pThis =
     (case m_sName pm pThis of
        None \<Rightarrow> None
      | Some sName \<Rightarrow>
          if sName = [] then Some pm
          else map_option (\<lambda>(_, m). pm\<lparr>m_mNameHash := m\<rparr>) (map_Set mem (m_mNameHash pm) sName pThis))"

text \<open>
  \<open>RenameControl\<close> and \<open>CControlUI::SetName\<close> call each other; \<open>rename_then\<close> is the body of the first with the second as an
  argument. The call of \<open>RenameControl\<close> from \<open>SetName\<close> finds the new name already set.
\<close>

definition rename_then ::
  "(paint_manager \<Rightarrow> u32 \<Rightarrow> wstring \<Rightarrow> paint_manager option) \<Rightarrow> memory \<Rightarrow> paint_manager \<Rightarrow> u32 \<Rightarrow> wstring option
    \<Rightarrow> (bool \<times> paint_manager) option" where
  "rename_then set_name mem pm pControl pstrName =
     (case (m_sName pm pControl, pstrName) of
        (Some sName, Some new) \<Rightarrow>
          if pControl = 0 \<or> new = [] then Some (False, pm)
          else if sName = new then Some (True, pm)
          else do {
            (found, pm) \<leftarrow> FindControl pm new;
            if found \<noteq> 0 then Some (False, pm)
            else do {
              (_, m) \<leftarrow> map_Remove (m_mNameHash pm) sName;
              (bResult, m) \<leftarrow> map_Insert mem m new pControl;
              let pm = pm\<lparr>m_mNameHash := m\<rparr>;
              if bResult then do { pm \<leftarrow> set_name pm pControl new; Some (True, pm) } else Some (False, pm) } }
      | _ \<Rightarrow> Some (False, pm))"

definition SetName :: "memory \<Rightarrow> paint_manager \<Rightarrow> u32 \<Rightarrow> wstring \<Rightarrow> paint_manager option" where
  "SetName mem pm pControl pstrName =
     (case m_sName pm pControl of
        None \<Rightarrow> None
      | Some sName \<Rightarrow>
          if sName = pstrName then Some pm
          else map_option snd
            (rename_then (\<lambda>pm c n. None) mem (pm\<lparr>m_sName := (m_sName pm)(pControl \<mapsto> pstrName)\<rparr>) pControl (Some pstrName)))"

definition RenameControl :: "memory \<Rightarrow> paint_manager \<Rightarrow> u32 \<Rightarrow> wstring option \<Rightarrow> (bool \<times> paint_manager) option" where
  "RenameControl mem = rename_then (SetName mem) mem"

section \<open>Option groups\<close>

definition group_at :: "paint_manager \<Rightarrow> u32 \<Rightarrow> ptr_array option" where
  "group_at pm p = (if p = 0 \<or> length (groups pm) < unat p then None else groups pm ! (unat p - 1))"

definition put_group :: "u32 \<Rightarrow> ptr_array option \<Rightarrow> paint_manager \<Rightarrow> paint_manager" where
  "put_group p a pm = pm\<lparr>groups := (groups pm)[unat p - 1 := a]\<rparr>"

text \<open>The loop that looks for a control with \<open>GetAt\<close>.\<close>

fun find_member :: "ptr_array \<Rightarrow> u32 \<Rightarrow> int \<Rightarrow> nat \<Rightarrow> int option option" where
  "find_member a pControl i 0 = Some None"
| "find_member a pControl i (Suc n) = do {
     p \<leftarrow> array_GetAt a i;
     if p = pControl then Some (Some i) else find_member a pControl (i + 1) n }"

definition find_group :: "paint_manager \<Rightarrow> wstring \<Rightarrow> (u32 \<times> paint_manager) option" where
  "find_group pm name = map_option (apsnd (\<lambda>m. pm\<lparr>m_mOptionGroup := m\<rparr>)) (map_Find (m_mOptionGroup pm) name True)"

definition AddOptionGroup :: "memory \<Rightarrow> paint_manager \<Rightarrow> wstring option \<Rightarrow> u32 \<Rightarrow> (bool \<times> paint_manager) option" where
  "AddOptionGroup mem pm pStrGroupName pControl =
     (case pStrGroupName of
        None \<Rightarrow> Some (False, pm)
      | Some name \<Rightarrow>
          if pControl = 0 then Some (False, pm)
          else do {
            (lp, pm) \<leftarrow> find_group pm name;
            if lp \<noteq> 0
            then do {
              a \<leftarrow> group_at pm lp;
              member \<leftarrow> find_member a pControl 0 (nat (array_GetSize a));
              if member \<noteq> None then Some (False, pm)
              else do { (_, a) \<leftarrow> array_Add mem a pControl; Some (True, put_group lp (Some a) pm) } }
            else do {
              (_, a) \<leftarrow> array_Add mem (new_array mem 6) pControl;
              (_, m) \<leftarrow> map_Insert mem (m_mOptionGroup pm) name (of_nat (Suc (length (groups pm))));
              Some (True, pm\<lparr>groups := groups pm @ [Some a], m_mOptionGroup := m\<rparr>) } })"

definition GetOptionGroup :: "paint_manager \<Rightarrow> wstring \<Rightarrow> (ptr_array option \<times> paint_manager) option" where
  "GetOptionGroup pm name = do {
     (lp, pm) \<leftarrow> find_group pm name;
     if lp = 0 then Some (None, pm) else do { a \<leftarrow> group_at pm lp; Some (Some a, pm) } }"

definition RemoveOptionGroup :: "copier \<Rightarrow> paint_manager \<Rightarrow> wstring \<Rightarrow> u32 \<Rightarrow> paint_manager option" where
  "RemoveOptionGroup cpy pm name pControl = do {
     (lp, pm) \<leftarrow> find_group pm name;
     if lp = 0 then Some pm
     else do {
       a \<leftarrow> group_at pm lp;
       member \<leftarrow> find_member a pControl 0 (nat (array_GetSize a));
       a \<leftarrow> (case member of None \<Rightarrow> Some a | Some i \<Rightarrow> map_option snd (array_Remove cpy a i 1));
       if array_IsEmpty a
       then do { (_, m) \<leftarrow> map_Remove (m_mOptionGroup pm) name; Some (put_group lp None pm\<lparr>m_mOptionGroup := m\<rparr>) }
       else Some (put_group lp (Some a) pm) } }"

text \<open>The loop that deletes the arrays; deleting one twice is an error.\<close>

fun delete_groups :: "paint_manager \<Rightarrow> int \<Rightarrow> nat \<Rightarrow> paint_manager option" where
  "delete_groups pm i 0 = Some pm"
| "delete_groups pm i (Suc n) = do {
     key \<leftarrow> map_GetAt (m_mOptionGroup pm) i;
     pm \<leftarrow> (case key of
             None \<Rightarrow> Some pm
           | Some key \<Rightarrow> do {
               (lp, pm) \<leftarrow> find_group pm key;
               if lp = 0 then Some pm else do { _ \<leftarrow> group_at pm lp; Some (put_group lp None pm) } });
     delete_groups pm (i + 1) n }"

definition RemoveAllOptionGroups :: "paint_manager \<Rightarrow> paint_manager option" where
  "RemoveAllOptionGroups pm = do {
     pm \<leftarrow> delete_groups pm 0 (nat (map_GetSize (m_mOptionGroup pm)));
     m \<leftarrow> map_RemoveAll (m_mOptionGroup pm);
     Some (pm\<lparr>m_mOptionGroup := m\<rparr>) }"

section \<open>Timers\<close>

text \<open>\<open>::SetTimer\<close> and \<open>::KillTimer\<close>: a timer with the number of a running one replaces it.\<close>

definition win_set :: "u32 \<Rightarrow> paint_manager \<Rightarrow> paint_manager" where
  "win_set n pm = pm\<lparr>win_timers := List.insert n (win_timers pm)\<rparr>"

definition win_kill :: "u32 \<Rightarrow> paint_manager \<Rightarrow> paint_manager" where
  "win_kill n pm = pm\<lparr>win_timers := removeAll n (win_timers pm)\<rparr>"

definition timer_of :: "paint_manager \<Rightarrow> u32 \<Rightarrow> u32 \<Rightarrow> timer_info \<Rightarrow> bool" where
  "timer_of pm pControl nTimerID t \<longleftrightarrow> pSender t = pControl \<and> hWnd t = m_hWndPaint pm \<and> nLocalID t = nTimerID"

text \<open>\<open>SetTimer\<close>; \<open>granted\<close> says whether Windows grants the timer.\<close>

definition SetTimer :: "bool \<Rightarrow> paint_manager \<Rightarrow> u32 \<Rightarrow> u32 \<Rightarrow> bool \<times> paint_manager" where
  "SetTimer granted pm pControl nTimerID =
     (case List.extract (timer_of pm pControl nTimerID) (m_aTimers pm) of
        Some (before, t, behind) \<Rightarrow>
          if bKilled t \<and> granted
          then (True, win_set (uWinTimer t) pm\<lparr>m_aTimers := before @ t\<lparr>bKilled := False\<rparr> # behind\<rparr>)
          else (False, pm)
      | None \<Rightarrow>
          let pm = pm\<lparr>m_uTimerID := (m_uTimerID pm + 1) mod 0xFF\<rparr>
          in if \<not> granted then (False, pm)
             else (True, win_set (m_uTimerID pm) pm\<lparr>m_aTimers := m_aTimers pm @
                     [\<lparr>pSender = pControl, nLocalID = nTimerID, hWnd = m_hWndPaint pm, uWinTimer = m_uTimerID pm, bKilled = False\<rparr>]\<rparr>))"

text \<open>\<open>KillTimer(pControl, nTimerID)\<close> goes on behind a timer that is killed already.\<close>

definition KillTimer :: "bool \<Rightarrow> paint_manager \<Rightarrow> u32 \<Rightarrow> u32 \<Rightarrow> bool \<times> paint_manager" where
  "KillTimer is_window pm pControl nTimerID =
     (case List.extract (\<lambda>t. timer_of pm pControl nTimerID t \<and> \<not> bKilled t) (m_aTimers pm) of
        None \<Rightarrow> (False, pm)
      | Some (before, t, behind) \<Rightarrow>
          (True, (if is_window then win_kill (uWinTimer t) else id)
                   (pm\<lparr>m_aTimers := before @ t\<lparr>bKilled := True\<rparr> # behind\<rparr>)))"

text \<open>\<open>KillTimer(pControl)\<close>: the array shrinks by \<open>j\<close> while \<open>i\<close> counts the timers it had.\<close>

fun kill_timers :: "paint_manager \<Rightarrow> u32 \<Rightarrow> nat \<Rightarrow> nat \<Rightarrow> nat \<Rightarrow> paint_manager option" where
  "kill_timers pm pControl i j 0 = Some pm"
| "kill_timers pm pControl i j (Suc n) =
     (if i < j \<or> length (m_aTimers pm) \<le> i - j then None
      else
        let t = m_aTimers pm ! (i - j)
        in if pSender t = pControl \<and> hWnd t = m_hWndPaint pm
           then kill_timers
             ((if bKilled t then id else win_kill (uWinTimer t))
               (pm\<lparr>m_aTimers := take (i - j) (m_aTimers pm) @ drop (Suc (i - j)) (m_aTimers pm)\<rparr>)) pControl (Suc i) (Suc j) n
           else kill_timers pm pControl (Suc i) j n)"

definition KillTimers :: "paint_manager \<Rightarrow> u32 \<Rightarrow> paint_manager option" where
  "KillTimers pm pControl = kill_timers pm pControl 0 0 (length (m_aTimers pm))"

definition RemoveAllTimers :: "bool \<Rightarrow> paint_manager \<Rightarrow> paint_manager" where
  "RemoveAllTimers is_window pm =
     (fold (\<lambda>t. if hWnd t = m_hWndPaint pm \<and> \<not> bKilled t \<and> is_window then win_kill (uWinTimer t) else id) (m_aTimers pm) pm)
       \<lparr>m_aTimers := []\<rparr>"

text \<open>The handler of \<open>WM_TIMER\<close> sends the event to the first timer with the number; its receiver and its local number.\<close>

definition timer_event :: "paint_manager \<Rightarrow> u32 \<Rightarrow> (u32 \<times> u32) option" where
  "timer_event pm wParam =
     map_option (\<lambda>t. (pSender t, nLocalID t))
       (List.find (\<lambda>t. hWnd t = m_hWndPaint pm \<and> uWinTimer t = ucast (LOWORD wParam) \<and> \<not> bKilled t) (m_aTimers pm))"

section \<open>A control is destroyed\<close>

definition ReapObjects :: "paint_manager \<Rightarrow> u32 \<Rightarrow> paint_manager option" where
  "ReapObjects pm pControl =
     (if pControl = 0 then Some pm
      else do {
        let pm = pm\<lparr>m_pEventKey := if pControl = m_pEventKey pm then 0 else m_pEventKey pm,
                    m_pEventHover := if pControl = m_pEventHover pm then 0 else m_pEventHover pm,
                    m_pEventClick := if pControl = m_pEventClick pm then 0 else m_pEventClick pm,
                    m_pFocus := if pControl = m_pFocus pm then 0 else m_pFocus pm\<rparr>;
        pm \<leftarrow> KillTimers pm pControl;
        sName \<leftarrow> m_sName pm pControl;
        pm \<leftarrow> (if sName = [] then Some pm
              else do {
                (found, pm) \<leftarrow> FindControl pm sName;
                if pControl = found then map_option (\<lambda>(_, m). pm\<lparr>m_mNameHash := m\<rparr>) (map_Remove (m_mNameHash pm) sName)
                else Some pm });
        Some (pm\<lparr>m_aAsyncNotify := map (\<lambda>p. if p = pControl then 0 else p) (m_aAsyncNotify pm)\<rparr>) })"

section \<open>Names of controls\<close>

text \<open>The table of names stands for a map, and what is registered under a name has this name, which is not empty.\<close>

definition names_rep :: "paint_manager \<Rightarrow> (wstring \<rightharpoonup> u32) \<Rightarrow> bool" where
  "names_rep pm M \<longleftrightarrow> map_rep (m_mNameHash pm) M \<and> 0 \<notin> ran M"

definition names_true :: "paint_manager \<Rightarrow> (wstring \<rightharpoonup> u32) \<Rightarrow> bool" where
  "names_true pm M \<longleftrightarrow> M [] = None \<and> (\<forall>n c. M n = Some c \<longrightarrow> m_sName pm c = Some n)"

lemma map_Find_rep:
  assumes "map_rep m M"
  obtains m' where "map_Find m k True = Some (lookup M k, m')" "map_rep m' M"
  using assms map_Find_inv unfolding map_rep_def lookup_def by metis

lemma map_Remove_rep:
  assumes "map_rep m M"
  obtains m' where "map_Remove m k = Some (M k \<noteq> None, m')" "map_rep m' (M(k := None))"
  using assms map_Remove_inv unfolding map_rep_def by metis

lemma map_Insert_rep:
  assumes "map_rep m M" and "key_fits mem k" and "0 \<notin> ran M"
  obtains m' where "map_Insert mem m k d = Some (M k = None, m')" "map_rep m' (if M k = None then M(k \<mapsto> d) else M)"
proof -
  obtain cs where "map_inv m cs" "M = contents m cs" using assms(1) by (auto simp: map_rep_def)
  moreover have "M k \<noteq> Some 0" using assms(3) by (auto simp: ran_def)
  ultimately show thesis using map_Insert_inv [of m cs k mem d thesis] assms(2) that
    unfolding key_fits_def map_rep_def by metis
qed

lemma map_Set_rep:
  assumes "map_rep m M" and "key_fits mem k"
  obtains m' where "map_Set mem m k d = Some (lookup M k, m')" "map_rep m' (M(k \<mapsto> d))"
proof -
  obtain cs where "map_inv m cs" "M = contents m cs" using assms(1) by (auto simp: map_rep_def)
  then show thesis using map_Set_inv [of m cs k mem d thesis] assms(2) that
    unfolding key_fits_def map_rep_def lookup_def by metis
qed

lemma no_null: "0 \<notin> ran M \<longleftrightarrow> (\<forall>k. M k \<noteq> Some 0)"
  by (auto simp: ran_def)

lemma lookup_zero: "0 \<notin> ran M \<Longrightarrow> lookup M k = 0 \<longleftrightarrow> M k = None"
  by (auto simp: lookup_def ran_def split: option.splits)

lemma FindControl_rep:
  assumes "names_rep pm M"
  obtains m where "FindControl pm n = Some (lookup M n, pm\<lparr>m_mNameHash := m\<rparr>)" "map_rep m M"
proof -
  obtain m where "map_Find (m_mNameHash pm) n True = Some (lookup M n, m)" "map_rep m M"
    using map_Find_rep assms unfolding names_rep_def by blast
  then show thesis by (intro that) (simp_all add: FindControl_def)
qed

lemma SetName_rep:
  assumes "m_sName pm c = Some old" and "c \<noteq> 0" and "new \<noteq> []" and "old \<noteq> new"
  shows "SetName mem pm c new = Some (pm\<lparr>m_sName := (m_sName pm)(c \<mapsto> new)\<rparr>)"
  using assms by (simp add: SetName_def rename_then_def)

lemma RenameControl_rep:
  assumes rep: "names_rep pm M" and c: "m_sName pm c = Some old" "c \<noteq> 0" and new: "new \<noteq> []" "old \<noteq> new" "key_fits mem new" "M new = None"
  obtains pm' where "RenameControl mem pm c (Some new) = Some (True, pm')" "names_rep pm' (M(old := None, new \<mapsto> c))"
    "m_sName pm' = (m_sName pm)(c \<mapsto> new)"
proof -
  have "lookup M new = 0" using new(4) by (simp add: lookup_def)
  then obtain m where m: "FindControl pm new = Some (0, pm\<lparr>m_mNameHash := m\<rparr>)" "map_rep m M"
    using FindControl_rep [OF rep, of new] by metis
  obtain m1 where m1: "map_Remove m old = Some (M old \<noteq> None, m1)" "map_rep m1 (M(old := None))" using map_Remove_rep [OF m(2)] .
  have null: "0 \<notin> ran (M(old := None))" using rep by (simp add: names_rep_def no_null)
  have free: "(M(old := None)) new = None" using new(4) by simp
  obtain m2 where "map_Insert mem m1 new c = Some ((M(old := None)) new = None, m2)"
    "map_rep m2 (if (M(old := None)) new = None then M(old := None, new \<mapsto> c) else M(old := None))"
    using map_Insert_rep [OF m1(2) new(3) null] .
  then have m2: "map_Insert mem m1 new c = Some (True, m2)" "map_rep m2 (M(old := None, new \<mapsto> c))"
    unfolding free by simp_all
  let ?pm = "pm\<lparr>m_mNameHash := m2, m_sName := (m_sName pm)(c \<mapsto> new)\<rparr>"
  show thesis
  proof (rule that [of ?pm])
    have "SetName mem (pm\<lparr>m_mNameHash := m2\<rparr>) c new = Some ?pm" using SetName_rep [of "pm\<lparr>m_mNameHash := m2\<rparr>" c old new mem] c new by simp
    then show "RenameControl mem pm c (Some new) = Some (True, ?pm)"
      using c new m(1) m1(1) m2(1) by (simp add: RenameControl_def rename_then_def)
    have "0 \<notin> ran (M(old := None, new \<mapsto> c))" using null c(2) by (simp add: no_null)
    then show "names_rep ?pm (M(old := None, new \<mapsto> c))" using m2(2) by (simp add: names_rep_def)
  qed simp
qed

text \<open>Registering a control keeps the table true.\<close>

lemma register_control_rep:
  assumes "names_rep pm M" and "m_sName pm c = Some n" and "c \<noteq> 0" and "n \<noteq> []" and "key_fits mem n"
  obtains pm' where "register_control mem pm c = Some pm'" "names_rep pm' (M(n \<mapsto> c))" "m_sName pm' = m_sName pm"
    "names_true pm M \<longrightarrow> names_true pm' (M(n \<mapsto> c))"
proof -
  have "map_rep (m_mNameHash pm) M" using assms(1) by (simp add: names_rep_def)
  then obtain m where m: "map_Set mem (m_mNameHash pm) n c = Some (lookup M n, m)" "map_rep m (M(n \<mapsto> c))"
    using map_Set_rep [OF _ assms(5)] by metis
  have "0 \<notin> ran (M(n \<mapsto> c))" using assms(1,3) by (simp add: names_rep_def no_null)
  then show thesis using assms(2-4) m by (intro that [of "pm\<lparr>m_mNameHash := m\<rparr>"])
    (simp_all add: register_control_def names_rep_def names_true_def)
qed

section \<open>Timers of a control\<close>

definition mine :: "paint_manager \<Rightarrow> u32 \<Rightarrow> timer_info \<Rightarrow> bool" where
  "mine pm pControl t \<longleftrightarrow> pSender t = pControl \<and> hWnd t = m_hWndPaint pm"

lemma win_kill_fields [simp]:
  "m_aTimers (win_kill n pm) = m_aTimers pm" "m_hWndPaint (win_kill n pm) = m_hWndPaint pm"
  "win_timers (win_kill n pm) = removeAll n (win_timers pm)"
  by (simp_all add: win_kill_def)

text \<open>The loop with its shrinking array removes exactly the timers of the control and stops those that ran.\<close>

definition without_timers :: "paint_manager \<Rightarrow> u32 \<Rightarrow> timer_info list \<Rightarrow> timer_info list \<Rightarrow> paint_manager" where
  "without_timers pm c before ts =
     pm\<lparr>m_aTimers := before @ filter (\<lambda>t. \<not> mine pm c t) ts,
        win_timers := filter (\<lambda>n. \<forall>t \<in> set ts. mine pm c t \<longrightarrow> \<not> bKilled t \<longrightarrow> uWinTimer t \<noteq> n) (win_timers pm)\<rparr>"

lemma kill_timers_filter:
  "m_aTimers pm = before @ ts \<Longrightarrow> i - j = length before \<Longrightarrow> j \<le> i \<Longrightarrow>
    kill_timers pm c i j (length ts) = Some (without_timers pm c before ts)"
proof (induction ts arbitrary: pm before i j)
  case Nil
  then show ?case by (simp add: without_timers_def)
next
  case (Cons t ts)
  have at: "m_aTimers pm ! (i - j) = t" "\<not> length (m_aTimers pm) \<le> i - j" using Cons.prems by simp_all
  show ?case
  proof (cases "mine pm c t")
    case True
    let ?pm = "(if bKilled t then id else win_kill (uWinTimer t)) (pm\<lparr>m_aTimers := before @ ts\<rparr>)"
    have "take (i - j) (m_aTimers pm) @ drop (Suc (i - j)) (m_aTimers pm) = before @ ts" using Cons.prems(1,2) by simp
    then have step: "kill_timers pm c i j (length (t # ts)) = kill_timers ?pm c (Suc i) (Suc j) (length ts)"
      using True at Cons.prems(3) by (simp add: mine_def Let_def)
    have "kill_timers ?pm c (Suc i) (Suc j) (length ts) = Some (without_timers ?pm c before ts)"
      by (rule Cons.IH) (use Cons.prems in auto)
    also have "without_timers ?pm c before ts = without_timers pm c before (t # ts)"
      using True by (auto simp: without_timers_def mine_def win_kill_def removeAll_filter_not_eq intro!: filter_cong)
    finally show ?thesis using step by simp
  next
    case False
    then have "kill_timers pm c i j (length (t # ts)) = kill_timers pm c (Suc i) j (length ts)"
      using at Cons.prems(3) by (auto simp: mine_def Let_def)
    also have "\<dots> = Some (without_timers pm c (before @ [t]) ts)"
      by (rule Cons.IH) (use Cons.prems in auto)
    finally show ?thesis using False by (simp add: without_timers_def)
  qed
qed

lemma KillTimers_filter: "KillTimers pm c = Some (without_timers pm c [] (m_aTimers pm))"
  unfolding KillTimers_def by (rule kill_timers_filter) simp_all

section \<open>Destroying a control\<close>

text \<open>What the manager keeps of a control besides its name: a pointer, a timer or a notification.\<close>

definition refers_to :: "paint_manager \<Rightarrow> u32 \<Rightarrow> bool" where
  "refers_to pm c \<longleftrightarrow> m_pEventKey pm = c \<or> m_pEventHover pm = c \<or> m_pEventClick pm = c \<or> m_pFocus pm = c
     \<or> c \<in> set (m_aAsyncNotify pm) \<or> list_ex (mine pm c) (m_aTimers pm)"

text \<open>
  What destroying the control \<open>c\<close> with the name \<open>n\<close> does besides the table of names: the pointers to it are null, its
  timers are gone and those that ran are stopped in Windows, and its notifications have no sender.
\<close>

definition reaped :: "u32 \<Rightarrow> paint_manager \<Rightarrow> paint_manager \<Rightarrow> bool" where
  "reaped c pm pm' \<longleftrightarrow>
     m_pEventKey pm' = (if m_pEventKey pm = c then 0 else m_pEventKey pm)
     \<and> m_pEventHover pm' = (if m_pEventHover pm = c then 0 else m_pEventHover pm)
     \<and> m_pEventClick pm' = (if m_pEventClick pm = c then 0 else m_pEventClick pm)
     \<and> m_pFocus pm' = (if m_pFocus pm = c then 0 else m_pFocus pm)
     \<and> m_aTimers pm' = filter (\<lambda>t. \<not> mine pm c t) (m_aTimers pm)
     \<and> win_timers pm' = filter (\<lambda>k. \<not> (\<exists>t \<in> set (m_aTimers pm). mine pm c t \<and> \<not> bKilled t \<and> uWinTimer t = k)) (win_timers pm)
     \<and> m_aAsyncNotify pm' = map (\<lambda>p. if p = c then 0 else p) (m_aAsyncNotify pm)
     \<and> m_hWndPaint pm' = m_hWndPaint pm \<and> m_sName pm' = m_sName pm \<and> m_uTimerID pm' = m_uTimerID pm
     \<and> m_mOptionGroup pm' = m_mOptionGroup pm \<and> groups pm' = groups pm"

lemma reaped_forgets: "reaped c pm pm' \<Longrightarrow> c \<noteq> 0 \<Longrightarrow> \<not> refers_to pm' c"
  by (auto simp: reaped_def refers_to_def list_ex_iff mine_def)

lemma ReapObjects_rep:
  assumes rep: "names_rep pm M" and c: "m_sName pm c = Some n" "c \<noteq> 0"
  obtains pm' where "ReapObjects pm c = Some pm'" "names_rep pm' (if n \<noteq> [] \<and> M n = Some c then M(n := None) else M)"
    "reaped c pm pm'"
proof -
  let ?p1 = "pm\<lparr>m_pEventKey := if c = m_pEventKey pm then 0 else m_pEventKey pm,
      m_pEventHover := if c = m_pEventHover pm then 0 else m_pEventHover pm,
      m_pEventClick := if c = m_pEventClick pm then 0 else m_pEventClick pm,
      m_pFocus := if c = m_pFocus pm then 0 else m_pFocus pm\<rparr>"
  define p2 where "p2 = without_timers ?p1 c [] (m_aTimers pm)"
  have p2: "KillTimers ?p1 c = Some p2" by (simp add: KillTimers_filter p2_def)
  have same: "m_mNameHash p2 = m_mNameHash pm" "m_sName p2 = m_sName pm" "m_aAsyncNotify p2 = m_aAsyncNotify pm"
    by (auto simp: p2_def without_timers_def mine_def)
  let ?notes = "map (\<lambda>p. if p = c then 0 else p) (m_aAsyncNotify pm)"
  have reaped: "reaped c pm (p2\<lparr>m_mNameHash := m, m_aAsyncNotify := ?notes\<rparr>)" for m
    by (auto simp: reaped_def p2_def without_timers_def mine_def intro!: filter_cong)
  have rep2: "names_rep p2 M" using rep by (simp add: names_rep_def same(1))
  show thesis
  proof (cases "n = []")
    case True
    have "p2 = p2\<lparr>m_mNameHash := m_mNameHash p2\<rparr>" by simp
    then have "ReapObjects pm c = Some (p2\<lparr>m_mNameHash := m_mNameHash p2, m_aAsyncNotify := ?notes\<rparr>)"
      using c p2 True by (simp add: ReapObjects_def same(2,3))
    moreover have "names_rep (p2\<lparr>m_mNameHash := m_mNameHash p2, m_aAsyncNotify := ?notes\<rparr>) M"
      using rep2 by (simp add: names_rep_def)
    ultimately show thesis using reaped [of "m_mNameHash p2"] True by (intro that) simp_all
  next
    case False
    obtain m where m: "FindControl p2 n = Some (lookup M n, p2\<lparr>m_mNameHash := m\<rparr>)" "map_rep m M" using FindControl_rep [OF rep2] .
    obtain m1 where m1: "map_Remove m n = Some (M n \<noteq> None, m1)" "map_rep m1 (M(n := None))" using map_Remove_rep [OF m(2)] .
    have found: "c = lookup M n \<longleftrightarrow> M n = Some c" using c(2) by (auto simp: lookup_def split: option.splits)
    let ?m = "if M n = Some c then m1 else m"
    let ?pm = "p2\<lparr>m_mNameHash := ?m, m_aAsyncNotify := ?notes\<rparr>"
    have "ReapObjects pm c = Some ?pm"
      using c False p2 m(1) m1(1) found by (simp add: ReapObjects_def same(2,3))
    moreover have "names_rep ?pm (if n \<noteq> [] \<and> M n = Some c then M(n := None) else M)"
      using rep m(2) m1(2) False by (simp add: names_rep_def no_null)
    ultimately show thesis using reaped by (rule that)
  qed
qed

section \<open>Properties of names\<close>

definition demo_manager :: paint_manager where
  "demo_manager = \<lparr>m_hWndPaint = 1, m_mNameHash = new_map 16, m_mOptionGroup = new_map 16,
     m_sName = (\<lambda>_. None)(5 \<mapsto> [97], 6 \<mapsto> [98], 9 \<mapsto> []), groups = [],
     m_aTimers = [\<lparr>pSender = 5, nLocalID = 1, hWnd = 1, uWinTimer = 7, bKilled = False\<rparr>,
                  \<lparr>pSender = 6, nLocalID = 1, hWnd = 1, uWinTimer = 8, bKilled = False\<rparr>],
     m_uTimerID = 8, win_timers = [7, 8], m_pEventKey = 0, m_pEventHover = 5, m_pEventClick = 0, m_pFocus = 5, m_aAsyncNotify = [5, 6, 9]\<rparr>"

text \<open>Renaming a control through the manager. A control of the manager gets a new name that no control is registered under:
  \<open>RenameControl\<close> succeeds, the control has the new name, and the table of names gives it under the new name and nothing under the
  old one. When every registered control is registered under its name, this stays so.\<close>
theorem rename_moves_name:
  assumes "names_rep pm M" and "m_sName pm c = Some old" and "c \<noteq> 0"
    and "new \<noteq> []" and "old \<noteq> new" and "key_fits mem new" and "M new = None"
  shows "\<exists>pm'. RenameControl mem pm c (Some new) = Some (True, pm') \<and> m_sName pm' = (m_sName pm)(c \<mapsto> new)
    \<and> names_rep pm' (M(old := None, new \<mapsto> c)) \<and> (names_true pm M \<longrightarrow> names_true pm' (M(old := None, new \<mapsto> c)))"
proof -
  obtain pm' where pm': "RenameControl mem pm c (Some new) = Some (True, pm')" "names_rep pm' (M(old := None, new \<mapsto> c))"
    "m_sName pm' = (m_sName pm)(c \<mapsto> new)" using RenameControl_rep [OF assms] .
  have "names_true pm' (M(old := None, new \<mapsto> c))" if "names_true pm M"
    using that assms(2,4) by (auto simp: names_true_def pm'(3))
  with pm' show ?thesis by blast
qed

lemma demo_names: "names_rep demo_manager Map.empty"
  by (simp add: names_rep_def demo_manager_def new_map_rep)

theorem rename_moves_name_witness:
  "\<exists>pm'. RenameControl demo_memory demo_manager 5 (Some [99]) = Some (True, pm') \<and> m_sName pm' 5 = Some [99] \<and> names_rep pm' [[99] \<mapsto> 5]"
proof -
  have "m_sName demo_manager 5 = Some [97]" by (simp add: demo_manager_def)
  from rename_moves_name [OF demo_names this, of "[99]" demo_memory] show ?thesis
    by (auto simp: key_fits_def demo_roomy fun_upd_idem)
qed


text \<open>The manager of the demonstration with the control 5 registered.\<close>

lemma demo_registered:
  obtains pm where "register_control demo_memory demo_manager 5 = Some pm" "names_rep pm [[97] \<mapsto> 5]"
    "names_true pm [[97] \<mapsto> 5]" "m_sName pm = m_sName demo_manager"
    "m_aTimers pm = m_aTimers demo_manager" "m_hWndPaint pm = m_hWndPaint demo_manager"
    "win_timers pm = win_timers demo_manager" "m_aAsyncNotify pm = m_aAsyncNotify demo_manager"
proof -
  have name: "m_sName demo_manager 5 = Some [97]" by (simp add: demo_manager_def)
  obtain pm where pm: "register_control demo_memory demo_manager 5 = Some pm" "names_rep pm [[97] \<mapsto> 5]" "m_sName pm = m_sName demo_manager"
      "names_true demo_manager Map.empty \<longrightarrow> names_true pm [[97] \<mapsto> 5]"
    using register_control_rep [OF demo_names name, of demo_memory] by (auto simp: key_fits_def demo_roomy)
  then obtain m where "pm = demo_manager\<lparr>m_mNameHash := m\<rparr>" using name by (auto simp: register_control_def)
  then show thesis using pm by (intro that [of pm]) (simp_all add: names_true_def)
qed


text \<open>A control renamed through \<open>SetName\<close> is not renamed for its manager. A registered control that gets another
  name by \<open>SetName\<close>, because of which \<open>RenameControl\<close> returns at once, is still found under the old name, and also after it was
  destroyed: \<open>FindControl\<close> then gives a pointer to a control that no longer exists.\<close>
theorem renamed_control_dangles:
  assumes "names_rep pm M" and "M old = Some c" and "m_sName pm c = Some old" and "new \<noteq> []" and "old \<noteq> new" and "M new \<noteq> Some c"
  shows "\<exists>pm1 pm2 pm3. SetName mem pm c new = Some pm1 \<and> m_sName pm1 c = Some new
    \<and> ReapObjects pm1 c = Some pm2 \<and> FindControl pm2 old = Some (c, pm3)"
proof -
  have c: "c \<noteq> 0" using assms(1,2) by (auto simp: names_rep_def no_null)
  let ?pm1 = "pm\<lparr>m_sName := (m_sName pm)(c \<mapsto> new)\<rparr>"
  have rep1: "names_rep ?pm1 M" "m_sName ?pm1 c = Some new" using assms(1) by (simp_all add: names_rep_def)
  obtain pm2 where pm2: "ReapObjects ?pm1 c = Some pm2" "names_rep pm2 (if new \<noteq> [] \<and> M new = Some c then M(new := None) else M)"
    using ReapObjects_rep [OF rep1 c] .
  then have "names_rep pm2 M" using assms(6) by simp
  then obtain m where "FindControl pm2 old = Some (lookup M old, pm2\<lparr>m_mNameHash := m\<rparr>)" using FindControl_rep by metis
  then show ?thesis using SetName_rep [OF assms(3) c assms(4,5)] rep1(2) pm2(1) assms(2)
    by (auto simp: lookup_def)
qed

theorem renamed_control_dangles_witness:
  "\<exists>pm pm1 pm2 pm3. register_control demo_memory demo_manager 5 = Some pm \<and> SetName demo_memory pm 5 [99] = Some pm1
    \<and> ReapObjects pm1 5 = Some pm2 \<and> FindControl pm2 [97] = Some (5, pm3)"
proof -
  have name: "m_sName demo_manager 5 = Some [97]" by (simp add: demo_manager_def)
  obtain pm where pm: "register_control demo_memory demo_manager 5 = Some pm" "names_rep pm [[97] \<mapsto> 5]" "m_sName pm = m_sName demo_manager"
    using register_control_rep [OF demo_names name, of demo_memory] by (auto simp: key_fits_def demo_roomy)
  with renamed_control_dangles [OF pm(2), of "[97]" 5 "[99]" demo_memory] name show ?thesis by auto
qed

end
