(* ===== verification/Duilib_Groups.thy ===== *)
theory Duilib_Groups
  imports Duilib_Manager
begin

text \<open>
  The option groups of \<open>CPaintManagerUI\<close> (\<open>UIManager.cpp\<close>), made of the hash table and the arrays of duilib: they stand for a
  list of controls per name.
\<close>

section \<open>What the option groups stand for\<close>

text \<open>
  Every group name of the table leads to an array of its own, which holds the controls of the group, at least one and none
  twice. \<open>groups_small\<close> keeps the blocks below the limits of \<open>Duilib_Array\<close>.
\<close>

definition group_ok :: "paint_manager \<Rightarrow> u32 \<Rightarrow> u32 list \<Rightarrow> bool" where
  "group_ok pm p cs \<longleftrightarrow> p \<noteq> 0 \<and> cs \<noteq> [] \<and> distinct cs \<and> 0 \<notin> set cs \<and> (\<exists>a. group_at pm p = Some a \<and> array_rep a cs)"

definition groups_of :: "paint_manager \<Rightarrow> (wstring \<rightharpoonup> u32) \<Rightarrow> (wstring \<Rightarrow> u32 list) \<Rightarrow> bool" where
  "groups_of pm M G \<longleftrightarrow> (\<forall>k p. M k = Some p \<longrightarrow> group_ok pm p (G k)) \<and> (\<forall>k. M k = None \<longrightarrow> G k = [])
     \<and> (\<forall>k l p. M k = Some p \<longrightarrow> M l = Some p \<longrightarrow> k = l)"

definition groups_rep :: "paint_manager \<Rightarrow> (wstring \<Rightarrow> u32 list) \<Rightarrow> bool" where
  "groups_rep pm G \<longleftrightarrow> (\<exists>M. map_rep (m_mOptionGroup pm) M \<and> groups_of pm M G)"

definition groups_small :: "paint_manager \<Rightarrow> bool" where
  "groups_small pm \<longleftrightarrow> length (groups pm) < 2 ^ 31 \<and> (\<forall>a. Some a \<in> set (groups pm) \<longrightarrow> m_nAllocated a < 2 ^ 28)"

lemma groups_ofD:
  assumes "groups_of pm M G"
  shows "M k = Some p \<Longrightarrow> group_ok pm p (G k)" "M k = None \<Longrightarrow> G k = []" "M k = Some p \<Longrightarrow> M l = Some p \<Longrightarrow> k = l"
  using assms unfolding groups_of_def by blast+

lemma group_ok_array:
  assumes "group_ok pm p cs"
  obtains a where "group_at pm p = Some a" "array_rep a cs"
  using assms by (auto simp: group_ok_def)

lemma group_at_put:
  assumes "group_at pm p = Some a"
  shows "group_at (put_group p b pm) q = (if q = p then b else group_at pm q)"
proof -
  have p: "p \<noteq> 0" "unat p \<le> length (groups pm)" using assms by (auto simp: group_at_def split: if_splits)
  then have "unat p - 1 < length (groups pm)" by (simp add: unat_gt_0 [symmetric] del: unat_gt_0)
  moreover have "unat q - 1 = unat p - 1 \<longleftrightarrow> q = p" if "q \<noteq> 0"
    using that p(1) by (metis Suc_pred' unat_gt_0 word_unat_eq_iff)
  ultimately show ?thesis using p by (auto simp: group_at_def put_group_def nth_list_update)
qed

lemma group_at_small:
  assumes "groups_small pm" and "group_at pm p = Some a"
  shows "m_nAllocated a < 2 ^ 28"
proof -
  have p: "p \<noteq> 0" "unat p \<le> length (groups pm)" "groups pm ! (unat p - 1) = Some a"
    using assms(2) by (auto simp: group_at_def split: if_splits)
  then have "unat p - 1 < length (groups pm)" by (simp add: unat_gt_0 [symmetric] del: unat_gt_0)
  then have "Some a \<in> set (groups pm)" using p(3) by (metis nth_mem)
  then show ?thesis using assms(1) by (simp add: groups_small_def)
qed

lemma find_member_index:
  "array_rep a (front @ xs) \<Longrightarrow>
    find_member a c (int (length front)) (length xs) = Some (map_option (\<lambda>i. int (length front) + int i) (index_of c xs))"
proof (induction xs arbitrary: front)
  case (Cons x xs)
  have "array_GetAt a (int (length front)) = Some x"
    using array_GetAt_rep [OF Cons.prems, of "int (length front)"] by (simp add: nth_append)
  then show ?case using Cons.IH [of "front @ [x]"] Cons.prems by (simp add: add_ac option.map_comp comp_def)
qed simp

lemma find_member_rep: "array_rep a xs \<Longrightarrow> find_member a c 0 (nat (array_GetSize a)) = Some (map_option int (index_of c xs))"
  using find_member_index [of a "[]" xs c] by (simp add: array_GetSize_def array_repD(1))

lemma find_group_rep:
  assumes "map_rep (m_mOptionGroup pm) M"
  obtains m where "find_group pm k = Some (lookup M k, pm\<lparr>m_mOptionGroup := m\<rparr>)" "map_rep m M"
proof -
  obtain m where "map_Find (m_mOptionGroup pm) k True = Some (lookup M k, m)" "map_rep m M" using map_Find_rep [OF assms] .
  then show thesis by (intro that) (simp_all add: find_group_def)
qed

lemma groups_of_null: "groups_of pm M G \<Longrightarrow> 0 \<notin> ran M"
  by (auto simp: groups_of_def group_ok_def ran_def)

lemma group_ok_other:
  assumes "group_ok pm q cs" and "group_at pm' q = group_at pm q"
  shows "group_ok pm' q cs"
  using assms by (simp add: group_ok_def)

text \<open>Changing the array of one name.\<close>

lemma groups_of_put:
  assumes "groups_of pm M G" and "M k = Some p" and "cs \<noteq> []" "distinct cs" "0 \<notin> set cs" and "array_rep a cs"
  shows "groups_of (put_group p (Some a) pm) M (G(k := cs))"
proof -
  have old: "group_ok pm p (G k)" by (rule groups_ofD(1) [OF assms(1,2)])
  then obtain a0 where a0: "group_at pm p = Some a0" by (rule group_ok_array)
  have p: "p \<noteq> 0" using old by (simp add: group_ok_def)
  note at = group_at_put [OF a0, of "Some a"]
  have "group_ok (put_group p (Some a) pm) q ((G(k := cs)) l)" if "M l = Some q" for l q
  proof (cases "l = k")
    case True
    then show ?thesis using that assms(2-6) p at by (simp add: group_ok_def)
  next
    case False
    then have "q \<noteq> p" using that assms(1,2) by (auto simp: groups_of_def)
    then show ?thesis using False that assms(1) at [of q] by (auto simp: groups_of_def intro: group_ok_other)
  qed
  then show ?thesis using assms(1,2) by (auto simp: groups_of_def)
qed

lemma groups_of_forget:
  assumes "groups_of pm M G" and "M k = Some p"
  shows "groups_of (put_group p None pm) (M(k := None)) (G(k := []))"
proof -
  obtain a0 where a0: "group_at pm p = Some a0" using groups_ofD(1) [OF assms] by (rule group_ok_array)
  have "group_ok (put_group p None pm) q (G l)" if "M l = Some q" "l \<noteq> k" for l q
  proof -
    have "q \<noteq> p" using that assms by (auto simp: groups_of_def)
    then show ?thesis using that assms(1) group_at_put [OF a0, of None q] by (auto simp: groups_of_def intro: group_ok_other)
  qed
  then show ?thesis using assms(1) by (auto simp: groups_of_def)
qed

lemma group_at_table [simp]: "group_at (pm\<lparr>m_mOptionGroup := m\<rparr>) = group_at pm"
  by (rule ext) (simp add: group_at_def)

lemma groups_of_table [simp]: "groups_of (pm\<lparr>m_mOptionGroup := m\<rparr>) M G = groups_of pm M G"
  by (simp add: groups_of_def group_ok_def)

lemma put_group_table [simp]: "m_mOptionGroup (put_group p a pm) = m_mOptionGroup pm"
  by (simp add: put_group_def)

lemma GetOptionGroup_rep:
  assumes "groups_rep pm G"
  obtains r pm' where "GetOptionGroup pm k = Some (r, pm')" "groups_rep pm' G" "r = None \<longleftrightarrow> G k = []" "\<And>a. r = Some a \<Longrightarrow> array_rep a (G k)"
proof -
  obtain M where M: "map_rep (m_mOptionGroup pm) M" "groups_of pm M G" using assms by (auto simp: groups_rep_def)
  obtain m where m: "find_group pm k = Some (lookup M k, pm\<lparr>m_mOptionGroup := m\<rparr>)" "map_rep m M" using find_group_rep [OF M(1)] .
  have rep: "groups_rep (pm\<lparr>m_mOptionGroup := m\<rparr>) G" unfolding groups_rep_def using M(2) m(2) by (intro exI [of _ M]) simp
  show thesis
  proof (cases "M k")
    case None
    then show thesis using that [of None "pm\<lparr>m_mOptionGroup := m\<rparr>"] m(1) rep M(2)
      by (simp add: GetOptionGroup_def lookup_def groups_of_def)
  next
    case (Some p)
    have ok: "group_ok pm p (G k)" by (rule groups_ofD(1) [OF M(2) Some])
    then obtain a where "group_at pm p = Some a" "array_rep a (G k)" by (rule group_ok_array)
    with ok have a: "p \<noteq> 0" "G k \<noteq> []" "group_at pm p = Some a" "array_rep a (G k)" by (simp_all add: group_ok_def)
    show thesis using that [of "Some a" "pm\<lparr>m_mOptionGroup := m\<rparr>"] m(1) rep a Some
      by (simp add: GetOptionGroup_def lookup_def)
  qed
qed

text \<open>A new array at the end of the memory of arrays.\<close>

lemma group_at_new:
  assumes "length (groups pm) < 2 ^ 31"
  defines "lp \<equiv> of_nat (Suc (length (groups pm))) :: u32"
  shows "lp \<noteq> 0" "group_at pm lp = None" "group_at (pm\<lparr>groups := groups pm @ [Some a]\<rparr>) lp = Some a"
    "group_at pm q \<noteq> None \<Longrightarrow> group_at (pm\<lparr>groups := groups pm @ [Some a]\<rparr>) q = group_at pm q"
proof -
  have u: "unat lp = Suc (length (groups pm))" using assms(1) unfolding lp_def by (subst unat_of_nat) simp
  then show z: "lp \<noteq> 0" by auto
  show "group_at pm lp = None" "group_at (pm\<lparr>groups := groups pm @ [Some a]\<rparr>) lp = Some a"
    using u z by (simp_all add: group_at_def)
  assume "group_at pm q \<noteq> None"
  then have q: "q \<noteq> 0" "unat q \<le> length (groups pm)" by (auto simp: group_at_def split: if_splits)
  then have "unat q - 1 < length (groups pm)" by (simp add: unat_gt_0 [symmetric] del: unat_gt_0)
  then show "group_at (pm\<lparr>groups := groups pm @ [Some a]\<rparr>) q = group_at pm q" using q by (simp add: group_at_def nth_append)
qed

lemma groups_of_new:
  assumes "groups_of pm M G" and "length (groups pm) < 2 ^ 31" and "M k = None" and "array_rep a [c]" "c \<noteq> 0"
  shows "groups_of (pm\<lparr>groups := groups pm @ [Some a]\<rparr>) (M(k \<mapsto> of_nat (Suc (length (groups pm))))) (G(k := [c]))"
proof -
  define lp where "lp = (of_nat (Suc (length (groups pm))) :: u32)"
  note new = group_at_new [OF assms(2), folded lp_def]
  have old: "group_at pm q \<noteq> None" if "M l = Some q" for l q
    using groups_ofD(1) [OF assms(1) that] by (auto simp: group_ok_def)
  have fresh: "M l \<noteq> Some lp" for l using old [of l lp] new(2) by auto
  have "group_ok (pm\<lparr>groups := groups pm @ [Some a]\<rparr>) q ((G(k := [c])) l)" if "(M(k \<mapsto> lp)) l = Some q" for l q
  proof (cases "l = k")
    case True
    then show ?thesis using that assms(4,5) new(1,3) by (simp add: group_ok_def)
  next
    case False
    then have "M l = Some q" using that by simp
    then show ?thesis using False group_ok_other [OF groups_ofD(1) [OF assms(1)] new(4) [OF old]] by simp
  qed
  then show ?thesis
    unfolding lp_def [symmetric] using groups_ofD(2,3) [OF assms(1)] fresh by (auto simp: groups_of_def split: if_splits)
qed

lemma new_group_rep:
  assumes "\<forall>n. grants mem n"
  obtains a where "array_Add mem (new_array mem 6) c = Some (True, a)" "array_rep a [c]"
proof -
  have rep: "array_rep (new_array mem 6) []" using new_array_rep [OF assms, of 6] by simp
  have "m_nAllocated (new_array mem 6) < 2 ^ 28" by (simp add: new_array_def)
  from array_Add_rep [OF rep this, of mem c] show thesis using that growth_granted_always [OF assms] by (auto simp del: fun_upd_apply)
qed

lemma AddOptionGroup_rep:
  assumes rep: "groups_rep pm G" and small: "groups_small pm" and mem: "\<forall>n. grants mem n" and k: "0 \<notin> set k" and c: "c \<noteq> 0"
  obtains pm' where "AddOptionGroup mem pm (Some k) c = Some (c \<notin> set (G k), pm')"
    "groups_rep pm' (if c \<in> set (G k) then G else G(k := G k @ [c]))"
proof -
  obtain M where M: "map_rep (m_mOptionGroup pm) M" "groups_of pm M G" using rep by (auto simp: groups_rep_def)
  obtain m where m: "find_group pm k = Some (lookup M k, pm\<lparr>m_mOptionGroup := m\<rparr>)" "map_rep m M" using find_group_rep [OF M(1)] .
  let ?pm = "pm\<lparr>m_mOptionGroup := m\<rparr>"
  have M': "groups_of ?pm M G" using M(2) by simp
  show thesis
  proof (cases "M k")
    case None
    then have empty: "G k = []" by (rule groups_ofD(2) [OF M(2)])
    obtain a where a: "array_Add mem (new_array mem 6) c = Some (True, a)" "array_rep a [c]" using new_group_rep [OF mem] .
    define lp where "lp = (of_nat (Suc (length (groups pm))) :: u32)"
    have "key_fits mem k" using k mem by (simp add: key_fits_def roomy_def)
    from map_Insert_rep [OF m(2) this groups_of_null [OF M(2)], of lp] None obtain m' where
      m': "map_Insert mem m k lp = Some (True, m')" "map_rep m' (M(k \<mapsto> lp))" by auto
    let ?pm' = "pm\<lparr>groups := groups pm @ [Some a], m_mOptionGroup := m'\<rparr>"
    have "groups_of ?pm' (M(k \<mapsto> lp)) (G(k := [c]))"
      using groups_of_new [OF M(2) _ None a(2) c] small by (simp add: lp_def groups_small_def)
    then have "groups_rep ?pm' (G(k := G k @ [c]))" using m'(2) empty by (auto simp: groups_rep_def)
    moreover have "AddOptionGroup mem pm (Some k) c = Some (True, ?pm')"
      using c m(1) None a(1) m'(1) by (simp add: AddOptionGroup_def lookup_def lp_def)
    ultimately show thesis using that empty by simp
  next
    case (Some p)
    have ok: "group_ok pm p (G k)" by (rule groups_ofD(1) [OF M(2) Some])
    then obtain a where a: "group_at pm p = Some a" "array_rep a (G k)" by (rule group_ok_array)
    have p: "p \<noteq> 0" using ok by (simp add: group_ok_def)
    have look: "lookup M k = p" using Some by (simp add: lookup_def)
    note member = find_member_rep [OF a(2), of c]
    show thesis
    proof (cases "c \<in> set (G k)")
      case True
      then obtain i where "index_of c (G k) = Some i" using index_of_None [of c "G k"] by auto
      then have "AddOptionGroup mem pm (Some k) c = Some (False, ?pm)"
        using c m(1) look p a(1) member by (simp add: AddOptionGroup_def)
      then show thesis using that True m(2) M' by (auto simp: groups_rep_def)
    next
      case False
      then have none: "index_of c (G k) = None" by (simp add: index_of_None)
      obtain a' where "array_Add mem a c = Some (growth_granted mem a, a')" "array_rep a' (if growth_granted mem a then G k @ [c] else G k)"
        using array_Add_rep [OF a(2) group_at_small [OF small a(1)], of mem c] by metis
      then have a'': "array_Add mem a c = Some (True, a')" "array_rep a' (G k @ [c])" by (simp_all add: growth_granted_always [OF mem])
      have run: "AddOptionGroup mem pm (Some k) c = Some (True, put_group p (Some a') ?pm)"
        using c m(1) look p a(1) member none a''(1) by (simp add: AddOptionGroup_def)
      have "groups_of (put_group p (Some a') ?pm) M (G(k := G k @ [c]))"
        by (rule groups_of_put [OF M' Some]) (use ok False c a''(2) in \<open>auto simp: group_ok_def\<close>)
      then have "groups_rep (put_group p (Some a') ?pm) (G(k := G k @ [c]))" using m(2) by (auto simp: groups_rep_def)
      then show thesis using that run False by simp
    qed
  qed
qed

lemma remove1_index: "index_of c xs = Some i \<Longrightarrow> remove1 c xs = take i xs @ drop (i + 1) xs"
  by (induction xs arbitrary: i) (auto split: if_splits)

text \<open>
  \<open>Remove\<close> moves what is behind the control with \<open>CopyMemory\<close>. The ranges overlap unless the control is one of the last
  two of its group.
\<close>

lemma RemoveOptionGroup_rep:
  assumes rep: "groups_rep pm G" and small: "length (G k) < 2 ^ 31"
    and up: "copies_up cpy \<or> c \<notin> set (take (length (G k) - 2) (G k))"
  obtains pm' where "RemoveOptionGroup cpy pm k c = Some pm'" "groups_rep pm' (G(k := remove1 c (G k)))"
proof -
  obtain M where M: "map_rep (m_mOptionGroup pm) M" "groups_of pm M G" using rep by (auto simp: groups_rep_def)
  obtain m where m: "find_group pm k = Some (lookup M k, pm\<lparr>m_mOptionGroup := m\<rparr>)" "map_rep m M" using find_group_rep [OF M(1)] .
  let ?pm = "pm\<lparr>m_mOptionGroup := m\<rparr>"
  have M': "groups_of ?pm M G" using M(2) by simp
  show thesis
  proof (cases "M k")
    case None
    then have empty: "G k = []" by (rule groups_ofD(2) [OF M(2)])
    have "RemoveOptionGroup cpy pm k c = Some ?pm" using m(1) None by (simp add: RemoveOptionGroup_def lookup_def)
    moreover have "groups_rep ?pm (G(k := remove1 c (G k)))" using m(2) M' empty by (auto simp: groups_rep_def fun_upd_idem)
    ultimately show thesis by (rule that)
  next
    case (Some p)
    have ok: "group_ok pm p (G k)" by (rule groups_ofD(1) [OF M(2) Some])
    then obtain a where a: "group_at pm p = Some a" "array_rep a (G k)" by (rule group_ok_array)
    have p: "p \<noteq> 0" using ok by (simp add: group_ok_def)
    have look: "lookup M k = p" using Some by (simp add: lookup_def)
    obtain a' where a': "(case map_option int (index_of c (G k)) of None \<Rightarrow> Some a | Some i \<Rightarrow> map_option snd (array_Remove cpy a i 1)) = Some a'"
      "array_rep a' (remove1 c (G k))"
    proof (cases "index_of c (G k)")
      case None
      then have "c \<notin> set (G k)" by (metis index_of_None)
      then show thesis using that [of a] a(2) None by (simp add: remove1_idem)
    next
      case (Some i)
      have i: "i < length (G k)" "G k ! i = c" using index_of_Some [OF Some] by blast+
      have late: "length (G k) - Suc i \<le> 1 \<or> copies_up cpy"
      proof (rule ccontr)
        assume "\<not> ?thesis"
        then have "i < length (take (length (G k) - 2) (G k))" "\<not> copies_up cpy" by auto
        then show False using up i(2) by (metis nth_mem nth_take length_take min_less_iff_conj)
      qed
      obtain a' where "array_Remove cpy a (int i) 1 = Some (True, a')" "array_rep a' (take i (G k) @ drop (Suc i) (G k))"
        using array_Remove_rep [OF a(2), of "int i" 1 cpy] small i(1) late by auto
      then show thesis using that [of a'] Some by (simp add: remove1_index)
    qed
    have empty: "array_IsEmpty a' \<longleftrightarrow> remove1 c (G k) = []" using array_repD(1) [OF a'(2)] by (simp add: array_IsEmpty_def)
    show thesis
    proof (cases "remove1 c (G k) = []")
      case True
      obtain m' where m': "map_Remove m k = Some (M k \<noteq> None, m')" "map_rep m' (M(k := None))" using map_Remove_rep [OF m(2)] .
      have "RemoveOptionGroup cpy pm k c = Some (put_group p None ?pm\<lparr>m_mOptionGroup := m'\<rparr>)"
        using m(1) look p a(1) find_member_rep [OF a(2), of c] a'(1) empty True m'(1) by (simp add: RemoveOptionGroup_def)
      moreover have "groups_rep (put_group p None ?pm\<lparr>m_mOptionGroup := m'\<rparr>) (G(k := remove1 c (G k)))"
        unfolding groups_rep_def True using m'(2) groups_of_forget [OF M' Some] by (intro exI [of _ "M(k := None)"]) simp
      ultimately show thesis by (rule that)
    next
      case False
      have "RemoveOptionGroup cpy pm k c = Some (put_group p (Some a') ?pm)"
        using m(1) look p a(1) find_member_rep [OF a(2), of c] a'(1) empty False by (simp add: RemoveOptionGroup_def)
      moreover have "groups_of (put_group p (Some a') ?pm) M (G(k := remove1 c (G k)))"
        by (rule groups_of_put [OF M' Some False]) (use ok a'(2) notin_set_remove1 in \<open>auto simp: group_ok_def\<close>)
      then have "groups_rep (put_group p (Some a') ?pm) (G(k := remove1 c (G k)))" using m(2) by (auto simp: groups_rep_def)
      ultimately show thesis by (rule that)
    qed
  qed
qed

section \<open>Deleting all groups\<close>

text \<open>
  The loop looks every key up, which moves it within the table it goes through. The keys that are to come stay where they
  are, so every array is deleted once.
\<close>

lemma key_order_dom:
  assumes "map_inv m cs"
  shows "distinct (key_order m cs)" "set (key_order m cs) = dom (contents m cs)" "length (key_order m cs) = card (dom (contents m cs))"
    "map_GetSize m = int (length (key_order m cs))"
proof -
  show d: "distinct (key_order m cs)" and s: "set (key_order m cs) = dom (contents m cs)"
    using table_keys(1,2) [OF assms] by (simp_all add: key_order_def)
  show "length (key_order m cs) = card (dom (contents m cs))" using distinct_card [OF d] s by simp
  show "map_GetSize m = int (length (key_order m cs))" using table_keys(3) [OF assms] by (simp add: map_GetSize_def key_order_def)
qed

lemma delete_groups_all:
  assumes "map_inv (m_mOptionGroup pm) cs" and "contents (m_mOptionGroup pm) cs = M"
    and "\<forall>k p. M k = Some p \<longrightarrow> p \<noteq> 0" and "\<forall>k l p. M k = Some p \<longrightarrow> M l = Some p \<longrightarrow> k = l"
    and "i + n = card (dom M)"
    and "\<forall>k \<in> set (drop i (key_order (m_mOptionGroup pm) cs)). \<exists>p. M k = Some p \<and> group_at pm p \<noteq> None"
    and "\<forall>k \<in> set (take i (key_order (m_mOptionGroup pm) cs)). \<forall>p. M k = Some p \<longrightarrow> group_at pm p = None"
  shows "\<exists>pm'. delete_groups pm (int i) n = Some pm' \<and> map_rep (m_mOptionGroup pm') M
    \<and> (\<forall>k p. M k = Some p \<longrightarrow> group_at pm' p = None) \<and> (\<forall>q. q \<notin> ran M \<longrightarrow> group_at pm' q = group_at pm q)"
  using assms
proof (induction n arbitrary: pm cs i)
  case 0
  have "take i (key_order (m_mOptionGroup pm) cs) = key_order (m_mOptionGroup pm) cs"
    using 0 key_order_dom(3) [OF 0(1)] by simp
  then have all: "group_at pm p = None" if "M k = Some p" for k p
    using 0(7) key_order_dom(2) [OF 0(1)] 0(2) that by auto
  have "map_rep (m_mOptionGroup pm) M" using 0(1,2) by (auto simp: map_rep_def)
  with all show ?case by auto
next
  case (Suc n)
  let ?m = "m_mOptionGroup pm" and ?ks = "key_order (m_mOptionGroup pm) cs"
  note inv = Suc.prems(1) and M = Suc.prems(2)
  have len: "length ?ks = card (dom M)" using key_order_dom(3) [OF inv] M by simp
  then have i: "i < length ?ks" using Suc.prems(5) by simp
  define key where "key = ?ks ! i"
  have "key \<in> set (drop i ?ks)" using i unfolding key_def by (metis Cons_nth_drop_Suc list.set_intros(1))
  then obtain p where p: "M key = Some p" "group_at pm p \<noteq> None" using Suc.prems(6) by blast
  have p0: "p \<noteq> 0" using Suc.prems(3) p(1) by blast
  have get: "map_GetAt ?m (int i) = Some (Some key)"
    using map_GetAt_inv [OF inv, of "int i"] i by (simp add: key_order_def key_def)
  obtain m' cs' where f: "map_Find ?m key True = Some ((case contents ?m cs key of None \<Rightarrow> 0 | Some d \<Rightarrow> d), m')"
    "map_inv m' cs'" "contents m' cs' = contents ?m cs" "reordered ?m cs key m' cs'" using map_Find_moves [OF inv] .
  have find: "find_group pm key = Some (p, pm\<lparr>m_mOptionGroup := m'\<rparr>)" using f(1) p(1) M by (simp add: find_group_def)
  let ?pm = "put_group p None (pm\<lparr>m_mOptionGroup := m'\<rparr>)"
  obtain a where a: "group_at pm p = Some a" using p(2) by blast
  have at: "group_at ?pm q = (if q = p then None else group_at pm q)" for q
    using group_at_put [of "pm\<lparr>m_mOptionGroup := m'\<rparr>" p a None q] a by simp
  note order = reordered_keys [OF inv f(4) i key_def [symmetric]]
  have split: "take (Suc i) ?ks = take i ?ks @ [key]" using i by (simp add: take_Suc_conv_app_nth key_def)
  have step: "delete_groups pm (int i) (Suc n) = delete_groups ?pm (int (Suc i)) n"
    using get find p0 a by (simp add: add.commute)
  have "\<exists>pm'. delete_groups ?pm (int (Suc i)) n = Some pm' \<and> map_rep (m_mOptionGroup pm') M
    \<and> (\<forall>k p. M k = Some p \<longrightarrow> group_at pm' p = None) \<and> (\<forall>q. q \<notin> ran M \<longrightarrow> group_at pm' q = group_at ?pm q)"
  proof (rule Suc.IH)
    show "map_inv (m_mOptionGroup ?pm) cs'" "contents (m_mOptionGroup ?pm) cs' = M" using f(2,3) M by simp_all
    show "Suc i + n = card (dom M)" using Suc.prems(5) by simp
    show "\<forall>k \<in> set (drop (Suc i) (key_order (m_mOptionGroup ?pm) cs')). \<exists>p. M k = Some p \<and> group_at ?pm p \<noteq> None"
    proof
      fix k assume "k \<in> set (drop (Suc i) (key_order (m_mOptionGroup ?pm) cs'))"
      then have k: "k \<in> set (drop (Suc i) ?ks)" using order(1) by simp
      have later: "k \<in> set (drop i ?ks)" using k i by (metis Cons_nth_drop_Suc list.set_intros(2))
      have "set (take (Suc i) ?ks) \<inter> set (drop (Suc i) ?ks) = {}"
        using key_order_dom(1) [OF inv] by (rule set_take_disj_set_drop_if_distinct) simp
      then have "k \<noteq> key" using k split by auto
      obtain q where q: "M k = Some q" "group_at pm q \<noteq> None" using Suc.prems(6) later by blast
      have "q \<noteq> p" using q(1) p(1) Suc.prems(4) \<open>k \<noteq> key\<close> by blast
      with q show "\<exists>p. M k = Some p \<and> group_at ?pm p \<noteq> None" using at by auto
    qed
    show "\<forall>k \<in> set (take (Suc i) (key_order (m_mOptionGroup ?pm) cs')). \<forall>q. M k = Some q \<longrightarrow> group_at ?pm q = None"
    proof (intro ballI allI impI)
      fix k q assume "k \<in> set (take (Suc i) (key_order (m_mOptionGroup ?pm) cs'))" and q: "M k = Some q"
      then have "k \<in> set (take i ?ks) \<or> k = key" using order(2) split by auto
      then show "group_at ?pm q = None" using Suc.prems(7) q p(1) at by auto
    qed
  qed (use Suc.prems(3,4) in blast)+
  then obtain pm' where pm': "delete_groups ?pm (int (Suc i)) n = Some pm'" "map_rep (m_mOptionGroup pm') M"
    "\<forall>k p. M k = Some p \<longrightarrow> group_at pm' p = None" "\<forall>q. q \<notin> ran M \<longrightarrow> group_at pm' q = group_at ?pm q" by blast
  have "group_at pm' q = group_at pm q" if "q \<notin> ran M" for q
    using that pm'(4) at [of q] p(1) by (auto simp: ran_def)
  with pm' show ?case unfolding step by blast
qed

lemma RemoveAllOptionGroups_rep:
  assumes rep: "groups_rep pm G"
  shows "\<exists>pm'. RemoveAllOptionGroups pm = Some pm' \<and> groups_rep pm' (\<lambda>_. [])
    \<and> (\<forall>M k p. map_rep (m_mOptionGroup pm) M \<longrightarrow> M k = Some p \<longrightarrow> group_at pm' p = None)"
proof -
  obtain M where M: "map_rep (m_mOptionGroup pm) M" "groups_of pm M G" using rep by (auto simp: groups_rep_def)
  obtain cs where inv: "map_inv (m_mOptionGroup pm) cs" and MC: "M = contents (m_mOptionGroup pm) cs" using M(1) by (auto simp: map_rep_def)
  note ord = key_order_dom [OF inv]
  have ok: "group_ok pm p (G k)" if "M k = Some p" for k p using groups_ofD(1) [OF M(2) that] .
  have start: "\<forall>k \<in> set (drop 0 (key_order (m_mOptionGroup pm) cs)). \<exists>p. M k = Some p \<and> group_at pm p \<noteq> None"
  proof
    fix k assume "k \<in> set (drop 0 (key_order (m_mOptionGroup pm) cs))"
    then obtain p where "M k = Some p" using ord(2) MC by auto
    then show "\<exists>p. M k = Some p \<and> group_at pm p \<noteq> None" using ok by (auto simp: group_ok_def)
  qed
  have size: "nat (map_GetSize (m_mOptionGroup pm)) = card (dom M)" using ord(3,4) MC by simp
  obtain pm1 where pm1: "delete_groups pm (int 0) (card (dom M)) = Some pm1" "map_rep (m_mOptionGroup pm1) M"
    "\<forall>k p. M k = Some p \<longrightarrow> group_at pm1 p = None"
    using delete_groups_all [OF inv MC [symmetric], of 0 "card (dom M)"] start ok groups_ofD(3) [OF M(2)]
    by (auto simp: group_ok_def)
  have pos: "0 < m_nBuckets (m_mOptionGroup pm1)" using pm1(2) by (auto simp: map_rep_def map_inv_def)
  obtain m where m: "map_RemoveAll (m_mOptionGroup pm1) = Some m" "map_rep m Map.empty"
    using map_Resize_rep [OF pm1(2) pos] by (auto simp: map_RemoveAll_def)
  have unique: "N = M" if N: "map_rep (m_mOptionGroup pm) N" for N
  proof
    fix k
    obtain x y where "map_Find (m_mOptionGroup pm) k True = Some (lookup M k, x)" "map_Find (m_mOptionGroup pm) k True = Some (lookup N k, y)"
      using map_Find_rep [OF M(1)] map_Find_rep [OF N] by metis
    then have same: "lookup N k = lookup M k" by simp
    obtain x y where "map_Remove (m_mOptionGroup pm) k = Some (M k \<noteq> None, x)" "map_Remove (m_mOptionGroup pm) k = Some (N k \<noteq> None, y)"
      using map_Remove_rep [OF M(1)] map_Remove_rep [OF N] by metis
    then show "N k = M k" using same by (cases "M k"; cases "N k") (auto simp: lookup_def)
  qed
  have "RemoveAllOptionGroups pm = Some (pm1\<lparr>m_mOptionGroup := m\<rparr>)"
    using pm1(1) m(1) by (simp add: RemoveAllOptionGroups_def size)
  moreover have "groups_rep (pm1\<lparr>m_mOptionGroup := m\<rparr>) (\<lambda>_. [])"
    unfolding groups_rep_def using m(2) by (intro exI [of _ Map.empty]) (simp add: groups_of_def)
  ultimately show ?thesis using pm1(3) unique by (intro exI [of _ "pm1\<lparr>m_mOptionGroup := m\<rparr>"]) auto
qed

section \<open>Properties\<close>

text \<open>C22: Option groups are lists of controls without repetition. When memory is granted, adding a control to a group appends it unless
  it is in the group, which the answer tells. Removing one takes it out of its group, the array being deleted with the last
  control; this needs that \<open>CopyMemory\<close> copies upwards, unless the control is one of the last two of the group, where the
  ranges do not overlap. Removing all groups ends with no group left and the array of every name deleted; none is deleted
  twice, which would have no result.\<close>
theorem groups_are_lists:
  assumes "groups_rep pm G" and "groups_small pm" and "\<forall>n. grants mem n" and "0 \<notin> set k" and "c \<noteq> 0" and "length (G k) < 2 ^ 31"
  shows "(\<exists>pm'. AddOptionGroup mem pm (Some k) c = Some (c \<notin> set (G k), pm')
      \<and> groups_rep pm' (if c \<in> set (G k) then G else G(k := G k @ [c])))
    \<and> (copies_up cpy \<or> c \<notin> set (take (length (G k) - 2) (G k)) \<longrightarrow>
        (\<exists>pm'. RemoveOptionGroup cpy pm k c = Some pm' \<and> groups_rep pm' (G(k := remove1 c (G k)))))
    \<and> (\<exists>pm'. RemoveAllOptionGroups pm = Some pm' \<and> groups_rep pm' (\<lambda>_. [])
        \<and> (\<forall>M l p. map_rep (m_mOptionGroup pm) M \<longrightarrow> M l = Some p \<longrightarrow> group_at pm' p = None))"
proof (intro conjI impI)
  show "\<exists>pm'. AddOptionGroup mem pm (Some k) c = Some (c \<notin> set (G k), pm')
      \<and> groups_rep pm' (if c \<in> set (G k) then G else G(k := G k @ [c]))"
    using AddOptionGroup_rep [OF assms(1-5)] by metis
  assume "copies_up cpy \<or> c \<notin> set (take (length (G k) - 2) (G k))"
  from RemoveOptionGroup_rep [OF assms(1,6) this]
  show "\<exists>pm'. RemoveOptionGroup cpy pm k c = Some pm' \<and> groups_rep pm' (G(k := remove1 c (G k)))" by metis
qed (rule RemoveAllOptionGroups_rep [OF assms(1)])

definition endless_memory :: memory where
  "endless_memory = \<lparr>grants = (\<lambda>n. True), junk = (\<lambda>i. 7)\<rparr>"

theorem groups_are_lists_witness:
  "\<exists>pm' pm''. AddOptionGroup endless_memory demo_manager (Some [120]) 5 = Some (True, pm')
     \<and> RemoveOptionGroup upward pm' [120] 5 = Some pm'' \<and> groups_rep pm'' (\<lambda>_. [])"
proof -
  have start: "groups_rep demo_manager (\<lambda>_. [])"
    unfolding groups_rep_def by (intro exI [of _ Map.empty]) (simp add: groups_of_def demo_manager_def new_map_rep)
  have "groups_small demo_manager" by (simp add: groups_small_def demo_manager_def)
  from groups_are_lists [OF start this, of endless_memory "[120]" 5 upward] obtain pm' where
    add: "AddOptionGroup endless_memory demo_manager (Some [120]) 5 = Some (True, pm')" "groups_rep pm' ((\<lambda>_. [])([120] := [5]))"
    by (auto simp: endless_memory_def)
  define G :: "wstring \<Rightarrow> u32 list" where "G = (\<lambda>_. [])([120] := [5])"
  have G: "G [120] = [5]" "G([120] := []) = (\<lambda>_. [])" by (simp_all add: G_def fun_eq_iff)
  then obtain pm'' where "RemoveOptionGroup upward pm' [120] 5 = Some pm''" "groups_rep pm'' (G([120] := remove1 5 (G [120])))"
    using RemoveOptionGroup_rep [OF add(2) [folded G_def], of "[120]" upward 5] upward_copies_up by auto
  with add(1) G show ?thesis by auto
qed

end
