(* ===== verification/Duilib_Markup.thy ===== *)
theory Duilib_Markup
  imports Duilib_String
begin

text \<open>
  \<open>CMarkup\<close> and \<open>CMarkupNode\<close> of duilib (\<open>UIMarkup.cpp\<close>), which read the layout of the window: the parser works in the text it
  was given, ends names and values by writing null characters behind them, and links the elements by their indices.
  \<open>None\<close> is an access outside the text or the elements, or a loop that does not end.
\<close>

section \<open>The runtime\<close>

text \<open>
  \<open>CharNext\<close> steps over the first character of a text, \<open>char_width\<close> units; \<open>_istalnum\<close> is documented for ASCII.
\<close>

record xml_env =
  env_mem :: memory
  char_width :: "wstring \<Rightarrow> nat"
  alnum_beyond :: "wchar \<Rightarrow> bool"

definition unit_at :: "wchar list \<Rightarrow> nat \<Rightarrow> wchar option" where
  "unit_at b i = (if i < length b then Some (b ! i) else None)"

definition char_next :: "xml_env \<Rightarrow> wchar list \<Rightarrow> nat \<Rightarrow> nat option" where
  "char_next env b i = do { c \<leftarrow> unit_at b i; Some (if c = 0 then i else i + char_width env (c_str (drop i b))) }"

definition istalnum :: "xml_env \<Rightarrow> wchar \<Rightarrow> bool" where
  "istalnum env c =
     (if c < 128 then 48 \<le> c \<and> c \<le> 57 \<or> 65 \<le> c \<and> c \<le> 90 \<or> 97 \<le> c \<and> c \<le> 122 else alnum_beyond env c)"

section \<open>Skipping\<close>

partial_function (option) skip_whitespace :: "xml_env \<Rightarrow> wchar list \<Rightarrow> nat \<Rightarrow> nat option" where
  "skip_whitespace env b i =
     Option.bind (unit_at b i) (\<lambda>c. if 0 < c \<and> c \<le> 32 then Option.bind (char_next env b i) (skip_whitespace env b) else Some i)"

partial_function (option) skip_identifier :: "xml_env \<Rightarrow> wchar list \<Rightarrow> nat \<Rightarrow> nat option" where
  "skip_identifier env b i =
     Option.bind (unit_at b i) (\<lambda>c.
       if c \<noteq> 0 \<and> (c = 95 \<or> c = 58 \<or> istalnum env c) then Option.bind (char_next env b i) (skip_identifier env b) else Some i)"

text \<open>The loop over a comment or directive, which ends in front of \<open>ch\<close> and \<open>>\<close>.\<close>

partial_function (option) skip_comment :: "xml_env \<Rightarrow> wchar \<Rightarrow> wchar list \<Rightarrow> nat \<Rightarrow> nat option" where
  "skip_comment env ch b i =
     Option.bind (unit_at b i) (\<lambda>c.
       if c = 0 then Some i
       else Option.bind (if c = ch then map_option (\<lambda>d. d = 62) (unit_at b (Suc i)) else Some False) (\<lambda>over.
         if over then Some i else Option.bind (char_next env b i) (skip_comment env ch b)))"

section \<open>Data\<close>

text \<open>A comparison of the text at a place with a literal, unit by unit up to the first difference.\<close>

fun matches_at :: "wchar list \<Rightarrow> nat \<Rightarrow> wstring \<Rightarrow> bool option" where
  "matches_at b i [] = Some True"
| "matches_at b i (w # ws) = do { c \<leftarrow> unit_at b i; if c = w then matches_at b (Suc i) ws else Some False }"

definition meta_chars :: "(wstring \<times> wchar) list" where
  "meta_chars = [(wlit ''amp;'', 38), (wlit ''lt;'', 60), (wlit ''gt;'', 62), (wlit ''quot;'', 34), (wlit ''apos;'', 39)]"

fun find_meta :: "wchar list \<Rightarrow> nat \<Rightarrow> (wstring \<times> wchar) list \<Rightarrow> (wchar \<times> nat) option" where
  "find_meta b i [] = Some (38, 0)"
| "find_meta b i ((name, ch) # metas) = do {
     m \<leftarrow> matches_at b i name;
     if m then Some (ch, length name) else find_meta b i metas }"

definition parse_meta_char :: "wchar list \<Rightarrow> nat \<Rightarrow> nat \<Rightarrow> (wchar list \<times> nat \<times> nat) option" where
  "parse_meta_char b pstrText pstrDest = do {
     (ch, n) \<leftarrow> find_meta b pstrText meta_chars;
     b \<leftarrow> store_unit b pstrDest ch;
     Some (b, pstrText + n, Suc pstrDest) }"

partial_function (option) parse_metas :: "wchar list \<Rightarrow> nat \<Rightarrow> nat \<Rightarrow> (wchar list \<times> nat \<times> nat) option" where
  "parse_metas b pstrText pstrDest =
     Option.bind (unit_at b pstrText) (\<lambda>c.
       if c = 38
       then Option.bind (parse_meta_char b (Suc pstrText) pstrDest) (\<lambda>r. parse_metas (fst r) (fst (snd r)) (snd (snd r)))
       else Some (b, pstrText, pstrDest))"

fun copy_units :: "wchar list \<Rightarrow> nat \<Rightarrow> nat \<Rightarrow> nat \<Rightarrow> wchar list option" where
  "copy_units b src dst 0 = Some b"
| "copy_units b src dst (Suc n) = do { c \<leftarrow> unit_at b src; b \<leftarrow> store_unit b dst c; copy_units b (Suc src) (Suc dst) n }"

partial_function (option) data_loop ::
  "xml_env \<Rightarrow> bool \<Rightarrow> wchar \<Rightarrow> wchar list \<Rightarrow> nat \<Rightarrow> nat \<Rightarrow> (wchar list \<times> nat \<times> nat) option" where
  "data_loop env preserve cEnd b pstrText pstrDest =
     Option.bind (unit_at b pstrText) (\<lambda>c.
       if c = 0 \<or> c = cEnd then Some (b, pstrText, pstrDest)
       else Option.bind (if c = 38 then parse_metas b pstrText pstrDest else Some (b, pstrText, pstrDest)) (\<lambda>r.
         Option.bind (unit_at (fst r) (fst (snd r))) (\<lambda>d.
           if c = 38 \<and> d = cEnd then Some r
           else if d = 32
           then Option.bind (store_unit (fst r) (snd (snd r)) 32) (\<lambda>b.
             Option.bind (if preserve then Some (Suc (fst (snd r))) else skip_whitespace env b (Suc (fst (snd r)))) (\<lambda>i.
               data_loop env preserve cEnd b i (Suc (snd (snd r)))))
           else Option.bind (char_next env (fst r) (fst (snd r))) (\<lambda>j.
             Option.bind (copy_units (fst r) (fst (snd r)) (snd (snd r)) (j - fst (snd r))) (\<lambda>b.
               data_loop env preserve cEnd b j (snd (snd r) + (j - fst (snd r))))))))"

fun fill_blanks :: "wchar list \<Rightarrow> nat \<Rightarrow> nat \<Rightarrow> wchar list option" where
  "fill_blanks b i 0 = Some b"
| "fill_blanks b i (Suc n) = do { b \<leftarrow> store_unit b i 32; fill_blanks b (Suc i) n }"

definition parse_data ::
  "xml_env \<Rightarrow> bool \<Rightarrow> wchar \<Rightarrow> wchar list \<Rightarrow> nat \<Rightarrow> (wchar list \<times> nat \<times> nat) option" where
  "parse_data env preserve cEnd b pstrText = do {
     (b, pstrText, pstrDest) \<leftarrow> data_loop env preserve cEnd b pstrText pstrText;
     b \<leftarrow> fill_blanks b (Suc pstrDest) (pstrText - Suc pstrDest);
     Some (b, pstrText, pstrDest) }"

section \<open>State\<close>

record xml_element =
  iStart :: nat
  iChild :: nat
  iNext :: nat
  iParent :: nat
  iData :: nat

text \<open>A null pointer \<open>m_pstrXML\<close> or \<open>m_pElements\<close> is a list without cells; \<open>m_pElements\<close> has \<open>m_nReservedElements\<close> cells.\<close>

record markup =
  m_pstrXML :: "wchar list"
  m_pElements :: "xml_element list"
  m_nElements :: nat
  m_nReservedElements :: nat
  m_szErrorMsg :: wstring
  m_szErrorXML :: wstring
  m_bPreserveWhitespace :: bool

text \<open>The constructor; it leaves \<open>m_nReservedElements\<close> and the texts of errors unset, which the first load sets.\<close>

definition new_markup :: markup where
  "new_markup = \<lparr>m_pstrXML = [], m_pElements = [], m_nElements = 0, m_nReservedElements = 0, m_szErrorMsg = [], m_szErrorXML = [],
     m_bPreserveWhitespace = True\<rparr>"

definition store_text :: "markup \<Rightarrow> nat \<Rightarrow> wchar \<Rightarrow> markup option" where
  "store_text m i c = map_option (\<lambda>b. m\<lparr>m_pstrXML := b\<rparr>) (store_unit (m_pstrXML m) i c)"

text \<open>\<open>_Failed\<close> copies up to 49 units of the text at the place.\<close>

definition failed :: "markup \<Rightarrow> string \<Rightarrow> nat \<Rightarrow> (bool \<times> nat \<times> markup) option" where
  "failed m pstrError i =
     (let s = drop i (m_pstrXML m)
      in if 0 \<in> set (take 49 s) \<or> 49 \<le> length s
         then Some (False, i, m\<lparr>m_szErrorMsg := wlit pstrError, m_szErrorXML := take 49 (c_str s)\<rparr>)
         else None)"

definition junk_element :: "memory \<Rightarrow> nat \<Rightarrow> xml_element" where
  "junk_element mem k =
     \<lparr>iStart = unat (junk mem (5 * k)), iChild = unat (junk mem (5 * k + 1)), iNext = unat (junk mem (5 * k + 2)),
      iParent = unat (junk mem (5 * k + 3)), iData = unat (junk mem (5 * k + 4))\<rparr>"

definition reserve_element :: "xml_env \<Rightarrow> markup \<Rightarrow> nat \<times> markup" where
  "reserve_element env m =
     (let reserved = (if m_nElements m = 0 then 0 else m_nReservedElements m); size = reserved + (reserved div 2 + 500);
          m = m\<lparr>m_nReservedElements := reserved\<rparr>;
          m = (if m_nElements m \<ge> reserved
               then m\<lparr>m_nReservedElements := size,
                      m_pElements := (if grants (env_mem env) (size * 20)
                        then take size (m_pElements m) @ map (junk_element (env_mem env)) [length (m_pElements m)..<size] else [])\<rparr>
               else m)
      in (m_nElements m, m\<lparr>m_nElements := Suc (m_nElements m)\<rparr>))"

definition set_element :: "nat \<Rightarrow> (xml_element \<Rightarrow> xml_element) \<Rightarrow> markup \<Rightarrow> markup option" where
  "set_element k f m =
     (if k < length (m_pElements m) then Some (m\<lparr>m_pElements := (m_pElements m)[k := f (m_pElements m ! k)]\<rparr>) else None)"

section \<open>Attributes\<close>

text \<open>The value of an attribute from behind its opening quote, and what follows it.\<close>

definition attribute_value :: "xml_env \<Rightarrow> markup \<Rightarrow> nat \<Rightarrow> (bool \<times> nat \<times> markup) option" where
  "attribute_value env m pstrText = do {
     (b, pstrText, pstrDest) \<leftarrow> parse_data env (m_bPreserveWhitespace m) 34 (m_pstrXML m) pstrText;
     c \<leftarrow> unit_at b pstrText;
     if c = 0 then failed (m\<lparr>m_pstrXML := b\<rparr>) ''Error while parsing attribute string'' pstrText
     else do {
       b \<leftarrow> store_unit b pstrDest 0;
       b \<leftarrow> (if pstrText \<noteq> pstrDest then store_unit b pstrText 32 else Some b);
       i \<leftarrow> skip_whitespace env b (Suc pstrText);
       Some (True, i, m\<lparr>m_pstrXML := b\<rparr>) } }"

definition parse_attribute :: "xml_env \<Rightarrow> markup \<Rightarrow> nat \<Rightarrow> (bool \<times> nat \<times> markup) option" where
  "parse_attribute env m pstrText = do {
     pstrIdentifierEnd \<leftarrow> skip_identifier env (m_pstrXML m) pstrText;
     i \<leftarrow> skip_whitespace env (m_pstrXML m) pstrIdentifierEnd;
     c \<leftarrow> unit_at (m_pstrXML m) i;
     if c \<noteq> 61 then failed m ''Error while parsing attributes'' i
     else do {
       m \<leftarrow> store_text m i 32;
       m \<leftarrow> store_text m pstrIdentifierEnd 0;
       i \<leftarrow> skip_whitespace env (m_pstrXML m) (Suc i);
       c \<leftarrow> unit_at (m_pstrXML m) i;
       if c \<noteq> 34 then failed m ''Expected attribute value'' (Suc i) else attribute_value env m (Suc i) } }"

partial_function (option) attribute_loop :: "xml_env \<Rightarrow> markup \<Rightarrow> nat \<Rightarrow> (bool \<times> nat \<times> markup) option" where
  "attribute_loop env m pstrText =
     Option.bind (unit_at (m_pstrXML m) pstrText) (\<lambda>c.
       if c = 0 \<or> c = 62 \<or> c = 47 then Some (True, pstrText, m)
       else Option.bind (parse_attribute env m pstrText) (\<lambda>r.
         if fst r then attribute_loop env (snd (snd r)) (fst (snd r)) else Some r))"

definition parse_attributes :: "xml_env \<Rightarrow> markup \<Rightarrow> nat \<Rightarrow> (bool \<times> nat \<times> markup) option" where
  "parse_attributes env m pstrText = do {
     c \<leftarrow> unit_at (m_pstrXML m) pstrText;
     if c = 62 then Some (True, pstrText, m)
     else do {
       m \<leftarrow> store_text m pstrText 0;
       i \<leftarrow> skip_whitespace env (m_pstrXML m) (Suc pstrText);
       attribute_loop env m i } }"

section \<open>Elements\<close>

definition start_element :: "xml_env \<Rightarrow> markup \<Rightarrow> nat \<Rightarrow> nat \<Rightarrow> nat \<Rightarrow> (nat \<times> markup) option" where
  "start_element env m pstrText parent iPrevious = do {
     let (iPos, m) = reserve_element env m;
     m \<leftarrow> set_element iPos (\<lambda>e. e\<lparr>iStart := pstrText, iParent := parent, iNext := 0, iChild := 0\<rparr>) m;
     m \<leftarrow> (if iPrevious \<noteq> 0 then set_element iPrevious (iNext_update (\<lambda>_. iPos)) m
           else if parent > 0 then set_element parent (iChild_update (\<lambda>_. iPos)) m
           else Some m);
     Some (iPos, m) }"

text \<open>
  The start tag from its name on: it is refused, or is the last one (the text ends, which a root and its children may), or is
  empty, or has content that goes on with \<open><\<close>. With the end of the name, the place, and where the data ends.
\<close>

datatype tag = Refused | Last nat | Empty_Tag nat nat | Content nat nat nat

definition tag_end :: "xml_env \<Rightarrow> markup \<Rightarrow> nat \<Rightarrow> nat \<Rightarrow> nat \<Rightarrow> nat \<Rightarrow> (tag \<times> markup) option" where
  "tag_end env m pstrText pstrNameEnd parent iPos = do {
     i \<leftarrow> skip_whitespace env (m_pstrXML m) pstrText;
     c \<leftarrow> unit_at (m_pstrXML m) i;
     d \<leftarrow> (if c = 47 then unit_at (m_pstrXML m) (Suc i) else Some 0);
     if c = 47 \<and> d = 62
     then do {
       m \<leftarrow> set_element iPos (iData_update (\<lambda>_. i)) m;
       m \<leftarrow> store_text m i 0;
       Some (Empty_Tag pstrNameEnd (i + 2), m) }
     else if c \<noteq> 62 then map_option (\<lambda>(_, _, m). (Refused, m)) (failed m ''Expected start-tag closing'' i)
     else do {
       m \<leftarrow> set_element iPos (iData_update (\<lambda>_. Suc i)) m;
       (b, i, pstrDest) \<leftarrow> parse_data env (m_bPreserveWhitespace m) 60 (m_pstrXML m) (Suc i);
       let m = m\<lparr>m_pstrXML := b\<rparr>;
       c \<leftarrow> unit_at b i;
       if c = 0 \<and> parent \<le> 1 then Some (Last i, m)
       else if c \<noteq> 60 then map_option (\<lambda>(_, _, m). (Refused, m)) (failed m ''Expected end-tag start'' i)
       else Some (Content pstrNameEnd i pstrDest, m) } }"

definition parse_tag :: "xml_env \<Rightarrow> markup \<Rightarrow> nat \<Rightarrow> nat \<Rightarrow> nat \<Rightarrow> (tag \<times> markup) option" where
  "parse_tag env m pstrName parent iPos = do {
     pstrNameEnd \<leftarrow> skip_identifier env (m_pstrXML m) pstrName;
     c \<leftarrow> unit_at (m_pstrXML m) pstrNameEnd;
     if c = 0 then map_option (\<lambda>(_, _, m). (Refused, m)) (failed m ''Error parsing element name'' pstrNameEnd)
     else do {
       (ok, i, m) \<leftarrow> parse_attributes env m pstrNameEnd;
       if ok then tag_end env m i pstrNameEnd parent iPos else Some (Refused, m) } }"

text \<open>\<open>_tcsncmp\<close>, as far as equality goes.\<close>

fun tcsncmp_equal :: "wchar list \<Rightarrow> nat \<Rightarrow> nat \<Rightarrow> nat \<Rightarrow> bool option" where
  "tcsncmp_equal b i j 0 = Some True"
| "tcsncmp_equal b i j (Suc n) = do {
     c \<leftarrow> unit_at b i;
     d \<leftarrow> unit_at b j;
     if c \<noteq> d then Some False else if c = 0 then Some True else tcsncmp_equal b (Suc i) (Suc j) n }"

definition close_tag :: "xml_env \<Rightarrow> markup \<Rightarrow> nat \<Rightarrow> nat \<Rightarrow> nat \<Rightarrow> nat \<Rightarrow> (bool \<times> nat \<times> markup) option" where
  "close_tag env m pstrText pstrDest pstrName pstrNameEnd = do {
     m \<leftarrow> store_text m pstrDest 0;
     m \<leftarrow> store_text m pstrText 0;
     i \<leftarrow> skip_whitespace env (m_pstrXML m) (pstrText + 2);
     let cchName = pstrNameEnd - pstrName;
     same \<leftarrow> tcsncmp_equal (m_pstrXML m) i pstrName cchName;
     if \<not> same then failed m ''Unmatched closing tag'' i
     else do {
       i \<leftarrow> skip_whitespace env (m_pstrXML m) (i + cchName);
       c \<leftarrow> unit_at (m_pstrXML m) i;
       if c \<noteq> 62 then failed m ''Unmatched closing tag'' (Suc i) else Some (True, Suc i, m) } }"

text \<open>The closing tag, when there is one behind the content.\<close>

definition close_if :: "xml_env \<Rightarrow> markup \<Rightarrow> nat \<Rightarrow> nat \<Rightarrow> nat \<Rightarrow> nat \<Rightarrow> (bool \<times> nat \<times> markup) option" where
  "close_if env m pstrText pstrDest pstrName pstrNameEnd = do {
     c \<leftarrow> unit_at (m_pstrXML m) pstrText;
     d \<leftarrow> (if c = 60 then unit_at (m_pstrXML m) (Suc pstrText) else Some 0);
     if c = 60 \<and> d = 47 then close_tag env m pstrText pstrDest pstrName pstrNameEnd else Some (True, pstrText, m) }"

definition end_name :: "xml_env \<Rightarrow> markup \<Rightarrow> nat \<Rightarrow> nat \<Rightarrow> (nat \<times> markup) option" where
  "end_name env m pstrNameEnd pstrText = do {
     m \<leftarrow> store_text m pstrNameEnd 0;
     i \<leftarrow> skip_whitespace env (m_pstrXML m) pstrText;
     Some (i, m) }"

text \<open>The loop of \<open>_Parse\<close> up to an element: it returns, or has skipped a comment or directive, or an element begins.\<close>

datatype head = Returns bool | Directive | Opens

definition parse_head :: "xml_env \<Rightarrow> nat \<Rightarrow> markup \<Rightarrow> nat \<Rightarrow> (head \<times> nat \<times> markup) option" where
  "parse_head env parent m pstrText = do {
     c \<leftarrow> unit_at (m_pstrXML m) pstrText;
     if c = 0 \<and> parent \<le> 1 then Some (Returns True, pstrText, m)
     else do {
       i \<leftarrow> skip_whitespace env (m_pstrXML m) pstrText;
       c \<leftarrow> unit_at (m_pstrXML m) i;
       if c \<noteq> 60 then map_option (\<lambda>(ok, r). (Returns ok, r)) (failed m ''Expected start tag'' i)
       else do {
         d \<leftarrow> unit_at (m_pstrXML m) (Suc i);
         if d = 47 then Some (Returns True, i, m)
         else do {
           m \<leftarrow> store_text m i 0;
           i \<leftarrow> skip_whitespace env (m_pstrXML m) (Suc i);
           ch \<leftarrow> unit_at (m_pstrXML m) i;
           if ch = 33 \<or> ch = 63
           then do {
             i \<leftarrow> skip_comment env (if ch = 33 then 45 else ch) (m_pstrXML m) i;
             c \<leftarrow> unit_at (m_pstrXML m) i;
             i \<leftarrow> skip_whitespace env (m_pstrXML m) (if c \<noteq> 0 then i + 2 else i);
             Some (Directive, i, m) }
           else do {
             i \<leftarrow> skip_whitespace env (m_pstrXML m) i;
             Some (Opens, i, m) } } } } }"

text \<open>
  The loop of \<open>_Parse\<close> over the elements of a parent, with a call of itself for the elements in the content of one. The result
  is what \<open>_Parse\<close> returns, the place, and the state.
\<close>

partial_function (option) parse_loop :: "xml_env \<Rightarrow> nat \<Rightarrow> nat \<Rightarrow> markup \<Rightarrow> nat \<Rightarrow> (bool \<times> nat \<times> markup) option" where
  "parse_loop env parent iPrevious m pstrText =
     Option.bind (parse_head env parent m pstrText) (\<lambda>h. case fst h of
       Returns ok \<Rightarrow> Some (ok, snd h)
     | Directive \<Rightarrow> parse_loop env parent iPrevious (snd (snd h)) (fst (snd h))
     | Opens \<Rightarrow>
         Option.bind (start_element env (snd (snd h)) (fst (snd h)) parent iPrevious) (\<lambda>e.
         Option.bind (parse_tag env (snd e) (fst (snd h)) parent (fst e)) (\<lambda>t. case fst t of
           Refused \<Rightarrow> Some (False, fst (snd h), snd t)
         | Last j \<Rightarrow> Some (True, j, snd t)
         | Empty_Tag pstrNameEnd j \<Rightarrow>
             Option.bind (end_name env (snd t) pstrNameEnd j) (\<lambda>r. parse_loop env parent (fst e) (snd r) (fst r))
         | Content pstrNameEnd j pstrDest \<Rightarrow>
             Option.bind (unit_at (m_pstrXML (snd t)) (Suc j)) (\<lambda>d.
             Option.bind
               (if d \<noteq> 47
                then Option.bind (skip_whitespace env (m_pstrXML (snd t)) j) (\<lambda>j. parse_loop env (fst e) 0 (snd t) j)
                else Some (True, j, snd t))
               (\<lambda>r. if \<not> fst r then Some r
                else Option.bind (close_if env (snd (snd r)) (fst (snd r)) pstrDest (fst (snd h)) pstrNameEnd) (\<lambda>r.
                  if \<not> fst r then Some r
                  else Option.bind (end_name env (snd (snd r)) pstrNameEnd (fst (snd r))) (\<lambda>r.
                    parse_loop env parent (fst e) (snd r) (fst r))))))))"

section \<open>Loading\<close>

definition parse_markup :: "xml_env \<Rightarrow> markup \<Rightarrow> (bool \<times> nat \<times> markup) option" where
  "parse_markup env m = do {
     let m = (snd (reserve_element env m))\<lparr>m_szErrorMsg := [], m_szErrorXML := []\<rparr>;
     i \<leftarrow> skip_whitespace env (m_pstrXML m) 0;
     parse_loop env 0 0 m i }"

text \<open>The statement about \<open>m_nElements\<close> in \<open>Release\<close> has no effect.\<close>

definition Release :: "markup \<Rightarrow> markup" where
  "Release m = m\<lparr>m_pstrXML := [], m_pElements := []\<rparr>"

definition parse_or_release :: "xml_env \<Rightarrow> markup \<Rightarrow> (bool \<times> markup) option" where
  "parse_or_release env m = map_option (\<lambda>(ok, _, m). (ok, if ok then m else Release m)) (parse_markup env m)"

definition Load :: "xml_env \<Rightarrow> markup \<Rightarrow> wstring \<Rightarrow> (bool \<times> markup) option" where
  "Load env m pstrXML = do {
     let m = Release m;
     b \<leftarrow> malloc_units (env_mem env) (Suc (length (c_str pstrXML)));
     b \<leftarrow> tcscpy b (c_str pstrXML);
     parse_or_release env (m\<lparr>m_pstrXML := b\<rparr>) }"

text \<open>The units of a file with a byte order mark: low byte first, or high byte first.\<close>

fun units_of_bytes :: "bool \<Rightarrow> bytes \<Rightarrow> wstring" where
  "units_of_bytes big (x # y # bs) =
     (if big then push_bit 8 (ucast x) OR ucast y else push_bit 8 (ucast y) OR ucast x) # units_of_bytes big bs"
| "units_of_bytes big _ = []"

datatype xml_encoding = UTF8 | UNICODE | ASNI

text \<open>\<open>to_wide\<close> is \<open>MultiByteToWideChar\<close> with the code page UTF-8 (\<open>True\<close>) or the one of the system.\<close>

definition LoadFromMem :: "xml_env \<Rightarrow> (bool \<Rightarrow> bytes \<Rightarrow> wstring) \<Rightarrow> markup \<Rightarrow> bytes \<Rightarrow> xml_encoding \<Rightarrow> (bool \<times> markup) option" where
  "LoadFromMem env to_wide m pByte encoding = do {
     let wide = (case encoding of
         UTF8 \<Rightarrow> Some (to_wide True (if take 3 pByte = [0xEF, 0xBB, 0xBF] then drop 3 pByte else pByte))
       | ASNI \<Rightarrow> Some (to_wide False pByte)
       | UNICODE \<Rightarrow>
           if take 2 pByte = [0xFE, 0xFF] then Some (units_of_bytes True (drop 2 pByte))
           else if take 2 pByte = [0xFF, 0xFE] then Some (units_of_bytes False (drop 2 pByte))
           else None);
     m \<leftarrow> (case wide of
         None \<Rightarrow> Some m
       | Some w \<Rightarrow> do { b \<leftarrow> malloc_units (env_mem env) (Suc (length w)); Some (m\<lparr>m_pstrXML := w @ 0 # drop (Suc (length w)) b\<rparr>) });
     parse_or_release env m }"

section \<open>Nodes\<close>

text \<open>A node of a document: the index of its element and the attributes once they were mapped; \<open>None\<close> is the node without an owner.\<close>

record markup_node =
  m_iPos :: nat
  m_aAttributes :: "(nat \<times> nat) list"

definition node_at :: "nat \<Rightarrow> markup_node option" where
  "node_at iPos = (if iPos = 0 then None else Some \<lparr>m_iPos = iPos, m_aAttributes = []\<rparr>)"

definition GetRoot :: "markup \<Rightarrow> markup_node option" where
  "GetRoot m = (if m_nElements m = 0 then None else node_at 1)"

definition element_at :: "markup \<Rightarrow> nat \<Rightarrow> xml_element option" where
  "element_at m k = (if k < length (m_pElements m) then Some (m_pElements m ! k) else None)"

text \<open>A text of the document, which must end.\<close>

definition text_at :: "markup \<Rightarrow> nat \<Rightarrow> wstring option" where
  "text_at m i = (if 0 \<in> set (drop i (m_pstrXML m)) then Some (c_str (drop i (m_pstrXML m))) else None)"

definition node_link :: "(xml_element \<Rightarrow> nat) \<Rightarrow> markup \<Rightarrow> markup_node option \<Rightarrow> markup_node option option" where
  "node_link link m node =
     (case node of None \<Rightarrow> Some None | Some n \<Rightarrow> map_option (\<lambda>e. node_at (link e)) (element_at m (m_iPos n)))"

definition GetSibling :: "markup \<Rightarrow> markup_node option \<Rightarrow> markup_node option option" where "GetSibling = node_link iNext"
definition GetChild :: "markup \<Rightarrow> markup_node option \<Rightarrow> markup_node option option" where "GetChild = node_link iChild"
definition GetParent :: "markup \<Rightarrow> markup_node option \<Rightarrow> markup_node option option" where "GetParent = node_link iParent"

definition HasSiblings :: "markup \<Rightarrow> markup_node option \<Rightarrow> bool option" where
  "HasSiblings m node = map_option (\<lambda>n. n \<noteq> None) (GetSibling m node)"

definition HasChildren :: "markup \<Rightarrow> markup_node option \<Rightarrow> bool option" where
  "HasChildren m node = map_option (\<lambda>n. n \<noteq> None) (GetChild m node)"

partial_function (option) child_loop :: "markup \<Rightarrow> wstring \<Rightarrow> nat \<Rightarrow> markup_node option option" where
  "child_loop m pstrName iPos =
     (if iPos = 0 then Some None
      else Option.bind (element_at m iPos) (\<lambda>e.
        Option.bind (text_at m (iStart e)) (\<lambda>name.
          if name = pstrName then Some (node_at iPos) else child_loop m pstrName (iNext e))))"

definition GetChild_named :: "markup \<Rightarrow> markup_node option \<Rightarrow> wstring \<Rightarrow> markup_node option option" where
  "GetChild_named m node pstrName =
     (case node of
        None \<Rightarrow> Some None
      | Some n \<Rightarrow> do { e \<leftarrow> element_at m (m_iPos n); child_loop m pstrName (iChild e) })"

definition GetName :: "markup \<Rightarrow> markup_node option \<Rightarrow> wstring option option" where
  "GetName m node =
     (case node of None \<Rightarrow> Some None | Some n \<Rightarrow> do { e \<leftarrow> element_at m (m_iPos n); map_option Some (text_at m (iStart e)) })"

definition GetValue :: "markup \<Rightarrow> markup_node option \<Rightarrow> wstring option option" where
  "GetValue m node =
     (case node of None \<Rightarrow> Some None | Some n \<Rightarrow> do { e \<leftarrow> element_at m (m_iPos n); map_option Some (text_at m (iData e)) })"

definition MAX_XML_ATTRIBUTES :: nat where "MAX_XML_ATTRIBUTES = 64"

partial_function (option) map_attributes ::
  "xml_env \<Rightarrow> wchar list \<Rightarrow> nat \<Rightarrow> nat \<Rightarrow> (nat \<times> nat) list \<Rightarrow> (nat \<times> nat) list option" where
  "map_attributes env b pstr pstrEnd attrs =
     (if pstr \<ge> pstrEnd then Some attrs
      else Option.bind (skip_whitespace env b pstr) (\<lambda>iName.
        Option.bind (tcslen (drop iName b)) (\<lambda>n.
          Option.bind (skip_whitespace env b (iName + n + 1)) (\<lambda>i.
            Option.bind (unit_at b i) (\<lambda>c.
              if c \<noteq> 34 then Some attrs
              else if length attrs + 1 \<ge> MAX_XML_ATTRIBUTES then Some (attrs @ [(iName, Suc i)])
              else Option.bind (tcslen (drop (Suc i) b)) (\<lambda>n.
                map_attributes env b (Suc i + n + 1) pstrEnd (attrs @ [(iName, Suc i)])))))))"

definition MapAttributes :: "xml_env \<Rightarrow> markup \<Rightarrow> markup_node \<Rightarrow> markup_node option" where
  "MapAttributes env m n =
     (if m_aAttributes n \<noteq> [] then Some n
      else do {
        e \<leftarrow> element_at m (m_iPos n);
        len \<leftarrow> tcslen (drop (iStart e) (m_pstrXML m));
        attrs \<leftarrow> map_attributes env (m_pstrXML m) (iStart e + len + 1) (iData e) [];
        Some (n\<lparr>m_aAttributes := attrs\<rparr>) })"

text \<open>
  The functions of attributes map them first when none are known; without an owner they return at once. The node comes back with
  its attributes.
\<close>

definition with_attributes ::
  "xml_env \<Rightarrow> markup \<Rightarrow> 'a \<Rightarrow> (markup_node \<Rightarrow> 'a option) \<Rightarrow> markup_node option \<Rightarrow> ('a \<times> markup_node option) option" where
  "with_attributes env m no_owner f node =
     (case node of None \<Rightarrow> Some (no_owner, None) | Some n \<Rightarrow> do { n \<leftarrow> MapAttributes env m n; r \<leftarrow> f n; Some (r, Some n) })"

definition attribute_text :: "markup \<Rightarrow> (nat \<times> nat \<Rightarrow> nat) \<Rightarrow> int \<Rightarrow> markup_node \<Rightarrow> wstring option option" where
  "attribute_text m place iIndex n =
     (if iIndex < 0 \<or> iIndex \<ge> int (length (m_aAttributes n)) then Some (Some [])
      else map_option Some (text_at m (place (m_aAttributes n ! nat iIndex))))"

definition GetAttributeName :: "xml_env \<Rightarrow> markup \<Rightarrow> int \<Rightarrow> markup_node option \<Rightarrow> (wstring option \<times> markup_node option) option" where
  "GetAttributeName env m iIndex = with_attributes env m None (attribute_text m fst iIndex)"

definition GetAttributeValue :: "xml_env \<Rightarrow> markup \<Rightarrow> int \<Rightarrow> markup_node option \<Rightarrow> (wstring option \<times> markup_node option) option" where
  "GetAttributeValue env m iIndex = with_attributes env m None (attribute_text m snd iIndex)"

text \<open>The search for a name among the attributes; \<open>None\<close> inside is a missing one.\<close>

fun find_attribute :: "markup \<Rightarrow> wstring \<Rightarrow> (nat \<times> nat) list \<Rightarrow> wstring option option" where
  "find_attribute m pstrName [] = Some None"
| "find_attribute m pstrName ((iName, iValue) # attrs) = do {
     name \<leftarrow> text_at m iName;
     if name = pstrName then map_option Some (text_at m iValue) else find_attribute m pstrName attrs }"

definition GetAttributeValue_named ::
  "xml_env \<Rightarrow> markup \<Rightarrow> wstring \<Rightarrow> markup_node option \<Rightarrow> (wstring option \<times> markup_node option) option" where
  "GetAttributeValue_named env m pstrName =
     with_attributes env m None (\<lambda>n. do {
       v \<leftarrow> find_attribute m pstrName (m_aAttributes n);
       Some (Some (case v of None \<Rightarrow> [] | Some v \<Rightarrow> v)) })"

definition HasAttribute :: "xml_env \<Rightarrow> markup \<Rightarrow> wstring \<Rightarrow> markup_node option \<Rightarrow> (bool \<times> markup_node option) option" where
  "HasAttribute env m pstrName =
     with_attributes env m False (\<lambda>n. do { v \<leftarrow> find_attribute m pstrName (m_aAttributes n); Some (v \<noteq> None) })"

definition GetAttributeCount :: "xml_env \<Rightarrow> markup \<Rightarrow> markup_node option \<Rightarrow> (int \<times> markup_node option) option" where
  "GetAttributeCount env m = with_attributes env m 0 (\<lambda>n. Some (int (length (m_aAttributes n))))"

definition HasAttributes :: "xml_env \<Rightarrow> markup \<Rightarrow> markup_node option \<Rightarrow> (bool \<times> markup_node option) option" where
  "HasAttributes env m = with_attributes env m False (\<lambda>n. Some (m_aAttributes n \<noteq> []))"

declare skip_whitespace.simps [code] skip_identifier.simps [code] skip_comment.simps [code] parse_metas.simps [code]
  data_loop.simps [code] attribute_loop.simps [code] parse_loop.simps [code] child_loop.simps [code] map_attributes.simps [code]

end
