(* ===== verification/Duilib_Markup_Text.thy ===== *)
theory Duilib_Markup_Text
  imports Duilib_Markup
begin

text \<open>
  How the parser of layouts goes through the text: skipping, data and attributes stay inside the text, write only between the place
  where they began and the place they have read up to, and leave what was not read as it was loaded.
\<close>

section \<open>The text that was not read\<close>

text \<open>
  What \<open>CharNext\<close> promises: it steps over at least one unit and not over the terminator, and what it steps over behind the first
  unit are combining characters and the second units of surrogate pairs.
\<close>

definition char_next_law :: "xml_env \<Rightarrow> bool" where
  "char_next_law env \<longleftrightarrow>
     (\<forall>s. s \<noteq> [] \<longrightarrow> 1 \<le> char_width env s \<and> char_width env s \<le> length s
       \<and> (\<forall>k. 0 < k \<and> k < char_width env s \<longrightarrow> 0x300 \<le> s ! k))"

text \<open>The buffer \<open>b\<close> from the place \<open>i\<close> on is the loaded text and its terminator.\<close>

definition rest :: "wstring \<Rightarrow> wchar list \<Rightarrow> nat \<Rightarrow> bool" where
  "rest t b i \<longleftrightarrow> 0 \<notin> set t \<and> length b = Suc (length t) \<and> i \<le> length t
     \<and> (\<forall>k. i \<le> k \<and> k \<le> length t \<longrightarrow> b ! k = (t @ [0]) ! k)"

definition goes :: "wstring \<Rightarrow> nat \<Rightarrow> wchar list \<Rightarrow> nat \<Rightarrow> wchar list \<Rightarrow> bool" where
  "goes t i b j b' \<longleftrightarrow> i \<le> j \<and> rest t b' j \<and> (\<forall>k<i. b' ! k = b ! k)"

lemma rest_le: "rest t b i \<Longrightarrow> i \<le> length t" "rest t b i \<Longrightarrow> length b = Suc (length t)"
  by (simp_all add: rest_def)

lemma rest_unit:
  assumes "rest t b i" and "i \<le> k" and "k \<le> length t"
  shows "unit_at b k = Some ((t @ [0]) ! k)"
  using assms by (simp add: unit_at_def rest_def)

lemma unit_inside: "i \<le> length t \<Longrightarrow> (t @ [0]) ! i = c \<Longrightarrow> c \<noteq> 0 \<Longrightarrow> i < length (t :: wstring)"
  by (cases "i = length t") auto

lemma rest_nonzero:
  assumes "rest t b i" and "k \<le> length t"
  shows "(t @ [0]) ! k = 0 \<longleftrightarrow> k = length t"
  using assms by (cases "k = length t") (auto simp: rest_def nth_append in_set_conv_nth)

lemma rest_mono: "rest t b i \<Longrightarrow> i \<le> j \<Longrightarrow> j \<le> length t \<Longrightarrow> rest t b j"
  by (simp add: rest_def)

lemma rest_store:
  assumes "rest t b i" and "k < i"
  shows "store_unit b k c = Some (b[k := c])" and "rest t (b[k := c]) i"
  using assms by (simp_all add: store_unit_def rest_def)

lemma rest_store_here:
  assumes "rest t b i" and "i < length t"
  shows "store_unit b i c = Some (b[i := c])" and "rest t (b[i := c]) (Suc i)"
  using assms by (simp_all add: store_unit_def rest_def)

lemma goes_refl: "rest t b i \<Longrightarrow> goes t i b i b"
  by (simp add: goes_def)

lemma goes_from: "goes t i b j b' \<Longrightarrow> goes t d b' k b'' \<Longrightarrow> i \<le> d \<Longrightarrow> goes t i b k b''"
  by (simp add: goes_def)

lemma goes_trans: "goes t i b j b' \<Longrightarrow> goes t j b' k b'' \<Longrightarrow> goes t i b k b''"
  by (simp add: goes_def)

lemma goes_rest: "goes t i b j b' \<Longrightarrow> rest t b' j" "goes t i b j b' \<Longrightarrow> i \<le> j"
  by (simp_all add: goes_def)

lemma goes_read: "rest t b i \<Longrightarrow> i \<le> j \<Longrightarrow> j \<le> length t \<Longrightarrow> goes t i b j b"
  by (simp add: goes_def rest_mono)

lemma goes_store: "rest t b j \<Longrightarrow> i \<le> k \<Longrightarrow> k < j \<Longrightarrow> goes t i b j (b[k := c])"
  by (simp add: goes_def rest_store)

section \<open>Skipping\<close>

lemma char_next_ok:
  assumes "char_next_law env" and "rest t b i" and "i < length t"
  obtains j where "char_next env b i = Some j" "i < j" "j \<le> length t" "\<And>k. i < k \<Longrightarrow> k < j \<Longrightarrow> 0x300 \<le> t ! k"
proof -
  let ?s = "drop i t"
  have "drop i b = ?s @ [0]" using assms(2) by (intro nth_equalityI) (auto simp: rest_def nth_append)
  then have s: "c_str (drop i b) = ?s" "?s \<noteq> []"
    using assms(2,3) by (auto simp: rest_def intro!: c_str_append dest: in_set_dropD)
  have w: "1 \<le> char_width env ?s" "char_width env ?s \<le> length ?s" "\<And>k. 0 < k \<Longrightarrow> k < char_width env ?s \<Longrightarrow> 0x300 \<le> ?s ! k"
    using assms(1) s(2) unfolding char_next_law_def by blast+
  show ?thesis
  proof (rule that)
    show "char_next env b i = Some (i + char_width env ?s)"
      using rest_unit [OF assms(2) order.refl] rest_nonzero [OF assms(2), of i] assms(3) s by (simp add: char_next_def)
    fix k assume "i < k" "k < i + char_width env ?s"
    then show "0x300 \<le> t ! k" using w(2) w(3) [of "k - i"] assms(3) by simp
  qed (use w(1,2) assms(3) in auto)
qed

text \<open>From \<open>i\<close> to \<open>j\<close> without a \<open>>\<close>.\<close>

definition skips :: "wstring \<Rightarrow> nat \<Rightarrow> nat \<Rightarrow> bool" where
  "skips t i j \<longleftrightarrow> i \<le> j \<and> j \<le> length t \<and> (\<forall>k. i \<le> k \<and> k < j \<longrightarrow> t ! k \<noteq> 62)"

definition ends_with_gt :: "wstring \<Rightarrow> bool" where
  "ends_with_gt t \<longleftrightarrow> t \<noteq> [] \<and> last t = 62"

lemma skips_refl: "i \<le> length t \<Longrightarrow> skips t i i"
  by (auto simp: skips_def)

lemma skips_trans: "skips t i j \<Longrightarrow> skips t j k \<Longrightarrow> skips t i k"
  by (auto simp: skips_def) (metis not_le)

lemma skips_le: "skips t i j \<Longrightarrow> i \<le> j" "skips t i j \<Longrightarrow> j \<le> length t"
  by (simp_all add: skips_def)

lemma skips_inside:
  assumes "skips t i j" and "ends_with_gt t" and "i < length t"
  shows "j < length t"
proof (rule ccontr)
  assume "\<not> j < length t"
  then have "i \<le> length t - 1 \<and> length t - 1 < j" using assms by (auto simp: skips_def)
  then have "t ! (length t - 1) \<noteq> 62" using assms(1) unfolding skips_def by blast
  then show False using assms(2) last_conv_nth [of t] by (auto simp: ends_with_gt_def)
qed

lemma ends_inside:
  assumes "ends_with_gt t" and "i < length t" and "t ! i \<noteq> 62"
  shows "Suc i < length t"
proof (rule ccontr)
  assume "\<not> Suc i < length t"
  then have "i = length t - 1" using assms(2) by simp
  then show False using assms(1,3) last_conv_nth [of t] by (auto simp: ends_with_gt_def)
qed

lemma skips_step:
  assumes "char_next_law env" and "rest t b i" and "i < length t" and "t ! i \<noteq> 62"
  obtains j where "char_next env b i = Some j" "i < j" "skips t i j"
proof -
  obtain j where j: "char_next env b i = Some j" "i < j" "j \<le> length t" "\<And>k. i < k \<Longrightarrow> k < j \<Longrightarrow> 0x300 \<le> t ! k"
    by (rule char_next_ok [OF assms(1-3)]) blast
  have "t ! k \<noteq> 62" if "i \<le> k" "k < j" for k
    using that j(4) [of k] assms(4) by (cases "k = i") (auto simp: word_le_nat_alt)
  then show ?thesis using j by (intro that) (auto simp: skips_def)
qed

lemma skip_whitespace_ok:
  assumes "char_next_law env" and "rest t b i"
  shows "\<exists>j. skip_whitespace env b i = Some j \<and> skips t i j"
  using assms(2)
proof (induction "length t - i" arbitrary: i rule: less_induct)
  case less
  note i = less.prems
  have u: "unit_at b i = Some ((t @ [0]) ! i)" by (rule rest_unit [OF i order.refl rest_le(1) [OF i]])
  show ?case
  proof (cases "0 < (t @ [0]) ! i \<and> (t @ [0]) ! i \<le> 32")
    case True
    then have "i < length t" "t ! i \<noteq> 62"
      using rest_le(1) [OF i] by (auto simp: nth_append word_le_nat_alt word_less_nat_alt split: if_splits)
    then obtain j where j: "char_next env b i = Some j" "i < j" "skips t i j"
      using skips_step [OF assms(1) i] by blast
    moreover have "rest t b j" using rest_mono [OF i, of j] j skips_le(2) by simp
    ultimately obtain k where "skip_whitespace env b j = Some k" "skips t j k"
      using less.hyps [OF diff_less_mono2 [OF j(2) \<open>i < length t\<close>]] by blast
    moreover have "skip_whitespace env b i = Some k" using True u j calculation by (subst skip_whitespace.simps) simp
    ultimately show ?thesis using skips_trans [OF j(3)] by blast
  next
    case False
    then have "skip_whitespace env b i = Some i" using u by (subst skip_whitespace.simps) auto
    then show ?thesis using skips_refl rest_le(1) [OF i] by blast
  qed
qed

lemma skip_identifier_ok:
  assumes "char_next_law env" and "rest t b i"
  shows "\<exists>j. skip_identifier env b i = Some j \<and> skips t i j"
  using assms(2)
proof (induction "length t - i" arbitrary: i rule: less_induct)
  case less
  note i = less.prems
  let ?c = "(t @ [0]) ! i"
  have u: "unit_at b i = Some ?c" by (rule rest_unit [OF i order.refl rest_le(1) [OF i]])
  show ?case
  proof (cases "?c \<noteq> 0 \<and> (?c = 95 \<or> ?c = 58 \<or> istalnum env ?c)")
    case True
    then have "i < length t" "t ! i \<noteq> 62"
      using rest_nonzero [OF i rest_le(1) [OF i]] rest_le(1) [OF i] by (auto simp: nth_append istalnum_def split: if_splits)
    then obtain j where j: "char_next env b i = Some j" "i < j" "skips t i j"
      using skips_step [OF assms(1) i] by blast
    moreover have "rest t b j" using rest_mono [OF i, of j] j skips_le(2) by simp
    ultimately obtain k where "skip_identifier env b j = Some k" "skips t j k"
      using less.hyps [OF diff_less_mono2 [OF j(2) \<open>i < length t\<close>]] by blast
    moreover have "skip_identifier env b i = Some k" using True u j calculation by (subst skip_identifier.simps) simp
    ultimately show ?thesis using skips_trans [OF j(3)] by blast
  next
    case False
    then have "skip_identifier env b i = Some i" using u by (subst skip_identifier.simps) auto
    then show ?thesis using skips_refl rest_le(1) [OF i] by blast
  qed
qed

lemma skip_comment_ok:
  assumes "char_next_law env" and "ch \<noteq> 0" and "rest t b i"
  shows "\<exists>j. skip_comment env ch b i = Some j \<and> i \<le> j \<and> j \<le> length t \<and> (j < length t \<longrightarrow> Suc j < length t)"
  using assms(3)
proof (induction "length t - i" arbitrary: i rule: less_induct)
  case less
  note i = less.prems
  let ?c = "(t @ [0]) ! i"
  have u: "unit_at b i = Some ?c" by (rule rest_unit [OF i order.refl rest_le(1) [OF i]])
  have z: "?c = 0 \<longleftrightarrow> i = length t" by (rule rest_nonzero [OF i rest_le(1) [OF i]])
  have v: "unit_at b (Suc i) = Some ((t @ [0]) ! Suc i)" if "i < length t" by (rule rest_unit [OF i]) (use that in simp_all)
  consider "i = length t" | "i < length t" "?c = ch" "(t @ [0]) ! Suc i = 62" | "i < length t" "?c \<noteq> ch \<or> (t @ [0]) ! Suc i \<noteq> 62"
    using rest_le(1) [OF i] by linarith
  then show ?case
  proof cases
    case 1
    then have "skip_comment env ch b i = Some i" using u z by (subst skip_comment.simps) auto
    then show ?thesis using 1 by auto
  next
    case 2
    then have "Suc i < length t" by (cases "Suc i = length t") (auto simp: nth_append)
    moreover have "skip_comment env ch b i = Some i" using u v z 2 by (subst skip_comment.simps) auto
    ultimately show ?thesis by auto
  next
    case 3
    obtain j where j: "char_next env b i = Some j" "i < j" "j \<le> length t" by (rule char_next_ok [OF assms(1) i 3(1)]) blast
    then have "rest t b j" using rest_mono [OF i, of j] by simp
    then obtain k where k: "skip_comment env ch b j = Some k" "j \<le> k" "k \<le> length t" "k < length t \<longrightarrow> Suc k < length t"
      using less.hyps [OF diff_less_mono2 [OF j(2) 3(1)]] by blast
    moreover have "skip_comment env ch b i = Some k" using u v z 3 j k by (subst skip_comment.simps) auto
    ultimately show ?thesis using j(2) by auto
  qed
qed

section \<open>Data\<close>

text \<open>From the place \<open>i\<close> to \<open>j\<close>, with the data written behind \<open>d\<close>, to \<open>d'\<close>.\<close>

definition moved :: "wstring \<Rightarrow> nat \<Rightarrow> wchar list \<Rightarrow> nat \<Rightarrow> wchar list \<times> nat \<times> nat \<Rightarrow> bool" where
  "moved t d b i r \<longleftrightarrow> i \<le> fst (snd r) \<and> rest t (fst r) (fst (snd r)) \<and> d \<le> snd (snd r) \<and> snd (snd r) \<le> fst (snd r)
     \<and> (\<forall>k<d. fst r ! k = b ! k)"

lemma moved_refl: "rest t b i \<Longrightarrow> d \<le> i \<Longrightarrow> moved t d b i (b, i, d)"
  by (simp add: moved_def)

lemma moved_trans:
  "moved t d b i r \<Longrightarrow> moved t (snd (snd r)) (fst r) (fst (snd r)) r' \<Longrightarrow> moved t d b i r'"
  by (simp add: moved_def)

lemma matches_at_ok:
  assumes "rest t b i" and "i \<le> length t" and "0 \<notin> set ws"
  shows "\<exists>m. matches_at b i ws = Some m \<and> (m \<longrightarrow> i + length ws \<le> length t)"
  using assms
proof (induction ws arbitrary: i)
  case (Cons w ws)
  have u: "unit_at b i = Some ((t @ [0]) ! i)" by (rule rest_unit [OF Cons.prems(1) order.refl Cons.prems(2)])
  show ?case
  proof (cases "(t @ [0]) ! i = w")
    case True
    then have "i < length t" using rest_nonzero [OF Cons.prems(1,2)] Cons.prems by (cases "i = length t") auto
    then show ?thesis using Cons.IH [of "Suc i"] rest_mono [OF Cons.prems(1), of "Suc i"] Cons.prems(3) u True by auto
  next
    case False
    then show ?thesis using u by (intro exI [of _ False]) simp
  qed
qed auto

lemma find_meta_ok:
  assumes "rest t b i" and "\<And>name ch. (name, ch) \<in> set metas \<Longrightarrow> 0 \<notin> set name"
  shows "\<exists>ch n. find_meta b i metas = Some (ch, n) \<and> i + n \<le> length t"
  using assms(2)
proof (induction metas)
  case Nil
  show ?case using rest_le [OF assms(1)] by simp
next
  case (Cons m metas)
  obtain ok where "matches_at b i (fst m) = Some ok" "ok \<longrightarrow> i + length (fst m) \<le> length t"
    using matches_at_ok [OF assms(1) rest_le(1) [OF assms(1)], of "fst m"] Cons.prems [of "fst m" "snd m"] by auto
  then show ?case using Cons by (cases m) auto
qed

lemma meta_chars_names: "(name, ch) \<in> set meta_chars \<Longrightarrow> 0 \<notin> set name"
  by (auto simp: meta_chars_def wlit_def)

lemma parse_meta_char_ok:
  assumes "rest t b i" and "d < i"
  shows "\<exists>r. parse_meta_char b i d = Some r \<and> snd (snd r) = Suc d \<and> moved t d b i r"
proof -
  obtain ch n where m: "find_meta b i meta_chars = Some (ch, n)" "i + n \<le> length t"
    using find_meta_ok [OF assms(1), of meta_chars] meta_chars_names by blast
  then have "rest t (b[d := ch]) (i + n)" using rest_mono [OF rest_store(2) [OF assms]] by simp
  then show ?thesis using m assms rest_store(1) [OF assms] by (simp add: parse_meta_char_def moved_def)
qed

lemma parse_metas_ok:
  assumes "rest t b i" and "d \<le> i"
  shows "\<exists>r. parse_metas b i d = Some r \<and> moved t d b i r \<and> ((t @ [0]) ! i = 38 \<longrightarrow> i < fst (snd r))"
  using assms
proof (induction "length t - i" arbitrary: i b d rule: less_induct)
  case less
  have u: "unit_at b i = Some ((t @ [0]) ! i)" by (rule rest_unit [OF less.prems(1) order.refl rest_le(1) [OF less.prems(1)]])
  show ?case
  proof (cases "(t @ [0]) ! i = 38")
    case True
    then have i: "i < length t" using rest_le(1) [OF less.prems(1)] by (cases "i = length t") auto
    then obtain r where r: "parse_meta_char b (Suc i) d = Some r" "snd (snd r) = Suc d" "moved t d b (Suc i) r"
      using parse_meta_char_ok [of t b "Suc i" d] rest_mono [OF less.prems(1), of "Suc i"] less.prems(2) by auto
    moreover have "length t - fst (snd r) < length t - i" using r(3) i by (auto simp: moved_def)
    ultimately obtain r' where r': "parse_metas (fst r) (fst (snd r)) (snd (snd r)) = Some r'"
        "moved t (snd (snd r)) (fst r) (fst (snd r)) r'"
      using less.hyps [of "fst (snd r)" "fst r" "snd (snd r)"] by (auto simp: moved_def)
    have "parse_metas b i d = Some r'" using u True r r' by (subst parse_metas.simps) simp
    then show ?thesis using moved_trans [OF r(3) r'(2)] by (auto simp: moved_def)
  next
    case False
    then have "parse_metas b i d = Some (b, i, d)" using u by (subst parse_metas.simps) simp
    then show ?thesis using False moved_refl [OF less.prems] by simp
  qed
qed

lemma copy_units_ok:
  assumes "rest t b i" and "d \<le> i" and "i + n \<le> length t"
  shows "\<exists>b'. copy_units b i d n = Some b' \<and> moved t d b i (b', i + n, d + n)"
  using assms
proof (induction n arbitrary: b i d)
  case 0
  then show ?case by (simp add: moved_refl)
next
  case (Suc n)
  let ?c = "(t @ [0]) ! i"
  have "unit_at b i = Some ?c" using rest_unit [OF Suc.prems(1) order.refl rest_le(1) [OF Suc.prems(1)]] .
  moreover have s: "store_unit b d ?c = Some (b[d := ?c])" "rest t (b[d := ?c]) (Suc i)"
    using rest_store [of t b "Suc i" d] rest_mono [OF Suc.prems(1), of "Suc i"] Suc.prems by auto
  moreover obtain b' where "copy_units (b[d := ?c]) (Suc i) (Suc d) n = Some b'"
      "moved t (Suc d) (b[d := ?c]) (Suc i) (b', Suc i + n, Suc d + n)"
    using Suc.IH [OF s(2), of "Suc d"] Suc.prems by auto
  ultimately show ?case by (auto simp: moved_def)
qed

lemma data_loop_ok:
  assumes "char_next_law env" and "cEnd \<noteq> 0" and "rest t b i" and "d \<le> i"
  shows "\<exists>r. data_loop env preserve cEnd b i d = Some r \<and> moved t d b i r
      \<and> (fst (snd r) < length t \<longrightarrow> t ! fst (snd r) = cEnd)"
  using assms(3,4)
proof (induction "length t - i" arbitrary: i b d rule: less_induct)
  case less
  let ?c = "(t @ [0]) ! i"
  have u: "unit_at b i = Some ?c" by (rule rest_unit [OF less.prems(1) order.refl rest_le(1) [OF less.prems(1)]])
  show ?case
  proof (cases "?c = 0 \<or> ?c = cEnd")
    case True
    then have "data_loop env preserve cEnd b i d = Some (b, i, d)" using u by (subst data_loop.simps) auto
    moreover have "i < length t \<longrightarrow> t ! i = cEnd"
      using True rest_nonzero [OF less.prems(1), of i] by (auto simp: nth_append)
    ultimately show ?thesis using moved_refl [OF less.prems] by simp
  next
    case False
    then have i: "i < length t" using rest_nonzero [OF less.prems(1)] rest_le(1) [OF less.prems(1)] by (cases "i = length t") auto
    obtain r where r: "(if ?c = 38 then parse_metas b i d else Some (b, i, d)) = Some r" "moved t d b i r"
        "?c = 38 \<longrightarrow> i < fst (snd r)"
      using parse_metas_ok [OF less.prems] moved_refl [OF less.prems] by (cases "?c = 38") auto
    obtain b1 i1 d1 where r1: "r = (b1, i1, d1)" by (cases r)
    note m = r(2) [unfolded r1]
    have rest1: "rest t b1 i1" and le1: "i \<le> i1" "d1 \<le> i1" "i1 \<le> length t" using m rest_le by (auto simp: moved_def)
    let ?d = "(t @ [0]) ! i1"
    have v: "unit_at b1 i1 = Some ?d" by (rule rest_unit [OF rest1 order.refl le1(3)])
    have again: ?thesis if eq: "data_loop env preserve cEnd b i d = data_loop env preserve cEnd b2 i2 d2"
      and mv: "moved t d b i (b2, i2, d2)" and lt: "i < i2" for b2 i2 d2
    proof -
      obtain r2 where "data_loop env preserve cEnd b2 i2 d2 = Some r2" "moved t d2 b2 i2 r2"
          "fst (snd r2) < length t \<longrightarrow> t ! fst (snd r2) = cEnd"
        using less.hyps [OF diff_less_mono2 [OF lt i], of b2 d2] mv by (auto simp: moved_def)
      then show ?thesis using eq moved_trans [OF mv, of r2] by simp
    qed
    consider "?c = 38" "?d = cEnd" | "\<not> (?c = 38 \<and> ?d = cEnd)" "?d = 32" | "\<not> (?c = 38 \<and> ?d = cEnd)" "?d \<noteq> 32" by blast
    then show ?thesis
    proof cases
      case 1
      then have "data_loop env preserve cEnd b i d = Some r" using u v r r1 False by (subst data_loop.simps) auto
      then show ?thesis using m 1 r1 by (auto simp: nth_append)
    next
      case 2
      then have i1: "i1 < length t" using le1(3) by (cases "i1 = length t") auto
      have s: "store_unit b1 d1 32 = Some (b1[d1 := 32])" "rest t (b1[d1 := 32]) (Suc i1)"
        using rest_store [of t b1 "Suc i1" d1] rest_mono [OF rest1, of "Suc i1"] i1 le1 by auto
      then obtain i2 where i2: "(if preserve then Some (Suc i1) else skip_whitespace env (b1[d1 := 32]) (Suc i1)) = Some i2"
          "Suc i1 \<le> i2" "rest t (b1[d1 := 32]) i2"
        using skip_whitespace_ok [OF assms(1) s(2)] rest_mono [OF s(2)] skips_le by (cases preserve) fastforce+
      have "data_loop env preserve cEnd b i d = data_loop env preserve cEnd (b1[d1 := 32]) i2 (Suc d1)"
        using u v r r1 False 2 s i2(1) by (subst data_loop.simps) (auto split: if_splits)
      then show ?thesis by (rule again) (use m i2 le1 in \<open>auto simp: moved_def\<close>)
    next
      case 3
      show ?thesis
      proof (cases "i1 = length t")
        case True
        then have d0: "?d = 0" by simp
        have "char_next env b1 i1 = Some i1" using v d0 by (simp add: char_next_def)
        then have "data_loop env preserve cEnd b i d = data_loop env preserve cEnd b1 i1 d1"
          using u v r r1 False 3 by (subst data_loop.simps) auto
        then show ?thesis by (rule again) (use m True i in simp_all)
      next
        case False
        then have "i1 < length t" using le1(3) by simp
        then obtain j where j: "char_next env b1 i1 = Some j" "i1 < j" "j \<le> length t"
          by (rule char_next_ok [OF assms(1) rest1]) blast
        obtain b2 where b2: "copy_units b1 i1 d1 (j - i1) = Some b2" "moved t d1 b1 i1 (b2, j, d1 + (j - i1))"
          using copy_units_ok [OF rest1 le1(2), of "j - i1"] j by auto
        have "data_loop env preserve cEnd b i d = data_loop env preserve cEnd b2 j (d1 + (j - i1))"
          using u v r r1 \<open>\<not> (?c = 0 \<or> ?c = cEnd)\<close> 3 j b2(1) by (subst data_loop.simps) auto
        then show ?thesis by (rule again) (use moved_trans [OF m, of "(b2, j, d1 + (j - i1))"] b2(2) j(2) le1 in auto)
      qed
    qed
  qed
qed

lemma fill_blanks_ok:
  assumes "rest t b j" and "i + n \<le> j"
  shows "\<exists>b'. fill_blanks b i n = Some b' \<and> rest t b' j \<and> (\<forall>k<i. b' ! k = b ! k)"
  using assms
proof (induction n arbitrary: b i)
  case (Suc n)
  then have "store_unit b i 32 = Some (b[i := 32])" "rest t (b[i := 32]) j" using rest_store [of t b j i] by simp_all
  then show ?case using Suc.IH [of "b[i := 32]" "Suc i"] Suc.prems(2) by auto
qed simp

lemma parse_data_ok:
  assumes "char_next_law env" and "cEnd \<noteq> 0" and "rest t b i"
  shows "\<exists>b' j d. parse_data env preserve cEnd b i = Some (b', j, d) \<and> goes t i b j b' \<and> i \<le> d \<and> d \<le> j
      \<and> (j < length t \<longrightarrow> t ! j = cEnd)"
proof -
  obtain b1 j d where 1: "data_loop env preserve cEnd b i i = Some (b1, j, d)" "moved t i b i (b1, j, d)"
      "j < length t \<longrightarrow> t ! j = cEnd"
    using data_loop_ok [OF assms order.refl, of preserve] by fastforce
  moreover obtain b2 where "fill_blanks b1 (Suc d) (j - Suc d) = Some b2" "rest t b2 j" "\<forall>k<Suc d. b2 ! k = b1 ! k"
  proof (cases "Suc d \<le> j")
    case True
    then show ?thesis using fill_blanks_ok [of t b1 j "Suc d" "j - Suc d"] 1(2) that by (auto simp: moved_def)
  next
    case False
    then show ?thesis using 1(2) that by (auto simp: moved_def)
  qed
  ultimately show ?thesis by (auto simp: parse_data_def moved_def goes_def)
qed

section \<open>Attributes\<close>

lemma failed_ok:
  assumes "rest t (m_pstrXML m) i"
  shows "\<exists>m'. failed m pstrError i = Some (False, i, m')"
proof -
  let ?s = "drop i (m_pstrXML m)"
  have "0 \<in> set (take 49 ?s)" if "length ?s < 49"
  proof -
    have "?s ! (length t - i) = 0" "length t - i < length ?s" using assms by (auto simp: rest_def)
    then show ?thesis using that by (metis nth_mem order_less_imp_le take_all)
  qed
  then show ?thesis by (cases "length ?s < 49") (auto simp: failed_def Let_def)
qed

text \<open>What a step of the parser leaves: it is refused, or it goes on behind \<open>i\<close> and changed the text only.\<close>

definition steps :: "wstring \<Rightarrow> nat \<Rightarrow> markup \<Rightarrow> (bool \<times> nat \<times> markup) option \<Rightarrow> bool" where
  "steps t i m r \<longleftrightarrow> (\<exists>ok j m'. r = Some (ok, j, m')
     \<and> (ok \<longrightarrow> goes t i (m_pstrXML m) j (m_pstrXML m') \<and> m' = m\<lparr>m_pstrXML := m_pstrXML m'\<rparr>))"

lemma steps_failed: "rest t (m_pstrXML m') j \<Longrightarrow> steps t i m (failed m' pstrError j)"
  using failed_ok [of t m' j pstrError] by (auto simp: steps_def)

lemma steps_trans:
  assumes "goes t i (m_pstrXML m) j b" and "steps t j (m\<lparr>m_pstrXML := b\<rparr>) r"
  shows "steps t i m r"
  using assms goes_trans unfolding steps_def by fastforce

lemma attribute_value_ok:
  assumes "char_next_law env" and "rest t (m_pstrXML m) i"
  shows "steps t i m (attribute_value env m i)"
proof -
  obtain b l d where d: "parse_data env (m_bPreserveWhitespace m) 34 (m_pstrXML m) i = Some (b, l, d)"
      "goes t i (m_pstrXML m) l b" "i \<le> d" "d \<le> l"
    using parse_data_ok [OF assms(1) _ assms(2), of 34 "m_bPreserveWhitespace m"] by auto
  note rl = goes_rest(1) [OF d(2)]
  have ul: "unit_at b l = Some ((t @ [0]) ! l)" by (rule rest_unit [OF rl order.refl rest_le(1) [OF rl]])
  show ?thesis
  proof (cases "l = length t")
    case True
    then show ?thesis using d(1) ul steps_failed [of t "m\<lparr>m_pstrXML := b\<rparr>" l] rl by (simp add: attribute_value_def)
  next
    case False
    then have l: "l < length t" using rest_le(1) [OF rl] by simp
    let ?b = "if l \<noteq> d then b[d := 0, l := 32] else b[d := 0]"
    have s: "store_unit b d 0 = Some (b[d := 0])"
        "(if l \<noteq> d then store_unit (b[d := 0]) l 32 else Some (b[d := 0])) = Some ?b"
      using l d(4) rest_le(2) [OF rl] by (auto simp: store_unit_def)
    have r: "rest t ?b (Suc l)" using rest_mono [OF rl, of "Suc l"] d(4) l by (auto simp: rest_def)
    obtain n where n: "skip_whitespace env ?b (Suc l) = Some n" "Suc l \<le> n" "rest t ?b n"
      using skip_whitespace_ok [OF assms(1) r] skips_le rest_mono [OF r] by blast
    have "attribute_value env m i = Some (True, n, m\<lparr>m_pstrXML := ?b\<rparr>)"
      using d(1) ul False rest_nonzero [OF rl, of l] l s n(1) by (auto simp: attribute_value_def split: if_splits)
    moreover have "goes t i (m_pstrXML m) n ?b" using d(2-4) n by (auto simp: goes_def)
    ultimately show ?thesis by (auto simp: steps_def)
  qed
qed

lemma parse_attribute_ok:
  assumes "char_next_law env" and "ends_with_gt t" and "rest t (m_pstrXML m) i" and "i < length t"
  shows "\<exists>ok j m'. parse_attribute env m i = Some (ok, j, m')
      \<and> (ok \<longrightarrow> i < j \<and> goes t i (m_pstrXML m) j (m_pstrXML m') \<and> m' = m\<lparr>m_pstrXML := m_pstrXML m'\<rparr>)"
proof -
  let ?b = "m_pstrXML m"
  obtain e where e: "skip_identifier env ?b i = Some e" "skips t i e" using skip_identifier_ok [OF assms(1,3)] by blast
  have re: "rest t ?b e" using rest_mono [OF assms(3)] skips_le [OF e(2)] by simp
  obtain j where j: "skip_whitespace env ?b e = Some j" "skips t e j" using skip_whitespace_ok [OF assms(1) re] by blast
  have j_in: "j < length t" and rj: "rest t ?b j"
    using skips_inside [OF skips_trans [OF e(2) j(2)] assms(2,4)] rest_mono [OF re] skips_le [OF j(2)] by simp_all
  have uj: "unit_at ?b j = Some (t ! j)" using rest_unit [OF rj order.refl] j_in by (simp add: nth_append)
  show ?thesis
  proof (cases "t ! j = 61")
    case False
    then show ?thesis using e j uj failed_ok [OF rj, of "''Error while parsing attributes''"] by (auto simp: parse_attribute_def)
  next
    case True
    let ?b2 = "?b[j := 32, e := 0]"
    have r2: "rest t ?b2 (Suc j)"
      using rest_store(2) [of t "?b[j := 32]" "Suc j" e] rest_store_here(2) [OF rj j_in] skips_le [OF j(2)] by simp
    have st: "store_text m j 32 = Some (m\<lparr>m_pstrXML := ?b[j := 32]\<rparr>)"
        "store_text (m\<lparr>m_pstrXML := ?b[j := 32]\<rparr>) e 0 = Some (m\<lparr>m_pstrXML := ?b2\<rparr>)"
      using j_in skips_le [OF j(2)] rest_le(2) [OF rj] by (simp_all add: store_text_def store_unit_def)
    have "Suc j < length t" using ends_inside [OF assms(2) j_in] True by simp
    then obtain k where k: "skip_whitespace env ?b2 (Suc j) = Some k" "Suc j \<le> k" "k < length t"
      using skip_whitespace_ok [OF assms(1) r2] skips_inside [OF _ assms(2)] skips_le by metis
    have rk: "rest t ?b2 k" "rest t ?b2 (Suc k)" using rest_mono [OF r2] k by simp_all
    have uk: "unit_at ?b2 k = Some (t ! k)" using rest_unit [OF rk(1) order.refl] k(3) by (simp add: nth_append)
    have eq: "parse_attribute env m i = (if t ! k \<noteq> 34 then failed (m\<lparr>m_pstrXML := ?b2\<rparr>) ''Expected attribute value'' (Suc k)
        else attribute_value env (m\<lparr>m_pstrXML := ?b2\<rparr>) (Suc k))"
      using e j uj True st k uk by (simp add: parse_attribute_def)
    have g: "goes t i ?b (Suc k) ?b2" "i < Suc k"
      using rk(2) k(2) skips_le(1) [OF e(2)] skips_le(1) [OF j(2)] by (simp_all add: goes_def)
    have "steps t (Suc k) (m\<lparr>m_pstrXML := ?b2\<rparr>) (parse_attribute env m i)"
      using steps_failed [of t "m\<lparr>m_pstrXML := ?b2\<rparr>"] attribute_value_ok [OF assms(1), of t "m\<lparr>m_pstrXML := ?b2\<rparr>"] rk(2)
      by (simp add: eq)
    then show ?thesis using g by (fastforce simp: steps_def goes_def)
  qed
qed

lemma attribute_loop_ok:
  assumes "char_next_law env" and "ends_with_gt t" and "rest t (m_pstrXML m) i"
  shows "steps t i m (attribute_loop env m i)"
  using assms(3)
proof (induction "length t - i" arbitrary: i m rule: less_induct)
  case less
  let ?c = "(t @ [0]) ! i"
  have u: "unit_at (m_pstrXML m) i = Some ?c" by (rule rest_unit [OF less.prems order.refl rest_le(1) [OF less.prems]])
  show ?case
  proof (cases "?c = 0 \<or> ?c = 62 \<or> ?c = 47")
    case True
    then have "attribute_loop env m i = Some (True, i, m)" using u by (subst attribute_loop.simps) auto
    then show ?thesis using goes_refl [OF less.prems] by (auto simp: steps_def)
  next
    case False
    then have i: "i < length t" using rest_nonzero [OF less.prems] rest_le(1) [OF less.prems] by (cases "i = length t") auto
    obtain ok j m' where a: "parse_attribute env m i = Some (ok, j, m')"
        "ok \<longrightarrow> i < j \<and> goes t i (m_pstrXML m) j (m_pstrXML m') \<and> m' = m\<lparr>m_pstrXML := m_pstrXML m'\<rparr>"
      using parse_attribute_ok [OF assms(1,2) less.prems i] by blast
    then have eq: "attribute_loop env m i = (if ok then attribute_loop env m' j else Some (ok, j, m'))"
      using u False by (subst attribute_loop.simps) auto
    show ?thesis
    proof (cases ok)
      case True
      then have "steps t j m' (attribute_loop env m' j)"
        using a(2) less.hyps [of j m'] diff_less_mono2 [of i j "length t"] i goes_rest(1) by blast
      then show ?thesis using a(2) True eq steps_trans [of t i m j "m_pstrXML m'"] by simp
    qed (auto simp: eq steps_def)
  qed
qed

lemma parse_attributes_ok:
  assumes "char_next_law env" and "ends_with_gt t" and "rest t (m_pstrXML m) i" and "i < length t"
  shows "steps t i m (parse_attributes env m i)"
proof (cases "t ! i = 62")
  case True
  then show ?thesis
    using rest_unit [OF assms(3) order.refl] assms(4) goes_refl [OF assms(3)]
    by (auto simp: parse_attributes_def nth_append steps_def)
next
  case False
  let ?m = "m\<lparr>m_pstrXML := (m_pstrXML m)[i := 0]\<rparr>"
  have r: "store_text m i 0 = Some ?m" "rest t (m_pstrXML ?m) (Suc i)"
    using rest_store_here [OF assms(3,4)] by (simp_all add: store_text_def)
  obtain j where j: "skip_whitespace env (m_pstrXML ?m) (Suc i) = Some j" "skips t (Suc i) j"
    using skip_whitespace_ok [OF assms(1) r(2)] by blast
  have rj: "rest t (m_pstrXML ?m) j" using rest_mono [OF r(2)] skips_le [OF j(2)] by simp
  have "parse_attributes env m i = attribute_loop env ?m j"
    using rest_unit [OF assms(3) order.refl] assms(4) False r(1) j(1) by (simp add: parse_attributes_def nth_append)
  moreover have "goes t i (m_pstrXML m) j (m_pstrXML ?m)" using rj skips_le(1) [OF j(2)] by (simp add: goes_def)
  ultimately show ?thesis using attribute_loop_ok [OF assms(1,2) rj] steps_trans by simp
qed

end
