(* ===== verification/Duilib_Markup_Tree.thy ===== *)
theory Duilib_Markup_Tree
  imports Duilib_Markup_Text
begin

text \<open>
  What the parser of layouts makes of a text that ends with \<open>>\<close>: it returns without an access outside its buffer or its
  elements, and the links of the elements are those of a tree, which the functions of the nodes walk through.
\<close>

section \<open>The tree of the elements\<close>

definition first0 :: "nat list \<Rightarrow> nat" where
  "first0 ks = (case ks of [] \<Rightarrow> 0 | k # _ \<Rightarrow> k)"

definition last0 :: "nat list \<Rightarrow> nat" where
  "last0 ks = (if ks = [] then 0 else last ks)"

definition siblings :: "xml_element list \<Rightarrow> nat \<Rightarrow> nat \<Rightarrow> nat \<Rightarrow> nat list" where
  "siblings es p k n = filter (\<lambda>j. iParent (es ! j) = p) [Suc k..<n]"

abbreviation kids :: "xml_element list \<Rightarrow> nat \<Rightarrow> nat \<Rightarrow> nat list" where
  "kids es p n \<equiv> siblings es p 0 n"

text \<open>
  An element points to the first one whose parent it is, and to the next one with its own parent; element 0 is reserved.
\<close>

definition tree :: "xml_element list \<Rightarrow> nat \<Rightarrow> bool" where
  "tree es n \<longleftrightarrow> 0 < n \<and> n \<le> length es \<and> (\<forall>k. 0 < k \<and> k < n \<longrightarrow> iParent (es ! k) < k
     \<and> iChild (es ! k) = first0 (kids es k n) \<and> iNext (es ! k) = first0 (siblings es (iParent (es ! k)) k n))"

lemma siblings_Suc: "k < n \<Longrightarrow> siblings es p k (Suc n) = siblings es p k n @ (if iParent (es ! n) = p then [n] else [])"
  by (simp add: siblings_def)

lemma siblings_cong: "(\<And>j. k < j \<Longrightarrow> j < n \<Longrightarrow> iParent (es' ! j) = iParent (es ! j)) \<Longrightarrow> siblings es' p k n = siblings es p k n"
  by (auto simp: siblings_def intro: filter_cong)

lemma siblings_zero: "0 \<notin> set (siblings es p k n)"
  by (auto simp: siblings_def)

lemma siblings_none: "tree es n \<Longrightarrow> n \<le> k \<Longrightarrow> kids es k n = []"
proof -
  assume "tree es n" "n \<le> k"
  then have "iParent (es ! j) \<noteq> k" if "0 < j" "j < n" for j using that unfolding tree_def by (metis not_le order.strict_trans)
  then show ?thesis by (simp add: siblings_def filter_empty_conv)
qed

lemma siblings_last:
  assumes "0 < k" and "k < n"
  shows "siblings es (iParent (es ! k)) k n = [] \<longleftrightarrow> last0 (kids es (iParent (es ! k)) n) = k"
proof -
  have "[Suc 0..<n] = [Suc 0..<k] @ k # [Suc k..<n]"
    using assms by (metis One_nat_def Suc_leI le_add_diff_inverse less_imp_le_nat upt_add_eq_append upt_conv_Cons)
  then have eq: "kids es (iParent (es ! k)) n = filter (\<lambda>j. iParent (es ! j) = iParent (es ! k)) [Suc 0..<k] @ k # siblings es (iParent (es ! k)) k n"
    by (simp add: siblings_def)
  show ?thesis
  proof (cases "siblings es (iParent (es ! k)) k n = []")
    case False
    then have "k < last (siblings es (iParent (es ! k)) k n)" using last_in_set [OF False] by (auto simp: siblings_def)
    then show ?thesis using False by (simp add: eq last0_def)
  qed (simp add: eq last0_def)
qed

lemma first0_append: "0 \<notin> set ks \<Longrightarrow> first0 (ks @ ls) = (if ks = [] then first0 ls else first0 ks)"
  by (cases ks) (simp_all add: first0_def)

text \<open>The elements \<open>es'\<close> are \<open>es\<close> with a new one, whose parent is \<open>p\<close>, and the links to it.\<close>

definition linked :: "xml_element list \<Rightarrow> nat \<Rightarrow> nat \<Rightarrow> nat \<Rightarrow> xml_element list \<Rightarrow> bool" where
  "linked es n p previous es' \<longleftrightarrow> n < length es'
     \<and> iParent (es' ! n) = p \<and> iChild (es' ! n) = 0 \<and> iNext (es' ! n) = 0
     \<and> (\<forall>k<n. iParent (es' ! k) = iParent (es ! k)
          \<and> (0 < k \<longrightarrow> iChild (es' ! k) = (if previous = 0 \<and> k = p then n else iChild (es ! k))
                \<and> iNext (es' ! k) = (if k = previous then n else iNext (es ! k))))"

lemma linked_tree:
  assumes "tree es n" and "p < n" and "linked es n p (last0 (kids es p n)) es'"
  shows "tree es' (Suc n)" and "kids es' q (Suc n) = kids es q n @ (if q = p then [n] else [])"
proof -
  have sib: "siblings es' q k (Suc n) = siblings es q k n @ (if q = p then [n] else [])" if "k < n" for q k
    using siblings_Suc [OF that, of es' q] siblings_cong [of k n es' es q] assms(3) by (auto simp: linked_def)
  show "kids es' q (Suc n) = kids es q n @ (if q = p then [n] else [])"
    using sib [of 0 q] assms(1) by (simp add: tree_def)
  have "iParent (es' ! k) < k \<and> iChild (es' ! k) = first0 (kids es' k (Suc n))
      \<and> iNext (es' ! k) = first0 (siblings es' (iParent (es' ! k)) k (Suc n))" if "0 < k" "k < Suc n" for k
  proof (cases "k = n")
    case True
    then show ?thesis using assms sib [of 0 n] siblings_none [OF assms(1) order.refl] that
      by (simp add: linked_def first0_def siblings_def [of _ _ n])
  next
    case False
    then have k: "0 < k" "k < n" using that by simp_all
    then have old: "iParent (es ! k) < k" "iChild (es ! k) = first0 (kids es k n)"
        "iNext (es ! k) = first0 (siblings es (iParent (es ! k)) k n)"
      using assms(1) by (auto simp: tree_def)
    let ?previous = "last0 (kids es p n)"
    have new: "iParent (es' ! k) = iParent (es ! k)"
        "iChild (es' ! k) = (if ?previous = 0 \<and> k = p then n else iChild (es ! k))"
        "iNext (es' ! k) = (if k = ?previous then n else iNext (es ! k))"
      using assms(3) k by (auto simp: linked_def)
    have "?previous = 0 \<longleftrightarrow> kids es p n = []"
      using siblings_zero [of es p 0 n] by (auto simp: last0_def) (metis last_in_set neq0_conv)
    then have "iChild (es' ! k) = first0 (kids es' k (Suc n))"
      using sib [of 0 k] k by (simp add: new(2) old(2) first0_append siblings_zero) (simp add: first0_def)
    moreover have "k = ?previous \<longleftrightarrow> iParent (es ! k) = p \<and> siblings es p k n = []"
    proof (cases "iParent (es ! k) = p")
      case True
      then show ?thesis using siblings_last [OF k, of es] by auto
    next
      case False
      then have "k \<notin> set (kids es p n)" by (simp add: siblings_def)
      then show ?thesis using False k last_in_set [of "kids es p n"] by (auto simp: last0_def)
    qed
    then have "iNext (es' ! k) = first0 (siblings es' (iParent (es' ! k)) k (Suc n))"
      using sib [of k "iParent (es ! k)"] k by (simp add: new(1,3) old(3) first0_append siblings_zero) (auto simp: first0_def)
    ultimately show ?thesis using new(1) old(1) by simp
  qed
  then show "tree es' (Suc n)" using assms(3) by (auto simp: tree_def linked_def)
qed

definition planted :: "wstring \<Rightarrow> markup \<Rightarrow> bool" where
  "planted t m \<longleftrightarrow> length (m_pElements m) = m_nReservedElements m \<and> tree (m_pElements m) (m_nElements m)
     \<and> (\<forall>k. 0 < k \<and> k < m_nElements m \<longrightarrow> iStart (m_pElements m ! k) \<le> length t \<and> iData (m_pElements m ! k) \<le> length t)"

lemma planted_text: "planted t (m\<lparr>m_pstrXML := b\<rparr>) = planted t m"
  by (simp add: planted_def)

definition grants_all :: "xml_env \<Rightarrow> bool" where
  "grants_all env \<longleftrightarrow> (\<forall>n. grants (env_mem env) n)"

lemma last0_less: "0 < n \<Longrightarrow> last0 (kids es p n) < n"
  using last_in_set [of "kids es p n"] by (auto simp: last0_def siblings_def)

lemma start_element_ok:
  assumes "grants_all env" and "planted t m" and "p < m_nElements m" and "i \<le> length t"
    and "previous = last0 (kids (m_pElements m) p (m_nElements m))"
  shows "\<exists>m'. start_element env m i p previous = Some (m_nElements m, m') \<and> m_pstrXML m' = m_pstrXML m
      \<and> m_nElements m' = Suc (m_nElements m) \<and> length (m_pElements m') = m_nReservedElements m'
      \<and> linked (m_pElements m) (m_nElements m) p previous (m_pElements m')
      \<and> (\<forall>k. 0 < k \<and> k < m_nElements m \<longrightarrow> iStart (m_pElements m' ! k) \<le> length t \<and> iData (m_pElements m' ! k) \<le> length t)
      \<and> iStart (m_pElements m' ! m_nElements m) \<le> length t"
proof -
  let ?n = "m_nElements m"
  obtain m1 where m1: "reserve_element env m = (?n, m1)" "m_pstrXML m1 = m_pstrXML m" "m_nElements m1 = Suc ?n"
      "?n < length (m_pElements m1)" "length (m_pElements m1) = m_nReservedElements m1" "\<forall>k<?n. m_pElements m1 ! k = m_pElements m ! k"
    using assms(1-3) by (auto simp: reserve_element_def Let_def grants_all_def planted_def tree_def nth_append)
  let ?e = "(m_pElements m1 ! ?n)\<lparr>iStart := i, iParent := p, iNext := 0, iChild := 0\<rparr>"
  have previous: "previous < ?n" using assms(2,5) last0_less by (simp add: planted_def tree_def)
  show ?thesis
    using m1 assms(2-4) previous
    by (auto simp: start_element_def set_element_def linked_def planted_def nth_list_update)
qed

section \<open>The steps of the loop\<close>

lemma parse_head_ok:
  assumes "char_next_law env" and "rest t (m_pstrXML m) i"
  shows "\<exists>h j m'. parse_head env p m i = Some (h, j, m')
      \<and> (h \<noteq> Returns False \<longrightarrow> goes t i (m_pstrXML m) j (m_pstrXML m') \<and> m' = m\<lparr>m_pstrXML := m_pstrXML m'\<rparr>)
      \<and> (h = Directive \<or> h = Opens \<longrightarrow> i < j)"
proof (cases "(t @ [0]) ! i = 0 \<and> p \<le> 1")
  case True
  then show ?thesis using rest_unit [OF assms(2) order.refl rest_le(1) [OF assms(2)]] goes_refl [OF assms(2)]
    by (simp add: parse_head_def)
next
  case False
  have u: "unit_at (m_pstrXML m) i = Some ((t @ [0]) ! i)" by (rule rest_unit [OF assms(2) order.refl rest_le(1) [OF assms(2)]])
  obtain j where j: "skip_whitespace env (m_pstrXML m) i = Some j" "skips t i j" using skip_whitespace_ok [OF assms] by blast
  have rj: "rest t (m_pstrXML m) j" using rest_mono [OF assms(2)] skips_le [OF j(2)] by simp
  have uj: "unit_at (m_pstrXML m) j = Some ((t @ [0]) ! j)" by (rule rest_unit [OF rj order.refl rest_le(1) [OF rj]])
  show ?thesis
  proof (cases "(t @ [0]) ! j = 60")
    case False
    then show ?thesis using u \<open>\<not> ((t @ [0]) ! i = 0 \<and> p \<le> 1)\<close> j uj failed_ok [OF rj, of "''Expected start tag''"]
      by (auto simp: parse_head_def)
  next
    case True
    then have j_in: "j < length t" using rest_le(1) [OF rj] by (cases "j = length t") auto
    have uj1: "unit_at (m_pstrXML m) (Suc j) = Some ((t @ [0]) ! Suc j)" using rest_unit [OF rj] j_in by simp
    note head = u False j(1) uj True uj1
    let ?m = "m\<lparr>m_pstrXML := (m_pstrXML m)[j := 0]\<rparr>"
    have st: "store_text m j 0 = Some ?m" "rest t (m_pstrXML ?m) (Suc j)"
      using rest_store_here [OF rj j_in] by (simp_all add: store_text_def)
    obtain k where k: "skip_whitespace env (m_pstrXML ?m) (Suc j) = Some k" "skips t (Suc j) k"
      using skip_whitespace_ok [OF assms(1) st(2)] by blast
    have rk: "rest t (m_pstrXML ?m) k" using rest_mono [OF st(2)] skips_le [OF k(2)] by simp
    let ?ch = "(t @ [0]) ! k"
    have uk: "unit_at (m_pstrXML ?m) k = Some ?ch" by (rule rest_unit [OF rk order.refl rest_le(1) [OF rk]])
    have on: "goes t i (m_pstrXML m) l (m_pstrXML ?m)" "i < l" if "k \<le> l" "l \<le> length t" for l
      using rest_mono [OF rk that] that skips_le(1) [OF j(2)] skips_le(1) [OF k(2)] by (simp_all add: goes_def)
    consider "(t @ [0]) ! Suc j = 47" | "(t @ [0]) ! Suc j \<noteq> 47" "?ch = 33 \<or> ?ch = 63" | "(t @ [0]) ! Suc j \<noteq> 47" "?ch \<noteq> 33" "?ch \<noteq> 63"
      by blast
    then show ?thesis
    proof cases
      case 1
      then have "parse_head env p m i = Some (Returns True, j, m)" using head by (auto simp: parse_head_def)
      then show ?thesis using goes_read [OF assms(2) skips_le [OF j(2)]] by simp
    next
      case 2
      obtain l where l: "skip_comment env (if ?ch = 33 then 45 else ?ch) (m_pstrXML ?m) k = Some l" "k \<le> l" "l \<le> length t"
          "l < length t \<longrightarrow> Suc l < length t"
        using skip_comment_ok [OF assms(1) _ rk, of "if ?ch = 33 then 45 else ?ch"] 2(2) by auto
      let ?l = "if (t @ [0]) ! l \<noteq> 0 then l + 2 else l"
      have l': "l \<le> ?l" "?l \<le> length t" using l(3,4) rest_nonzero [OF rk l(3)] by auto
      have ul: "unit_at (m_pstrXML ?m) l = Some ((t @ [0]) ! l)" by (rule rest_unit [OF rk l(2,3)])
      obtain n where n: "skip_whitespace env (m_pstrXML ?m) ?l = Some n" "skips t ?l n"
        using skip_whitespace_ok [OF assms(1) rest_mono [OF rk _ l'(2)]] l(2) l'(1) by fastforce
      have "parse_head env p m i = Some (Directive, n, ?m)"
        using head 2 st(1) k(1) uk l(1) ul n(1) by (simp add: parse_head_def)
      moreover have "k \<le> n" "n \<le> length t" using l(2) l'(1) skips_le [OF n(2)] by simp_all
      ultimately show ?thesis using on [of n] by simp
    next
      case 3
      obtain n where n: "skip_whitespace env (m_pstrXML ?m) k = Some n" "skips t k n" using skip_whitespace_ok [OF assms(1) rk] by blast
      have "parse_head env p m i = Some (Opens, n, ?m)" using head 3 st(1) k(1) uk n(1) by (simp add: parse_head_def)
      then show ?thesis using on [of n] skips_le [OF n(2)] by simp
    qed
  qed
qed

text \<open>What the start tag of the element \<open>k\<close> leaves: the place where its data ends is noted, and its name is still there.\<close>

definition tagged :: "wstring \<Rightarrow> nat \<Rightarrow> nat \<Rightarrow> markup \<Rightarrow> tag \<Rightarrow> markup \<Rightarrow> bool" where
  "tagged t i k m tag m' \<longleftrightarrow>
     (\<exists>x b. x \<le> length t \<and> m' = m\<lparr>m_pElements := (m_pElements m)[k := (m_pElements m ! k)\<lparr>iData := x\<rparr>], m_pstrXML := b\<rparr>)
     \<and> (case tag of
          Refused \<Rightarrow> False
        | Last j \<Rightarrow> goes t i (m_pstrXML m) j (m_pstrXML m')
        | Empty_Tag ne j \<Rightarrow> i \<le> ne \<and> ne < j \<and> goes t i (m_pstrXML m) j (m_pstrXML m')
        | Content ne j d \<Rightarrow> skips t i ne \<and> ne < d \<and> d \<le> j \<and> j < length t \<and> t ! j = 60
            \<and> goes t i (m_pstrXML m) j (m_pstrXML m') \<and> (\<forall>l. i \<le> l \<and> l < ne \<longrightarrow> m_pstrXML m' ! l = t ! l))"

definition ended :: "wstring \<Rightarrow> nat \<Rightarrow> nat \<Rightarrow> nat \<Rightarrow> markup \<Rightarrow> tag \<Rightarrow> markup \<Rightarrow> bool" where
  "ended t i e k m tag m' \<longleftrightarrow>
     (\<exists>x b. x \<le> length t \<and> m' = m\<lparr>m_pElements := (m_pElements m)[k := (m_pElements m ! k)\<lparr>iData := x\<rparr>], m_pstrXML := b\<rparr>)
     \<and> (case tag of
          Refused \<Rightarrow> False
        | Last j \<Rightarrow> goes t i (m_pstrXML m) j (m_pstrXML m')
        | Empty_Tag ne j \<Rightarrow> ne = e \<and> e < j \<and> goes t i (m_pstrXML m) j (m_pstrXML m')
        | Content ne j d \<Rightarrow> ne = e \<and> e < d \<and> d \<le> j \<and> j < length t \<and> t ! j = 60 \<and> goes t i (m_pstrXML m) j (m_pstrXML m'))"

lemma tag_end_ok:
  assumes "char_next_law env" and "rest t (m_pstrXML m) i" and "e \<le> i" and "k < length (m_pElements m)"
  shows "\<exists>tag m'. tag_end env m i e p k = Some (tag, m') \<and> (tag \<noteq> Refused \<longrightarrow> ended t i e k m tag m')"
proof -
  let ?b = "m_pstrXML m"
  obtain j where j: "skip_whitespace env ?b i = Some j" "skips t i j" using skip_whitespace_ok [OF assms(1,2)] by blast
  have rj: "rest t ?b j" using rest_mono [OF assms(2)] skips_le [OF j(2)] by simp
  let ?c = "(t @ [0]) ! j"
  have uj: "unit_at ?b j = Some ?c" by (rule rest_unit [OF rj order.refl rest_le(1) [OF rj]])
  have in_text: "j < length t" if "?c = 47 \<or> ?c = 62" using that rest_le(1) [OF rj] by (cases "j = length t") auto
  have uj1: "unit_at ?b (Suc j) = Some ((t @ [0]) ! Suc j)" if "?c = 47" using rest_unit [OF rj, of "Suc j"] in_text that by simp
  note tag_def = tag_end_def set_element_def Let_def
  consider "?c = 47" "(t @ [0]) ! Suc j = 62" | "?c = 62" | "?c \<noteq> 62" "\<not> (?c = 47 \<and> (t @ [0]) ! Suc j = 62)" by blast
  then show ?thesis
  proof cases
    case 1
    have "Suc j < length t" by (rule unit_inside [OF _ 1(2)]) (use in_text 1 in simp_all)
    then have r2: "rest t (?b[j := 0]) (j + 2)" using rest_store(2) [OF rest_mono [OF rj, of "j + 2"]] by simp
    have st: "store_unit ?b j 0 = Some (?b[j := 0])" using rest_store_here(1) [OF rj] in_text 1 by simp
    let ?m = "m\<lparr>m_pElements := (m_pElements m)[k := (m_pElements m ! k)\<lparr>iData := j\<rparr>], m_pstrXML := ?b[j := 0]\<rparr>"
    have "tag_end env m i e p k = Some (Empty_Tag e (j + 2), ?m)"
      using st j(1) uj uj1 1 assms(4) by (simp add: tag_def store_text_def)
    moreover have "goes t i ?b (j + 2) (?b[j := 0])" using r2 skips_le [OF j(2)] by (simp add: goes_def)
    then have "ended t i e k m (Empty_Tag e (j + 2)) ?m"
      unfolding ended_def using skips_le [OF j(2)] assms(3) by (intro conjI exI [of _ j] exI [of _ "?b[j := 0]"]) simp_all
    ultimately show ?thesis by blast
  next
    case 2
    let ?m = "m\<lparr>m_pElements := (m_pElements m)[k := (m_pElements m ! k)\<lparr>iData := Suc j\<rparr>]\<rparr>"
    have r: "rest t ?b (Suc j)" using rest_mono [OF rj, of "Suc j"] in_text 2 by simp
    obtain b l d where d: "parse_data env (m_bPreserveWhitespace m) 60 ?b (Suc j) = Some (b, l, d)" "goes t (Suc j) ?b l b"
        "Suc j \<le> d" "d \<le> l" "l < length t \<longrightarrow> t ! l = 60"
      using parse_data_ok [OF assms(1) _ r, of 60 "m_bPreserveWhitespace m"] by auto
    note rl = goes_rest(1) [OF d(2)]
    have ul: "unit_at b l = Some ((t @ [0]) ! l)" by (rule rest_unit [OF rl order.refl rest_le(1) [OF rl]])
    have g: "goes t i ?b l b" using d(2) skips_le [OF j(2)] by (auto simp: goes_def)
    have eq: "tag_end env m i e p k =
        (if (t @ [0]) ! l = 0 \<and> p \<le> 1 then Some (Last l, ?m\<lparr>m_pstrXML := b\<rparr>)
         else if (t @ [0]) ! l \<noteq> 60
         then map_option (\<lambda>(_, _, m). (Refused, m)) (failed (?m\<lparr>m_pstrXML := b\<rparr>) ''Expected end-tag start'' l)
         else Some (Content e l d, ?m\<lparr>m_pstrXML := b\<rparr>))"
      using j(1) uj 2 assms(4) d(1) ul by (simp add: tag_def)
    obtain m' where f: "failed (?m\<lparr>m_pstrXML := b\<rparr>) ''Expected end-tag start'' l = Some (False, l, m')"
      using failed_ok [of t "?m\<lparr>m_pstrXML := b\<rparr>" l] rl by auto
    let ?m' = "?m\<lparr>m_pstrXML := b\<rparr>"
    have x: "\<exists>x b. x \<le> length t
        \<and> ?m' = m\<lparr>m_pElements := (m_pElements m)[k := (m_pElements m ! k)\<lparr>iData := x\<rparr>], m_pstrXML := b\<rparr>"
      using in_text 2 by (intro exI [of _ "Suc j"] exI [of _ b]) simp
    have last_tag: "ended t i e k m (Last l) ?m'" unfolding ended_def using x g by simp
    have content: "ended t i e k m (Content e l d) ?m'" if c: "(t @ [0]) ! l = 60"
    proof -
      have "l < length t" by (rule unit_inside [OF rest_le(1) [OF rl] c]) simp
      then show ?thesis unfolding ended_def using x g d(3-5) assms(3) skips_le(1) [OF j(2)] by simp
    qed
    show ?thesis using last_tag content by (simp add: eq f)
  next
    case 3
    then show ?thesis using j(1) uj uj1 failed_ok [OF rj, of "''Expected start-tag closing''"] by (auto simp: tag_def)
  qed
qed

lemma parse_tag_ok:
  assumes "char_next_law env" and "ends_with_gt t" and "rest t (m_pstrXML m) i" and "k < length (m_pElements m)"
  shows "\<exists>tag m'. parse_tag env m i p k = Some (tag, m') \<and> (tag \<noteq> Refused \<longrightarrow> tagged t i k m tag m')"
proof -
  obtain e where e: "skip_identifier env (m_pstrXML m) i = Some e" "skips t i e" using skip_identifier_ok [OF assms(1,3)] by blast
  have re: "rest t (m_pstrXML m) e" using rest_mono [OF assms(3)] skips_le [OF e(2)] by simp
  have ue: "unit_at (m_pstrXML m) e = Some ((t @ [0]) ! e)" by (rule rest_unit [OF re order.refl rest_le(1) [OF re]])
  show ?thesis
  proof (cases "e = length t")
    case True
    then show ?thesis using e(1) ue failed_ok [OF re, of "''Error parsing element name''"] by (auto simp: parse_tag_def)
  next
    case False
    then have e_in: "e < length t" "(t @ [0]) ! e \<noteq> 0" using rest_le(1) [OF re] rest_nonzero [OF re] by simp_all
    obtain ok j m1 where a: "parse_attributes env m e = Some (ok, j, m1)"
        "ok \<longrightarrow> goes t e (m_pstrXML m) j (m_pstrXML m1) \<and> m1 = m\<lparr>m_pstrXML := m_pstrXML m1\<rparr>"
      using parse_attributes_ok [OF assms(1,2) re e_in(1)] unfolding steps_def by blast
    show ?thesis
    proof (cases ok)
      case False
      then show ?thesis using e(1) ue e_in a by (auto simp: parse_tag_def)
    next
      case True
      let ?es = "m_pElements m1"
      have eq: "parse_tag env m i p k = tag_end env m1 j e p k" using e(1) ue e_in a(1) True by (simp add: parse_tag_def)
      have m1: "goes t e (m_pstrXML m) j (m_pstrXML m1)" "m1 = m\<lparr>m_pstrXML := m_pstrXML m1\<rparr>" using a(2) True by simp_all
      then have es: "?es = m_pElements m" by (metis markup.select_convs(2) markup.surjective markup.update_convs(1))
      obtain tag m' where t: "tag_end env m1 j e p k = Some (tag, m')" and ok': "tag \<noteq> Refused \<longrightarrow> ended t j e k m1 tag m'"
        using tag_end_ok [OF assms(1) goes_rest [OF m1(1)], of k p] assms(4) es by auto
      have "tagged t i k m tag m'" if nr: "tag \<noteq> Refused"
      proof -
        obtain x b where x: "x \<le> length t" "m' = m1\<lparr>m_pElements := ?es[k := (?es ! k)\<lparr>iData := x\<rparr>], m_pstrXML := b\<rparr>"
          using ok' nr unfolding ended_def by blast
        have "m' = m\<lparr>m_pElements := (m_pElements m)[k := (m_pElements m ! k)\<lparr>iData := x\<rparr>], m_pstrXML := b\<rparr>"
          unfolding x(2) es by (subst m1(2)) simp
        then have "\<exists>x b. x \<le> length t \<and> m' = m\<lparr>m_pElements := (m_pElements m)[k := (m_pElements m ! k)\<lparr>iData := x\<rparr>], m_pstrXML := b\<rparr>"
          using x(1) by blast
        moreover have "goes t i (m_pstrXML m) l (m_pstrXML m')" "\<forall>k. i \<le> k \<and> k < e \<longrightarrow> m_pstrXML m' ! k = t ! k"
          if "goes t j (m_pstrXML m1) l (m_pstrXML m')" for l
        proof -
          have g: "goes t e (m_pstrXML m) l (m_pstrXML m')" using goes_trans [OF m1(1) that] .
          then show "goes t i (m_pstrXML m) l (m_pstrXML m')" using skips_le(1) [OF e(2)] by (simp add: goes_def)
          have "m_pstrXML m ! k = t ! k" if "i \<le> k" "k < e" for k
            using assms(3) that e_in by (simp add: rest_def nth_append)
          then show "\<forall>k. i \<le> k \<and> k < e \<longrightarrow> m_pstrXML m' ! k = t ! k" using g by (simp add: goes_def)
        qed
        ultimately show ?thesis using ok' nr e(2) skips_le(1) [OF e(2)]
          unfolding tagged_def ended_def by (cases tag) (simp_all, blast)
      qed
      then show ?thesis using eq t by auto
    qed
  qed
qed

lemma tcsncmp_ok:
  assumes "rest t b i" and "\<And>l. j \<le> l \<Longrightarrow> l < j + n \<Longrightarrow> b ! l \<noteq> 0 \<and> b ! l \<noteq> 62" and "j + n \<le> length b"
  shows "\<exists>same. tcsncmp_equal b i j n = Some same \<and> (same \<longrightarrow> skips t i (i + n))"
  using assms
proof (induction n arbitrary: i j)
  case 0
  then show ?case using rest_le(1) skips_refl by auto
next
  case (Suc n)
  note ri = Suc.prems(1)
  have ui: "unit_at b i = Some ((t @ [0]) ! i)" by (rule rest_unit [OF ri order.refl rest_le(1) [OF ri]])
  have uj: "unit_at b j = Some (b ! j)" "b ! j \<noteq> 0" "b ! j \<noteq> 62" using Suc.prems(2) [of j] Suc.prems(3) by (simp_all add: unit_at_def)
  show ?case
  proof (cases "(t @ [0]) ! i = b ! j")
    case True
    then have i: "i < length t" using unit_inside [OF rest_le(1) [OF ri]] uj(2) by blast
    then have "rest t b (Suc i)" using rest_mono [OF ri, of "Suc i"] by simp
    then obtain same where same: "tcsncmp_equal b (Suc i) (Suc j) n = Some same" "same \<longrightarrow> skips t (Suc i) (Suc i + n)"
      using Suc.IH [of "Suc i" "Suc j"] Suc.prems(2,3) by fastforce
    have "skips t i (Suc i)" using i True uj(3) by (auto simp: skips_def nth_append le_less_Suc_eq)
    then show ?thesis using ui uj True same skips_trans [of t i "Suc i"] by auto
  next
    case False
    then show ?thesis using ui uj by (intro exI [of _ False]) simp
  qed
qed

lemma close_tag_ok:
  assumes "char_next_law env" and "ends_with_gt t" and "rest t (m_pstrXML m) i" and "d \<le> i" and "e < d"
    and "skips t s e" and names: "\<And>l. s \<le> l \<Longrightarrow> l < e \<Longrightarrow> m_pstrXML m ! l = t ! l"
    and here: "(t @ [0]) ! i = 60" "(t @ [0]) ! Suc i = 47"
  shows "steps t d m (close_tag env m i d s e)"
proof -
  have i: "i < length t" using unit_inside [OF rest_le(1) [OF assms(3)] here(1)] by simp
  then have "Suc i < length t" using unit_inside [OF _ here(2)] by simp
  then have i2: "Suc (Suc i) < length t" using ends_inside [OF assms(2)] here(2) by (simp add: nth_append)
  let ?b = "(m_pstrXML m)[d := 0, i := 0]"
  let ?m = "m\<lparr>m_pstrXML := ?b\<rparr>"
  have st: "store_text m d 0 = Some (m\<lparr>m_pstrXML := (m_pstrXML m)[d := 0]\<rparr>)"
      "store_text (m\<lparr>m_pstrXML := (m_pstrXML m)[d := 0]\<rparr>) i 0 = Some ?m"
    using i assms(4) rest_le(2) [OF assms(3)] by (simp_all add: store_text_def store_unit_def)
  have r2: "rest t ?b (i + 2)" using rest_mono [OF assms(3), of "i + 2"] i2 assms(4) by (simp add: rest_def)
  obtain j where j: "skip_whitespace env ?b (i + 2) = Some j" "skips t (i + 2) j" using skip_whitespace_ok [OF assms(1) r2] by blast
  have j_in: "j < length t" using skips_inside [OF j(2) assms(2)] i2 by simp
  have rj: "rest t ?b j" using rest_mono [OF r2] skips_le [OF j(2)] by simp
  have "?b ! l \<noteq> 0 \<and> ?b ! l \<noteq> 62" if "s \<le> l" "l < s + (e - s)" for l
  proof -
    have l: "l < e" "l < length t" "l \<noteq> d" "l \<noteq> i" using that skips_le [OF assms(6)] assms(4,5) by simp_all
    then have "?b ! l = t ! l" using names [OF that(1) l(1)] by simp
    moreover have "t ! l \<noteq> 62" using assms(6) that(1) l(1) by (simp add: skips_def)
    moreover have "t ! l \<noteq> 0" using l(2) assms(3) by (metis nth_mem rest_def)
    ultimately show ?thesis by simp
  qed
  then obtain same where same: "tcsncmp_equal ?b j s (e - s) = Some same" "same \<longrightarrow> skips t j (j + (e - s))"
    using tcsncmp_ok [OF rj, of s "e - s"] skips_le [OF assms(6)] rest_le(2) [OF rj] by auto
  have eq: "close_tag env m i d s e = (if \<not> same then failed ?m ''Unmatched closing tag'' j
      else Option.bind (skip_whitespace env ?b (j + (e - s))) (\<lambda>i. Option.bind (unit_at ?b i) (\<lambda>c.
        if c \<noteq> 62 then failed ?m ''Unmatched closing tag'' (Suc i) else Some (True, Suc i, ?m))))"
    using st j(1) same(1) by (simp add: close_tag_def)
  show ?thesis
  proof (cases same)
    case False
    then show ?thesis using eq steps_failed [of t ?m j] rj by simp
  next
    case True
    then have past: "skips t j (j + (e - s))" using same(2) by simp
    obtain k where k: "skip_whitespace env ?b (j + (e - s)) = Some k" "skips t (j + (e - s)) k"
      using skip_whitespace_ok [OF assms(1) rest_mono [OF rj skips_le [OF past]]] by blast
    have k_in: "k < length t" using skips_inside [OF skips_trans [OF past k(2)] assms(2) j_in] .
    have le: "j \<le> k" "i + 2 \<le> j" using skips_le [OF past] skips_le [OF k(2)] skips_le [OF j(2)] by simp_all
    then have rk: "rest t ?b k" "rest t ?b (Suc k)" using rest_mono [OF rj] k_in by simp_all
    have uk: "unit_at ?b k = Some (t ! k)" using rest_unit [OF rk(1) order.refl] k_in by (simp add: nth_append)
    have "goes t d (m_pstrXML m) (Suc k) ?b" using rk(2) le assms(4) by (simp add: goes_def)
    then show ?thesis using eq True k(1) uk steps_failed [of t ?m "Suc k"] rk(2) by (auto simp: steps_def)
  qed
qed

text \<open>The end of an element with content: its closing tag, if there is one, and the end of its name.\<close>

lemma close_ok:
  assumes "char_next_law env" and "ends_with_gt t" and "rest t (m_pstrXML m) i" and "d \<le> i" and "e < d"
    and "skips t s e" and names: "\<And>l. s \<le> l \<Longrightarrow> l < e \<Longrightarrow> m_pstrXML m ! l = t ! l"
  shows "steps t d m (close_if env m i d s e)"
proof (cases "(t @ [0]) ! i = 60")
  case False
  then have "close_if env m i d s e = Some (True, i, m)"
    using rest_unit [OF assms(3) order.refl rest_le(1) [OF assms(3)]] by (simp add: close_if_def)
  then show ?thesis using assms(3,4) by (auto simp: steps_def goes_def)
next
  case True
  then have i: "i < length t" using unit_inside [OF rest_le(1) [OF assms(3)] True] by simp
  have u: "unit_at (m_pstrXML m) i = Some 60" "unit_at (m_pstrXML m) (Suc i) = Some ((t @ [0]) ! Suc i)"
    using rest_unit [OF assms(3) order.refl] rest_unit [OF assms(3), of "Suc i"] i True by simp_all
  show ?thesis
  proof (cases "(t @ [0]) ! Suc i = 47")
    case True
    then show ?thesis using u close_tag_ok [OF assms \<open>(t @ [0]) ! i = 60\<close> True] by (simp add: close_if_def)
  next
    case False
    then have "close_if env m i d s e = Some (True, i, m)" using u by (simp add: close_if_def)
    then show ?thesis using assms(3,4) by (auto simp: steps_def goes_def)
  qed
qed

lemma end_name_ok:
  assumes "char_next_law env" and "rest t (m_pstrXML m) i" and "e < i"
  shows "\<exists>j b. end_name env m e i = Some (j, m\<lparr>m_pstrXML := b\<rparr>) \<and> goes t e (m_pstrXML m) j b \<and> i \<le> j"
proof -
  let ?b = "(m_pstrXML m)[e := 0]"
  have st: "store_text m e 0 = Some (m\<lparr>m_pstrXML := ?b\<rparr>)" "rest t ?b i"
    using rest_store [OF assms(2,3)] by (simp_all add: store_text_def)
  obtain j where j: "skip_whitespace env ?b i = Some j" "skips t i j" using skip_whitespace_ok [OF assms(1) st(2)] by blast
  have "end_name env m e i = Some (j, m\<lparr>m_pstrXML := ?b\<rparr>)" using st(1) j(1) by (simp add: end_name_def)
  moreover have "goes t e (m_pstrXML m) j ?b"
    using rest_mono [OF st(2) skips_le [OF j(2)]] skips_le(1) [OF j(2)] assms(3) by (simp add: goes_def)
  ultimately show ?thesis using skips_le(1) [OF j(2)] by blast
qed

section \<open>The loop\<close>

lemma tree_data:
  "tree (es[k := (es ! k)\<lparr>iData := x\<rparr>]) n = tree es n"
  "siblings (es[k := (es ! k)\<lparr>iData := x\<rparr>]) p l n = siblings es p l n"
proof -
  let ?es = "es[k := (es ! k)\<lparr>iData := x\<rparr>]"
  have links: "iParent (?es ! j) = iParent (es ! j)" "iChild (?es ! j) = iChild (es ! j)" "iNext (?es ! j) = iNext (es ! j)" for j
  proof -
    have eq: "?es ! j = (if j = k \<and> k < length es then (es ! k)\<lparr>iData := x\<rparr> else es ! j)"
      by (cases "k < length es") (auto simp: list_update_beyond)
    show "iParent (?es ! j) = iParent (es ! j)" "iChild (?es ! j) = iChild (es ! j)" "iNext (?es ! j) = iNext (es ! j)"
      unfolding eq by simp_all
  qed
  show sib: "siblings ?es p l n = siblings es p l n" for p l n by (simp add: siblings_def links)
  show "tree ?es n = tree es n" by (simp add: tree_def links sib)
qed

text \<open>What the loop over the elements of \<open>p\<close> adds to the elements: children of \<open>p\<close> and of new elements only.\<close>

definition grown :: "wstring \<Rightarrow> nat \<Rightarrow> markup \<Rightarrow> markup \<Rightarrow> bool" where
  "grown t p m m' \<longleftrightarrow> planted t m' \<and> m_nElements m \<le> m_nElements m'
     \<and> (\<forall>q<m_nElements m. q \<noteq> p \<longrightarrow> kids (m_pElements m') q (m_nElements m') = kids (m_pElements m) q (m_nElements m))"

definition looped :: "wstring \<Rightarrow> nat \<Rightarrow> nat \<Rightarrow> markup \<Rightarrow> (bool \<times> nat \<times> markup) option \<Rightarrow> bool" where
  "looped t i p m r \<longleftrightarrow> (\<exists>ok j m'. r = Some (ok, j, m')
     \<and> (ok \<longrightarrow> goes t i (m_pstrXML m) j (m_pstrXML m') \<and> grown t p m m'))"

lemma grown_refl: "planted t m \<Longrightarrow> grown t p m m"
  by (simp add: grown_def)

lemma grown_trans: "grown t p m m' \<Longrightarrow> grown t p m' m'' \<Longrightarrow> grown t p m m''"
  by (simp add: grown_def)

lemma grown_text: "grown t p m m' \<Longrightarrow> grown t p m (m'\<lparr>m_pstrXML := b\<rparr>)"
  by (simp add: grown_def planted_text)

lemma looped_trans:
  assumes "goes t i (m_pstrXML m) j (m_pstrXML m')" and "grown t p m m'" and "looped t j p m' r"
  shows "looped t i p m r"
  using assms goes_trans grown_trans unfolding looped_def by fast

text \<open>The first steps of an element: it is linked, and its start tag is read.\<close>

lemma element_ok:
  assumes "char_next_law env" and "ends_with_gt t" and "grants_all env" and "rest t (m_pstrXML m) i" and "planted t m"
    and "p < m_nElements m" and previous: "previous = last0 (kids (m_pElements m) p (m_nElements m))"
  shows "\<exists>m1 tag m2. start_element env m i p previous = Some (m_nElements m, m1)
      \<and> parse_tag env m1 i p (m_nElements m) = Some (tag, m2)
      \<and> (tag \<noteq> Refused \<longrightarrow> planted t m2 \<and> m_nElements m2 = Suc (m_nElements m)
          \<and> (\<forall>q. kids (m_pElements m2) q (Suc (m_nElements m)) = kids (m_pElements m) q (m_nElements m) @ (if q = p then [m_nElements m] else []))
          \<and> m_pstrXML m1 = m_pstrXML m \<and> tagged t i (m_nElements m) m1 tag m2)"
proof -
  let ?n = "m_nElements m"
  obtain m1 where m1: "start_element env m i p previous = Some (?n, m1)" "m_pstrXML m1 = m_pstrXML m" "m_nElements m1 = Suc ?n"
      "length (m_pElements m1) = m_nReservedElements m1" "linked (m_pElements m) ?n p previous (m_pElements m1)"
      "\<forall>k. 0 < k \<and> k < ?n \<longrightarrow> iStart (m_pElements m1 ! k) \<le> length t \<and> iData (m_pElements m1 ! k) \<le> length t"
      "iStart (m_pElements m1 ! ?n) \<le> length t"
    using start_element_ok [OF assms(3,5,6) rest_le(1) [OF assms(4)] previous] by blast
  have n: "?n < length (m_pElements m1)" using m1(5) by (simp add: linked_def)
  have tree: "tree (m_pElements m) ?n" using assms(5) by (simp add: planted_def)
  obtain tag m2 where t: "parse_tag env m1 i p ?n = Some (tag, m2)" "tag \<noteq> Refused \<longrightarrow> tagged t i ?n m1 tag m2"
    using parse_tag_ok [OF assms(1,2) _ n] assms(4) m1(2) by metis
  have "planted t m2 \<and> m_nElements m2 = Suc ?n
      \<and> (\<forall>q. kids (m_pElements m2) q (Suc ?n) = kids (m_pElements m) q ?n @ (if q = p then [?n] else []))" if nr: "tag \<noteq> Refused"
  proof -
    obtain x b where x: "x \<le> length t"
        and m2: "m2 = m1\<lparr>m_pElements := (m_pElements m1)[?n := (m_pElements m1 ! ?n)\<lparr>iData := x\<rparr>], m_pstrXML := b\<rparr>"
      using t(2) nr unfolding tagged_def by blast
    note added = linked_tree [OF tree assms(6) m1(5) [unfolded previous]]
    have "planted t m2" using m1(3,4,6,7) x n added(1) unfolding m2 planted_def by (simp add: tree_data nth_list_update less_Suc_eq)
    then show ?thesis using m1(3) added(2) by (simp add: m2 tree_data)
  qed
  then show ?thesis using m1(1,2) t by blast
qed

lemma content_ok:
  assumes "char_next_law env" and "ends_with_gt t" and "looped t j q m r" and "d \<le> j" and "ne < d"
    and "skips t i ne" and names: "\<forall>l. i \<le> l \<and> l < ne \<longrightarrow> m_pstrXML m ! l = t ! l"
  shows "\<exists>ok l m3. r = Some (ok, l, m3) \<and> (ok \<longrightarrow>
      (\<exists>ok' l' m4. close_if env m3 l d i ne = Some (ok', l', m4) \<and> (ok' \<longrightarrow>
        (\<exists>l'' b. end_name env m4 ne l' = Some (l'', m3\<lparr>m_pstrXML := b\<rparr>)
          \<and> goes t i (m_pstrXML m) l'' b \<and> ne < l'' \<and> grown t q m m3))))"
proof -
  obtain ok l m3 where r: "r = Some (ok, l, m3)" "ok \<longrightarrow> goes t j (m_pstrXML m) l (m_pstrXML m3) \<and> grown t q m m3"
    using assms(3) unfolding looped_def by blast
  show ?thesis
  proof (cases ok)
    case True
    then have g3: "goes t j (m_pstrXML m) l (m_pstrXML m3)" and grown: "grown t q m m3" using r(2) by simp_all
    have ne: "i \<le> ne" "d \<le> l" using skips_le [OF assms(6)] goes_rest(2) [OF g3] assms(4) by simp_all
    have "m_pstrXML m3 ! k = t ! k" if "i \<le> k" "k < ne" for k
      using g3 names that assms(4,5) by (simp add: goes_def)
    then have "steps t d m3 (close_if env m3 l d i ne)"
      using close_ok [OF assms(1,2) goes_rest(1) [OF g3] ne(2) assms(5,6)] by blast
    then obtain ok' l' m4 where c: "close_if env m3 l d i ne = Some (ok', l', m4)"
        "ok' \<longrightarrow> goes t d (m_pstrXML m3) l' (m_pstrXML m4) \<and> m4 = m3\<lparr>m_pstrXML := m_pstrXML m4\<rparr>"
      unfolding steps_def by blast
    have "\<exists>l'' b. end_name env m4 ne l' = Some (l'', m3\<lparr>m_pstrXML := b\<rparr>)
        \<and> goes t i (m_pstrXML m) l'' b \<and> ne < l'' \<and> grown t q m m3" if ok'
    proof -
      obtain b4 where g4: "goes t d (m_pstrXML m3) l' (m_pstrXML m4)" and m4: "m4 = m3\<lparr>m_pstrXML := b4\<rparr>" using c(2) \<open>ok'\<close> by blast
      have l': "ne < l'" using goes_rest(2) [OF g4] assms(5) by simp
      obtain l'' b where e: "end_name env m4 ne l' = Some (l'', m4\<lparr>m_pstrXML := b\<rparr>)" "goes t ne (m_pstrXML m4) l'' b" "l' \<le> l''"
        using end_name_ok [OF assms(1) goes_rest(1) [OF g4] l'] by blast
      have "end_name env m4 ne l' = Some (l'', m3\<lparr>m_pstrXML := b\<rparr>)" unfolding e(1) by (simp add: m4)
      moreover have "goes t i (m_pstrXML m) l'' b" using g3 g4 e(2) ne assms(4,5) by (simp add: goes_def)
      moreover have "ne < l''" using e(3) l' by simp
      ultimately show ?thesis using grown by (intro exI [of _ l''] exI [of _ b]) simp
    qed
    then show ?thesis using r(1) c(1) by simp
  qed (use r(1) in auto)
qed

lemma last0_append1: "last0 (ks @ [k]) = k"
  by (simp add: last0_def)

lemma looped_from:
  assumes "goes t i (m_pstrXML m) j (m_pstrXML m')" and "grown t p m m'" and "looped t d p m' r" and "i \<le> d"
  shows "looped t i p m r"
  using assms(2-4) goes_from [OF assms(1)] grown_trans unfolding looped_def by fast

text \<open>
  The rest of the loop from the content of an element on, when the loop is right about all places behind \<open>i\<close>: the elements in
  the content, the closing tag, and the elements that follow. The elements \<open>m0\<close> are those before the element \<open>n\<close>.
\<close>

lemma content_loop_ok:
  assumes law: "char_next_law env" and ends: "ends_with_gt t"
    and again: "\<And>j q m'. i \<le> j \<Longrightarrow> rest t (m_pstrXML m') j \<Longrightarrow> planted t m' \<Longrightarrow> q < m_nElements m' \<Longrightarrow>
      looped t j q m' (parse_loop env q (last0 (kids (m_pElements m') q (m_nElements m'))) m' j)"
    and m: "planted t m" "m_nElements m = Suc n" "last0 (kids (m_pElements m) p (Suc n)) = n" "kids (m_pElements m) n (Suc n) = []"
    and "p < n" and rj: "rest t (m_pstrXML m) j" and c: "skips t i ne" "ne < d" "d \<le> j" "j < length t"
    and names: "\<forall>l. i \<le> l \<and> l < ne \<longrightarrow> m_pstrXML m ! l = t ! l"
    and base: "m_pstrXML m0 = m_pstrXML m" "m_nElements m0 = n"
      "\<And>q. q < n \<Longrightarrow> q \<noteq> p \<Longrightarrow> kids (m_pElements m) q (Suc n) = kids (m_pElements m0) q n"
  shows "looped t i p m0 (Option.bind (unit_at (m_pstrXML m) (Suc j)) (\<lambda>d'.
      Option.bind (if d' \<noteq> 47 then Option.bind (skip_whitespace env (m_pstrXML m) j) (\<lambda>j. parse_loop env n 0 m j)
          else Some (True, j, m))
        (\<lambda>r. if \<not> fst r then Some r
         else Option.bind (close_if env (snd (snd r)) (fst (snd r)) d i ne) (\<lambda>r. if \<not> fst r then Some r
           else Option.bind (end_name env (snd (snd r)) ne (fst (snd r))) (\<lambda>r. parse_loop env p n (snd r) (fst r))))))"
    (is "looped t i p m0 ?rest")
proof -
  have uj: "unit_at (m_pstrXML m) (Suc j) = Some ((t @ [0]) ! Suc j)" using rest_unit [OF rj] c(4) by simp
  obtain k where k: "skip_whitespace env (m_pstrXML m) j = Some k" "skips t j k" using skip_whitespace_ok [OF law rj] by blast
  have ij: "i \<le> j" using skips_le [OF c(1)] c(2,3) by simp
  let ?r = "if (t @ [0]) ! Suc j \<noteq> 47 then parse_loop env n 0 m k else Some (True, j, m)"
  have gk: "goes t j (m_pstrXML m) k (m_pstrXML m)" using goes_read [OF rj] skips_le [OF k(2)] by simp
  have "looped t k n m (parse_loop env n 0 m k)"
    using again [of k m n] goes_rest(1) [OF gk] skips_le [OF k(2)] ij m by (simp add: last0_def)
  then have "looped t j n m ?r"
    using looped_trans [OF gk grown_refl [OF m(1)]] goes_refl [OF rj] grown_refl [OF m(1)] by (auto simp: looped_def)
  from content_ok [OF law ends this c(3,2,1) names]
  obtain ok l m3 where inner: "?r = Some (ok, l, m3)" and close: "ok \<longrightarrow>
      (\<exists>ok' l' m4. close_if env m3 l d i ne = Some (ok', l', m4) \<and> (ok' \<longrightarrow>
        (\<exists>l'' b. end_name env m4 ne l' = Some (l'', m3\<lparr>m_pstrXML := b\<rparr>)
          \<and> goes t i (m_pstrXML m) l'' b \<and> ne < l'' \<and> grown t n m m3)))" by blast
  have eq: "?rest = (if \<not> ok then Some (ok, l, m3)
      else Option.bind (close_if env m3 l d i ne) (\<lambda>r. if \<not> fst r then Some r
        else Option.bind (end_name env (snd (snd r)) ne (fst (snd r))) (\<lambda>r. parse_loop env p n (snd r) (fst r))))"
    using uj k(1) inner by (simp split: if_splits)
  show ?thesis
  proof (cases ok)
    case True
    then obtain ok' l' m4 where close': "close_if env m3 l d i ne = Some (ok', l', m4)" "ok' \<longrightarrow>
        (\<exists>l'' b. end_name env m4 ne l' = Some (l'', m3\<lparr>m_pstrXML := b\<rparr>)
          \<and> goes t i (m_pstrXML m) l'' b \<and> ne < l'' \<and> grown t n m m3)" using close by blast
    show ?thesis
    proof (cases ok')
      case True
      then obtain l'' b where e: "end_name env m4 ne l' = Some (l'', m3\<lparr>m_pstrXML := b\<rparr>)"
          "goes t i (m_pstrXML m) l'' b" "grown t n m m3" using close'(2) by blast
      let ?m = "m3\<lparr>m_pstrXML := b\<rparr>"
      have m3: "planted t m3" "Suc n \<le> m_nElements m3" "last0 (kids (m_pElements m3) p (m_nElements m3)) = n"
        using e(3) m(2,3) \<open>p < n\<close> by (auto simp: grown_def)
      then have "looped t l'' p ?m (parse_loop env p n ?m l'')"
        using again [of l'' ?m p] goes_rest [OF e(2)] \<open>p < n\<close> by (simp add: planted_text)
      moreover have "goes t i (m_pstrXML m0) l'' b" using e(2) by (simp add: base(1))
      moreover have "grown t p m0 ?m" using e(3) m(2) base(2,3) m3(1,2) by (simp add: grown_def planted_text)
      ultimately show ?thesis using looped_trans [of t i m0 l'' ?m p] eq \<open>ok\<close> close'(1) True e(1) by simp
    qed (use eq \<open>ok\<close> close'(1) in \<open>auto simp: looped_def\<close>)
  qed (use eq in \<open>auto simp: looped_def\<close>)
qed

text \<open>The rest of the loop from an element on.\<close>

lemma element_loop_ok:
  assumes law: "char_next_law env" and ends: "ends_with_gt t" and grants: "grants_all env"
    and again: "\<And>j q m'. i \<le> j \<Longrightarrow> rest t (m_pstrXML m') j \<Longrightarrow> planted t m' \<Longrightarrow> q < m_nElements m' \<Longrightarrow>
      looped t j q m' (parse_loop env q (last0 (kids (m_pElements m') q (m_nElements m'))) m' j)"
    and r: "rest t (m_pstrXML m) i" and pl: "planted t m" and p: "p < m_nElements m"
    and head: "parse_head env p m' j = Some (Opens, i, m)"
  shows "looped t i p m (parse_loop env p (last0 (kids (m_pElements m) p (m_nElements m))) m' j)"
proof -
  let ?n = "m_nElements m"
  let ?last = "last0 (kids (m_pElements m) p ?n)"
  obtain m1 tag m2 where e: "start_element env m i p ?last = Some (?n, m1)" "parse_tag env m1 i p ?n = Some (tag, m2)"
      "tag \<noteq> Refused \<longrightarrow> planted t m2 \<and> m_nElements m2 = Suc ?n
        \<and> (\<forall>q. kids (m_pElements m2) q (Suc ?n) = kids (m_pElements m) q ?n @ (if q = p then [?n] else []))
        \<and> m_pstrXML m1 = m_pstrXML m \<and> tagged t i ?n m1 tag m2"
    using element_ok [OF law ends grants r pl p refl] by blast
  note eq = parse_loop.simps [of env p ?last m' j, unfolded head, simplified, unfolded e(1), simplified,
      unfolded e(2) fst_conv snd_conv, simplified, unfolded fst_conv snd_conv]
  show ?thesis
  proof (cases "tag = Refused")
    case True
    then show ?thesis using eq by (auto simp: looped_def)
  next
    case False
    then have m2: "planted t m2" "m_nElements m2 = Suc ?n" "m_pstrXML m1 = m_pstrXML m" "tagged t i ?n m1 tag m2"
      and kids: "kids (m_pElements m2) q (Suc ?n) = kids (m_pElements m) q ?n @ (if q = p then [?n] else [])" for q
      using e(3) by blast+
    have grown2: "grown t p m m2" using m2(1,2) by (simp add: grown_def kids)
    show ?thesis
    proof (cases tag)
      case Refused
      then show ?thesis using False by simp
    next
      case (Last l)
      then have "goes t i (m_pstrXML m) l (m_pstrXML m2)" using m2(3,4) by (simp add: tagged_def)
      then show ?thesis using eq Last grown2 by (auto simp: looped_def)
    next
      case (Empty_Tag ne l)
      then have g2: "goes t i (m_pstrXML m) l (m_pstrXML m2)" "i \<le> ne" "ne < l" using m2(3,4) by (simp_all add: tagged_def)
      obtain k b where k: "end_name env m2 ne l = Some (k, m2\<lparr>m_pstrXML := b\<rparr>)" "goes t ne (m_pstrXML m2) k b" "l \<le> k"
        using end_name_ok [OF law goes_rest(1) [OF g2(1)] g2(3)] by blast
      let ?m = "m2\<lparr>m_pstrXML := b\<rparr>"
      have "looped t k p ?m (parse_loop env p ?n ?m k)"
        using again [of k ?m p] goes_rest(1) [OF k(2)] g2(2,3) k(3) m2(1,2) kids [of p] p by (simp add: planted_text last0_append1)
      then show ?thesis
        using looped_trans [of t i m k ?m p] goes_from [OF g2(1) k(2) g2(2)] grown_text [OF grown2] eq Empty_Tag k(1) by simp
    next
      case (Content ne l d)
      then have g2: "goes t i (m_pstrXML m) l (m_pstrXML m2)" "skips t i ne" "ne < d" "d \<le> l" "l < length t"
        and names: "\<forall>l. i \<le> l \<and> l < ne \<longrightarrow> m_pstrXML m2 ! l = t ! l"
        using m2(3,4) by (simp_all add: tagged_def)
      let ?m = "m\<lparr>m_pstrXML := m_pstrXML m2\<rparr>"
      have "kids (m_pElements m2) ?n (Suc ?n) = []"
        using pl p siblings_none [of "m_pElements m" ?n ?n] by (simp add: kids planted_def)
      moreover have "last0 (kids (m_pElements m2) p (Suc ?n)) = ?n" by (simp add: kids last0_append1)
      ultimately have rest: "looped t i p ?m (parse_loop env p ?last m' j)"
        using content_loop_ok [OF law ends again m2(1,2) _ _ p goes_rest(1) [OF g2(1)] g2(2-5) names, of ?m] kids eq Content by simp
      have "goes t i (m_pstrXML m) l (m_pstrXML ?m)" using g2(1) by simp
      then show ?thesis by (rule looped_from [OF _ grown_text [OF grown_refl [OF pl]] rest order.refl])
    qed
  qed
qed

theorem parse_loop_ok:
  assumes law: "char_next_law env" and ends: "ends_with_gt t" and grants: "grants_all env"
    and "rest t (m_pstrXML m) i" and "planted t m" and "p < m_nElements m"
  shows "looped t i p m (parse_loop env p (last0 (kids (m_pElements m) p (m_nElements m))) m i)"
  using assms(4-6)
proof (induction "length t - i" arbitrary: i p m rule: less_induct)
  case less
  note r = less.prems(1)
  have i_le: "i \<le> length t" by (rule rest_le(1) [OF r])
  let ?last = "last0 (kids (m_pElements m) p (m_nElements m))"
  have again: "looped t j q m' (parse_loop env q (last0 (kids (m_pElements m') q (m_nElements m'))) m' j)"
    if "i < j" "rest t (m_pstrXML m') j" "planted t m'" "q < m_nElements m'" for j q m'
    by (rule less.hyps) (use that rest_le(1) [OF that(2)] in simp_all)
  obtain h i1 m0 where h: "parse_head env p m i = Some (h, i1, m0)"
      "h \<noteq> Returns False \<longrightarrow> goes t i (m_pstrXML m) i1 (m_pstrXML m0) \<and> m0 = m\<lparr>m_pstrXML := m_pstrXML m0\<rparr>"
      "h = Directive \<or> h = Opens \<longrightarrow> i < i1"
    using parse_head_ok [OF law r, of p] by blast
  note loop = parse_loop.simps [of env p ?last m i]
  show ?case
  proof (cases "h = Returns False")
    case True
    then show ?thesis using h(1) loop by (auto simp: looped_def)
  next
    case False
    then obtain b where g0: "goes t i (m_pstrXML m) i1 (m_pstrXML m0)" and m0: "m0 = m\<lparr>m_pstrXML := b\<rparr>" using h(2) by blast
    have grown: "grown t p m m0" unfolding m0 by (rule grown_text [OF grown_refl [OF less.prems(2)]])
    have pl: "planted t m0" and p: "p < m_nElements m0" using less.prems(2,3) by (simp_all add: m0 planted_text)
    have "looped t i1 p m0 (parse_loop env p ?last m i)"
    proof (cases h)
      case (Returns ok)
      then show ?thesis using h(1) loop goes_refl [OF goes_rest(1) [OF g0]] grown_refl [OF pl] by (auto simp: looped_def)
    next
      case Directive
      then show ?thesis using again [OF _ goes_rest(1) [OF g0] pl p] h(1,3) loop by (simp add: m0)
    next
      case Opens
      then show ?thesis
        using element_loop_ok [OF law ends grants again goes_rest(1) [OF g0] pl p, of m i] h(1,3) by (simp add: m0)
    qed
    then show ?thesis using looped_trans [OF g0 grown] by simp
  qed
qed

section \<open>Loading\<close>

definition document :: "wstring \<Rightarrow> markup \<Rightarrow> bool" where
  "document t m \<longleftrightarrow> planted t m \<and> length (m_pstrXML m) = Suc (length t) \<and> m_pstrXML m ! length t = 0"

lemma Load_document:
  assumes "char_next_law env" and "grants_all env" and "m_nElements m = 0" and "0 \<notin> set t" and "ends_with_gt t"
  shows "\<exists>ok m'. Load env m t = Some (ok, m') \<and> (ok \<longrightarrow> document t m')
      \<and> (\<not> ok \<longrightarrow> m_pstrXML m' = [] \<and> m_pElements m' = [])"
proof -
  let ?b = "t @ [0]"
  let ?m = "(Release m)\<lparr>m_pstrXML := ?b\<rparr>"
  obtain u where u: "malloc_units (env_mem env) (Suc (length t)) = Some u" "length u = Suc (length t)"
    using assms(2) by (auto simp: malloc_units_def realloc_units_def grants_all_def)
  have load: "Load env m t = parse_or_release env ?m" using u assms(4) by (simp add: Load_def tcscpy_def c_str_id)
  let ?m1 = "(snd (reserve_element env ?m))\<lparr>m_szErrorMsg := [], m_szErrorXML := []\<rparr>"
  have m1: "m_pstrXML ?m1 = ?b" "m_nElements ?m1 = 1" "planted t ?m1"
    using assms(2,3) by (auto simp: reserve_element_def Release_def Let_def grants_all_def planted_def tree_def)
  have r: "rest t (m_pstrXML ?m1) 0" using assms(4) m1(1) by (simp add: rest_def)
  obtain i where i: "skip_whitespace env (m_pstrXML ?m1) 0 = Some i" "skips t 0 i" using skip_whitespace_ok [OF assms(1) r] by blast
  have ri: "rest t (m_pstrXML ?m1) i" using rest_mono [OF r] skips_le [OF i(2)] by simp
  have "last0 (kids (m_pElements ?m1) 0 (m_nElements ?m1)) = 0" by (simp add: m1(2) siblings_def last0_def)
  then have "looped t i 0 ?m1 (parse_loop env 0 0 ?m1 i)"
    using parse_loop_ok [OF assms(1,5,2) ri m1(3), of 0] m1(2) by simp
  then obtain ok j m2 where p: "parse_loop env 0 0 ?m1 i = Some (ok, j, m2)"
      "ok \<longrightarrow> goes t i (m_pstrXML ?m1) j (m_pstrXML m2) \<and> grown t 0 ?m1 m2"
    unfolding looped_def by blast
  have "Load env m t = Some (ok, if ok then m2 else Release m2)"
    unfolding load parse_or_release_def parse_markup_def Let_def i(1) by (simp add: p(1))
  moreover have "document t m2" if ok using p(2) that by (simp add: document_def grown_def goes_def rest_def)
  ultimately show ?thesis by (cases ok) (auto simp: Release_def)
qed

section \<open>Walking\<close>

lemma first_split: "j # js = xs @ j # ys \<Longrightarrow> j \<notin> set xs \<Longrightarrow> js = ys"
  by (cases xs) auto

lemma siblings_first:
  assumes "siblings es p k n = j # js"
  shows "k < j" and "j < n" and "iParent (es ! j) = p" and "js = siblings es p j n"
proof -
  have j: "j \<in> set (siblings es p k n)" using assms by simp
  then show "k < j" "j < n" "iParent (es ! j) = p" by (auto simp: siblings_def)
  have "[Suc k..<n] = [Suc k..<j] @ j # [Suc j..<n]"
    using \<open>k < j\<close> \<open>j < n\<close> by (metis Suc_leI le_add_diff_inverse less_imp_le_nat upt_add_eq_append upt_conv_Cons)
  then have "j # js = filter (\<lambda>j. iParent (es ! j) = p) [Suc k..<j] @ j # siblings es p j n"
    using assms \<open>iParent (es ! j) = p\<close> by (simp add: siblings_def)
  moreover have "j \<notin> set (filter (\<lambda>j. iParent (es ! j) = p) [Suc k..<j])" by simp
  ultimately show "js = siblings es p j n" by (rule first_split)
qed

lemma text_at_document: "document t m \<Longrightarrow> i \<le> length t \<Longrightarrow> \<exists>s. text_at m i = Some s"
proof -
  assume m: "document t m" "i \<le> length t"
  then have "drop i (m_pstrXML m) ! (length t - i) = 0" "length t - i < length (drop i (m_pstrXML m))"
    by (simp_all add: document_def)
  then have "0 \<in> set (drop i (m_pstrXML m))" by (metis nth_mem)
  then show ?thesis by (simp add: text_at_def)
qed

lemma child_loop_ok:
  assumes "document t m"
  shows "child_loop m name (first0 (siblings (m_pElements m) p k (m_nElements m))) =
      Some (Option.bind (find (\<lambda>j. text_at m (iStart (m_pElements m ! j)) = Some name)
        (siblings (m_pElements m) p k (m_nElements m))) node_at)"
proof (induction "siblings (m_pElements m) p k (m_nElements m)" arbitrary: k)
  case Nil
  then show ?case using child_loop.simps [of m name 0] by (simp add: first0_def)
next
  case (Cons j js)
  note j = siblings_first [OF Cons.hyps(2) [symmetric]]
  have pl: "planted t m" using assms by (simp add: document_def)
  then have e: "j < length (m_pElements m)" "iStart (m_pElements m ! j) \<le> length t"
      "iNext (m_pElements m ! j) = first0 (siblings (m_pElements m) p j (m_nElements m))"
    using j by (auto simp: planted_def tree_def)
  obtain s where s: "text_at m (iStart (m_pElements m ! j)) = Some s" using text_at_document [OF assms e(2)] by blast
  have "child_loop m name j = (if s = name then Some (node_at j) else child_loop m name (iNext (m_pElements m ! j)))"
    using child_loop.simps [of m name j] j(1) e(1) s by (simp add: element_at_def)
  then show ?case using Cons.hyps(1) [OF j(4)] Cons.hyps(2) [symmetric] j(4) s e(3) by (simp add: first0_def)
qed

lemma document_cell: "document t m \<Longrightarrow> k < m_nElements m \<Longrightarrow> k < length (m_pElements m)"
  by (simp add: document_def planted_def tree_def)

lemma GetName_at:
  assumes "document t m" and "0 < k" and "k < m_nElements m"
  shows "GetName m (node_at k) = map_option Some (text_at m (iStart (m_pElements m ! k)))"
    and "GetValue m (node_at k) = map_option Some (text_at m (iData (m_pElements m ! k)))"
  using document_cell [OF assms(1,3)] assms(2) by (simp_all add: GetName_def GetValue_def node_at_def element_at_def)

lemma node_texts:
  assumes "document t m" and "0 < k" and "k < m_nElements m"
  shows "\<exists>s v. GetName m (node_at k) = Some (Some s) \<and> GetValue m (node_at k) = Some (Some v)"
proof -
  have "iStart (m_pElements m ! k) \<le> length t" "iData (m_pElements m ! k) \<le> length t"
    using assms by (simp_all add: document_def planted_def)
  then obtain s v where "text_at m (iStart (m_pElements m ! k)) = Some s" "text_at m (iData (m_pElements m ! k)) = Some v"
    using text_at_document [OF assms(1)] by blast
  then show ?thesis using GetName_at [OF assms] by simp
qed

lemma document_links:
  assumes "document t m" and "0 < k" and "k < m_nElements m"
  shows "GetChild m (node_at k) = Some (node_at (first0 (kids (m_pElements m) k (m_nElements m))))"
    and "GetSibling m (node_at k) = Some (node_at (first0 (siblings (m_pElements m) (iParent (m_pElements m ! k)) k (m_nElements m))))"
    and "GetParent m (node_at k) = Some (node_at (iParent (m_pElements m ! k)))"
    and "iParent (m_pElements m ! k) < k"
proof -
  have "iParent (m_pElements m ! k) < k" "iChild (m_pElements m ! k) = first0 (kids (m_pElements m) k (m_nElements m))"
      "iNext (m_pElements m ! k) = first0 (siblings (m_pElements m) (iParent (m_pElements m ! k)) k (m_nElements m))"
    using assms by (auto simp: document_def planted_def tree_def)
  then show "GetChild m (node_at k) = Some (node_at (first0 (kids (m_pElements m) k (m_nElements m))))"
      "GetSibling m (node_at k) = Some (node_at (first0 (siblings (m_pElements m) (iParent (m_pElements m ! k)) k (m_nElements m))))"
      "GetParent m (node_at k) = Some (node_at (iParent (m_pElements m ! k)))" "iParent (m_pElements m ! k) < k"
    using document_cell [OF assms(1,3)] assms(2)
    by (simp_all add: GetChild_def GetSibling_def GetParent_def node_link_def element_at_def node_at_def)
qed

lemma find_cong_in: "(\<And>x. x \<in> set xs \<Longrightarrow> P x = Q x) \<Longrightarrow> find P xs = find Q xs"
  by (induction xs) auto

lemma document_child:
  assumes "document t m" and "0 < k" and "k < m_nElements m"
  shows "GetChild_named m (node_at k) name =
      Some (Option.bind (find (\<lambda>j. GetName m (node_at j) = Some (Some name)) (kids (m_pElements m) k (m_nElements m))) node_at)"
proof -
  have "GetName m (node_at j) = Some (Some name) \<longleftrightarrow> text_at m (iStart (m_pElements m ! j)) = Some name"
    if "j \<in> set (kids (m_pElements m) k (m_nElements m))" for j
    using GetName_at(1) [OF assms(1), of j] that by (auto simp: siblings_def)
  then have "find (\<lambda>j. GetName m (node_at j) = Some (Some name)) (kids (m_pElements m) k (m_nElements m)) =
      find (\<lambda>j. text_at m (iStart (m_pElements m ! j)) = Some name) (kids (m_pElements m) k (m_nElements m))"
    by (rule find_cong_in)
  moreover have "iChild (m_pElements m ! k) = first0 (kids (m_pElements m) k (m_nElements m))"
    using assms by (auto simp: document_def planted_def tree_def)
  ultimately show ?thesis
    using child_loop_ok [OF assms(1), of name k 0] document_cell [OF assms(1,3)] assms(2)
    by (simp add: GetChild_named_def node_at_def element_at_def)
qed

section \<open>Properties\<close>

text \<open>C17: A fresh \<open>CMarkup\<close> loads a document. Loading a text without null characters whose last character is the
  greater-than sign into a \<open>CMarkup\<close> that has no element yet, with every request for memory granted and \<open>CharNext\<close> as
  documented, ends, reads and writes inside its buffer and its elements only, and either is refused and leaves nothing, or
  gives elements whose links form a tree and whose names and texts can be read. The conditions are needed: a text that
  ends inside a tag is read behind its end, and a second load into the same \<open>CMarkup\<close> goes through the null pointer
  (\<open>unclosed_layout_read_outside\<close>, \<open>second_layout_through_null\<close> below).\<close>

theorem layout_loads:
  assumes "char_next_law env" and "grants_all env" and "m_nElements m = 0" and "0 \<notin> set t" and "t \<noteq> []" and "last t = 62"
  shows "\<exists>ok m'. Load env m t = Some (ok, m') \<and> (\<not> ok \<longrightarrow> m_pstrXML m' = [] \<and> m_pElements m' = [])
      \<and> (ok \<longrightarrow> tree (m_pElements m') (m_nElements m')
          \<and> (\<forall>k. 0 < k \<and> k < m_nElements m' \<longrightarrow>
                (\<exists>s v. GetName m' (node_at k) = Some (Some s) \<and> GetValue m' (node_at k) = Some (Some v))))"
proof -
  obtain ok m' where load: "Load env m t = Some (ok, m')" "ok \<longrightarrow> document t m'"
      "\<not> ok \<longrightarrow> m_pstrXML m' = [] \<and> m_pElements m' = []"
    using Load_document [OF assms(1-4)] assms(5,6) by (auto simp: ends_with_gt_def)
  have "\<exists>s v. GetName m' (node_at k) = Some (Some s) \<and> GetValue m' (node_at k) = Some (Some v)"
    if "ok" "0 < k" "k < m_nElements m'" for k
    using node_texts [OF _ that(2,3)] load(2) that(1) by blast
  then show ?thesis using load by (simp add: document_def planted_def)
qed

text \<open>C18: In a document that a fresh \<open>CMarkup\<close> loaded from a text that ends in the greater-than sign, with memory
  granted and \<open>CharNext\<close> as documented, the first child, the sibling and the parent of a node are those of the tree, and the
  search for a child by its name finds the first one with this name, or none.\<close>

theorem nodes_walk_tree:
  assumes "char_next_law env" and "grants_all env" and "m_nElements m = 0" and "0 \<notin> set t" and "t \<noteq> []" and "last t = 62"
    and "Load env m t = Some (True, m')" and "0 < k" and "k < m_nElements m'"
  shows "let parent = (\<lambda>j. iParent (m_pElements m' ! j));
             next_of = (\<lambda>p j. filter (\<lambda>i. parent i = p) [Suc j..<m_nElements m'])
         in GetChild m' (node_at k) = Some (node_at (first0 (next_of k 0)))
          \<and> GetSibling m' (node_at k) = Some (node_at (first0 (next_of (parent k) k)))
          \<and> GetParent m' (node_at k) = Some (node_at (parent k)) \<and> parent k < k
          \<and> GetChild_named m' (node_at k) name =
              Some (Option.bind (find (\<lambda>j. GetName m' (node_at j) = Some (Some name)) (next_of k 0)) node_at)"
proof -
  have "document t m'" using Load_document [OF assms(1-4)] assms(5-7) by (auto simp: ends_with_gt_def)
  then show ?thesis
    using document_links [of t m' k] document_child [of t m' k name] assms(8,9) by (simp add: Let_def siblings_def)
qed

section \<open>Layouts\<close>

definition plain_env :: xml_env where
  "plain_env = \<lparr>env_mem = \<lparr>grants = \<lambda>_. True, junk = \<lambda>_. 7\<rparr>, char_width = \<lambda>_. 1, alnum_beyond = \<lambda>_. False\<rparr>"

lemma plain_env_laws: "char_next_law plain_env" "grants_all plain_env"
  by (simp_all add: char_next_law_def grants_all_def plain_env_def Suc_leI)

lemmas load_steps = Load_def parse_or_release_def parse_markup_def malloc_units_def realloc_units_def tcscpy_def plain_env_def
  new_markup_def Release_def reserve_element_def skip_whitespace.simps skip_identifier.simps unit_at_def char_next_def istalnum_def
  parse_head_def start_element_def set_element_def parse_tag_def tag_end_def parse_attributes_def attribute_loop.simps
  parse_attribute_def attribute_value_def close_if_def close_tag_def end_name_def failed_def store_text_def store_unit_def
  parse_data_def data_loop.simps parse_loop.simps Let_def c_str_def wlit_def

lemmas node_steps = GetChild_def GetSibling_def GetRoot_def node_link_def node_at_def element_at_def text_at_def GetName_def

definition sample_layout :: wstring where
  "sample_layout = wlit ''<a><b /><c x=\"1\">t</c></a>''"

lemma sample_loaded: "\<exists>m. Load plain_env new_markup sample_layout = Some (True, m) \<and> m_nElements m = 4"
  by (simp add: sample_layout_def load_steps del: upt_rec_numeral)

lemma sample_text: "m_nElements new_markup = 0" "0 \<notin> set sample_layout" "sample_layout \<noteq> []" "last sample_layout = 62"
  by (simp_all add: sample_layout_def wlit_def new_markup_def)

lemma layout_loads_witness:
  "\<exists>m. Load plain_env new_markup sample_layout = Some (True, m) \<and> tree (m_pElements m) (m_nElements m) \<and> m_nElements m = 4"
  using layout_loads [OF plain_env_laws sample_text] sample_loaded by auto

lemma nodes_walk_tree_witness:
  "\<exists>m. Load plain_env new_markup sample_layout = Some (True, m)
     \<and> GetParent m (node_at 3) = Some (node_at (iParent (m_pElements m ! 3))) \<and> iParent (m_pElements m ! 3) < 3"
proof -
  obtain m where m: "Load plain_env new_markup sample_layout = Some (True, m)" "m_nElements m = 4" using sample_loaded by blast
  show ?thesis using nodes_walk_tree [OF plain_env_laws sample_text m(1), of 3 "[]"] m by (simp add: Let_def)
qed

text \<open>The node \<open>c\<close> is found by its name and has its attribute.\<close>

lemma layout_read:
  "\<exists>m. Load plain_env new_markup sample_layout = Some (True, m)
     \<and> GetChild_named m (GetRoot m) (wlit ''c'') = Some (node_at 3)
     \<and> GetValue m (node_at 3) = Some (Some (wlit ''t''))
     \<and> map_option fst (GetAttributeValue_named plain_env m (wlit ''x'') (node_at 3)) = Some (Some (wlit ''1''))"
  by (simp add: sample_layout_def load_steps node_steps GetChild_named_def child_loop.simps GetValue_def GetAttributeValue_named_def
    with_attributes_def MapAttributes_def map_attributes.simps tcslen_def numeral_3_eq_3 MAX_XML_ATTRIBUTES_def
    del: upt_rec_numeral)

lemma unclosed_layout_read_outside: "Load plain_env new_markup (wlit ''<a></a'') = None"
  by (simp add: load_steps del: upt_rec_numeral)

lemma second_layout_through_null:
  "\<exists>m. Load plain_env new_markup (wlit ''<a></a>'') = Some (True, m) \<and> Load plain_env m (wlit ''<a></a>'') = None"
  by (simp add: load_steps del: upt_rec_numeral)

lemma layout_without_root:
  "\<exists>m. Load plain_env new_markup (wlit ''</>'') = Some (True, m) \<and> m_nElements m = 1 \<and> GetRoot m = node_at 1"
  by (simp add: load_steps node_steps del: upt_rec_numeral)

lemma empty_tag_needs_space:
  "\<exists>m. Load plain_env new_markup (wlit ''<a><b/></a>'') = Some (False, m)"
  "\<exists>m. Load plain_env new_markup (wlit ''<a><b /></a>'') = Some (True, m)"
  by (simp_all add: load_steps del: upt_rec_numeral)

lemma unclosed_root_accepted: "\<exists>m. Load plain_env new_markup (wlit ''<a><b>'') = Some (True, m)"
  by (simp add: load_steps del: upt_rec_numeral)

end
