(* ===== verification/Base64.thy ===== *)
theory Base64
  imports Utf
begin

text \<open>
  \<open>conversions::to_base64\<close> and \<open>from_base64\<close> of the SDK (\<open>utilities/base64.cpp\<close>). The bit fields of \<open>_triple_byte\<close> lie as
  the Microsoft compiler lays them out, the first field in the low bits.
\<close>

section \<open>The tables\<close>

definition base64_enctbl :: wstring where
  "base64_enctbl = wlit ''ABCDEFGHIJKLMNOPQRSTUVWXYZabcdefghijklmnopqrstuvwxyz0123456789+/''"

definition base64_dectbl :: "u8 list" where
  "base64_dectbl =
     [255, 255, 255, 255, 255, 255, 255, 255, 255, 255, 255, 255, 255, 255, 255, 255,
      255, 255, 255, 255, 255, 255, 255, 255, 255, 255, 255, 255, 255, 255, 255, 255,
      255, 255, 255, 255, 255, 255, 255, 255, 255, 255, 255,  62, 255, 255, 255,  63,
       52,  53,  54,  55,  56,  57,  58,  59,  60,  61, 255, 255, 255, 254, 255, 255,
      255,   0,   1,   2,   3,   4,   5,   6,   7,   8,   9,  10,  11,  12,  13,  14,
       15,  16,  17,  18,  19,  20,  21,  22,  23,  24,  25, 255, 255, 255, 255, 255,
      255,  26,  27,  28,  29,  30,  31,  32,  33,  34,  35,  36,  37,  38,  39,  40,
       41,  42,  43,  44,  45,  46,  47,  48,  49,  50,  51, 255, 255, 255, 255, 255]"

definition base64_enc :: "u8 \<Rightarrow> wchar" where
  "base64_enc i = base64_enctbl ! unat i"

text \<open>The entry of a character, 255 also for a character beyond the table.\<close>

definition base64_dec :: "wchar \<Rightarrow> u8" where
  "base64_dec c = (if unat c < length base64_dectbl then base64_dectbl ! unat c else 255)"

section \<open>Encoding\<close>

text \<open>The fields \<open>_0\<close>, \<open>_1_1\<close>, \<open>_1_2\<close>, \<open>_2_1\<close>, \<open>_2_2\<close> and \<open>_3\<close> of three bytes.\<close>

definition field_0 :: "u8 \<Rightarrow> u8" where "field_0 a = drop_bit 2 a"
definition field_1_1 :: "u8 \<Rightarrow> u8" where "field_1_1 a = a AND 0x3"
definition field_1_2 :: "u8 \<Rightarrow> u8" where "field_1_2 b = drop_bit 4 b"
definition field_2_1 :: "u8 \<Rightarrow> u8" where "field_2_1 b = b AND 0xF"
definition field_2_2 :: "u8 \<Rightarrow> u8" where "field_2_2 c = drop_bit 6 c"
definition field_3 :: "u8 \<Rightarrow> u8" where "field_3 c = c AND 0x3F"

fun to_base64 :: "bytes \<Rightarrow> wstring" where
  "to_base64 (a # b # c # rest) =
     base64_enc (field_0 a) # base64_enc (push_bit 4 (field_1_1 a) OR field_1_2 b) # base64_enc (push_bit 2 (field_2_1 b) OR field_2_2 c)
     # base64_enc (field_3 c) # to_base64 rest"
| "to_base64 [a, b] =
     [base64_enc (field_0 a), base64_enc (push_bit 4 (field_1_1 a) OR field_1_2 b), base64_enc (push_bit 2 (field_2_1 b)), 61]"
| "to_base64 [a] = [base64_enc (field_0 a), base64_enc (push_bit 4 (field_1_1 a)), 61, 61]"
| "to_base64 [] = []"

section \<open>Decoding\<close>

datatype base64_error = BadLength | InvalidCharacter | InvalidPadding | InvalidEnd

text \<open>The loop that validates counts the padding; \<open>size\<close> is the length of what is left.\<close>

fun validate :: "wstring \<Rightarrow> nat \<Rightarrow> base64_error + nat" where
  "validate [] padding = Inr padding"
| "validate (c # rest) padding =
     (if base64_dec c = 255 then Inl InvalidCharacter
      else if base64_dec c = 254
      then if length rest > 1 then Inl InvalidPadding
           else if length rest = 1 \<and> base64_dec (hd rest) \<noteq> 254 then Inl InvalidPadding
           else validate rest (padding + 1)
      else validate rest padding)"

text \<open>The three bytes written through the fields; a field keeps its low bits.\<close>

definition byte_0 :: "u8 \<Rightarrow> u8 \<Rightarrow> u8" where
  "byte_0 val0 val1 = push_bit 2 (val0 AND 0x3F) OR (drop_bit 4 val1 AND 0x3)"

definition byte_1 :: "u8 \<Rightarrow> u8 \<Rightarrow> u8" where
  "byte_1 val1 val2 = push_bit 4 (val1 AND 0xF) OR (drop_bit 2 val2 AND 0xF)"

definition byte_2 :: "u8 \<Rightarrow> u8 \<Rightarrow> u8" where
  "byte_2 val2 val3 = push_bit 6 (val2 AND 0x3) OR (val3 AND 0x3F)"

definition last_group :: "wchar \<Rightarrow> wchar \<Rightarrow> wchar \<Rightarrow> wchar \<Rightarrow> base64_error + bytes" where
  "last_group c0 c1 c2 c3 =
     (let val0 = base64_dec c0; val1 = base64_dec c1; val2 = base64_dec c2; val3 = base64_dec c3
      in if val2 = 254
         then if val1 AND 0xF \<noteq> 0 then Inl InvalidEnd else Inr [byte_0 val0 val1]
         else if val3 = 254
         then if val2 AND 0x3 \<noteq> 0 then Inl InvalidEnd else Inr [byte_0 val0 val1, byte_1 val1 val2]
         else Inr [byte_0 val0 val1, byte_1 val1 val2, byte_2 val2 val3])"

fun decode_groups :: "wstring \<Rightarrow> base64_error + bytes" where
  "decode_groups (c0 # c1 # c2 # c3 # rest) =
     (if rest = [] then last_group c0 c1 c2 c3
      else map_sum id (\<lambda>bs. byte_0 (base64_dec c0) (base64_dec c1) # byte_1 (base64_dec c1) (base64_dec c2) # byte_2 (base64_dec c2) (base64_dec c3) # bs)
             (decode_groups rest))"
| "decode_groups _ = Inr []"

text \<open>The result vector has its final size from the start, so bytes that are not written stay zero.\<close>

definition from_base64 :: "wstring \<Rightarrow> base64_error + bytes" where
  "from_base64 input =
     (if input = [] then Inr []
      else if length input mod 4 \<noteq> 0 then Inl BadLength
      else case validate input 0 of
             Inl e \<Rightarrow> Inl e
           | Inr padding \<Rightarrow>
               let outsz = length input div 4 * 3 - padding
               in map_sum id (\<lambda>bs. bs @ replicate (outsz - length bs) 0) (decode_groups input))"

section \<open>The tables are inverse\<close>

lemma base64_enctbl_units:
  "base64_enctbl =
     [65, 66, 67, 68, 69, 70, 71, 72, 73, 74, 75, 76, 77, 78, 79, 80,
      81, 82, 83, 84, 85, 86, 87, 88, 89, 90, 97, 98, 99, 100, 101, 102,
      103, 104, 105, 106, 107, 108, 109, 110, 111, 112, 113, 114, 115, 116, 117, 118,
      119, 120, 121, 122, 48, 49, 50, 51, 52, 53, 54, 55, 56, 57, 43, 47]"
  by (simp add: base64_enctbl_def wlit_Cons)

lemma dec_enctbl: "map base64_dec base64_enctbl = map of_nat [0..<64]"
  by (simp add: base64_enctbl_units base64_dec_def base64_dectbl_def upt_rec)

lemma dec_enc:
  assumes "i < 64"
  shows "base64_dec (base64_enc i) = i"
proof -
  have "unat i < 64"
    using assms by (simp add: word_less_nat_alt)
  then have "map base64_dec base64_enctbl ! unat i = i"
    by (simp add: dec_enctbl)
  moreover have "length base64_enctbl = 64"
    by (simp add: base64_enctbl_units)
  ultimately show ?thesis
    using \<open>unat i < 64\<close> by (simp add: base64_enc_def)
qed

lemma dectbl_values:
  "list_all2 (\<lambda>c d. d = 255 \<or> d = 254 \<and> c = 61 \<or> d < 64 \<and> base64_enc d = c) (map of_nat [0..<128]) base64_dectbl"
  by (simp add: base64_enctbl_units base64_enc_def base64_dectbl_def upt_rec)

lemma dec_cases: "base64_dec c = 255 \<or> base64_dec c = 254 \<and> c = 61 \<or> base64_dec c < 64 \<and> base64_enc (base64_dec c) = c"
proof (cases "unat c < 128")
  case True
  then show ?thesis
    using list_all2_nthD [OF dectbl_values, of "unat c"] by (simp add: base64_dec_def base64_dectbl_def)
qed (simp add: base64_dec_def base64_dectbl_def)

lemma dec_pad: "base64_dec 61 = 254"
  by (simp add: base64_dec_def base64_dectbl_def)


section \<open>Bytes and their fields\<close>

lemma below_64_iff: "(v :: u8) < 64 \<longleftrightarrow> (\<forall>n. bit v n \<longrightarrow> n < 6)"
proof
  assume "v < 64"
  then show "\<forall>n. bit v n \<longrightarrow> n < 6"
    using small_bits [of v 6] by (auto simp: not_less [symmetric])
next
  assume *: "\<forall>n. bit v n \<longrightarrow> n < 6"
  have "drop_bit 6 v = 0"
    by (rule bit_word_eqI) (use * in \<open>auto simp: bit_drop_bit_eq\<close>)
  then show "v < 64"
    by (simp add: word_less_nat_alt word_unat_eq_iff unat_div drop_bit_eq_div div_eq_0_iff)
qed

lemma mask_2: "bit (3 :: int) n \<longleftrightarrow> n < 2"
proof -
  have "(3 :: int) = mask 2" by (simp add: mask_numeral)
  then show ?thesis by (simp only: bit_mask_iff) simp
qed

lemma low_bits: "(x :: u8) AND 0x3 = take_bit 2 x" "x AND 0xF = take_bit 4 x" "x AND 0x3F = take_bit 6 x"
  by (rule bit_word_eqI, auto simp: bit_simps units mask_2)+

lemmas fields = field_0_def field_1_1_def field_1_2_def field_2_1_def field_2_2_def field_3_def low_bits
lemmas written = byte_0_def byte_1_def byte_2_def low_bits

lemma below_64_fields:
  "field_0 a < 64" "push_bit 4 (field_1_1 a) OR field_1_2 b < 64" "push_bit 4 (field_1_1 a) < 64"
  "push_bit 2 (field_2_1 b) OR field_2_2 c < 64" "push_bit 2 (field_2_1 b) < 64" "field_3 c < 64"
  unfolding below_64_iff fields by (auto simp: bit_simps dest!: bit_imp_le_length)

lemma byte_eqI:
  assumes "\<And>n. n \<in> {0, 1, 2, 3, 4, 5, 6, 7} \<Longrightarrow> bit x n = bit y n"
  shows "(x :: u8) = y"
proof (rule bit_word_eqI)
  fix n assume "n < LENGTH(8)"
  then have "n \<in> {0, 1, 2, 3, 4, 5, 6, 7}"
    by (simp, presburger)
  then show "bit x n = bit y n"
    by (rule assms)
qed

lemma bytes_of_fields:
  "byte_0 (field_0 a) (push_bit 4 (field_1_1 a) OR field_1_2 b) = a"
  "byte_0 (field_0 a) (push_bit 4 (field_1_1 a)) = a"
  "byte_1 (push_bit 4 (field_1_1 a) OR field_1_2 b) (push_bit 2 (field_2_1 b) OR field_2_2 c) = b"
  "byte_1 (push_bit 4 (field_1_1 a) OR field_1_2 b) (push_bit 2 (field_2_1 b)) = b"
  "byte_2 (push_bit 2 (field_2_1 b) OR field_2_2 c) (field_3 c) = c"
  unfolding atomize_conj
  by (intro conjI; rule byte_eqI; unfold fields written; elim insertE emptyE;
      simp add: bit_simps bit_imp_le_length del: add_2_eq_Suc add_2_eq_Suc')

lemma small_top: "(v :: u8) < 64 \<Longrightarrow> \<not> bit v 6 \<and> \<not> bit v 7"
  by (auto simp: below_64_iff)

lemma low_zero:
  "(v :: u8) AND 0xF = 0 \<Longrightarrow> \<not> bit v 0 \<and> \<not> bit v 1 \<and> \<not> bit v 2 \<and> \<not> bit v 3"
  "(v :: u8) AND 0x3 = 0 \<Longrightarrow> \<not> bit v 0 \<and> \<not> bit v 1"
  unfolding low_bits by (auto simp: bit_eq_iff bit_take_bit_iff)

lemma fields_of_bytes:
  assumes "v0 < 64" and "v1 < 64" and "v2 < 64" and "v3 < 64"
  shows "field_0 (byte_0 v0 v1) = v0"
    and "push_bit 4 (field_1_1 (byte_0 v0 v1)) OR field_1_2 (byte_1 v1 v2) = v1"
    and "push_bit 2 (field_2_1 (byte_1 v1 v2)) OR field_2_2 (byte_2 v2 v3) = v2"
    and "field_3 (byte_2 v2 v3) = v3"
  unfolding atomize_conj
  by (intro conjI; rule byte_eqI; unfold fields written; elim insertE emptyE;
      use assms [THEN small_top] in \<open>simp add: bit_simps bit_imp_le_length del: add_2_eq_Suc add_2_eq_Suc'\<close>)

lemma last_fields_of_bytes:
  assumes "v0 < 64" and "v1 < 64" and "v2 < 64"
  shows "v1 AND 0xF = 0 \<Longrightarrow> push_bit 4 (field_1_1 (byte_0 v0 v1)) = v1"
    and "v2 AND 0x3 = 0 \<Longrightarrow> push_bit 2 (field_2_1 (byte_1 v1 v2)) = v2"
  unfolding atomize_conj atomize_imp
  by (intro conjI impI; rule byte_eqI; unfold fields written; elim insertE emptyE;
      use assms [THEN small_top] in \<open>simp add: low_zero [unfolded low_bits] bit_simps bit_imp_le_length
        del: One_nat_def add_2_eq_Suc add_2_eq_Suc'\<close>)

section \<open>Decoding what was encoded\<close>

lemma dec_pad_iff: "base64_dec c = 254 \<longleftrightarrow> c = 61"
  using dec_cases [of c] dec_pad by (auto simp: word_less_nat_alt)

lemma sextet:
  assumes "v < 64"
  shows "base64_dec (base64_enc v) = v" "v \<noteq> 254" "v \<noteq> 255" "base64_enc v \<noteq> 61"
proof -
  show "base64_dec (base64_enc v) = v"
    using assms by (rule dec_enc)
  show "v \<noteq> 254" "v \<noteq> 255"
    using assms by (auto simp: word_less_nat_alt)
  with \<open>base64_dec (base64_enc v) = v\<close> show "base64_enc v \<noteq> 61"
    using dec_pad by metis
qed

lemmas encoded = below_64_fields [THEN sextet (1)] below_64_fields [THEN sextet (2)] below_64_fields [THEN sextet (3)]

lemma validate_to_base64: "\<exists>q. validate (to_base64 bs) p = Inr (p + q) \<and> length (to_base64 bs) div 4 * 3 = length bs + q"
proof (induction bs arbitrary: p rule: to_base64.induct)
  case (1 a b c rest)
  then show ?case
    by (auto simp: encoded)
qed (auto simp: encoded dec_pad)

lemma to_base64_Nil_iff [simp]: "to_base64 bs = [] \<longleftrightarrow> bs = []"
  by (cases bs rule: to_base64.cases) simp_all

lemma length_to_base64: "length (to_base64 bs) mod 4 = 0"
  by (induction bs rule: to_base64.induct) simp_all

lemma low_of_last: "push_bit 4 (x :: u8) AND 0xF = 0" "push_bit 2 x AND 0x3 = 0"
  unfolding low_bits by (simp_all add: take_bit_push_bit)

lemma decode_to_base64: "bs \<noteq> [] \<Longrightarrow> decode_groups (to_base64 bs) = Inr bs"
proof (induction bs rule: to_base64.induct)
  case (1 a b c rest)
  then show ?case
    by (simp add: last_group_def encoded bytes_of_fields)
qed (simp_all add: last_group_def encoded bytes_of_fields dec_pad low_of_last)

lemma from_to_base64: "from_base64 (to_base64 bs) = Inr bs"
proof (cases "bs = []")
  case False
  obtain q where "validate (to_base64 bs) 0 = Inr q" "length (to_base64 bs) div 4 * 3 = length bs + q"
    using validate_to_base64 [of bs 0] by auto
  then show ?thesis
    using False by (simp add: from_base64_def length_to_base64 decode_to_base64)
qed (simp add: from_base64_def)

section \<open>Encoding what was decoded\<close>

lemma validate_group:
  assumes "validate (c0 # c1 # c2 # c3 # rest) p = Inr q" and "1 < length rest"
  shows "base64_dec c0 < 64 \<and> base64_dec c1 < 64 \<and> base64_dec c2 < 64 \<and> base64_dec c3 < 64 \<and> validate rest p = Inr q"
  using assms dec_cases [of c0] dec_cases [of c1] dec_cases [of c2] dec_cases [of c3]
  by (auto split: if_splits)

lemma enc_dec: "base64_dec c < 64 \<Longrightarrow> base64_enc (base64_dec c) = c"
  using dec_cases [of c] by (auto simp: word_less_nat_alt)

lemma validate_last:
  assumes "validate [c0, c1, c2, c3] p = Inr q"
  obtains "base64_dec c0 < 64" "base64_dec c1 < 64" "base64_dec c2 < 64" "base64_dec c3 < 64" "q = p"
  | "base64_dec c0 < 64" "base64_dec c1 < 64" "base64_dec c2 < 64" "c3 = 61" "q = p + 1"
  | "base64_dec c0 < 64" "base64_dec c1 < 64" "c2 = 61" "c3 = 61" "q = p + 2"
  using assms dec_cases [of c0] dec_cases [of c1] dec_cases [of c2] dec_cases [of c3]
  by (auto simp: dec_pad dec_pad_iff split: if_splits)

lemma to_base64_last:
  assumes "validate [c0, c1, c2, c3] p = Inr q" and "last_group c0 c1 c2 c3 = Inr bs"
  shows "to_base64 bs = [c0, c1, c2, c3] \<and> length bs + q = 3 + p"
  using assms(1)
proof (cases rule: validate_last)
  case 1
  then show ?thesis
    using assms(2) by (auto simp: last_group_def Let_def fields_of_bytes enc_dec sextet)
next
  case 2
  then show ?thesis
    using assms(2) by (auto simp: last_group_def Let_def fields_of_bytes last_fields_of_bytes enc_dec sextet dec_pad split: if_splits)
next
  case 3
  then show ?thesis
    using assms(2) by (auto simp: last_group_def Let_def fields_of_bytes last_fields_of_bytes enc_dec sextet dec_pad split: if_splits)
qed

lemma to_base64_decoded:
  assumes "length s mod 4 = 0" and "s \<noteq> []" and "validate s p = Inr q" and "decode_groups s = Inr bs"
  shows "to_base64 bs = s \<and> length bs + q = length s div 4 * 3 + p"
  using assms
proof (induction s arbitrary: bs rule: decode_groups.induct)
  case (1 c0 c1 c2 c3 rest)
  show ?case
  proof (cases "rest = []")
    case True
    then show ?thesis
      using 1 to_base64_last [of c0 c1 c2 c3 p q bs] by simp
  next
    case False
    have "length rest mod 4 = 0"
      using "1.prems"(1) by simp
    with False have "1 < length rest"
      by (cases rest rule: remdups_adj.cases) auto
    then have small: "base64_dec c0 < 64" "base64_dec c1 < 64" "base64_dec c2 < 64" "base64_dec c3 < 64" and valid: "validate rest p = Inr q"
      using validate_group [OF "1.prems"(3)] by blast+
    obtain tail where tail: "decode_groups rest = Inr tail"
      and bs: "bs = byte_0 (base64_dec c0) (base64_dec c1) # byte_1 (base64_dec c1) (base64_dec c2) # byte_2 (base64_dec c2) (base64_dec c3) # tail"
      using "1.prems"(4) False by (cases "decode_groups rest") auto
    have "to_base64 tail = rest \<and> length tail + q = length rest div 4 * 3 + p"
      by (rule "1.IH" [OF False \<open>length rest mod 4 = 0\<close> False valid tail])
    then show ?thesis
      using small by (simp add: bs fields_of_bytes enc_dec)
  qed
qed auto

text \<open>C23: The decoder of the SDK accepts a text exactly when it is the encoding of some bytes, and then it returns those bytes: the
  canonical alphabet, length, padding and unused bits, nothing else.
\<close>

theorem base64_exact: "from_base64 s = Inr bs \<longleftrightarrow> s = to_base64 bs"
proof
  assume "from_base64 s = Inr bs"
  show "s = to_base64 bs"
  proof (cases "s = []")
    case False
    with \<open>from_base64 s = Inr bs\<close> obtain q tail
      where "length s mod 4 = 0" "validate s 0 = Inr q" "decode_groups s = Inr tail"
        and bs: "bs = tail @ replicate (length s div 4 * 3 - q - length tail) 0"
      by (cases "validate s 0"; cases "decode_groups s") (auto simp: from_base64_def split: if_splits)
    then have "to_base64 tail = s \<and> length tail + q = length s div 4 * 3"
      using to_base64_decoded [of s 0 q tail] False by simp
    then show ?thesis
      by (simp add: bs)
  qed (use \<open>from_base64 s = Inr bs\<close> in \<open>simp add: from_base64_def\<close>)
qed (simp add: from_to_base64)

end
