(* ===== verification/Uri_Encoding.thy ===== *)
theory Uri_Encoding
  imports Utf
begin

unbundle bit_operations_syntax

text \<open>
  Encoding, decoding and splitting of the parts of a URI: \<open>uri/uri.cpp\<close> of the SDK and the classes of characters of
  \<open>details/uri_parser.h\<close>.
\<close>

section \<open>Classes of characters\<close>

text \<open>\<open>is_alnum\<close> takes a \<open>char\<close>; the classes pass it the low byte of a character.\<close>

definition is_alnum :: "u8 \<Rightarrow> bool" where
  "is_alnum ch \<longleftrightarrow> 48 \<le> ch \<and> ch \<le> 57 \<or> 65 \<le> ch \<and> ch \<le> 90 \<or> 97 \<le> ch \<and> ch \<le> 122"

definition is_unreserved :: "wchar \<Rightarrow> bool" where
  "is_unreserved c \<longleftrightarrow> is_alnum (ucast c) \<or> c \<in> set (wlit ''-._~'')"

definition is_gen_delim :: "wchar \<Rightarrow> bool" where
  "is_gen_delim c \<longleftrightarrow> c \<in> set (wlit '':/?#[]@'')"

definition is_sub_delim :: "wchar \<Rightarrow> bool" where
  "is_sub_delim c \<longleftrightarrow> c \<in> set (wlit ''!$&()*+,;='') \<or> c = 39"

definition is_reserved :: "wchar \<Rightarrow> bool" where
  "is_reserved c \<longleftrightarrow> is_gen_delim c \<or> is_sub_delim c"

definition is_scheme_character :: "wchar \<Rightarrow> bool" where
  "is_scheme_character c \<longleftrightarrow> is_alnum (ucast c) \<or> c \<in> set (wlit ''+-.'')"

definition is_user_info_character :: "wchar \<Rightarrow> bool" where
  "is_user_info_character c \<longleftrightarrow> is_unreserved c \<or> is_sub_delim c \<or> c \<in> set (wlit ''%:'')"

definition is_authority_character :: "wchar \<Rightarrow> bool" where
  "is_authority_character c \<longleftrightarrow> is_unreserved c \<or> is_sub_delim c \<or> c \<in> set (wlit ''%@:'')"

definition is_path_character :: "wchar \<Rightarrow> bool" where
  "is_path_character c \<longleftrightarrow> is_unreserved c \<or> is_sub_delim c \<or> c \<in> set (wlit ''%/:@'')"

definition is_query_character :: "wchar \<Rightarrow> bool" where
  "is_query_character c \<longleftrightarrow> is_path_character c \<or> c = 63"

definition is_fragment_character :: "wchar \<Rightarrow> bool" where
  "is_fragment_character c \<longleftrightarrow> is_query_character c"

section \<open>Percent encoding\<close>

definition encode_byte :: "(wchar \<Rightarrow> bool) \<Rightarrow> u8 \<Rightarrow> wstring" where
  "encode_byte should_encode ch =
     (let hex = wlit ''0123456789ABCDEF''
      in if should_encode (ucast ch) then [37, hex ! unat (drop_bit 4 ch AND 0xF), hex ! unat (ch AND 0xF)] else [ucast ch])"

definition encode_impl :: "(wchar \<Rightarrow> bool) \<Rightarrow> wstring \<Rightarrow> range_error + wstring" where
  "encode_impl should_encode raw = map_sum id (\<lambda>utf8raw. concat (map (encode_byte should_encode) utf8raw)) (utf16_to_utf8 raw)"

definition encode_data_string :: "wstring \<Rightarrow> range_error + wstring" where
  "encode_data_string = encode_impl (\<lambda>ch. \<not> is_unreserved ch)"

text \<open>The names and values \<open>uri_builder::append_query\<close> encodes.\<close>

definition encode_parameter :: "wstring \<Rightarrow> range_error + wstring" where
  "encode_parameter = encode_impl (\<lambda>ch. ch \<in> set (wlit ''&;=%+'') \<or> \<not> is_query_character ch)"

datatype component = UserInfo | Host | Path | Query | Fragment | FullUri

fun encodes :: "component \<Rightarrow> wchar \<Rightarrow> bool" where
  "encodes UserInfo ch \<longleftrightarrow> \<not> is_user_info_character ch \<or> ch = 37 \<or> ch = 43"
| "encodes Host ch \<longleftrightarrow> ch > 127"
| "encodes Path ch \<longleftrightarrow> \<not> is_path_character ch \<or> ch = 37 \<or> ch = 43"
| "encodes Query ch \<longleftrightarrow> \<not> is_query_character ch \<or> ch = 37 \<or> ch = 43"
| "encodes Fragment ch \<longleftrightarrow> \<not> is_fragment_character ch \<or> ch = 37 \<or> ch = 43"
| "encodes FullUri ch \<longleftrightarrow> \<not> is_unreserved ch \<and> \<not> is_reserved ch"

definition encode_uri :: "wstring \<Rightarrow> component \<Rightarrow> range_error + wstring" where
  "encode_uri raw c = encode_impl (encodes c) raw"

section \<open>Decoding\<close>

datatype uri_error = MissingDigits | InvalidDigit | NotUtf8 range_error

definition hex_char_digit_to_decimal_char :: "wchar \<Rightarrow> nat option" where
  "hex_char_digit_to_decimal_char hex =
     (if 48 \<le> hex \<and> hex \<le> 57 then Some (unat (hex - 48))
      else if 65 \<le> hex \<and> hex \<le> 70 then Some (10 + unat (hex - 65))
      else if 97 \<le> hex \<and> hex \<le> 102 then Some (10 + unat (hex - 97))
      else None)"

text \<open>The loop over the characters; of a character that is not encoded the low byte is taken.\<close>

fun decode_loop :: "wstring \<Rightarrow> uri_error + bytes" where
  "decode_loop [] = Inr []"
| "decode_loop (c # rest) =
     (if c = 37
      then case rest of
          [] \<Rightarrow> Inl MissingDigits
        | h # rest \<Rightarrow>
            (case hex_char_digit_to_decimal_char h of
               None \<Rightarrow> Inl InvalidDigit
             | Some high \<Rightarrow>
                 (case rest of
                    [] \<Rightarrow> Inl MissingDigits
                  | l # rest \<Rightarrow>
                      (case hex_char_digit_to_decimal_char l of
                         None \<Rightarrow> Inl InvalidDigit
                       | Some low \<Rightarrow> map_sum id (\<lambda>utf8raw. of_nat (high * 16 + low) # utf8raw) (decode_loop rest))))
      else map_sum id (\<lambda>utf8raw. ucast c # utf8raw) (decode_loop rest))"

definition decode :: "wstring \<Rightarrow> uri_error + wstring" where
  "decode encoded =
     (case decode_loop encoded of
        Inl e \<Rightarrow> Inl e
      | Inr utf8raw \<Rightarrow> map_sum NotUtf8 id (utf8_to_utf16 utf8raw))"

section \<open>Splitting\<close>

text \<open>What \<open>std::getline\<close> extracts from a stream until it fails.\<close>

function getlines :: "wchar \<Rightarrow> wstring \<Rightarrow> wstring list" where
  "getlines delim [] = []"
| "getlines delim (c # s) = takeWhile (\<lambda>x. x \<noteq> delim) (c # s) # getlines delim (drop 1 (dropWhile (\<lambda>x. x \<noteq> delim) (c # s)))"
  by pat_completeness auto
termination
  by (relation "measure (length \<circ> snd)") (auto simp: less_Suc_eq_le intro: le_trans [OF diff_le_self] length_dropWhile_le)

definition split_path :: "wstring \<Rightarrow> wstring list" where
  "split_path path = filter (\<lambda>s. s \<noteq> []) (getlines 47 path)"

text \<open>The loop of \<open>split_query\<close> over the text from \<open>prev_amp_index\<close> on.\<close>

definition add_pair :: "(wstring \<rightharpoonup> wstring) \<Rightarrow> wstring \<Rightarrow> (wstring \<rightharpoonup> wstring)" where
  "add_pair results key_value_pair =
     (if 61 \<notin> set key_value_pair then results
      else results(takeWhile (\<lambda>c. c \<noteq> 61) key_value_pair \<mapsto> drop 1 (dropWhile (\<lambda>c. c \<noteq> 61) key_value_pair)))"

function split_query_loop :: "(wstring \<rightharpoonup> wstring) \<Rightarrow> wstring \<Rightarrow> (wstring \<rightharpoonup> wstring)" where
  "split_query_loop results query =
     (let delim = (if 38 \<in> set query then 38 else 59)
      in if delim \<notin> set query then add_pair results query
         else split_query_loop (add_pair results (takeWhile (\<lambda>c. c \<noteq> delim) query)) (drop 1 (dropWhile (\<lambda>c. c \<noteq> delim) query)))"
  by pat_completeness auto
termination
proof (relation "measure (length \<circ> snd)")
  fix results query and delim :: wchar
  assume "\<not> delim \<notin> set query"
  then show "((add_pair results (takeWhile (\<lambda>c. c \<noteq> delim) query), drop 1 (dropWhile (\<lambda>c. c \<noteq> delim) query)), (results, query))
      \<in> measure (length \<circ> snd)"
    using length_dropWhile_le [of "\<lambda>c. c \<noteq> delim" query] by (cases query) auto
qed simp

declare split_query_loop.simps [simp del]

definition split_query :: "wstring \<Rightarrow> (wstring \<rightharpoonup> wstring)" where
  "split_query = split_query_loop Map.empty"

section \<open>What is encoded is decoded\<close>

definition hex_characters :: wstring where
  "hex_characters = [48, 49, 50, 51, 52, 53, 54, 55, 56, 57, 65, 66, 67, 68, 69, 70]"

lemma hex_characters: "wlit ''0123456789ABCDEF'' = hex_characters"
  by (simp add: wlit_Cons hex_characters_def)

lemma hex_digits_read: "list_all (\<lambda>i. hex_char_digit_to_decimal_char (hex_characters ! i) = Some i \<and> is_alnum (ucast (hex_characters ! i)) \<and> hex_characters ! i < 128) [0..<16]"
  by (simp add: upt_rec hex_characters_def hex_char_digit_to_decimal_char_def is_alnum_def)

lemma hex_digit:
  assumes "i < 16"
  shows "hex_char_digit_to_decimal_char (hex_characters ! i) = Some i" "is_alnum (ucast (hex_characters ! i))" "hex_characters ! i < 128"
  using hex_digits_read assms by (auto simp: list_all_iff)

lemma byte_nibbles:
  fixes ch :: u8
  shows "unat (drop_bit 4 ch AND 0xF) < 16" "unat (ch AND 0xF) < 16"
    and "unat (drop_bit 4 ch AND 0xF) * 16 + unat (ch AND 0xF) = unat ch"
proof -
  have "x AND 0xF = take_bit 4 x" for x :: u8
    by (simp add: take_bit_eq_mask mask_numeral)
  then have 1: "unat (drop_bit 4 ch AND 0xF) = unat ch div 16 mod 16" "unat (ch AND 0xF) = unat ch mod 16"
    by (simp_all add: take_bit_eq_mod drop_bit_eq_div unat_div unat_mod)
  have "unat ch < 256" using unsigned_less [of ch] by simp
  with 1 show "unat (drop_bit 4 ch AND 0xF) < 16" "unat (ch AND 0xF) < 16"
    "unat (drop_bit 4 ch AND 0xF) * 16 + unat (ch AND 0xF) = unat ch"
    by simp_all
qed

lemma low_byte: "(ucast (ucast (ch :: u8) :: wchar) :: u8) = ch"
  by (rule bit_word_eqI) (auto simp: bit_simps)

lemma decode_loop_byte:
  assumes "should_encode 37"
  shows "decode_loop (encode_byte should_encode ch @ rest) = map_sum id (\<lambda>bs. ch # bs) (decode_loop rest)"
proof (cases "should_encode (ucast ch)")
  case True
  then show ?thesis
    by (simp add: encode_byte_def hex_characters hex_digit byte_nibbles)
next
  case False
  then have "(ucast ch :: wchar) \<noteq> 37" using assms by auto
  then show ?thesis using False by (simp add: encode_byte_def low_byte)
qed

lemma decode_loop_encoded:
  assumes "should_encode 37"
  shows "decode_loop (concat (map (encode_byte should_encode) bs)) = Inr bs"
  by (induction bs) (simp_all add: decode_loop_byte [where should_encode = should_encode, OF assms])

lemma decode_encode_impl:
  assumes "should_encode 37" and "encode_impl should_encode raw = Inr e"
  shows "decode e = Inr raw"
proof -
  obtain bs where bs: "utf16_to_utf8 raw = Inr bs" "e = concat (map (encode_byte should_encode) bs)"
    using assms(2) by (cases "utf16_to_utf8 raw") (auto simp: encode_impl_def)
  then show ?thesis
    using utf8_back [OF bs(1)] by (simp add: decode_def decode_loop_encoded [where should_encode = should_encode, OF assms(1)])
qed

text \<open>The characters of an encoded text.\<close>

fun component_character :: "component \<Rightarrow> wchar \<Rightarrow> bool" where
  "component_character UserInfo c \<longleftrightarrow> is_user_info_character c"
| "component_character Host c \<longleftrightarrow> c < 128"
| "component_character Path c \<longleftrightarrow> is_path_character c"
| "component_character Query c \<longleftrightarrow> is_query_character c"
| "component_character Fragment c \<longleftrightarrow> is_fragment_character c"
| "component_character FullUri c \<longleftrightarrow> is_unreserved c \<or> is_reserved c \<or> c = 37"

lemmas classes = is_unreserved_def is_gen_delim_def is_sub_delim_def is_reserved_def is_scheme_character_def
  is_user_info_character_def is_authority_character_def is_path_character_def is_query_character_def is_fragment_character_def

lemma alnum_ascii: "is_alnum ch \<Longrightarrow> ch < 128"
  by (auto simp: is_alnum_def word_le_nat_alt word_less_nat_alt)

lemma ascii_byte: "ch < 128 \<Longrightarrow> (ucast (ch :: u8) :: wchar) < 128"
  by (simp add: word_less_nat_alt unsigned_ucast_eq take_bit_nat_eq_self)

lemma encode_impl_characters:
  assumes "encode_impl should_encode raw = Inr e" and "x \<in> set e"
    and "\<And>ch :: u8. \<not> should_encode (ucast ch) \<Longrightarrow> P (ucast ch)" and "P 37"
    and "\<And>c. is_alnum (ucast c) \<Longrightarrow> c < 128 \<Longrightarrow> P c"
  shows "P x"
proof -
  obtain bs ch where "x \<in> set (encode_byte should_encode ch)"
    using assms(1,2) by (cases "utf16_to_utf8 raw") (auto simp: encode_impl_def)
  then show ?thesis
    using assms(3-5) by (auto simp: encode_byte_def hex_characters hex_digit byte_nibbles Let_def split: if_splits)
qed

lemma class_ascii:
  "is_unreserved (ucast (ch :: u8)) \<Longrightarrow> (ucast ch :: wchar) < 128" "is_sub_delim x \<Longrightarrow> x < 128" "is_gen_delim x \<Longrightarrow> x < 128"
  by (auto simp: is_unreserved_def is_sub_delim_def is_gen_delim_def wlit_Cons low_byte dest: alnum_ascii [THEN ascii_byte])

lemma plain_ascii: "\<not> encodes c (ucast (ch :: u8)) \<Longrightarrow> component_character c (ucast ch) \<and> (ucast ch :: wchar) < 128"
  by (cases c)
    (auto simp: is_user_info_character_def is_path_character_def is_query_character_def is_fragment_character_def is_reserved_def
      wlit_Cons word_less_nat_alt word_le_nat_alt dest: class_ascii [unfolded word_less_nat_alt])

lemma always_allowed:
  "component_character c 37" "is_alnum (ucast x) \<Longrightarrow> x < 128 \<Longrightarrow> component_character c x"
  by (cases c; simp add: classes wlit_Cons)+

lemma percent_encoded: "c \<noteq> Host \<Longrightarrow> encodes c 37"
  by (cases c) (simp_all add: classes is_alnum_def wlit_Cons)

text \<open>C26: Encoding and decoding the parts of a URI. Whatever \<open>encode_uri\<close> returns for a part consists of the ASCII characters
  this part may have, and, except for the host, whose percent signs are not encoded, \<open>decode\<close> gives back the text; and so
  does the encoding of data.\<close>
theorem encoded_read_back:
  assumes "encode_uri raw c = Inr e" and "encode_data_string raw = Inr d"
  shows "list_all (\<lambda>x. component_character c x \<and> x < 128) e \<and> (c \<noteq> Host \<longrightarrow> decode e = Inr raw)
    \<and> list_all (\<lambda>x. is_unreserved x \<or> x = 37) d \<and> decode d = Inr raw"
proof (intro conjI impI)
  show "list_all (\<lambda>x. component_character c x \<and> x < 128) e"
    unfolding list_all_iff
  proof
    fix x assume "x \<in> set e"
    with assms(1) [unfolded encode_uri_def] show "component_character c x \<and> x < 128"
      by (rule encode_impl_characters) (simp_all add: plain_ascii always_allowed)
  qed
  show "list_all (\<lambda>x. is_unreserved x \<or> x = 37) d"
    unfolding list_all_iff
  proof
    fix x assume "x \<in> set d"
    with assms(2) [unfolded encode_data_string_def] show "is_unreserved x \<or> x = 37"
      by (rule encode_impl_characters) (auto simp: is_unreserved_def)
  qed
  have "\<not> is_unreserved 37"
    by (simp add: is_unreserved_def is_alnum_def wlit_Cons)
  then show "decode d = Inr raw"
    using assms(2) unfolding encode_data_string_def by (intro decode_encode_impl [of "\<lambda>ch. \<not> is_unreserved ch"])
  show "decode e = Inr raw" if "c \<noteq> Host"
    using percent_encoded [OF that] assms(1) unfolding encode_uri_def by (rule decode_encode_impl)
qed

theorem encoded_read_back_witness:
  "decode (wlit ''%E4%BD%A0/%25a'') = Inr [0x4F60, 47, 37, 97] \<and> decode (wlit ''%E4%BD%A0%2F%25a'') = Inr [0x4F60, 47, 37, 97]"
proof -
  have "encode_uri [0x4F60, 47, 37, 97] Path = Inr (wlit ''%E4%BD%A0/%25a'')" "encode_data_string [0x4F60, 47, 37, 97] = Inr (wlit ''%E4%BD%A0%2F%25a'')"
    by (simp_all add: encode_uri_def encode_data_string_def encode_impl_def encode_byte_def unit_bytes_def high_surrogate_def hex_characters
        hex_characters_def classes is_alnum_def wlit_Cons)
  from encoded_read_back [OF this] show ?thesis by simp
qed

section \<open>Splitting and joining\<close>

lemma before_first:
  assumes "x \<notin> set a"
  shows "takeWhile (\<lambda>c. c \<noteq> x) (a @ x # b) = a" "dropWhile (\<lambda>c. c \<noteq> x) (a @ x # b) = x # b"
    and "takeWhile (\<lambda>c. c \<noteq> x) a = a" "dropWhile (\<lambda>c. c \<noteq> x) a = []"
  using assms by (induction a) auto

lemma getlines_eq: "getlines x s = (if s = [] then [] else takeWhile (\<lambda>c. c \<noteq> x) s # getlines x (drop 1 (dropWhile (\<lambda>c. c \<noteq> x) s)))"
  by (cases s) simp_all

lemma getlines_first:
  assumes "47 \<notin> set a"
  shows "getlines 47 (a @ 47 # b) = a # getlines 47 b" and "a \<noteq> [] \<Longrightarrow> getlines 47 a = [a]"
  by (simp_all add: getlines_eq [of 47 "a @ 47 # b"] getlines_eq [of 47 a] before_first [OF assms])

lemma split_path_join: "split_path (p @ 47 # q) = split_path p @ split_path q"
proof (induction p rule: length_induct)
  case (1 p)
  show ?case
  proof (cases "47 \<in> set p")
    case True
    then obtain a b where p: "p = a @ 47 # b" "47 \<notin> set a" by (meson split_list_first)
    then have "split_path (b @ 47 # q) = split_path b @ split_path q" using 1 by simp
    then show ?thesis using p(2) by (simp add: p(1) split_path_def getlines_first(1))
  next
    case False
    then show ?thesis
      using getlines_first(2) [OF False] by (cases "p = []") (simp_all add: split_path_def getlines_first(1))
  qed
qed

fun join_pairs :: "(wstring \<times> wstring) list \<Rightarrow> wstring" where
  "join_pairs [] = []"
| "join_pairs [(k, v)] = k @ 61 # v"
| "join_pairs ((k, v) # kvs) = k @ 61 # v @ 38 # join_pairs kvs"

definition plain_pair :: "wstring \<times> wstring \<Rightarrow> bool" where
  "plain_pair kv \<longleftrightarrow> set (fst kv) \<inter> {38, 59, 61} = {} \<and> set (snd kv) \<inter> {38, 59} = {}"

lemma add_pair_text: "61 \<notin> set k \<Longrightarrow> add_pair m (k @ 61 # v) = m(k \<mapsto> v)"
  by (simp add: add_pair_def before_first)

lemma split_query_loop_pairs:
  assumes "list_all plain_pair kvs"
  shows "split_query_loop m (join_pairs kvs) = m ++ map_of (rev kvs)"
  using assms
proof (induction kvs arbitrary: m rule: join_pairs.induct)
  case 1
  show ?case by (simp add: split_query_loop.simps [of m "[]"] add_pair_def)
next
  case (2 k v)
  then show ?case
    by (subst split_query_loop.simps) (auto simp: plain_pair_def add_pair_text)
next
  case (3 k v kv kvs)
  let ?p = "k @ 61 # v"
  have p: "38 \<notin> set ?p" "61 \<notin> set k" using "3.prems" by (auto simp: plain_pair_def)
  have "split_query_loop m (?p @ 38 # join_pairs (kv # kvs)) = split_query_loop (add_pair m ?p) (join_pairs (kv # kvs))"
    using p(1) by (subst split_query_loop.simps)
      (simp add: before_first [OF p(1)] del: append_assoc append_Cons)
  also have "\<dots> = m(k \<mapsto> v) ++ map_of (rev (kv # kvs))"
    using "3.IH" "3.prems" p(2) by (simp add: add_pair_text)
  also have "\<dots> = m ++ map_of (rev ((k, v) # kv # kvs))"
    unfolding rev.simps(2) [of "(k, v)"] map_of_append by (simp add: map_add_assoc)
  finally show ?case by simp
qed

definition encoded_pair :: "wstring \<times> wstring \<Rightarrow> wstring \<times> wstring \<Rightarrow> bool" where
  "encoded_pair raw kv \<longleftrightarrow> encode_parameter (fst raw) = Inr (fst kv) \<and> encode_parameter (snd raw) = Inr (snd kv)"

lemma encode_parameter_facts:
  assumes "encode_parameter raw = Inr d"
  shows "set d \<inter> {38, 59, 61} = {}" and "decode d = Inr raw"
proof -
  have "x \<notin> {38, 59, 61}" if "x \<in> set d" for x
    using assms [unfolded encode_parameter_def] that
    by (rule encode_impl_characters) (auto simp: is_alnum_def wlit_Cons)
  then show "set d \<inter> {38, 59, 61} = {}" by blast
  show "decode d = Inr raw"
    using assms unfolding encode_parameter_def by (rule decode_encode_impl [rotated]) (simp add: wlit_Cons)
qed

lemma encoded_plain: "encoded_pair r kv \<Longrightarrow> plain_pair kv"
  using encode_parameter_facts(1) [of "fst r" "fst kv"] encode_parameter_facts(1) [of "snd r" "snd kv"]
  unfolding encoded_pair_def plain_pair_def by blast

lemma lookup_encoded:
  assumes "list_all2 encoded_pair raw kvs" and "map_of raw k = Some v"
  shows "\<exists>k' v'. encode_parameter k = Inr k' \<and> map_of kvs k' = Some v' \<and> decode v' = Inr v"
  using assms
proof (induction rule: list_all2_induct)
  case (Cons r raw kv kvs)
  have e: "encode_parameter (fst r) = Inr (fst kv)" "encode_parameter (snd r) = Inr (snd kv)"
    using Cons.hyps(1) by (simp_all add: encoded_pair_def)
  show ?case
  proof (cases "fst r = k")
    case True
    then show ?thesis
      using e encode_parameter_facts(2) [OF e(2)] Cons.prems by (cases r; cases kv) auto
  next
    case False
    then obtain k' v' where k': "encode_parameter k = Inr k'" "map_of kvs k' = Some v'" "decode v' = Inr v"
      using Cons.IH Cons.prems by (cases r) auto
    then have "fst kv \<noteq> k'"
      using encode_parameter_facts(2) [OF e(1)] encode_parameter_facts(2) [OF k'(1)] False by auto
    then show ?thesis
      using k' by (cases kv) auto
  qed
qed simp

lemma query_read_back:
  assumes "list_all2 encoded_pair raw kvs"
  shows "split_query (join_pairs kvs) = map_of (rev kvs)"
    and "map_of (rev raw) k = Some v \<Longrightarrow>
      \<exists>k' v'. encode_parameter k = Inr k' \<and> split_query (join_pairs kvs) k' = Some v' \<and> decode v' = Inr v"
proof -
  have "list_all plain_pair kvs"
    using assms by (induction rule: list_all2_induct) (simp_all add: encoded_plain)
  then show split: "split_query (join_pairs kvs) = map_of (rev kvs)"
    by (simp add: split_query_def split_query_loop_pairs)
  have "list_all2 encoded_pair (rev raw) (rev kvs)"
    using assms by simp
  then show "map_of (rev raw) k = Some v \<Longrightarrow>
      \<exists>k' v'. encode_parameter k = Inr k' \<and> split_query (join_pairs kvs) k' = Some v' \<and> decode v' = Inr v"
    unfolding split by (rule lookup_encoded)
qed

text \<open>As long as there is a \<open>&\<close> behind it, a semicolon does not end a pair.\<close>

lemma semicolon_kept: "split_query (wlit ''a=1;b=2&c=3'') = [wlit ''a'' \<mapsto> wlit ''1;b=2'', wlit ''c'' \<mapsto> wlit ''3'']"
  by (simp add: split_query_def split_query_loop.simps add_pair_def wlit_Cons fun_eq_iff)

end
