(* ===== verification/Uri.thy ===== *)
theory Uri
  imports Uri_Encoding "HOL-Library.Monad_Syntax"
begin

text \<open>
  URIs of the SDK: their parts, the text they are joined to, the parser and the builder (\<open>uri/uri.cpp\<close>,
  \<open>uri/uri_parser.cpp\<close>, \<open>uri/uri_builder.cpp\<close> and their headers).
\<close>

section \<open>The runtime library\<close>

text \<open>
  \<open>isalpha\<close>, \<open>isdigit\<close> and \<open>tolower\<close> are documented for ASCII in the classic locale. What they do beyond, and what an integer holds
  that was never set, is the parameter \<open>runtime\<close>.
\<close>

record runtime =
  alpha_beyond :: "wchar \<Rightarrow> bool"
  digit_beyond :: "wchar \<Rightarrow> bool"
  lower_beyond :: "wchar \<Rightarrow> wchar"
  wide_lower_beyond :: "wchar \<Rightarrow> wchar"
  unset_int :: int

definition isalpha :: "runtime \<Rightarrow> wchar \<Rightarrow> bool" where
  "isalpha rt c = (if c < 128 then 65 \<le> c \<and> c \<le> 90 \<or> 97 \<le> c \<and> c \<le> 122 else alpha_beyond rt c)"

definition isdigit :: "runtime \<Rightarrow> wchar \<Rightarrow> bool" where
  "isdigit rt c = (if c < 128 then 48 \<le> c \<and> c \<le> 57 else digit_beyond rt c)"

definition tolower :: "runtime \<Rightarrow> wchar \<Rightarrow> wchar" where
  "tolower rt c = (if c < 128 then if 65 \<le> c \<and> c \<le> 90 then c + 32 else c else lower_beyond rt c)"

definition tolower_classic :: "runtime \<Rightarrow> wchar \<Rightarrow> wchar" where
  "tolower_classic rt c = (if c < 128 then if 65 \<le> c \<and> c \<le> 90 then c + 32 else c else wide_lower_beyond rt c)"

text \<open>\<open>scan_string<int>\<close>: nothing is set for an empty text, and a value too large becomes the largest.\<close>

definition scan_int :: "runtime \<Rightarrow> wstring \<Rightarrow> int" where
  "scan_int rt w =
     (if w = [] then unset_int rt
      else min 2147483647 (int (foldl (\<lambda>n c. 10 * n + unat (c - 48)) 0 (takeWhile (\<lambda>c. 48 \<le> c \<and> c \<le> 57) w))))"

section \<open>Components\<close>

record uri_components =
  m_scheme :: wstring
  m_host :: wstring
  m_user_info :: wstring
  m_path :: wstring
  m_query :: wstring
  m_fragment :: wstring
  m_port :: int

definition new_components :: uri_components where
  "new_components = \<lparr>m_scheme = [], m_host = [], m_user_info = [], m_path = [47], m_query = [], m_fragment = [], m_port = -1\<rparr>"

text \<open>\<open>join\<close> puts the components into canonical form and writes them.\<close>

definition canonicalize :: "runtime \<Rightarrow> uri_components \<Rightarrow> uri_components" where
  "canonicalize rt c =
     (let c = c\<lparr>m_scheme := map (tolower rt) (m_scheme c), m_host := map (tolower rt) (m_host c)\<rparr>
      in if m_host c \<noteq> [] \<and> m_path c = [] then c\<lparr>m_path := [47]\<rparr>
         else if m_host c \<noteq> [] \<and> hd (m_path c) \<noteq> 47 then c\<lparr>m_path := 47 # m_path c\<rparr>
         else c)"

definition join_text :: "uri_components \<Rightarrow> wstring" where
  "join_text c =
     (if m_scheme c = [] then [] else m_scheme c @ [58])
     @ (if m_host c = [] then []
        else [47, 47] @ (if m_user_info c = [] then [] else m_user_info c @ [64]) @ m_host c
          @ (if m_port c > 0 then 58 # print_int (m_port c) else []))
     @ (if m_path c = [] then [] else (if m_host c \<noteq> [] \<and> hd (m_path c) \<noteq> 47 then [47] else []) @ m_path c)
     @ (if m_query c = [] then [] else 63 # m_query c)
     @ (if m_fragment c = [] then [] else 35 # m_fragment c)"

definition join_components :: "runtime \<Rightarrow> uri_components \<Rightarrow> wstring \<times> uri_components" where
  "join_components rt c = (let c = canonicalize rt c in (join_text c, c))"

section \<open>Parsing\<close>

text \<open>A part that ends before a character of \<open>stop\<close> or at the end of the text; every character in it is tested.\<close>

fun scan_part :: "(wchar \<Rightarrow> bool) \<Rightarrow> (wchar \<Rightarrow> bool) \<Rightarrow> wstring \<Rightarrow> (wstring \<times> wstring) option" where
  "scan_part stop ok [] = Some ([], [])"
| "scan_part stop ok (c # p) =
     (if stop c then Some ([], c # p) else if ok c then map_option (apfst (\<lambda>part. c # part)) (scan_part stop ok p) else None)"

text \<open>The search for a colon before the first slash.\<close>

fun is_relative_reference :: "wstring \<Rightarrow> bool" where
  "is_relative_reference [] = True"
| "is_relative_reference (c # p) = (if c = 47 then True else if c = 58 then False else is_relative_reference p)"

text \<open>The scheme behind its first character, up to the colon, which is skipped; the text ends with a null character.\<close>

fun scan_scheme :: "wstring \<Rightarrow> (wstring \<times> wstring) option" where
  "scan_scheme [] = (if is_scheme_character 0 then Some ([], []) else None)"
| "scan_scheme (c # p) =
     (if c = 58 then Some ([], p) else if is_scheme_character c then map_option (apfst (\<lambda>s. c # s)) (scan_scheme p) else None)"

record parts =
  scheme_part :: "wstring option"
  uinfo_part :: "wstring option"
  host_part :: "wstring option"
  port_value :: int
  path_part :: "wstring option"
  query_part :: "wstring option"
  fragment_part :: "wstring option"

definition no_parts :: parts where
  "no_parts = \<lparr>scheme_part = None, uinfo_part = None, host_part = None, port_value = 0, path_part = None, query_part = None, fragment_part = None\<rparr>"

text \<open>
  An authority that is not empty: the port behind the last colon when only digits follow, then the user information before the
  first character that cannot be part of it, when this is an at sign. (The pointer that looks for it stops at the end of the
  host, where a colon or the end of the authority stands.)
\<close>

definition split_port :: "runtime \<Rightarrow> wstring \<Rightarrow> wstring \<times> int" where
  "split_port rt authority =
     (let digits = rev (takeWhile (isdigit rt) (rev authority)); front = rev (dropWhile (isdigit rt) (rev authority))
      in if front \<noteq> [] \<and> last front = 58 then (butlast front, scan_int rt digits) else (authority, 0))"

definition split_authority :: "runtime \<Rightarrow> wstring \<Rightarrow> parts \<Rightarrow> parts" where
  "split_authority rt authority r =
     (case split_port rt authority of
        (host, port) \<Rightarrow>
          let u = takeWhile is_user_info_character host; rest = dropWhile is_user_info_character host
          in if rest \<noteq> [] \<and> hd rest = 64
             then r\<lparr>port_value := port, uinfo_part := Some u, host_part := Some (tl rest)\<rparr>
             else r\<lparr>port_value := port, host_part := Some host\<rparr>)"

definition parse_scheme :: "runtime \<Rightarrow> wstring \<Rightarrow> (parts \<times> wstring) option" where
  "parse_scheme rt p =
     (if is_relative_reference p then Some (no_parts, p)
      else case p of
             [] \<Rightarrow> None
           | c # q \<Rightarrow>
               if \<not> isalpha rt c then None
               else map_option (\<lambda>(s, p). (no_parts\<lparr>scheme_part := Some (c # s)\<rparr>, p)) (scan_scheme q))"

definition parse_authority :: "runtime \<Rightarrow> parts \<times> wstring \<Rightarrow> (parts \<times> wstring) option" where
  "parse_authority rt = (\<lambda>(r, p).
     if take 2 p = [47, 47]
     then map_option (\<lambda>(authority, p). (if authority = [] then r else split_authority rt authority r, p))
       (scan_part (\<lambda>c. c \<in> {47, 63, 35}) is_authority_character (drop 2 p))
     else Some (r, p))"

definition parse_path :: "parts \<times> wstring \<Rightarrow> (parts \<times> wstring) option" where
  "parse_path = (\<lambda>(r, p).
     if p \<noteq> [] \<and> (hd p = 47 \<or> is_path_character (hd p))
     then map_option (\<lambda>(path, p). (r\<lparr>path_part := Some path\<rparr>, p)) (scan_part (\<lambda>c. c \<in> {63, 35}) is_path_character p)
     else Some (r, p))"

definition parse_query :: "parts \<times> wstring \<Rightarrow> (parts \<times> wstring) option" where
  "parse_query = (\<lambda>(r, p).
     if p \<noteq> [] \<and> hd p = 63
     then map_option (\<lambda>(query, p). (r\<lparr>query_part := Some query\<rparr>, p)) (scan_part (\<lambda>c. c = 35) is_query_character (tl p))
     else Some (r, p))"

definition parse_fragment :: "parts \<times> wstring \<Rightarrow> (parts \<times> wstring) option" where
  "parse_fragment = (\<lambda>(r, p).
     if p \<noteq> [] \<and> hd p = 35
     then map_option (\<lambda>(fragment, p). (r\<lparr>fragment_part := Some fragment\<rparr>, p)) (scan_part (\<lambda>c. False) is_fragment_character (tl p))
     else Some (r, p))"

definition inner_parse :: "runtime \<Rightarrow> wstring \<Rightarrow> parts option" where
  "inner_parse rt encoded = do {
     x \<leftarrow> parse_scheme rt encoded;
     x \<leftarrow> parse_authority rt x;
     x \<leftarrow> parse_path x;
     x \<leftarrow> parse_query x;
     x \<leftarrow> parse_fragment x;
     Some (fst x) }"

definition uri_validate :: "runtime \<Rightarrow> wstring \<Rightarrow> bool" where
  "uri_validate rt encoded_string \<longleftrightarrow> inner_parse rt (c_str encoded_string) \<noteq> None"

text \<open>The user information of components that had one stays when the text has none.\<close>

definition parse :: "runtime \<Rightarrow> wstring \<Rightarrow> uri_components \<Rightarrow> uri_components option" where
  "parse rt encoded_string components =
     map_option (\<lambda>r. components
       \<lparr>m_scheme := (case scheme_part r of None \<Rightarrow> [] | Some s \<Rightarrow> map (tolower_classic rt) s),
        m_user_info := (case uinfo_part r of None \<Rightarrow> m_user_info components | Some u \<Rightarrow> u),
        m_host := (case host_part r of None \<Rightarrow> [] | Some h \<Rightarrow> map (tolower_classic rt) h),
        m_port := port_value r,
        m_path := (case path_part r of None \<Rightarrow> [47] | Some p \<Rightarrow> p),
        m_query := (case query_part r of None \<Rightarrow> [] | Some q \<Rightarrow> q),
        m_fragment := (case fragment_part r of None \<Rightarrow> [] | Some f \<Rightarrow> f)\<rparr>)
       (inner_parse rt (c_str encoded_string))"

section \<open>URIs\<close>

record uri =
  m_uri :: wstring
  m_components :: uri_components

text \<open>The constructor from a text; \<open>None\<close> is the exception.\<close>

definition new_uri :: "runtime \<Rightarrow> wstring \<Rightarrow> uri option" where
  "new_uri rt uri_string =
     map_option (\<lambda>c. case join_components rt c of (text, c) \<Rightarrow> \<lparr>m_uri = text, m_components = c\<rparr>) (parse rt uri_string new_components)"

definition is_empty_uri :: "uri \<Rightarrow> bool" where
  "is_empty_uri u \<longleftrightarrow> m_uri u = [] \<or> m_uri u = [47]"

section \<open>The builder\<close>

text \<open>A builder is its components.\<close>

definition to_uri :: "runtime \<Rightarrow> uri_components \<Rightarrow> uri option" where
  "to_uri rt b = new_uri rt (fst (join_components rt b))"

definition uri_authority :: "runtime \<Rightarrow> uri \<Rightarrow> uri option" where
  "uri_authority rt u =
     to_uri rt (new_components\<lparr>m_scheme := m_scheme (m_components u), m_host := m_host (m_components u),
       m_port := m_port (m_components u), m_user_info := m_user_info (m_components u)\<rparr>)"

definition uri_resource :: "runtime \<Rightarrow> uri \<Rightarrow> uri option" where
  "uri_resource rt u =
     to_uri rt (new_components\<lparr>m_path := m_path (m_components u), m_query := m_query (m_components u),
       m_fragment := m_fragment (m_components u)\<rparr>)"

definition encoded_if :: "bool \<Rightarrow> wstring \<Rightarrow> component \<Rightarrow> range_error + wstring" where
  "encoded_if is_encode raw c = (if is_encode then encode_uri raw c else Inr raw)"

definition append_path :: "uri_components \<Rightarrow> wstring \<Rightarrow> bool \<Rightarrow> range_error + uri_components" where
  "append_path b path is_encode =
     (if path = [] \<or> path = [47] then Inr b
      else map_sum id (\<lambda>encoded_path.
        let thisPath = m_path b
        in b\<lparr>m_path :=
             if thisPath = [] \<or> thisPath = [47]
             then if hd encoded_path \<noteq> 47 then 47 # encoded_path else encoded_path
             else if last thisPath = 47 \<and> hd encoded_path = 47 then butlast thisPath @ encoded_path
             else if last thisPath \<noteq> 47 \<and> hd encoded_path \<noteq> 47 then thisPath @ 47 # encoded_path
             else thisPath @ encoded_path\<rparr>)
        (encoded_if is_encode path Path))"

definition append_query :: "uri_components \<Rightarrow> wstring \<Rightarrow> bool \<Rightarrow> range_error + uri_components" where
  "append_query b query is_encode =
     (if query = [] then Inr b
      else map_sum id (\<lambda>encoded_query.
        let thisQuery = m_query b
        in b\<lparr>m_query :=
             if thisQuery = [] then encoded_query
             else if last thisQuery = 38 \<and> hd encoded_query = 38 then butlast thisQuery @ encoded_query
             else if last thisQuery \<noteq> 38 \<and> hd encoded_query \<noteq> 38 then thisQuery @ 38 # encoded_query
             else thisQuery @ encoded_query\<rparr>)
        (encoded_if is_encode query Query))"

text \<open>The template \<open>append_query\<close> for a name and a value that is a text.\<close>

definition append_parameter :: "uri_components \<Rightarrow> wstring \<Rightarrow> wstring \<Rightarrow> bool \<Rightarrow> range_error + uri_components" where
  "append_parameter b name val do_encoding =
     (if do_encoding
      then case encode_parameter name of
             Inl e \<Rightarrow> Inl e
           | Inr encodedName \<Rightarrow>
               (case encode_parameter val of
                  Inl e \<Rightarrow> Inl e
                | Inr encodedValue \<Rightarrow> append_query b (encodedName @ 61 # encodedValue) False)
      else append_query b (name @ 61 # val) False)"

definition append_uri :: "uri_components \<Rightarrow> uri \<Rightarrow> range_error + uri_components" where
  "append_uri b relative_uri =
     (case append_path b (m_path (m_components relative_uri)) False of
        Inl e \<Rightarrow> Inl e
      | Inr b \<Rightarrow>
          map_sum id (\<lambda>b. b\<lparr>m_fragment := m_fragment b @ m_fragment (m_components relative_uri)\<rparr>)
            (append_query b (m_query (m_components relative_uri)) False))"

section \<open>What the builder appends\<close>

lemma encoded_if_not_Nil: "encoded_if is_encode raw Path = Inr e \<Longrightarrow> raw \<noteq> [] \<Longrightarrow> e \<noteq> []"
  using decode_encode_impl [of "encodes Path" raw "[]"] percent_encoded [of Path]
  by (cases is_encode) (auto simp: encoded_if_def encode_uri_def decode_def)

lemma split_path_slash: "split_path [] = []" "split_path [47] = []" "split_path (47 # q) = split_path q" "split_path (p @ [47]) = split_path p"
  using split_path_join [of "[]" "[]"] split_path_join [of "[]" q] split_path_join [of p "[]"] by (simp_all add: split_path_def)

lemma split_path_appended:
  assumes "e \<noteq> []"
  shows "split_path
      (if p = [] \<or> p = [47] then if hd e \<noteq> 47 then 47 # e else e
       else if last p = 47 \<and> hd e = 47 then butlast p @ e
       else if last p \<noteq> 47 \<and> hd e \<noteq> 47 then p @ 47 # e
       else p @ e)
    = split_path p @ split_path e"
proof -
  obtain x e' where e: "e = x # e'" using assms by (cases e) auto
  show ?thesis
  proof (cases "p = [] \<or> p = [47]")
    case True
    then show ?thesis by (auto simp: split_path_slash)
  next
    case False
    then obtain y p' where p: "p = p' @ [y]" by (cases p rule: rev_cases) auto
    show ?thesis
      using False by (auto simp: p e split_path_slash split_path_join split_path_join [of "p' @ [y]", simplified])
  qed
qed

text \<open>Appending to a path. Whatever slashes the two paths end and begin with, the segments of the path that \<open>append_path\<close>
  leaves are those of the old path followed by those of the appended one, and nothing else of the builder changes.\<close>
theorem append_path_segments:
  assumes "append_path b path is_encode = Inr b'" and "encoded_if is_encode path Path = Inr e"
  shows "split_path (m_path b') = split_path (m_path b) @ split_path e \<and> b' = b\<lparr>m_path := m_path b'\<rparr>"
proof (cases "path = [] \<or> path = [47]")
  case True
  then have "e = path"
    using assms(2) by (cases is_encode)
      (auto simp: encoded_if_def encode_uri_def encode_impl_def encode_byte_def unit_bytes_def high_surrogate_def classes wlit_Cons)
  with True assms(1) show ?thesis
    by (auto simp: append_path_def split_path_slash)
next
  case False
  then have "e \<noteq> []" using encoded_if_not_Nil [OF assms(2)] by simp
  from split_path_appended [OF this, of "m_path b"] show ?thesis
    using False assms by (auto simp: append_path_def Let_def)
qed

theorem append_path_segments_witness:
  "\<exists>b'. append_path (new_components\<lparr>m_path := wlit ''/a/''\<rparr>) (wlit ''/b//c'') False = Inr b'
    \<and> split_path (m_path b') = [wlit ''a'', wlit ''b'', wlit ''c'']"
proof -
  let ?b = "new_components\<lparr>m_path := wlit ''/a/''\<rparr>"
  have "append_path ?b (wlit ''/b//c'') False = Inr (?b\<lparr>m_path := wlit ''/a/b//c''\<rparr>)"
    by (simp add: append_path_def encoded_if_def wlit_Cons)
  from append_path_segments [OF this, of "wlit ''/b//c''"] this show ?thesis
    by (simp add: encoded_if_def split_path_def wlit_Cons)
qed

lemma join_pairs_snoc: "kvs \<noteq> [] \<Longrightarrow> join_pairs (kvs @ [(k, v)]) = join_pairs kvs @ 38 # k @ 61 # v"
  by (induction kvs rule: join_pairs.induct) simp_all

lemma last_join_pairs:
  assumes "list_all plain_pair kvs" and "kvs \<noteq> []"
  shows "join_pairs kvs \<noteq> [] \<and> last (join_pairs kvs) \<noteq> 38"
  using assms
proof (induction kvs rule: join_pairs.induct)
  case (2 k v)
  then show ?case by (cases v rule: rev_cases) (auto simp: plain_pair_def)
qed auto

text \<open>Appending several names with their values, one after the other.\<close>

fun append_parameters :: "uri_components \<Rightarrow> (wstring \<times> wstring) list \<Rightarrow> range_error + uri_components" where
  "append_parameters b [] = Inr b"
| "append_parameters b ((name, val) # raw) =
     (case append_parameter b name val True of Inl e \<Rightarrow> Inl e | Inr b \<Rightarrow> append_parameters b raw)"

lemma append_parameter_pairs:
  assumes "m_query b = join_pairs kvs" and "list_all plain_pair kvs" and "append_parameter b name val True = Inr b'"
  obtains k v where "encoded_pair (name, val) (k, v)" "b' = b\<lparr>m_query := join_pairs (kvs @ [(k, v)])\<rparr>"
proof -
  obtain k v where kv: "encode_parameter name = Inr k" "encode_parameter val = Inr v"
    and b': "append_query b (k @ 61 # v) False = Inr b'"
    using assms(3) by (auto simp: append_parameter_def split: sum.splits)
  then have pair: "encoded_pair (name, val) (k, v)" by (simp add: encoded_pair_def)
  from encoded_plain [OF this] have "hd (k @ 61 # v) \<noteq> 38" by (cases k) (auto simp: plain_pair_def)
  then have "b' = b\<lparr>m_query := join_pairs (kvs @ [(k, v)])\<rparr>"
    using b' last_join_pairs [OF assms(2)] assms(1)
    by (cases "kvs = []") (auto simp: append_query_def encoded_if_def join_pairs_snoc)
  with pair show ?thesis by (rule that)
qed

lemma append_parameters_pairs:
  assumes "m_query b = join_pairs kvs" and "list_all2 encoded_pair raw0 kvs" and "append_parameters b raw = Inr b'"
  shows "\<exists>kvs'. list_all2 encoded_pair (raw0 @ raw) kvs' \<and> b' = b\<lparr>m_query := join_pairs kvs'\<rparr>"
  using assms
proof (induction raw arbitrary: b kvs raw0)
  case Nil
  then show ?case by (intro exI [of _ kvs]) simp
next
  case (Cons r raw)
  obtain name val where r: "r = (name, val)" by (cases r)
  obtain b1 where b1: "append_parameter b name val True = Inr b1" "append_parameters b1 raw = Inr b'"
    using Cons.prems(3) by (auto simp: r split: sum.splits)
  have "list_all plain_pair kvs"
    using Cons.prems(2) by (induction rule: list_all2_induct) (simp_all add: encoded_plain)
  from append_parameter_pairs [OF Cons.prems(1) this b1(1)] obtain k v
    where kv: "encoded_pair (name, val) (k, v)" "b1 = b\<lparr>m_query := join_pairs (kvs @ [(k, v)])\<rparr>" .
  moreover have "list_all2 encoded_pair (raw0 @ [r]) (kvs @ [(k, v)])"
    using Cons.prems(2) kv(1) by (simp add: r list_all2_appendI)
  ultimately show ?case
    using Cons.IH [of b1 "kvs @ [(k, v)]" "raw0 @ [r]"] b1(2) by simp
qed

text \<open>C25: The parameters of a query. Names and values appended to a builder without a query are found again: \<open>split_query\<close>
  gives under the encoded name the value appended last for it, and decoding returns this value unit by unit.\<close>
theorem query_parameters_read_back:
  assumes "m_query b = []" and "append_parameters b raw = Inr b'" and "map_of (rev raw) name = Some val"
  shows "\<exists>k v. encode_parameter name = Inr k \<and> split_query (m_query b') k = Some v \<and> decode v = Inr val"
proof -
  obtain kvs where "list_all2 encoded_pair raw kvs" "b' = b\<lparr>m_query := join_pairs kvs\<rparr>"
    using append_parameters_pairs [of b "[]" "[]" raw b'] assms(1,2) by auto
  with query_read_back(2) [OF this(1) assms(3)] show ?thesis by simp
qed

theorem query_parameters_read_back_witness:
  "\<exists>k v. encode_parameter (wlit ''a'') = Inr k \<and> split_query (wlit ''a=1&%3D=2&a=%26'') k = Some v \<and> decode v = Inr (wlit ''&'')"
proof -
  have "append_parameters new_components [(wlit ''a'', wlit ''1''), (wlit ''='', wlit ''2''), (wlit ''a'', wlit ''&'')]
      = Inr (new_components\<lparr>m_query := wlit ''a=1&%3D=2&a=%26''\<rparr>)"
    by (simp add: append_parameter_def append_query_def encoded_if_def encode_parameter_def encode_impl_def encode_byte_def
        unit_bytes_def high_surrogate_def hex_characters hex_characters_def classes is_alnum_def wlit_Cons new_components_def)
  from query_parameters_read_back [OF _ this, of "wlit ''a''" "wlit ''&''"] show ?thesis
    by (simp add: new_components_def wlit_Cons)
qed

section \<open>What is joined is parsed\<close>

lemma scan_part_append:
  assumes "list_all (\<lambda>c. \<not> stop c \<and> ok c) a" and "r = [] \<or> stop (hd r)"
  shows "scan_part stop ok (a @ r) = Some (a, r)"
  using assms by (induction a) (cases r; auto)+

lemma scan_scheme_append:
  assumes "list_all (\<lambda>c. c \<noteq> 58 \<and> is_scheme_character c) s"
  shows "scan_scheme (s @ 58 # r) = Some (s, r)"
  using assms by (induction s) auto

text \<open>Components in canonical form: those \<open>parse\<close> can give back. A host has no colon and no at sign.\<close>

definition lower_ascii :: "wchar \<Rightarrow> bool" where
  "lower_ascii c \<longleftrightarrow> c < 128 \<and> \<not> (65 \<le> c \<and> c \<le> 90)"

definition proper :: "runtime \<Rightarrow> uri_components \<Rightarrow> bool" where
  "proper rt c \<longleftrightarrow>
     (m_scheme c = [] \<or> isalpha rt (hd (m_scheme c)))
     \<and> list_all (\<lambda>x. lower_ascii x \<and> is_scheme_character x) (m_scheme c)
     \<and> list_all (\<lambda>x. lower_ascii x \<and> (is_unreserved x \<or> is_sub_delim x \<or> x = 37)) (m_host c)
     \<and> list_all is_user_info_character (m_user_info c)
     \<and> m_path c \<noteq> [] \<and> hd (m_path c) = 47 \<and> list_all is_path_character (m_path c)
     \<and> list_all is_query_character (m_query c) \<and> list_all is_fragment_character (m_fragment c)
     \<and> 0 \<le> m_port c \<and> m_port c < 2 ^ 31
     \<and> (m_host c = [] \<longrightarrow> m_user_info c = [] \<and> m_port c = 0 \<and> take 2 (m_path c) \<noteq> [47, 47])"

lemma lower_fixed: "lower_ascii c \<Longrightarrow> tolower rt c = c" "lower_ascii c \<Longrightarrow> tolower_classic rt c = c"
  by (auto simp: lower_ascii_def tolower_def tolower_classic_def)

lemma map_lower_fixed:
  assumes "list_all (\<lambda>x. lower_ascii x \<and> P x) s"
  shows "map (tolower rt) s = s" "map (tolower_classic rt) s = s"
  using assms by (induction s) (auto simp: lower_fixed)

lemma canonicalize_proper: "proper rt c \<Longrightarrow> canonicalize rt c = c"
  by (auto simp: canonicalize_def proper_def map_lower_fixed Let_def)

text \<open>The parts of the joined text.\<close>

definition authority_text :: "uri_components \<Rightarrow> wstring" where
  "authority_text c = (if m_user_info c = [] then [] else m_user_info c @ [64]) @ m_host c
     @ (if m_port c > 0 then 58 # print_int (m_port c) else [])"

definition tail_text :: "uri_components \<Rightarrow> wstring" where
  "tail_text c = (if m_query c = [] then [] else 63 # m_query c) @ (if m_fragment c = [] then [] else 35 # m_fragment c)"

lemma join_text_parts:
  "proper rt c \<Longrightarrow> join_text c = (if m_scheme c = [] then [] else m_scheme c @ [58])
    @ (if m_host c = [] then [] else [47, 47] @ authority_text c) @ m_path c @ tail_text c"
  by (auto simp: join_text_def authority_text_def tail_text_def proper_def)

lemma class_no_delim:
  "is_scheme_character c \<Longrightarrow> c \<noteq> 47 \<and> c \<noteq> 58 \<and> c \<noteq> 0"
  "is_unreserved c \<Longrightarrow> c \<notin> {0, 35, 47, 58, 63, 64}" "is_sub_delim c \<Longrightarrow> c \<notin> {0, 35, 47, 58, 63, 64}"
  "is_user_info_character c \<Longrightarrow> c \<notin> {0, 35, 47, 63, 64}"
  "is_path_character c \<Longrightarrow> c \<notin> {0, 35, 63}" "is_query_character c \<Longrightarrow> c \<notin> {0, 35}" "is_fragment_character c \<Longrightarrow> c \<noteq> 0"
  by (auto simp: classes is_alnum_def wlit_Cons)

lemma digit_unit: "d < 10 \<Longrightarrow> unat (48 + of_nat d :: wchar) = 48 + d" "d < 10 \<Longrightarrow> unat (of_nat d :: wchar) = d"
  by (simp_all add: unat_word_ariths unat_of_nat)

lemma print_int_digits:
  assumes "0 < n"
  shows "list_all (\<lambda>c. 48 \<le> c \<and> c \<le> 57) (print_int n)" and "print_int n \<noteq> []"
  using assms by (auto simp: print_int_def to_wstring_def list_all_iff word_le_nat_alt digit_unit dest!: dec_digits_less)

lemma value_of_digits:
  "list_all (\<lambda>d. d < 10) ds \<Longrightarrow> foldl (\<lambda>n c. 10 * n + unat (c - 48 :: wchar)) k (map (\<lambda>d. 48 + of_nat d) ds) = foldl (\<lambda>a d. 10 * a + d) k ds"
  by (induction ds arbitrary: k) (simp_all add: digit_unit)

lemma scan_print:
  assumes "0 < n" and "n < 2 ^ 31"
  shows "scan_int rt (print_int n) = n"
proof -
  have "list_all (\<lambda>d. d < 10) (dec_digits (nat n))" by (auto simp: list_all_iff dest: dec_digits_less)
  then have "foldl (\<lambda>k c. 10 * k + unat (c - 48)) 0 (print_int n) = nat n"
    using value_of_digits [of "dec_digits (nat n)" 0] foldl_dec_digits [of "nat n"] assms(1)
    by (simp add: print_int_def to_wstring_def)
  moreover have "takeWhile (\<lambda>c. 48 \<le> c \<and> c \<le> 57) (print_int n) = print_int n"
    using print_int_digits(1) [OF assms(1)] by (simp add: takeWhile_eq_all_conv list_all_iff)
  ultimately have "foldl (\<lambda>k c. 10 * k + unat (c - 48)) 0 (takeWhile (\<lambda>c. 48 \<le> c \<and> c \<le> 57) (print_int n)) = nat n"
    by (simp only:)
  then show ?thesis
    using assms print_int_digits(2) [OF assms(1)] by (simp add: scan_int_def)
qed

lemma isdigit_delim: "\<not> isdigit rt 58" "\<not> isdigit rt 64" "48 \<le> c \<Longrightarrow> c \<le> 57 \<Longrightarrow> isdigit rt c"
  by (auto simp: isdigit_def word_le_nat_alt word_less_nat_alt)

lemma split_port_with:
  assumes "0 < n" and "n < 2 ^ 31"
  shows "split_port rt (u @ 58 # print_int n) = (u, n)"
proof -
  have "takeWhile (isdigit rt) (rev (print_int n) @ 58 # rev u) = rev (print_int n)"
    "dropWhile (isdigit rt) (rev (print_int n) @ 58 # rev u) = 58 # rev u"
    using print_int_digits(1) [OF assms(1)] isdigit_delim
    by (auto simp: list_all_iff takeWhile_append dropWhile_append takeWhile_eq_all_conv)
  then show ?thesis
    by (simp add: split_port_def scan_print [OF assms])
qed

lemma split_port_without:
  assumes "58 \<notin> set host" and "pre = [] \<or> last pre = 64"
  shows "split_port rt (pre @ host) = (pre @ host, 0)"
proof -
  let ?rest = "dropWhile (isdigit rt) (rev (pre @ host))"
  have "hd ?rest \<noteq> 58" if "?rest \<noteq> []"
  proof (cases "dropWhile (isdigit rt) (rev host) = []")
    case False
    then have "hd (dropWhile (isdigit rt) (rev host)) \<in> set host" by (metis hd_in_set set_dropWhileD set_rev)
    with False assms(1) show ?thesis by (auto simp: dropWhile_append)
  next
    case True
    then have all: "\<forall>x \<in> set host. isdigit rt x" by (simp add: dropWhile_eq_Nil_conv)
    then have "?rest = dropWhile (isdigit rt) (rev pre)" by (simp add: dropWhile_append3 dropWhile_append)
    with that have "pre \<noteq> []" by auto
    with assms(2) have ends: "rev pre = 64 # rev (butlast pre)" by (metis append_butlast_last_id rev_eq_Cons_iff rev_rev_ident)
    have "dropWhile (isdigit rt) (rev pre) = 64 # rev (butlast pre)"
      unfolding ends by (simp add: isdigit_delim)
    with \<open>?rest = _\<close> have "?rest = 64 # rev (butlast pre)" by (simp only:)
    then show ?thesis by simp
  qed
  then show ?thesis by (auto simp: split_port_def Let_def last_rev)
qed

lemma split_authority_text:
  assumes c: "proper rt c" and host: "m_host c \<noteq> []"
  shows "split_authority rt (authority_text c) r =
    r\<lparr>port_value := m_port c, uinfo_part := (if m_user_info c = [] then uinfo_part r else Some (m_user_info c)), host_part := Some (m_host c)\<rparr>"
proof -
  let ?pre = "if m_user_info c = [] then [] else m_user_info c @ [64]"
  have hosts: "is_user_info_character x \<and> x \<noteq> 58 \<and> x \<noteq> 64" if "x \<in> set (m_host c)" for x
    using c that class_no_delim(2,3) [of x] by (auto simp: proper_def list_all_iff is_user_info_character_def wlit_Cons)
  have users: "is_user_info_character x" if "x \<in> set (m_user_info c)" for x
    using c that by (auto simp: proper_def list_all_iff)
  have port: "split_port rt (authority_text c) = (?pre @ m_host c, m_port c)"
  proof (cases "m_port c > 0")
    case True
    then show ?thesis
      using split_port_with [of "m_port c" rt "?pre @ m_host c"] c by (simp add: authority_text_def proper_def)
  next
    case False
    with c have "m_port c = 0" by (simp add: proper_def)
    moreover have "58 \<notin> set (m_host c)" using hosts by blast
    ultimately show ?thesis
      using split_port_without [of "m_host c" ?pre rt] by (auto simp: authority_text_def)
  qed
  have "\<not> is_user_info_character 64" using class_no_delim(4) [of 64] by auto
  show ?thesis
  proof (cases "m_user_info c = []")
    case True
    then have "dropWhile is_user_info_character (m_host c) = []" using hosts by (simp add: dropWhile_eq_Nil_conv)
    with True show ?thesis by (simp add: split_authority_def port Let_def)
  next
    case False
    have "takeWhile is_user_info_character (m_user_info c @ 64 # m_host c) = m_user_info c"
      "dropWhile is_user_info_character (m_user_info c @ 64 # m_host c) = 64 # m_host c"
      using users \<open>\<not> is_user_info_character 64\<close> by (auto simp: takeWhile_append dropWhile_append takeWhile_eq_all_conv)
    with False \<open>\<not> is_user_info_character 64\<close> show ?thesis by (simp add: split_authority_def port Let_def)
  qed
qed

lemma authority_characters:
  assumes "proper rt c"
  shows "list_all (\<lambda>x. x \<notin> {47, 63, 35} \<and> is_authority_character x) (authority_text c)"
proof -
  have digits: "x \<notin> {47, 63, 35} \<and> is_authority_character x" if "48 \<le> x" "x \<le> 57" for x :: wchar
  proof -
    have "48 \<le> unat x" "unat x \<le> 57" using that by (simp_all add: word_le_nat_alt)
    then have "unat (ucast x :: u8) = unat x" by (simp add: unsigned_ucast_eq take_bit_eq_mod)
    with \<open>48 \<le> unat x\<close> \<open>unat x \<le> 57\<close> have "is_alnum (ucast x)" by (simp add: is_alnum_def word_le_nat_alt)
    then show ?thesis using that by (auto simp: is_authority_character_def is_unreserved_def word_le_nat_alt)
  qed
  have sets: "x \<notin> {47, 63, 35} \<and> is_authority_character x" if "is_user_info_character x \<or> is_unreserved x \<or> is_sub_delim x \<or> x = 37 \<or> x = 58 \<or> x = 64" for x
    using that class_no_delim(2-4) [of x] by (auto simp: is_authority_character_def is_user_info_character_def wlit_Cons)
  have "is_user_info_character x \<or> is_unreserved x \<or> is_sub_delim x \<or> x = 37 \<or> x = 58 \<or> x = 64 \<or> 48 \<le> x \<and> x \<le> 57"
    if "x \<in> set (authority_text c)" for x
  proof -
    have "x \<in> set (m_user_info c) \<or> x = 64 \<or> x \<in> set (m_host c) \<or> x = 58 \<or> 0 < m_port c \<and> x \<in> set (print_int (m_port c))"
      using that by (auto simp: authority_text_def split: if_splits)
    then show ?thesis
      using assms print_int_digits(1) [of "m_port c"] unfolding proper_def list_all_iff by blast
  qed
  then show ?thesis
    unfolding list_all_iff using sets digits by blast
qed

lemma relative_reference_slash: "is_relative_reference (47 # p)"
  by simp

lemma relative_reference_scheme: "list_all is_scheme_character s \<Longrightarrow> \<not> is_relative_reference (s @ 58 # p)"
  by (induction s) (auto dest: class_no_delim(1))

lemma parse_scheme_text:
  assumes "proper rt c" and "p \<noteq> []" and "hd p = 47"
  shows "parse_scheme rt ((if m_scheme c = [] then [] else m_scheme c @ [58]) @ p)
    = Some (no_parts\<lparr>scheme_part := (if m_scheme c = [] then None else Some (m_scheme c))\<rparr>, p)"
proof (cases "m_scheme c")
  case Nil
  then show ?thesis using assms(2,3) by (cases p) (auto simp: parse_scheme_def no_parts_def)
next
  case (Cons x s)
  have chars: "list_all is_scheme_character (x # s)" "isalpha rt x"
    using assms(1) Cons by (auto simp: proper_def list_all_iff)
  then have "list_all (\<lambda>c. c \<noteq> 58 \<and> is_scheme_character c) s" by (auto simp: list_all_iff dest: class_no_delim(1))
  from scan_scheme_append [OF this] show ?thesis
    using relative_reference_scheme [OF chars(1), of p] chars(2) by (simp add: Cons parse_scheme_def del: is_relative_reference.simps)
qed

lemma parse_authority_text:
  assumes "proper rt c" and "p \<noteq> []" and "hd p = 47" and "m_host c = [] \<Longrightarrow> take 2 p \<noteq> [47, 47]"
  shows "parse_authority rt (r, (if m_host c = [] then [] else [47, 47] @ authority_text c) @ p)
    = Some (if m_host c = [] then r else split_authority rt (authority_text c) r, p)"
proof (cases "m_host c = []")
  case True
  then show ?thesis using assms(4) by (simp add: parse_authority_def)
next
  case False
  then have "authority_text c \<noteq> []" by (simp add: authority_text_def)
  with False show ?thesis
    using scan_part_append [OF authority_characters [OF assms(1)], of p] assms(2,3) by (simp add: parse_authority_def)
qed

lemma parse_path_text:
  assumes "proper rt c" and "p = [] \<or> hd p \<in> {63, 35}"
  shows "parse_path (r, m_path c @ p) = Some (r\<lparr>path_part := Some (m_path c)\<rparr>, p)"
proof -
  have "list_all (\<lambda>x. x \<notin> {63, 35} \<and> is_path_character x) (m_path c)" "m_path c \<noteq> []" "hd (m_path c) = 47"
    using assms(1) by (auto simp: proper_def list_all_iff dest: class_no_delim(5))
  with scan_part_append [OF this(1), of p] assms(2) show ?thesis by (simp add: parse_path_def)
qed

lemma parse_tail_text:
  assumes "proper rt c"
  shows "Option.bind (parse_query (r, tail_text c)) parse_fragment
    = Some (r\<lparr>query_part := (if m_query c = [] then query_part r else Some (m_query c)),
              fragment_part := (if m_fragment c = [] then fragment_part r else Some (m_fragment c))\<rparr>, [])"
proof -
  let ?f = "if m_fragment c = [] then [] else 35 # m_fragment c"
  have query: "list_all (\<lambda>x. x \<noteq> 35 \<and> is_query_character x) (m_query c)"
    and fragment: "list_all (\<lambda>x. \<not> False \<and> is_fragment_character x) (m_fragment c)"
    using assms by (auto simp: proper_def list_all_iff dest: class_no_delim(6))
  have "parse_query (r, tail_text c) = Some (r\<lparr>query_part := (if m_query c = [] then query_part r else Some (m_query c))\<rparr>, ?f)"
    using scan_part_append [OF query, of ?f] by (auto simp: parse_query_def tail_text_def)
  moreover have "parse_fragment (q, ?f) = Some (q\<lparr>fragment_part := (if m_fragment c = [] then fragment_part q else Some (m_fragment c))\<rparr>, [])" for q
    using scan_part_append [OF fragment, of "[]"] by (auto simp: parse_fragment_def)
  ultimately show ?thesis by simp
qed

lemma joined_has_no_null:
  assumes "proper rt c"
  shows "0 \<notin> set (join_text c)"
proof -
  have no_null: "\<not> is_authority_character 0"
    using class_no_delim(2,3) [of 0] by (auto simp: is_authority_character_def wlit_Cons)
  have "0 \<notin> set (authority_text c)"
    using authority_characters [OF assms] no_null by (auto simp: list_all_iff)
  moreover have "0 \<notin> set (m_scheme c)" "0 \<notin> set (m_path c)" "0 \<notin> set (m_query c)" "0 \<notin> set (m_fragment c)"
    using assms class_no_delim(1,5-7) [of 0] by (auto simp: proper_def list_all_iff)
  ultimately show ?thesis
    by (simp add: join_text_parts [OF assms] tail_text_def)
qed

lemma parse_joined:
  assumes c: "proper rt c"
  shows "parse rt (join_text c) new_components = Some c"
proof -
  let ?r = "no_parts\<lparr>scheme_part := (if m_scheme c = [] then None else Some (m_scheme c))\<rparr>"
  let ?p = "m_path c @ tail_text c"
  have path: "m_path c \<noteq> []" "hd (m_path c) = 47" using c by (simp_all add: proper_def)
  have tail: "tail_text c = [] \<or> hd (tail_text c) \<in> {63, 35}" by (auto simp: tail_text_def)
  have "parse_scheme rt (join_text c) = Some (?r, (if m_host c = [] then [] else [47, 47] @ authority_text c) @ ?p)"
    using parse_scheme_text [OF c, of "(if m_host c = [] then [] else [47, 47] @ authority_text c) @ ?p"] path
    by (simp add: join_text_parts [OF c])
  moreover have "take 2 ?p \<noteq> [47, 47]" if "m_host c = []"
    using c that tail path by (cases "m_path c"; cases "tl (m_path c)"; cases "tail_text c") (auto simp: proper_def)
  then have "parse_authority rt (?r, (if m_host c = [] then [] else [47, 47] @ authority_text c) @ ?p)
      = Some (if m_host c = [] then ?r else split_authority rt (authority_text c) ?r, ?p)"
    using path by (intro parse_authority_text [OF c]) simp_all
  ultimately have "inner_parse rt (join_text c) = map_option fst
      (Option.bind (parse_path (if m_host c = [] then ?r else split_authority rt (authority_text c) ?r, ?p))
        (\<lambda>x. Option.bind (parse_query x) parse_fragment))"
    by (simp add: inner_parse_def map_conv_bind_option case_prod_beta comp_def)
  then have "inner_parse rt (join_text c) = Some
      \<lparr>scheme_part = (if m_scheme c = [] then None else Some (m_scheme c)),
       uinfo_part = (if m_user_info c = [] then None else Some (m_user_info c)),
       host_part = (if m_host c = [] then None else Some (m_host c)), port_value = m_port c, path_part = Some (m_path c),
       query_part = (if m_query c = [] then None else Some (m_query c)),
       fragment_part = (if m_fragment c = [] then None else Some (m_fragment c))\<rparr>"
    using c by (simp add: parse_path_text [OF c tail] parse_tail_text [OF c] split_authority_text [OF c] no_parts_def proper_def)
  moreover have "c_str (join_text c) = join_text c"
    using joined_has_no_null [OF c] by (auto simp: c_str_def takeWhile_eq_all_conv)
  moreover have "map (tolower_classic rt) (m_scheme c) = m_scheme c" "map (tolower_classic rt) (m_host c) = m_host c"
    using c by (auto simp: proper_def intro!: map_lower_fixed(2))
  ultimately show ?thesis
    by (simp add: parse_def new_components_def)
qed

lemma join_proper: "proper rt c \<Longrightarrow> join_components rt c = (join_text c, c)"
  by (simp add: join_components_def canonicalize_proper)

lemma new_uri_joined: "proper rt c \<Longrightarrow> new_uri rt (join_text c) = Some \<lparr>m_uri = join_text c, m_components = c\<rparr>"
  by (simp add: new_uri_def parse_joined join_proper)

definition authority_components :: "uri_components \<Rightarrow> uri_components" where
  "authority_components c = c\<lparr>m_path := [47], m_query := [], m_fragment := []\<rparr>"

definition resource_components :: "uri_components \<Rightarrow> uri_components" where
  "resource_components c = c\<lparr>m_scheme := [], m_host := [], m_user_info := [], m_port := 0\<rparr>"

lemma proper_parts:
  assumes "proper rt c"
  shows "proper rt (authority_components c)"
    and "take 2 (m_path c) \<noteq> [47, 47] \<Longrightarrow> proper rt (resource_components c)"
  using assms by (simp_all add: proper_def authority_components_def resource_components_def is_path_character_def wlit_Cons)

text \<open>C24: URIs and their texts. Components in canonical form are joined to a text from which the constructor gives these very
  components back; the \<open>authority\<close> of such a URI has its scheme, user information, host and port and the path \<open>/\<close>, and its
  \<open>resource\<close> has its path, query and fragment, unless the path begins with two slashes.\<close>
theorem uri_read_back:
  assumes "proper rt c"
  shows "\<exists>u. join_components rt c = (m_uri u, c) \<and> new_uri rt (m_uri u) = Some u \<and> m_components u = c
    \<and> map_option m_components (uri_authority rt u) = Some (authority_components c)
    \<and> (take 2 (m_path c) \<noteq> [47, 47] \<longrightarrow> map_option m_components (uri_resource rt u) = Some (resource_components c))"
proof -
  let ?u = "\<lparr>m_uri = join_text c, m_components = c\<rparr>"
  let ?a = "new_components\<lparr>m_scheme := m_scheme c, m_host := m_host c, m_port := m_port c, m_user_info := m_user_info c\<rparr>"
  have "?a = authority_components c" by (simp add: new_components_def authority_components_def)
  then have "uri_authority rt ?u = new_uri rt (join_text (authority_components c))"
    using join_proper [OF proper_parts(1) [OF assms]] by (simp add: uri_authority_def to_uri_def)
  moreover have "uri_resource rt ?u = new_uri rt (join_text (resource_components c))"
    by (simp add: uri_resource_def to_uri_def join_components_def canonicalize_def new_components_def resource_components_def join_text_def Let_def)
  ultimately show ?thesis
    using assms proper_parts [OF assms] by (intro exI [of _ ?u]) (simp add: join_proper new_uri_joined)
qed

definition demo_runtime :: runtime where
  "demo_runtime = \<lparr>alpha_beyond = (\<lambda>c. True), digit_beyond = (\<lambda>c. False), lower_beyond = id, wide_lower_beyond = id, unset_int = 7\<rparr>"

definition demo_components :: uri_components where
  "demo_components = \<lparr>m_scheme = wlit ''http'', m_host = wlit ''a.b'', m_user_info = wlit ''u:p'', m_path = wlit ''//x'',
     m_query = wlit ''q=1'', m_fragment = wlit ''f'', m_port = 80\<rparr>"

theorem uri_read_back_witness:
  "\<exists>u. join_components demo_runtime demo_components = (m_uri u, demo_components) \<and> new_uri demo_runtime (m_uri u) = Some u \<and> m_components u = demo_components"
proof -
  have "proper demo_runtime demo_components"
    by (simp add: proper_def demo_components_def demo_runtime_def isalpha_def lower_ascii_def classes is_alnum_def wlit_Cons)
  from uri_read_back [OF this] show ?thesis by blast
qed

text \<open>What the conditions exclude: two slashes in front of a path are read as an authority, a port of 0 hides behind a host with a
  colon, and a text whose first character can begin nothing is accepted without being read.\<close>

lemma resource_becomes_authority:
  "map_option (m_host \<circ> m_components) (uri_resource demo_runtime \<lparr>m_uri = join_text demo_components, m_components = demo_components\<rparr>) = Some (wlit ''x'')"
  by (simp add: uri_resource_def to_uri_def new_uri_def parse_def join_components_def canonicalize_def join_text_def demo_components_def
      demo_runtime_def new_components_def inner_parse_def parse_scheme_def parse_authority_def parse_path_def parse_query_def parse_fragment_def
      split_authority_def split_port_def isdigit_def tolower_def tolower_classic_def no_parts_def c_str_def classes is_alnum_def wlit_Cons Let_def)

lemma port_changes:
  "map_option m_components (new_uri demo_runtime (wlit ''//a:1:0'')) = Some (new_components\<lparr>m_host := wlit ''a:1'', m_port := 0\<rparr>)"
  "map_option m_uri (new_uri demo_runtime (wlit ''//a:1:0'')) = Some (wlit ''//a:1/'')"
  by (simp_all add: new_uri_def parse_def join_components_def canonicalize_def join_text_def
      demo_runtime_def new_components_def inner_parse_def parse_scheme_def parse_authority_def parse_path_def parse_query_def parse_fragment_def
      split_authority_def split_port_def isdigit_def scan_int_def tolower_def tolower_classic_def no_parts_def c_str_def classes is_alnum_def wlit_Cons Let_def)

lemma unread_text_accepted:
  assumes "\<not> is_path_character c" and "c \<notin> {0, 35, 47, 58, 63}" and "58 \<notin> set (takeWhile (\<lambda>x. x \<noteq> 47) p)" and "0 \<notin> set p"
  shows "parse rt (c # p) new_components = Some (new_components\<lparr>m_port := 0\<rparr>)"
proof -
  have "is_relative_reference p" using assms(3) by (induction p) (auto split: if_splits)
  then have "parse_scheme rt (c # p) = Some (no_parts, c # p)" using assms(2) by (simp add: parse_scheme_def)
  moreover have "c_str (c # p) = c # p" using assms(2,4) by (auto simp: c_str_def takeWhile_eq_all_conv)
  ultimately show ?thesis
    using assms(1,2) by (simp add: parse_def inner_parse_def parse_authority_def parse_path_def parse_query_def parse_fragment_def no_parts_def new_components_def)
qed

section \<open>What is parsed is the text\<close>

lemma scan_part_split:
  "scan_part stop ok p = Some (a, r) \<Longrightarrow> p = a @ r \<and> list_all ok a \<and> (r = [] \<or> stop (hd r))"
  by (induction stop ok p arbitrary: a rule: scan_part.induct) (auto split: if_splits)

lemma scan_scheme_split: "scan_scheme p = Some (s, r) \<Longrightarrow> p = s @ 58 # r \<and> list_all is_scheme_character s"
proof (induction p arbitrary: s)
  case Nil
  then show ?case using class_no_delim(1) [of 0] by (auto split: if_splits)
qed (auto split: if_splits)

text \<open>A part behind its delimiter, or nothing.\<close>

definition part_text :: "wstring \<Rightarrow> wstring option \<Rightarrow> wstring" where
  "part_text delim x = (case x of None \<Rightarrow> [] | Some s \<Rightarrow> delim @ s)"

definition scheme_text :: "wstring option \<Rightarrow> wstring" where
  "scheme_text x = (case x of None \<Rightarrow> [] | Some s \<Rightarrow> s @ [58])"

definition authority_spells :: "runtime \<Rightarrow> parts \<Rightarrow> wstring \<Rightarrow> bool" where
  "authority_spells rt r text \<longleftrightarrow>
     text \<in> {[], [47, 47]} \<and> host_part r = None \<and> uinfo_part r = None \<and> port_value r = 0
     \<or> (\<exists>host port. text = [47, 47] @ (case uinfo_part r of None \<Rightarrow> [] | Some u \<Rightarrow> u @ [64]) @ host @ port \<and> host_part r = Some host
         \<and> (port = [] \<and> port_value r = 0 \<or> (\<exists>digits. port = 58 # digits \<and> list_all (isdigit rt) digits \<and> port_value r = scan_int rt digits)))"

lemma parse_scheme_split:
  assumes "parse_scheme rt t = Some (r, p)"
  shows "t = scheme_text (scheme_part r) @ p \<and> r = no_parts\<lparr>scheme_part := scheme_part r\<rparr>"
  using assms by (cases t) (auto simp: parse_scheme_def scheme_text_def no_parts_def dest!: scan_scheme_split split: if_splits)

lemma split_port_split:
  assumes "split_port rt a = (host, n)"
  shows "a = host \<and> n = 0 \<or> (\<exists>digits. a = host @ 58 # digits \<and> list_all (isdigit rt) digits \<and> n = scan_int rt digits)"
proof -
  define d f where "d = rev (takeWhile (isdigit rt) (rev a))" and "f = rev (dropWhile (isdigit rt) (rev a))"
  have a: "f @ d = a" unfolding d_def f_def by (metis rev_append rev_rev_ident takeWhile_dropWhile_id)
  have d: "list_all (isdigit rt) d" unfolding d_def by (auto simp: list_all_iff dest: set_takeWhileD)
  have port: "split_port rt a = (if f \<noteq> [] \<and> last f = 58 then (butlast f, scan_int rt d) else (a, 0))"
    by (simp only: split_port_def d_def f_def Let_def)
  show ?thesis
  proof (cases "f \<noteq> [] \<and> last f = 58")
    case True
    then have "f = butlast f @ [58]" by (metis append_butlast_last_id)
    then have "a = butlast f @ 58 # d" using a by (metis append.assoc append_Cons append_Nil)
    with d port True assms show ?thesis by auto
  next
    case False
    with port assms show ?thesis by (simp only: if_False prod.inject) simp
  qed
qed

lemma split_authority_split:
  assumes "uinfo_part r = None"
  shows "authority_spells rt (split_authority rt a r) ([47, 47] @ a) \<and> scheme_part (split_authority rt a r) = scheme_part r
    \<and> path_part (split_authority rt a r) = path_part r \<and> query_part (split_authority rt a r) = query_part r
    \<and> fragment_part (split_authority rt a r) = fragment_part r"
proof -
  obtain h n where h: "split_port rt a = (h, n)" by (cases "split_port rt a")
  let ?u = "takeWhile is_user_info_character h" and ?rest = "dropWhile is_user_info_character h"
  have h_split: "h = ?u @ ?rest" by simp
  obtain port where a: "a = h @ port" "port = [] \<and> n = 0 \<or> (\<exists>digits. port = 58 # digits \<and> list_all (isdigit rt) digits \<and> n = scan_int rt digits)"
    using split_port_split [OF h] by (metis append_Nil2)
  show ?thesis
  proof (cases "?rest \<noteq> [] \<and> hd ?rest = 64")
    case True
    then have "h = ?u @ [64] @ tl ?rest" using h_split by (metis append_Cons append_Nil list.collapse)
    then have "[47, 47] @ a = [47, 47] @ (?u @ [64]) @ tl ?rest @ port" using a(1) by simp
    moreover have "split_authority rt a r = r\<lparr>port_value := n, uinfo_part := Some ?u, host_part := Some (tl ?rest)\<rparr>"
      by (simp only: split_authority_def h prod.case Let_def True simp_thms if_True)
    ultimately show ?thesis
      using a(2) unfolding authority_spells_def by auto
  next
    case False
    then have "split_authority rt a r = r\<lparr>port_value := n, host_part := Some h\<rparr>"
      by (simp only: split_authority_def h prod.case Let_def if_False)
    with a assms show ?thesis
      unfolding authority_spells_def by auto
  qed
qed

lemma parse_authority_split:
  assumes "parse_authority rt (no_parts\<lparr>scheme_part := s\<rparr>, p) = Some (r, q)"
  obtains a where "p = a @ q" "authority_spells rt r a" "scheme_part r = s" "path_part r = None" "query_part r = None" "fragment_part r = None"
proof (cases "take 2 p = [47, 47]")
  case False
  with assms show ?thesis by (intro that [of "[]"]) (auto simp: parse_authority_def authority_spells_def no_parts_def)
next
  case True
  then have p: "p = [47, 47] @ drop 2 p" by (metis append_take_drop_id)
  obtain a where a: "scan_part (\<lambda>c. c \<in> {47, 63, 35}) is_authority_character (drop 2 p) = Some (a, q)"
    "r = (if a = [] then no_parts\<lparr>scheme_part := s\<rparr> else split_authority rt a (no_parts\<lparr>scheme_part := s\<rparr>))"
    using assms True by (auto simp: parse_authority_def)
  then have "p = ([47, 47] @ a) @ q" using p scan_part_split [OF a(1)] by simp
  then show ?thesis
    using split_authority_split [of "no_parts\<lparr>scheme_part := s\<rparr>" rt a] a(2)
    by (intro that [of "[47, 47] @ a"]) (auto simp: no_parts_def authority_spells_def split: if_splits)
qed

lemma parse_tail_split:
  assumes "parse_path (r, p) = Some x" and "parse_query x = Some y" and "parse_fragment y = Some (r', q)"
    and "path_part r = None" and "query_part r = None" and "fragment_part r = None"
  shows "p = part_text [] (path_part r') @ part_text [63] (query_part r') @ part_text [35] (fragment_part r') @ q
    \<and> r' = r\<lparr>path_part := path_part r', query_part := query_part r', fragment_part := fragment_part r'\<rparr>
    \<and> (q = [] \<or> path_part r' = None \<and> query_part r' = None \<and> fragment_part r' = None)"
proof -
  obtain r1 p1 where x: "x = (r1, p1)" by (cases x)
  have 1: "p = part_text [] (path_part r1) @ p1 \<and> r1 = r\<lparr>path_part := path_part r1\<rparr>
      \<and> (path_part r1 = None \<or> p1 = [] \<or> hd p1 \<in> {63, 35})"
    using assms(1,4) scan_part_split by (fastforce simp: x parse_path_def part_text_def split: if_splits)
  obtain r2 p2 where y: "y = (r2, p2)" by (cases y)
  have 2: "p1 = part_text [63] (query_part r2) @ p2 \<and> r2 = r1\<lparr>query_part := query_part r2\<rparr>
      \<and> (if query_part r2 = None then p1 = p2 \<and> (p1 = [] \<or> hd p1 \<noteq> 63) else p2 = [] \<or> hd p2 = 35)"
  proof (cases "p1 \<noteq> [] \<and> hd p1 = 63")
    case True
    then obtain query where "scan_part (\<lambda>c. c = 35) is_query_character (tl p1) = Some (query, p2)" "r2 = r1\<lparr>query_part := Some query\<rparr>"
      using assms(2) by (auto simp: x y parse_query_def)
    with scan_part_split [OF this(1)] True show ?thesis by (cases p1) (auto simp: part_text_def)
  next
    case False
    then have "r2 = r1 \<and> p2 = p1" using assms(2) by (auto simp: x y parse_query_def)
    moreover have "query_part r1 = None" using 1 assms(5) by (metis parts.select_convs(6) parts.surjective parts.update_convs(5))
    ultimately show ?thesis using False by (auto simp: part_text_def)
  qed
  have none: "query_part r1 = None" "fragment_part r2 = None"
    using 1 2 assms(5,6) by (metis parts.select_convs parts.surjective parts.update_convs)+
  have 3: "p2 = part_text [35] (fragment_part r') @ q \<and> r' = r2\<lparr>fragment_part := fragment_part r'\<rparr>
      \<and> (if fragment_part r' = None then q = p2 \<and> (p2 = [] \<or> hd p2 \<noteq> 35) else q = [])"
  proof (cases "p2 \<noteq> [] \<and> hd p2 = 35")
    case True
    then obtain fragment where "scan_part (\<lambda>c. False) is_fragment_character (tl p2) = Some (fragment, q)" "r' = r2\<lparr>fragment_part := Some fragment\<rparr>"
      using assms(3) by (auto simp: y parse_fragment_def)
    with scan_part_split [OF this(1)] True show ?thesis by (cases p2) (auto simp: part_text_def)
  next
    case False
    then have "r' = r2 \<and> q = p2" using assms(3) by (auto simp: y parse_fragment_def)
    with False none(2) show ?thesis by (auto simp: part_text_def)
  qed
  have same: "path_part r' = path_part r1" "query_part r' = query_part r2"
    using 2 3 by (metis parts.select_convs parts.surjective parts.update_convs)+
  have "p = part_text [] (path_part r1) @ part_text [63] (query_part r2) @ part_text [35] (fragment_part r') @ q"
    using 1 2 3 by (simp only: append_assoc)
  moreover have "r' = r\<lparr>path_part := path_part r1, query_part := query_part r2, fragment_part := fragment_part r'\<rparr>"
  proof -
    have e: "r1 = r\<lparr>path_part := path_part r1\<rparr>" "r2 = r1\<lparr>query_part := query_part r2\<rparr>" "r' = r2\<lparr>fragment_part := fragment_part r'\<rparr>"
      using 1 2 3 by blast+
    show ?thesis
      by (rule trans [OF e(3)], rule arg_cong [where f = "fragment_part_update (\<lambda>_. fragment_part r')"],
          rule trans [OF e(2)], rule arg_cong [where f = "query_part_update (\<lambda>_. query_part r2)"], rule e(1))
  qed
  moreover have "q = [] \<or> path_part r1 = None \<and> query_part r2 = None \<and> fragment_part r' = None"
  proof -
    have "path_part r1 = None \<or> p1 = [] \<or> hd p1 \<in> {63, 35}" using 1 by blast
    moreover have "if query_part r2 = None then p1 = p2 \<and> (p1 = [] \<or> hd p1 \<noteq> 63) else p2 = [] \<or> hd p2 = 35" using 2 by blast
    moreover have "if fragment_part r' = None then q = p2 \<and> (p2 = [] \<or> hd p2 \<noteq> 35) else q = []" using 3 by blast
    ultimately show ?thesis by (cases "query_part r2 = None"; cases "fragment_part r' = None") auto
  qed
  ultimately show ?thesis
    unfolding same by (intro conjI)
qed

text \<open>An accepted text is the text of its parts. When the parser accepts a text, the text is the scheme and its colon, the
  authority that spells user information, host and port, the path, the query and the fragment with their delimiters, in this order,
  and nothing is left behind them, except that a text without path, query and fragment may end in characters that were not read.\<close>
theorem parsed_parts_spell_text:
  assumes "inner_parse rt t = Some r"
  shows "\<exists>a unread. t = scheme_text (scheme_part r) @ a @ part_text [] (path_part r) @ part_text [63] (query_part r)
      @ part_text [35] (fragment_part r) @ unread
    \<and> authority_spells rt r a
    \<and> (unread = [] \<or> path_part r = None \<and> query_part r = None \<and> fragment_part r = None)"
proof -
  obtain r1 p1 r2 p2 x y q where steps: "parse_scheme rt t = Some (r1, p1)" "parse_authority rt (r1, p1) = Some (r2, p2)"
    "parse_path (r2, p2) = Some x" "parse_query x = Some y" "parse_fragment y = Some (r, q)"
    using assms by (auto simp: inner_parse_def bind_eq_Some_conv)
  have s: "t = scheme_text (scheme_part r1) @ p1" "r1 = no_parts\<lparr>scheme_part := scheme_part r1\<rparr>"
    using parse_scheme_split [OF steps(1)] by blast+
  have "parse_authority rt (no_parts\<lparr>scheme_part := scheme_part r1\<rparr>, p1) = Some (r2, p2)"
    using steps(2) unfolding s(2) [symmetric] .
  then obtain a where a: "p1 = a @ p2" "authority_spells rt r2 a" "scheme_part r2 = scheme_part r1"
    "path_part r2 = None" "query_part r2 = None" "fragment_part r2 = None"
    by (rule parse_authority_split)
  note parts = parse_tail_split [OF steps(3-5) a(4-6)]
  have "scheme_part r = scheme_part r2" "uinfo_part r = uinfo_part r2" "host_part r = host_part r2" "port_value r = port_value r2"
    using arg_cong [OF parts [THEN conjunct2, THEN conjunct1]] by (metis parts.select_convs parts.surjective parts.update_convs)+
  then have "authority_spells rt r a" "scheme_part r = scheme_part r1"
    using a(2,3) by (simp_all add: authority_spells_def)
  then show ?thesis
    using s(1) a(1) parts by (intro exI [of _ a] exI [of _ q]) simp
qed

theorem parsed_parts_spell_text_witness:
  "\<exists>r. inner_parse demo_runtime (wlit ''a://u@h:8/p?q#f'') = Some r \<and> uinfo_part r = Some (wlit ''u'') \<and> port_value r = 8
    \<and> (\<exists>a. authority_spells demo_runtime r a \<and> wlit ''a://u@h:8/p?q#f'' = wlit ''a:'' @ a @ wlit ''/p?q#f'')"
proof -
  let ?r = "\<lparr>scheme_part = Some (wlit ''a''), uinfo_part = Some (wlit ''u''), host_part = Some (wlit ''h''), port_value = 8,
    path_part = Some (wlit ''/p''), query_part = Some (wlit ''q''), fragment_part = Some (wlit ''f'')\<rparr>"
  have r: "inner_parse demo_runtime (wlit ''a://u@h:8/p?q#f'') = Some ?r"
    by (simp add: demo_runtime_def inner_parse_def parse_scheme_def parse_authority_def parse_path_def parse_query_def parse_fragment_def
        split_authority_def split_port_def isalpha_def isdigit_def scan_int_def no_parts_def classes is_alnum_def wlit_Cons Let_def)
  from parsed_parts_spell_text [OF r]
  have "\<exists>a. authority_spells demo_runtime ?r a \<and> wlit ''a://u@h:8/p?q#f'' = wlit ''a:'' @ a @ wlit ''/p?q#f''"
    by (auto simp: scheme_text_def part_text_def wlit_Cons)
  with r show ?thesis by (intro exI [of _ ?r]) simp
qed

section \<open>Comparing\<close>

text \<open>\<open>operator ==\<close> decodes part after part; an error of the decoding is an exception.\<close>

definition same_decoded :: "wstring \<Rightarrow> wstring \<Rightarrow> (uri_error + bool) \<Rightarrow> uri_error + bool" where
  "same_decoded a b rest =
     (case decode a of
        Inl e \<Rightarrow> Inl e
      | Inr a \<Rightarrow> (case decode b of Inl e \<Rightarrow> Inl e | Inr b \<Rightarrow> if a \<noteq> b then Inr False else rest))"

definition uri_eq :: "uri \<Rightarrow> uri \<Rightarrow> uri_error + bool" where
  "uri_eq this other =
     (let c = m_components this; d = m_components other
      in if is_empty_uri this \<and> is_empty_uri other then Inr True
         else if is_empty_uri this \<or> is_empty_uri other then Inr False
         else if m_scheme c \<noteq> m_scheme d then Inr False
         else same_decoded (m_user_info c) (m_user_info d)
           (same_decoded (m_host c) (m_host d)
             (if m_port c \<noteq> m_port d then Inr False
              else same_decoded (m_path c) (m_path d)
                (same_decoded (m_query c) (m_query d)
                  (same_decoded (m_fragment c) (m_fragment d) (Inr True))))))"

definition is_path_empty :: "uri \<Rightarrow> bool" where
  "is_path_empty u \<longleftrightarrow> m_path (m_components u) = [] \<or> m_path (m_components u) = [47]"

definition is_host_loopback :: "uri \<Rightarrow> bool" where
  "is_host_loopback u \<longleftrightarrow> \<not> is_empty_uri u
     \<and> (m_host (m_components u) = wlit ''localhost'' \<or> length (m_host (m_components u)) > 4 \<and> take 4 (m_host (m_components u)) = wlit ''127.'')"

definition is_host_wildcard :: "uri \<Rightarrow> bool" where
  "is_host_wildcard u \<longleftrightarrow> \<not> is_empty_uri u \<and> (m_host (m_components u) = wlit ''*'' \<or> m_host (m_components u) = wlit ''+'')"

definition is_host_portable :: "uri \<Rightarrow> bool" where
  "is_host_portable u \<longleftrightarrow> \<not> (is_empty_uri u \<or> is_host_loopback u \<or> is_host_wildcard u)"

definition is_port_default :: "uri \<Rightarrow> bool" where
  "is_port_default u \<longleftrightarrow> \<not> is_empty_uri u \<and> m_port (m_components u) = 0"

definition is_authority :: "uri \<Rightarrow> bool" where
  "is_authority u \<longleftrightarrow> \<not> is_empty_uri u \<and> is_path_empty u \<and> m_query (m_components u) = [] \<and> m_fragment (m_components u) = []"

lemma same_decoded_iff:
  "same_decoded a b rest = Inr True \<longleftrightarrow> (\<exists>t. decode a = Inr t \<and> decode b = Inr t) \<and> rest = Inr True"
  by (auto simp: same_decoded_def split: sum.splits)

text \<open>Two URIs are equal when each part decodes to the same text, and no other pair is, the empty ones apart.\<close>

lemma uri_eq_iff:
  assumes "\<not> is_empty_uri u" and "\<not> is_empty_uri v"
  shows "uri_eq u v = Inr True \<longleftrightarrow>
    m_scheme (m_components u) = m_scheme (m_components v) \<and> m_port (m_components u) = m_port (m_components v)
    \<and> list_all (\<lambda>f. \<exists>t. decode (f (m_components u)) = Inr t \<and> decode (f (m_components v)) = Inr t)
        [m_user_info, m_host, m_path, m_query, m_fragment]"
  using assms by (auto simp: uri_eq_def same_decoded_iff Let_def)

end
