(* ===== verification/Spec2Isabelle.thy ===== *)
theory Spec2Isabelle
  imports Application Dnsping_Statistics Json_Number Duilib_Groups Duilib_Markup_Tree Base64 Uri
begin

text \<open>
  A model of \<open>dns_selector\<close>, a Windows program that fetches a list of DNS servers, pings them and sets the fastest
  ones on a network adapter, together with the parts of its libraries that decide what it does.

  \<^bold>\<open>The program.\<close> \<open>WinMain\<close> creates a window (\<open>src/code/src/ui.cpp\<close>); its buttons and its first start call
  \<open>dns_selector\<close> (\<open>dns_selector.cpp\<close>) from worker threads. The selector asks \<open>ip_fetcher\<close> for the list (one GET whose
  JSON answer is parsed), \<open>dns_ping\<close> for the time of a server (the library DNSPing, called with fixed arguments) and
  \<open>dns_switcher\<close> for the adapters and for the switch (\<open>wmi.cpp\<close> speaks with WMI over COM, \<open>performance_counter.cpp\<close>
  reads traffic counters). Answers and messages come back to the window as posted closures.

  \<^bold>\<open>The theories,\<close> in the order of their imports:

  \<^item> \<open>Prelude\<close>: machine words, wide strings, \<open>std::unordered_map\<close> and \<open>std::sort\<close> (their order is a parameter \<open>lib\<close>
    under the laws \<open>stdlib_laws\<close>, which a concrete library interprets), collections of simp rules.
  \<^item> \<open>Define\<close>: \<open>define.h\<close> and \<open>version.h\<close>. \<open>Json_Value\<close>: \<open>web::json::value\<close> and the subscript of objects
    (a binary search that inserts), shown to be a lookup in sorted fields.
  \<^item> \<open>Json_Lexer\<close>, \<open>Json_Parser\<close>: the tokens of JSON texts, \<open>value::parse\<close> and the writer of cpprestsdk
    (\<open>json_parsing.cpp\<close>, \<open>json_serialization.cpp\<close>); the order \<open>std::sort\<close> leaves open and the format of doubles are
    parameters. \<open>Json_Number\<close>: tests and
    conversions of numbers. \<open>Json_Roundtrip\<close>: what is read of a written text. \<open>Utf\<close>: UTF-8, UTF-16 and Latin 1
    (\<open>asyncrt_utils.cpp\<close>). \<open>Http_Body\<close>: \<open>_extract_json\<close> with content types and charsets (\<open>http_msg.cpp\<close>,
    \<open>http_helpers.cpp\<close>).
  \<^item> \<open>State\<close>: the state \<open>st\<close> (the outside world, the trace of events, the counter for names), the calls of the
    outside as the record \<open>os\<close>, the events (messages, actions, acquisitions and releases of resources), and what it
    means that an operation extends the trace, acts on nothing, or keeps the balance of a resource.
  \<^item> \<open>Ip_Fetcher\<close>: \<open>ip_fetcher.cpp\<close>; the parser is compared with \<open>read_respond\<close>, a reading of the document
    without state, and the answer is followed from its bytes to the map (\<open>answer_body\<close>). \<open>Wmi\<close>: \<open>wmi.cpp\<close>; \<open>Performance_Counter\<close> and \<open>Dns_Switcher\<close>: the files of these names.
    \<open>Util\<close>: \<open>util.h\<close>. \<open>Ad_Performancer\<close>: \<open>ad_performancer.cpp\<close>.
  \<^item> \<open>Selector\<close>: \<open>dns_selector.cpp\<close> over a record of its members, under the contracts of the locales
    \<open>dns_source\<close>, \<open>adapter_provider\<close> and \<open>pinger\<close>, which the locale \<open>selector\<close> joins.
  \<^item> \<open>Ui\<close>: \<open>ui.cpp\<close> and the list control of duilib (\<open>UIList.cpp\<close>, \<open>UIContainer.cpp\<close>): the window, its queue of
    posted closures and its workers as the step relation \<open>ui_step\<close>, with invariants of every reachable state.
  \<^item> \<open>Dnsping_Names\<close>, \<open>Dnsping_Base\<close>, \<open>Dnsping_Protocol\<close>: the name tables, structures, the table of parameters and
    the helpers of \<open>src/code/third/DNSPing/Source\<close> (\<open>Base.h\<close>, \<open>Protocol.cpp\<close>). \<open>Dnsping_Commands\<close>,
    \<open>Dnsping_Options\<close>: the command line (\<open>ReadCommands\<close> of \<open>Main.cpp\<close>). \<open>Dnsping_Text\<close>, \<open>Dnsping_Resolver\<close>: how a
    response is shown (\<open>Resolver.cpp\<close>), a function that writes being a text with an answer, a fault when it reads outside
    the buffer, or \<open>None\<close>; \<open>Dnsping_Responses\<close>: what that means. \<open>Dnsping_Process\<close>: one request (\<open>Process.cpp\<close>). \<open>Dnsping_Main\<close>: the main process. \<open>Dnsping_Ping\<close>: \<open>Interface.cpp\<close> and \<open>dns_ping.cpp\<close>.
    \<open>Dnsping_Statistics\<close>: the opening line, the statistics and the handler for Ctrl+C.
    Winsock and the clock are the record \<open>net\<close>; the table \<open>ConfigurationParameter\<close> extends the state.
  \<^item> \<open>Duilib_String\<close>, \<open>Duilib_Array\<close>, \<open>Duilib_Map\<close>: the strings, arrays and hash tables of duilib (\<open>Utils.cpp\<close>), written
    over blocks of memory: a string is its buffer and its block on the heap, a table the heads of its buckets and the
    doubly linked items they lead to. \<open>Duilib_Finite_Map\<close>: the table as a finite map, under the contract \<open>finite_map\<close> of its
    clients. \<open>Duilib_Manager\<close>, \<open>Duilib_Groups\<close>: what \<open>CPaintManagerUI\<close> keeps about controls (\<open>UIManager.cpp\<close>): names, option
    groups, timers and pointers. \<open>Duilib_Markup\<close>: the parser of layouts, which works in the buffer it was given (\<open>UIMarkup.cpp\<close>);
    \<open>Duilib_Markup_Text\<close>, \<open>Duilib_Markup_Tree\<close>: that it stays inside the buffer and builds a tree. \<open>Base64\<close>: \<open>base64.cpp\<close> of cpprestsdk. \<open>Uri_Encoding\<close>,
    \<open>Uri\<close>: its URIs (\<open>uri.cpp\<close>, \<open>uri_parser.cpp\<close>, \<open>uri_builder.cpp\<close>), what the runtime does beyond ASCII being a parameter.
  \<^item> \<open>Application\<close>: the members of the selector are the modelled components, and every locale is interpreted on
    them; the properties of the whole program are stated here.

  \<^bold>\<open>What is shown.\<close> Of the whole: a successful selection pinged every server of the obtained map, one after the other,
  took the fastest by the times of these pings and switched once more; its requests, waits and switches are bounded; it
  returns when the clock advances and no answer has a body that is not UTF-8. Of the
  fetcher: it delivers what the document says, from the bytes of the body on, and has a known result for every answer,
  or an exception leaves it. Of JSON: parsing ends, a written value is read back up to the limit of nesting, its text
  survives UTF-8, and the charsets that keep the text give the same value. Of WMI: a
  listing is exactly the readable adapters, each with the counters of its interface, a switch is exactly one call; what
  each path acquires and releases. Of the
  window: the buttons come back, operations exclude each other until a switch succeeded, a clicked row of either list is the
  selected one, the queue is worked off. Of DNSPing: what a request sends, counts and closes, that a ping of an address the system accepts sends three queries and
  reports a mean between the shortest and the longest time, that every run ends unless responses are to be shown; that a
  response is shown record by record, its names label by label, its bytes line by line, and that pointers in a cycle are
  followed forever; and that its statistics count what was sent, received and lost. Of duilib: strings, arrays and tables
  refine texts, lists and finite maps without reading or writing outside a block or through a null or freed pointer; \<open>Replace\<close>
  ends and replaces every occurrence; a destroyed control, named or not, is forgotten by its manager, by the table of names
  when the names in it are true. A layout that ends with a greater-than sign is loaded by a fresh \<open>CMarkup\<close> without an access outside its buffer, and its nodes are walked as a tree.
  Of base64: a text is decoded exactly when it is an encoding. Of URIs: joined components are parsed back, an accepted text is
  the text of its parts, encoded parts and query parameters are read back, paths are appended segment by segment. Several theorems state defects,
  among them: a body that is not UTF-8 escapes every handler (\<open>undecodable_answer_escapes\<close>), elements of an array are
  lost if \<open>CopyMemory\<close> copies downwards (\<open>remove_copies_overlap\<close>), an object without a value is accepted, servers that all time out are still selected, a ping of a refused address succeeds, resources that leak,
  options with swapped bits or missing bounds, a control renamed by
  \<open>SetName\<close> whose old name outlives it, \<open>Append\<close> that loses the text (\<open>append_loses_text\<close>), \<open>Replace\<close> of an empty pattern,
  a layout that ends behind the name of a closing tag (\<open>unclosed_layout_read_outside\<close>).

  \<^bold>\<open>Conventions.\<close> Machine integers are words of their width in the 32-bit build, strings are lists of units, errors are
  values of \<open>result\<close> or a Boolean, an operation returns its updated state. A loop that may run forever is a
  \<open>partial_function\<close> over \<open>option\<close>: \<open>None\<close> is not returning (of a request that shows a response also an undefined read
  outside the buffer). In \<open>Selector\<close> it is also the \<open>std::range_error\<close> that leaves a request for the list, which nothing
  catches; \<open>fetch\<close> gives this exception as \<open>Inl\<close>. There is no fuel; that loops end is proved from
  \<open>clock_advances\<close>, the documented behaviour of the performance counter, and from the bound 65536 of the requests.
  In the theories of duilib \<open>None\<close> is also an access outside a block or through an invalid pointer; which requests for memory
  are granted and what a fresh block holds is the parameter \<open>memory\<close>, and \<open>roomy\<close> (for the parser of layouts
  \<open>grants_all\<close>) says that enough is granted; what \<open>CopyMemory\<close> makes of ranges that overlap, undefined by its documentation,
  is the parameter \<open>copier\<close>, and \<open>copies_up\<close> says that it copies upwards; \<open>char_next_law\<close> is what Windows documents of \<open>CharNext\<close>.
  Floating-point times are real numbers, so their rounding is not modelled. A call of the outside is a function
  of the world in \<open>os\<close> or \<open>net\<close>; what the code relies on is a named hypothesis (\<open>stdlib_laws\<close>, \<open>query_contract\<close>,
  \<open>clock_advances\<close>, \<open>winsock_starts\<close>), and concrete machines (\<open>demo_os\<close>, \<open>int_net\<close>, \<open>app_os\<close>) meet them in
  the witnesses.

  \<^bold>\<open>Not modelled.\<close> Drawing, layout and the creation of the window; the usage text and the error messages of DNSPing; the
  branches for other systems than Windows; the JSON parser of streams, narrow strings, and the rounding of numbers to doubles; the HTTP client
  and the tasks of cpprestsdk, whose answers are parameters (\<open>json_body\<close> says what reading a body gives: a value or one of
  the exceptions it can throw, and \<open>answer_body\<close> computes it from the bytes); websocketpp and the other third-party code the program does not reach;
  of duilib everything but the parts named above, of its strings \<open>Format\<close>, the conversions from narrow strings and arguments
  that point into the string itself; the interleaving of two workers within one call of the selector.
\<close>

end
